(* ===== verification/Prelude.thy ===== *)
theory Prelude
  imports Main "HOL-Library.Word"
begin

text \<open>
  Shared vocabulary of the development: the machine integer types of
  \<^verbatim>\<open>src/include/types.h\<close>, the \<^verbatim>\<open>Status\<close> enumeration, the outcome of a kernel
  routine (it returns, it panics, it touches memory it must not touch, or it never
  returns), and the generic lemmas on words, lists and outcomes that the components share.
\<close>

unbundle bit_operations_syntax

subsection \<open>Machine integers\<close>

type_synonym u8 = "8 word"
type_synonym u16 = "16 word"
type_synonym u32 = "32 word"

subsection \<open>Status values\<close>

datatype status =
    SUCCESS | FAILURE | BAD_PARAM | EMPTY_QUEUE | NOT_EMPTY_QUEUE
  | ALLOC_FAILED | NOT_FOUND | NO_QUEUES | BAD_PRIO | FEATURE_UNIMPLEMENTED

text \<open>The integer a status is when it is stored in a register or in user memory.\<close>

primrec status_code :: "status \<Rightarrow> u32" where
  "status_code SUCCESS = 0"
| "status_code FAILURE = 1"
| "status_code BAD_PARAM = 2"
| "status_code EMPTY_QUEUE = 3"
| "status_code NOT_EMPTY_QUEUE = 4"
| "status_code ALLOC_FAILED = 5"
| "status_code NOT_FOUND = 6"
| "status_code NO_QUEUES = 7"
| "status_code BAD_PRIO = 8"
| "status_code FEATURE_UNIMPLEMENTED = 9"

lemma status_code_inject [simp]: "status_code a = status_code b \<longleftrightarrow> a = b"
  by (cases a; cases b) simp_all

subsection \<open>Outcomes\<close>

text \<open>
  \<open>Ok x\<close>: the routine returns \<open>x\<close>. \<open>Panic m\<close>: it called the kernel panic routine with
  message \<open>m\<close> and the machine halted. \<open>Fault\<close>: it read or wrote through a pointer that
  does not point to a live object (undefined behaviour in C). \<open>Diverge\<close>: a loop that does
  not end.
\<close>

datatype 'a outcome = Ok 'a | Panic string | Fault | Diverge

primrec obind :: "'a outcome \<Rightarrow> ('a \<Rightarrow> 'b outcome) \<Rightarrow> 'b outcome" where
  "obind (Ok x) f = f x"
| "obind (Panic m) f = Panic m"
| "obind Fault f = Fault"
| "obind Diverge f = Diverge"

primrec returns :: "'a outcome \<Rightarrow> bool" where
  "returns (Ok x) = True"
| "returns (Panic m) = False"
| "returns Fault = False"
| "returns Diverge = False"

text \<open>A panic is a defined end of a routine; a fault or a loop is not.\<close>

primrec defined_outcome :: "'a outcome \<Rightarrow> bool" where
  "defined_outcome (Ok x) = True"
| "defined_outcome (Panic m) = True"
| "defined_outcome Fault = False"
| "defined_outcome Diverge = False"

definition of_loop :: "'a outcome option \<Rightarrow> 'a outcome" where
  "of_loop r = (case r of None \<Rightarrow> Diverge | Some x \<Rightarrow> x)"

definition deref :: "'a option \<Rightarrow> 'a outcome" where
  "deref r = (case r of None \<Rightarrow> Fault | Some x \<Rightarrow> Ok x)"

lemma of_loop_simps [simp]: "of_loop None = Diverge" "of_loop (Some x) = x"
  by (simp_all add: of_loop_def)

lemma deref_simps [simp]: "deref None = Fault" "deref (Some x) = Ok x"
  by (simp_all add: deref_def)

lemma deref_eq_Ok [simp]: "deref r = Ok x \<longleftrightarrow> r = Some x"
  by (cases r) auto

lemma obind_eq_Ok [simp]: "obind m f = Ok y \<longleftrightarrow> (\<exists>x. m = Ok x \<and> f x = Ok y)"
  by (cases m) auto

lemma obind_eq_Panic:
  "obind m f = Panic e \<longleftrightarrow> m = Panic e \<or> (\<exists>x. m = Ok x \<and> f x = Panic e)"
  by (cases m) auto

lemma obind_assoc: "obind (obind m f) g = obind m (\<lambda>x. obind (f x) g)"
  by (cases m) auto

lemma returns_iff: "returns m \<longleftrightarrow> (\<exists>x. m = Ok x)"
  by (cases m) auto

lemma defined_obind:
  "defined_outcome (obind m f) \<longleftrightarrow>
     defined_outcome m \<and> (\<forall>x. m = Ok x \<longrightarrow> defined_outcome (f x))"
  by (cases m) auto

text \<open>The same sequencing inside the body of a loop that may not end.\<close>

definition lift_bind :: "'a outcome \<Rightarrow> ('a \<Rightarrow> 'b outcome option) \<Rightarrow> 'b outcome option" where
  "lift_bind m f = (case m of Ok x \<Rightarrow> f x | Panic e \<Rightarrow> Some (Panic e) | Fault \<Rightarrow> Some Fault | Diverge \<Rightarrow> Some Diverge)"

lemma lift_bind_simps [simp]:
  "lift_bind (Ok x) f = f x" "lift_bind (Panic e) f = Some (Panic e)" "lift_bind Fault f = Some Fault"
  "lift_bind Diverge f = Some Diverge"
  by (simp_all add: lift_bind_def)

lemma lift_bind_mono [partial_function_mono]:
  assumes "\<And>x. monotone (fun_ord option_ord) option_ord (\<lambda>f. B f x)"
  shows "monotone (fun_ord option_ord) option_ord (\<lambda>f. lift_bind m (B f))"
  using assms by (cases m) (simp_all add: lift_bind_def monotone_def flat_ord_def)

lemma of_loop_lift: "of_loop (lift_bind m f) = obind m (\<lambda>x. of_loop (f x))"
  by (cases m) simp_all

subsection \<open>Counted loops\<close>

primrec ofold :: "('x \<Rightarrow> 's \<Rightarrow> 's outcome) \<Rightarrow> 'x list \<Rightarrow> 's \<Rightarrow> 's outcome" where
  "ofold f [] s = Ok s"
| "ofold f (x # xs) s = obind (f x s) (ofold f xs)"

text \<open>\<open>ofor i n f\<close> is \<^verbatim>\<open>for (j = i; j < n; ++j)\<close> with the body \<open>f j\<close>.\<close>

abbreviation ofor :: "nat \<Rightarrow> nat \<Rightarrow> (nat \<Rightarrow> 's \<Rightarrow> 's outcome) \<Rightarrow> 's \<Rightarrow> 's outcome" where
  "ofor i n f \<equiv> ofold f [i..<n]"

lemma ofold_append: "ofold f (xs @ ys) = (\<lambda>s. obind (ofold f xs s) (ofold f ys))"
proof (induction xs)
  case (Cons x xs)
  show ?case by (rule ext) (simp add: Cons.IH obind_assoc)
qed simp

lemma obind_Ok [simp]: "obind m Ok = m"
  by (cases m) simp_all

lemma ofor_Suc: "i \<le> n \<Longrightarrow> ofor i (Suc n) f s = obind (ofor i n f s) (f n)"
proof -
  assume "i \<le> n"
  then have "[i..<Suc n] = [i..<n] @ [n]" by simp
  moreover have "ofold f [] = Ok" by (rule ext) simp
  then have "ofold f [n] = f n" by (intro ext) simp
  ultimately show ?thesis by (simp only: ofold_append)
qed

lemma ofold_inv:
  assumes "ofold f xs s = Ok s'" "P s"
    and "\<And>x s s'. x \<in> set xs \<Longrightarrow> P s \<Longrightarrow> f x s = Ok s' \<Longrightarrow> P s'"
  shows "P s'"
  using assms by (induction xs arbitrary: s) auto

lemma ofold_total:
  assumes "P s" "\<And>x s. x \<in> set xs \<Longrightarrow> P s \<Longrightarrow> \<exists>s'. f x s = Ok s' \<and> P s'"
  shows "\<exists>s'. ofold f xs s = Ok s' \<and> P s'"
  using assms
proof (induction xs arbitrary: s)
  case (Cons x xs)
  then obtain s' where "f x s = Ok s'" "P s'" by (meson list.set_intros(1))
  moreover from this obtain s'' where "ofold f xs s' = Ok s''" "P s''"
    using Cons by (metis list.set_intros(2))
  ultimately show ?case by auto
qed simp

subsection \<open>Words\<close>

named_theorems word_arith "facts that move an address computation from words to naturals"

lemma unat_add_no_wrap:
  fixes a b :: "'a::len word"
  assumes "unat a + unat b < 2 ^ LENGTH('a)"
  shows "unat (a + b) = unat a + unat b"
  using assms by (simp add: unat_word_ariths)

lemma unat_sub_no_wrap:
  fixes a b :: "'a::len word"
  assumes "unat b \<le> unat a"
  shows "unat (a - b) = unat a - unat b"
  using assms by (simp add: unat_sub word_le_nat_alt)

lemma unat_div_mod:
  "unat (drop_bit n a) = unat a div 2 ^ n" "unat (a AND mask n) = unat a mod 2 ^ n"
  for a :: u32
proof -
  show "unat (drop_bit n a) = unat a div 2 ^ n"
    by (simp only: unat_drop_bit_eq) (rule drop_bit_eq_div)
  have "unat (take_bit n a) = take_bit n (unat a)" by (rule unsigned_take_bit_eq)
  then show "unat (a AND mask n) = unat a mod 2 ^ n"
    by (simp only: take_bit_eq_mask take_bit_eq_mod) (simp only: take_bit_eq_mask [symmetric] take_bit_eq_mod)
qed

text \<open>The high bits of a word.\<close>

lemma high_bits_zero: "(v :: u32) AND NOT (mask n) = 0 \<longleftrightarrow> unat v div 2 ^ n = 0"
proof
  assume "v AND NOT (mask n) = 0"
  moreover have "v = (v AND NOT (mask n)) OR (v AND mask n)" by (rule bit_eqI) (auto simp: bit_simps)
  ultimately have "v = v AND mask n" by simp
  then have "unat v = unat v mod 2 ^ n" using unat_div_mod(2) by metis
  then show "unat v div 2 ^ n = 0" by (metis bits_mod_div_trivial)
next
  assume "unat v div 2 ^ n = 0"
  then have "unat v < 2 ^ n" by (simp add: div_eq_0_iff)
  then have "v AND mask n = v" by (simp only: word_unat_eq_iff unat_div_mod) simp
  then have "v AND NOT (mask n) = (v AND mask n) AND NOT (mask n)" by simp
  then show "v AND NOT (mask n) = 0" by (simp add: and.assoc)
qed

lemma unat_u32_bound: "unat (w :: u32) < 4294967296"
  using unsigned_less [of w, where ?'a = nat] by simp

lemma word_neq_unat: "a \<noteq> b \<longleftrightarrow> unat a \<noteq> unat (b :: 'a::len word)"
  by (metis word_unat_eq_iff)

subsection \<open>Lists\<close>

lemma sorted_wrt_mid:
  "sorted_wrt R (xs @ a # ys) \<longleftrightarrow>
     sorted_wrt R xs \<and> sorted_wrt R ys \<and> (\<forall>x\<in>set xs. R x a) \<and> (\<forall>y\<in>set ys. R a y) \<and>
     (\<forall>x\<in>set xs. \<forall>y\<in>set ys. R x y)"
  by (auto simp: sorted_wrt_append)

text \<open>The first or last element of a linked segment, or its neighbour when it is empty.\<close>

definition hd_or :: "'a list \<Rightarrow> 'a \<Rightarrow> 'a" where
  "hd_or xs d = (case xs of [] \<Rightarrow> d | x # _ \<Rightarrow> x)"

definition last_or :: "'a list \<Rightarrow> 'a \<Rightarrow> 'a" where
  "last_or xs d = (if xs = [] then d else last xs)"

lemma hd_or_simps [simp]: "hd_or [] d = d" "hd_or (x # xs) d = x" "hd_or (xs @ ys) d = hd_or xs (hd_or ys d)"
  by (simp_all add: hd_or_def split: list.splits)

lemma last_or_simps [simp]: "last_or [] d = d" "last_or (x # xs) d = last_or xs x"
  "last_or (xs @ ys) d = last_or ys (last_or xs d)"
  by (simp_all add: last_or_def)

lemma hd_or_hd: "xs \<noteq> [] \<Longrightarrow> hd_or xs d = hd xs"
  by (cases xs) auto

lemma last_or_last: "xs \<noteq> [] \<Longrightarrow> last_or xs d = last xs"
  by (simp add: last_or_def)

end
