(* ===== verification/Physical.thy ===== *)
theory Physical
  imports Prelude
begin

text \<open>
  The physical page allocator, \<^verbatim>\<open>src/kernel/memory/physical.c\<close>: one bit per 4 KiB page
  in an array of 32-bit words, a set bit meaning \<open>in use\<close>. The array is modelled as the
  words of memory from the address of the bitmap on (\<open>bm\<close>), so that accesses past its
  declared number of elements are visible; \<open>next_i\<close> is the static index that
  \<^verbatim>\<open>__phys_get_free_4k\<close> resumes its scan from.

  Indices are naturals: they never exceed \<open>2 ^ 32 / 131072 = 32768\<close>, so the
  unsigned index arithmetic of the code does not wrap. Addresses are 32-bit words.
\<close>

subsection \<open>State and constants\<close>

abbreviation (input) PAGE_SIZE :: nat where "PAGE_SIZE \<equiv> 4096"
abbreviation (input) BITS_IN_INTEGER :: nat where "BITS_IN_INTEGER \<equiv> 32"
abbreviation (input) ALL_USED :: u32 where "ALL_USED \<equiv> 0xFFFFFFFF"

record phys =
  bm :: "nat \<Rightarrow> u32"
  elements :: nat
  next_i :: nat

definition addr_to_index :: "u32 \<Rightarrow> nat" where
  "addr_to_index a = unat a div PAGE_SIZE div BITS_IN_INTEGER"

definition addr_to_offset :: "u32 \<Rightarrow> nat" where
  "addr_to_offset a = (unat a div PAGE_SIZE) mod BITS_IN_INTEGER"

subsection \<open>Operations\<close>

definition phys_set_bit :: "u32 \<Rightarrow> phys \<Rightarrow> phys" where
  "phys_set_bit a p =
     (let index = addr_to_index a in
      if index \<ge> elements p then p
      else p\<lparr>bm := (bm p)(index := bm p index OR push_bit (addr_to_offset a) 1)\<rparr>)"

definition phys_unset_bit :: "u32 \<Rightarrow> phys \<Rightarrow> phys" where
  "phys_unset_bit a p =
     (let index = addr_to_index a in
      if index \<ge> elements p then p
      else p\<lparr>bm := (bm p)(index := bm p index AND NOT (push_bit (addr_to_offset a) 1))\<rparr>)"

definition phys_check_bit :: "u32 \<Rightarrow> phys \<Rightarrow> u32" where
  "phys_check_bit a p =
     (let index = addr_to_index a in
      if index \<ge> elements p then 1
      else if bm p index AND NOT (push_bit (addr_to_offset a) 1) > 0 then 1 else 0)"

text \<open>The count of free pages: the inner loop walks one word, the outer one the array.\<close>

fun count_word :: "u32 \<Rightarrow> nat \<Rightarrow> u32 \<Rightarrow> u32 \<Rightarrow> u32" where
  "count_word w 0 val acc = acc"
| "count_word w (Suc n) val acc =
     count_word w n (push_bit 1 val) (acc + (if w AND val = 0 then 1 else 0))"

fun count_words :: "(nat \<Rightarrow> u32) \<Rightarrow> nat \<Rightarrow> nat \<Rightarrow> u32 \<Rightarrow> u32" where
  "count_words b i 0 acc = acc"
| "count_words b i (Suc n) acc = count_words b (Suc i) n (count_word (b i) BITS_IN_INTEGER 1 acc)"

definition phys_get_free_page_count :: "phys \<Rightarrow> u32" where
  "phys_get_free_page_count p = count_words (bm p) 0 (elements p) 0"

text \<open>
  \<^verbatim>\<open>__phys_get_free_4k\<close>: the first loop looks for a word that is not full, starting at
  \<open>next_i\<close> and wrapping around; the second one for a clear bit of that word.
  With an empty bitmap the remainder by zero traps.
\<close>

partial_function (option) scan_words ::
  "(nat \<Rightarrow> u32) \<Rightarrow> nat \<Rightarrow> nat \<Rightarrow> nat \<Rightarrow> nat outcome option" where
  "scan_words b n i_start i =
     (if b i = ALL_USED
      then if n = 0 then Some Fault
           else let i' = (i + 1) mod n in
                if i' = i_start then Some (Ok i') else scan_words b n i_start i'
      else Some (Ok i))"

partial_function (option) scan_bits :: "u32 \<Rightarrow> u32 \<Rightarrow> nat \<Rightarrow> (u32 \<times> nat) outcome option" where
  "scan_bits w mk off =
     (if w AND mk \<noteq> 0 \<and> mk \<noteq> 0 then scan_bits w (push_bit 1 mk) (Suc off)
      else Some (Ok (mk, off)))"

definition phys_get_free_4k :: "phys \<Rightarrow> (u32 \<times> phys) outcome" where
  "phys_get_free_4k p =
     obind (of_loop (scan_words (bm p) (elements p) (next_i p) (next_i p))) (\<lambda>i.
       if bm p i = ALL_USED then Panic ''Physical Memory: No more free pages!''
       else obind (of_loop (scan_bits (bm p i) 1 0)) (\<lambda>(mk, offset).
         if mk = 0 then Panic ''Physical Memory: Impossible Condition''
         else Ok (word_of_nat (i * PAGE_SIZE * BITS_IN_INTEGER + offset * PAGE_SIZE),
                  p\<lparr>bm := (bm p)(i := bm p i OR mk), next_i := i\<rparr>)))"

subsection \<open>What the bitmap stands for\<close>

definition page_free :: "phys \<Rightarrow> nat \<Rightarrow> bool" where
  "page_free p n \<longleftrightarrow>
     n < elements p * BITS_IN_INTEGER \<and>
     \<not> bit (bm p (n div BITS_IN_INTEGER)) (n mod BITS_IN_INTEGER)"

definition free_pages :: "phys \<Rightarrow> nat set" where
  "free_pages p = {n. page_free p n}"

definition phys_ok :: "phys \<Rightarrow> bool" where
  "phys_ok p \<longleftrightarrow> next_i p < elements p \<and> elements p \<le> 32768"

lemma finite_free_pages [simp, intro]: "finite (free_pages p)"
  by (rule finite_subset [of _ "{..< elements p * 32}"]) (auto simp: free_pages_def page_free_def)

lemma word_all_used_iff: "w = ALL_USED \<longleftrightarrow> (\<forall>k<32. bit (w :: u32) k)"
proof
  assume *: "\<forall>k<32. bit w k"
  show "w = ALL_USED"
  proof (rule bit_word_eqI)
    fix n assume "n < LENGTH(32)"
    moreover have "(ALL_USED :: u32) = mask 32" by (simp add: mask_eq_exp_minus_1)
    ultimately show "bit w n = bit (ALL_USED :: u32) n"
      using * by (simp only: bit_mask_iff) simp
  qed
next
  assume "w = ALL_USED"
  moreover have "(ALL_USED :: u32) = mask 32" by (simp add: mask_eq_exp_minus_1)
  ultimately show "\<forall>k<32. bit w k" by (simp only: bit_mask_iff) simp
qed

subsection \<open>Taking a free page\<close>

lemma scan_words_returns:
  assumes "i0 < n" "k < n" "\<forall>j<k. b ((i0 + j) mod n) = ALL_USED"
  shows "\<exists>r<n. scan_words b n i0 ((i0 + k) mod n) = Some (Ok r) \<and>
           (b r \<noteq> ALL_USED \<or> (\<forall>j<n. b j = ALL_USED))"
  using assms
proof (induction "n - k" arbitrary: k)
  case 0
  then show ?case by simp
next
  case (Suc d)
  let ?i = "(i0 + k) mod n"
  have n: "0 < n" using Suc.prems by simp
  show ?case
  proof (cases "b ?i = ALL_USED")
    case False
    then show ?thesis using n by (auto simp: scan_words.simps [of b n i0 ?i])
  next
    case True
    have next_i: "(?i + 1) mod n = (i0 + Suc k) mod n"
      by (simp add: mod_Suc_eq)
    have all: "\<forall>j<Suc k. b ((i0 + j) mod n) = ALL_USED"
      using True Suc.prems by (auto simp: less_Suc_eq)
    show ?thesis
    proof (cases "Suc k = n")
      case True
      then have "(?i + 1) mod n = i0" using next_i Suc.prems by simp
      moreover have "\<forall>j<n. b j = ALL_USED"
      proof (intro allI impI)
        fix j assume j: "j < n"
        have "(i0 + (j + n - i0) mod n) mod n = (i0 + (j + n - i0)) mod n"
          by (simp add: mod_add_right_eq)
        also have "\<dots> = j" using j Suc.prems(1) by simp
        finally have "(i0 + (j + n - i0) mod n) mod n = j" .
        moreover have "(j + n - i0) mod n < Suc k" using True n by simp
        ultimately show "b j = ALL_USED" using all by metis
      qed
      ultimately show ?thesis using \<open>b ?i = ALL_USED\<close> n Suc.prems(1)
        by (auto simp: scan_words.simps [of b n i0 ?i] Let_def)
    next
      case False
      then have k: "Suc k < n" using Suc.prems by simp
      have ne: "(i0 + Suc k) mod n \<noteq> i0"
      proof
        assume *: "(i0 + Suc k) mod n = i0"
        show False
        proof (cases "i0 + Suc k < n")
          case True then show False using * by simp
        next
          case False
          then have "(i0 + Suc k) mod n = i0 + Suc k - n"
            using k Suc.prems(1) by (simp add: mod_if)
          then show False using * k by simp
        qed
      qed
      have "\<exists>r<n. scan_words b n i0 ((i0 + Suc k) mod n) = Some (Ok r) \<and>
           (b r \<noteq> ALL_USED \<or> (\<forall>j<n. b j = ALL_USED))"
        using Suc.hyps(1) [of "Suc k"] Suc.hyps(2) Suc.prems(1) k all by simp
      then show ?thesis using \<open>b ?i = ALL_USED\<close> n ne next_i
        by (simp add: scan_words.simps [of b n i0 ?i] Let_def)
    qed
  qed
qed

lemma scan_bits_returns:
  assumes "w \<noteq> ALL_USED" "k \<le> 32" "\<forall>j<k. bit w j"
  shows "\<exists>r<32. scan_bits w (2 ^ k) k = Some (Ok (2 ^ r, r)) \<and> \<not> bit w r \<and> (\<forall>j<r. bit w j)"
  using assms
proof (induction "32 - k" arbitrary: k)
  case 0
  then have "\<forall>j<32. bit w j" by simp
  then show ?case using 0 word_all_used_iff by blast
next
  case (Suc d)
  then have k: "k < 32" by simp
  then have nz: "(2 :: u32) ^ k \<noteq> 0" by simp
  have unfold: "scan_bits w (2 ^ k) k =
      (if bit w k then scan_bits w (2 ^ Suc k) (Suc k) else Some (Ok (2 ^ k, k)))"
    using nz by (simp add: scan_bits.simps [of w "2 ^ k" k] and_exp_eq_0_iff_not_bit push_bit_eq_mult mult.commute)
  show ?case
  proof (cases "bit w k")
    case True
    then have "\<forall>j<Suc k. bit w j" using Suc.prems(3) by (auto simp: less_Suc_eq)
    then have "\<exists>r<32. scan_bits w (2 ^ Suc k) (Suc k) = Some (Ok (2 ^ r, r)) \<and> \<not> bit w r \<and> (\<forall>j<r. bit w j)"
      using Suc.hyps(1) [of "Suc k"] Suc.hyps(2) Suc.prems(1) k by simp
    then show ?thesis using True unfold by presburger
  next
    case False
    then show ?thesis using k Suc.prems unfold by auto
  qed
qed

lemma div_mod_32_iff: "k < 32 \<Longrightarrow> n div 32 = i \<and> n mod 32 = k \<longleftrightarrow> n = i * 32 + (k :: nat)"
  by auto

lemma free_pages_update:
  assumes "i < elements p" "k < 32" "\<And>j. j < 32 \<Longrightarrow> j \<noteq> k \<Longrightarrow> bit w j = bit (bm p i) j"
  shows "free_pages (p\<lparr>bm := (bm p)(i := w)\<rparr>) =
           (if bit w k then free_pages p - {i * 32 + k} else insert (i * 32 + k) (free_pages p))"
proof -
  have "page_free (p\<lparr>bm := (bm p)(i := w)\<rparr>) n \<longleftrightarrow>
          (if n = i * 32 + k then \<not> bit w k else page_free p n)" for n
  proof (cases "n div 32 = i")
    case True
    then show ?thesis
      using assms div_mod_32_iff [OF assms(2), of n i]
      by (cases "n mod 32 = k") (auto simp: page_free_def)
  next
    case False
    then have "n \<noteq> i * 32 + k" using assms(2) by auto
    then show ?thesis using False by (simp add: page_free_def)
  qed
  then show ?thesis by (auto simp: free_pages_def)
qed

lemma free_pages_next_i [simp]: "free_pages (p\<lparr>next_i := i\<rparr>) = free_pages p"
  by (simp add: free_pages_def page_free_def)

lemma free_pages_next_i2 [simp]: "free_pages (p\<lparr>bm := b, next_i := i\<rparr>) = free_pages (p\<lparr>bm := b\<rparr>)"
  by (simp add: free_pages_def page_free_def)

text \<open>The address of a page and back.\<close>

definition page_addr :: "nat \<Rightarrow> u32" where
  "page_addr n = word_of_nat (n * PAGE_SIZE)"

lemma unat_page_addr: "n < 1048576 \<Longrightarrow> unat (page_addr n) = n * 4096"
  by (simp add: page_addr_def unat_of_nat del: of_nat_mult)

lemma addr_index_page: "n < 1048576 \<Longrightarrow> addr_to_index (page_addr n) = n div 32"
  "n < 1048576 \<Longrightarrow> addr_to_offset (page_addr n) = n mod 32"
  by (simp_all add: addr_to_index_def addr_to_offset_def unat_page_addr)

lemma phys_alloc_spec:
  assumes "phys_ok p"
  shows "(free_pages p = {} \<longrightarrow> phys_get_free_4k p = Panic ''Physical Memory: No more free pages!'') \<and>
     (free_pages p \<noteq> {} \<longrightarrow>
       (\<exists>n p'. phys_get_free_4k p = Ok (page_addr n, p') \<and> n \<in> free_pages p \<and>
               free_pages p' = free_pages p - {n} \<and> elements p' = elements p \<and> phys_ok p'))"
proof -
  let ?n = "elements p"
  have i: "next_i p < ?n" and small: "?n \<le> 32768" using assms by (auto simp: phys_ok_def)
  obtain r where r: "r < ?n" "scan_words (bm p) ?n (next_i p) (next_i p) = Some (Ok r)"
    "bm p r \<noteq> ALL_USED \<or> (\<forall>j<?n. bm p j = ALL_USED)"
    using scan_words_returns [of "next_i p" ?n 0 "bm p"] i by auto
  show ?thesis
  proof (cases "bm p r = ALL_USED")
    case True
    then have full: "\<forall>j<?n. bm p j = ALL_USED" using r by auto
    have "free_pages p = {}"
    proof -
      have "\<not> page_free p n" for n
      proof (cases "n < ?n * 32")
        case True
        then have "n div 32 < ?n" "n mod 32 < 32" by (auto simp: less_mult_imp_div_less)
        then have "bit (bm p (n div 32)) (n mod 32)" using full word_all_used_iff by blast
        then show ?thesis by (simp add: page_free_def)
      qed (simp add: page_free_def)
      then show ?thesis by (simp add: free_pages_def)
    qed
    then show ?thesis using True r by (simp add: phys_get_free_4k_def)
  next
    case False
    obtain k where k: "k < 32" "scan_bits (bm p r) 1 0 = Some (Ok (2 ^ k, k))" "\<not> bit (bm p r) k"
      using scan_bits_returns [OF False, of 0] by auto
    let ?p = "p\<lparr>bm := (bm p)(r := bm p r OR 2 ^ k), next_i := r\<rparr>"
    let ?m = "r * 32 + k"
    have "phys_get_free_4k p = Ok (page_addr ?m, ?p)"
      using False r k by (simp add: phys_get_free_4k_def page_addr_def algebra_simps)
    moreover have "?m \<in> free_pages p"
      using r k by (simp add: free_pages_def page_free_def)
    moreover have "free_pages ?p = free_pages p - {?m}"
      using free_pages_update [of r p k "bm p r OR 2 ^ k"] r k
      by (simp add: bit_or_iff bit_exp_iff)
    ultimately show ?thesis using r small by (auto simp: phys_ok_def)
  qed
qed

lemma phys_alloc_cases:
  assumes "phys_ok p"
  obtains "phys_get_free_4k p = Panic ''Physical Memory: No more free pages!''"
  | n p' where "phys_get_free_4k p = Ok (page_addr n, p')" "n \<in> free_pages p"
      "free_pages p' = free_pages p - {n}" "phys_ok p'"
  using phys_alloc_spec [OF assms] by (cases "free_pages p = {}") auto

subsection \<open>Marking pages by address\<close>

definition page_of :: "u32 \<Rightarrow> nat" where
  "page_of a = unat a div PAGE_SIZE"

lemma page_of_page_addr [simp]: "n < 1048576 \<Longrightarrow> page_of (page_addr n) = n"
  by (simp add: page_of_def unat_page_addr)

lemma index_offset_page: "addr_to_index a * 32 + addr_to_offset a = page_of a"
  "addr_to_offset a < 32"
  by (simp_all add: addr_to_index_def addr_to_offset_def page_of_def)

lemma page_not_free_outside: "elements p * 32 \<le> n \<Longrightarrow> n \<notin> free_pages p"
  by (simp add: free_pages_def page_free_def)

lemma index_bound: "addr_to_index a < m \<longleftrightarrow> page_of a < m * 32"
  by (simp add: addr_to_index_def page_of_def less_mult_imp_div_less div_less_iff_less_mult)

lemma phys_set_bit_free_pages: "free_pages (phys_set_bit a p) = free_pages p - {page_of a}"
proof (cases "addr_to_index a < elements p")
  case True
  then show ?thesis
    using free_pages_update [of "addr_to_index a" p "addr_to_offset a"
        "bm p (addr_to_index a) OR push_bit (addr_to_offset a) 1"] index_offset_page [of a]
    by (simp add: phys_set_bit_def Let_def bit_or_iff bit_exp_iff push_bit_eq_mult)
next
  case False
  then show ?thesis
    using page_not_free_outside [of p "page_of a"] index_bound [of a "elements p"]
    by (simp add: phys_set_bit_def Let_def)
qed

lemma phys_unset_bit_free_pages:
  "free_pages (phys_unset_bit a p) =
     (if page_of a < elements p * 32 then insert (page_of a) (free_pages p) else free_pages p)"
proof (cases "addr_to_index a < elements p")
  case True
  then show ?thesis
    using free_pages_update [of "addr_to_index a" p "addr_to_offset a"
        "bm p (addr_to_index a) AND NOT (push_bit (addr_to_offset a) 1)"] index_offset_page [of a]
      index_bound [of a "elements p"]
    by (simp add: phys_unset_bit_def Let_def bit_and_iff bit_not_iff bit_exp_iff push_bit_eq_mult)
next
  case False
  then show ?thesis
    using index_bound [of a "elements p"]
    by (simp add: phys_unset_bit_def Let_def)
qed

lemma phys_bits_keep [simp]:
  "elements (phys_set_bit a p) = elements p" "elements (phys_unset_bit a p) = elements p"
  "next_i (phys_set_bit a p) = next_i p" "next_i (phys_unset_bit a p) = next_i p"
  by (simp_all add: phys_set_bit_def phys_unset_bit_def Let_def)

lemma phys_ok_bits [simp]:
  "phys_ok (phys_set_bit a p) = phys_ok p" "phys_ok (phys_unset_bit a p) = phys_ok p"
  by (simp_all add: phys_ok_def)

subsection \<open>The count of free pages\<close>

definition clear_bits :: "u32 \<Rightarrow> nat \<Rightarrow> nat \<Rightarrow> nat set" where
  "clear_bits w k n = {j. k \<le> j \<and> j < k + n \<and> \<not> bit w j}"

lemma clear_bits_Suc:
  "clear_bits w k (Suc n) = (if bit w k then {} else {k}) \<union> clear_bits w (Suc k) n"
  by (auto simp: clear_bits_def Suc_le_eq le_less)

lemma clear_bits_0 [simp]: "clear_bits w k 0 = {}"
  by (auto simp: clear_bits_def)

lemma finite_clear_bits [simp]: "finite (clear_bits w k n)"
  by (simp add: clear_bits_def)

lemma count_word_eq:
  "count_word w n (2 ^ k) acc = acc + word_of_nat (card (clear_bits w k n))"
proof (induction n arbitrary: k acc)
  case 0
  then show ?case by simp
next
  case (Suc n)
  have "k \<notin> clear_bits w (Suc k) n" by (simp add: clear_bits_def)
  then show ?case
    using Suc.IH [of "Suc k"]
    by (simp add: clear_bits_Suc and_exp_eq_0_iff_not_bit push_bit_eq_mult mult.commute add.assoc)
qed

definition clear_pages :: "(nat \<Rightarrow> u32) \<Rightarrow> nat \<Rightarrow> nat \<Rightarrow> nat set" where
  "clear_pages b i n = {m. i * 32 \<le> m \<and> m < (i + n) * 32 \<and> \<not> bit (b (m div 32)) (m mod 32)}"

lemma clear_pages_Suc:
  "clear_pages b i (Suc n) = (\<lambda>j. i * 32 + j) ` clear_bits (b i) 0 32 \<union> clear_pages b (Suc i) n"
proof (rule set_eqI)
  fix m
  show "m \<in> clear_pages b i (Suc n) \<longleftrightarrow>
        m \<in> (\<lambda>j. i * 32 + j) ` clear_bits (b i) 0 32 \<union> clear_pages b (Suc i) n"
  proof (cases "m div 32 = i")
    case True
    then obtain j where m: "m = i * 32 + j" "j < 32"
      by (metis div_mult_mod_eq mod_less_divisor zero_less_numeral)
    then show ?thesis by (auto simp: clear_bits_def clear_pages_def)
  next
    case False
    then have "m \<notin> (\<lambda>j. i * 32 + j) ` clear_bits (b i) 0 32"
      by (auto simp: clear_bits_def)
    then show ?thesis using False by (auto simp: clear_pages_def)
  qed
qed

lemma clear_pages_0 [simp]: "clear_pages b i 0 = {}"
  by (auto simp: clear_pages_def)

lemma finite_clear_pages [simp]: "finite (clear_pages b i n)"
  by (simp add: clear_pages_def)

lemma count_words_eq:
  "count_words b i n acc = acc + word_of_nat (card (clear_pages b i n))"
proof (induction n arbitrary: i acc)
  case 0
  then show ?case by simp
next
  case (Suc n)
  have "(\<lambda>j. i * 32 + j) ` clear_bits (b i) 0 32 \<inter> clear_pages b (Suc i) n = {}"
    by (auto simp: clear_bits_def clear_pages_def)
  then have "card (clear_pages b i (Suc n)) = card (clear_bits (b i) 0 32) + card (clear_pages b (Suc i) n)"
    by (simp add: clear_pages_Suc card_Un_disjoint card_image)
  then show ?case
    using Suc.IH count_word_eq [of "b i" 32 0 acc] by simp
qed

text \<open>
  The count of free pages, which walks the words and their bits, is the number of pages that
  the bitmap marks free, as a 32-bit number.
\<close>

theorem phys_get_free_page_count_card:
  "phys_get_free_page_count p = word_of_nat (card (free_pages p))"
  by (simp add: phys_get_free_page_count_def count_words_eq clear_pages_def free_pages_def page_free_def)


subsection \<open>Setting the bitmap up\<close>

text \<open>
  \<^verbatim>\<open>__phys_initialize_bitmap\<close>. The two 16-bit memory sizes the boot loader stored, the
  address of the linker symbol \<^verbatim>\<open>KERNEL_END\<close> and the words that lie in memory from the
  bitmap's address on are inputs; the sizes the routine computes are the fields of
  \<open>phys_layout\<close>.
\<close>

abbreviation (input) KERNEL_LINK_ADDR :: u32 where "KERNEL_LINK_ADDR \<equiv> 0xC0100000"
abbreviation (input) KERNEL_LOAD_ADDR :: u32 where "KERNEL_LOAD_ADDR \<equiv> 0x00100000"
abbreviation (input) ONE_KILOBYTE :: u32 where "ONE_KILOBYTE \<equiv> 1024"
abbreviation (input) ONE_MEGABYTE :: u32 where "ONE_MEGABYTE \<equiv> 0x100000"
abbreviation (input) SIXTY_FOUR_KB :: u32 where "SIXTY_FOUR_KB \<equiv> 0x10000"
abbreviation (input) SIXTEEN_MEG :: u32 where "SIXTEEN_MEG \<equiv> 0x1000000"

record phys_layout =
  bitmap_addr :: u32
  size_bytes :: nat
  kernel_size :: u32
  mem_size :: u32

definition fill_words :: "nat \<Rightarrow> nat \<Rightarrow> u32 \<Rightarrow> (nat \<Rightarrow> u32) \<Rightarrow> (nat \<Rightarrow> u32)" where
  "fill_words i n v b = foldl (\<lambda>b j. b(j := v)) b [i..<n]"

definition phys_initialize_bitmap ::
  "u16 \<Rightarrow> u16 \<Rightarrow> u32 \<Rightarrow> (nat \<Rightarrow> u32) \<Rightarrow> phys \<times> phys_layout" where
  "phys_initialize_bitmap ext_lo ext_hi kernel_end b =
     (let memory_low = ucast ext_lo * ONE_KILOBYTE;
          memory_hi = ucast ext_hi * SIXTY_FOUR_KB;
          mem = ONE_MEGABYTE + (memory_low + memory_hi);
          sz = unat mem div PAGE_SIZE div BITS_IN_INTEGER;
          n = unat mem div PAGE_SIZE div BITS_IN_INTEGER div 4;
          addr = (kernel_end AND 0xFFFFF000) + 0x00001000;
          ksize = addr + word_of_nat sz - KERNEL_LINK_ADDR;
          b1 = fill_words 0 n ALL_USED b;
          b2 = fill_words (addr_to_index ONE_MEGABYTE) (addr_to_index (ONE_MEGABYTE + memory_low)) 0 b1;
          b3 = fill_words (addr_to_index SIXTEEN_MEG) (addr_to_index (SIXTEEN_MEG + memory_hi)) 0 b2;
          end_kernel = addr_to_index (KERNEL_LOAD_ADDR + ksize) + 1;
          b4 = fill_words (addr_to_index ONE_MEGABYTE) end_kernel ALL_USED b3
      in (\<lparr>bm = b4, elements = n, next_i = 0\<rparr>,
          \<lparr>bitmap_addr = addr, size_bytes = sz, kernel_size = ksize, mem_size = mem\<rparr>))"

lemma fill_words_apply [simp]:
  "fill_words i n v b j = (if i \<le> j \<and> j < n then v else b j)"
proof (induction n)
  case 0
  then show ?case by (simp add: fill_words_def)
next
  case (Suc n)
  then show ?case
    by (cases "i \<le> n") (auto simp: fill_words_def)
qed

lemma addr_to_index_values [simp]:
  "addr_to_index ONE_MEGABYTE = 8" "addr_to_index SIXTEEN_MEG = 128"
  by (simp_all add: addr_to_index_def)

text \<open>
  After initialisation no free page lies below 1 MiB or inside the kernel image
  and the bitmap behind it.
\<close>

lemma phys_initialize_reserves:
  assumes "phys_initialize_bitmap lo hi kend b = (p, l)" "n \<in> free_pages p"
  shows "unat ONE_MEGABYTE \<le> n * PAGE_SIZE \<and> unat (KERNEL_LOAD_ADDR + kernel_size l) \<le> n * PAGE_SIZE"
proof -
  have nb: "n < elements p * 32" "\<not> bit (bm p (n div 32)) (n mod 32)"
    using assms(2) by (auto simp: free_pages_def page_free_def)
  have "n mod 32 < 32" by simp
  then have used: "bit ALL_USED (n mod 32)" using word_all_used_iff [of ALL_USED] by blast
  have e: "n div 32 < elements p" using nb by (simp add: less_mult_imp_div_less)
  have ne: "bm p (n div 32) \<noteq> ALL_USED" using nb used by metis
  have "8 \<le> n div 32 \<and> addr_to_index (KERNEL_LOAD_ADDR + kernel_size l) < n div 32"
    using ne e assms(1) by (auto simp: phys_initialize_bitmap_def Let_def split: if_splits)
  then have "8 \<le> n div 32" "unat (KERNEL_LOAD_ADDR + kernel_size l) div 4096 div 32 < n div 32"
    by (auto simp: addr_to_index_def)
  then show ?thesis
    by (intro conjI) simp_all
qed

lemma phys_initialize_ok:
  "phys_initialize_bitmap lo hi kend b = (p, l) \<Longrightarrow> unat (mem_size l) \<ge> 524288 \<Longrightarrow> phys_ok p"
proof -
  assume *: "phys_initialize_bitmap lo hi kend b = (p, l)" "unat (mem_size l) \<ge> 524288"
  have "unat (mem_size l) < 4294967296" by (rule unat_u32_bound)
  with * show ?thesis by (auto simp: phys_initialize_bitmap_def Let_def phys_ok_def)
qed

subsection \<open>Properties of the page allocator\<close>

text \<open>
  C33: an allocation panics exactly when no page is free; otherwise it returns the address of a free
  page and marks that page, and no other, as used.
\<close>

theorem phys_get_free_4k_correct:
  assumes "phys_ok p"
  shows "if free_pages p = {} then phys_get_free_4k p = Panic ''Physical Memory: No more free pages!''
    else \<exists>n p'. phys_get_free_4k p = Ok (page_addr n, p') \<and> n \<in> free_pages p \<and>
           free_pages p' = free_pages p - {n} \<and> elements p' = elements p \<and> phys_ok p'"
  using phys_alloc_spec [OF assms] by simp

text \<open>
  Setting the bit of an address takes its page, and only that one, out of the free pages, and
  clearing it puts the page back; an address past the end of the bitmap changes nothing.
\<close>

theorem phys_bits_correct:
  "free_pages (phys_set_bit a p) = free_pages p - {page_of a} \<and>
   free_pages (phys_unset_bit a p) =
     (if page_of a < elements p * 32 then insert (page_of a) (free_pages p) else free_pages p)"
  by (simp add: phys_set_bit_free_pages phys_unset_bit_free_pages)

text \<open>
  A boot with 15 MiB below and 16 MiB above the 16 MiB mark, over memory filled with a pattern.
\<close>

definition demo_init :: "phys \<times> phys_layout" where
  "demo_init = phys_initialize_bitmap 0x3C00 0x100 0xC0130ABC (\<lambda>_. 0x55555555)"

lemma demo_init_parts:
  "elements (fst demo_init) = 64" "next_i (fst demo_init) = 0" "bm (fst demo_init) 20 = 0"
  "addr_to_index (KERNEL_LOAD_ADDR + kernel_size (snd demo_init)) = 9"
  "addr_to_index 0x2000000 = 256"
  by (simp_all add: demo_init_def phys_initialize_bitmap_def Let_def addr_to_index_def)

lemma demo_init_pair:
  "phys_initialize_bitmap 0x3C00 0x100 0xC0130ABC (\<lambda>_. 0x55555555) = (fst demo_init, snd demo_init)"
  by (simp add: demo_init_def)

lemma demo_init_ok: "phys_ok (fst demo_init)" "640 \<in> free_pages (fst demo_init)"
  by (simp_all add: phys_ok_def free_pages_def page_free_def demo_init_parts)

theorem phys_get_free_4k_correct_witness:
  "\<exists>n p'. phys_get_free_4k (fst demo_init) = Ok (page_addr n, p') \<and> n \<in> free_pages (fst demo_init) \<and>
     n \<notin> free_pages p'"
proof -
  have "free_pages (fst demo_init) \<noteq> {}" using demo_init_ok(2) by blast
  then show ?thesis using phys_get_free_4k_correct [OF demo_init_ok(1)] by auto
qed

text \<open>
  After initialisation no free page lies below 1 MiB or inside the kernel image
  and the bitmap behind it.
\<close>

theorem phys_initialize_correct:
  assumes "phys_initialize_bitmap lo hi kend b = (p, l)" "n \<in> free_pages p"
  shows "unat ONE_MEGABYTE \<le> n * PAGE_SIZE \<and> unat (KERNEL_LOAD_ADDR + kernel_size l) \<le> n * PAGE_SIZE"
  using phys_initialize_reserves [OF assms] .

theorem phys_initialize_correct_witness: "unat ONE_MEGABYTE \<le> 640 * PAGE_SIZE"
  using phys_initialize_correct [OF demo_init_pair demo_init_ok(2)] by (rule conjunct1)

text \<open>
  The bitmap is declared four times too small for the memory it describes (its size in bits is
  divided by the size of a word once more than it should), and the initialisation clears words past
  its declared end.
\<close>

theorem phys_initialize_overrun:
  assumes "phys_initialize_bitmap lo hi kend b = (p, l)"
    and "elements p \<le> i" "128 \<le> i" "addr_to_index (KERNEL_LOAD_ADDR + kernel_size l) < i"
      "i < addr_to_index (SIXTEEN_MEG + ucast hi * SIXTY_FOUR_KB)"
  shows "bm p i = 0 \<and> 4 * (elements p * BITS_IN_INTEGER * PAGE_SIZE) \<le> unat (mem_size l)"
  using assms by (auto simp: phys_initialize_bitmap_def Let_def)

theorem phys_initialize_overrun_witness: "bm (fst demo_init) 200 = 0 \<and> elements (fst demo_init) \<le> 200"
  using phys_initialize_overrun [OF demo_init_pair, of 200] by (simp add: demo_init_parts)

text \<open>
  The test of a page's bit does not depend on that bit: it gives the same answer whether the
  page was just marked used or just freed, because it looks at the other bits of the word.
\<close>

theorem phys_check_bit_ignores_page:
  "phys_check_bit a (phys_set_bit a p) = phys_check_bit a (phys_unset_bit a p)"
proof -
  have "(w OR m) AND NOT m = w AND NOT m" "(w AND NOT m) AND NOT m = w AND NOT m" for w m :: u32
    by (rule bit_word_eqI; simp add: bit_and_iff bit_or_iff bit_not_iff; blast)+
  then show ?thesis
    by (simp add: phys_check_bit_def phys_set_bit_def phys_unset_bit_def Let_def)
qed

end
