(* ===== verification/Kmalloc.thy ===== *)
theory Kmalloc
  imports Physical
begin

text \<open>
  The kernel heap, \<^verbatim>\<open>src/kernel/memory/kmalloc.c\<close>: a free list threaded through the free
  blocks, sorted by address. Memory is a function from addresses to 32-bit words; a list
  node at address \<open>a\<close> has its size (header included) at \<open>a\<close>, \<^verbatim>\<open>next\<close> at \<open>a + 4\<close>
  and \<^verbatim>\<open>prev\<close> at \<open>a + 8\<close>, exactly as the C structure lies in memory, and an allocated
  block keeps only its size word. Growing the heap takes pages from the physical
  allocator and maps them behind the end of the heap; \<open>mapped\<close> records the calls of
  \<^verbatim>\<open>__virt_map_page\<close> (physical page, virtual address). The copying of the kernel's
  page-directory entries into the current process is not part of this theory.
\<close>

subsection \<open>State\<close>

abbreviation (input) HEAP_START_LOCATION :: u32 where "HEAP_START_LOCATION \<equiv> 0xD0000000"
abbreviation (input) HEAP_MAX_LOCATION :: u32 where "HEAP_MAX_LOCATION \<equiv> 0xE0000000"
abbreviation (input) HEADER_SIZE :: u32 where "HEADER_SIZE \<equiv> 4"
abbreviation (input) LINKED_NODE_SIZE :: u32 where "LINKED_NODE_SIZE \<equiv> 12"

type_synonym mem = "u32 \<Rightarrow> u32"

record kheap =
  kmem :: mem
  start_address :: u32
  end_address :: u32
  max_address :: u32
  start_node :: u32
  kphys :: phys
  mapped :: "(u32 \<times> u32) list"

abbreviation (input) node_size :: "mem \<Rightarrow> u32 \<Rightarrow> u32" where "node_size m a \<equiv> m a"
abbreviation (input) node_next :: "mem \<Rightarrow> u32 \<Rightarrow> u32" where "node_next m a \<equiv> m (a + 4)"
abbreviation (input) node_prev :: "mem \<Rightarrow> u32 \<Rightarrow> u32" where "node_prev m a \<equiv> m (a + 8)"

definition set_size :: "u32 \<Rightarrow> u32 \<Rightarrow> mem \<Rightarrow> mem" where "set_size a v m = m(a := v)"
definition set_next :: "u32 \<Rightarrow> u32 \<Rightarrow> mem \<Rightarrow> mem" where "set_next a v m = m(a + 4 := v)"
definition set_prev :: "u32 \<Rightarrow> u32 \<Rightarrow> mem \<Rightarrow> mem" where "set_prev a v m = m(a + 8 := v)"

subsection \<open>Operations\<close>

text \<open>One page behind the end of the heap; the bound is tested before it is mapped.\<close>

definition heap_add_page :: "kheap \<Rightarrow> kheap outcome" where
  "heap_add_page k =
     (if end_address k > max_address k then Panic ''Kmalloc: Heap has exceeded the set bounds!''
      else obind (phys_get_free_4k (kphys k)) (\<lambda>(pg, ph).
        Ok (k\<lparr>kphys := ph, mapped := (pg, end_address k) # mapped k,
              end_address := end_address k + 4096\<rparr>)))"

primrec heap_add_pages :: "nat \<Rightarrow> kheap \<Rightarrow> kheap outcome" where
  "heap_add_pages 0 k = Ok k"
| "heap_add_pages (Suc n) k = obind (heap_add_page k) (heap_add_pages n)"

definition kmem_init_kmalloc :: "mem \<Rightarrow> phys \<Rightarrow> kheap outcome" where
  "kmem_init_kmalloc m ph =
     obind (phys_get_free_4k ph) (\<lambda>(pg1, ph1).
     obind (phys_get_free_4k ph1) (\<lambda>(pg2, ph2).
       let s = HEAP_START_LOCATION;
           m1 = set_size s (2 * 4096) m;
           m2 = set_next s 0 m1;
           m3 = set_prev s 0 m2
       in Ok \<lparr>kmem = m3, start_address = s, end_address = s + 4096 + 4096,
              max_address = HEAP_MAX_LOCATION, start_node = s, kphys = ph2,
              mapped = [(pg2, s + 4096), (pg1, s)]\<rparr>))"

text \<open>The size a request is rounded to: at least one list node, a multiple of four, a header.\<close>

definition kmalloc_size :: "u32 \<Rightarrow> u32" where
  "kmalloc_size sz =
     (let s1 = (if sz < LINKED_NODE_SIZE then LINKED_NODE_SIZE else sz);
          s2 = (if s1 mod 4 \<noteq> 0 then s1 + (4 - s1 mod 4) else s1)
      in s2 + HEADER_SIZE)"

partial_function (option) find_node :: "mem \<Rightarrow> u32 \<Rightarrow> u32 \<Rightarrow> u32 outcome option" where
  "find_node m sz cur =
     (if node_next m cur \<noteq> 0 \<and> node_size m cur \<le> sz + LINKED_NODE_SIZE
      then find_node m sz (node_next m cur)
      else Some (Ok cur))"

definition kmalloc_grow :: "u32 \<Rightarrow> u32 \<Rightarrow> kheap \<Rightarrow> kheap outcome" where
  "kmalloc_grow sz cur k =
     (let m = kmem k in
      if node_next m cur = 0 \<and> node_size m cur < sz + LINKED_NODE_SIZE then
        let num_pages = (sz - node_size m cur + LINKED_NODE_SIZE) div 4096 + 1 in
        obind (heap_add_pages (unat num_pages) k) (\<lambda>k'.
          Ok (k'\<lparr>kmem := set_size cur (node_size m cur + num_pages * 4096) (kmem k')\<rparr>))
      else Ok k)"

text \<open>Splitting the chosen block: its front is handed out, the rest takes its list place.\<close>

definition kmalloc_split :: "u32 \<Rightarrow> u32 \<Rightarrow> kheap \<Rightarrow> u32 \<times> kheap" where
  "kmalloc_split sz cur k =
     (let next_node = cur + sz;
          m0 = kmem k;
          m1 = set_size next_node (node_size m0 cur - sz) m0;
          (sn, m2) =
            (if cur = start_node k
             then (next_node, set_next next_node (node_next m1 cur) (set_prev next_node 0 m1))
             else (let ma = set_next next_node (node_next m1 cur) m1;
                       mb = set_prev next_node (node_prev ma cur) ma
                   in (start_node k, set_next (node_prev mb cur) next_node mb)));
          m3 = (if node_next m2 cur \<noteq> 0 then set_prev (node_next m2 cur) next_node m2 else m2);
          m4 = set_size cur sz m3;
          m5 = set_prev cur 0xCAFEBABE (set_next cur 0xDEADBEEF m4)
      in (cur + HEADER_SIZE, k\<lparr>kmem := m5, start_node := sn\<rparr>))"

definition kmalloc :: "u32 \<Rightarrow> kheap \<Rightarrow> (u32 \<times> kheap) outcome" where
  "kmalloc size0 k =
     (let sz = kmalloc_size size0 in
      obind (of_loop (find_node (kmem k) sz (start_node k))) (\<lambda>cur.
      obind (kmalloc_grow sz cur k) (\<lambda>k'.
        Ok (kmalloc_split sz cur k'))))"

partial_function (option) find_after :: "mem \<Rightarrow> u32 \<Rightarrow> u32 \<Rightarrow> u32 outcome option" where
  "find_after m fn cur =
     (if cur \<noteq> 0 \<and> cur < fn then find_after m fn (node_next m cur) else Some (Ok cur))"

definition kfree_front :: "u32 \<Rightarrow> kheap \<Rightarrow> kheap" where
  "kfree_front fn k =
     (let m = kmem k; sn = start_node k in
      if fn + node_size m fn = sn
      then let m1 = set_size fn (node_size m fn + node_size m sn) m;
               m2 = set_next fn (node_next m1 sn) m1;
               m3 = set_prev fn 0 m2;
               m4 = (if node_next m3 sn \<noteq> 0 then set_prev (node_next m3 sn) fn m3 else m3)
           in k\<lparr>kmem := m4, start_node := fn\<rparr>
      else k\<lparr>kmem := set_prev sn fn (set_prev fn 0 (set_next fn sn m)), start_node := fn\<rparr>)"

definition kfree_insert :: "u32 \<Rightarrow> u32 \<Rightarrow> mem \<Rightarrow> mem" where
  "kfree_insert fn cur m =
     (let m1 = set_next fn cur m;
          m2 = set_prev fn (node_prev m1 cur) m1;
          m3 = set_next (node_prev m2 cur) fn m2
      in set_prev cur fn m3)"

definition kfree_merge_prev :: "u32 \<Rightarrow> mem \<Rightarrow> u32 \<times> mem" where
  "kfree_merge_prev fn m =
     (let prv = node_prev m fn in
      if prv + node_size m prv = fn
      then let m1 = set_next prv (node_next m fn) m;
               m2 = set_prev (node_next m1 fn) prv m1;
               m3 = set_size prv (node_size m2 prv + node_size m2 fn) m2
           in (prv, m3)
      else (fn, m))"

definition kfree_merge_next :: "u32 \<Rightarrow> u32 \<Rightarrow> mem \<Rightarrow> mem" where
  "kfree_merge_next mid lst m =
     (if mid + node_size m mid = lst
      then let m1 = set_next mid (node_next m lst) m;
               m2 = (if node_next m1 lst \<noteq> 0 then set_prev (node_next m1 lst) mid m1 else m1)
           in set_size mid (node_size m2 mid + node_size m2 lst) m2
      else m)"

definition kfree :: "u32 \<Rightarrow> kheap \<Rightarrow> kheap outcome" where
  "kfree address k =
     (if address < start_address k \<or> address > end_address k then Ok k
      else let fn = address - HEADER_SIZE; m = kmem k in
      if node_size m fn > end_address k - start_address k then Panic ''Kmalloc: Bad size!''
      else if fn < start_node k then Ok (kfree_front fn k)
      else obind (of_loop (find_after m fn (start_node k))) (\<lambda>cur.
        if cur = 0 then Panic ''Kmalloc: Fell off the free list, impossible condition!''
        else let m1 = kfree_insert fn cur m;
                 lst = node_next m1 fn;
                 (mid, m2) = kfree_merge_prev fn m1
             in Ok (k\<lparr>kmem := kfree_merge_next mid lst m2\<rparr>)))"

subsection \<open>Layout: blocks that tile the heap\<close>

text \<open>
  The shape of the heap over naturals: \<open>fl\<close> is the list of free blocks, \<open>al\<close> the set of
  allocated ones, \<open>sz\<close> their sizes. Blocks do not overlap and together have exactly the
  size of the heap; the last free block ends at the end of the heap.
\<close>

definition apart :: "(u32 \<Rightarrow> nat) \<Rightarrow> u32 \<Rightarrow> u32 \<Rightarrow> bool" where
  "apart sz a b \<longleftrightarrow> unat a + sz a \<le> unat b \<or> unat b + sz b \<le> unat a"

definition block_ok :: "nat \<Rightarrow> nat \<Rightarrow> (u32 \<Rightarrow> nat) \<Rightarrow> u32 \<Rightarrow> bool" where
  "block_ok s e sz a \<longleftrightarrow>
     s \<le> unat a \<and> unat a + sz a \<le> e \<and> 12 \<le> sz a \<and> unat a mod 4 = 0 \<and> sz a mod 4 = 0"

definition layout :: "nat \<Rightarrow> nat \<Rightarrow> u32 list \<Rightarrow> u32 set \<Rightarrow> (u32 \<Rightarrow> nat) \<Rightarrow> bool" where
  "layout s e fl al sz \<longleftrightarrow>
     finite al \<and> set fl \<inter> al = {} \<and> fl \<noteq> [] \<and>
     (\<forall>a \<in> set fl \<union> al. block_ok s e sz a) \<and>
     (\<forall>a \<in> al. 16 \<le> sz a) \<and>
     sorted_wrt (\<lambda>a b. unat a < unat b) fl \<and>
     (\<forall>a \<in> set fl \<union> al. \<forall>b \<in> set fl \<union> al. a \<noteq> b \<longrightarrow> apart sz a b) \<and>
     unat (last fl) + sz (last fl) = e \<and>
     s + (\<Sum>a \<in> set fl \<union> al. sz a) = e"

lemma layout_cong:
  assumes eq: "\<And>a. a \<in> set fl \<union> al \<Longrightarrow> sz a = sz' a" and L: "layout s e fl al sz"
  shows "layout s e fl al sz'"
proof -
  have "(\<Sum>a \<in> set fl \<union> al. sz a) = (\<Sum>a \<in> set fl \<union> al. sz' a)"
    using eq by (rule sum.cong [OF refl])
  moreover have "sz (last fl) = sz' (last fl)"
    using L by (intro eq) (simp add: layout_def)
  ultimately show ?thesis
    using L eq by (simp add: layout_def block_ok_def apart_def)
qed

lemma layout_distinct: "layout s e fl al sz \<Longrightarrow> distinct fl"
  unfolding layout_def
  by (metis (mono_tags, lifting) less_irrefl distinct_conv_nth sorted_wrt_iff_nth_less linorder_neqE_nat)

lemma apart_sym: "apart sz a b = apart sz b a"
  by (auto simp: apart_def)

lemma layout_split:
  assumes L: "layout s e (as @ cur # bs) al sz"
    and n: "16 \<le> n" "n + 12 \<le> sz cur" "n mod 4 = 0"
    and nx: "unat nx = unat cur + n"
  shows "layout s e (as @ nx # bs) (insert cur al) (sz(cur := n, nx := sz cur - n))"
    (is "layout s e ?fl ?al ?sz")
proof -
  let ?B = "set (as @ cur # bs) \<union> al"
  have ok: "\<And>a. a \<in> ?B \<Longrightarrow> block_ok s e sz a"
    and ap: "\<And>a b. a \<in> ?B \<Longrightarrow> b \<in> ?B \<Longrightarrow> a \<noteq> b \<Longrightarrow> apart sz a b"
    and srt: "sorted_wrt (\<lambda>a b. unat a < unat b) (as @ cur # bs)"
    using L by (auto simp: layout_def)
  have ne: "nx \<noteq> cur" using nx n by auto
  have nin: "nx \<notin> ?B"
  proof
    assume "nx \<in> ?B"
    then have "apart sz cur nx" "block_ok s e sz nx" using ap [of cur nx] ok ne by auto
    then show False using nx n by (auto simp: apart_def block_ok_def)
  qed
  have dist: "distinct (as @ cur # bs)" using L layout_distinct by blast
  have B': "set ?fl \<union> ?al = insert nx ?B" by auto
  have sizes: "\<And>a. a \<in> ?B \<Longrightarrow> a \<noteq> cur \<Longrightarrow> ?sz a = sz a"
    using nin by auto
  have apart1: "\<And>a. a \<in> ?B \<Longrightarrow> a \<noteq> cur \<Longrightarrow> apart ?sz nx a \<and> apart ?sz cur a"
  proof -
    fix a assume a: "a \<in> ?B" "a \<noteq> cur"
    then have "apart sz cur a" "?sz a = sz a" using ap sizes by auto
    then show "apart ?sz nx a \<and> apart ?sz cur a"
      using n nx ne by (auto simp: apart_def)
  qed
  have "block_ok s e ?sz a" if "a \<in> insert nx ?B" for a
  proof (cases "a = nx \<or> a = cur")
    case True
    moreover have "block_ok s e sz cur" using ok by simp
    ultimately show ?thesis using n nx ne
      by (auto simp: block_ok_def mod_add_eq)
  next
    case False
    then show ?thesis using that ok [of a] sizes [of a] by (simp add: block_ok_def)
  qed
  moreover have "apart ?sz a b" if "a \<in> insert nx ?B" "b \<in> insert nx ?B" "a \<noteq> b" for a b
  proof -
    have "apart ?sz cur nx" using nx ne by (simp add: apart_def)
    then show ?thesis using that ap apart1 apart_sym [of ?sz] sizes
      by (smt (verit) apart_def insert_iff)
  qed
  moreover have "sorted_wrt (\<lambda>a b. unat a < unat b) ?fl"
  proof -
    have "unat nx < unat b" if "b \<in> set bs" for b
    proof -
      have "apart sz cur b" "unat cur < unat b"
        using that ap [of cur b] dist srt by (auto simp: sorted_wrt_append)
      then show ?thesis using ok [of cur] ok [of b] that nx n by (auto simp: apart_def block_ok_def)
    qed
    then show ?thesis using srt nx by (fastforce simp: sorted_wrt_append)
  qed
  moreover have "unat (last ?fl) + ?sz (last ?fl) = e"
  proof (cases "bs = []")
    case True
    then show ?thesis using L n nx by (simp add: layout_def)
  next
    case False
    then have "last bs \<in> ?B" "last bs \<noteq> cur" using dist by auto
    then have "?sz (last bs) = sz (last bs)" by (rule sizes)
    then show ?thesis using L False by (simp add: layout_def)
  qed
  moreover have "s + (\<Sum>a \<in> set ?fl \<union> ?al. ?sz a) = e"
  proof -
    have fin: "finite ?B" using L by (simp add: layout_def)
    have "(\<Sum>a \<in> insert nx ?B. ?sz a) = (sz cur - n) + (\<Sum>a \<in> ?B. (sz(cur := n)) a)"
    proof -
      have "(\<Sum>a \<in> insert nx ?B. ?sz a) = ?sz nx + (\<Sum>a \<in> ?B. ?sz a)"
        by (rule sum.insert [OF fin nin])
      also have "(\<Sum>a \<in> ?B. ?sz a) = (\<Sum>a \<in> ?B. (sz(cur := n)) a)"
        using nin by (intro sum.cong) auto
      finally show ?thesis by (simp only: fun_upd_same)
    qed
    also have "(\<Sum>a \<in> ?B. (sz(cur := n)) a) = n + (\<Sum>a \<in> ?B - {cur}. sz a)"
      using fin by (subst sum.remove [of _ cur]) (auto intro!: sum.cong)
    also have "(sz cur - n) + (n + (\<Sum>a \<in> ?B - {cur}. sz a)) = (\<Sum>a \<in> ?B. sz a)"
      using fin n by (subst sum.remove [of ?B cur]) auto
    finally have S: "(\<Sum>a \<in> insert nx ?B. ?sz a) = (\<Sum>a \<in> ?B. sz a)" .
    have "s + (\<Sum>a \<in> ?B. sz a) = e" using L by (simp only: layout_def)
    then show ?thesis by (simp only: B' S)
  qed
  moreover have "set ?fl \<inter> ?al = {}"
    using L nin dist by (auto simp: layout_def)
  moreover have "\<forall>a \<in> ?al. 16 \<le> ?sz a"
    using L nin n ne by (auto simp: layout_def)
  moreover have "finite ?al" using L by (simp add: layout_def)
  ultimately show ?thesis
    by (simp only: layout_def B') blast
qed


lemma layout_release:
  assumes L: "layout s e (as @ bs) al sz" and f: "f \<in> al" and bs: "bs \<noteq> []"
    and lo: "\<And>a. a \<in> set as \<Longrightarrow> unat a < unat f" and hi: "\<And>b. b \<in> set bs \<Longrightarrow> unat f < unat b"
  shows "layout s e (as @ f # bs) (al - {f}) sz"
proof -
  have B: "set (as @ f # bs) \<union> (al - {f}) = set (as @ bs) \<union> al" using f by auto
  have "f \<notin> set (as @ bs)" using L f by (auto simp: layout_def)
  then show ?thesis
    unfolding layout_def B using L bs lo hi
    by (auto simp: layout_def sorted_wrt_append)
qed

lemma layout_merge:
  assumes L: "layout s e (as @ p # q # bs) al sz" and adj: "unat p + sz p = unat q"
  shows "layout s e (as @ p # bs) al (sz(p := sz p + sz q))"
    (is "layout s e ?fl al ?sz")
proof -
  let ?B = "set (as @ p # q # bs) \<union> al"
  have ok: "\<And>a. a \<in> ?B \<Longrightarrow> block_ok s e sz a"
    and ap: "\<And>a b. a \<in> ?B \<Longrightarrow> b \<in> ?B \<Longrightarrow> a \<noteq> b \<Longrightarrow> apart sz a b"
    and srt: "sorted_wrt (\<lambda>a b. unat a < unat b) (as @ p # q # bs)"
    and fin: "finite ?B" and disj: "set (as @ p # q # bs) \<inter> al = {}"
    using L by (auto simp: layout_def)
  have dist: "distinct (as @ p # q # bs)" using L layout_distinct by blast
  then have pq: "p \<noteq> q" by auto
  have B': "set ?fl \<union> al = ?B - {q}" using dist disj by auto
  have "block_ok s e ?sz a" if "a \<in> ?B - {q}" for a
    using that ok [of a] ok [of p] ok [of q] adj pq
    by (auto simp: block_ok_def mod_add_eq)
  moreover have "apart ?sz a b" if "a \<in> ?B - {q}" "b \<in> ?B - {q}" "a \<noteq> b" for a b
  proof -
    have *: "apart ?sz p c" if "c \<in> ?B - {q}" "c \<noteq> p" for c
      using that ap [of p c] ap [of q c] adj pq ok [of c] by (auto simp: apart_def block_ok_def)
    show ?thesis
    proof (cases "a = p \<or> b = p")
      case True
      then show ?thesis using that * apart_sym by metis
    next
      case False
      moreover have "apart sz a b" using that ap by blast
      ultimately show ?thesis by (simp add: apart_def)
    qed
  qed
  moreover have "(\<Sum>a \<in> ?B - {q}. ?sz a) = (\<Sum>a \<in> ?B. sz a)"
  proof -
    have "(\<Sum>a \<in> ?B - {q}. ?sz a) = ?sz p + (\<Sum>a \<in> ?B - {q} - {p}. ?sz a)"
      using fin pq by (subst sum.remove [of _ p]) auto
    also have "(\<Sum>a \<in> ?B - {q} - {p}. ?sz a) = (\<Sum>a \<in> ?B - {q} - {p}. sz a)"
      by (rule sum.cong) auto
    also have "?sz p + \<dots> = sz q + (sz p + (\<Sum>a \<in> ?B - {q} - {p}. sz a))" by simp
    also have "sz p + (\<Sum>a \<in> ?B - {q} - {p}. sz a) = (\<Sum>a \<in> ?B - {q}. sz a)"
      using fin pq by (subst (2) sum.remove [of _ p]) auto
    also have "sz q + (\<Sum>a \<in> ?B - {q}. sz a) = (\<Sum>a \<in> ?B. sz a)"
      using fin by (subst (2) sum.remove [of _ q]) auto
    finally show ?thesis .
  qed
  moreover have "unat (last ?fl) + ?sz (last ?fl) = e"
  proof (cases "bs = []")
    case True then show ?thesis using L adj by (simp add: layout_def)
  next
    case False
    then have "last bs \<noteq> p" using dist by (metis distinct.simps(2) distinct_append last_in_set list.set_intros(2))
    then show ?thesis using L False by (simp add: layout_def)
  qed
  moreover have "sorted_wrt (\<lambda>a b. unat a < unat b) ?fl"
    using srt by (auto simp: sorted_wrt_append)
  moreover have "\<forall>a \<in> al. 16 \<le> ?sz a"
    using L by (auto simp: layout_def)
  ultimately show ?thesis
    unfolding layout_def B'
    using L by (auto simp: layout_def)
qed

lemma layout_grow:
  assumes L: "layout s e (as @ [c]) al sz" and d: "d mod 4 = 0"
  shows "layout s (e + d) (as @ [c]) al (sz(c := sz c + d))"
    (is "layout s _ ?fl al ?sz")
proof -
  let ?B = "set (as @ [c]) \<union> al"
  have ok: "\<And>a. a \<in> ?B \<Longrightarrow> block_ok s e sz a"
    and ap: "\<And>a b. a \<in> ?B \<Longrightarrow> b \<in> ?B \<Longrightarrow> a \<noteq> b \<Longrightarrow> apart sz a b"
    and fin: "finite ?B" and cal: "c \<notin> al" and e: "unat c + sz c = e"
    using L by (auto simp: layout_def)
  have "block_ok s (e + d) ?sz a" if "a \<in> ?B" for a
    using that ok [of a] d e by (auto simp: block_ok_def mod_add_eq)
  moreover have "apart ?sz a b" if "a \<in> ?B" "b \<in> ?B" "a \<noteq> b" for a b
    using that ap [of a b] ok [of a] ok [of b] e by (auto simp: apart_def block_ok_def)
  moreover have "(\<Sum>a \<in> ?B. ?sz a) = (\<Sum>a \<in> ?B. sz a) + d"
  proof -
    have "(\<Sum>a \<in> ?B. ?sz a) = ?sz c + (\<Sum>a \<in> ?B - {c}. ?sz a)"
      using fin by (subst sum.remove [of _ c]) auto
    also have "(\<Sum>a \<in> ?B - {c}. ?sz a) = (\<Sum>a \<in> ?B - {c}. sz a)" by (rule sum.cong) auto
    also have "?sz c + \<dots> = (sz c + (\<Sum>a \<in> ?B - {c}. sz a)) + d" by simp
    also have "sz c + (\<Sum>a \<in> ?B - {c}. sz a) = (\<Sum>a \<in> ?B. sz a)"
      using fin by (subst (2) sum.remove [of _ c]) auto
    finally show ?thesis .
  qed
  ultimately show ?thesis
    using L cal by (auto simp: layout_def)
qed

subsection \<open>Links: the free list in memory\<close>

text \<open>\<open>links m pv xs nx\<close>: the nodes \<open>xs\<close> are linked in order, between \<open>pv\<close> and \<open>nx\<close>.\<close>

fun links :: "mem \<Rightarrow> u32 \<Rightarrow> u32 list \<Rightarrow> u32 \<Rightarrow> bool" where
  "links m pv [] nx \<longleftrightarrow> True"
| "links m pv (a # as) nx \<longleftrightarrow>
     node_prev m a = pv \<and> node_next m a = hd_or as nx \<and> links m a as nx"

lemma links_append [simp]:
  "links m pv (xs @ ys) nx \<longleftrightarrow> links m pv xs (hd_or ys nx) \<and> links m (last_or xs pv) ys nx"
  by (induction xs arbitrary: pv) auto

lemma links_cong:
  assumes "links m pv xs nx" "\<And>a. a \<in> set xs \<Longrightarrow> m' (a + 4) = m (a + 4) \<and> m' (a + 8) = m (a + 8)"
  shows "links m' pv xs nx"
  using assms by (induction xs arbitrary: pv) auto

lemma links_change_next:
  assumes "links m pv xs nx"
    "\<And>a. a \<in> set xs \<Longrightarrow> m' (a + 8) = m (a + 8)"
    "\<And>a. a \<in> set (butlast xs) \<Longrightarrow> m' (a + 4) = m (a + 4)"
    "xs \<noteq> [] \<Longrightarrow> m' (last xs + 4) = nx'"
  shows "links m' pv xs nx'"
  using assms
proof (induction xs arbitrary: pv)
  case (Cons a xs)
  then have "links m' a xs nx'" by (cases xs) auto
  with Cons.prems show ?case by (cases xs) auto
qed simp

lemma links_change_prev:
  assumes "links m pv xs nx"
    "\<And>a. a \<in> set xs \<Longrightarrow> m' (a + 4) = m (a + 4)"
    "\<And>a. a \<in> set (tl xs) \<Longrightarrow> m' (a + 8) = m (a + 8)"
    "xs \<noteq> [] \<Longrightarrow> m' (hd xs + 8) = pv'"
  shows "links m' pv' xs nx"
  using assms by (cases xs) (auto intro: links_cong)

text \<open>The loop of \<^verbatim>\<open>__kmalloc\<close>: first fit, or the last node.\<close>

lemma find_node_first_fit:
  assumes "links m pv fl 0" "fl \<noteq> []" "0 \<notin> set fl"
  shows "\<exists>as cur bs. fl = as @ cur # bs \<and> find_node m sz (hd fl) = Some (Ok cur) \<and>
           (bs = [] \<or> sz + LINKED_NODE_SIZE < m cur) \<and> (\<forall>a\<in>set as. m a \<le> sz + LINKED_NODE_SIZE)"
  using assms
proof (induction fl arbitrary: pv)
  case (Cons a fl)
  show ?case
  proof (cases "fl = [] \<or> sz + LINKED_NODE_SIZE < m a")
    case True
    then have "find_node m sz a = Some (Ok a)"
      using Cons.prems by (auto simp: find_node.simps [of m sz a] not_le)
    then show ?thesis using True by (intro exI [of _ "[]"]) auto
  next
    case False
    then have "node_next m a = hd fl" "hd fl \<noteq> 0"
      using Cons.prems by (cases fl; auto)+
    then have step: "find_node m sz a = find_node m sz (hd fl)"
      using False by (simp add: find_node.simps [of m sz a] not_less)
    obtain as cur bs where "fl = as @ cur # bs" "find_node m sz (hd fl) = Some (Ok cur)"
      "bs = [] \<or> sz + LINKED_NODE_SIZE < m cur" "\<forall>a\<in>set as. m a \<le> sz + LINKED_NODE_SIZE"
      using Cons.IH [of a] Cons.prems False by auto
    then show ?thesis using step False
      by (intro exI [of _ "a # as"] exI [of _ cur] exI [of _ bs]) (auto simp: not_less)
  qed
qed simp

text \<open>The loop of \<^verbatim>\<open>__kfree\<close>: the first node behind the freed block.\<close>

lemma find_after_spec:
  assumes "links m pv fl 0" "0 \<notin> set fl" "\<exists>a\<in>set fl. fn \<le> a"
  shows "\<exists>as cur bs. fl = as @ cur # bs \<and> find_after m fn (hd fl) = Some (Ok cur) \<and>
           fn \<le> cur \<and> (\<forall>a\<in>set as. a < fn)"
  using assms
proof (induction fl arbitrary: pv)
  case (Cons a fl)
  show ?case
  proof (cases "fn \<le> a")
    case True
    then have "find_after m fn a = Some (Ok a)"
      by (simp add: find_after.simps [of m fn a] not_less [symmetric])
    then show ?thesis using True by (intro exI [of _ "[]"]) auto
  next
    case False
    then have "fl \<noteq> []" using Cons.prems by auto
    then have "node_next m a = hd fl" "a \<noteq> 0"
      using Cons.prems by (cases fl; auto)+
    then have step: "find_after m fn a = find_after m fn (hd fl)"
      using False by (simp add: find_after.simps [of m fn a] not_le)
    obtain as cur bs where "fl = as @ cur # bs" "find_after m fn (hd fl) = Some (Ok cur)"
      "fn \<le> cur" "\<forall>a\<in>set as. a < fn"
      using Cons.IH [of a] Cons.prems False by auto
    then show ?thesis using step False
      by (intro exI [of _ "a # as"] exI [of _ cur] exI [of _ bs]) (auto simp: not_le)
  qed
qed simp

subsection \<open>The heap invariant\<close>

abbreviation (input) sizes :: "mem \<Rightarrow> u32 \<Rightarrow> nat" where "sizes m \<equiv> (\<lambda>a. unat (m a))"

text \<open>
  \<open>heap_shape k fl al\<close>: the free list in memory is \<open>fl\<close>, and free and allocated blocks
  tile the heap. \<open>heap_inv\<close> adds that no two free blocks are adjacent.
\<close>

definition heap_shape :: "kheap \<Rightarrow> u32 list \<Rightarrow> u32 set \<Rightarrow> bool" where
  "heap_shape k fl al \<longleftrightarrow>
     start_address k = HEAP_START_LOCATION \<and> max_address k = HEAP_MAX_LOCATION \<and>
     unat (end_address k) \<le> unat HEAP_MAX_LOCATION + 4096 \<and> unat (end_address k) mod 4096 = 0 \<and>
     phys_ok (kphys k) \<and> start_node k = hd fl \<and> links (kmem k) 0 fl 0 \<and>
     layout (unat HEAP_START_LOCATION) (unat (end_address k)) fl al (sizes (kmem k))"

definition coalesced :: "mem \<Rightarrow> u32 list \<Rightarrow> bool" where
  "coalesced m fl \<longleftrightarrow> (\<forall>p\<in>set fl. \<forall>q\<in>set fl. unat p + unat (m p) \<noteq> unat q)"

definition heap_inv :: "kheap \<Rightarrow> u32 list \<Rightarrow> u32 set \<Rightarrow> bool" where
  "heap_inv k fl al \<longleftrightarrow> heap_shape k fl al \<and> coalesced (kmem k) fl"

text \<open>Fields of nodes that are at least twelve bytes apart do not overlap.\<close>

definition far :: "u32 \<Rightarrow> u32 \<Rightarrow> bool" where
  "far a b \<longleftrightarrow> (unat a + 12 \<le> unat b \<or> unat b + 12 \<le> unat a) \<and>
     unat a + 12 < 2 ^ 32 \<and> unat b + 12 < 2 ^ 32"

lemma far_sym: "far a b \<longleftrightarrow> far b a"
  by (auto simp: far_def)

lemma unat_field: "unat a + 12 < 2 ^ 32 \<Longrightarrow> unat (a + 4 :: u32) = unat a + 4"
  "unat a + 12 < 2 ^ 32 \<Longrightarrow> unat (a + 8 :: u32) = unat a + 8"
  by (subst unat_add_no_wrap; simp)+

lemma far_fields:
  assumes "far a b"
  shows "a \<noteq> b" "a + 4 \<noteq> b" "a + 8 \<noteq> b" "a \<noteq> b + 4" "a + 4 \<noteq> b + 4" "a + 8 \<noteq> b + 4"
    "a \<noteq> b + 8" "a + 4 \<noteq> b + 8" "a + 8 \<noteq> b + 8"
  by ((rule notI, drule arg_cong [where f = unat], use assms in \<open>auto simp: far_def unat_field\<close>)[])+

lemma far_simps [simp]:
  assumes "far a b"
  shows "(a = b) = False" "(a + 4 = b) = False" "(a + 8 = b) = False" "(a = b + 4) = False" "(a = b + 8) = False"
    "(4 + a = b) = False" "(8 + a = b) = False" "(a = 4 + b) = False" "(a = 8 + b) = False"
    "(b = a) = False" "(b + 4 = a) = False" "(b + 8 = a) = False" "(b = a + 4) = False" "(b = a + 8) = False"
    "(4 + b = a) = False" "(8 + b = a) = False" "(b = 4 + a) = False" "(b = 8 + a) = False"
  using far_fields [OF assms] by (auto simp: add.commute)

lemma layout_far:
  assumes L: "layout s e fl al sz" and e: "e \<le> 3758100480"
    and ab: "a \<in> set fl \<union> al" "b \<in> set fl \<union> al" "a \<noteq> b"
  shows "far a b"
proof -
  have "block_ok s e sz a" "block_ok s e sz b" "apart sz a b"
    using L ab unfolding layout_def by blast+
  then show ?thesis using e by (auto simp: block_ok_def apart_def far_def)
qed

subsection \<open>Splitting a block\<close>

lemma layout_block: "layout s e fl al sz \<Longrightarrow> a \<in> set fl \<union> al \<Longrightarrow> block_ok s e sz a"
  unfolding layout_def by blast

lemma layout_apart:
  "layout s e fl al sz \<Longrightarrow> a \<in> set fl \<union> al \<Longrightarrow> b \<in> set fl \<union> al \<Longrightarrow> a \<noteq> b \<Longrightarrow> apart sz a b"
  unfolding layout_def by blast

lemma heap_shapeD:
  assumes "heap_shape k fl al"
  shows "layout (unat HEAP_START_LOCATION) (unat (end_address k)) fl al (sizes (kmem k))"
    "links (kmem k) 0 fl 0" "start_node k = hd fl" "phys_ok (kphys k)" "fl \<noteq> []"
    "start_address k = HEAP_START_LOCATION" "max_address k = HEAP_MAX_LOCATION"
    "unat (end_address k) \<le> 3758100480" "unat (end_address k) mod 4096 = 0"
  using assms by (auto simp: heap_shape_def layout_def)

lemma heap_shape_block:
  assumes "heap_shape k fl al" "a \<in> set fl \<union> al"
  shows "3489660928 \<le> unat a \<and> unat a + unat (kmem k a) \<le> 3758100480 \<and> 12 \<le> unat (kmem k a) \<and>
         unat a mod 4 = 0 \<and> unat (kmem k a) mod 4 = 0 \<and> a \<noteq> 0"
proof -
  have "block_ok (unat HEAP_START_LOCATION) (unat (end_address k)) (sizes (kmem k)) a"
    by (rule layout_block [OF heap_shapeD(1) [OF assms(1)] assms(2)])
  then show ?thesis using heap_shapeD(8) [OF assms(1)] by (auto simp: block_ok_def)
qed

lemma heap_shape_far:
  assumes "heap_shape k fl al" "a \<in> set fl \<union> al" "b \<in> set fl \<union> al" "a \<noteq> b"
  shows "far a b"
  using layout_far [OF heap_shapeD(1) heap_shapeD(8)] assms by blast

lemma heap_shape_distinct: "heap_shape k fl al \<Longrightarrow> distinct fl"
  using heap_shapeD(1) layout_distinct by blast

text \<open>Words of an allocated block lie apart from the header words of other blocks.\<close>

definition in_block :: "mem \<Rightarrow> u32 \<Rightarrow> u32 \<Rightarrow> bool" where
  "in_block m a x \<longleftrightarrow> unat a \<le> unat x \<and> unat x < unat a + unat (m a)"

lemma in_block_fields:
  assumes "heap_shape k fl al" "a \<in> al" "b \<in> set fl \<union> al" "a \<noteq> b" "in_block (kmem k) a x"
  shows "x \<noteq> b" "x \<noteq> b + 4" "x \<noteq> b + 8"
proof -
  have "apart (sizes (kmem k)) a b"
    using layout_apart [OF heap_shapeD(1) [OF assms(1)], of a b] assms(2-4) by blast
  then have "unat a + unat (kmem k a) \<le> unat b \<or> unat b + 12 \<le> unat a"
    using heap_shape_block [OF assms(1,3)] by (auto simp: apart_def)
  moreover have "unat b + 12 < 2 ^ 32" using heap_shape_block [OF assms(1,3)] by auto
  ultimately have "unat x \<noteq> unat b" "unat x \<noteq> unat (b + 4)" "unat x \<noteq> unat (b + 8)"
    using assms(5) by (auto simp: in_block_def unat_field)
  then show "x \<noteq> b" "x \<noteq> b + 4" "x \<noteq> b + 8" by auto
qed

lemma kmalloc_split_mem:
  assumes S: "heap_shape k (as @ cur # bs) al"
    and n: "16 \<le> unat sz" "unat sz + 12 \<le> unat (kmem k cur)"
  defines "nx \<equiv> cur + sz" and "m \<equiv> kmem k"
  shows "kmalloc_split sz cur k = (cur + HEADER_SIZE,
     k\<lparr>kmem := (\<lambda>x. if x = cur + 8 then 0xCAFEBABE else if x = cur + 4 then 0xDEADBEEF
        else if x = cur then sz
        else if bs \<noteq> [] \<and> x = hd bs + 8 then nx else if as \<noteq> [] \<and> x = last as + 4 then nx
        else if x = nx + 8 then last_or as 0 else if x = nx + 4 then hd_or bs 0
        else if x = nx then m cur - sz else m x),
       start_node := (if as = [] then nx else start_node k)\<rparr>)"
    "unat nx = unat cur + unat sz"
    "far cur nx" "\<And>a. a \<in> set as \<union> set bs \<union> al \<Longrightarrow> far nx a"
proof -
  have bl: "unat cur + unat (m cur) \<le> 3758100480" "cur \<noteq> 0"
    using heap_shape_block [OF S, of cur] by (auto simp: m_def)
  show nx: "unat nx = unat cur + unat sz"
    unfolding nx_def by (rule unat_add_no_wrap) (use bl n m_def in auto)
  show fcn: "far cur nx" using nx n bl by (simp add: far_def m_def)
  have dist: "distinct (as @ cur # bs)" using heap_shape_distinct [OF S] .
  have L: "layout (unat HEAP_START_LOCATION) (unat (end_address k)) (as @ cur # bs) al (sizes m)"
    using heap_shapeD(1) [OF S] by (simp add: m_def)
  have "cur \<notin> al" using L by (auto simp: layout_def)
  then have neq: "a \<noteq> cur" if "a \<in> set as \<union> set bs \<union> al" for a using that dist by auto
  show fnx: "far nx a" if a: "a \<in> set as \<union> set bs \<union> al" for a
  proof -
    have "apart (sizes m) cur a" "block_ok (unat HEAP_START_LOCATION) (unat (end_address k)) (sizes m) a"
      using layout_apart [OF L, of cur a] layout_block [OF L, of a] a neq [OF a] by auto
    then show ?thesis using nx n bl heap_shapeD(8) [OF S]
      by (auto simp: apart_def far_def block_ok_def m_def)
  qed
  have links: "m (cur + 8) = last_or as 0" "m (cur + 4) = hd_or bs 0" "start_node k = hd (as @ cur # bs)"
    using heap_shapeD(2,3) [OF S] by (simp_all add: m_def)
  have fcur: "far cur a" if "a \<in> set as \<union> set bs" for a
    using heap_shape_far [OF S, of cur a] that neq [of a] by auto
  have nz: "a \<noteq> 0" if "a \<in> set as \<union> set bs" for a
    using heap_shape_block [OF S, of a] that by auto
  have ab: "far (last as) (hd bs)" if "as \<noteq> []" "bs \<noteq> []"
  proof -
    have "last as \<in> set as" "hd bs \<in> set bs" using that by auto
    moreover from this have "last as \<noteq> hd bs" using dist by auto
    ultimately show ?thesis using heap_shape_far [OF S, of "last as" "hd bs"] by auto
  qed
  show "kmalloc_split sz cur k = (cur + HEADER_SIZE,
     k\<lparr>kmem := (\<lambda>x. if x = cur + 8 then 0xCAFEBABE else if x = cur + 4 then 0xDEADBEEF
        else if x = cur then sz
        else if bs \<noteq> [] \<and> x = hd bs + 8 then nx else if as \<noteq> [] \<and> x = last as + 4 then nx
        else if x = nx + 8 then last_or as 0 else if x = nx + 4 then hd_or bs 0
        else if x = nx then m cur - sz else m x),
       start_node := (if as = [] then nx else start_node k)\<rparr>)"
  proof (cases "as = []")
    case True
    show ?thesis
    proof (cases "bs = []")
      case True
      then show ?thesis using \<open>as = []\<close> links fcn
        by (auto simp: kmalloc_split_def Let_def set_size_def set_next_def set_prev_def
              nx_def [symmetric] m_def [symmetric] fun_eq_iff)
    next
      case False
      then have "far cur (hd bs)" "far nx (hd bs)" "hd bs \<noteq> 0" "hd_or bs 0 = hd bs"
        using fcur fnx nz by (auto simp: hd_or_def split: list.splits)
      then show ?thesis using \<open>as = []\<close> False links fcn
        by (auto simp: kmalloc_split_def Let_def set_size_def set_next_def set_prev_def
              nx_def [symmetric] m_def [symmetric] fun_eq_iff)
    qed
  next
    case as: False
    then have las: "far cur (last as)" "far nx (last as)" "last_or as 0 = last as" "start_node k \<noteq> cur"
      using fcur fnx dist links by (auto simp: last_or_def hd_append)
    show ?thesis
    proof (cases "bs = []")
      case True
      then show ?thesis using as las links fcn
        by (auto simp: kmalloc_split_def Let_def set_size_def set_next_def set_prev_def
              nx_def [symmetric] m_def [symmetric] fun_eq_iff)
    next
      case False
      then have "far cur (hd bs)" "far nx (hd bs)" "hd bs \<noteq> 0" "hd_or bs 0 = hd bs"
        using fcur fnx nz by (auto simp: hd_or_def split: list.splits)
      then show ?thesis using as las ab False links fcn
        by (auto simp: kmalloc_split_def Let_def set_size_def set_next_def set_prev_def
              nx_def [symmetric] m_def [symmetric] fun_eq_iff)
    qed
  qed
qed

lemma split_links:
  fixes m :: mem and sz rest :: u32
  assumes fcn: "far cur nx" and fc': "\<forall>a \<in> set as \<union> set bs \<union> al. far cur a"
    and fn': "\<forall>a \<in> set as \<union> set bs \<union> al. far nx a"
    and ff': "\<forall>a \<in> set as \<union> set bs \<union> al. \<forall>b \<in> set as \<union> set bs. a \<noteq> b \<longrightarrow> far a b"
    and dist: "distinct (as @ bs)" and lk: "links m 0 as cur" "links m cur bs 0"
    and disj: "(set as \<union> set bs) \<inter> al = {}"
  defines "m' \<equiv> (\<lambda>x. if x = cur + 8 then 0xCAFEBABE else if x = cur + 4 then 0xDEADBEEF
        else if x = cur then sz
        else if bs \<noteq> [] \<and> x = hd bs + 8 then nx else if as \<noteq> [] \<and> x = last as + 4 then nx
        else if x = nx + 8 then last_or as 0 else if x = nx + 4 then hd_or bs 0
        else if x = nx then rest else m x)"
  shows "links m' 0 (as @ nx # bs) 0" "m' cur = sz" "m' nx = rest"
    "\<And>a. a \<in> set as \<union> set bs \<union> al \<Longrightarrow> m' a = m a"
proof -
  have fc: "\<And>a. a \<in> set as \<union> set bs \<union> al \<Longrightarrow> far cur a"
    and fn: "\<And>a. a \<in> set as \<union> set bs \<union> al \<Longrightarrow> far nx a"
    and ff: "\<And>a b. a \<in> set as \<union> set bs \<union> al \<Longrightarrow> b \<in> set as \<union> set bs \<Longrightarrow> a \<noteq> b \<Longrightarrow> far a b"
    using fc' fn' ff' by blast+
  have las: "last as \<in> set as" if "as \<noteq> []" using that by simp
  have hbs: "hd bs \<in> set bs" if "bs \<noteq> []" using that by simp
  have fl: "far cur (last as)" "far nx (last as)" if "as \<noteq> []" using las [OF that] fc fn by auto
  have fh: "far cur (hd bs)" "far nx (hd bs)" if "bs \<noteq> []" using hbs [OF that] fc fn by auto
  have flh: "far (last as) (hd bs)" if "as \<noteq> []" "bs \<noteq> []"
    using las [OF that(1)] hbs [OF that(2)] dist by (intro ff) auto
  have fal: "far a (last as)" if "as \<noteq> []" "a \<in> set as \<union> set bs \<union> al" "a \<noteq> last as" for a
    using las [OF that(1)] that by (intro ff) auto
  have fah: "far a (hd bs)" if "bs \<noteq> []" "a \<in> set as \<union> set bs \<union> al" "a \<noteq> hd bs" for a
    using hbs [OF that(1)] that by (intro ff) auto
  have keep: "m' x = m x"
    if "x \<notin> {cur, cur + 4, cur + 8, nx, nx + 4, nx + 8}" "bs = [] \<or> x \<noteq> hd bs + 8" "as = [] \<or> x \<noteq> last as + 4" for x
    using that by (auto simp: m'_def)
  show "m' cur = sz" by (simp add: m'_def)
  show "m' nx = rest" using fcn fl fh by (cases "as = []"; cases "bs = []") (simp_all add: m'_def)
  show "m' a = m a" if a: "a \<in> set as \<union> set bs \<union> al" for a
  proof -
    have "a \<noteq> hd bs + 8" if "bs \<noteq> []"
      using fah [OF that a] by (cases "a = hd bs") auto
    moreover have "a \<noteq> last as + 4" if "as \<noteq> []"
      using fal [OF that a] by (cases "a = last as") auto
    ultimately show ?thesis using fc [OF a] fn [OF a] by (intro keep) auto
  qed
  have nx4: "m' (nx + 4) = hd_or bs 0" using fcn fl fh by (cases "as = []"; cases "bs = []") (simp_all add: m'_def)
  have nx8: "m' (nx + 8) = last_or as 0" using fcn fl fh by (cases "as = []"; cases "bs = []") (simp_all add: m'_def)
  have a8: "m' (a + 8) = m (a + 8)" if a: "a \<in> set as" for a
  proof (rule keep)
    have ne: "bs = [] \<or> a \<noteq> hd bs" using hbs dist a by (metis IntI distinct_append empty_iff)
    show "a + 8 \<notin> {cur, cur + 4, cur + 8, nx, nx + 4, nx + 8}"
      using fc [of a] fn [of a] a by simp
    show "bs = [] \<or> a + 8 \<noteq> hd bs + 8" using fah [of a] ne a by (cases "bs = []") simp_all
    show "as = [] \<or> a + 8 \<noteq> last as + 4"
    proof (cases "as = [] \<or> a = last as")
      case True then show ?thesis by auto
    next
      case False then show ?thesis using fal a by simp
    qed
  qed
  have b4: "m' (a + 4) = m (a + 4)" if a: "a \<in> set bs" for a
  proof (rule keep)
    have ne: "as = [] \<or> a \<noteq> last as" using las dist a by (metis IntI distinct_append empty_iff)
    show "a + 4 \<notin> {cur, cur + 4, cur + 8, nx, nx + 4, nx + 8}"
      using fc [of a] fn [of a] a by simp
    show "bs = [] \<or> a + 4 \<noteq> hd bs + 8"
    proof (cases "bs = [] \<or> a = hd bs")
      case True then show ?thesis by auto
    next
      case False then show ?thesis using fah a by simp
    qed
    show "as = [] \<or> a + 4 \<noteq> last as + 4" using fal [of a] ne a by (cases "as = []") simp_all
  qed
  have a4: "m' (a + 4) = m (a + 4)" if a: "a \<in> set as" "a \<noteq> last as" for a
  proof (rule keep)
    have ne: "bs = [] \<or> a \<noteq> hd bs" using hbs dist a by (metis IntI distinct_append empty_iff)
    show "a + 4 \<notin> {cur, cur + 4, cur + 8, nx, nx + 4, nx + 8}"
      using fc [of a] fn [of a] a by simp
    show "bs = [] \<or> a + 4 \<noteq> hd bs + 8" using fah [of a] ne a by (cases "bs = []") simp_all
    show "as = [] \<or> a + 4 \<noteq> last as + 4" using fal [of a] a by (cases "as = []") simp_all
  qed
  have b8: "m' (a + 8) = m (a + 8)" if a: "a \<in> set bs" "a \<noteq> hd bs" for a
  proof (rule keep)
    have ne: "as = [] \<or> a \<noteq> last as" using las dist a by (metis IntI distinct_append empty_iff)
    show "a + 8 \<notin> {cur, cur + 4, cur + 8, nx, nx + 4, nx + 8}"
      using fc [of a] fn [of a] a by simp
    show "bs = [] \<or> a + 8 \<noteq> hd bs + 8" using fah [of a] a by (cases "bs = []") simp_all
    show "as = [] \<or> a + 8 \<noteq> last as + 4" using fal [of a] ne a by (cases "as = []") simp_all
  qed
  have l4: "m' (last as + 4) = nx" if "as \<noteq> []"
    using fl [OF that] flh [OF that] that by (cases "as = []"; cases "bs = []") (simp_all add: m'_def)
  have h8: "m' (hd bs + 8) = nx" if "bs \<noteq> []"
    using fh [OF that] flh that by (cases "as = []"; cases "bs = []") (simp_all add: m'_def)
  have "links m' 0 as nx"
  proof (rule links_change_next [OF lk(1)])
    fix a assume "a \<in> set (butlast as)"
    then have "a \<in> set as" "a \<noteq> last as"
      using dist by (induction as) (auto split: if_splits)
    then show "m' (a + 4) = m (a + 4)" by (rule a4)
  qed (use a8 l4 in auto)
  moreover have "links m' nx bs 0"
  proof (rule links_change_prev [OF lk(2)])
    fix a assume "a \<in> set (tl bs)"
    then have "a \<in> set bs" "a \<noteq> hd bs" using dist by (cases bs; auto)+
    then show "m' (a + 8) = m (a + 8)" by (rule b8)
  qed (use b4 h8 in auto)
  ultimately show "links m' 0 (as @ nx # bs) 0" using nx4 nx8 by simp
qed

lemma kmalloc_split_shape:
  assumes S: "heap_shape k (as @ cur # bs) al"
    and n: "16 \<le> unat sz" "unat sz + 12 \<le> unat (kmem k cur)" "unat sz mod 4 = 0"
    and r: "kmalloc_split sz cur k = (p, k')"
  shows "p = cur + HEADER_SIZE" "heap_shape k' (as @ (cur + sz) # bs) (insert cur al)"
    "kmem k' cur = sz" "kphys k' = kphys k" "mapped k' = mapped k" "end_address k' = end_address k"
    "\<And>a x. a \<in> al \<Longrightarrow> in_block (kmem k) a x \<Longrightarrow> kmem k' x = kmem k x"
    "\<And>a. a \<in> set as \<union> set bs \<union> al \<Longrightarrow> kmem k' a = kmem k a"
    "kmem k' (cur + sz) = kmem k cur - sz"
proof -
  let ?nx = "cur + sz" and ?m = "kmem k"
  note M = kmalloc_split_mem [OF S n(1,2)]
  have k': "kmem k' = (\<lambda>x. if x = cur + 8 then 0xCAFEBABE else if x = cur + 4 then 0xDEADBEEF
        else if x = cur then sz
        else if bs \<noteq> [] \<and> x = hd bs + 8 then ?nx else if as \<noteq> [] \<and> x = last as + 4 then ?nx
        else if x = ?nx + 8 then last_or as 0 else if x = ?nx + 4 then hd_or bs 0
        else if x = ?nx then ?m cur - sz else ?m x)"
    and sn: "start_node k' = (if as = [] then ?nx else start_node k)"
    and frame: "p = cur + HEADER_SIZE" "kphys k' = kphys k" "mapped k' = mapped k"
      "end_address k' = end_address k" "start_address k' = start_address k" "max_address k' = max_address k"
    using M(1) r by auto
  then show "p = cur + HEADER_SIZE" "kphys k' = kphys k" "mapped k' = mapped k" "end_address k' = end_address k"
    by blast+
  have dist: "distinct (as @ cur # bs)" using heap_shape_distinct [OF S] .
  have L: "layout (unat HEAP_START_LOCATION) (unat (end_address k)) (as @ cur # bs) al (sizes ?m)"
    using heap_shapeD(1) [OF S] .
  have cal: "cur \<notin> al" and disj: "set (as @ cur # bs) \<inter> al = {}" using L by (auto simp: layout_def)
  have fcn: "far cur ?nx" and fnx: "\<And>a. a \<in> set as \<union> set bs \<union> al \<Longrightarrow> far ?nx a"
    by (rule M(3), rule M(4)) 
  have fcur: "far cur a" if "a \<in> set as \<union> set bs \<union> al" for a
    using heap_shape_far [OF S, of cur a] that dist cal by auto
  have fas: "far a b" if "a \<in> set as \<union> set bs \<union> al" "b \<in> set as \<union> set bs \<union> al" "a \<noteq> b" for a b
    using heap_shape_far [OF S, of a b] that by auto
  have lk: "links ?m 0 as cur" "links ?m cur bs 0" using heap_shapeD(2) [OF S] by simp_all
  have D: "distinct (as @ bs)" "(set as \<union> set bs) \<inter> al = {}" using dist disj by auto
  have ff: "far a b" if "a \<in> set as \<union> set bs \<union> al" "b \<in> set as \<union> set bs" "a \<noteq> b" for a b
    using fas that by blast
  have F: "\<forall>a \<in> set as \<union> set bs \<union> al. far cur a" "\<forall>a \<in> set as \<union> set bs \<union> al. far ?nx a"
    "\<forall>a \<in> set as \<union> set bs \<union> al. \<forall>b \<in> set as \<union> set bs. a \<noteq> b \<longrightarrow> far a b"
    using fcur fnx ff by blast+
  note SL = split_links [OF fcn F D(1) lk D(2), where sz = sz and rest = "?m cur - sz"]
  show cur_sz: "kmem k' cur = sz" unfolding k' by (rule SL(2))
  show nx_sz: "kmem k' ?nx = ?m cur - sz" unfolding k' by (rule SL(3))
  show other: "kmem k' a = ?m a" if a: "a \<in> set as \<union> set bs \<union> al" for a
    unfolding k' by (rule SL(4) [OF a])
  show "kmem k' x = ?m x" if "a \<in> al" "in_block ?m a x" for a x
  proof -
    have "x \<noteq> b" "x \<noteq> b + 4" "x \<noteq> b + 8" if "b \<in> set (as @ cur # bs)" for b
      using in_block_fields [OF S \<open>a \<in> al\<close> _ _ \<open>in_block ?m a x\<close>, of b] that disj \<open>a \<in> al\<close> by auto
    moreover have "x \<noteq> ?nx" "x \<noteq> ?nx + 4" "x \<noteq> ?nx + 8"
    proof -
      have "apart (sizes ?m) cur a" "block_ok (unat HEAP_START_LOCATION) (unat (end_address k)) (sizes ?m) a"
        using layout_apart [OF L, of cur a] layout_block [OF L, of a] that cal by auto
      then have "unat x \<noteq> unat ?nx" "unat x \<noteq> unat (?nx + 4)" "unat x \<noteq> unat (?nx + 8)"
        using that(2) M(2) n fcn by (auto simp: apart_def in_block_def unat_field far_def)
      then show "x \<noteq> ?nx" "x \<noteq> ?nx + 4" "x \<noteq> ?nx + 8" by auto
    qed
    moreover have "bs = [] \<or> hd bs \<in> set (as @ cur # bs)" "as = [] \<or> last as \<in> set (as @ cur # bs)" by auto
    ultimately have "x \<notin> {cur, cur + 4, cur + 8, ?nx, ?nx + 4, ?nx + 8}" "bs = [] \<or> x \<noteq> hd bs + 8" "as = [] \<or> x \<noteq> last as + 4"
      by auto
    then show ?thesis unfolding k' by auto
  qed
  have szs: "unat (?m cur - sz) = unat (?m cur) - unat sz"
    by (rule unat_sub_no_wrap) (use n in simp)
  have "layout (unat HEAP_START_LOCATION) (unat (end_address k)) (as @ ?nx # bs) (insert cur al)
          ((sizes ?m)(cur := unat sz, ?nx := unat (?m cur) - unat sz))"
    by (rule layout_split [OF L n M(2)])
  then have L': "layout (unat HEAP_START_LOCATION) (unat (end_address k)) (as @ ?nx # bs) (insert cur al) (sizes (kmem k'))"
  proof (rule layout_cong [rotated])
    fix a assume "a \<in> set (as @ ?nx # bs) \<union> insert cur al"
    then consider "a = ?nx" | "a = cur" "a \<noteq> ?nx" | "a \<in> set as \<union> set bs \<union> al" "a \<noteq> ?nx" "a \<noteq> cur"
      unfolding set_append list.set by blast
    then show "((sizes ?m)(cur := unat sz, ?nx := unat (?m cur) - unat sz)) a = unat (kmem k' a)"
      by cases (use cur_sz nx_sz other szs in simp_all)
  qed
  have "links (kmem k') 0 (as @ ?nx # bs) 0" unfolding k' by (rule SL(1))
  moreover have "start_node k' = hd (as @ ?nx # bs)"
    using sn heap_shapeD(3) [OF S] by (simp add: hd_append)
  ultimately show "heap_shape k' (as @ ?nx # bs) (insert cur al)"
    using L' S frame by (simp add: heap_shape_def)
qed

subsection \<open>Growing the heap\<close>

lemma mult_4096_mod_4: "(4096 * n) mod 4 = (0 :: nat)"
  by simp

lemma heap_add_pages_cases:
  assumes "phys_ok (kphys k)" "max_address k = HEAP_MAX_LOCATION" "unat (end_address k) \<le> 3758100480"
  shows "(\<exists>m. heap_add_pages n k = Panic m) \<or>
    (\<exists>ph mp e. heap_add_pages n k = Ok (k\<lparr>kphys := ph, mapped := mp, end_address := e\<rparr>) \<and> phys_ok ph \<and>
       unat e = unat (end_address k) + 4096 * n \<and> unat e \<le> 3758100480)"
  using assms
proof (induction n arbitrary: k)
  case 0
  have "k = k\<lparr>kphys := kphys k, mapped := mapped k, end_address := end_address k\<rparr>" by simp
  then show ?case using 0 by (metis add.right_neutral heap_add_pages.simps(1) mult_0_right)
next
  case (Suc n)
  show ?case
  proof (cases "end_address k > max_address k")
    case True
    then show ?thesis by (simp add: heap_add_page_def)
  next
    case False
    then have e0: "unat (end_address k) \<le> 3758096384"
      using Suc.prems by (simp add: word_less_nat_alt)
    from Suc.prems(1) show ?thesis
    proof (cases rule: phys_alloc_cases)
      case 1
      then show ?thesis using False by (simp add: heap_add_page_def)
    next
      case (2 pg ph)
      define k1 where "k1 = k\<lparr>kphys := ph, mapped := (page_addr pg, end_address k) # mapped k,
              end_address := end_address k + 4096\<rparr>"
      have step: "heap_add_pages (Suc n) k = heap_add_pages n k1"
        using False 2 by (simp add: heap_add_page_def k1_def)
      have e1: "unat (end_address k1) = unat (end_address k) + 4096"
        unfolding k1_def using e0 by (simp add: unat_add_no_wrap)
      have "phys_ok (kphys k1)" "max_address k1 = HEAP_MAX_LOCATION" "unat (end_address k1) \<le> 3758100480"
        using 2 Suc.prems e0 e1 by (simp_all add: k1_def)
      from Suc.IH [OF this] consider m where "heap_add_pages n k1 = Panic m"
        | ph' mp e where "heap_add_pages n k1 = Ok (k1\<lparr>kphys := ph', mapped := mp, end_address := e\<rparr>)"
          "phys_ok ph'" "unat e = unat (end_address k1) + 4096 * n" "unat e \<le> 3758100480"
        by metis
      then show ?thesis
      proof cases
        case 1 then show ?thesis using step by simp
      next
        case 2
        have "k1\<lparr>kphys := ph', mapped := mp, end_address := e\<rparr> = k\<lparr>kphys := ph', mapped := mp, end_address := e\<rparr>"
          by (simp add: k1_def)
        moreover have "unat e = unat (end_address k) + 4096 * Suc n" using 2 e1 by simp
        ultimately show ?thesis using step 2 by metis
      qed
    qed
  qed
qed

lemma kmalloc_size_ok:
  assumes "unat n \<le> 2 ^ 28"
  shows "16 \<le> unat (kmalloc_size n) \<and> unat n + 4 \<le> unat (kmalloc_size n) \<and>
         unat (kmalloc_size n) mod 4 = 0 \<and> unat (kmalloc_size n) \<le> 2 ^ 28 + 20"
proof -
  define s1 where "s1 = (if n < 12 then 12 else n)"
  have s1: "12 \<le> unat s1" "unat n \<le> unat s1" "unat s1 \<le> 2 ^ 28"
    using assms by (auto simp: s1_def word_less_nat_alt not_less)
  define s2 where "s2 = (if s1 mod 4 \<noteq> 0 then s1 + (4 - s1 mod 4) else s1)"
  have m: "unat (s1 mod 4) = unat s1 mod 4" by (simp add: unat_mod)
  then have m4: "unat (4 - s1 mod 4) = 4 - unat s1 mod 4"
    by (subst unat_sub_no_wrap) auto
  have z: "s1 mod 4 = 0 \<longleftrightarrow> unat s1 mod 4 = 0"
    by (metis m unat_eq_zero)
  have s2: "unat s2 = (if unat s1 mod 4 \<noteq> 0 then unat s1 + (4 - unat s1 mod 4) else unat s1)"
    unfolding s2_def z using s1 by (auto simp: m4 unat_add_no_wrap)
  have "(unat s1 + (4 - unat s1 mod 4)) mod 4 = 0"
    by presburger
  then have "unat s2 mod 4 = 0" "unat s1 \<le> unat s2" "unat s2 \<le> unat s1 + 4"
    using s2 by auto
  moreover have "kmalloc_size n = s2 + 4" by (simp add: kmalloc_size_def Let_def s1_def s2_def)
  moreover have "unat (s2 + 4) = unat s2 + 4"
    using s1 \<open>unat s2 \<le> unat s1 + 4\<close> by (simp add: unat_add_no_wrap)
  ultimately show ?thesis using s1 by (simp add: mod_add_eq)
qed

lemma kmalloc_grow_cases:
  assumes S: "heap_shape k (as @ cur # bs) al"
    and n: "unat sz \<le> 2 ^ 28 + 20" and b: "bs = [] \<or> sz + LINKED_NODE_SIZE < kmem k cur"
  shows "(\<exists>m. kmalloc_grow sz cur k = Panic m) \<or>
    (\<exists>k'. kmalloc_grow sz cur k = Ok k' \<and> heap_shape k' (as @ cur # bs) al \<and>
      (\<forall>x. x \<noteq> cur \<longrightarrow> kmem k' x = kmem k x) \<and> unat sz + 12 \<le> unat (kmem k' cur) \<and>
      unat (kmem k cur) \<le> unat (kmem k' cur) \<and>
      (bs \<noteq> [] \<longrightarrow> k' = k))"
proof -
  let ?m = "kmem k"
  have L: "layout (unat HEAP_START_LOCATION) (unat (end_address k)) (as @ cur # bs) al (sizes ?m)"
    and lk: "?m (cur + 4) = hd_or bs 0"
    using heap_shapeD [OF S] by auto
  have bl: "unat cur + unat (?m cur) \<le> 3758100480" "3489660928 \<le> unat cur" "cur \<noteq> 0" "unat (?m cur) mod 4 = 0"
    using heap_shape_block [OF S, of cur] by auto
  have s12: "unat (sz + 12) = unat sz + 12" using n by (simp add: unat_add_no_wrap)
  have nz: "hd_or bs 0 = 0 \<longleftrightarrow> bs = []"
    using heap_shape_block [OF S] by (cases bs) auto
  show ?thesis
  proof (cases "bs = [] \<and> ?m cur < sz + LINKED_NODE_SIZE")
    case False
    then have "kmalloc_grow sz cur k = Ok k" using lk nz by (auto simp: kmalloc_grow_def)
    moreover have "unat sz + 12 \<le> unat (?m cur)"
      using False b s12 by (auto simp: word_less_nat_alt)
    ultimately show ?thesis using S by auto
  next
    case True
    define np where "np = (sz - ?m cur + LINKED_NODE_SIZE) div 4096 + 1"
    let ?d = "sz - ?m cur + LINKED_NODE_SIZE"
    have lt: "unat (?m cur) < unat sz + 12" using True s12 by (simp add: word_less_nat_alt)
    have eq: "?d = (sz + 12) - ?m cur" by simp
    have d: "unat ?d = unat sz + 12 - unat (?m cur)"
      unfolding eq using lt s12 by (subst unat_sub_no_wrap) simp_all
    have np: "unat np = unat ?d div 4096 + 1"
    proof -
      have "unat (?d div 4096) = unat ?d div 4096" by (simp add: unat_div)
      moreover have "unat ?d div 4096 < 1048576" using unat_u32_bound [of ?d] by auto
      ultimately show ?thesis unfolding np_def by (simp add: unat_add_no_wrap)
    qed
    have grow: "kmalloc_grow sz cur k = obind (heap_add_pages (unat np) k) (\<lambda>k'.
          Ok (k'\<lparr>kmem := set_size cur (?m cur + np * 4096) (kmem k')\<rparr>))"
      using True lk by (simp add: kmalloc_grow_def Let_def np_def)
    from heap_add_pages_cases [of k "unat np"] heap_shapeD(4,7,8) [OF S]
    consider m where "heap_add_pages (unat np) k = Panic m"
      | ph mp e where "heap_add_pages (unat np) k = Ok (k\<lparr>kphys := ph, mapped := mp, end_address := e\<rparr>)"
        "phys_ok ph" "unat e = unat (end_address k) + 4096 * unat np" "unat e \<le> 3758100480"
      by metis
    then show ?thesis
    proof cases
      case 1 then show ?thesis using grow by simp
    next
      case 2
      let ?k' = "k\<lparr>kphys := ph, mapped := mp, end_address := e, kmem := ?m(cur := ?m cur + np * 4096)\<rparr>"
      have r: "kmalloc_grow sz cur k = Ok ?k'" using grow 2 by (simp add: set_size_def)
      have ec: "unat cur + unat (?m cur) = unat (end_address k)"
        using L True by (simp add: layout_def)
      have npb: "unat np * 4096 \<le> 268443648"
        using 2(3,4) ec bl by (simp add: mult.commute) 
      have "unat (np * 4096) = unat np * 4096"
        using npb by (simp add: unat_mult_lem [THEN iffD1])
      moreover have "unat (?m cur) + unat np * 4096 < 2 ^ 32" using npb bl by simp
      ultimately have ns: "unat (?m cur + np * 4096) = unat (?m cur) + 4096 * unat np"
        by (simp add: unat_add_no_wrap)
      have fin: "far cur a" if "a \<in> set as \<union> al" for a
        using heap_shape_far [OF S, of cur a] heap_shape_distinct [OF S] that L by (auto simp: layout_def)
      have self: "cur \<noteq> cur + 4" "cur \<noteq> cur + 8" by simp_all
      have L': "layout (unat HEAP_START_LOCATION) (unat e) (as @ [cur]) al
              ((sizes ?m)(cur := unat (?m cur) + 4096 * unat np))"
      proof -
        have "layout (unat HEAP_START_LOCATION) (unat (end_address k)) (as @ [cur]) al (sizes ?m)"
          using L True by simp
        moreover have "(4096 * unat np) mod 4 = 0" by (rule mult_4096_mod_4)
        ultimately show ?thesis unfolding 2(3) by (rule layout_grow)
      qed
      have "layout (unat HEAP_START_LOCATION) (unat e) (as @ [cur]) al (sizes (kmem ?k'))"
        by (rule layout_cong [OF _ L']) (simp add: ns)
      moreover have "links (kmem ?k') 0 (as @ [cur]) 0"
      proof (rule links_cong [OF heap_shapeD(2) [OF S, unfolded conjunct1 [OF True]]])
        fix a assume "a \<in> set (as @ [cur])"
        then have "a = cur \<or> far cur a" using fin by auto
        then show "kmem ?k' (a + 4) = ?m (a + 4) \<and> kmem ?k' (a + 8) = ?m (a + 8)"
          by (elim disjE) simp_all
      qed
      ultimately have "heap_shape ?k' (as @ cur # bs) al"
        using S True 2 by (simp add: heap_shape_def)
      moreover have "unat sz + 12 \<le> unat (?m cur) + 4096 * unat np"
        using d np by simp
      ultimately show ?thesis using r ns True by auto
    qed
  qed
qed

subsection \<open>The allocator keeps the heap\<close>

lemma kmalloc_shape:
  assumes S: "heap_shape k fl al" and n: "unat n \<le> 2 ^ 28"
  shows "(\<exists>m. kmalloc n k = Panic m) \<or>
    (\<exists>as cur bs k'. fl = as @ cur # bs \<and> kmalloc n k = Ok (cur + 4, k') \<and> 
       heap_shape k' (as @ (cur + kmalloc_size n) # bs) (insert cur al) \<and> kmem k' cur = kmalloc_size n \<and>
       (\<forall>a x. a \<in> al \<longrightarrow> in_block (kmem k) a x \<longrightarrow> kmem k' x = kmem k x) \<and>
       (\<forall>a \<in> set as \<union> set bs \<union> al. kmem k' a = kmem k a) \<and>
       unat cur + unat (kmem k cur) \<le> unat (cur + kmalloc_size n) + unat (kmem k' (cur + kmalloc_size n)) \<and>
       (bs \<noteq> [] \<longrightarrow> unat cur + unat (kmem k cur) = unat (cur + kmalloc_size n) + unat (kmem k' (cur + kmalloc_size n))))"
proof -
  let ?sz = "kmalloc_size n"
  note sz = kmalloc_size_ok [OF n]
  have fl: "fl \<noteq> []" "start_node k = hd fl" using heap_shapeD [OF S] by auto
  have "0 \<notin> set fl" using heap_shape_block [OF S, of 0] by auto
  then obtain as cur bs where f: "fl = as @ cur # bs" "find_node (kmem k) ?sz (hd fl) = Some (Ok cur)"
    "bs = [] \<or> ?sz + LINKED_NODE_SIZE < kmem k cur"
    using find_node_first_fit [OF heap_shapeD(2) [OF S] fl(1), of ?sz] by auto
  have S': "heap_shape k (as @ cur # bs) al" using S f by simp
  have step: "kmalloc n k = obind (kmalloc_grow ?sz cur k) (\<lambda>k'. Ok (kmalloc_split ?sz cur k'))"
    using f fl by (simp add: kmalloc_def Let_def)
  consider m where "kmalloc_grow ?sz cur k = Panic m"
    | k1 where "kmalloc_grow ?sz cur k = Ok k1" "heap_shape k1 (as @ cur # bs) al"
      "\<forall>x. x \<noteq> cur \<longrightarrow> kmem k1 x = kmem k x" "unat ?sz + 12 \<le> unat (kmem k1 cur)"
      "unat (kmem k cur) \<le> unat (kmem k1 cur)" "bs \<noteq> [] \<longrightarrow> k1 = k"
    using kmalloc_grow_cases [OF S' _ f(3)] sz by metis
  then show ?thesis
  proof cases
    case 1 then show ?thesis using step by simp
  next
    case 2
    obtain p k' where r: "kmalloc_split ?sz cur k1 = (p, k')" by (cases "kmalloc_split ?sz cur k1")
    note SP = kmalloc_split_shape [OF 2(2) _ 2(4) _ r]
    have sz': "16 \<le> unat ?sz" "unat ?sz mod 4 = 0" using sz by auto
    note nx = kmalloc_split_mem(2) [OF 2(2) sz'(1) 2(4)]
    have "kmalloc n k = Ok (cur + 4, k')"
      using step 2 r SP(1) sz' by simp
    moreover have "heap_shape k' (as @ (cur + ?sz) # bs) (insert cur al)" "kmem k' cur = ?sz"
      using SP sz' by auto
    moreover have "kmem k' x = kmem k x" if "a \<in> al" "in_block (kmem k) a x" for a x
    proof -
      have ac: "a \<noteq> cur" using that S' by (auto simp: heap_shape_def layout_def)
      then have "in_block (kmem k1) a x" using that 2 by (simp add: in_block_def)
      then have "kmem k' x = kmem k1 x" using SP(7) [OF sz' that(1)] by blast
      moreover have "x \<noteq> cur" using in_block_fields(1) [OF S' _ _ ac, of x] that by auto
      ultimately show ?thesis using 2 by simp
    qed
    moreover have "kmem k' a = kmem k a" if "a \<in> set as \<union> set bs \<union> al" for a
    proof -
      have "a \<noteq> cur" using that S' heap_shape_distinct [OF S'] by (auto simp: heap_shape_def layout_def)
      then show ?thesis using SP(8) [OF sz' that] 2 by simp
    qed
    moreover have "unat (cur + ?sz) + unat (kmem k' (cur + ?sz)) = unat cur + unat (kmem k1 cur)"
      unfolding SP(9) [OF sz'] nx using 2(4) by (subst unat_sub_no_wrap) auto
    ultimately show ?thesis using f(1) 2(5,6)
      by (intro disjI2 exI [of _ as] exI [of _ cur] exI [of _ bs] exI [of _ k']) auto
  qed
qed

lemma kmalloc_keeps:
  assumes I: "heap_inv k fl al" and n: "unat n \<le> 2 ^ 28" and r: "kmalloc n k = Ok (p, k')"
  obtains fl' where "heap_inv k' fl' (insert (p - 4) al)" "p - 4 \<notin> al" "p - 4 \<noteq> 0" "p \<noteq> 0"
    "kmem k' (p - 4) = kmalloc_size n"
    "\<And>a x. a \<in> al \<Longrightarrow> in_block (kmem k) a x \<Longrightarrow> kmem k' x = kmem k x"
proof -
  have S: "heap_shape k fl al" and C: "coalesced (kmem k) fl" using I by (auto simp: heap_inv_def)
  let ?P = "\<lambda>as cur bs. fl = as @ cur # bs \<and> p = cur + 4 \<and>
       heap_shape k' (as @ (cur + kmalloc_size n) # bs) (insert cur al) \<and> kmem k' cur = kmalloc_size n \<and>
       (\<forall>a x. a \<in> al \<longrightarrow> in_block (kmem k) a x \<longrightarrow> kmem k' x = kmem k x) \<and>
       (\<forall>a \<in> set as \<union> set bs \<union> al. kmem k' a = kmem k a) \<and>
       unat cur + unat (kmem k cur) \<le> unat (cur + kmalloc_size n) + unat (kmem k' (cur + kmalloc_size n)) \<and>
       (bs \<noteq> [] \<longrightarrow> unat cur + unat (kmem k cur) = unat (cur + kmalloc_size n) + unat (kmem k' (cur + kmalloc_size n)))"
  have "\<exists>as cur bs. ?P as cur bs" using kmalloc_shape [OF S n] unfolding r by simp
  then obtain as cur bs where P: "?P as cur bs" by blast
  note f = conjunct1 [OF P] conjunct1 [OF conjunct2 [OF P]]
  from P have S1: "heap_shape k' (as @ (cur + kmalloc_size n) # bs) (insert cur al)"
    and sz: "kmem k' cur = kmalloc_size n"
    and ot: "\<forall>a \<in> set as \<union> set bs \<union> al. kmem k' a = kmem k a"
    and en: "unat cur + unat (kmem k cur) \<le> unat (cur + kmalloc_size n) + unat (kmem k' (cur + kmalloc_size n))"
      "bs \<noteq> [] \<longrightarrow> unat cur + unat (kmem k cur) = unat (cur + kmalloc_size n) + unat (kmem k' (cur + kmalloc_size n))"
    by simp_all
  have fr: "\<And>a x. a \<in> al \<Longrightarrow> in_block (kmem k) a x \<Longrightarrow> kmem k' x = kmem k x"
    using P by blast
  let ?nx = "cur + kmalloc_size n"
  have lc: "unat a \<noteq> unat ?nx + unat (kmem k' ?nx)" if "a \<in> set (as @ ?nx # bs)" for a
  proof (cases "bs = []")
    case False
    then show ?thesis
    proof (cases "a = ?nx")
      case True then show ?thesis using heap_shape_block [OF S1, of ?nx] by auto
    next
      case f2: False
      then have "unat cur + unat (kmem k cur) \<noteq> unat a" 
        using C that f by (auto simp: coalesced_def)
      then show ?thesis using False en by auto
    qed
  next
    case True
    then have "unat ?nx + unat (kmem k' ?nx) = unat (end_address k')"
      using heap_shapeD(1) [OF S1] by (simp add: layout_def)
    moreover have "unat a + 12 \<le> unat (end_address k')"
      using layout_block [OF heap_shapeD(1) [OF S1], of a] that by (auto simp: block_ok_def)
    ultimately show ?thesis by simp
  qed
  have to_nx: "unat p + unat (kmem k' p) \<noteq> unat ?nx" if p: "p \<in> set as \<union> set bs" for p
  proof
    assume *: "unat p + unat (kmem k' p) = unat ?nx"
    have pc: "p \<noteq> cur" using p heap_shape_distinct S f(1) by fastforce
    have ap: "apart (sizes (kmem k')) p cur"
      using layout_apart [OF heap_shapeD(1) [OF S1], of p cur] p pc by auto
    have "unat ?nx = unat cur + unat (kmalloc_size n)"
    proof -
      have "unat cur + unat (kmalloc_size n) < 2 ^ 32"
        using heap_shape_block [OF S1, of cur] sz by auto
      then show ?thesis by (simp add: unat_add_no_wrap)
    qed
    moreover have "0 < unat (kmalloc_size n)" using kmalloc_size_ok [OF n] by auto
    ultimately have "unat cur + unat (kmalloc_size n) \<le> unat p"
      using ap * sz by (auto simp: apart_def)
    moreover have "12 \<le> unat (kmem k' p)" using heap_shape_block [OF S1, of p] p by auto
    ultimately show False using * \<open>unat ?nx = _\<close> by simp
  qed
  have "coalesced (kmem k') (as @ ?nx # bs)"
    unfolding coalesced_def
  proof (intro ballI)
    fix p q assume p: "p \<in> set (as @ ?nx # bs)" and q: "q \<in> set (as @ ?nx # bs)"
    show "unat p + unat (kmem k' p) \<noteq> unat q"
    proof (cases "p = ?nx")
      case True then show ?thesis using lc [OF q] by simp
    next
      case False
      then have p': "p \<in> set as \<union> set bs" using p by auto
      show ?thesis
      proof (cases "q = ?nx")
        case True then show ?thesis using to_nx [OF p'] by simp
      next
        case False
        then have "q \<in> set fl" "p \<in> set fl" using p' q f by auto
        then show ?thesis using C ot p' by (auto simp: coalesced_def)
      qed
    qed
  qed
  then have "heap_inv k' (as @ ?nx # bs) (insert (p - 4) al)"
    using S1 f(2) by (simp add: heap_inv_def)
  moreover have "cur \<notin> al" "cur \<noteq> 0" "cur + 4 \<noteq> 0"
  proof -
    show "cur \<notin> al" using S f(1) by (auto simp: heap_shape_def layout_def)
    show "cur \<noteq> 0" using heap_shape_block [OF S, of cur] f by auto
    have "unat (cur + 4) = unat cur + 4"
      using heap_shape_block [OF S, of cur] f by (subst unat_add_no_wrap) auto
    then show "cur + 4 \<noteq> 0" by auto
  qed
  ultimately show thesis using that fr sz f(2) by (metis add_diff_cancel_right')
qed

subsection \<open>Free blocks that follow each other\<close>

definition gap :: "mem \<Rightarrow> u32 \<Rightarrow> u32 \<Rightarrow> bool" where
  "gap m p q \<longleftrightarrow> unat p + unat (m p) \<noteq> unat q"

lemma coalesced_successively:
  assumes L: "layout s e fl al (sizes m)"
  shows "coalesced m fl \<longleftrightarrow> successively (gap m) fl"
proof
  show "successively (gap m) fl" if "coalesced m fl"
  proof -
    have "successively (gap m) xs" if "set xs \<subseteq> set fl" for xs
      using that \<open>coalesced m fl\<close>
      by (induction xs rule: induct_list012) (auto simp: coalesced_def gap_def)
    then show ?thesis by blast
  qed
next
  assume G: "successively (gap m) fl"
  show "coalesced m fl"
    unfolding coalesced_def
  proof (intro ballI notI)
    fix p q assume p: "p \<in> set fl" and q: "q \<in> set fl" and adj: "unat p + unat (m p) = unat q"
    obtain as bs where f: "fl = as @ p # bs" using p split_list by metis
    have srt: "sorted_wrt (\<lambda>a b. unat a < unat b) (as @ p # bs)" and pos: "0 < unat (m p)"
      using L p by (auto simp: layout_def block_ok_def f)
    have "q \<in> set bs" using q adj pos srt f by (fastforce simp: sorted_wrt_append)
    then obtain h t where bs: "bs = h # t" by (cases bs) auto
    have "gap m p h" using G by (simp add: f bs successively_append_iff)
    then have "q \<noteq> h" using adj by (auto simp: gap_def)
    then have "unat h < unat q" using \<open>q \<in> set bs\<close> srt bs by (auto simp: sorted_wrt_append)
    moreover have "unat p < unat h" using srt bs by (auto simp: sorted_wrt_append)
    moreover have "apart (sizes m) p h" using layout_apart [OF L, of p h] f bs calculation by auto
    moreover have "0 < unat (m h)"
      using layout_block [OF L, of h] f bs by (auto simp: block_ok_def)
    ultimately show False using adj by (auto simp: apart_def)
  qed
qed

lemma heap_inv_successively:
  "heap_inv k fl al \<longleftrightarrow> heap_shape k fl al \<and> successively (gap (kmem k)) fl"
  unfolding heap_inv_def using coalesced_successively heap_shapeD(1) by blast

text \<open>Memory that differs at most in the fields of the nodes of a set.\<close>

definition same_outside :: "u32 set \<Rightarrow> mem \<Rightarrow> mem \<Rightarrow> bool" where
  "same_outside A m m' \<longleftrightarrow> (\<forall>x. (\<forall>a\<in>A. x \<noteq> a \<and> x \<noteq> a + 4 \<and> x \<noteq> a + 8) \<longrightarrow> m' x = m x)"

lemma same_outside_frame:
  assumes "heap_shape k fl al" "same_outside (set fl \<union> {f}) (kmem k) m'" "f \<in> al" "a \<in> al - {f}"
    "in_block (kmem k) a x"
  shows "m' x = kmem k x"
proof -
  have "a \<noteq> b" if "b \<in> set fl \<union> {f}" for b
    using assms(1,4) that by (auto simp: heap_shape_def layout_def)
  then have "x \<noteq> b \<and> x \<noteq> b + 4 \<and> x \<noteq> b + 8" if "b \<in> set fl \<union> {f}" for b
    using in_block_fields [OF assms(1), of a b x] assms that by auto
  then show ?thesis using assms(2) by (simp add: same_outside_def)
qed

lemma same_outside_trans:
  "same_outside A m m' \<Longrightarrow> same_outside B m' m'' \<Longrightarrow> A \<subseteq> C \<Longrightarrow> B \<subseteq> C \<Longrightarrow>
   same_outside C m m''"
  unfolding same_outside_def by (metis subsetD)

subsection \<open>Inserting a block into the free list\<close>

lemma release_shape:
  assumes S: "heap_shape k (as @ bs) al" and f: "f \<in> al" and bs: "bs \<noteq> []"
    and lo: "\<And>a. a \<in> set as \<Longrightarrow> unat a < unat f" and hi: "\<And>b. b \<in> set bs \<Longrightarrow> unat f < unat b"
    and lk: "links m' 0 (as @ f # bs) 0" and sz: "\<And>a. a \<in> set (as @ bs) \<union> al \<Longrightarrow> m' a = kmem k a"
  shows "heap_shape (k\<lparr>kmem := m', start_node := hd (as @ f # bs)\<rparr>) (as @ f # bs) (al - {f})"
proof -
  have "layout (unat HEAP_START_LOCATION) (unat (end_address k)) (as @ f # bs) (al - {f}) (sizes (kmem k))"
    by (rule layout_release [OF heap_shapeD(1) [OF S] f bs lo hi])
  then have "layout (unat HEAP_START_LOCATION) (unat (end_address k)) (as @ f # bs) (al - {f}) (sizes m')"
    by (rule layout_cong [rotated]) (use sz f in auto)
  then show ?thesis using S lk by (simp add: heap_shape_def)
qed

lemma links_insert:
  fixes m :: mem
  assumes lk: "links m 0 (as @ cur # bs) 0" and as: "as \<noteq> []" and dist: "distinct (as @ cur # bs)"
    and ff: "\<forall>a \<in> set (as @ cur # bs). far f a"
    and pp: "\<forall>a \<in> set (as @ cur # bs). \<forall>b \<in> set (as @ cur # bs). a \<noteq> b \<longrightarrow> far a b"
  defines "m' \<equiv> kfree_insert f cur m"
  shows "links m' 0 (as @ f # cur # bs) 0" "same_outside (set (as @ cur # bs) \<union> {f}) m m'"
    "a = f \<or> a \<in> set (as @ cur # bs) \<Longrightarrow> m' a = m a"
    "(\<forall>b \<in> set (as @ cur # bs). far a b) \<Longrightarrow> far f a \<Longrightarrow> m' a = m a"
proof -
  let ?l = "last as"
  have "?l \<in> set as" using as by simp
  with dist have l: "?l \<in> set as" "?l \<noteq> cur" "?l \<notin> set bs" by auto
  have far1: "far f cur" "far f ?l" "far ?l cur" using ff pp l by (auto simp del: far_simps)
  have m'0: "m (cur + 8) = ?l" using lk as by (simp add: last_or_last)
  have m': "m' = m(f + 4 := cur, f + 8 := ?l, ?l + 4 := f, cur + 8 := f)"
    using far1 m'0 unfolding m'_def
    by (simp add: kfree_insert_def Let_def set_next_def set_prev_def)
  show "same_outside (set (as @ cur # bs) \<union> {f}) m m'"
    unfolding same_outside_def m' using l by auto
  show "m' a = m a" if a: "a = f \<or> a \<in> set (as @ cur # bs)"
  proof -
    have "a = f \<or> far f a" "a = cur \<or> far a cur" "a = ?l \<or> far a ?l"
      using a ff pp l far1 by (auto simp: far_sym simp del: far_simps)
    then show ?thesis using far1 by (elim disjE) (simp_all add: m')
  qed
  show "m' a = m a" if "\<forall>b \<in> set (as @ cur # bs). far a b" "far f a"
  proof -
    have "far a cur" "far a ?l" using that l by auto
    then show ?thesis using that by (simp add: m')
  qed
  have lks: "links m 0 as cur" "links m ?l (cur # bs) 0"
    using lk as by (simp_all add: last_or_last)
  have "links m' 0 as f"
  proof (rule links_change_next [OF lks(1)])
    fix a assume "a \<in> set as"
    then have "far f a" "far a cur" "a = ?l \<or> far a ?l" using ff pp dist l by (auto simp del: far_simps)
    then show "m' (a + 8) = m (a + 8)" using far1 by (elim disjE) (simp_all add: m')
  next
    fix a assume "a \<in> set (butlast as)"
    then have "a \<in> set as" "a \<noteq> ?l" using dist by (induction as) (auto split: if_splits)
    then have "far f a" "far a cur" "far a ?l" using ff pp dist l by (auto simp del: far_simps)
    then show "m' (a + 4) = m (a + 4)" by (simp add: m')
  next
    show "m' (?l + 4) = f" using far1 by (simp add: m')
  qed
  moreover have "links m' f (cur # bs) 0"
  proof (rule links_change_prev [OF lks(2)])
    fix a assume "a \<in> set (cur # bs)"
    then have "far f a" "a = cur \<or> far a cur" "far a ?l" using ff pp dist l by (auto simp del: far_simps)
    then show "m' (a + 4) = m (a + 4)" by (elim disjE) (simp_all add: m')
  next
    fix a assume "a \<in> set (tl (cur # bs))"
    then have "far f a" "far a cur" "far a ?l" using ff pp dist l by (auto simp del: far_simps)
    then show "m' (a + 8) = m (a + 8)" by (simp add: m')
  next
    show "m' (hd (cur # bs) + 8) = f" by (simp add: m')
  qed
  moreover have "m' (f + 4) = cur" "m' (f + 8) = ?l" using far1 by (simp_all add: m')
  ultimately show "links m' 0 (as @ f # cur # bs) 0" using as by (simp add: last_or_last)
qed

subsection \<open>Merging two neighbours\<close>

definition merge_mem :: "u32 \<Rightarrow> u32 \<Rightarrow> mem \<Rightarrow> mem" where
  "merge_mem p q m =
     (let m1 = set_next p (node_next m q) m;
          m2 = (if node_next m1 q \<noteq> 0 then set_prev (node_next m1 q) p m1 else m1)
      in set_size p (node_size m2 p + node_size m2 q) m2)"

lemma links_merge:
  fixes m :: mem
  assumes lk: "links m 0 (as @ p # q # bs) 0" and dist: "distinct (as @ p # q # bs)"
    and nz: "0 \<notin> set bs"
    and pp: "\<forall>a \<in> set (as @ p # q # bs). \<forall>b \<in> set (as @ p # q # bs). a \<noteq> b \<longrightarrow> far a b"
  defines "m' \<equiv> merge_mem p q m"
  shows "links m' 0 (as @ p # bs) 0" "same_outside (set (as @ p # q # bs)) m m'"
    "m' p = m p + m q" "a \<in> set (as @ q # bs) \<Longrightarrow> m' a = m a"
    "(\<forall>b \<in> set (as @ p # q # bs). far a b) \<Longrightarrow> m' a = m a"
proof -
  have pq: "far p q" using pp dist by (auto simp del: far_simps)
  have pb: "far p a" "far a p" if "a \<in> set (as @ q # bs)" for a using pp dist that by (auto simp del: far_simps)
  have qb: "far q a" if "a \<in> set (as @ p # bs)" for a using pp dist that by (auto simp del: far_simps)
  have n: "m (q + 4) = hd_or bs 0" using lk by simp
  have h: "hd bs \<in> set bs" "hd bs \<noteq> 0" "far p (hd bs)" "far q (hd bs)" "hd_or bs 0 = hd bs" if "bs \<noteq> []"
  proof -
    show "hd bs \<in> set bs" using that by simp
    then show "hd bs \<noteq> 0" "far p (hd bs)" "far q (hd bs)" using nz pb qb by auto
    show "hd_or bs 0 = hd bs" using that by (rule hd_or_hd)
  qed
  have m': "m' = (if bs = [] then m(p + 4 := 0, p := m p + m q)
                  else m(p + 4 := hd bs, hd bs + 8 := p, p := m p + m q))"
    using h n pq by (cases "bs = []") (simp_all add: m'_def merge_mem_def Let_def set_next_def set_prev_def set_size_def)
  show "same_outside (set (as @ p # q # bs)) m m'"
    unfolding same_outside_def m' using h by auto
  show "m' p = m p + m q" by (simp add: m')
  show "m' a = m a" if a: "a \<in> set (as @ q # bs)"
  proof (cases "bs = []")
    case True then show ?thesis using pb [OF a] by (simp add: m')
  next
    case False
    have "far a (hd bs) \<or> a = hd bs" using pp h [OF False] a by (auto simp del: far_simps)
    then show ?thesis using pb [OF a] False by (elim disjE) (simp_all add: m')
  qed
  show "m' a = m a" if a: "\<forall>b \<in> set (as @ p # q # bs). far a b"
  proof (cases "bs = []")
    case True then show ?thesis using a by (simp add: m')
  next
    case False
    then have "far a p" "far a (hd bs)" using a h by auto
    then show ?thesis using False by (simp add: m')
  qed
  have ah: "far a (hd bs)" if "a \<in> set (as @ [p])" "bs \<noteq> []" for a
  proof -
    have "hd bs \<in> set bs" using that by simp
    then have "a \<noteq> hd bs" using dist that by auto
    then show ?thesis using pp \<open>hd bs \<in> set bs\<close> that by (auto simp del: far_simps)
  qed
  have lks: "links m 0 (as @ [p]) q" "links m q bs 0" using lk by auto
  have "links m' 0 (as @ [p]) (hd_or bs 0)"
  proof (rule links_change_next [OF lks(1)])
    fix a assume a: "a \<in> set (as @ [p])"
    then have *: "a = p \<or> far p a" "bs \<noteq> [] \<Longrightarrow> far a (hd bs)" using pb ah by auto
    show "m' (a + 8) = m (a + 8)"
    proof (cases "bs = []")
      case True then show ?thesis using * by (elim disjE) (simp_all add: m')
    next
      case False then show ?thesis using *(1) *(2) [OF False] h(3) [OF False] by (elim disjE) (simp_all add: m')
    qed
  next
    fix a assume "a \<in> set (butlast (as @ [p]))"
    then have "a \<in> set as" by simp
    then have *: "far p a" "bs \<noteq> [] \<Longrightarrow> far a (hd bs)" using pb ah by auto
    show "m' (a + 4) = m (a + 4)"
    proof (cases "bs = []")
      case True then show ?thesis using * by (simp add: m')
    next
      case False then show ?thesis using *(1) *(2) [OF False] h(3) [OF False] by (simp add: m')
    qed
  next
    show "m' (last (as @ [p]) + 4) = hd_or bs 0"
      using h(3,5) by (cases "bs = []") (simp_all add: m')
  qed
  moreover have "links m' p bs 0"
  proof (rule links_change_prev [OF lks(2)])
    fix a assume a: "a \<in> set bs"
    then have b: "bs \<noteq> []" by auto
    have "far p a" "a = hd bs \<or> far a (hd bs)" using pb pp h [OF b] a by (auto simp del: far_simps)
    then show "m' (a + 4) = m (a + 4)" using b by (elim disjE) (simp_all add: m')
  next
    fix a assume a: "a \<in> set (tl bs)"
    then have b: "bs \<noteq> []" by auto
    have "a \<noteq> hd bs" "a \<in> set bs" using a dist by (cases bs; auto)+
    then have "far p a" "far a (hd bs)" using pb pp h(1) [OF b] by (auto simp del: far_simps)
    then show "m' (a + 8) = m (a + 8)" using b by (simp add: m')
  next
    assume "bs \<noteq> []"
    then show "m' (hd bs + 8) = p" using h by (simp add: m')
  qed
  ultimately show "links m' 0 (as @ p # bs) 0" by auto
qed

lemma merge_shape:
  assumes S: "heap_shape k (as @ p # q # bs) al" and adj: "unat p + unat (kmem k p) = unat q"
  shows "heap_shape (k\<lparr>kmem := merge_mem p q (kmem k)\<rparr>) (as @ p # bs) al"
    "same_outside (set (as @ p # q # bs)) (kmem k) (merge_mem p q (kmem k))"
    "\<And>a. a \<in> set (as @ bs) \<union> al \<Longrightarrow> merge_mem p q (kmem k) a = kmem k a"
    "unat (merge_mem p q (kmem k) p) = unat (kmem k p) + unat (kmem k q)"
proof -
  let ?m = "kmem k"
  have D: "distinct (as @ p # q # bs)" using heap_shape_distinct [OF S] .
  have L: "layout (unat HEAP_START_LOCATION) (unat (end_address k)) (as @ p # q # bs) al (sizes ?m)"
    using heap_shapeD(1) [OF S] .
  then have disj: "set (as @ p # q # bs) \<inter> al = {}" by (simp add: layout_def)
  have nz: "0 \<notin> set bs" using heap_shape_block [OF S, of 0] by auto
  have F: "\<forall>a \<in> set (as @ p # q # bs). \<forall>b \<in> set (as @ p # q # bs). a \<noteq> b \<longrightarrow> far a b"
    using heap_shape_far [OF S] by blast
  note M = links_merge [OF heap_shapeD(2) [OF S] D nz F]
  show "same_outside (set (as @ p # q # bs)) ?m (merge_mem p q ?m)" by (rule M(2))
  show other: "merge_mem p q ?m a = ?m a" if a: "a \<in> set (as @ bs) \<union> al" for a
  proof (cases "a \<in> al")
    case True
    then have "\<forall>b \<in> set (as @ p # q # bs). far a b" using heap_shape_far [OF S, of a] disj by blast
    then show ?thesis by (rule M(5))
  next
    case False
    then show ?thesis using a by (intro M(4)) auto
  qed
  have "unat p + unat (?m p) \<le> 3758100480" "unat q + unat (?m q) \<le> 3758100480"
    using heap_shape_block [OF S, of p] heap_shape_block [OF S, of q] by auto
  then have u: "unat (?m p + ?m q) = unat (?m p) + unat (?m q)" using adj by (subst unat_add_no_wrap) auto
  then show p: "unat (merge_mem p q ?m p) = unat (?m p) + unat (?m q)" using M(3) by simp
  have "layout (unat HEAP_START_LOCATION) (unat (end_address k)) (as @ p # bs) al
          ((sizes ?m)(p := unat (?m p) + unat (?m q)))"
    by (rule layout_merge [OF L adj])
  then have "layout (unat HEAP_START_LOCATION) (unat (end_address k)) (as @ p # bs) al (sizes (merge_mem p q ?m))"
    by (rule layout_cong [rotated]) (use other p in auto)
  moreover have "hd (as @ p # bs) = hd (as @ p # q # bs)" by (cases as) auto
  ultimately show "heap_shape (k\<lparr>kmem := merge_mem p q ?m\<rparr>) (as @ p # bs) al"
    using S M(1) by (simp add: heap_shape_def)
qed

lemma merge_prev_merge:
  "node_next m fn \<noteq> 0 \<Longrightarrow> far (node_prev m fn) fn \<Longrightarrow> kfree_merge_prev fn m =
     (if node_prev m fn + m (node_prev m fn) = fn then (node_prev m fn, merge_mem (node_prev m fn) fn m) else (fn, m))"
  by (simp add: kfree_merge_prev_def merge_mem_def Let_def set_next_def)

lemma merge_next_merge:
  "kfree_merge_next mid lst m = (if mid + m mid = lst then merge_mem mid lst m else m)"
  by (simp add: kfree_merge_next_def merge_mem_def Let_def)

subsection \<open>Freeing a block\<close>

lemma adj_word:
  assumes "heap_shape k fl al" "p \<in> set fl \<union> al"
  shows "p + kmem k p = q \<longleftrightarrow> \<not> gap (kmem k) p q"
proof -
  have "unat (p + kmem k p) = unat p + unat (kmem k p)"
    using heap_shape_block [OF assms] by (subst unat_add_no_wrap) auto
  then show ?thesis by (auto simp: gap_def word_unat_eq_iff)
qed

lemma successively_gap_cong:
  "\<forall>a \<in> set xs. m' a = m a \<Longrightarrow> successively (gap m') xs = successively (gap m) xs"
  by (induction xs rule: induct_list012) (auto simp: gap_def)

lemma successively_gap_snoc:
  assumes "\<forall>a \<in> set xs. m' a = m a"
  shows "successively (gap m') (xs @ [p]) = successively (gap m) (xs @ [p])"
proof -
  have "xs \<noteq> [] \<Longrightarrow> last xs \<in> set xs" by simp
  then show ?thesis using assms successively_gap_cong [OF assms]
    by (cases "xs = []") (auto simp: successively_append_iff gap_def)
qed

lemma heap_inv_outside:
  assumes "heap_inv k fl al" "\<And>a. a \<in> set fl \<Longrightarrow> m' (a + 4) = kmem k (a + 4) \<and> m' (a + 8) = kmem k (a + 8)"
    "\<And>a. a \<in> set fl \<union> al \<Longrightarrow> m' a = kmem k a"
  shows "heap_inv (k\<lparr>kmem := m'\<rparr>) fl al"
proof -
  have S: "heap_shape k fl al" "successively (gap (kmem k)) fl"
    using assms(1) by (auto simp: heap_inv_successively)
  have "links m' 0 fl 0" using heap_shapeD(2) [OF S(1)] by (rule links_cong) (use assms(2) in auto)
  moreover have "layout (unat HEAP_START_LOCATION) (unat (end_address k)) fl al (sizes m')"
    by (rule layout_cong [OF _ heap_shapeD(1) [OF S(1)]]) (use assms(3) in auto)
  moreover have "successively (gap m') fl"
    using successively_gap_cong [of fl m' "kmem k"] S(2) assms(3) by auto
  ultimately show ?thesis using S(1) by (simp add: heap_inv_successively heap_shape_def)
qed

text \<open>Merging a block with the free block behind it, if they touch.\<close>

lemma merge_next_inv:
  assumes S: "heap_shape k (as @ mid # cur # bs) al"
    and G1: "successively (gap (kmem k)) (as @ [mid])" and G2: "successively (gap (kmem k)) (cur # bs)"
  defines "m' \<equiv> kfree_merge_next mid cur (kmem k)"
  shows "heap_inv (k\<lparr>kmem := m'\<rparr>) (if mid + kmem k mid = cur then as @ mid # bs else as @ mid # cur # bs) al \<and>
     same_outside (set (as @ mid # cur # bs)) (kmem k) m'"
proof (cases "mid + kmem k mid = cur")
  case True
  then have adj: "unat mid + unat (kmem k mid) = unat cur"
    using adj_word [OF S, of mid cur] by (simp add: gap_def)
  note M = merge_shape [OF S adj]
  have m': "m' = merge_mem mid cur (kmem k)" using True by (simp add: m'_def merge_next_merge)
  have "successively (gap m') (as @ [mid])"
    using successively_gap_snoc [of as m' "kmem k" mid] G1 M(3) by (simp add: m')
  moreover have "successively (gap m') bs"
    using successively_gap_cong [of bs m' "kmem k"] G2 M(3) by (cases bs) (simp_all add: m')
  moreover have "gap m' mid (hd bs)" if "bs \<noteq> []"
    using G2 M(4) adj that by (cases bs) (auto simp: gap_def m')
  ultimately have "successively (gap m') (as @ mid # bs)"
    by (cases bs) (auto simp: successively_append_iff)
  then show ?thesis using M(1,2) m' True by (simp add: heap_inv_successively)
next
  case False
  then have m': "m' = kmem k" by (simp add: m'_def merge_next_merge)
  have "gap (kmem k) mid cur" using False adj_word [OF S, of mid cur] by auto
  then have "successively (gap m') (as @ mid # cur # bs)"
    using G1 G2 m' by (auto simp: successively_append_iff)
  then show ?thesis using S m' False by (simp add: heap_inv_successively same_outside_def)
qed

lemma release_order:
  assumes S: "heap_shape k fl al" and f: "f \<in> al"
  shows "f \<notin> set fl" "unat f < unat (last fl)" "f < last fl" "\<And>a. a \<in> set fl \<Longrightarrow> far f a"
proof -
  have L: "layout (unat HEAP_START_LOCATION) (unat (end_address k)) fl al (sizes (kmem k))"
    using heap_shapeD(1) [OF S] .
  show n: "f \<notin> set fl" using L f by (auto simp: layout_def)
  then show "far f a" if "a \<in> set fl" for a using heap_shape_far [OF S, of f a] f that by blast
  have l: "last fl \<in> set fl" using heap_shapeD(5) [OF S] by simp
  have "apart (sizes (kmem k)) f (last fl)" using layout_apart [OF L, of f "last fl"] l n f by auto
  moreover have "unat (last fl) + unat (kmem k (last fl)) = unat (end_address k)"
    using L by (simp add: layout_def)
  moreover have "unat f + unat (kmem k f) \<le> unat (end_address k)" "12 \<le> unat (kmem k f)"
    using layout_block [OF L, of f] f by (auto simp: block_ok_def)
  ultimately show "unat f < unat (last fl)" by (auto simp: apart_def)
  then show "f < last fl" by (simp add: word_less_nat_alt)
qed

lemma heap_update_swap: "k\<lparr>start_node := s, kmem := m\<rparr> = k\<lparr>kmem := m, start_node := s\<rparr>"
  by simp

lemma kfree_front_inv:
  assumes I: "heap_inv k fl al" and f: "f \<in> al" and lt: "f < start_node k"
  shows "\<exists>fl'. heap_inv (kfree_front f k) fl' (al - {f}) \<and> same_outside (set fl \<union> {f}) (kmem k) (kmem (kfree_front f k))"
proof -
  have S: "heap_shape k fl al" and G: "successively (gap (kmem k)) fl"
    using I by (auto simp: heap_inv_successively)
  note O = release_order [OF S f]
  obtain sn bs where fl: "fl = sn # bs" using heap_shapeD(5) [OF S] by (cases fl) auto
  have sn: "start_node k = sn" using heap_shapeD(3) [OF S] fl by simp
  have srt: "sorted_wrt (\<lambda>a b. unat a < unat b) (sn # bs)"
    using heap_shapeD(1) [OF S] fl by (simp add: layout_def)
  have hi: "unat f < unat b" if "b \<in> set fl" for b
    using that srt lt sn fl by (auto simp: word_less_nat_alt)
  let ?m = "kmem k"
  define m1 where "m1 = ?m(f + 4 := sn, f + 8 := 0, sn + 8 := f)"
  have fsn: "far f sn" using O fl by simp
  have nz: "f \<noteq> 0" "sn \<noteq> 0" "0 \<notin> set bs"
    using heap_shape_block [OF S] f fl by auto
  have lk: "?m (sn + 4) = hd_or bs 0" "links ?m 0 (sn # bs) 0" using heap_shapeD(2) [OF S] fl by simp_all
  have D: "distinct (f # sn # bs)" using heap_shape_distinct [OF S] O(1) fl by simp
  have F: "\<forall>a \<in> set (f # sn # bs). \<forall>b \<in> set (f # sn # bs). a \<noteq> b \<longrightarrow> far a b"
    using heap_shape_far [OF S] f fl by (auto simp del: far_simps)
  have size1: "m1 a = ?m a" if "a \<in> set fl \<union> al" for a
  proof -
    have "a = f \<or> far f a" "a = sn \<or> far sn a"
      using heap_shape_far [OF S, of f a] heap_shape_far [OF S, of sn a] that f fl by (auto simp del: far_simps)
    then show ?thesis using fsn by (elim disjE) (simp_all add: m1_def)
  qed
  have "links m1 f (sn # bs) 0"
  proof (rule links_change_prev [OF lk(2)])
    fix a assume "a \<in> set (sn # bs)"
    then have "far f a" "a = sn \<or> far sn a" using F D by (auto simp del: far_simps)
    then show "m1 (a + 4) = ?m (a + 4)" using fsn by (elim disjE) (simp_all add: m1_def)
  next
    fix a assume "a \<in> set (tl (sn # bs))"
    then have "far f a" "far sn a" using F D by (auto simp del: far_simps)
    then show "m1 (a + 8) = ?m (a + 8)" by (simp add: m1_def)
  qed (simp add: m1_def)
  then have lk1: "links m1 0 (f # sn # bs) 0" using fsn by (simp add: m1_def)
  have S1: "heap_shape (k\<lparr>kmem := m1, start_node := f\<rparr>) (f # sn # bs) (al - {f})"
    using release_shape [of k "[]" "sn # bs" al f m1] S f hi lk1 size1 fl by auto
  have out1: "same_outside (set fl \<union> {f}) ?m m1"
    by (auto simp: same_outside_def m1_def fl)
  let ?k1 = "k\<lparr>kmem := m1, start_node := f\<rparr>"
  have sz1: "m1 f = ?m f" "m1 sn = ?m sn" using size1 f fl by auto
  have G1: "successively (gap (kmem ?k1)) (sn # bs)"
    using successively_gap_cong [of "sn # bs" m1 ?m] G size1 fl by simp
  note R = merge_next_inv [of ?k1 "[]" f sn bs "al - {f}", simplified, OF S1 G1 [simplified]]
  show ?thesis
  proof (cases "f + ?m f = sn")
    case False
    then have "kfree_front f k = ?k1"
      using fsn by (simp add: kfree_front_def Let_def sn m1_def set_next_def set_prev_def)
    moreover have "kfree_merge_next f sn m1 = m1" using False sz1 by (simp add: kfree_merge_next_def)
    ultimately show ?thesis using R out1 False sz1
      by (intro exI [of _ "f # sn # bs"]) (simp add: heap_update_swap)
  next
    case True
    define m2 where "m2 = kmem (kfree_front f k)"
    have h: "hd bs \<in> set bs" "hd bs \<noteq> 0" "far f (hd bs)" "far sn (hd bs)" "hd_or bs 0 = hd bs" if "bs \<noteq> []"
    proof -
      show "hd bs \<in> set bs" using that by simp
      then show "hd bs \<noteq> 0" "far f (hd bs)" "far sn (hd bs)" using nz F D by (auto simp del: far_simps)
      show "hd_or bs 0 = hd bs" using that by (rule hd_or_hd)
    qed
    have m2: "m2 = (if bs = [] then ?m(f := ?m f + ?m sn, f + 4 := 0, f + 8 := 0)
        else ?m(f := ?m f + ?m sn, f + 4 := hd bs, f + 8 := 0, hd bs + 8 := f))"
      using True h lk(1) fsn unfolding m2_def
      by (cases "bs = []") (simp_all add: kfree_front_def Let_def sn set_next_def set_prev_def set_size_def)
    have mm: "merge_mem f sn m1 = m2(sn + 8 := f)"
      using True h lk(1) fsn unfolding m2
      by (cases "bs = []") (auto simp: merge_mem_def Let_def m1_def set_next_def set_prev_def set_size_def fun_eq_iff)
    have kf: "kfree_front f k = k\<lparr>kmem := m2, start_node := f\<rparr>"
      using True by (simp add: m2_def kfree_front_def Let_def sn)
    have kn: "kfree_merge_next f sn m1 = m2(sn + 8 := f)"
      using True sz1 mm by (simp add: merge_next_merge)
    have "heap_inv (k\<lparr>kmem := m2(sn + 8 := f), start_node := f\<rparr>) (f # bs) (al - {f})"
      using R True sz1 kn by (simp add: heap_update_swap)
    then have "heap_inv (k\<lparr>kmem := m2(sn + 8 := f), start_node := f\<rparr>\<lparr>kmem := m2\<rparr>) (f # bs) (al - {f})"
    proof (rule heap_inv_outside)
      fix a assume "a \<in> set (f # bs)"
      then have "far sn a" using F D by (auto simp del: far_simps)
      then show "m2 (a + 4) = kmem (k\<lparr>kmem := m2(sn + 8 := f), start_node := f\<rparr>) (a + 4) \<and>
                 m2 (a + 8) = kmem (k\<lparr>kmem := m2(sn + 8 := f), start_node := f\<rparr>) (a + 8)" by simp
    next
      fix a assume "a \<in> set (f # bs) \<union> (al - {f})"
      then have "far sn a"
        using heap_shape_far [OF S, of sn a] fl f O(1) D S
        by (auto simp: heap_shape_def layout_def far_sym simp del: far_simps)
      then show "m2 a = kmem (k\<lparr>kmem := m2(sn + 8 := f), start_node := f\<rparr>) a" by simp
    qed
    moreover have "same_outside (set fl \<union> {f}) ?m m2"
      unfolding same_outside_def m2 fl using h by auto
    ultimately show ?thesis using kf by (intro exI [of _ "f # bs"]) (simp add: heap_update_swap)
  qed
qed

lemma kfree_mid_inv:
  assumes I: "heap_inv k (as @ cur # bs) al" and f: "f \<in> al" and as: "as \<noteq> []"
    and lo: "\<And>a. a \<in> set as \<Longrightarrow> unat a < unat f" and hi: "unat f < unat cur"
  defines "m1 \<equiv> kfree_insert f cur (kmem k)"
  shows "\<exists>fl' mid m2. kfree_merge_prev f m1 = (mid, m2) \<and> node_next m1 f = cur \<and>
     heap_inv (k\<lparr>kmem := kfree_merge_next mid cur m2\<rparr>) fl' (al - {f}) \<and>
     same_outside (set (as @ cur # bs) \<union> {f}) (kmem k) (kfree_merge_next mid cur m2)"
proof -
  obtain as' l where as': "as = as' @ [l]" using as by (metis append_butlast_last_id)
  let ?m = "kmem k" and ?fl = "as @ cur # bs"
  have S: "heap_shape k ?fl al" and G: "successively (gap ?m) ?fl"
    using I by (auto simp: heap_inv_successively)
  note O = release_order [OF S f]
  have D: "distinct ?fl" using heap_shape_distinct [OF S] .
  have F: "\<forall>a \<in> set ?fl. \<forall>b \<in> set ?fl. a \<noteq> b \<longrightarrow> far a b"
    using heap_shape_far [OF S] by blast
  have Ff: "\<forall>a \<in> set ?fl. far f a" using O(4) by blast
  note LI = links_insert [OF heap_shapeD(2) [OF S] as D Ff F, folded m1_def]
  have srt: "sorted_wrt (\<lambda>a b. unat a < unat b) ?fl"
    using heap_shapeD(1) [OF S] by (simp add: layout_def)
  have hi': "unat f < unat b" if "b \<in> set (cur # bs)" for b
    using that srt hi by (auto simp: sorted_wrt_append)
  have sz1: "m1 a = ?m a" if a: "a \<in> set ?fl \<union> al" for a
  proof (cases "a = f \<or> a \<in> set ?fl")
    case True then show ?thesis by (rule LI(3))
  next
    case False
    then have "\<forall>b \<in> set ?fl. far a b" "far f a"
      using heap_shape_far [OF S, of a] heap_shape_far [OF S f [THEN UnI2], of a] a by blast+
    then show ?thesis by (rule LI(4))
  qed
  let ?k1 = "k\<lparr>kmem := m1\<rparr>"
  have S1: "heap_shape ?k1 (as @ f # cur # bs) (al - {f})"
  proof -
    have "hd (as @ f # cur # bs) = start_node k" using as heap_shapeD(3) [OF S] by (simp add: hd_append)
    then show ?thesis
      using release_shape [OF S f _ lo hi' LI(1) sz1] by simp
  qed
  have links: "m1 (f + 4) = cur" "m1 (f + 8) = l"
    using heap_shapeD(2) [OF S1] as' by simp_all
  have l: "l \<in> set as" using as' by simp
  have nz: "cur \<noteq> 0" using heap_shape_block [OF S, of cur] by simp
  have "far f l" using l by (intro O(4)) simp
  then have fl: "far l f" by (simp add: far_sym [of l])
  have Gas: "successively (gap m1) as" "successively (gap m1) (cur # bs)"
    using successively_gap_cong [of as m1 ?m] successively_gap_cong [of "cur # bs" m1 ?m] G sz1
    by (auto simp: successively_append_iff)
  have mp: "kfree_merge_prev f m1 = (if l + m1 l = f then (l, merge_mem l f m1) else (f, m1))"
    using merge_prev_merge [of m1 f] links nz fl by simp
  show ?thesis
  proof (cases "l + m1 l = f")
    case True
    have S1': "heap_shape ?k1 (as' @ l # f # cur # bs) (al - {f})" using S1 as' by simp
    have adj: "unat l + unat (kmem ?k1 l) = unat f"
      using adj_word [OF S1', of l f] True by (simp add: gap_def)
    note M = merge_shape [OF S1' adj]
    let ?m2 = "merge_mem l f m1"
    let ?k2 = "k\<lparr>kmem := ?m2\<rparr>"
    have S2: "heap_shape ?k2 (as' @ l # cur # bs) (al - {f})" using M(1) by simp
    have "successively (gap ?m2) (as' @ [l])"
      using successively_gap_snoc [of as' ?m2 m1 l] M(3) Gas as' by simp
    moreover have "successively (gap ?m2) (cur # bs)"
      using successively_gap_cong [of "cur # bs" ?m2 m1] M(3) Gas by simp
    ultimately have R: "heap_inv (k\<lparr>kmem := kfree_merge_next l cur ?m2\<rparr>)
        (if l + ?m2 l = cur then as' @ l # bs else as' @ l # cur # bs) (al - {f}) \<and>
       same_outside (set (as' @ l # cur # bs)) ?m2 (kfree_merge_next l cur ?m2)"
      using merge_next_inv [OF S2] by simp
    have sub: "set (as' @ l # f # cur # bs) \<subseteq> set ?fl \<union> {f}" "set (as' @ l # cur # bs) \<subseteq> set ?fl \<union> {f}"
      by (auto simp: as')
    have "same_outside (set ?fl \<union> {f}) ?m ?m2"
      using same_outside_trans [OF LI(2) _ subset_refl sub(1)] M(2) by simp
    then have "same_outside (set ?fl \<union> {f}) ?m (kfree_merge_next l cur ?m2)"
      using same_outside_trans [OF _ _ subset_refl sub(2)] R by blast
    moreover have "kfree_merge_prev f m1 = (l, merge_mem l f m1)" using mp True by simp
    ultimately show ?thesis using R links by blast
  next
    case False
    have g: "gap m1 l f" using False adj_word [OF S1, of l f] l by auto
    have "successively (gap m1) (as @ [f])"
      using g Gas as' by (simp add: successively_append_iff)
    then have R: "heap_inv (k\<lparr>kmem := kfree_merge_next f cur m1\<rparr>)
        (if f + m1 f = cur then as @ f # bs else as @ f # cur # bs) (al - {f}) \<and>
       same_outside (set (as @ f # cur # bs)) m1 (kfree_merge_next f cur m1)"
      using merge_next_inv [OF S1] Gas by simp
    have sub: "set (as @ f # cur # bs) \<subseteq> set ?fl \<union> {f}" by auto
    have "same_outside (set ?fl \<union> {f}) ?m (kfree_merge_next f cur m1)"
      using same_outside_trans [OF LI(2) _ subset_refl sub] R by blast
    moreover have "kfree_merge_prev f m1 = (f, m1)" using mp False by simp
    ultimately show ?thesis using R links by blast
  qed
qed

lemma kfree_keeps:
  assumes I: "heap_inv k fl al" and f: "f \<in> al"
  obtains k' fl' where "kfree (f + 4) k = Ok k'" "heap_inv k' fl' (al - {f})"
    "\<And>a x. a \<in> al - {f} \<Longrightarrow> in_block (kmem k) a x \<Longrightarrow> kmem k' x = kmem k x"
proof -
  have S: "heap_shape k fl al" using I by (simp add: heap_inv_def)
  note O = release_order [OF S f]
  have L: "layout (unat HEAP_START_LOCATION) (unat (end_address k)) fl al (sizes (kmem k))"
    using heap_shapeD(1) [OF S] .
  have bf: "block_ok (unat HEAP_START_LOCATION) (unat (end_address k)) (sizes (kmem k)) f"
    using layout_block [OF L, of f] f by simp
  have e: "unat (end_address k) \<le> 3758100480" using heap_shapeD(8) [OF S] .
  have uf: "unat (f + 4) = unat f + 4" using bf e by (subst unat_add_no_wrap) (auto simp: block_ok_def)
  have g1: "\<not> (f + 4 < start_address k)" "\<not> (f + 4 > end_address k)"
    using bf uf heap_shapeD(6) [OF S] by (auto simp: word_less_nat_alt block_ok_def)
  have ue: "unat (end_address k - start_address k) = unat (end_address k) - 3489660928"
    using heap_shapeD(6) [OF S] bf by (subst unat_sub_no_wrap) (auto simp: block_ok_def)
  have g2: "\<not> (kmem k f > end_address k - start_address k)"
    using bf ue by (auto simp: word_less_nat_alt block_ok_def)
  have sn: "start_node k = hd fl" "fl \<noteq> []" using heap_shapeD [OF S] by auto
  show thesis
  proof (cases "f < start_node k")
    case True
    obtain fl' where R: "heap_inv (kfree_front f k) fl' (al - {f})"
      "same_outside (set fl \<union> {f}) (kmem k) (kmem (kfree_front f k))"
      using kfree_front_inv [OF I f True] by blast
    have "kfree (f + 4) k = Ok (kfree_front f k)" using g1 g2 True by (simp add: kfree_def Let_def)
    then show thesis using R same_outside_frame [OF S R(2) f] that by blast
  next
    case False
    have z: "0 \<notin> set fl" using heap_shape_block [OF S, of 0] by auto
    have "f \<le> last fl" "last fl \<in> set fl" using O(3) sn by auto
    then obtain as cur bs where fl: "fl = as @ cur # bs" "find_after (kmem k) f (hd fl) = Some (Ok cur)"
      "f \<le> cur" "\<forall>a\<in>set as. a < f"
      using find_after_spec [OF heap_shapeD(2) [OF S] z, of f] by blast
    have nf: "cur \<noteq> f" "cur \<noteq> 0" using O(1) z fl by auto
    have as: "as \<noteq> []" using False fl nf sn by auto
    have lo: "\<And>a. a \<in> set as \<Longrightarrow> unat a < unat f" using fl(4) by (simp add: word_less_nat_alt)
    have hi: "unat f < unat cur" using fl(3) nf by (simp add: word_le_nat_alt word_neq_unat)
    obtain fl' mid m2 where R: "kfree_merge_prev f (kfree_insert f cur (kmem k)) = (mid, m2)"
      "node_next (kfree_insert f cur (kmem k)) f = cur"
      "heap_inv (k\<lparr>kmem := kfree_merge_next mid cur m2\<rparr>) fl' (al - {f})"
      "same_outside (set fl \<union> {f}) (kmem k) (kfree_merge_next mid cur m2)"
      using kfree_mid_inv [OF I [unfolded fl(1)] f as lo hi] fl(1) by metis
    have "kfree (f + 4) k = Ok (k\<lparr>kmem := kfree_merge_next mid cur m2\<rparr>)"
      using g1 g2 False fl(2) sn nf R(1,2) by (simp add: kfree_def Let_def)
    moreover have "\<And>a x. a \<in> al - {f} \<Longrightarrow> in_block (kmem k) a x \<Longrightarrow>
        kmem (k\<lparr>kmem := kfree_merge_next mid cur m2\<rparr>) x = kmem k x"
      using same_outside_frame [OF S R(4) f] by simp
    ultimately show thesis using R(3) that by blast
  qed
qed

subsection \<open>Initialisation\<close>

lemma kmem_init_cases:
  assumes ph: "phys_ok ph"
  shows "(\<exists>m. kmem_init_kmalloc mem ph = Panic m) \<or>
    (\<exists>k. kmem_init_kmalloc mem ph = Ok k \<and> heap_inv k [HEAP_START_LOCATION] {})"
proof -
  from ph show ?thesis
  proof (cases rule: phys_alloc_cases)
    case 1 then show ?thesis by (simp add: kmem_init_kmalloc_def)
  next
    case (2 n1 ph1)
    from \<open>phys_ok ph1\<close> show ?thesis
    proof (cases rule: phys_alloc_cases)
      case 1 then show ?thesis using 2 by (simp add: kmem_init_kmalloc_def)
    next
      case (2 n2 ph2)
      with \<open>phys_get_free_4k ph = _\<close> show ?thesis
        by (simp add: kmem_init_kmalloc_def Let_def heap_inv_def heap_shape_def coalesced_def layout_def
            block_ok_def set_size_def set_next_def set_prev_def)
    qed
  qed
qed

subsection \<open>The contract of an allocator\<close>

text \<open>
  What the rest of the kernel relies on: \<open>live s A\<close> says that \<open>A\<close> are the pointers handed out
  and not yet given back.
\<close>

locale allocator =
  fixes alloc :: "u32 \<Rightarrow> 's \<Rightarrow> (u32 \<times> 's) outcome"
    and free :: "u32 \<Rightarrow> 's \<Rightarrow> 's outcome"
    and live :: "'s \<Rightarrow> u32 set \<Rightarrow> bool"
  assumes alloc_ends: "live s A \<Longrightarrow> unat n \<le> 2 ^ 28 \<Longrightarrow> defined_outcome (alloc n s)"
    and alloc_fresh: "live s A \<Longrightarrow> unat n \<le> 2 ^ 28 \<Longrightarrow> alloc n s = Ok (p, s') \<Longrightarrow>
      live s' (insert p A) \<and> p \<notin> A \<and> p \<noteq> 0"
    and free_live: "live s A \<Longrightarrow> p \<in> A \<Longrightarrow> \<exists>s'. free p s = Ok s' \<and> live s' (A - {p})"
begin

lemma alloc_cases:
  assumes "live s A" "unat n \<le> 2 ^ 28"
  obtains m where "alloc n s = Panic m"
  | p s' where "alloc n s = Ok (p, s')" "live s' (insert p A)" "p \<notin> A" "p \<noteq> 0"
  using alloc_ends [OF assms] alloc_fresh [OF assms] by (cases "alloc n s") auto

lemma alloc_free:
  assumes "live s A" "unat n \<le> 2 ^ 28" "alloc n s = Ok (p, s')"
  shows "\<exists>s''. free p s' = Ok s'' \<and> live s'' A"
proof -
  have "live s' (insert p A)" "p \<notin> A" using alloc_fresh [OF assms] by auto
  then show ?thesis using free_live [of s' "insert p A" p] by simp
qed

lemma free_cases:
  assumes "live s A" "p \<in> A"
  obtains s' where "free p s = Ok s'" "live s' (A - {p})"
  using free_live [OF assms] by blast

end

definition heap_live :: "kheap \<Rightarrow> u32 set \<Rightarrow> bool" where
  "heap_live k A \<longleftrightarrow> (\<exists>fl al. heap_inv k fl al \<and> A = (\<lambda>a. a + 4) ` al)"

interpretation km: allocator kmalloc kfree heap_live
proof
  fix k :: kheap and A and n :: u32
  assume "heap_live k A" and n: "unat n \<le> 2 ^ 28"
  then obtain fl al where H: "heap_inv k fl al" "A = (\<lambda>a. a + 4) ` al" by (auto simp: heap_live_def)
  have "heap_shape k fl al" using H by (simp add: heap_inv_def)
  from kmalloc_shape [OF this n] show "defined_outcome (kmalloc n k)" by auto
  fix p k' assume r: "kmalloc n k = Ok (p, k')"
  show "heap_live k' (insert p A) \<and> p \<notin> A \<and> p \<noteq> 0"
  proof (rule kmalloc_keeps [OF H(1) n r])
    fix fl' assume "heap_inv k' fl' (insert (p - 4) al)" "p - 4 \<notin> al" "p \<noteq> 0"
    moreover have "insert p A = (\<lambda>a. a + 4) ` insert (p - 4) al" using H(2) by simp
    moreover have "p \<notin> A" using H(2) \<open>p - 4 \<notin> al\<close> by auto
    ultimately show ?thesis unfolding heap_live_def by blast
  qed
next
  fix k :: kheap and A p
  assume "heap_live k A" "p \<in> A"
  then obtain fl al f where H: "heap_inv k fl al" "A = (\<lambda>a. a + 4) ` al" "f \<in> al" "p = f + 4"
    by (auto simp: heap_live_def)
  have "A - {p} = (\<lambda>a. a + 4) ` (al - {f})" using H by auto
  then show "\<exists>s'. kfree p k = Ok s' \<and> heap_live s' (A - {p})"
  proof -
    obtain k' fl' where "kfree p k = Ok k'" "heap_inv k' fl' (al - {f})"
      using kfree_keeps [OF H(1,3)] H(4) by metis
    then show ?thesis unfolding heap_live_def \<open>A - {p} = _\<close> by blast
  qed
qed


subsection \<open>Properties\<close>

definition boot_phys :: phys where
  "boot_phys = \<lparr>bm = (\<lambda>_. 0), elements = 1000, next_i = 0\<rparr>"

definition boot_heap :: kheap where
  "boot_heap = \<lparr>kmem = (\<lambda>x. if x = 0xD0000000 then 8192 else 0), start_address = 0xD0000000,
     end_address = 0xD0002000, max_address = 0xE0000000, start_node = 0xD0000000, kphys = boot_phys, mapped = []\<rparr>"

definition used_heap :: kheap where
  "used_heap = \<lparr>kmem = (\<lambda>x. if x = 0xD0000000 then 104 else if x = 0xD0000068 then 8088 else 0),
     start_address = 0xD0000000, end_address = 0xD0002000, max_address = 0xE0000000,
     start_node = 0xD0000068, kphys = boot_phys, mapped = []\<rparr>"

lemma boot_phys_ok: "phys_ok boot_phys"
  by (simp add: boot_phys_def phys_ok_def)

lemma boot_heap_inv: "heap_inv boot_heap [0xD0000000] {}"
  by (simp add: boot_heap_def boot_phys_ok heap_inv_def heap_shape_def coalesced_def layout_def block_ok_def)

lemma used_heap_inv: "heap_inv used_heap [0xD0000068] {0xD0000000}"
  by (simp add: used_heap_def boot_phys_ok heap_inv_def heap_shape_def coalesced_def layout_def block_ok_def apart_def)

lemma in_block_disjoint:
  assumes "heap_shape k fl al" "a \<in> al" "b \<in> al" "a \<noteq> b" "in_block (kmem k) a x"
  shows "\<not> in_block (kmem k) b x"
  using layout_apart [OF heap_shapeD(1) [OF assms(1)], of a b] assms(2-5)
  by (auto simp: apart_def in_block_def)

text \<open>
  C1: a request of at most 256 MiB on a well-formed heap ends, in a panic (the heap bound, or
  no physical page) or with a block that is new, large enough, disjoint from every live block,
  in a heap that is well-formed again and whose live blocks keep their contents.
\<close>

theorem kmalloc_correct:
  assumes "heap_inv k fl al" "unat n \<le> 2 ^ 28"
  shows "(\<exists>msg. kmalloc n k = Panic msg) \<or>
    (\<exists>a k' fl'. kmalloc n k = Ok (a + HEADER_SIZE, k') \<and> a \<notin> al \<and> heap_inv k' fl' (insert a al) \<and>
       unat n + 4 \<le> unat (kmem k' a) \<and>
       (\<forall>b \<in> al. \<forall>x. in_block (kmem k) b x \<longrightarrow> kmem k' x = kmem k x) \<and>
       (\<forall>b \<in> al. \<forall>x. in_block (kmem k') a x \<longrightarrow> \<not> in_block (kmem k') b x))"
proof -
  have "heap_shape k fl al" using assms(1) by (simp add: heap_inv_def)
  from kmalloc_shape [OF this assms(2)] show ?thesis
  proof (elim disjE exE conjE)
    fix as cur bs k' assume r: "kmalloc n k = Ok (cur + 4, k')"
    show ?thesis
    proof (rule kmalloc_keeps [OF assms r])
      fix fl' assume I: "heap_inv k' fl' (insert (cur + 4 - 4) al)" "cur + 4 - 4 \<notin> al"
        "kmem k' (cur + 4 - 4) = kmalloc_size n"
        "\<And>a x. a \<in> al \<Longrightarrow> in_block (kmem k) a x \<Longrightarrow> kmem k' x = kmem k x"
      then have S: "heap_shape k' fl' (insert cur al)" "cur \<notin> al" by (simp_all add: heap_inv_def)
      have "\<not> in_block (kmem k') b x" if "b \<in> al" "in_block (kmem k') cur x" for b x
        by (rule in_block_disjoint [OF S(1) _ _ _ that(2)]) (use that S(2) in auto)
      then show ?thesis
        using I r kmalloc_size_ok [OF assms(2)]
        by (intro disjI2 exI [of _ cur] exI [of _ k'] exI [of _ fl']) auto
    qed
  qed simp
qed

theorem kmalloc_correct_witness:
  "(\<exists>msg. kmalloc 100 boot_heap = Panic msg) \<or>
    (\<exists>a k' fl'. kmalloc 100 boot_heap = Ok (a + HEADER_SIZE, k') \<and> heap_inv k' fl' {a} \<and> 104 \<le> unat (kmem k' a))"
  using kmalloc_correct [OF boot_heap_inv, of 100] by fastforce

text \<open>
  C2: freeing a live block always returns; the heap is well-formed again without the block,
  no two free blocks touch, and the contents of the other live blocks are unchanged.
\<close>

theorem kfree_correct:
  assumes "heap_inv k fl al" "a \<in> al"
  shows "\<exists>k' fl'. kfree (a + HEADER_SIZE) k = Ok k' \<and> heap_inv k' fl' (al - {a}) \<and>
    (\<forall>b \<in> al - {a}. \<forall>x. in_block (kmem k) b x \<longrightarrow> kmem k' x = kmem k x)"
  by (rule kfree_keeps [OF assms]) blast

theorem kfree_correct_witness:
  "\<exists>k' fl'. kfree 0xD0000004 used_heap = Ok k' \<and> heap_inv k' fl' {}"
  using kfree_correct [OF used_heap_inv] by auto

text \<open>
  When some free block is larger than the rounded request and one list node, the request
  is served from the free list: it returns and neither the heap nor the page mapping grows.
\<close>

theorem kmalloc_in_place:
  assumes "heap_inv k fl al" "unat n \<le> 2 ^ 28"
    and "a \<in> set fl" "kmalloc_size n + LINKED_NODE_SIZE < kmem k a"
  shows "\<exists>p k'. kmalloc n k = Ok (p, k') \<and> end_address k' = end_address k \<and> mapped k' = mapped k \<and>
    kphys k' = kphys k"
proof -
  let ?sz = "kmalloc_size n"
  have S: "heap_shape k fl al" using assms(1) by (simp add: heap_inv_def)
  note sz = kmalloc_size_ok [OF assms(2)]
  have fl: "fl \<noteq> []" "start_node k = hd fl" "0 \<notin> set fl"
    using heap_shapeD [OF S] heap_shape_block [OF S, of 0] by auto
  then obtain as cur bs where f: "fl = as @ cur # bs" "find_node (kmem k) ?sz (hd fl) = Some (Ok cur)"
    "bs = [] \<or> ?sz + LINKED_NODE_SIZE < kmem k cur" "\<forall>a\<in>set as. kmem k a \<le> ?sz + LINKED_NODE_SIZE"
    using find_node_first_fit [OF heap_shapeD(2) [OF S] fl(1), of ?sz] by auto
  have big: "?sz + LINKED_NODE_SIZE < kmem k cur"
    using f(1,3,4) assms(3,4) by (fastforce simp: not_le)
  then have "\<not> kmem k cur < ?sz + LINKED_NODE_SIZE" by (rule less_not_sym)
  then have "kmalloc_grow ?sz cur k = Ok k" by (simp add: kmalloc_grow_def Let_def)
  then have "kmalloc n k = Ok (kmalloc_split ?sz cur k)"
    using f(2) fl(2) by (simp add: kmalloc_def Let_def)
  moreover have "unat ?sz + 12 \<le> unat (kmem k cur)"
    using big sz by (simp add: word_less_nat_alt unat_add_no_wrap)
  moreover obtain p k' where r: "kmalloc_split ?sz cur k = (p, k')" by (cases "kmalloc_split ?sz cur k")
  ultimately show ?thesis
    using kmalloc_split_shape(4-6) [OF S [unfolded f(1)] _ _ _ r] sz by auto
qed

theorem kmalloc_in_place_witness:
  "\<exists>p k'. kmalloc 100 boot_heap = Ok (p, k') \<and> end_address k' = 0xD0002000"
  using kmalloc_in_place [OF boot_heap_inv, of 100 "0xD0000000"]
  by (auto simp: boot_heap_def kmalloc_size_def)

text \<open>
  Initialisation from a well-formed bitmap panics or yields a well-formed heap of one
  free block of two pages.
\<close>

theorem kmem_init_correct:
  assumes "phys_ok ph"
  shows "(\<exists>msg. kmem_init_kmalloc m ph = Panic msg) \<or>
    (\<exists>k. kmem_init_kmalloc m ph = Ok k \<and> heap_inv k [HEAP_START_LOCATION] {})"
  by (rule kmem_init_cases [OF assms])

theorem kmem_init_correct_witness:
  "(\<exists>msg. kmem_init_kmalloc (\<lambda>_. 0) boot_phys = Panic msg) \<or>
    (\<exists>k. kmem_init_kmalloc (\<lambda>_. 0) boot_phys = Ok k \<and> heap_inv k [HEAP_START_LOCATION] {})"
  by (rule kmem_init_correct [OF boot_phys_ok])

text \<open>
  The rounded size of a request in the last seven bytes of the address space wraps to
  at most four bytes, so such a request is granted a block smaller than its own header and node.
\<close>

theorem kmalloc_size_wraps:
  assumes "0xFFFFFFF9 \<le> n"
  shows "kmalloc_size n \<le> 4"
proof -
  have "unat n \<ge> 4294967289" "unat n < 4294967296"
    using assms unat_u32_bound [of n] by (auto simp: word_le_nat_alt)
  then have "unat n \<in> {4294967289, 4294967290, 4294967291, 4294967292, 4294967293, 4294967294, 4294967295}"
    by auto
  then have "n \<in> {0xFFFFFFF9, 0xFFFFFFFA, 0xFFFFFFFB, 0xFFFFFFFC, 0xFFFFFFFD, 0xFFFFFFFE, 0xFFFFFFFF}"
    by (auto simp: word_unat_eq_iff)
  moreover have "\<forall>n \<in> {0xFFFFFFF9, 0xFFFFFFFA, 0xFFFFFFFB, 0xFFFFFFFC, 0xFFFFFFFD, 0xFFFFFFFE, 0xFFFFFFFF}.
      kmalloc_size n \<le> 4"
    by code_simp
  ultimately show ?thesis by blast
qed

theorem kmalloc_size_wraps_witness: "kmalloc_size 0xFFFFFFFD \<le> 4 \<and> kmalloc_size 0xFFFFFFFD = 4"
  using kmalloc_size_wraps [of "0xFFFFFFFD"] by (simp add: kmalloc_size_def)

end
