(* ===== verification/Queues.thy ===== *)
theory Queues
  imports Kmalloc "HOL-Library.Multiset"
begin

text \<open>
  The self-ordering queues of \<^verbatim>\<open>src/kernel/queues.c\<close>. Queues and queue nodes are
  typed objects in two maps from addresses; their addresses come from the kernel heap of
  \<open>Kmalloc\<close>, so that creating one can panic when the heap is exhausted, and an access
  through an address that is not the address of a live object is a \<open>Fault\<close>. The pointer 0 is
  \<^verbatim>\<open>NULL\<close>. Output parameters of type \<^verbatim>\<open>void **\<close> are returned values; the queue data
  are of any type.
\<close>

subsection \<open>State\<close>

datatype comparator = CmpNull | CmpAscendInt | CmpAscendUint

record 'd qnode =
  prev :: u32
  nxt :: u32
  qdata :: 'd
  qkey :: u32

record queue =
  head :: u32
  tail :: u32
  compare :: comparator

record 'd qheap =
  kh :: kheap
  qnodes :: "u32 \<Rightarrow> 'd qnode option"
  queues :: "u32 \<Rightarrow> queue option"

abbreviation (input) sizeof_Qnode :: u32 where "sizeof_Qnode \<equiv> 16"
abbreviation (input) sizeof_Queue :: u32 where "sizeof_Queue \<equiv> 12"

subsection \<open>Operations\<close>

definition comp_ascend_int :: "u32 \<Rightarrow> u32 \<Rightarrow> int" where
  "comp_ascend_int old new = (if sint old < sint new then -1 else if old = new then 0 else 1)"

definition comp_ascend_uint :: "u32 \<Rightarrow> u32 \<Rightarrow> int" where
  "comp_ascend_uint old new = (if old < new then -1 else if old = new then 0 else 1)"

fun comp_key :: "comparator \<Rightarrow> u32 \<Rightarrow> u32 \<Rightarrow> int" where
  "comp_key CmpNull a b = 0"
| "comp_key CmpAscendInt a b = comp_ascend_int a b"
| "comp_key CmpAscendUint a b = comp_ascend_uint a b"

definition get_node :: "u32 \<Rightarrow> 'd qheap \<Rightarrow> 'd qnode outcome" where
  "get_node a h = deref (qnodes h a)"

definition get_queue :: "u32 \<Rightarrow> 'd qheap \<Rightarrow> queue outcome" where
  "get_queue q h = deref (queues h q)"

definition upd_node :: "u32 \<Rightarrow> ('d qnode \<Rightarrow> 'd qnode) \<Rightarrow> 'd qheap \<Rightarrow> 'd qheap outcome" where
  "upd_node a f h = obind (get_node a h) (\<lambda>n. Ok (h\<lparr>qnodes := (qnodes h)(a \<mapsto> f n)\<rparr>))"

definition upd_queue :: "u32 \<Rightarrow> (queue \<Rightarrow> queue) \<Rightarrow> 'd qheap \<Rightarrow> 'd qheap outcome" where
  "upd_queue q f h = obind (get_queue q h) (\<lambda>x. Ok (h\<lparr>queues := (queues h)(q \<mapsto> f x)\<rparr>))"

text \<open>A node that was just allocated has no defined links before it is inserted.\<close>

definition qnode_alloc :: "'d \<Rightarrow> u32 \<Rightarrow> 'd qheap \<Rightarrow> (u32 \<times> 'd qheap) outcome" where
  "qnode_alloc d key h =
     obind (kmalloc sizeof_Qnode (kh h)) (\<lambda>(p, k).
       Ok (p, h\<lparr>kh := k, qnodes := (if p = 0 then qnodes h
                else (qnodes h)(p \<mapsto> \<lparr>prev = 0, nxt = 0, qdata = d, qkey = key\<rparr>))\<rparr>))"

definition qnode_dealloc :: "u32 \<Rightarrow> 'd qheap \<Rightarrow> (status \<times> 'd qheap) outcome" where
  "qnode_dealloc qn h =
     (if qn = 0 then Ok (BAD_PARAM, h)
      else obind (kfree qn (kh h)) (\<lambda>k.
        Ok (SUCCESS, h\<lparr>kh := k, qnodes := (qnodes h)(qn := None)\<rparr>)))"

definition que_dealloc :: "u32 \<Rightarrow> 'd qheap \<Rightarrow> (status \<times> 'd qheap) outcome" where
  "que_dealloc que h =
     (if que = 0 then Ok (BAD_PARAM, h)
      else obind (kfree que (kh h)) (\<lambda>k.
        Ok (SUCCESS, h\<lparr>kh := k, queues := (queues h)(que := None)\<rparr>)))"

definition q_delete_node :: "u32 \<Rightarrow> u32 \<Rightarrow> 'd qheap \<Rightarrow> (status \<times> 'd qheap) outcome" where
  "q_delete_node que qn h =
     (if que = 0 \<or> qn = 0 then Ok (BAD_PARAM, h)
      else obind (get_node qn h) (\<lambda>n.
        obind (if prev n = 0 then upd_queue que (\<lambda>x. x\<lparr>head := nxt n\<rparr>) h
               else upd_node (prev n) (\<lambda>x. x\<lparr>nxt := nxt n\<rparr>) h) (\<lambda>h1.
        obind (get_node qn h1) (\<lambda>n1.
        obind (if nxt n1 = 0 then upd_queue que (\<lambda>x. x\<lparr>tail := prev n1\<rparr>) h1
               else upd_node (nxt n1) (\<lambda>x. x\<lparr>prev := prev n1\<rparr>) h1) (\<lambda>h2.
          qnode_dealloc qn h2)))))"

definition q_status :: "u32 \<Rightarrow> 'd qheap \<Rightarrow> status outcome" where
  "q_status que h =
     (if que = 0 then Ok BAD_PARAM
      else obind (get_queue que h) (\<lambda>q.
        if head q = 0 then Ok EMPTY_QUEUE else Ok NOT_EMPTY_QUEUE))"

definition q_empty :: "u32 \<Rightarrow> 'd qheap \<Rightarrow> bool outcome" where
  "q_empty que h = obind (q_status que h) (\<lambda>s. Ok (s = EMPTY_QUEUE))"

definition q_peek :: "u32 \<Rightarrow> bool \<Rightarrow> 'd qheap \<Rightarrow> (status \<times> u32 option) outcome" where
  "q_peek que key_ok h =
     (if que = 0 \<or> \<not> key_ok then Ok (BAD_PARAM, None)
      else obind (q_empty que h) (\<lambda>e.
        if e then Ok (EMPTY_QUEUE, None)
        else obind (get_queue que h) (\<lambda>q.
          obind (get_node (head q) h) (\<lambda>n. Ok (SUCCESS, Some (qkey n))))))"

definition q_alloc :: "bool \<Rightarrow> comparator \<Rightarrow> 'd qheap \<Rightarrow> (status \<times> u32 option \<times> 'd qheap) outcome" where
  "q_alloc que_ok c h =
     (if \<not> que_ok then Ok (BAD_PARAM, None, h)
      else obind (kmalloc sizeof_Queue (kh h)) (\<lambda>(p, k).
        if p = 0 then Ok (NO_QUEUES, None, h\<lparr>kh := k\<rparr>)
        else Ok (SUCCESS, Some p,
               h\<lparr>kh := k, queues := (queues h)(p \<mapsto> \<lparr>head = 0, tail = 0, compare = c\<rparr>)\<rparr>)))"

definition q_dealloc :: "u32 \<Rightarrow> 'd qheap \<Rightarrow> (status \<times> 'd qheap) outcome" where
  "q_dealloc que h = obind (que_dealloc que h) (\<lambda>(_, h'). Ok (SUCCESS, h'))"

text \<open>The loop of \<^verbatim>\<open>_q_insert\<close>: the first node whose key compares greater.\<close>

partial_function (option) find_insertion ::
  "(u32 \<Rightarrow> 'd qnode option) \<Rightarrow> comparator \<Rightarrow> u32 \<Rightarrow> u32 \<Rightarrow> u32 outcome option" where
  "find_insertion ns c key cur =
     (if cur = 0 then Some (Ok 0)
      else case ns cur of
        None \<Rightarrow> Some Fault
      | Some n \<Rightarrow> if comp_key c (qkey n) key \<le> 0 then find_insertion ns c key (nxt n) else Some (Ok cur))"

definition q_insert :: "u32 \<Rightarrow> 'd \<Rightarrow> u32 \<Rightarrow> 'd qheap \<Rightarrow> (status \<times> 'd qheap) outcome" where
  "q_insert que d key h =
     (if que = 0 then Ok (BAD_PARAM, h)
      else obind (qnode_alloc d key h) (\<lambda>(qn, h0).
        if qn = 0 then Ok (ALLOC_FAILED, h0)
        else obind (get_queue que h0) (\<lambda>q.
        obind (if compare q \<noteq> CmpNull
               then of_loop (find_insertion (qnodes h0) (compare q) key (head q)) else Ok 0) (\<lambda>cur.
        if cur \<noteq> 0 then
          obind (get_node cur h0) (\<lambda>cn.
          obind (upd_node qn (\<lambda>x. x\<lparr>prev := prev cn, nxt := cur\<rparr>) h0) (\<lambda>h1.
          obind (if prev cn = 0 then upd_queue que (\<lambda>x. x\<lparr>head := qn\<rparr>) h1
                 else upd_node (prev cn) (\<lambda>x. x\<lparr>nxt := qn\<rparr>) h1) (\<lambda>h2.
          obind (upd_node cur (\<lambda>x. x\<lparr>prev := qn\<rparr>) h2) (\<lambda>h3. Ok (SUCCESS, h3)))))
        else
          obind (upd_node qn (\<lambda>x. x\<lparr>prev := tail q, nxt := 0\<rparr>) h0) (\<lambda>h1.
          obind (if tail q = 0 then upd_queue que (\<lambda>x. x\<lparr>head := qn\<rparr>) h1
                 else upd_node (tail q) (\<lambda>x. x\<lparr>nxt := qn\<rparr>) h1) (\<lambda>h2.
          obind (upd_queue que (\<lambda>x. x\<lparr>tail := qn\<rparr>) h2) (\<lambda>h3. Ok (SUCCESS, h3))))))))"

definition q_remove :: "u32 \<Rightarrow> 'd qheap \<Rightarrow> (status \<times> 'd option \<times> 'd qheap) outcome" where
  "q_remove que h =
     (if que = 0 then Ok (BAD_PARAM, None, h)
      else obind (q_empty que h) (\<lambda>e.
        if e then Ok (EMPTY_QUEUE, None, h)
        else obind (get_queue que h) (\<lambda>q. let qn = head q in
          obind (get_node qn h) (\<lambda>n.
          obind (upd_queue que (\<lambda>x. x\<lparr>head := nxt n\<rparr>) h) (\<lambda>h1.
          obind (if nxt n = 0 then upd_queue que (\<lambda>x. x\<lparr>tail := 0\<rparr>) h1
                 else upd_node (nxt n) (\<lambda>x. x\<lparr>prev := 0\<rparr>) h1) (\<lambda>h2.
          obind (get_node qn h2) (\<lambda>n2.
          obind (qnode_dealloc qn h2) (\<lambda>(st, h3). Ok (st, Some (qdata n2), h3)))))))))"

text \<open>The loops that look for a key, or for a datum the given test accepts.\<close>

partial_function (option) find_key ::
  "(u32 \<Rightarrow> 'd qnode option) \<Rightarrow> u32 \<Rightarrow> u32 \<Rightarrow> u32 outcome option" where
  "find_key ns key qn =
     (if qn = 0 then Some (Ok 0)
      else case ns qn of
        None \<Rightarrow> Some Fault
      | Some n \<Rightarrow> if qkey n \<noteq> key then find_key ns key (nxt n) else Some (Ok qn))"

partial_function (option) find_selected ::
  "(u32 \<Rightarrow> 'd qnode option) \<Rightarrow> ('d \<Rightarrow> int) \<Rightarrow> u32 \<Rightarrow> u32 outcome option" where
  "find_selected ns cmp qn =
     (if qn = 0 then Some (Ok 0)
      else case ns qn of
        None \<Rightarrow> Some Fault
      | Some n \<Rightarrow> if cmp (qdata n) \<noteq> 0 then find_selected ns cmp (nxt n) else Some (Ok qn))"

definition q_remove_by_key :: "u32 \<Rightarrow> u32 \<Rightarrow> 'd qheap \<Rightarrow> (status \<times> 'd option \<times> 'd qheap) outcome" where
  "q_remove_by_key que key h =
     (if que = 0 then Ok (BAD_PARAM, None, h)
      else obind (q_empty que h) (\<lambda>e.
        if e then Ok (EMPTY_QUEUE, None, h)
        else obind (get_queue que h) (\<lambda>q.
        obind (of_loop (find_key (qnodes h) key (head q))) (\<lambda>qn.
          if qn = 0 then Ok (NOT_FOUND, None, h)
          else obind (get_node qn h) (\<lambda>n.
          obind (q_delete_node que qn h) (\<lambda>(st, h'). Ok (st, Some (qdata n), h')))))))"

definition q_get_by_key :: "u32 \<Rightarrow> u32 \<Rightarrow> 'd qheap \<Rightarrow> (status \<times> 'd option) outcome" where
  "q_get_by_key que key h =
     (if que = 0 then Ok (BAD_PARAM, None)
      else obind (q_empty que h) (\<lambda>e.
        if e then Ok (EMPTY_QUEUE, None)
        else obind (get_queue que h) (\<lambda>q.
        obind (of_loop (find_key (qnodes h) key (head q))) (\<lambda>qn.
          if qn = 0 then Ok (NOT_FOUND, None)
          else obind (get_node qn h) (\<lambda>n. Ok (SUCCESS, Some (qdata n)))))))"

definition q_remove_selected ::
  "u32 \<Rightarrow> ('d \<Rightarrow> int) \<Rightarrow> 'd qheap \<Rightarrow> (status \<times> 'd option \<times> 'd qheap) outcome" where
  "q_remove_selected que cmp h =
     (if que = 0 then Ok (BAD_PARAM, None, h)
      else obind (q_empty que h) (\<lambda>e.
        if e then Ok (EMPTY_QUEUE, None, h)
        else obind (get_queue que h) (\<lambda>q.
        obind (of_loop (find_selected (qnodes h) cmp (head q))) (\<lambda>qn.
          if qn = 0 then Ok (NOT_FOUND, None, h)
          else obind (get_node qn h) (\<lambda>n.
          obind (q_delete_node que qn h) (\<lambda>(st, h'). Ok (st, Some (qdata n), h')))))))"

subsection \<open>The nodes of a queue as a doubly linked list\<close>

fun dll :: "(u32 \<Rightarrow> 'd qnode option) \<Rightarrow> u32 \<Rightarrow> u32 list \<Rightarrow> u32 \<Rightarrow> ('d \<times> u32) list \<Rightarrow> bool" where
  "dll ns pv [] nx es \<longleftrightarrow> es = []"
| "dll ns pv (a # as) nx es \<longleftrightarrow> (\<exists>d k es'. es = (d, k) # es' \<and>
     ns a = Some \<lparr>prev = pv, nxt = hd_or as nx, qdata = d, qkey = k\<rparr> \<and> dll ns a as nx es')"

lemma dll_length: "dll ns pv as nx es \<Longrightarrow> length es = length as"
  by (induction as arbitrary: pv es) auto

lemma dll_append:
  assumes "length as = length es"
  shows "dll ns pv (as @ bs) nx (es @ fs) \<longleftrightarrow>
     dll ns pv as (hd_or bs nx) es \<and> dll ns (last_or as pv) bs nx fs"
  using assms by (induction as es arbitrary: pv rule: list_induct2) auto

lemma dll_cong: "dll ns pv as nx es \<Longrightarrow> (\<And>a. a \<in> set as \<Longrightarrow> ns' a = ns a) \<Longrightarrow> dll ns' pv as nx es"
  by (induction as arbitrary: pv es) auto

lemma dll_dom: "dll ns pv as nx es \<Longrightarrow> set as \<subseteq> dom ns"
  by (induction as arbitrary: pv es) auto

lemma dll_fst:
  assumes "dll ns pv (a # as) nx es"
  shows "\<exists>n. ns a = Some n \<and> prev n = pv \<and> nxt n = hd_or as nx \<and> es = (qdata n, qkey n) # tl es"
  using assms by auto

definition set_nxt_at :: "u32 list \<Rightarrow> u32 \<Rightarrow> (u32 \<Rightarrow> 'd qnode option) \<Rightarrow> (u32 \<Rightarrow> 'd qnode option)" where
  "set_nxt_at as v ns = (if as = [] then ns else ns(last as \<mapsto> (the (ns (last as)))\<lparr>nxt := v\<rparr>))"

definition set_prev_at :: "u32 list \<Rightarrow> u32 \<Rightarrow> (u32 \<Rightarrow> 'd qnode option) \<Rightarrow> (u32 \<Rightarrow> 'd qnode option)" where
  "set_prev_at as v ns = (if as = [] then ns else ns(hd as \<mapsto> (the (ns (hd as)))\<lparr>prev := v\<rparr>))"

lemma set_at_other [simp]:
  "a \<notin> set as \<Longrightarrow> set_nxt_at as v ns a = ns a" "a \<notin> set as \<Longrightarrow> set_prev_at as v ns a = ns a"
  by (auto simp: set_nxt_at_def set_prev_at_def)

lemma dll_set_nxt:
  assumes "dll ns pv as nx es" "distinct as"
  shows "dll (set_nxt_at as nx' ns) pv as nx' es"
  using assms
proof (induction as arbitrary: pv es)
  case (Cons a as)
  then obtain d k es' where e: "es = (d, k) # es'"
    "ns a = Some \<lparr>prev = pv, nxt = hd_or as nx, qdata = d, qkey = k\<rparr>" "dll ns a as nx es'" by auto
  show ?case
  proof (cases "as = []")
    case True then show ?thesis using e by (simp add: set_nxt_at_def)
  next
    case False
    then have eq: "set_nxt_at (a # as) nx' ns = set_nxt_at as nx' ns" by (simp add: set_nxt_at_def)
    have "dll (set_nxt_at as nx' ns) a as nx' es'" using Cons.IH e Cons.prems by auto
    moreover have "set_nxt_at as nx' ns a = ns a" using Cons.prems by simp
    moreover have "hd_or as nx = hd_or as nx'" using False by (simp add: hd_or_hd)
    ultimately show ?thesis using e eq by auto
  qed
qed simp

lemma dll_set_prev:
  assumes "dll ns pv as nx es" "distinct as"
  shows "dll (set_prev_at as pv' ns) pv' as nx es"
proof (cases as)
  case (Cons a bs)
  then obtain d k es' where e: "es = (d, k) # es'"
    "ns a = Some \<lparr>prev = pv, nxt = hd_or bs nx, qdata = d, qkey = k\<rparr>" "dll ns a bs nx es'"
    using assms by auto
  have "dll (set_prev_at as pv' ns) a bs nx es'"
    by (rule dll_cong [OF e(3)]) (use assms Cons in \<open>auto simp: set_prev_at_def\<close>)
  then show ?thesis using e Cons by (simp add: set_prev_at_def)
qed (use assms in simp)

definition link_node ::
  "u32 list \<Rightarrow> u32 \<Rightarrow> u32 list \<Rightarrow> 'd \<Rightarrow> u32 \<Rightarrow> (u32 \<Rightarrow> 'd qnode option) \<Rightarrow> (u32 \<Rightarrow> 'd qnode option)" where
  "link_node as qn bs d k ns =
     set_prev_at bs qn (set_nxt_at as qn
       (ns(qn \<mapsto> \<lparr>prev = last_or as 0, nxt = hd_or bs 0, qdata = d, qkey = k\<rparr>)))"

definition unlink_node :: "u32 list \<Rightarrow> u32 \<Rightarrow> u32 list \<Rightarrow> (u32 \<Rightarrow> 'd qnode option) \<Rightarrow> (u32 \<Rightarrow> 'd qnode option)" where
  "unlink_node as qn bs ns = (set_prev_at bs (last_or as 0) (set_nxt_at as (hd_or bs 0) ns))(qn := None)"

lemma dll_link:
  assumes l: "length as = length e1" and D: "dll ns 0 (as @ bs) 0 (e1 @ e2)"
    and dist: "distinct (as @ bs)" and qn: "qn \<notin> set (as @ bs)"
  shows "dll (link_node as qn bs d k ns) 0 (as @ qn # bs) 0 (e1 @ (d, k) # e2)"
proof -
  let ?n1 = "ns(qn \<mapsto> \<lparr>prev = last_or as 0, nxt = hd_or bs 0, qdata = d, qkey = k\<rparr>)"
  let ?n2 = "set_nxt_at as qn ?n1" and ?n3 = "link_node as qn bs d k ns"
  have disj: "\<And>a. a \<in> set as \<Longrightarrow> a \<notin> set bs" "\<And>a. a \<in> set bs \<Longrightarrow> a \<notin> set as" using dist by auto
  have D1: "dll ns 0 as (hd_or bs 0) e1" "dll ns (last_or as 0) bs 0 e2"
    using D by (simp_all add: dll_append [OF l])
  have "dll ?n1 0 as (hd_or bs 0) e1" by (rule dll_cong [OF D1(1)]) (use qn in auto)
  then have "dll ?n2 0 as qn e1" by (rule dll_set_nxt) (use dist in simp)
  then have "dll ?n3 0 as qn e1"
    by (rule dll_cong) (use disj in \<open>simp add: link_node_def\<close>)
  moreover have "dll ?n2 (last_or as 0) bs 0 e2"
    by (rule dll_cong [OF D1(2)]) (use qn disj in auto)
  then have "dll ?n3 qn bs 0 e2"
    unfolding link_node_def by (rule dll_set_prev) (use dist in simp)
  moreover have "?n3 qn = ?n1 qn" using qn by (simp add: link_node_def)
  ultimately show ?thesis using l by (simp add: dll_append)
qed

lemma dll_unlink:
  assumes l: "length as = length e1" and D: "dll ns 0 (as @ qn # bs) 0 (e1 @ e # e2)"
    and dist: "distinct (as @ qn # bs)"
  shows "dll (unlink_node as qn bs ns) 0 (as @ bs) 0 (e1 @ e2)"
proof -
  have disj: "\<And>a. a \<in> set as \<Longrightarrow> a \<notin> set bs" "\<And>a. a \<in> set bs \<Longrightarrow> a \<notin> set as" using dist by auto
  have D1: "dll ns 0 as qn e1" "dll ns qn bs 0 e2"
    using D by (auto simp add: dll_append [OF l])
  have "dll (set_nxt_at as (hd_or bs 0) ns) 0 as (hd_or bs 0) e1"
    by (rule dll_set_nxt [OF D1(1)]) (use dist in simp)
  then have "dll (unlink_node as qn bs ns) 0 as (hd_or bs 0) e1"
    by (rule dll_cong) (use dist disj in \<open>auto simp: unlink_node_def\<close>)
  moreover have "dll (set_nxt_at as (hd_or bs 0) ns) qn bs 0 e2"
    by (rule dll_cong [OF D1(2)]) (use disj in auto)
  then have "dll (set_prev_at bs (last_or as 0) (set_nxt_at as (hd_or bs 0) ns)) (last_or as 0) bs 0 e2"
    by (rule dll_set_prev) (use dist in simp)
  then have "dll (unlink_node as qn bs ns) (last_or as 0) bs 0 e2"
    by (rule dll_cong) (use dist in \<open>auto simp: unlink_node_def\<close>)
  ultimately show ?thesis using l by (simp add: dll_append)
qed

subsection \<open>The loops over a queue\<close>

lemma find_insertion_spec:
  assumes "dll ns pv as 0 es" "0 \<notin> set as"
  shows "find_insertion ns c key (hd_or as 0) =
     Some (Ok (hd_or (drop (length (takeWhile (\<lambda>e. comp_key c (snd e) key \<le> 0) es)) as) 0))"
  using assms
proof (induction as arbitrary: pv es)
  case Nil
  then show ?case by (simp add: find_insertion.simps)
next
  case (Cons a as)
  then show ?case by (auto simp: find_insertion.simps [of ns c key a])
qed

lemma find_key_spec:
  assumes "dll ns pv as 0 es" "0 \<notin> set as"
  shows "find_key ns key (hd_or as 0) =
     Some (Ok (hd_or (drop (length (takeWhile (\<lambda>e. snd e \<noteq> key) es)) as) 0))"
  using assms
proof (induction as arbitrary: pv es)
  case Nil
  then show ?case by (simp add: find_key.simps)
next
  case (Cons a as)
  then show ?case by (auto simp: find_key.simps [of ns key a])
qed

lemma find_selected_spec:
  assumes "dll ns pv as 0 es" "0 \<notin> set as"
  shows "find_selected ns cmp (hd_or as 0) =
     Some (Ok (hd_or (drop (length (takeWhile (\<lambda>e. cmp (fst e) \<noteq> 0) es)) as) 0))"
  using assms
proof (induction as arbitrary: pv es)
  case Nil
  then show ?case by (simp add: find_selected.simps)
next
  case (Cons a as)
  then show ?case by (auto simp: find_selected.simps [of ns cmp a])
qed

subsection \<open>What a queue promises\<close>

text \<open>
  A queue is a list of data with their keys; insertion puts a datum behind every one whose
  key does not compare greater.
\<close>

type_synonym 'd qspec = "u32 \<Rightarrow> (comparator \<times> ('d \<times> u32) list) option"

definition spec_insert :: "comparator \<Rightarrow> 'd \<Rightarrow> u32 \<Rightarrow> ('d \<times> u32) list \<Rightarrow> ('d \<times> u32) list" where
  "spec_insert c d k es =
     (let before = (\<lambda>e. comp_key c (snd e) k \<le> 0)
      in takeWhile before es @ (d, k) # dropWhile before es)"

definition spec_remove :: "('d \<times> u32 \<Rightarrow> bool) \<Rightarrow> ('d \<times> u32) list \<Rightarrow> ('d \<times> ('d \<times> u32) list) option" where
  "spec_remove P es = (case dropWhile (\<lambda>e. \<not> P e) es of
     [] \<Rightarrow> None | e # es' \<Rightarrow> Some (fst e, takeWhile (\<lambda>e. \<not> P e) es @ es'))"

text \<open>
  \<open>qinv h A N L\<close>: the heap \<open>h\<close> holds exactly the queues of \<open>A\<close>; the nodes of queue
  \<open>q\<close> are \<open>N q\<close>; \<open>L\<close> are the other live pointers of the kernel heap.
\<close>

definition queue_ok :: "'d qheap \<Rightarrow> (comparator \<times> ('d \<times> u32) list) option \<Rightarrow> u32 \<Rightarrow> u32 list \<Rightarrow> bool" where
  "queue_ok h a q ns = (case a of
     None \<Rightarrow> queues h q = None \<and> ns = []
   | Some (c, es) \<Rightarrow> queues h q = Some \<lparr>head = hd_or ns 0, tail = last_or ns 0, compare = c\<rparr> \<and>
       dll (qnodes h) 0 ns 0 es \<and> distinct ns \<and> 0 \<notin> set ns)"

definition pointers :: "'d qheap \<Rightarrow> u32 set \<Rightarrow> u32 set" where
  "pointers h L = dom (queues h) \<union> dom (qnodes h) \<union> L"

definition qinv :: "'d qheap \<Rightarrow> 'd qspec \<Rightarrow> (u32 \<Rightarrow> u32 list) \<Rightarrow> u32 set \<Rightarrow> bool" where
  "qinv h A N L \<longleftrightarrow>
     (\<forall>q. queue_ok h (A q) q (N q)) \<and> (\<forall>p q. p \<noteq> q \<longrightarrow> set (N p) \<inter> set (N q) = {}) \<and>
     dom (qnodes h) = (\<Union>q. set (N q)) \<and> dom (queues h) \<inter> dom (qnodes h) = {} \<and>
     L \<inter> (dom (queues h) \<union> dom (qnodes h)) = {} \<and> 0 \<notin> pointers h L \<and> heap_live (kh h) (pointers h L)"

definition qrep :: "'d qheap \<Rightarrow> 'd qspec \<Rightarrow> u32 set \<Rightarrow> bool" where
  "qrep h A L \<longleftrightarrow> (\<exists>N. qinv h A N L)"

lemma qinvD:
  assumes "qinv h A N L"
  shows "queue_ok h (A q) q (N q)" "p \<noteq> p' \<Longrightarrow> set (N p) \<inter> set (N p') = {}"
    "dom (qnodes h) = (\<Union>q. set (N q))" "dom (queues h) \<inter> dom (qnodes h) = {}"
    "L \<inter> (dom (queues h) \<union> dom (qnodes h)) = {}" "0 \<notin> pointers h L" "heap_live (kh h) (pointers h L)"
proof -
  note C = assms [unfolded qinv_def]
  note C2 = conjunct2 [OF C]
  note C3 = conjunct2 [OF C2]
  note C4 = conjunct2 [OF C3]
  show "queue_ok h (A q) q (N q)" by (rule conjunct1 [OF C, THEN spec])
  show "p \<noteq> p' \<Longrightarrow> set (N p) \<inter> set (N p') = {}" by (rule conjunct1 [OF C2, THEN spec, THEN spec, THEN mp])
  show "dom (qnodes h) = (\<Union>q. set (N q))" by (rule conjunct1 [OF C3])
  show "dom (queues h) \<inter> dom (qnodes h) = {}" by (rule conjunct1 [OF C4])
  note C5 = conjunct2 [OF C4]
  show "L \<inter> (dom (queues h) \<union> dom (qnodes h)) = {}" by (rule conjunct1 [OF C5])
  show "0 \<notin> pointers h L" by (rule conjunct1 [OF conjunct2 [OF C5]])
  show "heap_live (kh h) (pointers h L)" by (rule conjunct2 [OF conjunct2 [OF C5]])
qed

lemma qinv_queue:
  assumes "qinv h A N L" "A q = Some (c, es)"
  shows "queues h q = Some \<lparr>head = hd_or (N q) 0, tail = last_or (N q) 0, compare = c\<rparr>"
    "dll (qnodes h) 0 (N q) 0 es" "distinct (N q)" "0 \<notin> set (N q)" "q \<noteq> 0" "set (N q) \<subseteq> dom (qnodes h)"
proof -
  have "queue_ok h (A q) q (N q)" using assms(1) by (simp add: qinv_def)
  then show *: "queues h q = Some \<lparr>head = hd_or (N q) 0, tail = last_or (N q) 0, compare = c\<rparr>"
    "dll (qnodes h) 0 (N q) 0 es" "distinct (N q)" "0 \<notin> set (N q)"
    using assms(2) by (auto simp: queue_ok_def)
  have "0 \<notin> dom (queues h)" using assms(1) by (simp add: qinv_def pointers_def)
  then show "q \<noteq> 0" using *(1) by auto
  show "set (N q) \<subseteq> dom (qnodes h)" using *(2) by (rule dll_dom)
qed

lemma queue_ok_frame:
  assumes "queue_ok h a q ns" "queues h' q = queues h q" "\<And>x. x \<in> set ns \<Longrightarrow> qnodes h' x = qnodes h x"
  shows "queue_ok h' a q ns"
  using assms by (auto simp: queue_ok_def split: option.splits intro: dll_cong)

lemma step_disjoint:
  assumes "D' \<subseteq> (D - S) \<union> T"
  shows "T \<inter> (Q \<union> L) = {} \<Longrightarrow> Q \<inter> D = {} \<Longrightarrow> Q \<inter> D' = {}"
    "T \<inter> (Q \<union> L) = {} \<Longrightarrow> L \<inter> (Q \<union> D) = {} \<Longrightarrow> L \<inter> (Q \<union> D') = {}"
    "x \<notin> Q \<union> D \<union> L \<Longrightarrow> x \<notin> T \<Longrightarrow> x \<notin> Q \<union> D' \<union> L"
  using assms by blast+

text \<open>An operation on one queue that changes its nodes from \<open>N q\<close> to \<open>ns\<close>.\<close>

lemma qinv_step:
  assumes I: "qinv h A N L" and q: "A q = Some (c, es)"
    and h': "queues h' = (queues h)(q \<mapsto> \<lparr>head = hd_or ns 0, tail = last_or ns 0, compare = c\<rparr>)"
    and D: "dll (qnodes h') 0 ns 0 es'" "distinct ns" "0 \<notin> set ns"
    and dm: "dom (qnodes h') = (dom (qnodes h) - set (N q)) \<union> set ns"
    and fr: "\<And>x. x \<notin> set (N q) \<Longrightarrow> x \<notin> set ns \<Longrightarrow> qnodes h' x = qnodes h x"
    and new: "set ns \<inter> (pointers h L - set (N q)) = {}"
    and lv: "heap_live (kh h') (pointers h' L)"
  shows "qinv h' (A(q \<mapsto> (c, es'))) (N(q := ns)) L"
proof -
  let ?N = "N(q := ns)"
  note Q = qinv_queue [OF I q]
  have ok: "\<And>p. queue_ok h (A p) p (N p)" and disj: "\<And>p p'. p \<noteq> p' \<Longrightarrow> set (N p) \<inter> set (N p') = {}"
    and dom: "dom (qnodes h) = (\<Union>q. set (N q))" and qd: "dom (queues h) \<inter> dom (qnodes h) = {}"
    and Ld: "L \<inter> (dom (queues h) \<union> dom (qnodes h)) = {}" and z: "0 \<notin> pointers h L"
    using qinvD [OF I] by (iprover | assumption)+
  have Np: "set (N p) \<subseteq> dom (qnodes h) - set (N q)" if "p \<noteq> q" for p
    using dom disj [OF that] by auto
  have nsN: "set ns \<inter> set (N p) = {}" if "p \<noteq> q" for p
    using Np [OF that] new by (auto simp: pointers_def)
  have "queue_ok h' ((A(q \<mapsto> (c, es'))) p) p (?N p)" for p
  proof (cases "p = q")
    case True
    then show ?thesis using h' D by (simp add: queue_ok_def)
  next
    case False
    then have "queue_ok h' (A p) p (N p)"
      using h' Np [OF False] nsN [OF False] by (intro queue_ok_frame [OF ok] fr) auto
    then show ?thesis using False by simp
  qed
  moreover have "set (?N p) \<inter> set (?N p') = {}" if "p \<noteq> p'" for p p'
    using that disj nsN by (cases "p = q"; cases "p' = q") (auto simp: disjoint_iff)
  moreover have "dom (qnodes h') = (\<Union>p. set (?N p))"
  proof -
    have "x \<in> (\<Union>p. set (?N p)) \<longleftrightarrow> x \<in> (\<Union>p\<in>-{q}. set (N p)) \<union> set ns" for x
      by (cases "x \<in> set ns") (auto split: if_splits)
    then have "(\<Union>p. set (?N p)) = (\<Union>p\<in>-{q}. set (N p)) \<union> set ns" by blast
    moreover have "dom (qnodes h) - set (N q) = (\<Union>p\<in>-{q}. set (N p))"
      using dom disj by (auto simp: disjoint_iff)
    ultimately show ?thesis using dm by simp
  qed
  moreover have qs: "dom (queues h') = dom (queues h)" using h' Q(1) by auto
  have sub: "dom (qnodes h') \<subseteq> (dom (qnodes h) - set (N q)) \<union> set ns" using dm by simp
  have "x \<notin> dom (queues h) \<union> L" if x: "x \<in> set ns" for x
  proof (cases "x \<in> set (N q)")
    case True
    then have "x \<in> dom (qnodes h)" using Q(6) by (rule subsetD [rotated])
    then show ?thesis using qd Ld by (meson Un_iff disjoint_iff)
  next
    case False
    then have "x \<notin> pointers h L" using new x by (meson DiffI disjoint_iff)
    then show ?thesis by (simp add: pointers_def)
  qed
  then have ns_new: "set ns \<inter> (dom (queues h) \<union> L) = {}" by (simp add: disjoint_iff)
  moreover have "dom (queues h') \<inter> dom (qnodes h') = {}" unfolding qs by (rule step_disjoint(1) [OF sub ns_new qd])
  moreover have "L \<inter> (dom (queues h') \<union> dom (qnodes h')) = {}" unfolding qs by (rule step_disjoint(2) [OF sub ns_new Ld])
  moreover have "0 \<notin> pointers h' L" unfolding pointers_def qs
    using z D(3) by (intro step_disjoint(3) [OF sub]) (simp_all add: pointers_def)
  ultimately show ?thesis using lv by (simp only: qinv_def) blast
qed

subsection \<open>Each operation does what the specification says\<close>

lemma pointers_upd: "pointers (h\<lparr>kh := k\<rparr>) L = pointers h L"
  by (simp add: pointers_def)

lemma hd_or_zero: "0 \<notin> set as \<Longrightarrow> hd_or as 0 = 0 \<longleftrightarrow> as = []"
  by (cases as) auto

lemma last_or_zero: "0 \<notin> set as \<Longrightarrow> last_or as 0 = 0 \<longleftrightarrow> as = []"
  by (metis last_in_set last_or_def)

lemma dll_last:
  assumes "dll ns pv as nx es" "as \<noteq> []"
  shows "last as \<in> dom ns"
  using dll_dom [OF assms(1)] assms(2) by (meson last_in_set subsetD)

lemma q_empty_rep:
  assumes I: "qinv h A N L" and q: "A q = Some (c, es)"
  shows "q_status q h = Ok (if es = [] then EMPTY_QUEUE else NOT_EMPTY_QUEUE)"
    "q_empty q h = Ok (es = [])"
proof -
  note Q = qinv_queue [OF I q]
  have "hd_or (N q) 0 = 0 \<longleftrightarrow> es = []"
    using hd_or_zero [OF Q(4)] dll_length [OF Q(2)] by auto
  then show s: "q_status q h = Ok (if es = [] then EMPTY_QUEUE else NOT_EMPTY_QUEUE)"
    using Q(1,5) by (simp add: q_status_def get_queue_def)
  show "q_empty q h = Ok (es = [])" using s by (simp add: q_empty_def)
qed

text \<open>Linking a node into the list.\<close>

lemma link_mem:
  assumes D: "dll (qnodes h) 0 (as @ bs) 0 es" and dist: "distinct (as @ bs)" and z: "0 \<notin> set (as @ bs)"
    and qn: "qn \<notin> set (as @ bs)" "qn \<noteq> 0" and q: "queues h q = Some \<lparr>head = hd_or (as @ bs) 0, tail = last_or (as @ bs) 0, compare = c\<rparr>"
    and new: "qnodes h qn = Some \<lparr>prev = x, nxt = y, qdata = d, qkey = k\<rparr>"
  defines "h' \<equiv> h\<lparr>queues := (queues h)(q \<mapsto> \<lparr>head = hd_or (as @ qn # bs) 0, tail = last_or (as @ qn # bs) 0, compare = c\<rparr>),
                 qnodes := link_node as qn bs d k (qnodes h)\<rparr>"
  shows "bs = [] \<Longrightarrow>
     obind (upd_node qn (\<lambda>x. x\<lparr>prev := last_or as 0, nxt := 0\<rparr>) h) (\<lambda>h1.
          obind (if last_or as 0 = 0 then upd_queue q (\<lambda>x. x\<lparr>head := qn\<rparr>) h1
                 else upd_node (last_or as 0) (\<lambda>x. x\<lparr>nxt := qn\<rparr>) h1) (\<lambda>h2.
          obind (upd_queue q (\<lambda>x. x\<lparr>tail := qn\<rparr>) h2) (\<lambda>h3. Ok (SUCCESS, h3)))) = Ok (SUCCESS, h')"
    "bs = cur # bs' \<Longrightarrow>
      obind (get_node cur h) (\<lambda>cn.
          obind (upd_node qn (\<lambda>x. x\<lparr>prev := prev cn, nxt := cur\<rparr>) h) (\<lambda>h1.
          obind (if prev cn = 0 then upd_queue q (\<lambda>x. x\<lparr>head := qn\<rparr>) h1
                 else upd_node (prev cn) (\<lambda>x. x\<lparr>nxt := qn\<rparr>) h1) (\<lambda>h2.
          obind (upd_node cur (\<lambda>x. x\<lparr>prev := qn\<rparr>) h2) (\<lambda>h3. Ok (SUCCESS, h3))))) = Ok (SUCCESS, h')"
proof -
  have la: "last_or as 0 = 0 \<longleftrightarrow> as = []" using z by (intro last_or_zero) auto
  have lad: "last as \<in> dom (qnodes h) \<and> last as \<noteq> qn \<and> last as \<notin> set bs" if "as \<noteq> []"
  proof -
    have "last as \<in> set as" using that by simp
    then show ?thesis using dll_dom [OF D] qn dist by auto
  qed
  show "obind (upd_node qn (\<lambda>x. x\<lparr>prev := last_or as 0, nxt := 0\<rparr>) h) (\<lambda>h1.
          obind (if last_or as 0 = 0 then upd_queue q (\<lambda>x. x\<lparr>head := qn\<rparr>) h1
                 else upd_node (last_or as 0) (\<lambda>x. x\<lparr>nxt := qn\<rparr>) h1) (\<lambda>h2.
          obind (upd_queue q (\<lambda>x. x\<lparr>tail := qn\<rparr>) h2) (\<lambda>h3. Ok (SUCCESS, h3)))) = Ok (SUCCESS, h')"
    if "bs = []"
  proof (cases "as = []")
    case True
    then show ?thesis using that q new
      by (simp add: upd_node_def get_node_def upd_queue_def get_queue_def h'_def link_node_def
          set_nxt_at_def set_prev_at_def)
  next
    case False
    then obtain n where n: "qnodes h (last as) = Some n" "last as \<noteq> qn" using lad by auto
    show ?thesis using False that q new n la
      by (simp add: upd_node_def get_node_def upd_queue_def get_queue_def h'_def link_node_def
          set_nxt_at_def set_prev_at_def last_or_last hd_or_hd)
  qed
  show "obind (get_node cur h) (\<lambda>cn.
          obind (upd_node qn (\<lambda>x. x\<lparr>prev := prev cn, nxt := cur\<rparr>) h) (\<lambda>h1.
          obind (if prev cn = 0 then upd_queue q (\<lambda>x. x\<lparr>head := qn\<rparr>) h1
                 else upd_node (prev cn) (\<lambda>x. x\<lparr>nxt := qn\<rparr>) h1) (\<lambda>h2.
          obind (upd_node cur (\<lambda>x. x\<lparr>prev := qn\<rparr>) h2) (\<lambda>h3. Ok (SUCCESS, h3))))) = Ok (SUCCESS, h')"
    if bs: "bs = cur # bs'"
  proof -
    obtain cn where cn: "qnodes h cur = Some cn" "prev cn = last_or as 0"
    proof -
      have "length (take (length as) es) = length as" using dll_length [OF D] by simp
      then have "dll (qnodes h) (last_or as 0) bs 0 (drop (length as) es)"
        using dll_append [of as "take (length as) es" "qnodes h" 0 bs 0 "drop (length as) es"] D by simp
      then show thesis using that bs dll_fst by fastforce
    qed
    have cq: "cur \<noteq> qn" using qn bs by auto
    have cl: "cur \<noteq> last as" if "as \<noteq> []" using lad [OF that] bs by auto
    show ?thesis
    proof (cases "as = []")
      case True
      then show ?thesis using bs q new cn cq
        by (simp add: upd_node_def get_node_def upd_queue_def get_queue_def h'_def link_node_def
            set_nxt_at_def set_prev_at_def fun_upd_twist)
    next
      case False
      then obtain n where n: "qnodes h (last as) = Some n" "last as \<noteq> qn" using lad by auto
      have "(queues h)(q \<mapsto> \<lparr>head = hd as, tail = last_or bs' cur, compare = c\<rparr>) = queues h"
        using q False bs by (intro map_upd_triv) (simp add: hd_or_hd)
      then show ?thesis using False bs q new n la cn cq cl [OF False]
        by (simp add: upd_node_def get_node_def upd_queue_def get_queue_def h'_def link_node_def
            set_nxt_at_def set_prev_at_def last_or_last hd_or_hd fun_upd_twist)
    qed
  qed
qed

lemma unlink_mem:
  assumes D: "dll (qnodes h) 0 (as @ qn # bs) 0 es" and dist: "distinct (as @ qn # bs)"
    and z: "0 \<notin> set (as @ qn # bs)" and q0: "q \<noteq> 0"
    and q: "queues h q = Some \<lparr>head = hd_or (as @ qn # bs) 0, tail = last_or (as @ qn # bs) 0, compare = c\<rparr>"
    and k: "kfree qn (kh h) = Ok k"
  defines "h' \<equiv> h\<lparr>kh := k, queues := (queues h)(q \<mapsto> \<lparr>head = hd_or (as @ bs) 0, tail = last_or (as @ bs) 0, compare = c\<rparr>),
                 qnodes := unlink_node as qn bs (qnodes h)\<rparr>"
  shows "q_delete_node q qn h = Ok (SUCCESS, h')"
    "as = [] \<Longrightarrow> q_remove q h = Ok (SUCCESS, Some (fst (hd es)), h')"
proof -
  have la: "last_or as 0 = 0 \<longleftrightarrow> as = []" and hb: "hd_or bs 0 = 0 \<longleftrightarrow> bs = []"
    using z last_or_zero [of as] hd_or_zero [of bs] by auto
  have lad: "last as \<in> dom (qnodes h) \<and> last as \<noteq> qn \<and> last as \<notin> set bs" if "as \<noteq> []"
  proof -
    have "last as \<in> set as" using that by simp
    then show ?thesis using dll_dom [OF D] dist by auto
  qed
  have hbd: "hd bs \<in> dom (qnodes h) \<and> hd bs \<noteq> qn \<and> hd bs \<notin> set as" if "bs \<noteq> []"
  proof -
    have "hd bs \<in> set bs" using that by simp
    then show ?thesis using dll_dom [OF D] dist by auto
  qed
  have l: "length (take (length as) es) = length as" using dll_length [OF D] by simp
  then have "dll (qnodes h) (last_or as 0) (qn # bs) 0 (drop (length as) es)"
    using dll_append [of as "take (length as) es" "qnodes h" 0 "qn # bs" 0 "drop (length as) es"] D by simp
  from dll_fst [OF this] obtain n where n: "qnodes h qn = Some n" "prev n = last_or as 0" "nxt n = hd_or bs 0"
    "drop (length as) es = (qdata n, qkey n) # tl (drop (length as) es)" by blast
  have q0': "qn \<noteq> 0" using z by simp
  have lh: "last as \<noteq> hd bs" if "as \<noteq> []" "bs \<noteq> []" using lad [OF that(1)] that by auto
  note defs = q_delete_node_def upd_node_def get_node_def upd_queue_def get_queue_def h'_def unlink_node_def
          set_nxt_at_def set_prev_at_def qnode_dealloc_def
  have tr: "(queues h)(q \<mapsto> \<lparr>head = hd as, tail = last bs, compare = c\<rparr>) = queues h" if "as \<noteq> []" "bs \<noteq> []"
    using q that by (intro map_upd_triv) (simp add: hd_or_hd last_or_last)
  show "q_delete_node q qn h = Ok (SUCCESS, h')"
  proof (cases "as = []"; cases "bs = []")
    assume "as = []" "bs = []"
    then show ?thesis using q n q0 q0' k by (simp add: defs)
  next
    assume b: "as = []" "bs \<noteq> []"
    then obtain m where "qnodes h (hd bs) = Some m" "hd bs \<noteq> qn" using hbd by auto
    then show ?thesis using b q n q0 q0' k hb by (simp add: defs hd_or_hd last_or_last)
  next
    assume a: "as \<noteq> []" "bs = []"
    then obtain m where "qnodes h (last as) = Some m" "last as \<noteq> qn" using lad by auto
    then show ?thesis using a q n q0 q0' k la by (simp add: defs hd_or_hd last_or_last)
  next
    assume ab: "as \<noteq> []" "bs \<noteq> []"
    obtain m where "qnodes h (last as) = Some m" "last as \<noteq> qn" using lad ab by auto
    moreover obtain m' where "qnodes h (hd bs) = Some m'" "hd bs \<noteq> qn" using hbd ab by auto
    ultimately show ?thesis using ab q n q0 q0' k la hb lh [OF ab] tr [OF ab]
      by (simp add: defs hd_or_hd last_or_last)
  qed
  show "q_remove q h = Ok (SUCCESS, Some (fst (hd es)), h')" if as: "as = []"
  proof -
    have e: "fst (hd es) = qdata n" using n(4) as by (metis drop0 fst_conv list.sel(1) list.size(3))
    have emp: "q_empty q h = Ok False" using q q0 q0' as by (simp add: q_empty_def q_status_def get_queue_def)
    show ?thesis
    proof (cases "bs = []")
      case True
      then show ?thesis using as q n q0 q0' k emp e by (simp add: q_remove_def defs)
    next
      case False
      then obtain m where "qnodes h (hd bs) = Some m" "hd bs \<noteq> qn" using hbd by auto
      then show ?thesis using as False q n q0 q0' k hb emp e
        by (simp add: q_remove_def defs hd_or_hd last_or_last)
    qed
  qed
qed

lemma set_at_dom:
  "set as \<subseteq> dom ns \<Longrightarrow> dom (set_nxt_at as v ns) = dom ns"
  "set as \<subseteq> dom ns \<Longrightarrow> dom (set_prev_at as v ns) = dom ns"
proof -
  assume s: "set as \<subseteq> dom ns"
  have "as \<noteq> [] \<Longrightarrow> last as \<in> dom ns" "as \<noteq> [] \<Longrightarrow> hd as \<in> dom ns"
    using s last_in_set [of as] hd_in_set [of as] by blast+
  then show "dom (set_nxt_at as v ns) = dom ns" "dom (set_prev_at as v ns) = dom ns"
    by (simp_all add: set_nxt_at_def set_prev_at_def insert_absorb)
qed

lemma unlink_dom:
  "set as \<union> set bs \<subseteq> dom ns \<Longrightarrow> dom (unlink_node as qn bs ns) = dom ns - {qn}"
  by (simp add: unlink_node_def set_at_dom)

lemma link_dom:
  assumes "set as \<union> set bs \<subseteq> dom ns"
  shows "dom (link_node as qn bs d k ns) = insert qn (dom ns)"
proof -
  let ?n = "ns(qn \<mapsto> \<lparr>prev = last_or as 0, nxt = hd_or bs 0, qdata = d, qkey = k\<rparr>)"
  have n: "dom ?n = insert qn (dom ns)" by simp
  then have "set as \<subseteq> dom ?n" using assms by auto
  from set_at_dom(1) [OF this] have n2: "dom (set_nxt_at as qn ?n) = insert qn (dom ns)" using n by simp
  then have "set bs \<subseteq> dom (set_nxt_at as qn ?n)" using assms by auto
  from set_at_dom(2) [OF this] show ?thesis using n2 by (simp add: link_node_def)
qed

lemma link_other: "x \<notin> set as \<Longrightarrow> x \<notin> set bs \<Longrightarrow> x \<noteq> qn \<Longrightarrow> link_node as qn bs d k ns x = ns x"
  by (simp add: link_node_def)

lemma unlink_other: "x \<notin> set as \<Longrightarrow> x \<notin> set bs \<Longrightarrow> x \<noteq> qn \<Longrightarrow> unlink_node as qn bs ns x = ns x"
  by (simp add: unlink_node_def)

text \<open>Removing the node at a known place.\<close>

lemma delete_sim:
  assumes I: "qinv h A N L" and q: "A q = Some (c, e1 @ e # e2)"
  obtains qn h' where "hd_or (drop (length e1) (N q)) 0 = qn" "qn \<noteq> 0"
    "get_node qn h = Ok \<lparr>prev = last_or (take (length e1) (N q)) 0,
        nxt = hd_or (drop (Suc (length e1)) (N q)) 0, qdata = fst e, qkey = snd e\<rparr>"
    "q_delete_node q qn h = Ok (SUCCESS, h')"
    "e1 = [] \<Longrightarrow> q_remove q h = Ok (SUCCESS, Some (fst e), h')"
    "qrep h' (A(q \<mapsto> (c, e1 @ e2))) L"
proof -
  note Q = qinv_queue [OF I q]
  define as where "as = take (length e1) (N q)"
  define qn where "qn = N q ! length e1"
  define bs where "bs = drop (Suc (length e1)) (N q)"
  have len: "length (N q) = length e1 + Suc (length e2)" using dll_length [OF Q(2)] by simp
  then have N: "N q = as @ qn # bs" unfolding as_def qn_def bs_def
    by (intro id_take_nth_drop) simp
  have la: "length as = length e1" using len by (simp add: as_def)
  have hq: "hd_or (drop (length e1) (N q)) 0 = qn" using N la by simp
  have D: "dll (qnodes h) 0 (as @ qn # bs) 0 (e1 @ e # e2)" using Q(2) N by simp
  have node: "get_node qn h = Ok \<lparr>prev = last_or as 0, nxt = hd_or bs 0, qdata = fst e, qkey = snd e\<rparr>"
    using D by (auto simp: dll_append [OF la] get_node_def)
  have dist: "distinct (as @ qn # bs)" and z: "0 \<notin> set (as @ qn # bs)" using Q(3,4) N by auto
  have lv: "heap_live (kh h) (pointers h L)" using qinvD [OF I] by blast
  have "qn \<in> pointers h L" using Q(6) N by (auto simp: pointers_def)
  from km.free_cases [OF lv this] obtain k where k: "kfree qn (kh h) = Ok k" "heap_live k (pointers h L - {qn})" .
  let ?h' = "h\<lparr>kh := k, queues := (queues h)(q \<mapsto> \<lparr>head = hd_or (as @ bs) 0, tail = last_or (as @ bs) 0, compare = c\<rparr>),
                 qnodes := unlink_node as qn bs (qnodes h)\<rparr>"
  note M = unlink_mem [OF D dist z Q(5) _ k(1), of c] 
  have qq: "queues h q = Some \<lparr>head = hd_or (as @ qn # bs) 0, tail = last_or (as @ qn # bs) 0, compare = c\<rparr>"
    using Q(1) N by simp
  have dm: "dom (qnodes ?h') = dom (qnodes h) - {qn}"
    using dist Q(6) N by (simp add: unlink_dom)
  have qnn: "qn \<in> dom (qnodes h)" using Q(6) N by auto
  have nq: "qn \<notin> dom (queues h) \<union> L" using qinvD(4,5) [OF I] qnn by (meson Un_iff disjoint_iff)
  have ptr: "pointers ?h' L = pointers h L - {qn}"
    using nq Q(1) dm by (auto simp: pointers_def)
  have "qinv ?h' (A(q \<mapsto> (c, e1 @ e2))) (N(q := as @ bs)) L"
  proof (rule qinv_step [OF I q])
    show "dll (qnodes ?h') 0 (as @ bs) 0 (e1 @ e2)" using dll_unlink [OF la D dist] by simp
    show "dom (qnodes ?h') = (dom (qnodes h) - set (N q)) \<union> set (as @ bs)"
      unfolding dm using N dist Q(6) by auto
    show "qnodes ?h' x = qnodes h x" if "x \<notin> set (N q)" for x
      using that N by (simp add: unlink_other)
    show "set (as @ bs) \<inter> (pointers h L - set (N q)) = {}" using N by auto
    show "heap_live (kh ?h') (pointers ?h' L)" unfolding ptr using k(2) by simp
  qed (use dist z in auto)
  then have "qrep ?h' (A(q \<mapsto> (c, e1 @ e2))) L" by (auto simp: qrep_def)
  then show thesis
    using that hq z node M [OF qq] by (auto simp: as_def bs_def)
qed

lemma takeWhile_split:
  "drop (length (takeWhile P xs)) xs = dropWhile P xs" "take (length (takeWhile P xs)) xs = takeWhile P xs"
  by (metis dropWhile_eq_drop, metis takeWhile_eq_take)

lemma q_insert_sim:
  assumes R: "qrep h A L" and q: "A q = Some (c, es)"
  shows "(\<exists>m. q_insert q d k h = Panic m) \<or>
    (\<exists>h'. q_insert q d k h = Ok (SUCCESS, h') \<and> qrep h' (A(q \<mapsto> (c, spec_insert c d k es))) L)"
proof -
  obtain N where I: "qinv h A N L" using R by (auto simp: qrep_def)
  note Q = qinv_queue [OF I q]
  have lv: "heap_live (kh h) (pointers h L)" using qinvD [OF I] by blast
  have "unat sizeof_Qnode \<le> 2 ^ 28" by simp
  from km.alloc_cases [OF lv this] show ?thesis
  proof cases
    case 1 then show ?thesis using Q(5) by (simp add: q_insert_def qnode_alloc_def)
  next
    case (2 qn kk)
    define h0 where "h0 = h\<lparr>kh := kk, qnodes := (qnodes h)(qn \<mapsto> \<lparr>prev = 0, nxt = 0, qdata = d, qkey = k\<rparr>)\<rparr>"
    have al: "qnode_alloc d k h = Ok (qn, h0)" using 2 by (simp add: qnode_alloc_def h0_def)
    define before where "before = (\<lambda>e :: 'a \<times> u32. comp_key c (snd e) k \<le> 0)"
    define i where "i = length (takeWhile before es)"
    define as bs where "as = take i (N q)" and "bs = drop i (N q)"
    define e1 e2 where "e1 = takeWhile before es" and "e2 = dropWhile before es"
    have N: "N q = as @ bs" by (simp add: as_def bs_def)
    have len: "length (N q) = length es" using dll_length [OF Q(2)] by simp
    have i: "i \<le> length es" by (simp add: i_def length_takeWhile_le)
    have la: "length as = length e1" using len i by (simp add: as_def e1_def i_def)
    have es: "es = e1 @ e2" by (simp add: e1_def e2_def)
    have qnN: "qn \<notin> set (N q)" "qn \<notin> dom (qnodes h)" "qn \<notin> dom (queues h)" "qn \<notin> L"
      using 2 Q(6) by (auto simp: pointers_def)
    have D: "dll (qnodes h0) 0 (as @ bs) 0 (e1 @ e2)"
      by (rule dll_cong [of "qnodes h"]) (use Q(2) N es qnN in \<open>auto simp: h0_def\<close>)
    have dist: "distinct (as @ bs)" and z: "0 \<notin> set (as @ bs)" using Q N by auto
    have qq: "queues h0 q = Some \<lparr>head = hd_or (as @ bs) 0, tail = last_or (as @ bs) 0, compare = c\<rparr>"
      using Q(1) N by (simp add: h0_def)
    have fnd: "(if c \<noteq> CmpNull then of_loop (find_insertion (qnodes h0) c k (hd_or (as @ bs) 0)) else Ok 0) =
        Ok (hd_or bs 0)"
    proof (cases "c = CmpNull")
      case True
      then have "takeWhile before es = es" by (simp add: before_def)
      then have "i = length es" unfolding i_def by (rule arg_cong)
      then show ?thesis using True len by (simp add: bs_def)
    next
      case False
      have "find_insertion (qnodes h0) c k (hd_or (as @ bs) 0) = Some (Ok (hd_or bs 0))"
        using find_insertion_spec [OF D z, of c k]
        unfolding before_def [symmetric] es [symmetric] i_def [symmetric] N [symmetric] bs_def [symmetric] .
      then show ?thesis using False by simp
    qed
    let ?h' = "h0\<lparr>queues := (queues h0)(q \<mapsto> \<lparr>head = hd_or (as @ qn # bs) 0, tail = last_or (as @ qn # bs) 0, compare = c\<rparr>),
                 qnodes := link_node as qn bs d k (qnodes h0)\<rparr>"
    have new: "qnodes h0 qn = Some \<lparr>prev = 0, nxt = 0, qdata = d, qkey = k\<rparr>" by (simp add: h0_def)
    have qn': "qn \<notin> set (as @ bs)" using qnN N by simp
    note M = link_mem [OF D dist z qn' 2(4) qq new]
    have hb: "hd_or bs 0 = 0 \<longleftrightarrow> bs = []" using z by (intro hd_or_zero) auto
    have tl: "bs = [] \<Longrightarrow> last_or (as @ bs) 0 = last_or as 0" by simp
    have "q_insert q d k h = Ok (SUCCESS, ?h')"
    proof (cases bs)
      case Nil
      then have f0: "hd_or bs 0 = 0" and l0: "last_or (as @ bs) 0 = last_or as 0" by simp_all
      show ?thesis using Q(5) 2(4)
        by (simp only: q_insert_def al get_queue_def qq fnd f0 l0 M(1) [OF Nil] obind.simps deref_simps
            queue.simps prod.case if_False if_True simp_thms)
    next
      case (Cons cur bs')
      then have f0: "hd_or bs 0 = cur" "cur \<noteq> 0" using z by auto
      show ?thesis using Q(5) 2(4) f0(2)
        by (simp only: q_insert_def al get_queue_def qq fnd f0(1) M(2) [OF Cons] obind.simps deref_simps
            queue.simps prod.case if_False if_True simp_thms)
    qed
    moreover have "qinv ?h' (A(q \<mapsto> (c, e1 @ (d, k) # e2))) (N(q := as @ qn # bs)) L"
    proof (rule qinv_step [OF I q])
      show "queues ?h' = (queues h)(q \<mapsto> \<lparr>head = hd_or (as @ qn # bs) 0, tail = last_or (as @ qn # bs) 0, compare = c\<rparr>)"
        by (simp add: h0_def)
      show "dll (qnodes ?h') 0 (as @ qn # bs) 0 (e1 @ (d, k) # e2)"
        using dll_link [OF la D dist qn'] by simp
      have sub: "set as \<union> set bs \<subseteq> dom (qnodes h0)" using Q(6) N by (auto simp: h0_def)
      have dm: "dom (qnodes ?h') = insert qn (dom (qnodes h))"
        using link_dom [OF sub] by (simp add: h0_def)
      then show "dom (qnodes ?h') = (dom (qnodes h) - set (N q)) \<union> set (as @ qn # bs)"
        using Q(6) N by auto
      show "qnodes ?h' x = qnodes h x" if "x \<notin> set (N q)" "x \<notin> set (as @ qn # bs)" for x
        using that by (simp add: link_other h0_def)
      show "set (as @ qn # bs) \<inter> (pointers h L - set (N q)) = {}" using N 2(3) by auto
      have "pointers ?h' L = insert qn (pointers h L)"
        using dm Q(1) by (auto simp: pointers_def h0_def)
      then show "heap_live (kh ?h') (pointers ?h' L)" using 2(2) by (simp add: h0_def)
    qed (use dist z qn' 2(4) in auto)
    moreover have "spec_insert c d k es = e1 @ (d, k) # e2"
      by (simp add: spec_insert_def Let_def e1_def e2_def before_def)
    ultimately show ?thesis by (auto simp: qrep_def)
  qed
qed

lemma q_remove_sim:
  assumes R: "qrep h A L" and q: "A q = Some (c, es)"
  shows "es = [] \<Longrightarrow> q_remove q h = Ok (EMPTY_QUEUE, None, h)"
    "es = e # es' \<Longrightarrow> \<exists>h'. q_remove q h = Ok (SUCCESS, Some (fst e), h') \<and> qrep h' (A(q \<mapsto> (c, es'))) L"
proof -
  obtain N where I: "qinv h A N L" using R by (auto simp: qrep_def)
  show "q_remove q h = Ok (EMPTY_QUEUE, None, h)" if "es = []"
    using q_empty_rep(2) [OF I q] that qinv_queue(5) [OF I q] by (simp add: q_remove_def)
  show "\<exists>h'. q_remove q h = Ok (SUCCESS, Some (fst e), h') \<and> qrep h' (A(q \<mapsto> (c, es'))) L" if "es = e # es'"
    using delete_sim [of h A N L q c "[]" e es'] I q that by auto
qed

lemma spec_remove_split:
  assumes "spec_remove P es = Some (d, es')"
  obtains e e1 e2 where "es = e1 @ e # e2" "es' = e1 @ e2" "d = fst e" "P e"
    "e1 = takeWhile (\<lambda>e. \<not> P e) es"
proof -
  obtain e e2 where *: "dropWhile (\<lambda>e. \<not> P e) es = e # e2"
    using assms by (auto simp: spec_remove_def split: list.splits)
  have "P e" using * by (metis dropWhile_eq_Cons_conv)
  moreover have "es = takeWhile (\<lambda>e. \<not> P e) es @ e # e2" using * by (metis takeWhile_dropWhile_id)
  ultimately show thesis using that assms * by (auto simp: spec_remove_def)
qed

lemma spec_remove_None: "spec_remove P es = None \<longleftrightarrow> (\<forall>e \<in> set es. \<not> P e)"
proof -
  have "spec_remove P es = None \<longleftrightarrow> dropWhile (\<lambda>e. \<not> P e) es = []"
    by (cases "dropWhile (\<lambda>e. \<not> P e) es") (simp_all only: spec_remove_def list.case option.distinct list.distinct refl simp_thms)
  then show ?thesis by (simp only: dropWhile_eq_Nil_conv)
qed

lemma found_none:
  assumes "length as = length es" "\<forall>e \<in> set es. \<not> P e"
  shows "hd_or (drop (length (takeWhile (\<lambda>e. \<not> P e) es)) as) 0 = 0"
proof -
  have "takeWhile (\<lambda>e. \<not> P e) es = es" using assms(2) by (simp add: takeWhile_eq_all_conv)
  then have "length (takeWhile (\<lambda>e. \<not> P e) es) = length as" using assms(1) by (simp only:)
  then show ?thesis by simp
qed

lemma q_remove_by_key_sim:
  assumes R: "qrep h A L" and q: "A q = Some (c, es)"
  shows "es = [] \<Longrightarrow> q_remove_by_key q k h = Ok (EMPTY_QUEUE, None, h)"
    "es \<noteq> [] \<Longrightarrow> spec_remove (\<lambda>e. snd e = k) es = None \<Longrightarrow> q_remove_by_key q k h = Ok (NOT_FOUND, None, h)"
    "spec_remove (\<lambda>e. snd e = k) es = Some (d, es') \<Longrightarrow>
       \<exists>h'. q_remove_by_key q k h = Ok (SUCCESS, Some d, h') \<and> qrep h' (A(q \<mapsto> (c, es'))) L"
proof -
  obtain N where I: "qinv h A N L" using R by (auto simp: qrep_def)
  note Q = qinv_queue [OF I q] and E = q_empty_rep(2) [OF I q]
  note F = find_key_spec [OF Q(2,4), of k]
  have len: "length (N q) = length es" using dll_length [OF Q(2)] by simp
  show "q_remove_by_key q k h = Ok (EMPTY_QUEUE, None, h)" if "es = []"
    using E that Q(5) by (simp add: q_remove_by_key_def)
  show "q_remove_by_key q k h = Ok (NOT_FOUND, None, h)" if "es \<noteq> []" "spec_remove (\<lambda>e. snd e = k) es = None"
    using E that Q(1,5) F found_none [OF len, of "\<lambda>e. snd e = k"]
    by (simp add: q_remove_by_key_def get_queue_def spec_remove_None)
  show "\<exists>h'. q_remove_by_key q k h = Ok (SUCCESS, Some d, h') \<and> qrep h' (A(q \<mapsto> (c, es'))) L"
    if sp: "spec_remove (\<lambda>e. snd e = k) es = Some (d, es')"
  proof (rule spec_remove_split [OF sp])
    fix e e1 e2 assume s: "es = e1 @ e # e2" "es' = e1 @ e2" "d = fst e" "e1 = takeWhile (\<lambda>e. snd e \<noteq> k) es"
    have q': "A q = Some (c, e1 @ e # e2)" using q s(1) by simp
    show ?thesis
    proof (rule delete_sim [OF I q'])
      fix qn h' assume d: "hd_or (drop (length e1) (N q)) 0 = qn" "qn \<noteq> 0" "q_delete_node q qn h = Ok (SUCCESS, h')"
        "get_node qn h = Ok \<lparr>prev = last_or (take (length e1) (N q)) 0,
          nxt = hd_or (drop (Suc (length e1)) (N q)) 0, qdata = fst e, qkey = snd e\<rparr>"
        "qrep h' (A(q \<mapsto> (c, e1 @ e2))) L"
      have ne: "es \<noteq> []" using s(1) by simp
      have "q_remove_by_key q k h = Ok (SUCCESS, Some d, h')"
      proof -
        have F': "find_key (qnodes h) k (hd_or (N q) 0) = Some (Ok qn)" using F unfolding s(4) [symmetric] d(1) .
        have E': "q_empty q h = Ok False" using E ne by simp
        have "q_remove_by_key q k h = obind (get_queue q h) (\<lambda>q'.
        obind (of_loop (find_key (qnodes h) k (head q'))) (\<lambda>qn.
          if qn = 0 then Ok (NOT_FOUND, None, h)
          else obind (get_node qn h) (\<lambda>n.
          obind (q_delete_node q qn h) (\<lambda>(st, h'). Ok (st, Some (qdata n), h')))))"
          using Q(5) E' by (simp only: q_remove_by_key_def if_False obind.simps)
        also have "\<dots> = obind (of_loop (find_key (qnodes h) k (hd_or (N q) 0))) (\<lambda>qn.
          if qn = 0 then Ok (NOT_FOUND, None, h)
          else obind (get_node qn h) (\<lambda>n.
          obind (q_delete_node q qn h) (\<lambda>(st, h'). Ok (st, Some (qdata n), h'))))"
          by (simp only: get_queue_def Q(1) deref_simps obind.simps queue.simps)
        also have "\<dots> = obind (get_node qn h) (\<lambda>n.
          obind (q_delete_node q qn h) (\<lambda>(st, h'). Ok (st, Some (qdata n), h')))"
          using d(2) by (simp only: F' of_loop_simps obind.simps if_False)
        also have "\<dots> = Ok (SUCCESS, Some d, h')"
          using s(3) by (simp only: d(3,4) obind.simps prod.case qnode.simps)
        finally show ?thesis .
      qed
      then show ?thesis using d(5) s(2) by blast
    qed
  qed
qed

lemma q_remove_selected_sim:
  assumes R: "qrep h A L" and q: "A q = Some (c, es)"
  shows "es = [] \<Longrightarrow> q_remove_selected q f h = Ok (EMPTY_QUEUE, None, h)"
    "es \<noteq> [] \<Longrightarrow> spec_remove (\<lambda>e. f (fst e) = 0) es = None \<Longrightarrow> q_remove_selected q f h = Ok (NOT_FOUND, None, h)"
    "spec_remove (\<lambda>e. f (fst e) = 0) es = Some (d, es') \<Longrightarrow>
       \<exists>h'. q_remove_selected q f h = Ok (SUCCESS, Some d, h') \<and> qrep h' (A(q \<mapsto> (c, es'))) L"
proof -
  obtain N where I: "qinv h A N L" using R by (auto simp: qrep_def)
  note Q = qinv_queue [OF I q] and E = q_empty_rep(2) [OF I q]
  note F = find_selected_spec [OF Q(2,4), of f]
  have len: "length (N q) = length es" using dll_length [OF Q(2)] by simp
  show "q_remove_selected q f h = Ok (EMPTY_QUEUE, None, h)" if "es = []"
    using E that Q(5) by (simp add: q_remove_selected_def)
  show "q_remove_selected q f h = Ok (NOT_FOUND, None, h)"
    if "es \<noteq> []" "spec_remove (\<lambda>e. f (fst e) = 0) es = None"
    using E that Q(1,5) F found_none [OF len, of "\<lambda>e. f (fst e) = 0"]
    by (simp add: q_remove_selected_def get_queue_def spec_remove_None)
  show "\<exists>h'. q_remove_selected q f h = Ok (SUCCESS, Some d, h') \<and> qrep h' (A(q \<mapsto> (c, es'))) L"
    if sp: "spec_remove (\<lambda>e. f (fst e) = 0) es = Some (d, es')"
  proof (rule spec_remove_split [OF sp])
    fix e e1 e2 assume s: "es = e1 @ e # e2" "es' = e1 @ e2" "d = fst e" "e1 = takeWhile (\<lambda>e. f (fst e) \<noteq> 0) es"
    have q': "A q = Some (c, e1 @ e # e2)" using q s(1) by simp
    show ?thesis
    proof (rule delete_sim [OF I q'])
      fix qn h' assume d: "hd_or (drop (length e1) (N q)) 0 = qn" "qn \<noteq> 0" "q_delete_node q qn h = Ok (SUCCESS, h')"
        "get_node qn h = Ok \<lparr>prev = last_or (take (length e1) (N q)) 0,
          nxt = hd_or (drop (Suc (length e1)) (N q)) 0, qdata = fst e, qkey = snd e\<rparr>"
        "qrep h' (A(q \<mapsto> (c, e1 @ e2))) L"
      have ne: "es \<noteq> []" using s(1) by simp
      have "q_remove_selected q f h = Ok (SUCCESS, Some d, h')"
      proof -
        have F': "find_selected (qnodes h) f (hd_or (N q) 0) = Some (Ok qn)" using F unfolding s(4) [symmetric] d(1) .
        have E': "q_empty q h = Ok False" using E ne by simp
        have "q_remove_selected q f h = obind (get_queue q h) (\<lambda>q'.
        obind (of_loop (find_selected (qnodes h) f (head q'))) (\<lambda>qn.
          if qn = 0 then Ok (NOT_FOUND, None, h)
          else obind (get_node qn h) (\<lambda>n.
          obind (q_delete_node q qn h) (\<lambda>(st, h'). Ok (st, Some (qdata n), h')))))"
          using Q(5) E' by (simp only: q_remove_selected_def if_False obind.simps)
        also have "\<dots> = obind (of_loop (find_selected (qnodes h) f (hd_or (N q) 0))) (\<lambda>qn.
          if qn = 0 then Ok (NOT_FOUND, None, h)
          else obind (get_node qn h) (\<lambda>n.
          obind (q_delete_node q qn h) (\<lambda>(st, h'). Ok (st, Some (qdata n), h'))))"
          by (simp only: get_queue_def Q(1) deref_simps obind.simps queue.simps)
        also have "\<dots> = obind (get_node qn h) (\<lambda>n.
          obind (q_delete_node q qn h) (\<lambda>(st, h'). Ok (st, Some (qdata n), h')))"
          using d(2) by (simp only: F' of_loop_simps obind.simps if_False)
        also have "\<dots> = Ok (SUCCESS, Some d, h')"
          using s(3) by (simp only: d(3,4) obind.simps prod.case qnode.simps)
        finally show ?thesis .
      qed
      then show ?thesis using d(5) s(2) by blast
    qed
  qed
qed

lemma q_alloc_sim:
  assumes R: "qrep h A L"
  shows "(\<exists>m. q_alloc True c h = Panic m) \<or>
    (\<exists>q h'. q_alloc True c h = Ok (SUCCESS, Some q, h') \<and> q \<noteq> 0 \<and> A q = None \<and> q \<notin> pointers h L \<and>
       qrep h' (A(q \<mapsto> (c, []))) L)"
proof -
  obtain N where I: "qinv h A N L" using R by (auto simp: qrep_def)
  note J = qinvD [OF I]
  have "unat sizeof_Queue \<le> 2 ^ 28" by simp
  from km.alloc_cases [OF J(7) this] show ?thesis
  proof cases
    case 1 then show ?thesis by (simp add: q_alloc_def)
  next
    case (2 q k)
    let ?h' = "h\<lparr>kh := k, queues := (queues h)(q \<mapsto> \<lparr>head = 0, tail = 0, compare = c\<rparr>)\<rparr>"
    have q: "q \<notin> dom (queues h)" "q \<notin> dom (qnodes h)" "q \<notin> L" using 2(3) by (simp_all add: pointers_def)
    have A: "A q = None" "N q = []"
      using J(1) [of q] q(1) by (auto simp: queue_ok_def domIff split: option.splits)
    have "queue_ok ?h' ((A(q \<mapsto> (c, []))) p) p (N p)" for p
    proof (cases "p = q")
      case True then show ?thesis using A by (simp add: queue_ok_def)
    next
      case False
      then have "queue_ok ?h' (A p) p (N p)" by (intro queue_ok_frame [OF J(1)]) auto
      then show ?thesis using False by simp
    qed
    moreover have "pointers ?h' L = insert q (pointers h L)" by (auto simp: pointers_def)
    moreover have "0 \<notin> insert q (pointers h L)" using J(6) 2(4) by simp
    moreover have "dom (queues ?h') \<inter> dom (qnodes ?h') = {}" using J(4) q by simp
    moreover have "L \<inter> (dom (queues ?h') \<union> dom (qnodes ?h')) = {}" using J(5) q by simp
    ultimately have "qinv ?h' (A(q \<mapsto> (c, []))) N L"
      using J(2,3) 2(2) by (simp only: qinv_def) simp
    then show ?thesis using 2 A by (auto simp: q_alloc_def qrep_def)
  qed
qed

lemma q_dealloc_sim:
  assumes R: "qrep h A L" and q: "A q = Some (c, [])"
  shows "\<exists>h'. q_dealloc q h = Ok (SUCCESS, h') \<and> qrep h' (A(q := None)) L"
proof -
  obtain N where I: "qinv h A N L" using R by (auto simp: qrep_def)
  note J = qinvD [OF I] and Q = qinv_queue [OF I q]
  have Nq: "N q = []" using dll_length [OF Q(2)] by simp
  have qd: "q \<in> dom (queues h)" using Q(1) by auto
  then have "q \<in> pointers h L" by (simp add: pointers_def)
  from km.free_cases [OF J(7) this] obtain k where k: "kfree q (kh h) = Ok k" "heap_live k (pointers h L - {q})" .
  let ?h' = "h\<lparr>kh := k, queues := (queues h)(q := None)\<rparr>"
  have nq: "q \<notin> dom (qnodes h)" "q \<notin> L" using qd J(4,5) by (meson disjoint_iff Un_iff)+
  have "queue_ok ?h' ((A(q := None)) p) p (N p)" for p
  proof (cases "p = q")
    case True then show ?thesis using Nq by (simp add: queue_ok_def)
  next
    case False
    then have "queue_ok ?h' (A p) p (N p)" by (intro queue_ok_frame [OF J(1)]) auto
    then show ?thesis using False by simp
  qed
  moreover have P: "pointers ?h' L = pointers h L - {q}" using nq by (auto simp: pointers_def)
  moreover have "0 \<notin> pointers h L - {q}" using J(6) by simp
  moreover have "dom (queues ?h') \<inter> dom (qnodes ?h') = {}" using J(4) by auto
  moreover have "L \<inter> (dom (queues ?h') \<union> dom (qnodes ?h')) = {}" using J(5) by auto
  ultimately have "qinv ?h' (A(q := None)) N L"
    using J(2,3) k(2) by (simp only: qinv_def) simp
  then show ?thesis using k(1) Q(5) by (auto simp: q_dealloc_def que_dealloc_def qrep_def)
qed

lemma q_status_sim:
  assumes R: "qrep h A L" and q: "A q = Some (c, es)"
  shows "q_empty q h = Ok (es = [])"
    "q_peek q True h = Ok (case es of [] \<Rightarrow> (EMPTY_QUEUE, None) | e # _ \<Rightarrow> (SUCCESS, Some (snd e)))"
proof -
  obtain N where I: "qinv h A N L" using R by (auto simp: qrep_def)
  note Q = qinv_queue [OF I q]
  show e: "q_empty q h = Ok (es = [])" by (rule q_empty_rep(2) [OF I q])
  show "q_peek q True h = Ok (case es of [] \<Rightarrow> (EMPTY_QUEUE, None) | e # _ \<Rightarrow> (SUCCESS, Some (snd e)))"
  proof (cases "N q")
    case Nil
    then have "es = []" using Q(2) by simp
    then show ?thesis using e Q(5) by (simp add: q_peek_def)
  next
    case (Cons a as)
    then obtain n where "qnodes h a = Some n" "es = (qdata n, qkey n) # tl es" using Q(2) dll_fst by metis
    then show ?thesis using e Q(1,5) Cons
      by (cases es) (simp_all add: q_peek_def get_queue_def get_node_def)
  qed
qed

lemma q_get_by_key_sim:
  assumes R: "qrep h A L" and q: "A q = Some (c, es)"
  shows "q_get_by_key q k h = Ok (if es = [] then (EMPTY_QUEUE, None)
     else case spec_remove (\<lambda>e. snd e = k) es of None \<Rightarrow> (NOT_FOUND, None) | Some (d, _) \<Rightarrow> (SUCCESS, Some d))"
proof -
  obtain N where I: "qinv h A N L" using R by (auto simp: qrep_def)
  note Q = qinv_queue [OF I q] and E = q_empty_rep(2) [OF I q]
  note F = find_key_spec [OF Q(2,4), of k]
  have len: "length (N q) = length es" using dll_length [OF Q(2)] by simp
  show ?thesis
  proof (cases "es = []")
    case True then show ?thesis using E Q(5) by (simp add: q_get_by_key_def)
  next
    case ne: False
    show ?thesis
    proof (cases "spec_remove (\<lambda>e. snd e = k) es")
      case None
      then have "hd_or (drop (length (takeWhile (\<lambda>e. snd e \<noteq> k) es)) (N q)) 0 = 0"
        using found_none [OF len, of "\<lambda>e. snd e = k"] by (simp add: spec_remove_None)
      then show ?thesis using None E ne Q(1,5) F by (simp add: q_get_by_key_def get_queue_def)
    next
      case (Some r)
      then obtain d es' where r: "spec_remove (\<lambda>e. snd e = k) es = Some (d, es')" by (cases r) auto
      show ?thesis
      proof (rule spec_remove_split [OF r])
        fix e e1 e2 assume s: "es = e1 @ e # e2" "d = fst e" "e1 = takeWhile (\<lambda>e. snd e \<noteq> k) es"
        have q': "A q = Some (c, e1 @ e # e2)" using q s(1) by simp
        show ?thesis
        proof (rule delete_sim [OF I q'])
          fix qn assume d: "hd_or (drop (length e1) (N q)) 0 = qn" "qn \<noteq> 0"
            "get_node qn h = Ok \<lparr>prev = last_or (take (length e1) (N q)) 0,
              nxt = hd_or (drop (Suc (length e1)) (N q)) 0, qdata = fst e, qkey = snd e\<rparr>"
          have F': "find_key (qnodes h) k (hd_or (N q) 0) = Some (Ok qn)"
            using F unfolding s(3) [symmetric] d(1) .
          show ?thesis using E ne Q(1,5) F' d(2,3) r s(2) by (simp add: q_get_by_key_def get_queue_def)
        qed
      qed
    qed
  qed
qed

subsection \<open>Order\<close>

definition cmp_le :: "comparator \<Rightarrow> 'd \<times> u32 \<Rightarrow> 'd \<times> u32 \<Rightarrow> bool" where
  "cmp_le c e e' \<longleftrightarrow> comp_key c (snd e) (snd e') \<le> 0"

definition qsorted :: "comparator \<Rightarrow> ('d \<times> u32) list \<Rightarrow> bool" where
  "qsorted c es \<longleftrightarrow> sorted_wrt (cmp_le c) es"

lemma word_sint_neq: "a \<noteq> b \<Longrightarrow> \<not> sint a < sint b \<longleftrightarrow> sint b < sint (a :: u32)"
proof -
  assume "a \<noteq> b"
  then have "sint a \<noteq> sint b" using signed_word_eqI by blast
  then show ?thesis by auto
qed

lemma cmp_le_total: "\<not> cmp_le c e e' \<Longrightarrow> cmp_le c e' e"
  by (cases c) (auto simp: cmp_le_def comp_ascend_int_def comp_ascend_uint_def word_sint_neq split: if_splits)

lemma cmp_le_trans: "cmp_le c e e' \<Longrightarrow> cmp_le c e' e'' \<Longrightarrow> cmp_le c e e''"
  by (cases c) (auto simp: cmp_le_def comp_ascend_int_def comp_ascend_uint_def split: if_splits)

lemma spec_insert_sorted:
  assumes "qsorted c es"
  shows "qsorted c (spec_insert c d k es)"
proof -
  let ?P = "\<lambda>e. cmp_le c e (d, k)"
  have "sorted_wrt (cmp_le c) (takeWhile ?P es @ dropWhile ?P es)" using assms by (simp add: qsorted_def)
  then have s: "sorted_wrt (cmp_le c) (takeWhile ?P es)" "sorted_wrt (cmp_le c) (dropWhile ?P es)"
    by (simp_all only: sorted_wrt_append)
  have b: "cmp_le c x (d, k)" if "x \<in> set (takeWhile ?P es)" for x using that by (rule set_takeWhileD [THEN conjunct2])
  have a: "cmp_le c (d, k) y" if y: "y \<in> set (dropWhile ?P es)" for y
  proof -
    obtain z zs where z: "dropWhile ?P es = z # zs" using y by (cases "dropWhile ?P es") auto
    then have "\<not> ?P z" by (metis dropWhile_eq_Cons_conv)
    then have "cmp_le c (d, k) z" by (rule cmp_le_total)
    moreover have "y = z \<or> cmp_le c z y" using s(2) y z by auto
    ultimately show ?thesis using cmp_le_trans by blast
  qed
  have eq: "spec_insert c d k es = takeWhile ?P es @ (d, k) # dropWhile ?P es"
    by (simp add: spec_insert_def cmp_le_def Let_def)
  have t: "cmp_le c x y" if "x \<in> set (takeWhile ?P es)" "y \<in> set (dropWhile ?P es)" for x y
    using b [OF that(1)] a [OF that(2)] by (rule cmp_le_trans)
  show ?thesis unfolding qsorted_def eq sorted_wrt_mid by (intro conjI ballI s a b t)
qed

subsection \<open>The contract of a self-ordering queue\<close>

text \<open>
  What the scheduler, the clock, semaphores, locks and messages rely on: insertion ends in a
  panic or puts the datum at its place; removal takes the first datum.
\<close>

locale ordered_queue =
  fixes ins :: "u32 \<Rightarrow> 'd \<Rightarrow> u32 \<Rightarrow> 's \<Rightarrow> (status \<times> 's) outcome"
    and rem :: "u32 \<Rightarrow> 's \<Rightarrow> (status \<times> 'd option \<times> 's) outcome"
    and rep :: "'s \<Rightarrow> 'd qspec \<Rightarrow> u32 set \<Rightarrow> bool"
  assumes ins_step: "rep s A L \<Longrightarrow> A q = Some (c, es) \<Longrightarrow>
      (\<exists>m. ins q d k s = Panic m) \<or>
      (\<exists>s'. ins q d k s = Ok (SUCCESS, s') \<and> rep s' (A(q \<mapsto> (c, spec_insert c d k es))) L)"
    and rem_empty: "rep s A L \<Longrightarrow> A q = Some (c, []) \<Longrightarrow> rem q s = Ok (EMPTY_QUEUE, None, s)"
    and rem_first: "rep s A L \<Longrightarrow> A q = Some (c, e # es) \<Longrightarrow>
      \<exists>s'. rem q s = Ok (SUCCESS, Some (fst e), s') \<and> rep s' (A(q \<mapsto> (c, es))) L"
begin

lemma ins_defined: "rep s A L \<Longrightarrow> A q = Some (c, es) \<Longrightarrow> defined_outcome (ins q d k s)"
  using ins_step [of s A L q c es d k] by auto

lemma ins_Ok:
  assumes "rep s A L" "A q = Some (c, es)" "ins q d k s = Ok (st, s')"
  shows "st = SUCCESS \<and> rep s' (A(q \<mapsto> (c, spec_insert c d k es))) L"
  using ins_step [OF assms(1,2), of d k] assms(3) by auto

lemma rem_returns: "rep s A L \<Longrightarrow> A q = Some (c, es) \<Longrightarrow> \<exists>r. rem q s = Ok r"
  using rem_empty rem_first by (cases es) blast+

lemma rem_Ok:
  assumes "rep s A L" "A q = Some (c, es)" "rem q s = Ok (SUCCESS, Some d, s')"
  shows "\<exists>k es'. es = (d, k) # es' \<and> rep s' (A(q \<mapsto> (c, es'))) L"
proof (cases es)
  case Nil then show ?thesis using rem_empty assms by fastforce
next
  case (Cons e es')
  then show ?thesis using rem_first [of s A L q c e es'] assms by (cases e) auto
qed

lemma drain_first:
  assumes "rep s A L" "A q = Some (c, e # es)"
  obtains s' where "rem q s = Ok (SUCCESS, Some (fst e), s')" "rep s' (A(q \<mapsto> (c, es))) L"
  using rem_first [OF assms] by blast

end

interpretation pq: ordered_queue q_insert q_remove qrep
  by unfold_locales (fact q_insert_sim, (blast intro: q_remove_sim)+)

subsection \<open>Filling and draining a queue\<close>

fun q_insert_all :: "u32 \<Rightarrow> ('d \<times> u32) list \<Rightarrow> 'd qheap \<Rightarrow> 'd qheap outcome" where
  "q_insert_all q [] h = Ok h"
| "q_insert_all q ((d, k) # es) h = obind (q_insert q d k h) (\<lambda>(st, h'). q_insert_all q es h')"

fun q_drain :: "nat \<Rightarrow> u32 \<Rightarrow> 'd qheap \<Rightarrow> ('d list \<times> 'd qheap) outcome" where
  "q_drain 0 q h = Ok ([], h)"
| "q_drain (Suc n) q h = obind (q_remove q h) (\<lambda>(st, d, h').
     case d of None \<Rightarrow> Ok ([], h')
     | Some x \<Rightarrow> obind (q_drain n q h') (\<lambda>(xs, h''). Ok (x # xs, h'')))"

definition insert_many :: "comparator \<Rightarrow> ('d \<times> u32) list \<Rightarrow> ('d \<times> u32) list \<Rightarrow> ('d \<times> u32) list" where
  "insert_many c xs es = foldl (\<lambda>es e. spec_insert c (fst e) (snd e) es) es xs"

lemma q_insert_all_sim:
  assumes "qrep h A L" "A q = Some (c, es)" "q_insert_all q xs h = Ok h'"
  shows "qrep h' (A(q \<mapsto> (c, insert_many c xs es))) L"
  using assms
proof (induction xs arbitrary: h A es)
  case Nil
  then have "A(q \<mapsto> (c, es)) = A" by auto
  then show ?case using Nil by (simp add: insert_many_def)
next
  case (Cons e xs)
  obtain d k where e: "e = (d, k)" by (cases e)
  then obtain st h1 where h1: "q_insert q d k h = Ok (st, h1)" "q_insert_all q xs h1 = Ok h'"
    using Cons.prems(3) by auto
  have "qrep h1 (A(q \<mapsto> (c, spec_insert c d k es))) L"
    using pq.ins_Ok [OF Cons.prems(1,2) h1(1)] by blast
  from Cons.IH [OF this fun_upd_same h1(2)] show ?case
    by (simp only: fun_upd_upd insert_many_def foldl_Cons e fst_conv snd_conv)
qed

lemma q_drain_sim:
  assumes "qrep h A L" "A q = Some (c, es)" "length es \<le> n"
  shows "\<exists>h'. q_drain n q h = Ok (map fst es, h') \<and> qrep h' (A(q \<mapsto> (c, []))) L"
  using assms
proof (induction n arbitrary: h A es)
  case 0
  then have "A(q \<mapsto> (c, [])) = A" by auto
  then show ?case using 0 by auto
next
  case (Suc n)
  show ?case
  proof (cases es)
    case Nil
    then have "A(q \<mapsto> (c, [])) = A" using Suc.prems by auto
    then show ?thesis using pq.rem_empty [OF Suc.prems(1)] Suc.prems Nil by auto
  next
    case (Cons e es')
    then obtain h1 where h1: "q_remove q h = Ok (SUCCESS, Some (fst e), h1)" "qrep h1 (A(q \<mapsto> (c, es'))) L"
      using pq.drain_first Suc.prems by metis
    obtain h' where "q_drain n q h1 = Ok (map fst es', h')" "qrep h' ((A(q \<mapsto> (c, es')))(q \<mapsto> (c, []))) L"
      using Suc.IH [OF h1(2) fun_upd_same] Suc.prems(3) Cons by (auto simp del: fun_upd_apply)
    then show ?thesis using h1(1) Cons by (simp del: fun_upd_apply)
  qed
qed

lemma insert_many_null: "insert_many CmpNull xs es = es @ xs"
proof (induction xs arbitrary: es)
  case Nil then show ?case by (simp add: insert_many_def)
next
  case (Cons e xs)
  have "takeWhile (\<lambda>_. True) es = es" by simp
  then have "spec_insert CmpNull (fst e) (snd e) es = es @ [e]"
    by (simp add: spec_insert_def Let_def)
  then show ?case using Cons by (simp add: insert_many_def)
qed

lemma insert_many_sorted: "qsorted c es \<Longrightarrow> qsorted c (insert_many c xs es)"
  by (induction xs arbitrary: es) (simp_all add: insert_many_def spec_insert_sorted)

lemma mset_spec_insert: "mset (spec_insert c d k es) = add_mset (d, k) (mset es)"
proof -
  have "mset es = mset (takeWhile (\<lambda>e. comp_key c (snd e) k \<le> 0) es) + mset (dropWhile (\<lambda>e. comp_key c (snd e) k \<le> 0) es)"
    by (metis mset_append takeWhile_dropWhile_id)
  then show ?thesis by (simp add: spec_insert_def Let_def)
qed

lemma mset_insert_many: "mset (insert_many c xs es) = mset es + mset xs"
  by (induction xs arbitrary: es) (simp_all add: insert_many_def mset_spec_insert)

lemma qsorted_uint: "qsorted CmpAscendUint es \<longleftrightarrow> sorted (map snd es)"
  by (auto simp: qsorted_def sorted_map cmp_le_def comp_ascend_uint_def split: if_splits
      elim!: sorted_wrt_mono_rel [rotated])

lemma dropWhile_after:
  "qsorted c es \<Longrightarrow> y \<in> set (dropWhile (\<lambda>e. cmp_le c e x) es) \<Longrightarrow> \<not> cmp_le c y x"
proof (induction es)
  case (Cons e es)
  show ?case
  proof (cases "cmp_le c e x")
    case True then show ?thesis using Cons by (simp add: qsorted_def)
  next
    case False
    then have "y = e \<or> cmp_le c e y" using Cons.prems by (auto simp: qsorted_def)
    then show ?thesis using False cmp_le_trans by blast
  qed
qed simp

lemma filter_spec_insert:
  assumes "qsorted CmpAscendUint es"
  shows "filter (\<lambda>e. snd e = j) (spec_insert CmpAscendUint d k es) =
     filter (\<lambda>e. snd e = j) es @ (if k = j then [(d, k)] else [])"
proof -
  let ?P = "\<lambda>e. comp_key CmpAscendUint (snd e) k \<le> 0"
  have "snd y \<noteq> k" if "y \<in> set (dropWhile ?P es)" for y
    using dropWhile_after [OF assms, of y "(d, k)"] that by (auto simp: cmp_le_def comp_ascend_uint_def)
  then have "filter (\<lambda>e. snd e = k) (dropWhile ?P es) = []" by (simp add: filter_empty_conv)
  moreover have "filter (\<lambda>e. snd e = j) es = filter (\<lambda>e. snd e = j) (takeWhile ?P es) @ filter (\<lambda>e. snd e = j) (dropWhile ?P es)"
    by (metis filter_append takeWhile_dropWhile_id)
  ultimately show ?thesis by (cases "k = j") (simp_all add: spec_insert_def Let_def)
qed

lemma filter_insert_many:
  "qsorted CmpAscendUint es \<Longrightarrow> filter (\<lambda>e. snd e = j) (insert_many CmpAscendUint xs es) =
     filter (\<lambda>e. snd e = j) es @ filter (\<lambda>e. snd e = j) xs"
proof (induction xs arbitrary: es)
  case Nil then show ?case by (simp add: insert_many_def)
next
  case (Cons e xs)
  then show ?case
    using Cons.IH [OF spec_insert_sorted [OF Cons.prems, of "fst e" "snd e"]]
      filter_spec_insert [OF Cons.prems, of j "fst e" "snd e"]
    by (cases e) (simp add: insert_many_def)
qed

lemma insert_many_uint: "insert_many CmpAscendUint xs [] = sort_key snd xs"
proof -
  have "sort_key snd xs = insert_many CmpAscendUint xs []"
  proof (rule properties_for_sort_key)
    show "mset (insert_many CmpAscendUint xs []) = mset xs" by (simp add: mset_insert_many)
    show "filter (\<lambda>x. snd e = snd x) (insert_many CmpAscendUint xs []) = filter (\<lambda>x. snd e = snd x) xs" for e
      using filter_insert_many [of "[]" "snd e" xs] by (simp add: qsorted_def eq_commute)
    show "sorted (map snd (insert_many CmpAscendUint xs []))"
      using insert_many_sorted [of CmpAscendUint "[]" xs] by (simp add: qsorted_uint)
  qed
  then show ?thesis by simp
qed

subsection \<open>Properties\<close>

text \<open>A heap with one queue at \<open>0xD0000004\<close> that holds the datum 7 under the key 5.\<close>

definition demo_kheap :: kheap where
  "demo_kheap = \<lparr>kmem = (\<lambda>x. if x = 0xD0000000 then 16 else if x = 0xD0000010 then 20
       else if x = 0xD0000024 then 8156 else 0),
     start_address = 0xD0000000, end_address = 0xD0002000, max_address = 0xE0000000,
     start_node = 0xD0000024, kphys = boot_phys, mapped = []\<rparr>"

definition demo_queues :: "nat qheap" where
  "demo_queues = \<lparr>kh = demo_kheap,
     qnodes = [0xD0000014 \<mapsto> \<lparr>prev = 0, nxt = 0, qdata = 7, qkey = 5\<rparr>],
     queues = [0xD0000004 \<mapsto> \<lparr>head = 0xD0000014, tail = 0xD0000014, compare = CmpAscendUint\<rparr>]\<rparr>"

lemma demo_heap_inv: "heap_inv demo_kheap [0xD0000024] {0xD0000000, 0xD0000010}"
  by (simp add: demo_kheap_def boot_phys_ok heap_inv_def heap_shape_def coalesced_def layout_def
      block_ok_def apart_def)

lemma demo_queues_rep: "qrep demo_queues [0xD0000004 \<mapsto> (CmpAscendUint, [(7, 5)])] {}"
proof -
  let ?N = "(\<lambda>_. [])(0xD0000004 := [0xD0000014 :: u32])"
  have "heap_live demo_kheap {0xD0000004, 0xD0000014}"
    unfolding heap_live_def using demo_heap_inv by (intro exI conjI) (assumption, simp)
  then have "heap_live (kh demo_queues) (pointers demo_queues {})"
    by (simp add: demo_queues_def pointers_def insert_commute)
  moreover have "queue_ok demo_queues ([0xD0000004 \<mapsto> (CmpAscendUint, [(7, 5)])] q) q (?N q)" for q
    by (simp add: queue_ok_def demo_queues_def)
  ultimately have "qinv demo_queues [0xD0000004 \<mapsto> (CmpAscendUint, [(7, 5)])] ?N {}"
    by (simp add: qinv_def) (auto simp: demo_queues_def pointers_def)
  then show ?thesis by (auto simp: qrep_def)
qed

text \<open>
  C29: inserting into a live queue ends in a panic of the kernel heap or with SUCCESS, and then
  the queue is its old contents with the datum behind every one whose key is not greater; every
  other queue is untouched.
\<close>

theorem q_insert_correct:
  assumes "qrep h A L" "A q = Some (c, es)"
  shows "(\<exists>m. q_insert q d k h = Panic m) \<or>
    (\<exists>h'. q_insert q d k h = Ok (SUCCESS, h') \<and> qrep h' (A(q \<mapsto> (c, spec_insert c d k es))) L)"
  by (rule q_insert_sim [OF assms])

theorem q_insert_correct_witness:
  "(\<exists>m. q_insert 0xD0000004 (9::nat) 6 demo_queues = Panic m) \<or>
    (\<exists>h'. q_insert 0xD0000004 9 6 demo_queues = Ok (SUCCESS, h') \<and>
      qrep h' [0xD0000004 \<mapsto> (CmpAscendUint, [(7, 5), (9, 6)])] {})"
  using q_insert_correct [OF demo_queues_rep, of "0xD0000004" CmpAscendUint "[(7, 5)]" 9 6]
  by (simp add: spec_insert_def comp_ascend_uint_def)

text \<open>
  C30: removing from a live queue always returns; an empty queue is reported and left alone, a
  queue that is not empty gives its first datum.
\<close>

theorem q_remove_correct:
  assumes "qrep h A L" "A q = Some (c, es)"
  shows "case es of [] \<Rightarrow> q_remove q h = Ok (EMPTY_QUEUE, None, h)
    | e # es' \<Rightarrow> \<exists>h'. q_remove q h = Ok (SUCCESS, Some (fst e), h') \<and> qrep h' (A(q \<mapsto> (c, es'))) L"
  using q_remove_sim [OF assms] by (cases es) simp_all

theorem q_remove_correct_witness:
  "\<exists>h'. q_remove 0xD0000004 demo_queues = Ok (SUCCESS, Some 7, h') \<and>
     qrep h' [0xD0000004 \<mapsto> (CmpAscendUint, [])] {}"
  using q_remove_correct [OF demo_queues_rep, of "0xD0000004" CmpAscendUint "[(7, 5)]"] by simp

text \<open>
  Removal by key reports an empty queue and a missing key, and otherwise takes the first
  datum with the key and keeps the order of the others.
\<close>

theorem q_remove_by_key_correct:
  assumes "qrep h A L" "A q = Some (c, es)"
  shows "if es = [] then q_remove_by_key q k h = Ok (EMPTY_QUEUE, None, h)
    else case spec_remove (\<lambda>e. snd e = k) es of
        None \<Rightarrow> q_remove_by_key q k h = Ok (NOT_FOUND, None, h)
      | Some (d, es') \<Rightarrow> \<exists>h'. q_remove_by_key q k h = Ok (SUCCESS, Some d, h') \<and>
          qrep h' (A(q \<mapsto> (c, es'))) L"
  using q_remove_by_key_sim [OF assms] by (auto split: option.split)

theorem q_remove_by_key_correct_witness:
  "q_remove_by_key 0xD0000004 6 demo_queues = Ok (NOT_FOUND, None, demo_queues)"
  using q_remove_by_key_correct [OF demo_queues_rep, of "0xD0000004" CmpAscendUint "[(7, 5)]" 6]
  by (simp add: spec_remove_def)

text \<open>
  C3: a queue ordered by unsigned keys is a stable priority queue: what was inserted into the
  empty queue comes out sorted by key, equal keys in the order of insertion.
\<close>

theorem q_drain_sorted:
  assumes "qrep h A L" "A q = Some (CmpAscendUint, [])" "q_insert_all q xs h = Ok h1"
  shows "\<exists>h2. q_drain (length xs) q h1 = Ok (map fst (sort_key snd xs), h2) \<and>
    qrep h2 (A(q \<mapsto> (CmpAscendUint, []))) L"
proof -
  have R: "qrep h1 (A(q \<mapsto> (CmpAscendUint, sort_key snd xs))) L"
    using q_insert_all_sim [OF assms] by (simp only: insert_many_uint)
  have "length (sort_key snd xs) \<le> length xs" by simp
  from q_drain_sim [OF R fun_upd_same this] show ?thesis by (simp only: fun_upd_upd)
qed

definition empty_queues :: "nat qheap" where
  "empty_queues = demo_queues\<lparr>kh := used_heap, qnodes := Map.empty,
     queues := [0xD0000004 \<mapsto> \<lparr>head = 0, tail = 0, compare = CmpAscendUint\<rparr>]\<rparr>"

lemma empty_queues_rep: "qrep empty_queues [0xD0000004 \<mapsto> (CmpAscendUint, [])] {}"
proof -
  have "heap_live used_heap {0xD0000004}"
    unfolding heap_live_def using used_heap_inv by (intro exI conjI) (assumption, simp)
  then have "heap_live (kh empty_queues) (pointers empty_queues {})"
    by (simp add: empty_queues_def pointers_def)
  moreover have "queue_ok empty_queues ([0xD0000004 \<mapsto> (CmpAscendUint, [])] q) q []" for q
    by (simp add: queue_ok_def empty_queues_def)
  ultimately have "qinv empty_queues [0xD0000004 \<mapsto> (CmpAscendUint, [])] (\<lambda>_. []) {}"
    by (simp add: qinv_def) (auto simp: empty_queues_def pointers_def)
  then show ?thesis by (auto simp: qrep_def)
qed

lemma fill_two: "\<exists>h1. q_insert_all 0xD0000004 [(7, 5), (9, 2)] empty_queues = Ok h1"
  by (simp add: empty_queues_def demo_queues_def used_heap_def q_insert_def qnode_alloc_def kmalloc_def
      kmalloc_size_def find_node.simps kmalloc_grow_def kmalloc_split_def Let_def get_queue_def get_node_def
      upd_node_def upd_queue_def find_insertion.simps comp_ascend_uint_def set_size_def set_next_def set_prev_def)

theorem q_drain_sorted_witness:
  "\<exists>h1 h2. q_insert_all 0xD0000004 [(7, 5), (9, 2)] empty_queues = Ok h1 \<and>
     q_drain 2 0xD0000004 h1 = Ok ([9, 7], h2)"
proof -
  obtain h1 where h1: "q_insert_all 0xD0000004 [(7, 5), (9, 2)] empty_queues = Ok h1" using fill_two by blast
  have s: "map fst (sort_key snd [(7 :: nat, 5 :: u32), (9, 2)]) = [9, 7]" by simp
  have l: "length [(7 :: nat, 5 :: u32), (9, 2)] = 2" by simp
  have q: "[0xD0000004 \<mapsto> (CmpAscendUint, [] :: (nat \<times> u32) list)] (0xD0000004 :: u32) = Some (CmpAscendUint, [])" by simp
  show ?thesis using q_drain_sorted [OF empty_queues_rep q h1] h1 unfolding s l by blast
qed

text \<open>A queue without a comparison routine is first in, first out.\<close>

theorem q_drain_fifo:
  assumes "qrep h A L" "A q = Some (CmpNull, es)" "q_insert_all q xs h = Ok h1"
  shows "\<exists>h2. q_drain (length es + length xs) q h1 = Ok (map fst es @ map fst xs, h2)"
proof -
  have R: "qrep h1 (A(q \<mapsto> (CmpNull, es @ xs))) L"
    using q_insert_all_sim [OF assms] by (simp only: insert_many_null)
  have "length (es @ xs) \<le> length es + length xs" by simp
  from q_drain_sim [OF R fun_upd_same this] show ?thesis by auto
qed

text \<open>
  A queue that was just allocated is empty, at an address that was not in use, and can be
  deallocated again.
\<close>

theorem q_alloc_correct:
  assumes "qrep h A L"
  shows "(\<exists>m. q_alloc True c h = Panic m) \<or>
    (\<exists>q h'. q_alloc True c h = Ok (SUCCESS, Some q, h') \<and> q \<notin> pointers h L \<and>
       qrep h' (A(q \<mapsto> (c, []))) L \<and>
       (\<exists>h''. q_dealloc q h' = Ok (SUCCESS, h'') \<and> qrep h'' A L))"
proof -
  have "\<exists>h''. q_dealloc q h' = Ok (SUCCESS, h'') \<and> qrep h'' A L"
    if "qrep h' (A(q \<mapsto> (c, []))) L" "A q = None" for q and h' :: "'a qheap"
  proof -
    have "(A(q \<mapsto> (c, [])))(q := None) = A" using that(2) by auto
    then show ?thesis using q_dealloc_sim [OF that(1) fun_upd_same] by (simp only:)
  qed
  then show ?thesis using q_alloc_sim [OF assms, of c] by blast
qed

theorem q_alloc_correct_witness:
  "(\<exists>m. q_alloc True CmpNull demo_queues = Panic m) \<or>
    (\<exists>q h'. q_alloc True CmpNull demo_queues = Ok (SUCCESS, Some q, h') \<and> q \<noteq> 0xD0000004)"
  using q_alloc_correct [OF demo_queues_rep, of CmpNull]
  by (auto simp: pointers_def demo_queues_def)

end
