(* ===== verification/Paging.thy ===== *)
theory Paging
  imports Physical
begin

text \<open>
  Virtual memory, \<^verbatim>\<open>src/kernel/memory/paging.c\<close>. Physical memory is a function from word
  addresses to words; an access of the kernel to a virtual address walks the two-level table that
  \<open>cr3\<close> names, as the processor does (the low twelve bits of an entry are flags, bit 0 is
  \<open>present\<close>), and an address without a present translation is a \<open>Fault\<close>. Page tables are
  reached through the last entry of the directory, which names the directory itself, so a write to
  a page-table entry in the code is a write to a virtual address here too. Table look-ups are not
  cached: the \<^verbatim>\<open>invlpg\<close> instructions have no counterpart.
\<close>

subsection \<open>State\<close>

abbreviation (input) PG_PRESENT :: u32 where "PG_PRESENT \<equiv> 1"
abbreviation (input) PG_READ_WRITE :: u32 where "PG_READ_WRITE \<equiv> 2"
abbreviation (input) PG_USER :: u32 where "PG_USER \<equiv> 4"
abbreviation (input) PAGE_DIR_ADDR :: u32 where "PAGE_DIR_ADDR \<equiv> 0xFFFFF000"
abbreviation (input) PAGE_TBL_BASE :: u32 where "PAGE_TBL_BASE \<equiv> 0xFFC00000"
abbreviation (input) RESERVED_ADDR_LO :: u32 where "RESERVED_ADDR_LO \<equiv> 0x400000"
abbreviation (input) RESERVED_ADDR_HI :: u32 where "RESERVED_ADDR_HI \<equiv> 0xC0000000"
abbreviation (input) PAGE_BYTES :: u32 where "PAGE_BYTES \<equiv> 4096"

record vmem =
  pmem :: "u32 \<Rightarrow> u32"
  cr3 :: u32
  frames :: phys
  kpage_directory :: u32
  KERNEL_PAGE_DIR_INDEX :: nat
  scratch_pd :: u32
  scratch_pt :: u32
  scratch_pte :: u32

definition pd_idx :: "u32 \<Rightarrow> u32" where
  "pd_idx a = drop_bit 22 a"

definition pt_idx :: "u32 \<Rightarrow> u32" where
  "pt_idx a = drop_bit 12 a AND 0x3FF"

definition page_tbl_from_index :: "u32 \<Rightarrow> u32" where
  "page_tbl_from_index i = PAGE_TBL_BASE + 4096 * i"

subsection \<open>The walk of the processor\<close>

definition page_base :: "u32 \<Rightarrow> u32" where
  "page_base e = e AND 0xFFFFF000"

definition translate :: "vmem \<Rightarrow> u32 \<Rightarrow> u32 option" where
  "translate v a =
     (let pde = pmem v (page_base (cr3 v) + 4 * pd_idx a) in
      if pde AND PG_PRESENT = 0 then None
      else let pte = pmem v (page_base pde + 4 * pt_idx a) in
        if pte AND PG_PRESENT = 0 then None
        else Some (page_base pte + (a AND 0xFFF)))"

text \<open>Accesses to aligned words.\<close>

definition vread :: "u32 \<Rightarrow> vmem \<Rightarrow> u32 outcome" where
  "vread a v = obind (deref (translate v a)) (\<lambda>p. Ok (pmem v p))"

definition vwrite :: "u32 \<Rightarrow> u32 \<Rightarrow> vmem \<Rightarrow> vmem outcome" where
  "vwrite a x v = obind (deref (translate v a)) (\<lambda>p. Ok (v\<lparr>pmem := (pmem v)(p := x)\<rparr>))"

text \<open>\<^verbatim>\<open>_kmemclr\<close> and \<^verbatim>\<open>_kmemcpy\<close> on a page, word by word.\<close>

definition clear_page_words :: "u32 \<Rightarrow> vmem \<Rightarrow> vmem outcome" where
  "clear_page_words a = ofor 0 1024 (\<lambda>i. vwrite (a + 4 * of_nat i) 0)"

definition copy_page_words :: "u32 \<Rightarrow> u32 \<Rightarrow> vmem \<Rightarrow> vmem outcome" where
  "copy_page_words d s = ofor 0 1024 (\<lambda>i v.
     obind (vread (s + 4 * of_nat i) v) (\<lambda>x. vwrite (d + 4 * of_nat i) x v))"

subsection \<open>Operations\<close>

definition virt_switch_page_directory :: "u32 \<Rightarrow> vmem \<Rightarrow> vmem" where
  "virt_switch_page_directory pd v = v\<lparr>cr3 := pd\<rparr>"

definition virt_get_phys_addr :: "u32 \<Rightarrow> vmem \<Rightarrow> u32 outcome" where
  "virt_get_phys_addr a v =
     (let pdi = pd_idx a; pti = pt_idx a in
      obind (vread (PAGE_DIR_ADDR + 4 * pdi) v) (\<lambda>pde.
      if pde = 0 then Ok 0xFFFFFFFF
      else obind (vread (page_tbl_from_index pdi + 4 * pti) v) (\<lambda>pte.
        if pte = 0 then Ok 0xFFFFFFFF
        else Ok ((pte AND NOT 0xFFF) + (a AND 0xFFF)))))"

definition take_frame :: "vmem \<Rightarrow> (u32 \<times> vmem) outcome" where
  "take_frame v = obind (phys_get_free_4k (frames v)) (\<lambda>(pg, ph). Ok (pg, v\<lparr>frames := ph\<rparr>))"

definition free_frame :: "u32 \<Rightarrow> vmem \<Rightarrow> vmem" where
  "free_frame pa v = v\<lparr>frames := phys_unset_bit pa (frames v)\<rparr>"

definition virt_map_page :: "u32 \<Rightarrow> u32 \<Rightarrow> u32 \<Rightarrow> vmem \<Rightarrow> vmem outcome" where
  "virt_map_page pa va flags v =
     (let pdi = pd_idx va; pti = pt_idx va; pt = page_tbl_from_index pdi in
      obind (vread (PAGE_DIR_ADDR + 4 * pdi) v) (\<lambda>pde.
      obind (if pde AND PG_PRESENT = 0
             then obind (take_frame v) (\<lambda>(pg, v1).
                  obind (vwrite (PAGE_DIR_ADDR + 4 * pdi) (pg OR PG_READ_WRITE OR PG_PRESENT) v1) (\<lambda>v2.
                    clear_page_words pt v2))
             else Ok v) (\<lambda>v3.
      obind (vread (pt + 4 * pti) v3) (\<lambda>pte.
      if pte \<noteq> 0 then Panic ''Paging: A page has already been mapped here!''
      else vwrite (pt + 4 * pti) (pa OR (flags AND 0xFFF) OR PG_PRESENT) v3))))"

text \<open>The loops that look for an entry in use in a page table, up to an index that is not 1024.\<close>

fun table_in_use :: "(u32 \<Rightarrow> bool) \<Rightarrow> u32 \<Rightarrow> nat list \<Rightarrow> vmem \<Rightarrow> bool outcome" where
  "table_in_use P pt [] v = Ok False"
| "table_in_use P pt (i # is) v =
     obind (vread (pt + 4 * of_nat i) v) (\<lambda>e. if P e then Ok True else table_in_use P pt is v)"

definition virt_clear_page :: "u32 \<Rightarrow> vmem \<Rightarrow> vmem outcome" where
  "virt_clear_page va v =
     (if (va < ONE_MEGABYTE \<or> va \<ge> RESERVED_ADDR_HI) \<and> va \<noteq> scratch_pd v \<and> va \<noteq> scratch_pt v \<and> va \<noteq> scratch_pte v
      then Panic ''Clear Page: Tried to free a reserved address!''
      else let pdi = pd_idx va; pti = pt_idx va; pt = page_tbl_from_index pdi in
      obind (vread (PAGE_DIR_ADDR + 4 * pdi) v) (\<lambda>pde.
      if pde AND PG_PRESENT = 0 then Ok v
      else obind (vread (pt + 4 * pti) v) (\<lambda>pte.
        if pte \<noteq> 0 then
          obind (vwrite (pt + 4 * pti) 0 v) (\<lambda>v1.
          obind (table_in_use (\<lambda>e. e \<noteq> 0) pt [0..<1024] v1) (\<lambda>used.
            if used then Ok v1 else vwrite (PAGE_DIR_ADDR + 4 * pdi) 0 v1))
        else Ok v)))"

definition virt_unmap_page :: "u32 \<Rightarrow> vmem \<Rightarrow> vmem outcome" where
  "virt_unmap_page va v =
     (if va < RESERVED_ADDR_LO \<or> va \<ge> RESERVED_ADDR_HI
      then Panic ''Unmap Page: Tried to free a reserved address!''
      else let pdi = pd_idx va; pti = pt_idx va; pt = page_tbl_from_index pdi in
      obind (vread (PAGE_DIR_ADDR + 4 * pdi) v) (\<lambda>pde.
      if pde AND PG_PRESENT = 0 then Ok v
      else obind (vread (pt + 4 * pti) v) (\<lambda>pte.
        let v1 = (if pte AND PG_PRESENT > 0 then free_frame pte v else v) in
        obind (vwrite (pt + 4 * pti) 0 v1) (\<lambda>v2.
        obind (table_in_use (\<lambda>e. e AND PG_PRESENT > 0) pt [0..<1024] v2) (\<lambda>used.
          if used then Ok v2
          else obind (vread (PAGE_DIR_ADDR + 4 * pdi) v2) (\<lambda>pde2.
            vwrite (PAGE_DIR_ADDR + 4 * pdi) 0 (free_frame pde2 v2)))))))"

definition virt_reset_page_directory :: "vmem \<Rightarrow> vmem outcome" where
  "virt_reset_page_directory =
     ofor 0 (unat (RESERVED_ADDR_HI - RESERVED_ADDR_LO) div PAGE_SIZE)
       (\<lambda>i. virt_unmap_page (RESERVED_ADDR_LO + of_nat i * PAGE_BYTES))"

definition virt_dealloc_page_directory :: "vmem \<Rightarrow> vmem outcome" where
  "virt_dealloc_page_directory v =
     obind (virt_reset_page_directory v) (\<lambda>v1.
     obind (vread (PAGE_DIR_ADDR + 4 * 1023) v1) (\<lambda>e. Ok (free_frame e v1)))"

text \<open>
  \<^verbatim>\<open>__virt_clone_directory\<close>: one user page, one page table, the loop over the user part of
  the directory (which carries the running \<open>address\<close>), and the whole routine.
\<close>

definition clone_page :: "u32 \<Rightarrow> nat \<Rightarrow> u32 \<times> vmem \<Rightarrow> (u32 \<times> vmem) outcome" where
  "clone_page kernel_pt j = (\<lambda>(address, v).
     obind (vread (kernel_pt + 4 * of_nat j) v) (\<lambda>e.
     if e AND PG_PRESENT > 0 then
       obind (virt_clear_page (scratch_pte v) v) (\<lambda>v1.
       obind (take_frame v1) (\<lambda>(pg, v2).
       obind (virt_map_page pg (scratch_pte v) PG_READ_WRITE v2) (\<lambda>v3.
       obind (clear_page_words (scratch_pte v) v3) (\<lambda>v4.
       obind (vread (kernel_pt + 4 * of_nat j) v4) (\<lambda>e'.
       obind (vwrite (scratch_pt v + 4 * of_nat j) (pg OR (e' AND 0xFFF)) v4) (\<lambda>v5.
       obind (copy_page_words (scratch_pte v) address v5) (\<lambda>v6. Ok (address + PAGE_BYTES, v6))))))))
     else Ok (address + PAGE_BYTES, v)))"

definition clone_table :: "nat \<Rightarrow> u32 \<times> vmem \<Rightarrow> (u32 \<times> vmem) outcome" where
  "clone_table dir_index = (\<lambda>(address, v).
     obind (vread (PAGE_DIR_ADDR + 4 * of_nat dir_index) v) (\<lambda>pde.
     if pde AND PG_PRESENT > 0 then
       obind (virt_clear_page (scratch_pt v) v) (\<lambda>v1.
       obind (take_frame v1) (\<lambda>(pg, v2).
       obind (virt_map_page pg (scratch_pt v) PG_READ_WRITE v2) (\<lambda>v3.
       obind (clear_page_words (scratch_pt v) v3) (\<lambda>v4.
       obind (vread (PAGE_DIR_ADDR + 4 * of_nat dir_index) v4) (\<lambda>pde'.
       obind (vwrite (scratch_pd v + 4 * of_nat dir_index) (pg OR (pde' AND 0xFFF)) v4) (\<lambda>v5.
         ofor 0 1024 (clone_page (page_tbl_from_index (of_nat dir_index))) (address, v5)))))))
     else Ok (address + PAGE_BYTES * 1024, v)))"

definition virt_clone_directory :: "vmem \<Rightarrow> (u32 \<times> vmem) outcome" where
  "virt_clone_directory v0 =
     obind (virt_clear_page (scratch_pd v0) v0) (\<lambda>v1.
     obind (virt_clear_page (scratch_pt v0) v1) (\<lambda>v2.
     obind (virt_clear_page (scratch_pte v0) v2) (\<lambda>v3.
     obind (take_frame v3) (\<lambda>(phys_pd, v4).
     obind (virt_map_page phys_pd (scratch_pd v0) PG_READ_WRITE v4) (\<lambda>v5.
     obind (clear_page_words (scratch_pd v0) v5) (\<lambda>v6.
     obind (vread PAGE_DIR_ADDR v6) (\<lambda>e0.
     obind (vwrite (scratch_pd v0) e0 v6) (\<lambda>v7.
     obind (ofor (KERNEL_PAGE_DIR_INDEX v0) 1023 (\<lambda>i v.
        obind (vread (PAGE_DIR_ADDR + 4 * of_nat i) v) (\<lambda>e.
          vwrite (scratch_pd v0 + 4 * of_nat i) e v)) v7) (\<lambda>v8.
     obind (ofor (unat (pd_idx RESERVED_ADDR_LO)) (KERNEL_PAGE_DIR_INDEX v0) clone_table
        (RESERVED_ADDR_LO, v8)) (\<lambda>(_, v9).
     obind (vwrite (scratch_pd v0 + 4 * 1023) (phys_pd OR PG_READ_WRITE OR PG_PRESENT) v9) (\<lambda>v10.
     obind (virt_clear_page (scratch_pd v0) v10) (\<lambda>v11.
     obind (virt_clear_page (scratch_pt v0) v11) (\<lambda>v12.
     obind (virt_clear_page (scratch_pte v0) v12) (\<lambda>v13. Ok (phys_pd, v13)))))))))))))))"

text \<open>
  \<^verbatim>\<open>__virt_initialize_paging\<close> runs under the boot loader's identity mapping, so its
  accesses are to physical addresses. The kernel's size is an input.
\<close>

abbreviation (input) KERNEL_LINK_ADDR :: u32 where "KERNEL_LINK_ADDR \<equiv> 0xC0100000"

definition fill_table :: "u32 \<Rightarrow> nat \<Rightarrow> nat \<Rightarrow> u32 \<Rightarrow> (u32 \<Rightarrow> u32) \<Rightarrow> (u32 \<Rightarrow> u32)" where
  "fill_table t i n address m =
     foldl (\<lambda>m j. m(t + 4 * of_nat j := (address + PAGE_BYTES * of_nat (j - i)) OR 3)) m [i..<n]"

definition zero_table :: "u32 \<Rightarrow> (u32 \<Rightarrow> u32) \<Rightarrow> (u32 \<Rightarrow> u32)" where
  "zero_table t m = foldl (\<lambda>m j. m(t + 4 * of_nat j := 0)) m [0..<1024]"

definition virt_initialize_paging :: "u32 \<Rightarrow> (u32 \<Rightarrow> u32) \<Rightarrow> phys \<Rightarrow> vmem outcome" where
  "virt_initialize_paging kernel_sz m ph =
     obind (phys_get_free_4k ph) (\<lambda>(kpd, ph1).
     obind (phys_get_free_4k ph1) (\<lambda>(first, ph2).
     obind (phys_get_free_4k ph2) (\<lambda>(ktab, ph3).
       let m1 = zero_table ktab (zero_table first (zero_table kpd m));
           m2 = fill_table first 0 256 0 m1;
           pdi = KERNEL_LINK_ADDR div (4096 * 1024);
           tbl_start = drop_bit 12 KERNEL_LINK_ADDR mod 4096;
           tbl_end = drop_bit 12 (KERNEL_LINK_ADDR + kernel_sz) mod 4096 + 1;
           (m3, ph4) =
             (if pdi \<noteq> 0
              then ((fill_table ktab (unat tbl_start) (unat tbl_end) KERNEL_LOAD_ADDR m2)
                      (kpd + 4 * pdi := ktab OR 3), ph3)
              else (fill_table first (unat tbl_start) (unat (tbl_end - 1)) KERNEL_LOAD_ADDR m2,
                    phys_unset_bit ktab ph3));
           m4 = m3(kpd := first OR 3, kpd + 4 * 1023 := kpd OR 3);
           pd = ((KERNEL_LINK_ADDR + kernel_sz) AND 0xFFFFF000) + 2 * PAGE_BYTES;
           pt = pd + PAGE_BYTES
       in Ok \<lparr>pmem = m4, cr3 = kpd, frames = ph4, kpage_directory = kpd, KERNEL_PAGE_DIR_INDEX = unat pdi,
              scratch_pd = pd, scratch_pt = pt, scratch_pte = pt + PAGE_BYTES\<rparr>)))"

text \<open>
  The page-fault handler: a supervisor access to a missing page of the kernel heap copies the
  heap's directory entries from the kernel's directory; every other fault is a panic.
\<close>

definition isr_page_fault :: "u32 \<Rightarrow> u32 \<Rightarrow> u32 \<Rightarrow> vmem \<Rightarrow> vmem outcome" where
  "isr_page_fault code cr2 current_pd v0 =
     (if (code = 0 \<or> code = 2) \<and> cr2 \<ge> 0xD0000000 \<and> cr2 \<le> 0xE0000000 then
        let v1 = virt_switch_page_directory (kpage_directory v0) v0 in
        obind (virt_clear_page (scratch_pd v0) v1) (\<lambda>v2.
        obind (virt_map_page current_pd (scratch_pd v0) PG_READ_WRITE v2) (\<lambda>v3.
        obind (ofor (unat (pd_idx 0xD0000000)) (unat (pd_idx 0xE0000000)) (\<lambda>i v.
           obind (vread (PAGE_DIR_ADDR + 4 * of_nat i) v) (\<lambda>e.
             vwrite (scratch_pd v0 + 4 * of_nat i) e v)) v3) (\<lambda>v4.
        obind (virt_clear_page (scratch_pd v0) v4) (\<lambda>v5.
          Ok (virt_switch_page_directory current_pd v5)))))
      else Panic ''Paging: Page fault handling not fully implemented!'')"

subsection \<open>The recursive directory entry\<close>

definition wf_vm :: "vmem \<Rightarrow> bool" where
  "wf_vm v \<longleftrightarrow> cr3 v AND 0xFFF = 0 \<and> pmem v (cr3 v + 4 * 1023) = cr3 v OR 3"

lemma mask_consts:
  "(0xFFF :: u32) = mask 12" "(0x3FF :: u32) = mask 10" "(0xFFFFF000 :: u32) = NOT (mask 12)"
  by code_simp+

lemma page_base_split: "page_base e + (e AND 0xFFF) = e"
proof -
  have "page_base e + (e AND 0xFFF) = page_base e OR (e AND 0xFFF)"
    unfolding page_base_def mask_consts
    by (rule disjunctive_add_eq_or, rule bit_eqI) (auto simp: bit_simps)
  also have "\<dots> = e" unfolding page_base_def mask_consts
    by (rule bit_eqI) (auto simp: bit_simps)
  finally show ?thesis .
qed

lemma page_base_aligned: "e AND 0xFFF = 0 \<Longrightarrow> page_base e = e"
  using page_base_split [of e] by simp

lemma page_base_or3: "e AND 0xFFF = 0 \<Longrightarrow> page_base (e OR 3) = e"
proof -
  assume e: "e AND 0xFFF = 0"
  have z: "(3 :: u32) AND 0xFFFFF000 = 0" by code_simp
  have "page_base (e OR 3) = (e AND 0xFFFFF000) OR (3 AND 0xFFFFF000)"
    unfolding page_base_def by (rule bit.conj_disj_distrib2)
  also have "\<dots> = page_base e" unfolding z page_base_def by (rule or.right_neutral)
  finally show ?thesis using page_base_aligned [OF e] by simp
qed

lemma or3_present: "(e OR 3) AND (1 :: u32) \<noteq> 0"
proof -
  have "bit ((e OR 3) AND 1 :: u32) 0" by (simp add: bit_simps)
  then show ?thesis by (metis bit_0_eq bot_apply bot_bool_def)
qed

lemma dir_addr_idx:
  assumes "unat i < 1024"
  shows "pd_idx (PAGE_DIR_ADDR + 4 * i) = 1023" "pt_idx (PAGE_DIR_ADDR + 4 * i) = 1023"
    "(PAGE_DIR_ADDR + 4 * i) AND 0xFFF = 4 * i"
proof -
  have i4: "unat (4 * i) = 4 * unat i" using assms by (simp add: unat_mult_lem [THEN iffD1])
  then have u: "unat (PAGE_DIR_ADDR + 4 * i) = 4294963200 + 4 * unat i"
    using assms by (subst unat_add_no_wrap) auto
  have "(4294963200 + 4 * unat i) div 4194304 = 1023" using assms by (intro div_nat_eqI) auto
  then show "pd_idx (PAGE_DIR_ADDR + 4 * i) = 1023"
    by (simp only: pd_idx_def word_unat_eq_iff unat_div_mod u) simp
  have "(4294963200 + 4 * unat i) div 4096 = 1048575" using assms by (intro div_nat_eqI) auto
  then show "pt_idx (PAGE_DIR_ADDR + 4 * i) = 1023"
    by (simp only: pt_idx_def mask_consts(2) word_unat_eq_iff unat_div_mod u) (simp add: mask_eq_exp_minus_1)
  have e: "4294963200 + 4 * unat i = 4 * unat i + 1048575 * 4096" by simp
  have "(4294963200 + 4 * unat i) mod 4096 = 4 * unat i" unfolding e mod_mult_self1 using assms by simp
  then show "(PAGE_DIR_ADDR + 4 * i) AND 0xFFF = 4 * i"
    by (simp only: mask_consts(1) word_unat_eq_iff unat_div_mod u i4) simp
qed

lemma tbl_addr_nat:
  assumes "n < 1024" "j < 1024"
  shows "(4290772992 + 4096 * n + 4 * j) div 4194304 = (1023 :: nat)"
    "(4290772992 + 4096 * n + 4 * j) div 4096 mod 1024 = (n :: nat)"
    "(4290772992 + 4096 * n + 4 * j) mod 4096 = 4 * (j :: nat)"
proof -
  show "(4290772992 + 4096 * n + 4 * j) div 4194304 = (1023 :: nat)"
    using assms by (intro div_nat_eqI) auto
  have e: "4290772992 + 4096 * n + 4 * j = 4 * j + (1047552 + n) * 4096" by simp
  show "(4290772992 + 4096 * n + 4 * j) mod 4096 = 4 * (j :: nat)"
    unfolding e mod_mult_self1 using assms by simp
  have d: "(4 * j + (1047552 + n) * 4096) div 4096 = 1047552 + n"
    using assms by (intro div_nat_eqI) auto
  have f: "1047552 + n = n + 1023 * 1024" by simp
  show "(4290772992 + 4096 * n + 4 * j) div 4096 mod 1024 = (n :: nat)"
    unfolding e d unfolding f mod_mult_self1 using assms by simp
qed

lemma tbl_addr_idx:
  assumes "unat i < 1024" "unat j < 1024"
  shows "pd_idx (page_tbl_from_index i + 4 * j) = 1023" "pt_idx (page_tbl_from_index i + 4 * j) = i"
    "(page_tbl_from_index i + 4 * j) AND 0xFFF = 4 * j"
proof -
  have j4: "unat (4 * j) = 4 * unat j" using assms by (simp add: unat_mult_lem [THEN iffD1])
  have i4: "unat (4096 * i) = 4096 * unat i" using assms by (simp add: unat_mult_lem [THEN iffD1])
  then have "unat (page_tbl_from_index i) = 4290772992 + 4096 * unat i"
    unfolding page_tbl_from_index_def using assms by (subst unat_add_no_wrap) auto
  then have u: "unat (page_tbl_from_index i + 4 * j) = 4290772992 + 4096 * unat i + 4 * unat j"
    using assms j4 by (subst unat_add_no_wrap) auto
  show "pd_idx (page_tbl_from_index i + 4 * j) = 1023"
    using tbl_addr_nat(1) [OF assms] by (simp only: pd_idx_def word_unat_eq_iff unat_div_mod u) simp
  show "pt_idx (page_tbl_from_index i + 4 * j) = i"
    using tbl_addr_nat(2) [OF assms] by (simp only: pt_idx_def mask_consts(2) word_unat_eq_iff unat_div_mod u) simp
  show "(page_tbl_from_index i + 4 * j) AND 0xFFF = 4 * j"
    using tbl_addr_nat(3) [OF assms] by (simp only: mask_consts(1) word_unat_eq_iff unat_div_mod u j4) simp
qed

lemma idx_bounds: "unat (pd_idx a) < 1024" "unat (pt_idx a) < 1024"
proof -
  show "unat (pd_idx a) < 1024"
    unfolding pd_idx_def unat_div_mod using unat_u32_bound [of a] by (simp add: div_less_iff_less_mult)
  show "unat (pt_idx a) < 1024"
    unfolding pt_idx_def mask_consts(2) unat_div_mod by simp
qed

lemma unat_4_times: "unat i < 1024 \<Longrightarrow> unat (4 * i :: u32) = 4 * unat i"
  by (simp add: unat_mult_lem [THEN iffD1])

lemma aligned_unat: "p AND 0xFFF = (0 :: u32) \<longleftrightarrow> unat p mod 4096 = 0"
  by (simp only: mask_consts(1) word_unat_eq_iff unat_div_mod) simp

lemma frame_unat:
  assumes "p AND 0xFFF = (0 :: u32)" "unat i < 1024"
  shows "unat (p + 4 * i) = unat p + 4 * unat i"
proof -
  have "unat p mod 4096 = 0" using assms(1) aligned_unat by blast
  moreover have "unat p < 4294967296" by (rule unat_u32_bound)
  ultimately have "unat p + 4 * unat i < 2 ^ 32" using assms(2)
    by (auto elim!: dvdE simp flip: dvd_eq_mod_eq_0)
  then show ?thesis using unat_4_times [OF assms(2)] by (simp add: unat_add_no_wrap)
qed

lemma frame_nat:
  assumes "p mod 4096 = 0" "q mod 4096 = 0" "i < 1024" "j < 1024" "p + 4 * i = q + 4 * (j :: nat)"
  shows "p = q" "i = j"
proof -
  obtain k l where k: "p = k * 4096" "q = l * 4096"
    using assms(1,2) by (metis add.right_neutral div_mult_mod_eq)
  have "k = (4 * i + k * 4096) div 4096" using assms(3) by simp
  also have "4 * i + k * 4096 = 4 * j + l * 4096" using assms(5) k by simp
  also have "\<dots> div 4096 = l" using assms(4) by simp
  finally show "p = q" using k by simp
  then show "i = j" using assms(5) by simp
qed

lemma frame_addr_neq:
  assumes "p AND 0xFFF = (0 :: u32)" "q AND 0xFFF = 0" "unat i < 1024" "unat j < 1024" "p \<noteq> q \<or> i \<noteq> j"
  shows "p + 4 * i \<noteq> q + 4 * j"
proof
  assume "p + 4 * i = q + 4 * j"
  then have e: "unat p + 4 * unat i = unat q + 4 * unat j"
    using frame_unat assms by metis
  have al: "unat p mod 4096 = 0" "unat q mod 4096 = 0" using assms aligned_unat by blast+
  have "unat p = unat q" "unat i = unat j"
    by (rule frame_nat(1) [OF al assms(3,4) e], rule frame_nat(2) [OF al assms(3,4) e])
  then show False using assms(5) by (simp add: word_unat_eq_iff)
qed

lemma page_base_masked: "page_base e AND 0xFFF = 0"
  unfolding page_base_def mask_consts by (rule bit_eqI) (auto simp: bit_simps)

lemma translate_dir:
  assumes "wf_vm v" "unat i < 1024"
  shows "translate v (PAGE_DIR_ADDR + 4 * i) = Some (cr3 v + 4 * i)"
proof -
  have c: "cr3 v AND 0xFFF = 0" and r: "pmem v (cr3 v + 4 * 1023) = cr3 v OR 3"
    using assms(1) by (auto simp: wf_vm_def)
  show ?thesis
    unfolding translate_def Let_def dir_addr_idx [OF assms(2)] page_base_aligned [OF c] r
      page_base_or3 [OF c]
    using or3_present by (simp only: if_False) 
qed

lemma translate_tbl:
  assumes "wf_vm v" "unat i < 1024" "unat j < 1024" "pmem v (cr3 v + 4 * i) AND 1 \<noteq> 0"
  shows "translate v (page_tbl_from_index i + 4 * j) = Some (page_base (pmem v (cr3 v + 4 * i)) + 4 * j)"
proof -
  have c: "cr3 v AND 0xFFF = 0" and r: "pmem v (cr3 v + 4 * 1023) = cr3 v OR 3"
    using assms(1) by (auto simp: wf_vm_def)
  show ?thesis
    unfolding translate_def Let_def tbl_addr_idx [OF assms(2,3)] page_base_aligned [OF c] r
      page_base_or3 [OF c]
    using or3_present assms(4) by (simp only: if_False)
qed

lemma vread_dir: "wf_vm v \<Longrightarrow> unat i < 1024 \<Longrightarrow> vread (PAGE_DIR_ADDR + 4 * i) v = Ok (pmem v (cr3 v + 4 * i))"
  unfolding vread_def by (simp only: translate_dir deref_simps obind.simps)

lemma vwrite_dir: "wf_vm v \<Longrightarrow> unat i < 1024 \<Longrightarrow>
    vwrite (PAGE_DIR_ADDR + 4 * i) x v = Ok (v\<lparr>pmem := (pmem v)(cr3 v + 4 * i := x)\<rparr>)"
  unfolding vwrite_def by (simp only: translate_dir deref_simps obind.simps)

lemma vread_tbl: "wf_vm v \<Longrightarrow> unat i < 1024 \<Longrightarrow> unat j < 1024 \<Longrightarrow> pmem v (cr3 v + 4 * i) AND 1 \<noteq> 0 \<Longrightarrow>
    vread (page_tbl_from_index i + 4 * j) v = Ok (pmem v (page_base (pmem v (cr3 v + 4 * i)) + 4 * j))"
  unfolding vread_def by (subst translate_tbl) simp_all

lemma vwrite_tbl: "wf_vm v \<Longrightarrow> unat i < 1024 \<Longrightarrow> unat j < 1024 \<Longrightarrow> pmem v (cr3 v + 4 * i) AND 1 \<noteq> 0 \<Longrightarrow>
    vwrite (page_tbl_from_index i + 4 * j) x v =
      Ok (v\<lparr>pmem := (pmem v)(page_base (pmem v (cr3 v + 4 * i)) + 4 * j := x)\<rparr>)"
  unfolding vwrite_def by (subst translate_tbl) simp_all

text \<open>The page tables of the loaded directory are different frames.\<close>

definition dir_entry :: "vmem \<Rightarrow> u32 \<Rightarrow> u32" where
  "dir_entry v i = pmem v (cr3 v + 4 * i)"

definition tables_distinct :: "vmem \<Rightarrow> bool" where
  "tables_distinct v \<longleftrightarrow>
     (\<forall>i j. unat i < 1024 \<longrightarrow> unat j < 1024 \<longrightarrow> i \<noteq> j \<longrightarrow> dir_entry v i AND 1 \<noteq> 0 \<longrightarrow> dir_entry v j AND 1 \<noteq> 0 \<longrightarrow>
        page_base (dir_entry v i) \<noteq> page_base (dir_entry v j))"

lemma tables_distinctD:
  "tables_distinct v \<Longrightarrow> unat i < 1024 \<Longrightarrow> unat j < 1024 \<Longrightarrow> i \<noteq> j \<Longrightarrow> dir_entry v i AND 1 \<noteq> 0 \<Longrightarrow>
    dir_entry v j AND 1 \<noteq> 0 \<Longrightarrow> page_base (dir_entry v i) \<noteq> page_base (dir_entry v j)"
  by (simp add: tables_distinct_def)

lemma translate_entry:
  assumes "wf_vm v"
  shows "translate v a = (if dir_entry v (pd_idx a) AND 1 = 0 then None
     else let pte = pmem v (page_base (dir_entry v (pd_idx a)) + 4 * pt_idx a) in
       if pte AND 1 = 0 then None else Some (page_base pte + (a AND 0xFFF)))"
  using assms page_base_aligned [of "cr3 v"] by (simp add: translate_def Let_def wf_vm_def dir_entry_def)

text \<open>Writing one page-table entry changes the translation of that page only.\<close>

lemma write_entry:
  fixes x :: u32
  assumes wf: "wf_vm v" and td: "tables_distinct v" and p: "dir_entry v (pd_idx a) AND 1 \<noteq> 0"
    and low: "pd_idx a \<noteq> 1023"
  defines "v' \<equiv> v\<lparr>pmem := (pmem v)(page_base (dir_entry v (pd_idx a)) + 4 * pt_idx a := x)\<rparr>"
  shows "wf_vm v'" "\<And>i. unat i < 1024 \<Longrightarrow> dir_entry v' i = dir_entry v i"
    "translate v' a = (if x AND 1 = 0 then None else Some (page_base x + (a AND 0xFFF)))"
    "\<And>b. pd_idx b \<noteq> pd_idx a \<or> pt_idx b \<noteq> pt_idx a \<Longrightarrow> translate v' b = translate v b"
proof -
  let ?t = "page_base (dir_entry v (pd_idx a))"
  have c: "cr3 v AND 0xFFF = 0" "cr3 v' = cr3 v" using wf by (auto simp: wf_vm_def v'_def)
  have d1023: "dir_entry v 1023 = cr3 v OR 3" using wf by (simp add: wf_vm_def dir_entry_def)
  have "unat (1023 :: u32) < 1024" by simp
  then have "?t \<noteq> page_base (dir_entry v 1023)"
    using tables_distinctD [OF td idx_bounds(1) _ low p] or3_present [of "cr3 v"] d1023 by simp
  then have tc: "?t \<noteq> cr3 v" unfolding d1023 page_base_or3 [OF c(1)] .
  have de: "dir_entry v' i = dir_entry v i" if "unat i < 1024" for i
  proof -
    have "cr3 v + 4 * i \<noteq> ?t + 4 * pt_idx a"
      using tc that idx_bounds(2) by (intro frame_addr_neq c(1) page_base_masked) auto
    then show ?thesis by (simp add: dir_entry_def v'_def)
  qed
  then show "unat i < 1024 \<Longrightarrow> dir_entry v' i = dir_entry v i" for i .
  have "dir_entry v' 1023 = cr3 v OR 3" using de [of 1023] d1023 by simp
  then show wf': "wf_vm v'" using c by (simp add: wf_vm_def dir_entry_def)
  show "translate v' a = (if x AND 1 = 0 then None else Some (page_base x + (a AND 0xFFF)))"
    using p by (simp add: translate_entry [OF wf'] de [OF idx_bounds(1)] Let_def) (simp add: v'_def)
  show "translate v' b = translate v b" if b: "pd_idx b \<noteq> pd_idx a \<or> pt_idx b \<noteq> pt_idx a" for b
  proof (cases "dir_entry v (pd_idx b) AND 1 = 0")
    case True
    then show ?thesis by (simp add: translate_entry [OF wf'] translate_entry [OF wf] de [OF idx_bounds(1)])
  next
    case False
    have "page_base (dir_entry v (pd_idx b)) + 4 * pt_idx b \<noteq> ?t + 4 * pt_idx a"
    proof (rule frame_addr_neq [OF page_base_masked page_base_masked idx_bounds(2) idx_bounds(2)])
      show "page_base (dir_entry v (pd_idx b)) \<noteq> ?t \<or> pt_idx b \<noteq> pt_idx a"
        using b tables_distinctD [OF td idx_bounds(1) idx_bounds(1) _ False p] by blast
    qed
    then show ?thesis
      by (simp add: translate_entry [OF wf'] translate_entry [OF wf] de [OF idx_bounds(1)] Let_def) (simp add: v'_def)
  qed
qed

lemma dir_entry_eq: "pmem v (cr3 v + 4 * i) = dir_entry v i"
  by (simp add: dir_entry_def)

lemma table_in_use_eq:
  assumes "\<And>i. i \<in> set is \<Longrightarrow> vread (pt + 4 * of_nat i) v = Ok (f i)"
  shows "table_in_use P pt is v = Ok (\<exists>i\<in>set is. P (f i))"
  using assms by (induction "is") auto

text \<open>The result of mapping into a table that exists.\<close>

lemma virt_map_page_present:
  assumes wf: "wf_vm v" and p: "dir_entry v (pd_idx va) AND 1 \<noteq> 0"
  shows "virt_map_page pa va flags v =
    (if pmem v (page_base (dir_entry v (pd_idx va)) + 4 * pt_idx va) \<noteq> 0
     then Panic ''Paging: A page has already been mapped here!''
     else Ok (v\<lparr>pmem := (pmem v)(page_base (dir_entry v (pd_idx va)) + 4 * pt_idx va :=
                 pa OR (flags AND 0xFFF) OR 1)\<rparr>))"
  using p unfolding virt_map_page_def Let_def vread_dir [OF wf idx_bounds(1)] dir_entry_eq
  by (simp only: obind.simps if_False vread_tbl [OF wf idx_bounds] vwrite_tbl [OF wf idx_bounds] dir_entry_eq
      simp_thms)

lemma aligned_or_flags:
  assumes "pa AND 0xFFF = (0 :: u32)"
  shows "page_base (pa OR (flags AND 0xFFF) OR 1) = pa" "(pa OR (flags AND 0xFFF) OR 1) AND 1 \<noteq> 0"
proof -
  have m: "(1 :: u32) AND 0xFFFFF000 = 0" by code_simp
  have "page_base (pa OR (flags AND 0xFFF) OR 1) = page_base pa OR ((flags AND 0xFFF) AND 0xFFFFF000) OR (1 AND 0xFFFFF000)"
    unfolding page_base_def by (simp only: bit.conj_disj_distrib2 ac_simps)
  also have "(flags AND 0xFFF) AND 0xFFFFF000 = 0"
    unfolding mask_consts by (rule bit_eqI) (auto simp: bit_simps)
  finally show "page_base (pa OR (flags AND 0xFFF) OR 1) = pa"
    unfolding m page_base_aligned [OF assms] by simp
  have "bit ((pa OR (flags AND 0xFFF) OR 1) AND 1 :: u32) 0" by (simp add: bit_simps)
  then show "(pa OR (flags AND 0xFFF) OR 1) AND 1 \<noteq> 0" by (metis bit_0_eq bot_apply bot_bool_def)
qed

lemma clear_dir_entry:
  assumes wf: "wf_vm v" and td: "tables_distinct v" and i: "unat i < 1024" "i \<noteq> 1023"
  defines "v' \<equiv> v\<lparr>pmem := (pmem v)(cr3 v + 4 * i := 0)\<rparr>"
  shows "wf_vm v'" "pd_idx b = i \<Longrightarrow> translate v' b = None"
    "pd_idx b \<noteq> i \<Longrightarrow> pd_idx b \<noteq> 1023 \<Longrightarrow> translate v' b = translate v b"
proof -
  have c: "cr3 v AND 0xFFF = 0" "cr3 v' = cr3 v" using wf by (auto simp: wf_vm_def v'_def)
  have d1023: "dir_entry v 1023 = cr3 v OR 3" using wf by (simp add: wf_vm_def dir_entry_def)
  have de: "dir_entry v' j = (if j = i then 0 else dir_entry v j)" if "unat j < 1024" for j
  proof (cases "j = i")
    case True then show ?thesis by (simp add: dir_entry_def v'_def)
  next
    case False
    then have "cr3 v + 4 * j \<noteq> cr3 v + 4 * i" using that i by (intro frame_addr_neq c(1)) auto
    then show ?thesis using False by (simp add: dir_entry_def v'_def)
  qed
  have "dir_entry v' 1023 = cr3 v OR 3" using de [of 1023] d1023 i by simp
  then show wf': "wf_vm v'" using c by (simp add: wf_vm_def dir_entry_def)
  show "translate v' b = None" if "pd_idx b = i"
    using de [OF idx_bounds(1) [of b]] that by (simp add: translate_entry [OF wf'])
  show "translate v' b = translate v b" if b: "pd_idx b \<noteq> i" "pd_idx b \<noteq> 1023"
  proof (cases "dir_entry v (pd_idx b) AND 1 = 0")
    case True
    then show ?thesis using b by (simp add: translate_entry [OF wf'] translate_entry [OF wf] de [OF idx_bounds(1)])
  next
    case False
    have "page_base (dir_entry v (pd_idx b)) \<noteq> page_base (dir_entry v 1023)"
      using tables_distinctD [OF td idx_bounds(1) _ b(2) False] or3_present [of "cr3 v"] d1023 by simp
    then have "page_base (dir_entry v (pd_idx b)) \<noteq> cr3 v" unfolding d1023 page_base_or3 [OF c(1)] .
    then have "page_base (dir_entry v (pd_idx b)) + 4 * pt_idx b \<noteq> cr3 v + 4 * i"
      using i by (intro frame_addr_neq page_base_masked c(1) idx_bounds(2)) auto
    then show ?thesis using b
      by (simp add: translate_entry [OF wf'] translate_entry [OF wf] de [OF idx_bounds(1)] Let_def) (simp add: v'_def)
  qed
qed

subsection \<open>Mapping a page\<close>

definition same_page :: "u32 \<Rightarrow> u32 \<Rightarrow> bool" where
  "same_page a b \<longleftrightarrow> pd_idx a = pd_idx b \<and> pt_idx a = pt_idx b"

text \<open>The frame that a directory entry or the directory itself occupies.\<close>

definition fresh_frame :: "vmem \<Rightarrow> u32 \<Rightarrow> bool" where
  "fresh_frame v pg \<longleftrightarrow> pg AND 0xFFF = 0 \<and>
     (\<forall>i. unat i < 1024 \<longrightarrow> dir_entry v i AND 1 \<noteq> 0 \<longrightarrow> page_base (dir_entry v i) \<noteq> pg)"

lemma fresh_frameD:
  "fresh_frame v pg \<Longrightarrow> unat i < 1024 \<Longrightarrow> dir_entry v i AND 1 \<noteq> 0 \<Longrightarrow> page_base (dir_entry v i) \<noteq> pg"
  "fresh_frame v pg \<Longrightarrow> pg AND 0xFFF = 0"
  by (auto simp: fresh_frame_def)

lemma fresh_not_cr3:
  assumes "wf_vm v" "fresh_frame v pg"
  shows "pg \<noteq> cr3 v"
proof -
  have d: "dir_entry v 1023 = cr3 v OR 3" and c: "cr3 v AND 0xFFF = 0"
    using assms(1) by (auto simp: wf_vm_def dir_entry_def)
  have "unat (1023 :: u32) < 1024" by simp
  from fresh_frameD(1) [OF assms(2) this] show ?thesis
    unfolding d page_base_or3 [OF c] using or3_present by metis
qed

lemma table_not_cr3:
  assumes "wf_vm v" "tables_distinct v" "unat i < 1024" "i \<noteq> 1023" "dir_entry v i AND 1 \<noteq> 0"
  shows "page_base (dir_entry v i) \<noteq> cr3 v"
proof -
  have d: "dir_entry v 1023 = cr3 v OR 3" and c: "cr3 v AND 0xFFF = 0"
    using assms(1) by (auto simp: wf_vm_def dir_entry_def)
  have "unat (1023 :: u32) < 1024" by simp
  from tables_distinctD [OF assms(2,3) this assms(4,5)] show ?thesis
    unfolding d page_base_or3 [OF c] using or3_present by metis
qed

lemma write_entry_wf:
  fixes x :: u32
  assumes wf: "wf_vm v" and td: "tables_distinct v" and p: "dir_entry v (pd_idx a) AND 1 \<noteq> 0"
    and low: "pd_idx a \<noteq> 1023"
  defines "v' \<equiv> v\<lparr>pmem := (pmem v)(page_base (dir_entry v (pd_idx a)) + 4 * pt_idx a := x)\<rparr>"
  shows "wf_vm v'" "tables_distinct v'"
    "same_page b a \<Longrightarrow> translate v' b = (if x AND 1 = 0 then None else Some (page_base x + (b AND 0xFFF)))"
    "\<not> same_page b a \<Longrightarrow> translate v' b = translate v b"
proof -
  note w = write_entry [OF wf td p low, where x = x, folded v'_def]
  show "wf_vm v'" by (rule w(1))
  show "tables_distinct v'"
    unfolding tables_distinct_def by (intro allI impI) (simp add: w(2) tables_distinctD [OF td])
  show "translate v' b = (if x AND 1 = 0 then None else Some (page_base x + (b AND 0xFFF)))"
    if "same_page b a"
    using write_entry(3) [OF wf td, of b x] that p low by (simp add: same_page_def v'_def)
  show "translate v' b = translate v b" if "\<not> same_page b a"
    using w(4) [of b] that by (auto simp: same_page_def)
qed

text \<open>Filling an empty directory entry with a fresh table, and clearing the table.\<close>

lemma set_dir_entry:
  fixes x j :: u32
  assumes wf: "wf_vm v" and i: "unat i < 1024" "i \<noteq> 1023"
  defines "v' \<equiv> v\<lparr>pmem := (pmem v)(cr3 v + 4 * i := x)\<rparr>"
  shows "wf_vm v'" "unat j < 1024 \<Longrightarrow> dir_entry v' j = (if j = i then x else dir_entry v j)"
proof -
  have c: "cr3 v AND 0xFFF = 0" "cr3 v' = cr3 v" using wf by (auto simp: wf_vm_def v'_def)
  have de: "dir_entry v' j = (if j = i then x else dir_entry v j)" if "unat j < 1024" for j
  proof (cases "j = i")
    case True then show ?thesis by (simp add: dir_entry_def v'_def)
  next
    case False
    then have "cr3 v + 4 * j \<noteq> cr3 v + 4 * i" using that i by (intro frame_addr_neq c(1)) auto
    then show ?thesis using False by (simp add: dir_entry_def v'_def)
  qed
  then show "unat j < 1024 \<Longrightarrow> dir_entry v' j = (if j = i then x else dir_entry v j)" .
  have "dir_entry v' 1023 = dir_entry v 1023" using de [of 1023] i by simp
  then show "wf_vm v'" using wf c by (simp add: wf_vm_def dir_entry_def)
qed

definition clear_frame :: "u32 \<Rightarrow> nat \<Rightarrow> (u32 \<Rightarrow> u32) \<Rightarrow> u32 \<Rightarrow> u32" where
  "clear_frame pg n m a = (if \<exists>j<n. a = pg + 4 * of_nat j then 0 else m a)"

lemma clear_frame_other:
  assumes "pg AND 0xFFF = 0" "q AND 0xFFF = 0" "q \<noteq> pg" "unat j < 1024" "n \<le> 1024"
  shows "clear_frame pg n m (q + 4 * j) = m (q + 4 * j)"
proof -
  have "q + 4 * j \<noteq> pg + 4 * of_nat k" if "k < n" for k
    using assms that by (intro frame_addr_neq) (auto simp: unat_of_nat take_bit_nat_eq_self)
  then show ?thesis by (auto simp: clear_frame_def)
qed

lemma clear_frame_Suc:
  "clear_frame pg (Suc n) m = (clear_frame pg n m)(pg + 4 * of_nat n := 0)"
  by (rule ext) (auto simp: clear_frame_def less_Suc_eq)

lemma clear_frame_inside: "j < n \<Longrightarrow> clear_frame pg n m (pg + 4 * of_nat j) = 0"
  by (auto simp: clear_frame_def)

lemma unat_idx: "n < 1024 \<Longrightarrow> unat (of_nat n :: u32) = n"
  by (simp add: unat_of_nat take_bit_nat_eq_self)

lemma dir_entry_clear_frame:
  assumes "wf_vm v" "fr AND 0xFFF = 0" "fr \<noteq> cr3 v" "unat j < 1024" "n \<le> 1024"
  shows "dir_entry (v\<lparr>pmem := clear_frame fr n (pmem v)\<rparr>) j = dir_entry v j"
  using assms clear_frame_other [of fr "cr3 v" j n] by (simp add: dir_entry_def wf_vm_def)

lemma wf_clear_frame:
  assumes "wf_vm v" "fr AND 0xFFF = 0" "fr \<noteq> cr3 v" "n \<le> 1024"
  shows "wf_vm (v\<lparr>pmem := clear_frame fr n (pmem v)\<rparr>)"
  using assms dir_entry_clear_frame [OF assms(1-3), of 1023 n] by (simp add: wf_vm_def dir_entry_def)

lemma clear_table_words:
  assumes wf: "wf_vm v" and i: "unat i < 1024" and p: "dir_entry v i AND 1 \<noteq> 0"
    and ne: "page_base (dir_entry v i) \<noteq> cr3 v"
  shows "n \<le> 1024 \<Longrightarrow> ofor 0 n (\<lambda>k. vwrite (page_tbl_from_index i + 4 * of_nat k) 0) v =
    Ok (v\<lparr>pmem := clear_frame (page_base (dir_entry v i)) n (pmem v)\<rparr>)"
proof (induction n)
  case 0
  then show ?case by (simp add: clear_frame_def)
next
  case (Suc n)
  let ?f = "page_base (dir_entry v i)"
  let ?v = "v\<lparr>pmem := clear_frame ?f n (pmem v)\<rparr>"
  have n: "n \<le> 1024" "n < 1024" using Suc.prems by auto
  have w: "wf_vm ?v" by (rule wf_clear_frame [OF wf page_base_masked ne n(1)])
  have d: "dir_entry ?v i = dir_entry v i" by (rule dir_entry_clear_frame [OF wf page_base_masked ne i n(1)])
  have d': "pmem ?v (cr3 ?v + 4 * i) = dir_entry v i" using d by (simp add: dir_entry_def)
  have "vwrite (page_tbl_from_index i + 4 * of_nat n) 0 ?v =
      Ok (v\<lparr>pmem := (clear_frame ?f n (pmem v))(?f + 4 * of_nat n := 0)\<rparr>)"
    using vwrite_tbl [OF w i, of "of_nat n" 0] p n unfolding d' unat_idx [OF n(2)] by (simp del: fun_upd_apply)
  moreover have "[0..<Suc n] = [0..<n] @ [n]" by simp
  ultimately show ?case using Suc.IH [OF n(1)]
    by (simp only: ofold_append ofold.simps obind.simps clear_frame_Suc vmem.simps)
qed

lemma clear_page_table:
  assumes wf: "wf_vm v" and i: "unat i < 1024" and p: "dir_entry v i AND 1 \<noteq> 0"
    and ne: "page_base (dir_entry v i) \<noteq> cr3 v"
  shows "clear_page_words (page_tbl_from_index i) v =
    Ok (v\<lparr>pmem := clear_frame (page_base (dir_entry v i)) 1024 (pmem v)\<rparr>)"
  unfolding clear_page_words_def by (rule clear_table_words [OF assms]) simp

text \<open>A fresh table leaves every translation as it was.\<close>

lemma new_table:
  assumes wf: "wf_vm v" and td: "tables_distinct v" and np: "dir_entry v i AND 1 = 0"
    and i: "unat i < 1024" and fr: "fresh_frame v pg"
  defines "e \<equiv> pg OR 2 OR 1"
  defines "v' \<equiv> v\<lparr>pmem := clear_frame pg 1024 ((pmem v)(cr3 v + 4 * i := e))\<rparr>"
  shows "wf_vm v'" "tables_distinct v'" "dir_entry v' i = e" "page_base e = pg" "e AND 1 \<noteq> 0" "i \<noteq> 1023"
    "pmem v' (pg + 4 * pt_idx a) = 0" "pd_idx b \<noteq> 1023 \<Longrightarrow> translate v' b = translate v b"
    "obind (vwrite (PAGE_DIR_ADDR + 4 * i) e v) (clear_page_words (page_tbl_from_index i)) = Ok v'"
proof -
  let ?u = "v\<lparr>pmem := (pmem v)(cr3 v + 4 * i := e)\<rparr>"
  have al: "pg AND 0xFFF = 0" by (rule fresh_frameD(2) [OF fr])
  have pc: "pg \<noteq> cr3 v" by (rule fresh_not_cr3 [OF wf fr])
  have d1023: "dir_entry v 1023 = cr3 v OR 3" using wf by (simp add: wf_vm_def dir_entry_def)
  then show i1023: "i \<noteq> 1023" using np or3_present [of "cr3 v"] by auto
  have e: "e = pg OR 3" unfolding e_def by (simp add: or.assoc)
  show pb: "page_base e = pg" unfolding e by (rule page_base_or3 [OF al])
  show ep: "e AND 1 \<noteq> 0" unfolding e by (rule or3_present)
  note u = set_dir_entry [OF wf i i1023, where x = e]
  have cu: "cr3 ?u = cr3 v" by simp
  have v': "v' = ?u\<lparr>pmem := clear_frame pg 1024 (pmem ?u)\<rparr>" by (simp add: v'_def)
  show wf': "wf_vm v'" unfolding v' by (rule wf_clear_frame [OF u(1) al]) (use pc in simp_all)
  have de: "dir_entry v' j = (if j = i then e else dir_entry v j)" if "unat j < 1024" for j
    unfolding v' using dir_entry_clear_frame [OF u(1) al _ that, of 1024] pc u(2) [OF that] by simp
  show "dir_entry v' i = e" using de [OF i] by simp
  show "tables_distinct v'"
    unfolding tables_distinct_def
  proof (intro allI impI)
    fix k j assume a: "unat k < 1024" "unat j < 1024" "k \<noteq> j" "dir_entry v' k AND 1 \<noteq> 0" "dir_entry v' j AND 1 \<noteq> 0"
    have f: "page_base (dir_entry v l) \<noteq> pg" if "unat l < 1024" "dir_entry v l AND 1 \<noteq> 0" for l
      by (rule fresh_frameD(1) [OF fr that])
    consider "k = i" | "j = i" | "k \<noteq> i" "j \<noteq> i" by blast
    then show "page_base (dir_entry v' k) \<noteq> page_base (dir_entry v' j)"
    proof cases
      case 1
      then show ?thesis using a f [OF a(2)] pb by (simp add: de)
    next
      case 2
      then show ?thesis using a f [OF a(1)] pb by (simp add: de)
    next
      case 3
      then show ?thesis using a tables_distinctD [OF td a(1-3)] by (simp add: de)
    qed
  qed
  show "pmem v' (pg + 4 * pt_idx a) = 0"
    using clear_frame_inside [of "unat (pt_idx a)" 1024 pg] idx_bounds(2) [of a] by (simp add: v'_def)
  show "translate v' b = translate v b" if b1023: "pd_idx b \<noteq> 1023"
  proof (cases "pd_idx b = i")
    case True
    have "clear_frame pg 1024 m (pg + 4 * pt_idx b) = 0" for m
      using clear_frame_inside [of "unat (pt_idx b)" 1024 pg] idx_bounds(2) [of b] by simp
    then show ?thesis using True np ep pb de [OF i]
      by (simp add: translate_entry [OF wf'] translate_entry [OF wf] Let_def) (simp add: v'_def)
  next
    case False
    then have db: "dir_entry v' (pd_idx b) = dir_entry v (pd_idx b)" using de [OF idx_bounds(1) [of b]] by simp
    let ?t = "page_base (dir_entry v (pd_idx b))"
    show ?thesis
    proof (cases "dir_entry v (pd_idx b) AND 1 = 0")
      case True
      then show ?thesis by (simp add: translate_entry [OF wf'] translate_entry [OF wf] db)
    next
      case False
      then have tp: "?t \<noteq> pg" using fresh_frameD(1) [OF fr idx_bounds(1)] by blast
      have tc: "?t \<noteq> cr3 v" by (rule table_not_cr3 [OF wf td idx_bounds(1) b1023 False])
      have "pmem v' (?t + 4 * pt_idx b) = ((pmem v)(cr3 v + 4 * i := e)) (?t + 4 * pt_idx b)"
        unfolding v'_def using clear_frame_other [OF al page_base_masked tp idx_bounds(2), of 1024] by simp
      also have "\<dots> = pmem v (?t + 4 * pt_idx b)"
        using frame_addr_neq [OF page_base_masked _ idx_bounds(2) i, where q = "cr3 v"] tc wf
        by (auto simp: wf_vm_def)
      finally show ?thesis
        by (simp only: translate_entry [OF wf'] translate_entry [OF wf] db Let_def)
    qed
  qed
  have "dir_entry ?u i = e" using u(2) [OF i] by simp
  then have "clear_page_words (page_tbl_from_index i) ?u = Ok v'"
    using clear_page_table [OF u(1) i] ep pb pc unfolding v' by simp
  then show "obind (vwrite (PAGE_DIR_ADDR + 4 * i) e v) (clear_page_words (page_tbl_from_index i)) = Ok v'"
    by (simp only: vwrite_dir [OF wf i] obind.simps)
qed

subsection \<open>Properties of mapping, unmapping and look-up\<close>

lemma map_into_table:
  assumes wf: "wf_vm v" and td: "tables_distinct v" and p: "dir_entry v (pd_idx va) AND 1 \<noteq> 0"
    and low: "pd_idx va \<noteq> 1023" and al: "pa AND 0xFFF = 0"
    and z: "pmem v (page_base (dir_entry v (pd_idx va)) + 4 * pt_idx va) = 0"
  shows "\<exists>v'. virt_map_page pa va flags v = Ok v' \<and> wf_vm v' \<and> tables_distinct v' \<and> frames v' = frames v \<and>
    (\<forall>b. translate v' b = (if same_page b va then Some (pa + (b AND 0xFFF)) else translate v b))"
  using z al aligned_or_flags [of pa flags]
  by (simp add: virt_map_page_present [OF wf p] write_entry_wf [OF wf td p low])

text \<open>
  Mapping a page of a region whose page table exists makes exactly that page translate to the
  given frame, or panics when the page-table entry is in use; every other address translates as
  before and no frame is taken.
\<close>

theorem virt_map_page_correct:
  assumes "wf_vm v" "tables_distinct v" "dir_entry v (pd_idx va) AND 1 \<noteq> 0" "pd_idx va \<noteq> 1023"
    and "pa AND 0xFFF = 0"
  shows "if pmem v (page_base (dir_entry v (pd_idx va)) + 4 * pt_idx va) \<noteq> 0
    then virt_map_page pa va flags v = Panic ''Paging: A page has already been mapped here!''
    else \<exists>v'. virt_map_page pa va flags v = Ok v' \<and> wf_vm v' \<and> tables_distinct v' \<and> frames v' = frames v \<and>
      (\<forall>b. translate v' b = (if same_page b va then Some (pa + (b AND 0xFFF)) else translate v b))"
  using virt_map_page_present [OF assms(1,3)] map_into_table [OF assms] by simp

text \<open>
  Mapping a page of a region without a page table takes a free frame for the table, clears it,
  and then makes exactly that page translate to the given frame.
\<close>

theorem virt_map_page_new_table:
  assumes wf: "wf_vm v" and td: "tables_distinct v" and np: "dir_entry v (pd_idx va) AND 1 = 0"
    and al: "pa AND 0xFFF = 0" and fr: "phys_get_free_4k (frames v) = Ok (pg, ph)" "fresh_frame v pg"
  shows "\<exists>v'. virt_map_page pa va flags v = Ok v' \<and> wf_vm v' \<and> tables_distinct v' \<and> frames v' = ph \<and>
    page_base (dir_entry v' (pd_idx va)) = pg \<and>
    (\<forall>b. pd_idx b \<noteq> 1023 \<longrightarrow>
       translate v' b = (if same_page b va then Some (pa + (b AND 0xFFF)) else translate v b))"
proof -
  let ?i = "pd_idx va" and ?e = "pg OR 2 OR 1"
  define v1 where "v1 = v\<lparr>frames := ph\<rparr>"
  have e1: "dir_entry v1 i = dir_entry v i" "translate v1 b = translate v b" for i b
    by (simp_all add: v1_def dir_entry_def translate_def Let_def)
  have wf1: "wf_vm v1" and td1: "tables_distinct v1" and fr1: "fresh_frame v1 pg"
    using wf td fr(2) by (simp_all add: wf_vm_def tables_distinct_def fresh_frame_def e1) (simp_all add: v1_def)
  have np1: "dir_entry v1 ?i AND 1 = 0" using np by (simp add: e1)
  define v2 where "v2 = v1\<lparr>pmem := clear_frame pg 1024 ((pmem v1)(cr3 v1 + 4 * ?i := ?e))\<rparr>"
  note t = new_table [OF wf1 td1 np1 idx_bounds(1) fr1, folded v2_def]
  have t2: "dir_entry v2 ?i AND 1 \<noteq> 0" "page_base (dir_entry v2 ?i) = pg" using t(3-5) by simp_all
  have z: "pmem v2 (page_base (dir_entry v2 ?i) + 4 * pt_idx va) = 0" using t2(2) t(7) by simp
  have "virt_map_page pa va flags v = virt_map_page pa va flags v2"
  proof -
    have "virt_map_page pa va flags v = obind (vread (page_tbl_from_index ?i + 4 * pt_idx va) v2)
        (\<lambda>pte. if pte \<noteq> 0 then Panic ''Paging: A page has already been mapped here!''
           else vwrite (page_tbl_from_index ?i + 4 * pt_idx va) (pa OR (flags AND 0xFFF) OR PG_PRESENT) v2)"
      unfolding virt_map_page_def Let_def vread_dir [OF wf idx_bounds(1)] dir_entry_eq take_frame_def fr(1)
      using np t(9) by (simp only: obind.simps if_True simp_thms prod.case obind_assoc v1_def [symmetric])
    also have "\<dots> = virt_map_page pa va flags v2"
      unfolding virt_map_page_def Let_def vread_dir [OF t(1) idx_bounds(1)] dir_entry_eq
      using t2(1) by (simp only: obind.simps if_False)
    finally show ?thesis .
  qed
  moreover obtain v' where "virt_map_page pa va flags v2 = Ok v'" "wf_vm v'" "tables_distinct v'"
      "frames v' = frames v2" "\<forall>b. translate v' b = (if same_page b va then Some (pa + (b AND 0xFFF)) else translate v2 b)"
    using map_into_table [OF t(1,2) t2(1) t(6) al z] by blast
  moreover have "v' = v2\<lparr>pmem := (pmem v2)(pg + 4 * pt_idx va := pa OR (flags AND 0xFFF) OR 1)\<rparr>"
    using calculation(2) virt_map_page_present [OF t(1) t2(1)] z t2(2) by simp
  then have "dir_entry v' ?i = dir_entry v2 ?i"
    using write_entry(2) [OF t(1,2) t2(1) t(6) idx_bounds(1)] t2(2) by simp
  moreover have "frames v2 = ph" by (simp add: v2_def v1_def)
  ultimately show ?thesis using t(8) t2(2) e1(2) by auto
qed

text \<open>
  The software look-up agrees with the walk of the processor: it returns the physical address
  an address translates to, and all ones for an address without translation, as long as no entry
  that is in use is marked not present.
\<close>

theorem virt_get_phys_addr_correct:
  assumes wf: "wf_vm v"
    and used: "dir_entry v (pd_idx a) \<noteq> 0 \<longrightarrow> dir_entry v (pd_idx a) AND 1 \<noteq> 0"
      "pmem v (page_base (dir_entry v (pd_idx a)) + 4 * pt_idx a) \<noteq> 0 \<longrightarrow>
        pmem v (page_base (dir_entry v (pd_idx a)) + 4 * pt_idx a) AND 1 \<noteq> 0"
  shows "virt_get_phys_addr a v = Ok (case translate v a of None \<Rightarrow> 0xFFFFFFFF | Some p \<Rightarrow> p)"
proof (cases "dir_entry v (pd_idx a) = 0")
  case True
  then show ?thesis
    by (simp add: virt_get_phys_addr_def Let_def vread_dir [OF wf idx_bounds(1), unfolded dir_entry_eq]
        translate_entry [OF wf] del: obind_eq_Ok)
next
  case False
  then have p: "dir_entry v (pd_idx a) AND 1 \<noteq> 0" using used by simp
  have "(- 4096 :: u32) = 0xFFFFF000" by code_simp
  then have m: "x AND - 4096 = page_base x" for x :: u32
    by (simp only: page_base_def)
  show ?thesis using False p used(2)
    by (auto simp: virt_get_phys_addr_def Let_def m vread_dir [OF wf idx_bounds(1), unfolded dir_entry_eq]
        vread_tbl [OF wf idx_bounds, unfolded dir_entry_eq] translate_entry [OF wf] simp del: obind_eq_Ok)
qed

text \<open>The state a removal of a page leaves, before the look at the rest of its table.\<close>

definition entry_at :: "vmem \<Rightarrow> u32 \<Rightarrow> u32" where
  "entry_at v a = pmem v (page_base (dir_entry v (pd_idx a)) + 4 * pt_idx a)"

lemma frames_irrelevant:
  "dir_entry (v\<lparr>frames := p\<rparr>) = dir_entry v" "translate (v\<lparr>frames := p\<rparr>) = translate v"
  "wf_vm (v\<lparr>frames := p\<rparr>) = wf_vm v" "tables_distinct (v\<lparr>frames := p\<rparr>) = tables_distinct v"
proof -
  show d: "dir_entry (v\<lparr>frames := p\<rparr>) = dir_entry v" by (rule ext) (simp add: dir_entry_def)
  show "translate (v\<lparr>frames := p\<rparr>) = translate v" by (rule ext) (simp add: translate_def Let_def)
  show "wf_vm (v\<lparr>frames := p\<rparr>) = wf_vm v" by (simp add: wf_vm_def)
  show "tables_distinct (v\<lparr>frames := p\<rparr>) = tables_distinct v" by (simp add: tables_distinct_def d)
qed

lemma clear_dir_entry_distinct:
  assumes wf: "wf_vm v" and td: "tables_distinct v" and i: "unat i < 1024" "i \<noteq> 1023"
  shows "tables_distinct (v\<lparr>pmem := (pmem v)(cr3 v + 4 * i := 0)\<rparr>)"
  unfolding tables_distinct_def
proof (intro allI impI)
  let ?v = "v\<lparr>pmem := (pmem v)(cr3 v + 4 * i := 0)\<rparr>"
  fix k j assume a: "unat k < 1024" "unat j < 1024" "k \<noteq> j" "dir_entry ?v k AND 1 \<noteq> 0" "dir_entry ?v j AND 1 \<noteq> 0"
  note s = set_dir_entry(2) [OF wf i, where x = 0]
  have "k \<noteq> i" "j \<noteq> i" using a(4,5) unfolding s [OF a(1)] s [OF a(2)] by auto
  then show "page_base (dir_entry ?v k) \<noteq> page_base (dir_entry ?v j)"
    using a tables_distinctD [OF td a(1-3)] unfolding s [OF a(1)] s [OF a(2)] by simp
qed

lemma pd_idx_user: "va < RESERVED_ADDR_HI \<Longrightarrow> pd_idx va \<noteq> 1023"
proof
  assume a: "va < RESERVED_ADDR_HI" "pd_idx va = 1023"
  then have "unat va < 3221225472" by (simp add: word_less_nat_alt)
  moreover have "unat va div 4194304 = 1023"
    using arg_cong [OF a(2), of unat] by (simp add: pd_idx_def unat_div_mod)
  moreover have "unat va = 4194304 * (unat va div 4194304) + unat va mod 4194304" by simp
  ultimately show False by linarith
qed

lemma page_address:
  assumes "unat i < 1024" "k < 1024"
  shows "pd_idx (push_bit 22 i + push_bit 12 (of_nat k)) = i" "pt_idx (push_bit 22 i + push_bit 12 (of_nat k)) = of_nat k"
proof -
  let ?a = "push_bit 22 i + push_bit 12 (of_nat k) :: u32"
  have i: "unat (push_bit 22 i) = unat i * 4194304"
    unfolding push_bit_eq_mult using assms by (simp add: unat_mult_lem [THEN iffD1])
  have k: "unat (push_bit 12 (of_nat k) :: u32) = k * 4096"
    unfolding push_bit_eq_mult using assms by (simp add: unat_mult_lem [THEN iffD1] unat_idx)
  have a: "unat ?a = unat i * 4194304 + k * 4096"
    using assms by (subst unat_add_no_wrap) (simp_all add: i k)
  have "(unat i * 4194304 + k * 4096) div 4194304 = unat i"
    using assms by (intro div_nat_eqI) auto
  then show "pd_idx ?a = i" by (simp only: pd_idx_def word_unat_eq_iff unat_div_mod a) simp
  have "(unat i * 4194304 + k * 4096) div 4096 = unat i * 1024 + k"
    using assms by (intro div_nat_eqI) auto
  then show "pt_idx ?a = of_nat k"
    using assms by (simp only: pt_idx_def mask_consts(2) word_unat_eq_iff unat_div_mod a) (simp add: unat_idx)
qed

lemma table_words:
  assumes wf: "wf_vm v" and i: "unat i < 1024" and p: "dir_entry v i AND 1 \<noteq> 0"
  shows "table_in_use P (page_tbl_from_index i) [0..<1024] v =
    Ok (\<exists>k<1024. P (pmem v (page_base (dir_entry v i) + 4 * of_nat k)))"
proof -
  have "table_in_use P (page_tbl_from_index i) [0..<1024] v =
      Ok (\<exists>k\<in>set [0..<1024]. P (pmem v (page_base (dir_entry v i) + 4 * of_nat k)))"
  proof (rule table_in_use_eq)
    fix k assume "k \<in> set [0..<1024]"
    then have k: "unat (of_nat k :: u32) < 1024" by (simp add: unat_idx)
    show "vread (page_tbl_from_index i + 4 * of_nat k) v = Ok (pmem v (page_base (dir_entry v i) + 4 * of_nat k))"
      using vread_tbl [OF wf i k] p unfolding dir_entry_eq by blast
  qed
  then show ?thesis by (simp add: Bex_def)
qed

lemma gt_zero_word: "(x > 0) = (x \<noteq> (0 :: u32))"
  by (simp add: word_neq_0_conv)

lemma no_entry_no_translation:
  assumes wf: "wf_vm v" and e: "\<not> (\<exists>k<1024. pmem v (page_base (dir_entry v i) + 4 * of_nat k) AND 1 > 0)"
    and b: "pd_idx b = i"
  shows "translate v b = None"
proof -
  have "unat (pt_idx b) < 1024" by (rule idx_bounds)
  then have "\<not> pmem v (page_base (dir_entry v i) + 4 * of_nat (unat (pt_idx b))) AND 1 > 0" using e by blast
  then show ?thesis by (simp add: translate_entry [OF wf] b Let_def word_neq_0_conv)
qed

definition unmap_frames :: "u32 \<Rightarrow> vmem \<Rightarrow> phys" where
  "unmap_frames va v =
    (let ph = (if entry_at v va AND 1 > 0 then phys_unset_bit (entry_at v va) (frames v) else frames v) in
     if \<exists>b. pd_idx b = pd_idx va \<and> \<not> same_page b va \<and> translate v b \<noteq> None then ph
     else phys_unset_bit (dir_entry v (pd_idx va)) ph)"

lemma unmap_page_lemma:
  assumes wf: "wf_vm v" and td: "tables_distinct v" and r: "RESERVED_ADDR_LO \<le> va" "va < RESERVED_ADDR_HI"
  shows "\<exists>v'. virt_unmap_page va v = Ok v' \<and> wf_vm v' \<and> tables_distinct v' \<and> cr3 v' = cr3 v \<and>
    frames v' = (if dir_entry v (pd_idx va) AND 1 = 0 then frames v else unmap_frames va v) \<and>
    (\<forall>b. pd_idx b \<noteq> 1023 \<longrightarrow> translate v' b = (if same_page b va then None else translate v b))"
proof (cases "dir_entry v (pd_idx va) AND 1 = 0")
  case True
  have "virt_unmap_page va v = Ok v"
    using r True by (simp add: virt_unmap_page_def Let_def vread_dir [OF wf idx_bounds(1), unfolded dir_entry_eq]
        not_less del: obind_eq_Ok)
  moreover have "translate v b = None" if "same_page b va" for b
    using that True by (simp add: translate_entry [OF wf] same_page_def)
  ultimately show ?thesis using wf td True by auto
next
  case p: False
  let ?i = "pd_idx va" and ?d = "dir_entry v (pd_idx va)"
  let ?t = "page_base ?d"
  have low: "?i \<noteq> 1023" by (rule pd_idx_user [OF r(2)])
  define ph where "ph = (if entry_at v va AND 1 > 0 then phys_unset_bit (entry_at v va) (frames v) else frames v)"
  define v1 where "v1 = v\<lparr>frames := ph\<rparr>"
  define v2 where "v2 = v1\<lparr>pmem := (pmem v1)(page_base (dir_entry v1 ?i) + 4 * pt_idx va := 0)\<rparr>"
  have f1: "(if entry_at v va AND PG_PRESENT > 0 then free_frame (entry_at v va) v else v) = v1"
    by (simp add: v1_def ph_def free_frame_def)
  have s1: "wf_vm v1" "tables_distinct v1" "dir_entry v1 = dir_entry v" "translate v1 = translate v"
    using wf td by (simp_all add: v1_def frames_irrelevant)
  have p1: "dir_entry v1 ?i AND 1 \<noteq> 0" using p s1 by simp
  note w = write_entry_wf [OF s1(1,2) p1 low, where x = 0, folded v2_def]
  have d2: "dir_entry v2 j = dir_entry v j" if "unat j < 1024" for j
    using write_entry(2) [OF s1(1,2) p1 low that, where x = 0, folded v2_def] s1 by simp
  have t2: "translate v2 b = (if same_page b va then None else translate v b)" for b
    using w(3,4) [of b] s1(4) by simp
  have p2: "dir_entry v2 ?i AND 1 \<noteq> 0" using p d2 [OF idx_bounds(1)] by simp
  let ?used = "\<exists>k<1024. pmem v2 (?t + 4 * of_nat k) AND 1 > 0"
  have c2: "cr3 v2 = cr3 v" "frames v2 = ph" by (simp_all add: v2_def v1_def)
  let ?v3 = "(free_frame ?d v2)\<lparr>pmem := (pmem v2)(cr3 v2 + 4 * ?i := 0)\<rparr>"
  have nr: "\<not> (va < RESERVED_ADDR_LO \<or> va \<ge> RESERVED_ADDR_HI)" using r by (simp add: not_less not_le)
  have run: "virt_unmap_page va v = (if ?used then Ok v2 else Ok ?v3)"
  proof -
    have "virt_unmap_page va v = obind (vread (page_tbl_from_index ?i + 4 * pt_idx va) v) (\<lambda>pte.
        let v1 = (if pte AND PG_PRESENT > 0 then free_frame pte v else v) in
        obind (vwrite (page_tbl_from_index ?i + 4 * pt_idx va) 0 v1) (\<lambda>v2.
        obind (table_in_use (\<lambda>e. e AND PG_PRESENT > 0) (page_tbl_from_index ?i) [0..<1024] v2) (\<lambda>used.
          if used then Ok v2
          else obind (vread (PAGE_DIR_ADDR + 4 * ?i) v2) (\<lambda>pde2.
            vwrite (PAGE_DIR_ADDR + 4 * ?i) 0 (free_frame pde2 v2)))))"
      unfolding virt_unmap_page_def vread_dir [OF wf idx_bounds(1)] dir_entry_eq Let_def if_not_P [OF nr]
        obind.simps if_not_P [OF p] ..
    also have "vread (page_tbl_from_index ?i + 4 * pt_idx va) v = Ok (entry_at v va)"
      using vread_tbl [OF wf idx_bounds] p by (simp add: dir_entry_eq entry_at_def)
    also have "obind (Ok (entry_at v va)) (\<lambda>pte.
        let v1 = (if pte AND PG_PRESENT > 0 then free_frame pte v else v) in
        obind (vwrite (page_tbl_from_index ?i + 4 * pt_idx va) 0 v1) (\<lambda>v2.
        obind (table_in_use (\<lambda>e. e AND PG_PRESENT > 0) (page_tbl_from_index ?i) [0..<1024] v2) (\<lambda>used.
          if used then Ok v2
          else obind (vread (PAGE_DIR_ADDR + 4 * ?i) v2) (\<lambda>pde2.
            vwrite (PAGE_DIR_ADDR + 4 * ?i) 0 (free_frame pde2 v2))))) =
        obind (vwrite (page_tbl_from_index ?i + 4 * pt_idx va) 0 v1) (\<lambda>v2.
        obind (table_in_use (\<lambda>e. e AND PG_PRESENT > 0) (page_tbl_from_index ?i) [0..<1024] v2) (\<lambda>used.
          if used then Ok v2
          else obind (vread (PAGE_DIR_ADDR + 4 * ?i) v2) (\<lambda>pde2.
            vwrite (PAGE_DIR_ADDR + 4 * ?i) 0 (free_frame pde2 v2))))"
      unfolding obind.simps Let_def f1 ..
    also have "vwrite (page_tbl_from_index ?i + 4 * pt_idx va) 0 v1 = Ok v2"
      unfolding v2_def using vwrite_tbl [OF s1(1) idx_bounds] p1 by (simp add: dir_entry_eq)
    also have "obind (Ok v2) (\<lambda>v2.
        obind (table_in_use (\<lambda>e. e AND PG_PRESENT > 0) (page_tbl_from_index ?i) [0..<1024] v2) (\<lambda>used.
          if used then Ok v2
          else obind (vread (PAGE_DIR_ADDR + 4 * ?i) v2) (\<lambda>pde2.
            vwrite (PAGE_DIR_ADDR + 4 * ?i) 0 (free_frame pde2 v2)))) = (if ?used then Ok v2 else Ok ?v3)"
    proof -
      have wff: "wf_vm (free_frame ?d v2)" using w(1) by (simp add: free_frame_def frames_irrelevant)
      show ?thesis
        unfolding obind.simps table_words [OF w(1) idx_bounds(1) p2] d2 [OF idx_bounds(1)]
          vread_dir [OF w(1) idx_bounds(1)] dir_entry_eq vwrite_dir [OF wff idx_bounds(1)]
        by (auto simp: free_frame_def)
    qed
    finally show ?thesis .
  qed
  have used_iff: "?used \<longleftrightarrow> (\<exists>b. pd_idx b = ?i \<and> \<not> same_page b va \<and> translate v b \<noteq> None)"
  proof
    assume ?used
    then obtain k where k: "k < 1024" "pmem v2 (?t + 4 * of_nat k) AND 1 > 0" by blast
    define b :: u32 where "b = push_bit 22 ?i + push_bit 12 (of_nat k)"
    have b: "pd_idx b = ?i" "pt_idx b = of_nat k" unfolding b_def by (rule page_address [OF idx_bounds(1) k(1)])+
    have "translate v2 b \<noteq> None"
      using k(2) p2 by (simp add: translate_entry [OF w(1)] b Let_def d2 [OF idx_bounds(1)] word_neq_0_conv)
    then have "\<not> same_page b va \<and> translate v b \<noteq> None" using t2 [of b] by (auto split: if_splits)
    with b(1) show "\<exists>b. pd_idx b = ?i \<and> \<not> same_page b va \<and> translate v b \<noteq> None" by blast
  next
    assume "\<exists>b. pd_idx b = ?i \<and> \<not> same_page b va \<and> translate v b \<noteq> None"
    then obtain b where b: "pd_idx b = ?i" "translate v2 b \<noteq> None" using t2 by auto
    show ?used
    proof (rule ccontr)
      assume "\<not> ?used"
      then have "translate v2 b = None"
        using no_entry_no_translation [OF w(1), of ?i b] b(1) d2 [OF idx_bounds(1)] by simp
      with b(2) show False by simp
    qed
  qed
  show ?thesis
  proof (cases ?used)
    case True
    then show ?thesis using run w(1,2) c2 t2 p used_iff
      by (auto simp: unmap_frames_def ph_def Let_def)
  next
    case False
    let ?u = "v2\<lparr>pmem := (pmem v2)(cr3 v2 + 4 * ?i := 0)\<rparr>"
    have v3: "?v3 = ?u\<lparr>frames := phys_unset_bit ?d ph\<rparr>" by (simp add: free_frame_def c2)
    note z = clear_dir_entry [OF w(1,2) idx_bounds(1) low]
    have "translate v2 b = None" if "pd_idx b = ?i" for b
      using no_entry_no_translation [OF w(1), of ?i b] False that d2 [OF idx_bounds(1)] by simp
    then have "translate ?u b = (if same_page b va then None else translate v b)" if "pd_idx b \<noteq> 1023" for b
      using z(2,3) [of b] t2 [of b] that by (cases "pd_idx b = ?i") (auto simp: same_page_def)
    then show ?thesis
      using run False z(1) clear_dir_entry_distinct [OF w(1,2) idx_bounds(1) low] c2 p used_iff
      unfolding v3 by (auto simp: frames_irrelevant unmap_frames_def ph_def Let_def)
  qed
qed

text \<open>
  C31: unmapping a user address removes the translation of exactly the page the address lies in and, for
  every other page below the recursive entry, changes nothing; its frame is freed when it was present,
  and the frame of the page table exactly when no other page of the table is translated. The address
  need not be aligned: \<^verbatim>\<open>paging.h\<close> documents that only addresses aligned to 4 KiB have any effect, but
  the routine drops the low twelve bits and unmaps the page of every user address.
\<close>

theorem virt_unmap_page_correct:
  assumes "wf_vm v" "tables_distinct v" "RESERVED_ADDR_LO \<le> va" "va < RESERVED_ADDR_HI"
  shows "\<exists>v'. virt_unmap_page va v = Ok v' \<and> wf_vm v' \<and> tables_distinct v' \<and>
    frames v' = (if dir_entry v (pd_idx va) AND 1 = 0 then frames v else unmap_frames va v) \<and>
    (\<forall>b. pd_idx b \<noteq> 1023 \<longrightarrow> translate v' b = (if same_page b va then None else translate v b))"
  using unmap_page_lemma [OF assms] by blast

lemma user_page_addr:
  assumes "i < 785408"
  shows "unat (RESERVED_ADDR_LO + of_nat i * PAGE_BYTES) = 4194304 + i * 4096"
    "RESERVED_ADDR_LO \<le> RESERVED_ADDR_LO + of_nat i * PAGE_BYTES" "RESERVED_ADDR_LO + of_nat i * PAGE_BYTES < RESERVED_ADDR_HI"
proof -
  have "unat (of_nat i :: u32) = i" using assms by (simp add: unat_of_nat take_bit_nat_eq_self)
  then have "unat (of_nat i * PAGE_BYTES) = i * 4096"
    using assms by (simp add: unat_mult_lem [THEN iffD1])
  then show u: "unat (RESERVED_ADDR_LO + of_nat i * PAGE_BYTES) = 4194304 + i * 4096"
    using assms by (subst unat_add_no_wrap) simp_all
  show "RESERVED_ADDR_LO \<le> RESERVED_ADDR_LO + of_nat i * PAGE_BYTES"
    unfolding word_le_nat_alt u by simp
  show "RESERVED_ADDR_LO + of_nat i * PAGE_BYTES < RESERVED_ADDR_HI"
    unfolding word_less_nat_alt u using assms by simp
qed

lemma user_page_cover:
  assumes "RESERVED_ADDR_LO \<le> b" "b < RESERVED_ADDR_HI"
  obtains i where "i < 785408" "same_page b (RESERVED_ADDR_LO + of_nat i * PAGE_BYTES)"
proof
  have b: "4194304 \<le> unat b" "unat b < 3221225472"
    using assms by (simp_all add: word_le_nat_alt word_less_nat_alt)
  define i where "i = unat b div 4096 - 1024"
  have q: "unat b div 4096 < 786432" "1024 \<le> unat b div 4096"
    using b by (simp_all add: div_less_iff_less_mult less_eq_div_iff_mult_less_eq)
  then show i: "i < 785408" by (simp add: i_def)
  let ?a = "RESERVED_ADDR_LO + of_nat i * PAGE_BYTES"
  have e: "unat ?a div 4096 = unat b div 4096" unfolding user_page_addr(1) [OF i] using q by (simp add: i_def)
  have "unat ?a div 4194304 = unat b div 4194304"
    using e div_mult2_eq [of "unat ?a" 4096 1024] div_mult2_eq [of "unat b" 4096 1024] by simp
  then show "same_page b ?a"
    unfolding same_page_def pd_idx_def pt_idx_def mask_consts word_unat_eq_iff unat_div_mod
    using e by simp
qed

lemma reset_loop:
  assumes "n \<le> 785408" "wf_vm v" "tables_distinct v"
  shows "\<exists>v'. ofor 0 n (\<lambda>i. virt_unmap_page (RESERVED_ADDR_LO + of_nat i * PAGE_BYTES)) v = Ok v' \<and>
    wf_vm v' \<and> tables_distinct v' \<and> cr3 v' = cr3 v \<and>
    (\<forall>b. pd_idx b \<noteq> 1023 \<longrightarrow> translate v' b =
       (if \<exists>i<n. same_page b (RESERVED_ADDR_LO + of_nat i * PAGE_BYTES) then None else translate v b))"
  using assms(1)
proof (induction n)
  case 0
  then show ?case using assms by simp
next
  case (Suc n)
  then obtain v1 where v1: "ofor 0 n (\<lambda>i. virt_unmap_page (RESERVED_ADDR_LO + of_nat i * PAGE_BYTES)) v = Ok v1"
    "wf_vm v1" "tables_distinct v1" "cr3 v1 = cr3 v"
    "\<And>b. pd_idx b \<noteq> 1023 \<Longrightarrow> translate v1 b =
       (if \<exists>i<n. same_page b (RESERVED_ADDR_LO + of_nat i * PAGE_BYTES) then None else translate v b)"
    by auto
  have n: "n < 785408" using Suc.prems by simp
  obtain v2 where v2: "virt_unmap_page (RESERVED_ADDR_LO + of_nat n * PAGE_BYTES) v1 = Ok v2" "wf_vm v2"
    "tables_distinct v2" "cr3 v2 = cr3 v1" "\<And>b. pd_idx b \<noteq> 1023 \<Longrightarrow> translate v2 b =
       (if same_page b (RESERVED_ADDR_LO + of_nat n * PAGE_BYTES) then None else translate v1 b)"
    using unmap_page_lemma [OF v1(2,3) user_page_addr(2,3) [OF n]] by blast
  have "ofor 0 (Suc n) (\<lambda>i. virt_unmap_page (RESERVED_ADDR_LO + of_nat i * PAGE_BYTES)) v = Ok v2"
    using v1(1) v2(1) by (simp add: ofold_append del: obind_eq_Ok)
  moreover have "\<forall>b. pd_idx b \<noteq> 1023 \<longrightarrow> translate v2 b =
       (if \<exists>i<Suc n. same_page b (RESERVED_ADDR_LO + of_nat i * PAGE_BYTES) then None else translate v b)"
    using v1(5) v2(5) by (auto simp: less_Suc_eq)
  ultimately show ?case using v2 v1(4) by auto
qed

lemma reset_directory:
  assumes "wf_vm v" "tables_distinct v"
  shows "\<exists>v'. virt_reset_page_directory v = Ok v' \<and> wf_vm v' \<and> tables_distinct v' \<and>
    (\<forall>b. pd_idx b \<noteq> 1023 \<longrightarrow> translate v' b =
       (if RESERVED_ADDR_LO \<le> b \<and> b < RESERVED_ADDR_HI then None else translate v b))"
proof -
  have n: "unat (RESERVED_ADDR_HI - RESERVED_ADDR_LO) div PAGE_SIZE = 785408" by simp
  obtain v' where v': "virt_reset_page_directory v = Ok v'" "wf_vm v'" "tables_distinct v'"
    "\<And>b. pd_idx b \<noteq> 1023 \<Longrightarrow> translate v' b =
       (if \<exists>i<785408. same_page b (RESERVED_ADDR_LO + of_nat i * PAGE_BYTES) then None else translate v b)"
    using reset_loop [OF order.refl assms] unfolding virt_reset_page_directory_def n by blast
  have "(\<exists>i<785408. same_page b (RESERVED_ADDR_LO + of_nat i * PAGE_BYTES)) \<longleftrightarrow>
      RESERVED_ADDR_LO \<le> b \<and> b < RESERVED_ADDR_HI" for b
  proof
    assume "RESERVED_ADDR_LO \<le> b \<and> b < RESERVED_ADDR_HI"
    then obtain i where "i < 785408" "same_page b (RESERVED_ADDR_LO + of_nat i * PAGE_BYTES)"
      by (blast intro: user_page_cover)
    then show "\<exists>i<785408. same_page b (RESERVED_ADDR_LO + of_nat i * PAGE_BYTES)" by blast
  next
    assume "\<exists>i<785408. same_page b (RESERVED_ADDR_LO + of_nat i * PAGE_BYTES)"
    then obtain i where i: "i < 785408" "same_page b (RESERVED_ADDR_LO + of_nat i * PAGE_BYTES)" by blast
    have "unat (pd_idx b) = (4194304 + i * 4096) div 4194304"
      using i(2) user_page_addr(1) [OF i(1)] by (simp add: same_page_def pd_idx_def word_unat_eq_iff unat_div_mod)
    then have "1 \<le> unat b div 4194304" "unat b div 4194304 < 768"
      using i(1) by (simp_all add: pd_idx_def unat_div_mod div_less_iff_less_mult less_eq_div_iff_mult_less_eq)
    then show "RESERVED_ADDR_LO \<le> b \<and> b < RESERVED_ADDR_HI"
      by (simp add: word_le_nat_alt word_less_nat_alt div_less_iff_less_mult less_eq_div_iff_mult_less_eq)
  qed
  with v' show ?thesis by auto
qed

text \<open>
  C32: resetting the page directory returns with every user address unmapped and every other address
  below the recursive entry translated as before, whatever was mapped.
\<close>

theorem virt_reset_page_directory_correct:
  assumes "wf_vm v" "tables_distinct v"
  shows "\<exists>v'. virt_reset_page_directory v = Ok v' \<and> wf_vm v' \<and> tables_distinct v' \<and>
    (\<forall>b. pd_idx b \<noteq> 1023 \<longrightarrow> translate v' b =
       (if RESERVED_ADDR_LO \<le> b \<and> b < RESERVED_ADDR_HI then None else translate v b))"
  by (rule reset_directory [OF assms])

subsection \<open>A concrete address space\<close>

text \<open>
  The directory is the frame 0x1000, the table of the region from 0x400000 on the frame 0x2000;
  the first page of the region is mapped to 0x5000. The first 32 frames are in use.
\<close>

definition demo_frames :: phys where
  "demo_frames = \<lparr>bm = (\<lambda>_. 0)(0 := 0xFFFFFFFF), elements = 1000, next_i = 0\<rparr>"

definition demo_vm :: vmem where
  "demo_vm = \<lparr>pmem = (\<lambda>_. 0)(0x1FFC := 0x1003, 0x1004 := 0x2003, 0x2000 := 0x5003), cr3 = 0x1000,
     frames = demo_frames, kpage_directory = 0x1000, KERNEL_PAGE_DIR_INDEX = 768,
     scratch_pd = 0xC0200000, scratch_pt = 0xC0201000, scratch_pte = 0xC0202000\<rparr>"

lemma demo_entries:
  assumes "unat i < 1024"
  shows "dir_entry demo_vm i = (if i = 1023 then 0x1003 else if i = 1 then 0x2003 else 0)"
proof -
  have a: "(0x1000 :: u32) AND 0xFFF = 0" "(0x2000 :: u32) AND 0xFFF = 0" by code_simp+
  have "0x1000 + 4 * i \<noteq> 0x1000 + 4 * j" if "i \<noteq> j" "unat j < 1024" for j
    by (rule frame_addr_neq) (use a assms that in auto)
  from this [of 1023] this [of 1]
  have 1: "i \<noteq> 1023 \<Longrightarrow> 0x1000 + 4 * i \<noteq> 0x1FFC" "i \<noteq> 1 \<Longrightarrow> 0x1000 + 4 * i \<noteq> 0x1004" by simp_all
  have "0x1000 + 4 * i \<noteq> 0x2000 + 4 * 0" by (rule frame_addr_neq) (use a assms in auto)
  with 1 show ?thesis by (auto simp: dir_entry_def demo_vm_def)
qed

lemma demo_wf: "wf_vm demo_vm"
proof -
  have "(0x1000 :: u32) AND 0xFFF = 0" "(0x1000 :: u32) OR 3 = 0x1003" by code_simp+
  then show ?thesis by (simp add: wf_vm_def demo_vm_def)
qed

lemma demo_bases: "page_base 0x1003 = 0x1000" "page_base 0x2003 = 0x2000" "page_base 0x5003 = 0x5000"
  by code_simp+

lemma demo_distinct: "tables_distinct demo_vm"
  unfolding tables_distinct_def by (auto simp: demo_entries demo_bases)

lemma demo_idx:
  "pd_idx 0x401000 = 1" "pt_idx 0x401000 = 1" "pd_idx 0x400000 = 1" "pt_idx 0x400000 = 0"
  "pd_idx 0x800000 = 2" "pt_idx 0x800000 = 0" "(0x9000 :: u32) AND 0xFFF = 0" "(1 :: u32) AND 1 = 1"
  "(0x2003 :: u32) AND 1 = 1" "(0x5003 :: u32) AND 1 = 1" "(0x20000 :: u32) AND 0xFFF = 0" "(0x400010 :: u32) AND 0xFFF = 0x10"
  "pd_idx 0x400010 = 1" "pt_idx 0x400010 = 0"
  by code_simp+

lemma demo_entry_at: "pmem demo_vm (page_base (dir_entry demo_vm (pd_idx 0x401000)) + 4 * pt_idx 0x401000) = 0"
  "pmem demo_vm (page_base (dir_entry demo_vm (pd_idx 0x400010)) + 4 * pt_idx 0x400010) = 0x5003"
  by (simp_all add: demo_idx demo_entries demo_bases) (simp_all add: demo_vm_def)

theorem virt_map_page_correct_witness:
  "\<exists>v'. virt_map_page 0x9000 0x401000 7 demo_vm = Ok v' \<and> translate v' 0x401000 = Some 0x9000"
proof -
  have "dir_entry demo_vm (pd_idx 0x401000) AND 1 \<noteq> 0" "pd_idx 0x401000 \<noteq> 1023"
    by (simp_all add: demo_idx demo_entries)
  from virt_map_page_correct [OF demo_wf demo_distinct this demo_idx(7), where flags = 7]
  obtain v' where v': "virt_map_page 0x9000 0x401000 7 demo_vm = Ok v'"
      "\<forall>b. translate v' b = (if same_page b 0x401000 then Some (0x9000 + (b AND 0xFFF)) else translate demo_vm b)"
    unfolding demo_entry_at by auto
  have "(0x401000 :: u32) AND 0xFFF = 0" by code_simp
  then have "translate v' 0x401000 = Some 0x9000" using v'(2) by (simp add: same_page_def)
  with v'(1) show ?thesis by blast
qed

lemma demo_alloc: "\<exists>ph. phys_get_free_4k demo_frames = Ok (0x20000, ph)"
  by (simp add: phys_get_free_4k_def demo_frames_def scan_words.simps scan_bits.simps)

theorem virt_map_page_new_table_witness:
  "\<exists>v'. virt_map_page 0x9000 0x800000 7 demo_vm = Ok v' \<and> translate v' 0x800000 = Some 0x9000"
proof -
  obtain ph where ph: "phys_get_free_4k (frames demo_vm) = Ok (0x20000, ph)"
    using demo_alloc by (auto simp: demo_vm_def)
  have "dir_entry demo_vm (pd_idx 0x800000) AND 1 = 0" by (simp add: demo_idx demo_entries)
  moreover have "fresh_frame demo_vm 0x20000"
    unfolding fresh_frame_def using demo_idx(11) by (auto simp: demo_entries demo_bases)
  ultimately obtain v' where v': "virt_map_page 0x9000 0x800000 7 demo_vm = Ok v'"
      "\<forall>b. pd_idx b \<noteq> 1023 \<longrightarrow>
        translate v' b = (if same_page b 0x800000 then Some (0x9000 + (b AND 0xFFF)) else translate demo_vm b)"
    using virt_map_page_new_table [OF demo_wf demo_distinct _ demo_idx(7) ph, where flags = 7] by blast
  have "(0x800000 :: u32) AND 0xFFF = 0" by code_simp
  then have "translate v' 0x800000 = Some 0x9000" using v'(2) by (simp add: same_page_def demo_idx)
  with v'(1) show ?thesis by blast
qed

theorem virt_get_phys_addr_correct_witness: "virt_get_phys_addr 0x400010 demo_vm = Ok 0x5010"
proof -
  have d: "dir_entry demo_vm (pd_idx 0x400010) AND 1 \<noteq> 0" by (simp add: demo_idx demo_entries)
  have e: "entry_at demo_vm 0x400010 = 0x5003" using demo_entry_at(2) by (simp only: entry_at_def)
  have "translate demo_vm 0x400010 = (if entry_at demo_vm 0x400010 AND 1 = 0 then None
      else Some (page_base (entry_at demo_vm 0x400010) + (0x400010 AND 0xFFF)))"
    using d unfolding translate_entry [OF demo_wf] entry_at_def Let_def by (rule if_not_P)
  then have "translate demo_vm 0x400010 = Some 0x5010"
    unfolding e demo_idx demo_bases by simp
  moreover from d have "virt_get_phys_addr 0x400010 demo_vm =
      Ok (case translate demo_vm 0x400010 of None \<Rightarrow> 0xFFFFFFFF | Some p \<Rightarrow> p)"
    by (intro virt_get_phys_addr_correct [OF demo_wf]) (simp_all only: demo_entry_at, simp_all)
  ultimately show ?thesis by simp
qed

theorem virt_unmap_page_correct_witness:
  "\<exists>v'. virt_unmap_page 0x400010 demo_vm = Ok v' \<and> translate v' 0x400000 = None"
proof -
  have "RESERVED_ADDR_LO \<le> 0x400010" "0x400010 < RESERVED_ADDR_HI" by simp_all
  from virt_unmap_page_correct [OF demo_wf demo_distinct this] show ?thesis
    by (auto simp: demo_idx same_page_def)
qed

theorem virt_reset_page_directory_correct_witness:
  "\<exists>v'. virt_reset_page_directory demo_vm = Ok v' \<and> translate v' 0x400000 = None"
  using virt_reset_page_directory_correct [OF demo_wf demo_distinct] by (force simp: demo_idx)

end
