(* ===== verification/Kernel_State.thy ===== *)
theory Kernel_State
  imports Queues Paging
begin

text \<open>
  The state of the kernel: the process control blocks of \<^verbatim>\<open>src/kernel/pcbs.h\<close>, the globals of
  the scheduler, the clock, the semaphores, the locks, the messages and the serial port, and the
  machine they run on. The queues hold generic pointers; \<open>kptr\<close> tells what a pointer points to,
  so that a datum used at another type is a \<open>Fault\<close>.

  Three views of memory meet here. The nodes and heads of queues are objects of \<open>qh\<close>; the kernel
  heap is the word memory of its \<open>kheap\<close>, which the page-fault handler keeps mapped in every
  address space; everything else is reached through the page tables that \<open>cr3\<close> names. The frames
  are one resource: \<open>qh_of\<close> hands the bitmap of the virtual memory to the heap and \<open>put_q\<close> takes it
  back.
\<close>

subsection \<open>Process control blocks\<close>

datatype pstate = FREE | NEW | READY | RUNNING | SLEEPING | BLOCKED | KILLED

primrec state_code :: "pstate \<Rightarrow> u8" where
  "state_code FREE = 0"
| "state_code NEW = 1"
| "state_code READY = 2"
| "state_code RUNNING = 3"
| "state_code SLEEPING = 4"
| "state_code BLOCKED = 5"
| "state_code KILLED = 6"

abbreviation (input) N_PCBS :: nat where "N_PCBS \<equiv> 25"
abbreviation (input) N_PRIOS :: nat where "N_PRIOS \<equiv> 4"
abbreviation (input) N_READYQ :: nat where "N_READYQ \<equiv> 4"
abbreviation (input) STD_QUANTUM :: u8 where "STD_QUANTUM \<equiv> 10"
abbreviation (input) PRIO_HIGH :: u8 where "PRIO_HIGH \<equiv> 0"
abbreviation (input) PID_INIT :: u16 where "PID_INIT \<equiv> 1"
abbreviation (input) MAX_SEMAPHORES :: nat where "MAX_SEMAPHORES \<equiv> 10"
abbreviation (input) BUF_SIZE :: nat where "BUF_SIZE \<equiv> 2048"

record pcb =
  ctx :: u32
  wakeup :: u32
  page_directory :: u32
  pid :: u16
  ppid :: u16
  stack :: u32
  state :: pstate
  priority :: u8
  quantum :: u8

datatype kptr =
    PcbP nat | SemP nat | LockP u32 | WaiterP u32 | QueueP u32 | MsgP u32

subsection \<open>The other objects of the kernel\<close>

record semaphore =
  sem :: u32
  sem_value :: u32
  sem_waiting :: u32

datatype lockmode = LOCK_READ | LOCK_WRITE

record lockinfo =
  lock :: u32
  readerCount :: u32
  writerWaitingCount :: u32
  lock_waiting :: u32
  hasWriter :: bool

record lockwaiter =
  lw_mode :: lockmode
  lw_pcb :: nat

record message =
  msg_data :: u32
  msg_size :: u32
  fromPid :: u16

record sio =
  inbuffer :: "nat \<Rightarrow> u8"
  inlast :: nat
  innext :: nat
  incount :: nat
  outbuffer :: "nat \<Rightarrow> u8"
  outlast :: nat
  outnext :: nat
  outcount :: nat
  sending :: bool
  ier :: u8

datatype console_event = PutChar u32 | PutCharAt u32 u32 u32

record kernel =
  qh :: "kptr qheap"
  vm :: vmem
  ports :: "(u32 \<times> u8) list"
  console :: "console_event list"
  pcbs :: "nat \<Rightarrow> pcb"
  next_pid :: u16
  pcb_free_queue :: u32
  ready :: "nat \<Rightarrow> u32"
  curr :: "nat option"
  sleeping :: u32
  reading :: u32
  pinwheel :: u32
  pindex :: u32
  system_time :: u32
  sem_count :: u32
  sems :: "nat \<Rightarrow> semaphore"
  semaphores :: u32
  available_semaphores :: u32
  lock_count :: u32
  locks :: u32
  lock_infos :: "u32 \<Rightarrow> lockinfo option"
  lock_waiters :: "u32 \<Rightarrow> lockwaiter option"
  messageQueues :: u32
  waitingPcbs :: u32
  messages :: "u32 \<Rightarrow> message option"
  messageLoc :: u32
  sio_st :: sio

subsection \<open>The queue module on the kernel state\<close>

definition qh_of :: "kernel \<Rightarrow> kptr qheap" where
  "qh_of k = (qh k)\<lparr>kh := (kh (qh k))\<lparr>kphys := frames (vm k)\<rparr>\<rparr>"

definition put_q :: "kptr qheap \<Rightarrow> kernel \<Rightarrow> kernel" where
  "put_q h k = k\<lparr>qh := h, vm := (vm k)\<lparr>frames := kphys (kh h)\<rparr>\<rparr>"

definition kq_insert :: "u32 \<Rightarrow> kptr \<Rightarrow> u32 \<Rightarrow> kernel \<Rightarrow> (status \<times> kernel) outcome" where
  "kq_insert q d key k = obind (q_insert q d key (qh_of k)) (\<lambda>(st, h). Ok (st, put_q h k))"

definition kq_remove :: "u32 \<Rightarrow> kernel \<Rightarrow> (status \<times> kptr option \<times> kernel) outcome" where
  "kq_remove q k = obind (q_remove q (qh_of k)) (\<lambda>(st, d, h). Ok (st, d, put_q h k))"

definition kq_remove_by_key :: "u32 \<Rightarrow> u32 \<Rightarrow> kernel \<Rightarrow> (status \<times> kptr option \<times> kernel) outcome" where
  "kq_remove_by_key q key k = obind (q_remove_by_key q key (qh_of k)) (\<lambda>(st, d, h). Ok (st, d, put_q h k))"

definition kq_get_by_key :: "u32 \<Rightarrow> u32 \<Rightarrow> kernel \<Rightarrow> (status \<times> kptr option) outcome" where
  "kq_get_by_key q key k = q_get_by_key q key (qh_of k)"

definition kq_empty :: "u32 \<Rightarrow> kernel \<Rightarrow> bool outcome" where
  "kq_empty q k = q_empty q (qh_of k)"

definition kq_peek :: "u32 \<Rightarrow> kernel \<Rightarrow> (status \<times> u32 option) outcome" where
  "kq_peek q k = q_peek q True (qh_of k)"

definition kq_alloc :: "comparator \<Rightarrow> kernel \<Rightarrow> (status \<times> u32 option \<times> kernel) outcome" where
  "kq_alloc c k = obind (q_alloc True c (qh_of k)) (\<lambda>(st, p, h). Ok (st, p, put_q h k))"

definition kq_dealloc :: "u32 \<Rightarrow> kernel \<Rightarrow> (status \<times> kernel) outcome" where
  "kq_dealloc q k = obind (q_dealloc q (qh_of k)) (\<lambda>(st, h). Ok (st, put_q h k))"

definition k_malloc :: "u32 \<Rightarrow> kernel \<Rightarrow> (u32 \<times> kernel) outcome" where
  "k_malloc n k = obind (kmalloc n (kh (qh_of k))) (\<lambda>(p, kk). Ok (p, put_q ((qh_of k)\<lparr>kh := kk\<rparr>) k))"

definition k_free :: "u32 \<Rightarrow> kernel \<Rightarrow> kernel outcome" where
  "k_free p k = obind (kfree p (kh (qh_of k))) (\<lambda>kk. Ok (put_q ((qh_of k)\<lparr>kh := kk\<rparr>) k))"

subsection \<open>Memory accesses of the kernel\<close>

text \<open>A word of the kernel heap, or of the address space that is loaded.\<close>

definition in_heap :: "u32 \<Rightarrow> kernel \<Rightarrow> bool" where
  "in_heap a k \<longleftrightarrow> HEAP_START_LOCATION \<le> a \<and> a < end_address (kh (qh k))"

definition kload :: "u32 \<Rightarrow> kernel \<Rightarrow> u32 outcome" where
  "kload a k = (if in_heap a k then Ok (kmem (kh (qh k)) a) else vread a (vm k))"

definition kstore :: "u32 \<Rightarrow> u32 \<Rightarrow> kernel \<Rightarrow> kernel outcome" where
  "kstore a x k =
     (if in_heap a k then Ok (k\<lparr>qh := (qh k)\<lparr>kh := (kh (qh k))\<lparr>kmem := (kmem (kh (qh k)))(a := x)\<rparr>\<rparr>\<rparr>)
      else obind (vwrite a x (vm k)) (\<lambda>v. Ok (k\<lparr>vm := v\<rparr>)))"

definition load_directory :: "u32 \<Rightarrow> kernel \<Rightarrow> kernel" where
  "load_directory pd k = k\<lparr>vm := virt_switch_page_directory pd (vm k)\<rparr>"

definition outb :: "u32 \<Rightarrow> u8 \<Rightarrow> kernel \<Rightarrow> kernel" where
  "outb port v k = k\<lparr>ports := ports k @ [(port, v)]\<rparr>"

definition upd_pcb :: "nat \<Rightarrow> (pcb \<Rightarrow> pcb) \<Rightarrow> kernel \<Rightarrow> kernel" where
  "upd_pcb p f k = k\<lparr>pcbs := (pcbs k)(p := f (pcbs k p))\<rparr>"

text \<open>
  The macros \<^verbatim>\<open>RET\<close> and \<^verbatim>\<open>ARG\<close>: the register \<^verbatim>\<open>eax\<close> of a saved context and the words behind
  it, through whatever address space is loaded.
\<close>

definition set_RET :: "nat \<Rightarrow> u32 \<Rightarrow> kernel \<Rightarrow> kernel outcome" where
  "set_RET p x k = kstore (ctx (pcbs k p) + 48) x k"

definition get_RET :: "nat \<Rightarrow> kernel \<Rightarrow> u32 outcome" where
  "get_RET p k = kload (ctx (pcbs k p) + 48) k"

definition ARG :: "nat \<Rightarrow> u32 \<Rightarrow> kernel \<Rightarrow> u32 outcome" where
  "ARG p n k = kload (ctx (pcbs k p) + 72 + 4 * n) k"

text \<open>The casts of a generic pointer that was taken from a queue.\<close>

definition as_pcb :: "kptr option \<Rightarrow> nat outcome" where
  "as_pcb d = (case d of Some (PcbP p) \<Rightarrow> Ok p | _ \<Rightarrow> Fault)"

definition as_sem :: "kptr option \<Rightarrow> nat outcome" where
  "as_sem d = (case d of Some (SemP s) \<Rightarrow> Ok s | _ \<Rightarrow> Fault)"

definition as_lock :: "kptr option \<Rightarrow> u32 outcome" where
  "as_lock d = (case d of Some (LockP a) \<Rightarrow> Ok a | _ \<Rightarrow> Fault)"

definition as_waiter :: "kptr option \<Rightarrow> u32 outcome" where
  "as_waiter d = (case d of Some (WaiterP a) \<Rightarrow> Ok a | _ \<Rightarrow> Fault)"

definition as_queue :: "kptr option \<Rightarrow> u32 outcome" where
  "as_queue d = (case d of Some (QueueP a) \<Rightarrow> Ok a | _ \<Rightarrow> Fault)"

definition as_msg :: "kptr option \<Rightarrow> u32 outcome" where
  "as_msg d = (case d of Some (MsgP a) \<Rightarrow> Ok a | _ \<Rightarrow> Fault)"

subsection \<open>What the queues of the kernel stand for\<close>

definition krep :: "kernel \<Rightarrow> kptr qspec \<Rightarrow> u32 set \<Rightarrow> bool" where
  "krep k A L \<longleftrightarrow> qrep (qh_of k) A L"

lemma qh_of_put_q [simp]: "qh_of (put_q h k) = h"
  by (simp add: qh_of_def put_q_def)

lemma put_q_fields [simp]:
  "ports (put_q h k) = ports k" "console (put_q h k) = console k" "pcbs (put_q h k) = pcbs k"
  "next_pid (put_q h k) = next_pid k" "pcb_free_queue (put_q h k) = pcb_free_queue k" "ready (put_q h k) = ready k"
  "curr (put_q h k) = curr k" "sleeping (put_q h k) = sleeping k" "reading (put_q h k) = reading k"
  "pinwheel (put_q h k) = pinwheel k" "pindex (put_q h k) = pindex k" "system_time (put_q h k) = system_time k"
  "sem_count (put_q h k) = sem_count k" "sems (put_q h k) = sems k" "semaphores (put_q h k) = semaphores k"
  "available_semaphores (put_q h k) = available_semaphores k" "lock_count (put_q h k) = lock_count k"
  "locks (put_q h k) = locks k" "lock_infos (put_q h k) = lock_infos k" "lock_waiters (put_q h k) = lock_waiters k"
  "messageQueues (put_q h k) = messageQueues k" "waitingPcbs (put_q h k) = waitingPcbs k"
  "messages (put_q h k) = messages k" "messageLoc (put_q h k) = messageLoc k" "sio_st (put_q h k) = sio_st k"
  "cr3 (vm (put_q h k)) = cr3 (vm k)" "pmem (vm (put_q h k)) = pmem (vm k)"
  "kpage_directory (vm (put_q h k)) = kpage_directory (vm k)"
  by (simp_all add: put_q_def)

lemma qh_of_fields [simp]:
  "qh_of (k\<lparr>ports := a1\<rparr>) = qh_of k" "qh_of (k\<lparr>console := a2\<rparr>) = qh_of k" "qh_of (k\<lparr>pcbs := a3\<rparr>) = qh_of k"
  "qh_of (k\<lparr>next_pid := a4\<rparr>) = qh_of k" "qh_of (k\<lparr>pcb_free_queue := a5\<rparr>) = qh_of k" "qh_of (k\<lparr>ready := a6\<rparr>) = qh_of k"
  "qh_of (k\<lparr>curr := a7\<rparr>) = qh_of k" "qh_of (k\<lparr>sleeping := a8\<rparr>) = qh_of k" "qh_of (k\<lparr>reading := a9\<rparr>) = qh_of k"
  "qh_of (k\<lparr>pinwheel := b1\<rparr>) = qh_of k" "qh_of (k\<lparr>pindex := b2\<rparr>) = qh_of k" "qh_of (k\<lparr>system_time := b3\<rparr>) = qh_of k"
  "qh_of (k\<lparr>sem_count := b4\<rparr>) = qh_of k" "qh_of (k\<lparr>sems := b5\<rparr>) = qh_of k" "qh_of (k\<lparr>semaphores := b6\<rparr>) = qh_of k"
  "qh_of (k\<lparr>available_semaphores := b7\<rparr>) = qh_of k" "qh_of (k\<lparr>lock_count := b8\<rparr>) = qh_of k"
  "qh_of (k\<lparr>locks := b9\<rparr>) = qh_of k" "qh_of (k\<lparr>lock_infos := c1\<rparr>) = qh_of k" "qh_of (k\<lparr>lock_waiters := c2\<rparr>) = qh_of k"
  "qh_of (k\<lparr>messageQueues := c3\<rparr>) = qh_of k" "qh_of (k\<lparr>waitingPcbs := c4\<rparr>) = qh_of k"
  "qh_of (k\<lparr>messages := c5\<rparr>) = qh_of k" "qh_of (k\<lparr>messageLoc := c6\<rparr>) = qh_of k" "qh_of (k\<lparr>sio_st := c7\<rparr>) = qh_of k"
  by (simp_all add: qh_of_def)

lemma qh_of_upd_pcb [simp]: "qh_of (upd_pcb p f k) = qh_of k"
  by (simp add: upd_pcb_def)

lemma qh_of_load_directory [simp]: "qh_of (load_directory pd k) = qh_of k"
  by (simp add: load_directory_def qh_of_def virt_switch_page_directory_def)

lemma qh_of_outb [simp]: "qh_of (outb p v k) = qh_of k"
  by (simp add: outb_def)

lemma krep_cong: "qh_of k' = qh_of k \<Longrightarrow> krep k' A L = krep k A L"
  by (simp add: krep_def)

lemma krep_put_q [simp]: "krep (put_q h k) A L = qrep h A L"
  by (simp add: krep_def)

lemma upd_pcb_fields [simp]:
  "pcbs (upd_pcb p f k) = (pcbs k)(p := f (pcbs k p))" "vm (upd_pcb p f k) = vm k" "qh (upd_pcb p f k) = qh k"
  "ready (upd_pcb p f k) = ready k" "curr (upd_pcb p f k) = curr k" "sleeping (upd_pcb p f k) = sleeping k"
  "reading (upd_pcb p f k) = reading k" "pcb_free_queue (upd_pcb p f k) = pcb_free_queue k"
  "sems (upd_pcb p f k) = sems k" "system_time (upd_pcb p f k) = system_time k" "sio_st (upd_pcb p f k) = sio_st k"
  "lock_infos (upd_pcb p f k) = lock_infos k" "lock_waiters (upd_pcb p f k) = lock_waiters k"
  "messages (upd_pcb p f k) = messages k" "locks (upd_pcb p f k) = locks k" "semaphores (upd_pcb p f k) = semaphores k"
  "console (upd_pcb p f k) = console k" "ports (upd_pcb p f k) = ports k" "next_pid (upd_pcb p f k) = next_pid k"
  by (simp_all add: upd_pcb_def)

lemma kq_insert_sim:
  assumes "krep k A L" "A q = Some (c, es)"
  obtains m where "kq_insert q d key k = Panic m"
    | h where "kq_insert q d key k = Ok (SUCCESS, put_q h k)" "qrep h (A(q \<mapsto> (c, spec_insert c d key es))) L"
  using q_insert_sim [of "qh_of k" A L q c es d key] assms by (auto simp: krep_def kq_insert_def)

lemma kq_remove_sim:
  assumes "krep k A L" "A q = Some (c, e # es)"
  obtains h where "kq_remove q k = Ok (SUCCESS, Some (fst e), put_q h k)" "qrep h (A(q \<mapsto> (c, es))) L"
  using q_remove_sim(2) [of "qh_of k" A L q c "e # es" e es] assms by (auto simp: krep_def kq_remove_def)

lemma kq_remove_empty:
  assumes "krep k A L" "A q = Some (c, [])"
  obtains h where "kq_remove q k = Ok (EMPTY_QUEUE, None, put_q h k)" "qrep h A L" "h = qh_of k"
  using q_remove_sim(1) [of "qh_of k" A L q c "[]"] assms by (auto simp: krep_def kq_remove_def)

lemma kq_remove_by_key_sim:
  assumes "krep k A L" "A q = Some (c, es)"
  obtains "es = []" "kq_remove_by_key q key k = Ok (EMPTY_QUEUE, None, put_q (qh_of k) k)"
    | "es \<noteq> []" "spec_remove (\<lambda>e. snd e = key) es = None"
      "kq_remove_by_key q key k = Ok (NOT_FOUND, None, put_q (qh_of k) k)"
    | d es' h where "spec_remove (\<lambda>e. snd e = key) es = Some (d, es')"
      "kq_remove_by_key q key k = Ok (SUCCESS, Some d, put_q h k)" "qrep h (A(q \<mapsto> (c, es'))) L"
proof (cases "es = []")
  case True
  then show thesis using that(1) q_remove_by_key_sim(1) [of "qh_of k" A L q c es] assms
    by (simp add: krep_def kq_remove_by_key_def)
next
  case ne: False
  show thesis
  proof (cases "spec_remove (\<lambda>e. snd e = key) es")
    case None
    then show thesis using ne that(2) q_remove_by_key_sim(2) [of "qh_of k" A L q c es key] assms
      by (simp add: krep_def kq_remove_by_key_def)
  next
    case (Some r)
    then obtain d es' where r: "spec_remove (\<lambda>e. snd e = key) es = Some (d, es')" by (cases r) auto
    then obtain h where "q_remove_by_key q key (qh_of k) = Ok (SUCCESS, Some d, h)" "qrep h (A(q \<mapsto> (c, es'))) L"
      using q_remove_by_key_sim(3) [of "qh_of k" A L q c es key d es'] assms by (auto simp: krep_def)
    then show thesis using r that(3) by (simp add: kq_remove_by_key_def)
  qed
qed

lemma kq_get_by_key_sim:
  assumes "krep k A L" "A q = Some (c, es)"
  shows "kq_get_by_key q key k = Ok (if es = [] then (EMPTY_QUEUE, None)
     else case spec_remove (\<lambda>e. snd e = key) es of None \<Rightarrow> (NOT_FOUND, None) | Some (d, _) \<Rightarrow> (SUCCESS, Some d))"
  using q_get_by_key_sim assms unfolding krep_def kq_get_by_key_def by blast

lemma kq_look:
  assumes "krep k A L" "A q = Some (c, es)"
  shows "kq_empty q k = Ok (es = [])"
    "kq_peek q k = Ok (case es of [] \<Rightarrow> (EMPTY_QUEUE, None) | e # _ \<Rightarrow> (SUCCESS, Some (snd e)))"
  using q_status_sim assms unfolding krep_def kq_empty_def kq_peek_def by blast+

lemma kq_alloc_sim:
  assumes "krep k A L"
  obtains m where "kq_alloc c k = Panic m"
    | q h where "kq_alloc c k = Ok (SUCCESS, Some q, put_q h k)" "q \<noteq> 0" "A q = None" "q \<notin> pointers (qh_of k) L"
      "qrep h (A(q \<mapsto> (c, []))) L"
  using q_alloc_sim [of "qh_of k" A L c] assms by (auto simp: krep_def kq_alloc_def)

lemma kq_dealloc_sim:
  assumes "krep k A L" "A q = Some (c, [])"
  obtains h where "kq_dealloc q k = Ok (SUCCESS, put_q h k)" "qrep h (A(q := None)) L"
  using q_dealloc_sim [of "qh_of k" A L q c] assms by (auto simp: krep_def kq_dealloc_def)

text \<open>Objects of the kernel beside the queues come from the same heap.\<close>

lemma qinv_live:
  assumes I: "qinv h A N L" and k: "heap_live k (dom (queues h) \<union> dom (qnodes h) \<union> L')"
    and L': "L' \<inter> (dom (queues h) \<union> dom (qnodes h)) = {}" "0 \<notin> L'"
  shows "qinv (h\<lparr>kh := k\<rparr>) A N L'"
proof -
  note J = qinvD [OF I]
  have "queue_ok (h\<lparr>kh := k\<rparr>) (A q) q (N q)" for q
    using J(1) [of q] by (cases "A q") (auto simp: queue_ok_def)
  then show ?thesis using J(2-6) k L' by (auto simp: qinv_def pointers_def)
qed

lemma qheap_malloc:
  assumes R: "qrep h A L" and n: "unat n \<le> 2 ^ 28"
  obtains m where "kmalloc n (kh h) = Panic m"
    | p k where "kmalloc n (kh h) = Ok (p, k)" "p \<noteq> 0" "p \<notin> L" "A p = None" "qrep (h\<lparr>kh := k\<rparr>) A (insert p L)"
proof -
  obtain N where I: "qinv h A N L" using R by (auto simp: qrep_def)
  note J = qinvD [OF I]
  from km.alloc_cases [OF J(7) n] show thesis
  proof cases
    case (2 p k)
    then have p: "p \<notin> dom (queues h)" "p \<notin> dom (qnodes h)" "p \<notin> L" by (auto simp: pointers_def)
    have "heap_live k (dom (queues h) \<union> dom (qnodes h) \<union> insert p L)" using 2 by (simp add: pointers_def)
    then have "qinv (h\<lparr>kh := k\<rparr>) A N (insert p L)"
      by (rule qinv_live [OF I]) (use J(5,6) p 2(4) in \<open>auto simp: pointers_def\<close>)
    moreover have "A p = None" using J(1) [of p] p(1) by (auto simp: queue_ok_def split: option.splits)
    ultimately show thesis using that(2) 2 p by (auto simp: qrep_def)
  qed (rule that(1))
qed

lemma qheap_free:
  assumes R: "qrep h A L" and p: "p \<in> L"
  obtains k where "kfree p (kh h) = Ok k" "qrep (h\<lparr>kh := k\<rparr>) A (L - {p})"
proof -
  obtain N where I: "qinv h A N L" using R by (auto simp: qrep_def)
  note J = qinvD [OF I]
  have "p \<in> pointers h L" using p by (simp add: pointers_def)
  from km.free_cases [OF J(7) this] obtain k where k: "kfree p (kh h) = Ok k" "heap_live k (pointers h L - {p})" .
  have "p \<notin> dom (queues h)" "p \<notin> dom (qnodes h)" using J(5) p by (meson disjoint_iff Un_iff)+
  then have "pointers h L - {p} = dom (queues h) \<union> dom (qnodes h) \<union> (L - {p})" by (auto simp: pointers_def)
  with k(2) have "qinv (h\<lparr>kh := k\<rparr>) A N (L - {p})"
    by (intro qinv_live [OF I]) (use J(5,6) in \<open>auto simp: pointers_def\<close>)
  then show thesis using that k(1) by (auto simp: qrep_def)
qed

lemma k_malloc_sim:
  assumes R: "krep k A L" and n: "unat n \<le> 2 ^ 28"
  obtains m where "k_malloc n k = Panic m"
    | p h where "k_malloc n k = Ok (p, put_q h k)" "p \<noteq> 0" "p \<notin> L" "A p = None" "qrep h A (insert p L)"
      "queues h = queues (qh_of k)" "qnodes h = qnodes (qh_of k)"
  using R [unfolded krep_def] n
proof (cases rule: qheap_malloc)
  case (1 m)
  then show thesis using that(1) by (simp add: k_malloc_def)
next
  case (2 p kk)
  then show thesis using that(2) [of p "(qh_of k)\<lparr>kh := kk\<rparr>"] by (simp add: k_malloc_def)
qed

lemma k_free_sim:
  assumes R: "krep k A L" and p: "p \<in> L"
  obtains h where "k_free p k = Ok (put_q h k)" "qrep h A (L - {p})"
  using R [unfolded krep_def] p
proof (cases rule: qheap_free)
  case (1 kk)
  then show thesis using that by (simp add: k_free_def)
qed

lemma spec_insert_null [simp]: "spec_insert CmpNull d key es = es @ [(d, key)]"
proof -
  have "takeWhile (\<lambda>e. True) es = es" "dropWhile (\<lambda>e. True) es = []" by (induction es) simp_all
  then show ?thesis by (simp add: spec_insert_def Let_def)
qed

end
