(* ===== verification/Example.thy ===== *)
theory Example
  imports Kernel_State
begin

text \<open>
  A concrete state of the kernel, at which the properties of the components are applied: a heap
  of equal blocks, twenty queues with at most one entry each, and the address space of
  \<open>demo_vm\<close>.
\<close>

subsection \<open>A heap of equal blocks\<close>

definition slot :: "nat \<Rightarrow> u32" where
  "slot i = 0xD0000004 + 20 * of_nat i"

definition slot_heap :: kheap where
  "slot_heap = \<lparr>kmem = (\<lambda>a. if a = 0xD0000500 then 6912 else if a = 0xD0000504 \<or> a = 0xD0000508 then 0 else 20),
     start_address = 0xD0000000, end_address = 0xD0002000, max_address = 0xE0000000,
     start_node = 0xD0000500, kphys = demo_frames, mapped = []\<rparr>"

definition slots :: "u32 set" where
  "slots = slot ` {..<64}"

lemma unat_slot: "i < 64 \<Longrightarrow> unat (slot i) = 3489660932 + 20 * i"
proof -
  assume i: "i < 64"
  then have "unat (of_nat i :: u32) = i" by (simp add: unat_of_nat take_bit_nat_eq_self)
  then have "unat (20 * of_nat i :: u32) = 20 * i" using i by (simp add: unat_mult_lem [THEN iffD1])
  then show ?thesis unfolding slot_def using i by (subst unat_add_no_wrap) simp_all
qed

lemma slot_inject [simp]: "i < 64 \<Longrightarrow> j < 64 \<Longrightarrow> slot i = slot j \<longleftrightarrow> i = j"
  by (metis add_left_cancel mult_left_cancel unat_slot zero_neq_numeral)

lemma slot_nonzero [simp]: "i < 64 \<Longrightarrow> slot i \<noteq> 0" "i < 64 \<Longrightarrow> 0 \<noteq> slot i"
  using unat_slot [of i] by auto

lemma slot_layout: "layout 3489660928 3489669120 [0xD0000500] ((\<lambda>i. slot i - 4) ` {..<64}) (\<lambda>a. unat (kmem slot_heap a))"
proof -
  let ?b = "\<lambda>i. slot i - 4" and ?sz = "\<lambda>a. unat (kmem slot_heap a)"
  have u: "unat (?b i) = 3489660928 + 20 * i" if "i < 64" for i
    using unat_slot [OF that] by (subst unat_sub_no_wrap) simp_all
  have lt: "unat (?b i) < 3489662208" if "i < 64" for i using u [OF that] that by simp
  have ne: "?b i \<noteq> 0xD0000500" "?b i \<noteq> 0xD0000504" "?b i \<noteq> 0xD0000508" if "i < 64" for i
    using lt [OF that] by auto
  have sz: "?sz (?b i) = 20" if "i < 64" for i using ne [OF that] by (simp add: slot_heap_def)
  have f: "?sz 0xD0000500 = 6912" by (simp add: slot_heap_def)
  have inj: "inj_on ?b {..<64}" by (rule inj_onI) (use slot_inject in auto)
  have "(\<Sum>a\<in>?b ` {..<64}. ?sz a) = (\<Sum>i<64. ?sz (?b i))" by (rule sum.reindex_cong [OF inj refl refl])
  also have "\<dots> = (\<Sum>i<64::nat. 20)" by (rule sum.cong) (use sz in auto)
  finally have sm: "(\<Sum>a\<in>?b ` {..<64}. ?sz a) = 1280" by simp
  define B where "B = ?b ` {..<64}"
  have B: "\<exists>i<64. a = ?b i" if "a \<in> B" for a using that unfolding B_def by blast
  have nf: "0xD0000500 \<notin> B" using ne(1) B by metis
  have fin: "finite B" unfolding B_def by (rule finite_imageI) (rule finite_lessThan)
  have "(\<Sum>a\<in>insert 0xD0000500 B. ?sz a) = ?sz 0xD0000500 + (\<Sum>a\<in>B. ?sz a)"
    by (rule sum.insert [OF fin nf])
  then have tot: "(\<Sum>a\<in>insert 0xD0000500 B. ?sz a) = 8192" using sm f by (simp only: B_def)
  have ap: "apart ?sz a b" if ab: "a \<in> insert 0xD0000500 B" "b \<in> insert 0xD0000500 B" "a \<noteq> b" for a b
  proof -
    have 1: "apart ?sz (?b i) 0xD0000500 \<and> apart ?sz 0xD0000500 (?b i)" if "i < 64" for i
      unfolding apart_def u [OF that] sz [OF that] f using that by simp
    have 2: "apart ?sz (?b i) (?b j)" if ij: "i < 64" "j < 64" "i \<noteq> j" for i j
      unfolding apart_def u [OF ij(1)] u [OF ij(2)] sz [OF ij(1)] sz [OF ij(2)] using ij by linarith
    show ?thesis using ab 1 2 B by (metis insertE)
  qed
  have bo: "block_ok 3489660928 3489669120 ?sz a" if a: "a \<in> insert 0xD0000500 B" for a
  proof (cases "a = 0xD0000500")
    case True
    then show ?thesis unfolding block_ok_def using f by simp
  next
    case False
    then obtain i where i: "i < 64" "a = ?b i" using a B by blast
    have "(3489660928 + 20 * i) mod 4 = 0" by (simp add: mod_add_eq [symmetric] mod_mult_left_eq)
    then show ?thesis unfolding i(2) block_ok_def u [OF i(1)] sz [OF i(1)] using i(1) by simp
  qed
  have "16 \<le> ?sz a" if "a \<in> B" for a using B [OF that] sz by auto
  then show ?thesis
    unfolding layout_def B_def [symmetric] using fin nf ap bo tot f by simp
qed

lemma slot_heap_live: "heap_live slot_heap slots"
proof -
  have "links (kmem slot_heap) 0 [0xD0000500] 0" by (simp add: slot_heap_def)
  then have "heap_inv slot_heap [0xD0000500] ((\<lambda>i. slot i - 4) ` {..<64})"
    using slot_layout
    by (simp add: heap_inv_def heap_shape_def coalesced_def slot_heap_def phys_ok_def demo_frames_def)
  moreover have "slots = (\<lambda>a. a + 4) ` ((\<lambda>i. slot i - 4) ` {..<64})"
    by (simp add: slots_def image_image)
  ultimately show ?thesis unfolding heap_live_def by blast
qed


subsection \<open>Twenty queues\<close>

text \<open>
  Queue \<open>i\<close> is the block \<open>i\<close>; its entry, if it has one, is in the node \<open>20 + i\<close>; the other
  blocks are objects of the modules.
\<close>

type_synonym table = "nat \<Rightarrow> comparator \<times> (kptr \<times> u32) option"

definition slot_index :: "u32 \<Rightarrow> nat" where
  "slot_index a = (unat a - 3489660932) div 20"

lemma slot_index_slot [simp]: "i < 64 \<Longrightarrow> slot_index (slot i) = i"
  by (simp add: slot_index_def unat_slot)

definition table_queues :: "table \<Rightarrow> u32 \<Rightarrow> queue option" where
  "table_queues f q = (if slot_index q < 20 \<and> slot (slot_index q) = q
     then let n = (if snd (f (slot_index q)) = None then 0 else slot (20 + slot_index q))
       in Some \<lparr>head = n, tail = n, compare = fst (f (slot_index q))\<rparr>
     else None)"

definition table_nodes :: "table \<Rightarrow> u32 \<Rightarrow> kptr qnode option" where
  "table_nodes f a = (let i = slot_index a in
     if 20 \<le> i \<and> i < 40 \<and> slot i = a
     then map_option (\<lambda>(d, key). \<lparr>prev = 0, nxt = 0, qdata = d, qkey = key\<rparr>) (snd (f (i - 20)))
     else None)"

definition table_heap :: "table \<Rightarrow> kptr qheap" where
  "table_heap f = \<lparr>kh = slot_heap, qnodes = table_nodes f, queues = table_queues f\<rparr>"

definition table_spec :: "table \<Rightarrow> kptr qspec" where
  "table_spec f q = (if slot_index q < 20 \<and> slot (slot_index q) = q
     then Some (fst (f (slot_index q)), case snd (f (slot_index q)) of None \<Rightarrow> [] | Some e \<Rightarrow> [e])
     else None)"

definition table_rest :: "table \<Rightarrow> u32 set" where
  "table_rest f = slots - (dom (table_queues f) \<union> dom (table_nodes f))"

lemma table_spec_slot [simp]:
  "i < 20 \<Longrightarrow> table_spec f (slot i) = Some (fst (f i), case snd (f i) of None \<Rightarrow> [] | Some e \<Rightarrow> [e])"
  by (simp add: table_spec_def)

lemma table_rest_slot [simp]: "40 \<le> i \<Longrightarrow> i < 64 \<Longrightarrow> slot i \<in> table_rest f"
  by (auto simp: table_rest_def slots_def table_queues_def table_nodes_def Let_def)

lemma table_qrep: "qrep (table_heap f) (table_spec f) (table_rest f)"
proof -
  let ?N = "\<lambda>q. if slot_index q < 20 \<and> slot (slot_index q) = q \<and> snd (f (slot_index q)) \<noteq> None
     then [slot (20 + slot_index q)] else []"
  let ?h = "table_heap f"
  have dq: "dom (table_queues f) \<subseteq> slot ` {..<20}"
    by (force simp: table_queues_def split: if_splits)
  have dn: "dom (table_nodes f) = {slot (20 + i) | i. i < 20 \<and> snd (f i) \<noteq> None}"
  proof (intro set_eqI iffI)
    fix a assume "a \<in> dom (table_nodes f)"
    then have "20 \<le> slot_index a" "slot_index a < 40" "slot (slot_index a) = a" "snd (f (slot_index a - 20)) \<noteq> None"
      by (auto simp: table_nodes_def Let_def split: if_splits)
    then have "a = slot (20 + (slot_index a - 20))" "slot_index a - 20 < 20" by simp_all
    then show "a \<in> {slot (20 + i) | i. i < 20 \<and> snd (f i) \<noteq> None}"
      using \<open>snd (f (slot_index a - 20)) \<noteq> None\<close> by blast
  next
    fix a assume "a \<in> {slot (20 + i) | i. i < 20 \<and> snd (f i) \<noteq> None}"
    then show "a \<in> dom (table_nodes f)" by (auto simp: table_nodes_def)
  qed
  have ok: "queue_ok ?h (table_spec f q) q (?N q)" for q
    by (auto simp: queue_ok_def table_spec_def table_heap_def table_queues_def table_nodes_def Let_def
        split: option.splits)
  have un: "dom (table_nodes f) = (\<Union>q. set (?N q))"
    unfolding dn
  proof (intro set_eqI iffI)
    fix a assume "a \<in> {slot (20 + i) | i. i < 20 \<and> snd (f i) \<noteq> None}"
    then obtain i where "i < 20" "a = slot (20 + i)" "snd (f i) \<noteq> None" by blast
    then show "a \<in> (\<Union>q. set (?N q))" by (intro UN_I [of "slot i"]) simp_all
  qed (auto split: if_splits)
  have disj: "set (?N p) \<inter> set (?N q) = {}" if "p \<noteq> q" for p q
    using that by (auto split: if_splits)
  have qn: "dom (table_queues f) \<inter> dom (table_nodes f) = {}"
    using dq unfolding dn by fastforce
  have sub: "dom (table_queues f) \<union> dom (table_nodes f) \<subseteq> slots"
    using dq unfolding dn slots_def by fastforce
  then have p: "pointers ?h (table_rest f) = slots"
    unfolding pointers_def table_rest_def table_heap_def by auto
  have "0 \<notin> slots" by (auto simp: slots_def)
  then have "qinv ?h (table_spec f) ?N (table_rest f)"
    unfolding qinv_def p using ok un disj qn slot_heap_live
    by (simp add: table_heap_def) (auto simp: table_rest_def)
  then show ?thesis unfolding qrep_def by blast
qed

text \<open>The state of the kernel around such a table; \<open>P\<close> gives the control blocks.\<close>

definition table_kernel :: "table \<Rightarrow> (nat \<Rightarrow> pcb) \<Rightarrow> kernel" where
  "table_kernel f P = \<lparr>qh = table_heap f, vm = demo_vm, ports = [], console = [], pcbs = P, next_pid = 20,
     pcb_free_queue = slot 4, ready = slot, curr = Some 0, sleeping = slot 5, reading = slot 6,
     pinwheel = 0, pindex = 0, system_time = 100, sem_count = 1,
     sems = (\<lambda>i. \<lparr>sem = 1, sem_value = 0, sem_waiting = slot 9\<rparr>), semaphores = slot 7, available_semaphores = slot 8,
     lock_count = 1, locks = slot 10,
     lock_infos = [slot 40 \<mapsto> \<lparr>lock = 1, readerCount = 0, writerWaitingCount = 0, lock_waiting = slot 11, hasWriter = False\<rparr>],
     lock_waiters = Map.empty, messageQueues = slot 12, waitingPcbs = slot 13, messages = Map.empty,
     messageLoc = 0xB0000000,
     sio_st = \<lparr>inbuffer = (\<lambda>_. 0), inlast = 0, innext = 0, incount = 0, outbuffer = (\<lambda>_. 0), outlast = 0,
       outnext = 0, outcount = 0, sending = False, ier = 0\<rparr>\<rparr>"

definition demo_pcb :: "nat \<Rightarrow> pcb" where
  "demo_pcb p = \<lparr>ctx = 0x400000, wakeup = 0, page_directory = 0x1000, pid = of_nat p, ppid = 1, stack = 0,
     state = READY, priority = of_nat (p mod 4), quantum = 5\<rparr>"

lemma table_krep [simp]: "krep (table_kernel f P) (table_spec f) (table_rest f)"
proof -
  have "qh_of (table_kernel f P) = table_heap f"
    by (simp add: qh_of_def table_kernel_def table_heap_def slot_heap_def demo_vm_def)
  then show ?thesis using table_qrep by (simp add: krep_def)
qed

lemma table_kernel_fields [simp]:
  "pcbs (table_kernel f P) = P" "pcb_free_queue (table_kernel f P) = slot 4" "ready (table_kernel f P) = slot"
  "curr (table_kernel f P) = Some 0" "sleeping (table_kernel f P) = slot 5" "reading (table_kernel f P) = slot 6"
  "system_time (table_kernel f P) = 100" "semaphores (table_kernel f P) = slot 7"
  "available_semaphores (table_kernel f P) = slot 8" "locks (table_kernel f P) = slot 10"
  "messageQueues (table_kernel f P) = slot 12" "waitingPcbs (table_kernel f P) = slot 13"
  "vm (table_kernel f P) = demo_vm" "sems (table_kernel f P) i = \<lparr>sem = 1, sem_value = 0, sem_waiting = slot 9\<rparr>"
  by (simp_all add: table_kernel_def)

end
