(* ===== verification/Process.thy ===== *)
theory Process
  imports Example
begin

text \<open>
  Processes: the pool of control blocks (\<^verbatim>\<open>src/kernel/pcbs.c\<close>), the stacks of kernel threads
  (\<^verbatim>\<open>stacks.c\<close>), the four ready queues and the dispatcher (\<^verbatim>\<open>scheduler.c\<close>), the clean-up of
  processes and kernel threads (\<^verbatim>\<open>system.c\<close>) and the clock interrupt (\<^verbatim>\<open>clock.c\<close>). A null pointer
  to a control block is \<open>None\<close>.
\<close>

subsection \<open>Control blocks and stacks\<close>

text \<open>
  \<^verbatim>\<open>_pcb_alloc\<close> clears the page directory of the block it took, also when it took none: then the
  write goes through the null pointer.
\<close>

definition pcb_alloc :: "kernel \<Rightarrow> (nat option \<times> kernel) outcome" where
  "pcb_alloc k =
     obind (kq_remove (pcb_free_queue k) k) (\<lambda>(st, d, k1).
       if st \<noteq> SUCCESS then Fault
       else obind (as_pcb d) (\<lambda>p.
         if state (pcbs k1 p) \<noteq> FREE then Panic ''_pcb_alloc: removed non-FREE pcb''
         else Ok (Some p, upd_pcb p (\<lambda>b. b\<lparr>page_directory := 0\<rparr>) k1)))"

definition pcb_dealloc :: "nat option \<Rightarrow> kernel \<Rightarrow> (status \<times> kernel) outcome" where
  "pcb_dealloc pp k = (case pp of
     None \<Rightarrow> Ok (BAD_PARAM, k)
   | Some p \<Rightarrow> let k1 = upd_pcb p (\<lambda>b. b\<lparr>state := FREE\<rparr>) k in kq_insert (pcb_free_queue k1) (PcbP p) 0 k1)"

definition pcb_init :: "kernel \<Rightarrow> kernel outcome" where
  "pcb_init k =
     obind (kq_alloc CmpNull k) (\<lambda>(st, q, k1).
       if st \<noteq> SUCCESS then Panic ''_pcb_init: PCB queue alloc status''
       else obind (deref q) (\<lambda>q.
         obind (ofor 0 N_PCBS (\<lambda>i k. obind (pcb_dealloc (Some i) k) (\<lambda>(st, k').
            if st \<noteq> SUCCESS then Panic ''_pcb_init: PCB queue insert'' else Ok k'))
          (k1\<lparr>pcb_free_queue := q\<rparr>)) (\<lambda>k2.
         Ok (k2\<lparr>next_pid := PID_INIT\<rparr>))))"

abbreviation (input) sizeof_Stack :: u32 where "sizeof_Stack \<equiv> 4096"

definition stack_alloc :: "kernel \<Rightarrow> (u32 \<times> kernel) outcome" where
  "stack_alloc = k_malloc sizeof_Stack"

definition stack_dealloc :: "u32 \<Rightarrow> kernel \<Rightarrow> (status \<times> kernel) outcome" where
  "stack_dealloc s k = (if s = 0 then Ok (BAD_PARAM, k) else obind (k_free s k) (\<lambda>k'. Ok (SUCCESS, k')))"

subsection \<open>The scheduler\<close>

definition sched_init :: "kernel \<Rightarrow> kernel outcome" where
  "sched_init k =
     obind (ofor 0 N_READYQ (\<lambda>i k. obind (kq_alloc CmpNull k) (\<lambda>(st, q, k').
         if st \<noteq> SUCCESS then Panic ''_sched_init: readyq alloc status''
         else obind (deref q) (\<lambda>q. Ok (k'\<lparr>ready := (ready k')(i := q)\<rparr>)))) k) (\<lambda>k1.
     Ok (k1\<lparr>curr := None\<rparr>))"

definition sched :: "nat option \<Rightarrow> kernel \<Rightarrow> (status \<times> kernel) outcome" where
  "sched pp k = (case pp of
     None \<Rightarrow> Ok (BAD_PARAM, k)
   | Some p \<Rightarrow>
       let prio = unat (priority (pcbs k p)) in
       if prio \<ge> N_READYQ then Ok (BAD_PRIO, k)
       else let key = ucast (pid (pcbs k p)); k1 = upd_pcb p (\<lambda>b. b\<lparr>state := READY\<rparr>) k in
         kq_insert (ready k1 prio) (PcbP p) key k1)"

text \<open>
  \<^verbatim>\<open>_cleanup\<close>. The directory that is given back is the one that is loaded at the time, which is
  the victim's only because the victim is not the current process or its directory is loaded.
\<close>

definition cleanup :: "nat option \<Rightarrow> kernel \<Rightarrow> kernel outcome" where
  "cleanup pp k = (case pp of
     None \<Rightarrow> Ok k
   | Some p \<Rightarrow>
       let k1 = upd_pcb p (\<lambda>b. b\<lparr>state := FREE\<rparr>) k in
       obind (pcb_dealloc (Some p) k1) (\<lambda>(st, k2).
         if st \<noteq> SUCCESS then Panic ''_cleanup: pcb dealloc status''
         else if curr k2 \<noteq> Some p then
           obind (virt_dealloc_page_directory (virt_switch_page_directory (page_directory (pcbs k2 p)) (vm k2))) (\<lambda>v.
           obind (deref (curr k2)) (\<lambda>c.
             Ok (k2\<lparr>vm := virt_switch_page_directory (page_directory (pcbs k2 c)) v\<rparr>)))
         else
           obind (virt_dealloc_page_directory (vm k2)) (\<lambda>v.
             Ok (k2\<lparr>vm := virt_switch_page_directory (kpage_directory v) v\<rparr>))))"

text \<open>
  The dispatcher: the inner loop takes processes from one ready queue until one of them is not
  marked as killed or the queue is empty, cleaning up the killed ones; the outer loop goes through
  the queues.
\<close>

partial_function (option) dispatch_queue :: "nat \<Rightarrow> kernel \<Rightarrow> (bool \<times> kernel) outcome option" where
  "dispatch_queue i k =
     lift_bind (kq_empty (ready k i) k) (\<lambda>e.
       if e then Some (Ok (False, k))
       else lift_bind (kq_remove (ready k i) k) (\<lambda>(st, d, k1).
         if st \<noteq> SUCCESS then Some (Panic ''_dispatch: readyq deque status'')
         else lift_bind (as_pcb d) (\<lambda>p.
           let k2 = k1\<lparr>curr := Some p\<rparr> in
           if state (pcbs k2 p) = KILLED
           then lift_bind (cleanup (Some p) k2) (\<lambda>k3. dispatch_queue i k3)
           else Some (Ok (True, load_directory (page_directory (pcbs k2 p))
                  (upd_pcb p (\<lambda>b. b\<lparr>state := RUNNING, quantum := STD_QUANTUM\<rparr>) k2))))))"

fun dispatch_from :: "nat list \<Rightarrow> kernel \<Rightarrow> kernel outcome" where
  "dispatch_from [] k = Panic ''_dispatch: no non-empty readyq''"
| "dispatch_from (i # is) k =
     obind (of_loop (dispatch_queue i k)) (\<lambda>(found, k1). if found then Ok k1 else dispatch_from is k1)"

definition dispatch :: "kernel \<Rightarrow> kernel outcome" where
  "dispatch = dispatch_from [0..<N_READYQ]"

subsection \<open>Kernel threads\<close>

definition kill_thread :: "nat option \<Rightarrow> kernel \<Rightarrow> kernel outcome" where
  "kill_thread pp k = (case pp of
     None \<Rightarrow> Ok k
   | Some p \<Rightarrow>
       obind (if stack (pcbs k p) \<noteq> 0
              then obind (stack_dealloc (stack (pcbs k p)) k) (\<lambda>(st, k1).
                if st \<noteq> SUCCESS then Panic ''kill thread: stack dealloc status'' else Ok k1)
              else Ok k) (\<lambda>k1.
       obind (pcb_dealloc (Some p) (upd_pcb p (\<lambda>b. b\<lparr>state := FREE\<rparr>) k1)) (\<lambda>(st, k2).
         if st \<noteq> SUCCESS then Panic ''_kill_thread: pcb kill thread status'' else dispatch k2)))"

abbreviation (input) GDT_CODE :: u32 where "GDT_CODE \<equiv> 0x10"
abbreviation (input) GDT_DATA :: u32 where "GDT_DATA \<equiv> 0x18"
abbreviation (input) GDT_STACK :: u32 where "GDT_STACK \<equiv> 0x20"
abbreviation (input) DEFAULT_EFLAGS :: u32 where "DEFAULT_EFLAGS \<equiv> 0x202"

text \<open>The eighteen words of a saved context, and the fields a new thread's context gets.\<close>

definition store_all :: "(u32 \<times> u32) list \<Rightarrow> kernel \<Rightarrow> kernel outcome" where
  "store_all ws = ofold (\<lambda>(a, x). kstore a x) ws"

definition create_kernel_thread :: "u32 \<Rightarrow> nat option \<Rightarrow> u32 \<Rightarrow> kernel \<Rightarrow> (status \<times> kernel) outcome" where
  "create_kernel_thread kill_thread_addr parent entry k = (case parent of
     None \<Rightarrow> Ok (BAD_PARAM, k)
   | Some par \<Rightarrow>
       obind (pcb_alloc k) (\<lambda>(np, k1). case np of
         None \<Rightarrow> Panic ''_create_kernel_thread: Failed to create a new thread''
       | Some new \<Rightarrow>
         let k2 = upd_pcb new (\<lambda>_. pcbs k1 par) k1 in
         obind (if stack (pcbs k2 new) = 0
                then obind (stack_alloc k2) (\<lambda>(s, k'). Ok (s, if s = 0 then k' else upd_pcb new (\<lambda>b. b\<lparr>stack := s\<rparr>) k'))
                else Ok (stack (pcbs k2 new), k2)) (\<lambda>(stk, k3).
         if stk = 0 then Ok (ALLOC_FAILED, k3)
         else
           let k4 = (upd_pcb new (\<lambda>b. b\<lparr>pid := next_pid k3, ppid := pid (pcbs k3 par), state := NEW\<rparr>) k3)
                      \<lparr>next_pid := next_pid k3 + 1\<rparr>;
               ptr = stk + 4096 - 8; cx = ptr - 72 in
           obind (store_all (map (\<lambda>i. (stk + 4 * of_nat i, 0)) [0..<1024]) k4) (\<lambda>k5.
           obind (kstore ptr kill_thread_addr k5) (\<lambda>k6.
           let k7 = upd_pcb new (\<lambda>b. b\<lparr>ctx := cx\<rparr>) k6 in
           obind (store_all [(cx + 64, GDT_CODE), (cx, GDT_STACK), (cx + 16, GDT_DATA), (cx + 12, GDT_DATA),
                    (cx + 8, GDT_DATA), (cx + 4, GDT_DATA), (cx + 68, DEFAULT_EFLAGS), (cx + 32, cx - 4),
                    (cx + 28, stk + 4096 - 8), (cx + 60, entry)] k7) (\<lambda>k8.
           obind (sched (Some new) k8) (\<lambda>(st, k9).
             if st \<noteq> SUCCESS then obind (kill_thread (Some new) k9) (\<lambda>k10. Ok (FAILURE, k10))
             else Ok (SUCCESS, k9))))))))"

subsection \<open>The clock\<close>

abbreviation (input) CLOCK_FREQUENCY :: u32 where "CLOCK_FREQUENCY \<equiv> 1000"
abbreviation (input) TIMER_FREQUENCY :: u32 where "TIMER_FREQUENCY \<equiv> 1193182"
abbreviation (input) PIC_MASTER_CMD_PORT :: u32 where "PIC_MASTER_CMD_PORT \<equiv> 0x20"
abbreviation (input) PIC_EOI :: u8 where "PIC_EOI \<equiv> 0x20"


definition clock_init :: "kernel \<Rightarrow> kernel" where
  "clock_init k =
     (let divisor = TIMER_FREQUENCY div CLOCK_FREQUENCY in
      outb 0x40 (ucast (drop_bit 8 divisor AND 0xFF))
       (outb 0x40 (ucast (divisor AND 0xFF))
        (outb 0x43 0x36 (k\<lparr>pinwheel := 0, pindex := 0, system_time := 0\<rparr>))))"

text \<open>The loop that wakes the sleepers whose time has come.\<close>

partial_function (option) wake_sleepers :: "kernel \<Rightarrow> kernel outcome option" where
  "wake_sleepers k =
     lift_bind (kq_peek (sleeping k) k) (\<lambda>(st, key).
       if st = EMPTY_QUEUE then Some (Ok k)
       else lift_bind (deref key) (\<lambda>key.
         if key > system_time k then Some (Ok k)
         else lift_bind (kq_remove (sleeping k) k) (\<lambda>(st, d, k1).
           if st \<noteq> SUCCESS then Some (Panic ''_isr_clock: sleepq remove status'')
           else lift_bind (as_pcb d) (\<lambda>p.
             lift_bind (sched (Some p) k1) (\<lambda>(st, k2).
               if st \<noteq> SUCCESS then lift_bind (cleanup (Some p) k2) (\<lambda>k3. wake_sleepers k3)
               else wake_sleepers k2)))))"

text \<open>The dump of the queues every 5000 ticks only prints and is left out.\<close>

definition spin_pinwheel :: "kernel \<Rightarrow> kernel" where
  "spin_pinwheel k =
     (let n = pinwheel k + 1 in
      if n = CLOCK_FREQUENCY div 10
      then let i = pindex k + 1 in
        k\<lparr>pinwheel := 0, pindex := i,
          console := console k @ [PutCharAt 79 0 ([0x7C, 0x2F, 0x2D, 0x5C] ! unat (i AND 3))]\<rparr>
      else k\<lparr>pinwheel := n\<rparr>)"

definition isr_clock :: "kernel \<Rightarrow> kernel outcome" where
  "isr_clock k0 =
     (let k1 = spin_pinwheel k0; k2 = k1\<lparr>system_time := system_time k1 + 1\<rparr> in
      obind (of_loop (wake_sleepers k2)) (\<lambda>k3.
      obind (deref (curr k3)) (\<lambda>c.
      obind (if quantum (pcbs k3 c) < 1
             then obind (sched (Some c) k3) (\<lambda>(st, k4).
                    obind (if st \<noteq> SUCCESS then cleanup (Some c) k4 else Ok k4) dispatch)
             else Ok (upd_pcb c (\<lambda>b. b\<lparr>quantum := quantum b - 1\<rparr>) k3)) (\<lambda>k5.
        Ok (outb PIC_MASTER_CMD_PORT PIC_EOI k5)))))"

subsection \<open>Scheduling\<close>

lemma sched_sim:
  assumes R: "krep k A L" and q: "unat (priority (pcbs k p)) < 4"
    and A: "A (ready k (unat (priority (pcbs k p)))) = Some (CmpNull, es)"
  obtains m where "sched (Some p) k = Panic m"
    | h where "sched (Some p) k = Ok (SUCCESS, put_q h (upd_pcb p (\<lambda>b. b\<lparr>state := READY\<rparr>) k))"
      "qrep h (A(ready k (unat (priority (pcbs k p))) \<mapsto> (CmpNull, es @ [(PcbP p, ucast (pid (pcbs k p)))]))) L"
proof -
  let ?k = "upd_pcb p (\<lambda>b. b\<lparr>state := READY\<rparr>) k"
  have "krep ?k A L" using R by (simp add: krep_def)
  from kq_insert_sim [OF this A, of "PcbP p" "ucast (pid (pcbs k p))"] show thesis
    using q that by (auto simp: sched_def Let_def)
qed

lemma sched_bad_prio: "4 \<le> unat (priority (pcbs k p)) \<Longrightarrow> sched (Some p) k = Ok (BAD_PRIO, k)"
  by (simp add: sched_def)

text \<open>Taking the first process of a queue without killed processes.\<close>

definition live_ready :: "kernel \<Rightarrow> (kptr \<times> u32) list \<Rightarrow> bool" where
  "live_ready k es \<longleftrightarrow> (\<forall>e\<in>set es. \<exists>p. fst e = PcbP p \<and> state (pcbs k p) \<noteq> KILLED)"

lemma dispatch_queue_empty:
  assumes "krep k A L" "A (ready k i) = Some (c, [])"
  shows "of_loop (dispatch_queue i k) = Ok (False, k)"
  using kq_look(1) [OF assms] by (simp add: dispatch_queue.simps)

lemma dispatch_queue_first:
  assumes R: "krep k A L" and A: "A (ready k i) = Some (c, (PcbP p, key) # es)" and s: "state (pcbs k p) \<noteq> KILLED"
  obtains h where "of_loop (dispatch_queue i k) = Ok (True, load_directory (page_directory (pcbs k p))
      (upd_pcb p (\<lambda>b. b\<lparr>state := RUNNING, quantum := STD_QUANTUM\<rparr>) ((put_q h k)\<lparr>curr := Some p\<rparr>)))"
    "qrep h (A(ready k i \<mapsto> (c, es))) L"
proof -
  obtain h where h: "kq_remove (ready k i) k = Ok (SUCCESS, Some (PcbP p), put_q h k)" "qrep h (A(ready k i \<mapsto> (c, es))) L"
    using kq_remove_sim [OF R A] by auto
  have "kq_empty (ready k i) k = Ok False" using kq_look(1) [OF R A] by simp
  then have "of_loop (dispatch_queue i k) = Ok (True, load_directory (page_directory (pcbs k p))
      (upd_pcb p (\<lambda>b. b\<lparr>state := RUNNING, quantum := STD_QUANTUM\<rparr>) ((put_q h k)\<lparr>curr := Some p\<rparr>)))"
    using h s by (simp add: dispatch_queue.simps as_pcb_def Let_def)
  then show thesis using that h by blast
qed

lemma dispatch_from_skip:
  assumes "krep k A L" "\<forall>i\<in>set is. \<exists>c. A (ready k i) = Some (c, [])"
  shows "dispatch_from (is @ js) k = dispatch_from js k"
  using assms dispatch_queue_empty [of k A L] by (induction "is") fastforce+

definition dispatched :: "nat \<Rightarrow> kptr qheap \<Rightarrow> kernel \<Rightarrow> kernel" where
  "dispatched p h k = load_directory (page_directory (pcbs k p))
     (upd_pcb p (\<lambda>b. b\<lparr>state := RUNNING, quantum := STD_QUANTUM\<rparr>) ((put_q h k)\<lparr>curr := Some p\<rparr>))"

lemma dispatch_first:
  assumes R: "krep k A L" and i: "i < 4" and A: "A (ready k i) = Some (c, (PcbP p, key) # es)"
    and s: "state (pcbs k p) \<noteq> KILLED" and lower: "\<forall>j<i. \<exists>c. A (ready k j) = Some (c, [])"
  obtains h where "dispatch k = Ok (dispatched p h k)" "qrep h (A(ready k i \<mapsto> (c, es))) L"
proof -
  have sp: "[0..<4] = [0..<i] @ i # [Suc i..<4]"
    using i upt_add_eq_append [of 0 i "4 - i"] upt_conv_Cons [of i 4] by simp
  obtain h where h: "of_loop (dispatch_queue i k) = Ok (True, load_directory (page_directory (pcbs k p))
      (upd_pcb p (\<lambda>b. b\<lparr>state := RUNNING, quantum := STD_QUANTUM\<rparr>) ((put_q h k)\<lparr>curr := Some p\<rparr>)))"
    "qrep h (A(ready k i \<mapsto> (c, es))) L"
    using dispatch_queue_first [OF R A s] by metis
  have "dispatch k = Ok (dispatched p h k)"
    unfolding dispatch_def sp dispatched_def
    by (subst dispatch_from_skip [OF R]) (use lower h(1) in auto)
  then show thesis using that h(2) by blast
qed

lemma dispatched_fields [simp]:
  "curr (dispatched p h k) = Some p" "cr3 (vm (dispatched p h k)) = page_directory (pcbs k p)"
  "qh_of (dispatched p h k) = h"
  "pcbs (dispatched p h k) = (pcbs k)(p := (pcbs k p)\<lparr>state := RUNNING, quantum := STD_QUANTUM\<rparr>)"
  "ready (dispatched p h k) = ready k" "system_time (dispatched p h k) = system_time k"
  "sems (dispatched p h k) = sems k" "sleeping (dispatched p h k) = sleeping k"
  by (simp_all add: dispatched_def load_directory_def virt_switch_page_directory_def)
    (simp_all add: qh_of_def put_q_def upd_pcb_def)


text \<open>
  Scheduling a process makes it ready and puts it at the tail of the ready queue of its
  priority, leaving every other queue and process alone; a priority that has no queue is refused.
\<close>

theorem sched_correct:
  assumes "krep k A L" "unat (priority (pcbs k p)) < 4 \<longrightarrow> A (ready k (unat (priority (pcbs k p)))) = Some (CmpNull, es)"
  shows "if unat (priority (pcbs k p)) \<ge> 4 then sched (Some p) k = Ok (BAD_PRIO, k)
    else (\<exists>m. sched (Some p) k = Panic m) \<or>
      (\<exists>k'. sched (Some p) k = Ok (SUCCESS, k') \<and> pcbs k' = (pcbs k)(p := (pcbs k p)\<lparr>state := READY\<rparr>) \<and>
        krep k' (A(ready k (unat (priority (pcbs k p))) \<mapsto> (CmpNull, es @ [(PcbP p, ucast (pid (pcbs k p)))]))) L)"
proof (cases "unat (priority (pcbs k p)) \<ge> 4")
  case True
  then show ?thesis by (simp add: sched_bad_prio)
next
  case False
  then have "unat (priority (pcbs k p)) < 4" by simp
  note q = this
  have A: "A (ready k (unat (priority (pcbs k p)))) = Some (CmpNull, es)" using assms(2) q by blast
  from sched_sim [OF assms(1) q A] show ?thesis
    by cases (use False in \<open>auto simp del: fun_upd_apply\<close>)
qed

subsection \<open>Waking the sleepers\<close>

definition as_proc :: "kptr \<times> u32 \<Rightarrow> nat" where
  "as_proc e = (case fst e of PcbP p \<Rightarrow> p | _ \<Rightarrow> 0)"

definition ready_entries :: "(nat \<Rightarrow> pcb) \<Rightarrow> nat \<Rightarrow> (kptr \<times> u32) list \<Rightarrow> (kptr \<times> u32) list" where
  "ready_entries P i es = map (\<lambda>p. (PcbP p, ucast (pid (P p)))) (filter (\<lambda>p. unat (priority (P p)) = i) (map as_proc es))"

definition schedulable :: "(nat \<Rightarrow> pcb) \<Rightarrow> (kptr \<times> u32) list \<Rightarrow> bool" where
  "schedulable P es \<longleftrightarrow> (\<forall>e\<in>set es. \<exists>p. fst e = PcbP p \<and> unat (priority (P p)) < 4)"

definition make_ready :: "(kptr \<times> u32) list \<Rightarrow> (nat \<Rightarrow> pcb) \<Rightarrow> (nat \<Rightarrow> pcb)" where
  "make_ready es P = (\<lambda>p. if p \<in> as_proc ` set es then (P p)\<lparr>state := READY\<rparr> else P p)"

lemma make_ready_simps [simp]:
  "make_ready [] P = P" "make_ready (e # es) P = make_ready es (P(as_proc e := (P (as_proc e))\<lparr>state := READY\<rparr>))"
  by (auto simp: make_ready_def fun_eq_iff)

lemma ready_entries_upd [simp]:
  "ready_entries (P(p := (P p)\<lparr>state := s\<rparr>)) i es = ready_entries P i es"
proof -
  have "(P(p := (P p)\<lparr>state := s\<rparr>)) q = P q \<or> (pid ((P(p := (P p)\<lparr>state := s\<rparr>)) q) = pid (P q) \<and>
      priority ((P(p := (P p)\<lparr>state := s\<rparr>)) q) = priority (P q))" for q by simp
  then have "pid ((P(p := (P p)\<lparr>state := s\<rparr>)) q) = pid (P q)" "priority ((P(p := (P p)\<lparr>state := s\<rparr>)) q) = priority (P q)"
    for q by metis+
  then show ?thesis by (simp only: ready_entries_def)
qed

lemma schedulable_upd [simp]: "schedulable (P(p := (P p)\<lparr>state := s\<rparr>)) es = schedulable P es"
proof -
  have "priority ((P(p := (P p)\<lparr>state := s\<rparr>)) q) = priority (P q)" for q by simp
  then show ?thesis by (simp only: schedulable_def)
qed

text \<open>The queues of the kernel that are involved are there and are different.\<close>

definition ready_spec :: "kernel \<Rightarrow> kptr qspec \<Rightarrow> (nat \<Rightarrow> (kptr \<times> u32) list) \<Rightarrow> bool" where
  "ready_spec k A R \<longleftrightarrow> (\<forall>i<4. A (ready k i) = Some (CmpNull, R i)) \<and> inj_on (ready k) {..<4}"

lemma wake_loop:
  assumes "krep k A L" "A (sleeping k) = Some (c, es)" "ready_spec k A R" "sleeping k \<notin> ready k ` {..<4}"
    "schedulable (pcbs k) es"
  shows "(\<exists>m. of_loop (wake_sleepers k) = Panic m) \<or>
    (\<exists>k' A'. of_loop (wake_sleepers k) = Ok k' \<and> krep k' A' L \<and>
       A' (sleeping k) = Some (c, dropWhile (\<lambda>e. snd e \<le> system_time k) es) \<and>
       ready_spec k A' (\<lambda>i. R i @ ready_entries (pcbs k) i (takeWhile (\<lambda>e. snd e \<le> system_time k) es)) \<and>
       (\<forall>q. q \<noteq> sleeping k \<longrightarrow> q \<notin> ready k ` {..<4} \<longrightarrow> A' q = A q) \<and>
       pcbs k' = make_ready (takeWhile (\<lambda>e. snd e \<le> system_time k) es) (pcbs k) \<and>
       ready k' = ready k \<and> sleeping k' = sleeping k \<and> curr k' = curr k \<and> system_time k' = system_time k)"
  using assms
proof (induction es arbitrary: k A R)
  case Nil
  then have "of_loop (wake_sleepers k) = Ok k"
    using kq_look(2) [OF Nil.prems(1,2)] by (simp add: wake_sleepers.simps)
  then show ?case using Nil.prems by (auto simp: ready_entries_def)
next
  case (Cons e es)
  have pk: "kq_peek (sleeping k) k = Ok (SUCCESS, Some (snd e))"
    using kq_look(2) [OF Cons.prems(1,2)] by simp
  show ?case
  proof (cases "snd e > system_time k")
    case True
    then have "of_loop (wake_sleepers k) = Ok k" using pk by (simp add: wake_sleepers.simps)
    then show ?thesis using Cons.prems True by (auto simp: ready_entries_def)
  next
    case le: False
    obtain p where p: "fst e = PcbP p" "unat (priority (pcbs k p)) < 4" and sch: "schedulable (pcbs k) es"
      using Cons.prems(5) by (auto simp: schedulable_def)
    let ?i = "unat (priority (pcbs k p))"
    obtain h where h: "kq_remove (sleeping k) k = Ok (SUCCESS, Some (PcbP p), put_q h k)"
      "qrep h (A(sleeping k \<mapsto> (c, es))) L"
      using kq_remove_sim [OF Cons.prems(1,2)] p(1) by metis
    let ?k1 = "put_q h k" and ?A1 = "A(sleeping k \<mapsto> (c, es))"
    have k1: "krep ?k1 ?A1 L" using h(2) by simp
    have rs: "sleeping k \<noteq> ready k j" "ready k j \<noteq> sleeping k" if "j < 4" for j using Cons.prems(4) that by (metis imageI lessThan_iff)+
    have q1: "unat (priority (pcbs ?k1 p)) < 4" using p(2) by simp
    have A1: "?A1 (ready ?k1 (unat (priority (pcbs ?k1 p)))) = Some (CmpNull, R ?i)"
      using Cons.prems(3) rs(1) [OF p(2)] p(2) by (simp add: ready_spec_def)
    from sched_sim [OF k1 q1 A1] show ?thesis
    proof cases
      case (1 m)
      then have "of_loop (wake_sleepers k) = Panic m"
        using pk le h(1) by (subst wake_sleepers.simps) (simp add: as_pcb_def)
      then show ?thesis by blast
    next
      case (2 h2)
      let ?k2 = "put_q h2 (upd_pcb p (\<lambda>b. b\<lparr>state := READY\<rparr>) ?k1)"
      let ?e = "(PcbP p, ucast (pid (pcbs k p)))"
      let ?A2 = "?A1(ready k ?i \<mapsto> (CmpNull, R ?i @ [?e]))"
      have run: "of_loop (wake_sleepers k) = of_loop (wake_sleepers ?k2)"
        using pk le h(1) 2(1) by (subst wake_sleepers.simps) (simp add: as_pcb_def)
      have k2: "krep ?k2 ?A2 L" using 2(2) by (simp del: fun_upd_apply)
      have s2: "?A2 (sleeping ?k2) = Some (c, es)" using rs(1) [OF p(2)] by simp
      let ?R2 = "R(?i := R ?i @ [?e])"
      have "inj_on (ready k) {..<4}" using Cons.prems(3) by (simp add: ready_spec_def)
      then have "ready k j \<noteq> ready k ?i" if "j < 4" "j \<noteq> ?i" for j using that p(2) by (auto dest: inj_onD)
      then have r2: "ready_spec ?k2 ?A2 ?R2"
        using Cons.prems(3) rs by (auto simp: ready_spec_def)
      have f2: "pcbs ?k2 = (pcbs k)(p := (pcbs k p)\<lparr>state := READY\<rparr>)" "ready ?k2 = ready k" "sleeping ?k2 = sleeping k"
        "system_time ?k2 = system_time k" "curr ?k2 = curr k" "ready_spec ?k2 = ready_spec k"
        by (simp_all add: put_q_def upd_pcb_def ready_spec_def fun_eq_iff)
      have sch2: "schedulable (pcbs ?k2) es" unfolding f2 schedulable_upd by (rule sch)
      have ns2: "sleeping ?k2 \<notin> ready ?k2 ` {..<4}" unfolding f2 by (rule Cons.prems(4))
      have "(\<exists>m. of_loop (wake_sleepers ?k2) = Panic m) \<or>
        (\<exists>k' A'. of_loop (wake_sleepers ?k2) = Ok k' \<and> krep k' A' L \<and>
           A' (sleeping k) = Some (c, dropWhile (\<lambda>e. snd e \<le> system_time k) es) \<and>
           ready_spec k A' (\<lambda>i. ?R2 i @ ready_entries (pcbs k) i (takeWhile (\<lambda>e. snd e \<le> system_time k) es)) \<and>
           (\<forall>q. q \<noteq> sleeping k \<longrightarrow> q \<notin> ready k ` {..<4} \<longrightarrow> A' q = ?A2 q) \<and>
           pcbs k' = make_ready (takeWhile (\<lambda>e. snd e \<le> system_time k) es) ((pcbs k)(p := (pcbs k p)\<lparr>state := READY\<rparr>)) \<and>
           ready k' = ready k \<and> sleeping k' = sleeping k \<and> curr k' = curr k \<and> system_time k' = system_time k)"
        using Cons.IH [OF k2 s2 r2 ns2 sch2] unfolding f2 ready_entries_upd .
      moreover have "?R2 j @ ready_entries (pcbs k) j xs = R j @ ready_entries (pcbs k) j (e # xs)" for j xs
        using p(1) by (simp add: ready_entries_def as_proc_def)
      moreover have "as_proc e = p" using p(1) by (simp add: as_proc_def)
      moreover have "?A2 q = A q" if "q \<noteq> sleeping k" "q \<notin> ready k ` {..<4}" for q
      proof -
        have "q \<noteq> ready k ?i" using that(2) p(2) by (metis imageI lessThan_iff)
        then show ?thesis using that(1) by simp
      qed
      moreover have "takeWhile (\<lambda>e. snd e \<le> system_time k) (e # es) = e # takeWhile (\<lambda>e. snd e \<le> system_time k) es"
        "dropWhile (\<lambda>e. snd e \<le> system_time k) (e # es) = dropWhile (\<lambda>e. snd e \<le> system_time k) es"
        using le by (simp_all add: not_less)
      ultimately show ?thesis unfolding run by (simp del: fun_upd_apply)
    qed
  qed
qed

subsection \<open>A tick of the clock\<close>

lemma dispatch_some:
  assumes R: "krep k A L" and Q: "ready_spec k A R" and live: "\<forall>i<4. live_ready k (R i)" and ne: "\<exists>i<4. R i \<noteq> []"
  obtains i p key es h where "i < 4" "\<forall>j<i. R j = []" "R i = (PcbP p, key) # es"
    "dispatch k = Ok (dispatched p h k)" "qrep h (A(ready k i \<mapsto> (CmpNull, es))) L"
proof -
  define i where "i = (LEAST i. i < 4 \<and> R i \<noteq> [])"
  have i: "i < 4" "R i \<noteq> []" using ne LeastI_ex [of "\<lambda>i. i < 4 \<and> R i \<noteq> []"] by (auto simp: i_def)
  have lower: "R j = []" if "j < i" for j
    using not_less_Least [of j "\<lambda>i. i < 4 \<and> R i \<noteq> []"] that i(1) by (auto simp: i_def)
  obtain e es where e: "R i = e # es" using i(2) by (cases "R i") auto
  then obtain p where p: "fst e = PcbP p" "state (pcbs k p) \<noteq> KILLED"
    using live i(1) unfolding live_ready_def by (metis list.set_intros(1))
  then have e': "R i = (PcbP p, snd e) # es" using e by (cases e) simp
  have A: "A (ready k i) = Some (CmpNull, (PcbP p, snd e) # es)" using Q i(1) e' by (simp add: ready_spec_def)
  have "\<forall>j<i. \<exists>c. A (ready k j) = Some (c, [])" using Q lower i(1) by (auto simp: ready_spec_def)
  from dispatch_first [OF R i(1) A p(2) this] show thesis using that i(1) lower e' by metis
qed

lemma spin_fields [simp]:
  "qh_of (spin_pinwheel k) = qh_of k" "pcbs (spin_pinwheel k) = pcbs k" "ready (spin_pinwheel k) = ready k"
  "curr (spin_pinwheel k) = curr k" "sleeping (spin_pinwheel k) = sleeping k" "system_time (spin_pinwheel k) = system_time k"
  by (simp_all add: spin_pinwheel_def Let_def)

lemma make_ready_state: "state (make_ready ws P p) = (if p \<in> as_proc ` set ws then READY else state (P p))"
  by (simp add: make_ready_def)

lemma live_ready_mono:
  assumes "live_ready k es" "\<And>p. state (pcbs k p) \<noteq> KILLED \<Longrightarrow> state (pcbs k' p) \<noteq> KILLED"
  shows "live_ready k' es"
  unfolding live_ready_def
proof
  fix e assume "e \<in> set es"
  then obtain p where "fst e = PcbP p" "state (pcbs k p) \<noteq> KILLED" using assms(1) unfolding live_ready_def by blast
  then show "\<exists>p. fst e = PcbP p \<and> state (pcbs k' p) \<noteq> KILLED" using assms(2) by blast
qed

lemma live_ready_append: "live_ready k (xs @ ys) \<longleftrightarrow> live_ready k xs \<and> live_ready k ys"
  unfolding live_ready_def set_append ball_Un ..

lemma isr_clock_wake:
  assumes R: "krep k A L" and S: "A (sleeping k) = Some (c, es)" and Q: "ready_spec k A R"
    and ns: "sleeping k \<notin> ready k ` {..<4}" and sch: "schedulable (pcbs k) es" and cu: "curr k = Some p"
  defines "W \<equiv> takeWhile (\<lambda>e. snd e \<le> system_time k + 1) es"
  shows "(\<exists>m. isr_clock k = Panic m) \<or> (\<exists>k3 A'. krep k3 A' L \<and>
     A' (sleeping k) = Some (c, dropWhile (\<lambda>e. snd e \<le> system_time k + 1) es) \<and>
     ready_spec k3 A' (\<lambda>i. R i @ ready_entries (pcbs k) i W) \<and> pcbs k3 = make_ready W (pcbs k) \<and>
     ready k3 = ready k \<and> sleeping k3 = sleeping k \<and> system_time k3 = system_time k + 1 \<and>
     isr_clock k = obind (if quantum (pcbs k3 p) < 1
             then obind (sched (Some p) k3) (\<lambda>(st, k4).
                    obind (if st \<noteq> SUCCESS then cleanup (Some p) k4 else Ok k4) dispatch)
             else Ok (upd_pcb p (\<lambda>b. b\<lparr>quantum := quantum b - 1\<rparr>) k3)) (\<lambda>k5.
        Ok (outb PIC_MASTER_CMD_PORT PIC_EOI k5)))"
proof -
  define k2 where "k2 = (spin_pinwheel k)\<lparr>system_time := system_time (spin_pinwheel k) + 1\<rparr>"
  have f: "qh_of k2 = qh_of k" "pcbs k2 = pcbs k" "ready k2 = ready k" "sleeping k2 = sleeping k"
    "curr k2 = Some p" "system_time k2 = system_time k + 1" using cu by (simp_all add: k2_def)
  have 1: "krep k2 A L" "A (sleeping k2) = Some (c, es)" "ready_spec k2 A R" "sleeping k2 \<notin> ready k2 ` {..<4}"
    "schedulable (pcbs k2) es" using R S Q ns sch by (simp_all add: krep_def ready_spec_def f)
  have e: "isr_clock k = obind (of_loop (wake_sleepers k2)) (\<lambda>k3.
      obind (deref (curr k3)) (\<lambda>c.
      obind (if quantum (pcbs k3 c) < 1
             then obind (sched (Some c) k3) (\<lambda>(st, k4).
                    obind (if st \<noteq> SUCCESS then cleanup (Some c) k4 else Ok k4) dispatch)
             else Ok (upd_pcb c (\<lambda>b. b\<lparr>quantum := quantum b - 1\<rparr>) k3)) (\<lambda>k5.
        Ok (outb PIC_MASTER_CMD_PORT PIC_EOI k5))))"
    unfolding isr_clock_def k2_def Let_def ..
  note wl = wake_loop [OF 1, unfolded f, folded W_def]
  show ?thesis using wl
  proof (elim disjE exE conjE)
    fix m assume "of_loop (wake_sleepers k2) = Panic m"
    then show ?thesis using e by simp
  next
    fix k3 A'
    assume 2: "of_loop (wake_sleepers k2) = Ok k3" "krep k3 A' L"
       "A' (sleeping k) = Some (c, dropWhile (\<lambda>e. snd e \<le> system_time k + 1) es)"
       "ready_spec k2 A' (\<lambda>i. R i @ ready_entries (pcbs k) i W)" "pcbs k3 = make_ready W (pcbs k)"
       "ready k3 = ready k" "sleeping k3 = sleeping k" "curr k3 = Some p" "system_time k3 = system_time k + 1"
    have "isr_clock k = obind (if quantum (pcbs k3 p) < 1
             then obind (sched (Some p) k3) (\<lambda>(st, k4).
                    obind (if st \<noteq> SUCCESS then cleanup (Some p) k4 else Ok k4) dispatch)
             else Ok (upd_pcb p (\<lambda>b. b\<lparr>quantum := quantum b - 1\<rparr>) k3)) (\<lambda>k5.
        Ok (outb PIC_MASTER_CMD_PORT PIC_EOI k5))"
      unfolding e 2(1) obind.simps 2(8) deref_simps ..
    moreover have "ready_spec k3 A' (\<lambda>i. R i @ ready_entries (pcbs k) i W)"
      using 2(4) by (simp add: ready_spec_def f 2(6))
    ultimately show ?thesis using 2 by blast
  qed
qed

text \<open>
  C12: a tick within the quantum of the current process wakes exactly the sleepers whose time has
  come, in the order of the sleep queue, each at the tail of the ready queue of its priority, and
  takes one off the quantum; the current process goes on. (The kernel heap may panic.)
\<close>

theorem isr_clock_tick:
  assumes "krep k A L" "A (sleeping k) = Some (c, es)" "ready_spec k A R" "sleeping k \<notin> ready k ` {..<4}"
    and "schedulable (pcbs k) es" "curr k = Some p" "quantum (pcbs k p) \<noteq> 0"
  shows "(\<exists>m. isr_clock k = Panic m) \<or> (\<exists>k' A'. isr_clock k = Ok k' \<and> krep k' A' L \<and>
     A' (sleeping k) = Some (c, dropWhile (\<lambda>e. snd e \<le> system_time k + 1) es) \<and>
     ready_spec k' A' (\<lambda>i. R i @ ready_entries (pcbs k) i (takeWhile (\<lambda>e. snd e \<le> system_time k + 1) es)) \<and>
     quantum (pcbs k' p) = quantum (pcbs k p) - 1 \<and> system_time k' = system_time k + 1)"
proof -
  have q: "quantum (make_ready ws P p) = quantum (P p)" for ws P by (simp add: make_ready_def)
  have o: "krep (outb x y k') A' L = krep k' A' L" "ready_spec (outb x y k') A' R' = ready_spec k' A' R'"
    "pcbs (outb x y k') = pcbs k'" "system_time (outb x y k') = system_time k'"
    "krep (upd_pcb p f k') A' L = krep k' A' L" "ready_spec (upd_pcb p f k') A' R' = ready_spec k' A' R'" for x y k' A' R' f
    by (simp_all add: krep_def ready_spec_def outb_def)
  have n: "\<not> quantum (make_ready ws (pcbs k) p) < 1" for ws using assms(7) q by simp
  show ?thesis using isr_clock_wake [OF assms(1-6)]
  proof (elim disjE exE conjE)
    fix k3 A'
    assume *: "krep k3 A' L" "A' (sleeping k) = Some (c, dropWhile (\<lambda>e. snd e \<le> system_time k + 1) es)"
      "ready_spec k3 A' (\<lambda>i. R i @ ready_entries (pcbs k) i (takeWhile (\<lambda>e. snd e \<le> system_time k + 1) es))"
      "pcbs k3 = make_ready (takeWhile (\<lambda>e. snd e \<le> system_time k + 1) es) (pcbs k)"
      "system_time k3 = system_time k + 1"
      "isr_clock k = obind (if quantum (pcbs k3 p) < 1
             then obind (sched (Some p) k3) (\<lambda>(st, k4).
                    obind (if st \<noteq> SUCCESS then cleanup (Some p) k4 else Ok k4) dispatch)
             else Ok (upd_pcb p (\<lambda>b. b\<lparr>quantum := quantum b - 1\<rparr>) k3)) (\<lambda>k5.
        Ok (outb PIC_MASTER_CMD_PORT PIC_EOI k5))"
    let ?k' = "outb PIC_MASTER_CMD_PORT PIC_EOI (upd_pcb p (\<lambda>b. b\<lparr>quantum := quantum b - 1\<rparr>) k3)"
    have "isr_clock k = Ok ?k'" unfolding *(6) *(4) if_not_P [OF n] obind.simps ..
    moreover have "quantum (pcbs ?k' p) = quantum (pcbs k p) - 1" "system_time ?k' = system_time k + 1"
      using *(4,5) by (simp_all add: o q)
    moreover have "krep ?k' A' L" "ready_spec ?k' A' (\<lambda>i. R i @ ready_entries (pcbs k) i (takeWhile (\<lambda>e. snd e \<le> system_time k + 1) es))"
      using *(1,3) by (simp_all add: o)
    ultimately show ?thesis using *(2) by blast
  qed blast
qed

lemma ready_neq: "ready_spec k A R \<Longrightarrow> i < 4 \<Longrightarrow> j < 4 \<Longrightarrow> ready k j = ready k i \<longleftrightarrow> j = i"
  by (auto simp: ready_spec_def dest: inj_onD)

lemma ready_spec_insert:
  "ready_spec k A R \<Longrightarrow> i < 4 \<Longrightarrow> ready_spec k (A(ready k i \<mapsto> (CmpNull, R i @ [e]))) (\<lambda>j. R j @ (if j = i then [e] else []))"
  using ready_neq [of k A R i] by (auto simp: ready_spec_def)

lemma ready_spec_rest: "ready_spec k A R \<Longrightarrow> i < 4 \<Longrightarrow> ready_spec k (A(ready k i \<mapsto> (CmpNull, es))) (R(i := es))"
  using ready_neq [of k A R i] by (auto simp: ready_spec_def)

lemma ready_spec_cong: "ready k' = ready k \<Longrightarrow> ready_spec k' A R = ready_spec k A R"
  by (simp add: ready_spec_def)

lemma dispatch_spec:
  assumes R: "krep k A L" and Q: "ready_spec k A R" and live: "\<forall>i<4. live_ready k (R i)" and ne: "\<exists>i<4. R i \<noteq> []"
  obtains i p key es k' where "dispatch k = Ok k'" "i < 4" "\<forall>j<i. R j = []" "R i = (PcbP p, key) # es"
    "krep k' (A(ready k i \<mapsto> (CmpNull, es))) L" "ready_spec k' (A(ready k i \<mapsto> (CmpNull, es))) (R(i := es))"
    "curr k' = Some p" "cr3 (vm k') = page_directory (pcbs k p)" "sleeping k' = sleeping k" "ready k' = ready k"
    "pcbs k' = (pcbs k)(p := (pcbs k p)\<lparr>state := RUNNING, quantum := STD_QUANTUM\<rparr>)"
proof -
  obtain i p key es h where d: "i < 4" "\<forall>j<i. R j = []" "R i = (PcbP p, key) # es"
    "dispatch k = Ok (dispatched p h k)" "qrep h (A(ready k i \<mapsto> (CmpNull, es))) L"
    using dispatch_some [OF R Q live ne] by metis
  have "krep (dispatched p h k) (A(ready k i \<mapsto> (CmpNull, es))) L" using d(5) by (simp add: krep_def del: fun_upd_apply)
  moreover have "ready_spec (dispatched p h k) (A(ready k i \<mapsto> (CmpNull, es))) (R(i := es))"
    using ready_spec_rest [OF Q d(1)] by (subst ready_spec_cong [where k = k]) simp_all
  ultimately show thesis by (rule that [OF d(4,1,2,3)]) simp_all
qed

lemma make_ready_fields:
  "quantum (make_ready ws P x) = quantum (P x)" "priority (make_ready ws P x) = priority (P x)"
  "pid (make_ready ws P x) = pid (P x)" "page_directory (make_ready ws P x) = page_directory (P x)"
  by (simp_all add: make_ready_def)

text \<open>A process that is put at the end of its ready queue, and the dispatcher.\<close>

lemma yield_ready:
  assumes R: "krep k A L" and Q: "ready_spec k A R" and live: "\<forall>i<4. live_ready k (R i)"
    and pr: "unat (priority (pcbs k p)) < 4"
    and R': "R' = (\<lambda>i. R i @ (if i = unat (priority (pcbs k p)) then [(PcbP p, ucast (pid (pcbs k p)))] else []))"
  obtains m where "sched (Some p) k = Panic m"
  | h k1 A1 where "sched (Some p) k = Ok (SUCCESS, k1)" "k1 = put_q h (upd_pcb p (\<lambda>b. b\<lparr>state := READY\<rparr>) k)" "krep k1 A1 L"
      "ready_spec k1 A1 R'" "\<forall>i<4. live_ready k1 (R' i)" "\<exists>i<4. R' i \<noteq> []" "\<forall>q. q \<notin> ready k ` {..<4} \<longrightarrow> A1 q = A q"
proof -
  let ?i = "unat (priority (pcbs k p))"
  have "A (ready k ?i) = Some (CmpNull, R ?i)" using Q pr by (simp add: ready_spec_def)
  from sched_sim [OF R pr this] show thesis
  proof cases
    case (1 m)
    then show thesis using that(1) by simp
  next
    case (2 h)
    let ?A = "A(ready k ?i \<mapsto> (CmpNull, R ?i @ [(PcbP p, ucast (pid (pcbs k p)))]))"
    let ?k1 = "put_q h (upd_pcb p (\<lambda>b. b\<lparr>state := READY\<rparr>) k)"
    have "ready_spec ?k1 ?A R'" using ready_spec_insert [OF Q pr] unfolding R' by (subst ready_spec_cong [where k = k]) simp_all
    moreover have "live_ready ?k1 (R' i)" if "i < 4" for i
    proof -
      have "live_ready ?k1 (R i)" using live that by (auto elim!: live_ready_mono split: if_splits)
      then show ?thesis by (simp add: R' live_ready_append) (simp add: live_ready_def)
    qed
    moreover have "\<exists>i<4. R' i \<noteq> []" using pr by (auto simp: R')
    moreover have "\<forall>q. q \<notin> ready k ` {..<4} \<longrightarrow> ?A q = A q" using pr by auto
    ultimately show thesis using that(2) [OF 2(1) refl] 2(2) by (simp del: fun_upd_apply)
  qed
qed

subsection \<open>Dispatching\<close>

text \<open>
  What the clean-up does to the address space: the directories that are loaded and known stay the
  same, and the page allocator stays in order.
\<close>

lemma vwrite_keeps:
  "vwrite a x v = Ok v' \<Longrightarrow> cr3 v' = cr3 v \<and> kpage_directory v' = kpage_directory v \<and> frames v' = frames v"
  by (auto simp: vwrite_def)

definition same_dirs :: "vmem \<Rightarrow> vmem \<Rightarrow> bool" where
  "same_dirs v v' \<longleftrightarrow> cr3 v' = cr3 v \<and> kpage_directory v' = kpage_directory v \<and> (phys_ok (frames v) \<longrightarrow> phys_ok (frames v'))"

lemma same_dirs_refl [simp]: "same_dirs v v"
  by (simp add: same_dirs_def)

lemma same_dirs_trans: "same_dirs v v' \<Longrightarrow> same_dirs v' v'' \<Longrightarrow> same_dirs v v''"
  by (simp add: same_dirs_def)

lemma same_dirs_step: "vwrite a x v1 = Ok v2 \<Longrightarrow> same_dirs v v1 \<Longrightarrow> same_dirs v v2"
  "same_dirs v v1 \<Longrightarrow> same_dirs v (free_frame pa v1)"
  by (auto simp: same_dirs_def free_frame_def dest: vwrite_keeps)

lemma same_dirs_unmap: "virt_unmap_page va v = Ok v' \<Longrightarrow> same_dirs v v'"
  unfolding virt_unmap_page_def Let_def
  by (auto split: if_splits) (meson same_dirs_refl same_dirs_step)+

lemma same_dirs_reset: "virt_reset_page_directory v = Ok v' \<Longrightarrow> same_dirs v v'"
  unfolding virt_reset_page_directory_def
  by (erule ofold_inv [where P = "same_dirs v"]) (auto intro: same_dirs_trans same_dirs_unmap)

lemma same_dirs_dealloc: "virt_dealloc_page_directory v = Ok v' \<Longrightarrow> same_dirs v v'"
  unfolding virt_dealloc_page_directory_def
  by (auto simp: same_dirs_def free_frame_def dest!: same_dirs_reset)

lemma krep_phys: "krep k A L \<Longrightarrow> phys_ok (frames (vm k))"
  unfolding krep_def qrep_def
  by (auto dest!: qinvD(7) simp: heap_live_def heap_inv_def heap_shape_def qh_of_def)

lemma krep_vm:
  assumes "krep k A L" "phys_ok (frames v)"
  shows "krep (k\<lparr>vm := v\<rparr>) A L"
proof -
  obtain N where I: "qinv (qh_of k) A N L" using assms(1) by (auto simp: krep_def qrep_def)
  have e: "qh_of (k\<lparr>vm := v\<rparr>) = (qh_of k)\<lparr>kh := (kh (qh_of k))\<lparr>kphys := frames v\<rparr>\<rparr>" by (simp add: qh_of_def)
  note J = qinvD [OF I]
  have "heap_live ((kh (qh_of k))\<lparr>kphys := frames v\<rparr>) (pointers (qh_of k) L)"
    using J(7) assms(2) by (simp add: heap_live_def heap_inv_def heap_shape_def)
  then have "qinv (qh_of (k\<lparr>vm := v\<rparr>)) A N L"
    unfolding e by (intro qinv_live [OF I]) (use J(5,6) in \<open>auto simp: pointers_def\<close>)
  then show ?thesis by (auto simp: krep_def qrep_def)
qed

text \<open>Tearing down the loaded address space: no user page is left, and the frame of the directory is free.\<close>

lemma dealloc_loaded:
  assumes "wf_vm v" "tables_distinct v"
  shows "\<exists>v'. virt_dealloc_page_directory v = Ok v' \<and> cr3 v' = cr3 v \<and> kpage_directory v' = kpage_directory v \<and>
    (page_of (cr3 v) < elements (frames v') * 32 \<longrightarrow> page_of (cr3 v) \<in> free_pages (frames v')) \<and>
    (\<forall>b. pd_idx b \<noteq> 1023 \<longrightarrow> translate v' b =
       (if RESERVED_ADDR_LO \<le> b \<and> b < RESERVED_ADDR_HI then None else translate v b))"
proof -
  obtain v1 where v1: "virt_reset_page_directory v = Ok v1" "wf_vm v1"
    "\<forall>b. pd_idx b \<noteq> 1023 \<longrightarrow> translate v1 b =
       (if RESERVED_ADDR_LO \<le> b \<and> b < RESERVED_ADDR_HI then None else translate v b)"
    using reset_directory [OF assms] by blast
  have c: "cr3 v1 = cr3 v" "kpage_directory v1 = kpage_directory v"
    using same_dirs_reset [OF v1(1)] by (simp_all add: same_dirs_def)
  have "unat (1023 :: u32) < 1024" by simp
  from vread_dir [OF v1(2) this] have "vread (PAGE_DIR_ADDR + 4 * 1023) v1 = Ok (cr3 v1 OR 3)"
    using v1(2) by (simp add: wf_vm_def)
  then have run: "virt_dealloc_page_directory v = Ok (free_frame (cr3 v1 OR 3) v1)"
    by (simp add: virt_dealloc_page_directory_def v1(1) del: obind_eq_Ok)
  have "page_of (cr3 v OR 3) = page_of (cr3 v)"
    unfolding page_of_def using unat_div_mod(1) [of 12 "cr3 v OR 3"] unat_div_mod(1) [of 12 "cr3 v"] by simp
  then show ?thesis
    unfolding run using v1(3) c by (auto simp: free_frame_def frames_irrelevant phys_unset_bit_free_pages)
qed

definition tearable :: "vmem \<Rightarrow> bool" where
  "tearable v \<longleftrightarrow> wf_vm v \<and> tables_distinct v"

definition torn_down :: "vmem \<Rightarrow> vmem \<Rightarrow> bool" where
  "torn_down v v' \<longleftrightarrow>
    (page_of (cr3 v) < elements (frames v') * 32 \<longrightarrow> page_of (cr3 v) \<in> free_pages (frames v')) \<and>
    (\<forall>b. pd_idx b \<noteq> 1023 \<longrightarrow> translate (v'\<lparr>cr3 := cr3 v\<rparr>) b =
       (if RESERVED_ADDR_LO \<le> b \<and> b < RESERVED_ADDR_HI then None else translate v b))"

lemma pcb_dealloc_sim:
  assumes R: "krep k A L" and A: "A (pcb_free_queue k) = Some (CmpNull, es)"
  obtains m where "pcb_dealloc (Some p) k = Panic m"
    | h where "pcb_dealloc (Some p) k = Ok (SUCCESS, put_q h (upd_pcb p (\<lambda>b. b\<lparr>state := FREE\<rparr>) k))"
      "qrep h (A(pcb_free_queue k \<mapsto> (CmpNull, es @ [(PcbP p, 0)]))) L"
proof -
  let ?k = "upd_pcb p (\<lambda>b. b\<lparr>state := FREE\<rparr>) k"
  have "krep ?k A L" using R by (simp add: krep_def)
  from kq_insert_sim [OF this A, of "PcbP p" 0] show thesis
    using that by (auto simp: pcb_dealloc_def Let_def)
qed

text \<open>The clean-up of the process that is current: its block goes to the pool, the loaded address space is torn down.\<close>

definition cleaned_up :: "nat \<Rightarrow> kernel \<Rightarrow> kernel \<Rightarrow> bool" where
  "cleaned_up p k k' \<longleftrightarrow> pcbs k' = (pcbs k)(p := (pcbs k p)\<lparr>state := FREE\<rparr>) \<and> curr k' = Some p \<and> ready k' = ready k \<and>
     pcb_free_queue k' = pcb_free_queue k \<and> cr3 (vm k') = kpage_directory (vm k)"

lemma cleanup_current:
  assumes R: "krep k A L" and F: "A (pcb_free_queue k) = Some (CmpNull, fs)" and c: "curr k = Some p"
  shows "cleanup (Some p) k = Ok k' \<Longrightarrow> cleaned_up p k k' \<and> krep k' (A(pcb_free_queue k \<mapsto> (CmpNull, fs @ [(PcbP p, 0)]))) L"
    and "tearable (vm k) \<Longrightarrow> (\<exists>m. cleanup (Some p) k = Panic m) \<or> (\<exists>k'. cleanup (Some p) k = Ok k' \<and> torn_down (vm k) (vm k'))"
proof -
  let ?k1 = "upd_pcb p (\<lambda>b. b\<lparr>state := FREE\<rparr>) k"
  have R1: "krep ?k1 A L" using R by (simp add: krep_def)
  have F1: "A (pcb_free_queue ?k1) = Some (CmpNull, fs)" using F by simp
  note sim = pcb_dealloc_sim [OF R1 F1, of p]
  let ?A = "A(pcb_free_queue k \<mapsto> (CmpNull, fs @ [(PcbP p, 0)]))"
  have run: "cleanup (Some p) k = obind (virt_dealloc_page_directory (vm k2)) (\<lambda>v.
      Ok (k2\<lparr>vm := virt_switch_page_directory (kpage_directory v) v\<rparr>))"
    if "pcb_dealloc (Some p) ?k1 = Ok (SUCCESS, k2)" "curr k2 = Some p" for k2
    using that by (simp add: cleanup_def Let_def)
  show "cleaned_up p k k' \<and> krep k' ?A L" if ok: "cleanup (Some p) k = Ok k'"
    using sim
  proof cases
    case (1 m)
    then show ?thesis using ok by (simp add: cleanup_def Let_def)
  next
    case (2 h)
    let ?k2 = "put_q h (upd_pcb p (\<lambda>b. b\<lparr>state := FREE\<rparr>) ?k1)"
    have K: "krep ?k2 ?A L" using 2(2) by (simp del: fun_upd_apply)
    obtain v where v: "virt_dealloc_page_directory (vm ?k2) = Ok v"
      "k' = ?k2\<lparr>vm := virt_switch_page_directory (kpage_directory v) v\<rparr>"
      using ok run [OF 2(1)] c by auto
    note d = same_dirs_dealloc [OF v(1), unfolded same_dirs_def]
    have "phys_ok (frames (virt_switch_page_directory (kpage_directory v) v))"
      using d krep_phys [OF K] by (simp add: virt_switch_page_directory_def)
    from krep_vm [OF K this] have "krep k' ?A L" unfolding v(2) .
    moreover have "cleaned_up p k k'"
      unfolding cleaned_up_def v(2) using d c by (simp add: virt_switch_page_directory_def)
    ultimately show ?thesis by blast
  qed
  show "(\<exists>m. cleanup (Some p) k = Panic m) \<or> (\<exists>k'. cleanup (Some p) k = Ok k' \<and> torn_down (vm k) (vm k'))"
    if t: "tearable (vm k)"
    using sim
  proof cases
    case (1 m)
    then show ?thesis by (simp add: cleanup_def Let_def)
  next
    case (2 h)
    let ?k2 = "put_q h (upd_pcb p (\<lambda>b. b\<lparr>state := FREE\<rparr>) ?k1)"
    have e: "vm ?k2 = (vm k)\<lparr>frames := kphys (kh h)\<rparr>" by (simp add: put_q_def)
    have "wf_vm (vm ?k2)" "tables_distinct (vm ?k2)" using t unfolding e tearable_def by (simp_all add: frames_irrelevant)
    from dealloc_loaded [OF this] obtain v where v: "virt_dealloc_page_directory (vm ?k2) = Ok v" "cr3 v = cr3 (vm k)"
      "page_of (cr3 (vm k)) < elements (frames v) * 32 \<longrightarrow> page_of (cr3 (vm k)) \<in> free_pages (frames v)"
      "\<forall>b. pd_idx b \<noteq> 1023 \<longrightarrow> translate v b =
       (if RESERVED_ADDR_LO \<le> b \<and> b < RESERVED_ADDR_HI then None else translate (vm k) b)"
      unfolding e by (auto simp: frames_irrelevant)
    have "v\<lparr>cr3 := cr3 (vm k)\<rparr> = v" using v(2) by simp
    then have "torn_down (vm k) (virt_switch_page_directory (kpage_directory v) v)"
      using v(3,4) by (simp add: torn_down_def virt_switch_page_directory_def)
    moreover have "cleanup (Some p) k = Ok (?k2\<lparr>vm := virt_switch_page_directory (kpage_directory v) v\<rparr>)"
      using run [OF 2(1)] c v(1) by (simp del: obind_eq_Ok)
    ultimately show ?thesis by fastforce
  qed
qed

lemma dispatch_queue_killed:
  assumes R: "krep k A L" and A: "A (ready k i) = Some (c, (PcbP p, key) # es)" and s: "state (pcbs k p) = KILLED"
  obtains h where "of_loop (dispatch_queue i k) =
      obind (cleanup (Some p) ((put_q h k)\<lparr>curr := Some p\<rparr>)) (\<lambda>k'. of_loop (dispatch_queue i k'))"
    "qrep h (A(ready k i \<mapsto> (c, es))) L"
proof -
  obtain h where h: "kq_remove (ready k i) k = Ok (SUCCESS, Some (PcbP p), put_q h k)" "qrep h (A(ready k i \<mapsto> (c, es))) L"
    using kq_remove_sim [OF R A] by auto
  have "kq_empty (ready k i) k = Ok False" using kq_look(1) [OF R A] by simp
  then have "of_loop (dispatch_queue i k) =
      obind (cleanup (Some p) ((put_q h k)\<lparr>curr := Some p\<rparr>)) (\<lambda>k'. of_loop (dispatch_queue i k'))"
    using h s by (subst dispatch_queue.simps) (simp add: as_pcb_def Let_def of_loop_lift)
  then show thesis using that h by blast
qed

text \<open>The first process of the queues is killed: it is cleaned up, and the dispatcher starts again.\<close>

lemma dispatch_killed:
  assumes R: "krep k A L" and Q: "ready_spec k A R" and i: "i < 4" and h: "R i = (PcbP p, key) # es"
    and s: "state (pcbs k p) = KILLED" and lower: "\<forall>j<i. R j = []"
    and F: "A (pcb_free_queue k) = Some (CmpNull, fs)" "pcb_free_queue k \<notin> ready k ` {..<4}"
  obtains k2 where "dispatch k = obind (cleanup (Some p) k2) dispatch" "krep k2 (A(ready k i \<mapsto> (CmpNull, es))) L"
    "curr k2 = Some p" "pcbs k2 = pcbs k" "ready k2 = ready k" "pcb_free_queue k2 = pcb_free_queue k"
    "\<exists>ph. vm k2 = (vm k)\<lparr>frames := ph\<rparr>"
proof -
  have A: "A (ready k i) = Some (CmpNull, (PcbP p, key) # es)" using Q i h by (simp add: ready_spec_def)
  have low: "\<forall>j<i. \<exists>c. A (ready k j) = Some (c, [])" using Q lower i by (auto simp: ready_spec_def)
  from dispatch_queue_killed [OF R A s] obtain q where
    q: "of_loop (dispatch_queue i k) =
      obind (cleanup (Some p) ((put_q q k)\<lparr>curr := Some p\<rparr>)) (\<lambda>k'. of_loop (dispatch_queue i k'))"
    "qrep q (A(ready k i \<mapsto> (CmpNull, es))) L" by metis
  let ?k2 = "(put_q q k)\<lparr>curr := Some p\<rparr>" and ?A = "A(ready k i \<mapsto> (CmpNull, es))"
  have K: "krep ?k2 ?A L" using q(2) by (simp add: krep_def del: fun_upd_apply)
  have nf: "ready k j \<noteq> pcb_free_queue k" if "j < 4" for j using F(2) that by (metis imageI lessThan_iff)
  have Fk: "?A (pcb_free_queue ?k2) = Some (CmpNull, fs)" using F(1) nf [OF i] by simp
  have sp: "[0..<4] = [0..<i] @ i # [Suc i..<4]"
    using i upt_add_eq_append [of 0 i "4 - i"] upt_conv_Cons [of i 4] by simp
  have again: "dispatch k' = dispatch_from (i # [Suc i..<4]) k'" if "cleanup (Some p) ?k2 = Ok k'" for k'
  proof -
    have 1: "krep k' (?A(pcb_free_queue ?k2 \<mapsto> (CmpNull, fs @ [(PcbP p, 0)]))) L" "ready k' = ready k"
      using cleanup_current(1) [OF K Fk _ that] by (simp_all add: cleaned_up_def del: fun_upd_apply)
    have "\<forall>j\<in>set [0..<i]. \<exists>c. (?A(pcb_free_queue ?k2 \<mapsto> (CmpNull, fs @ [(PcbP p, 0)]))) (ready k' j) = Some (c, [])"
      using low nf i ready_neq [OF Q i] by (auto simp: 1(2))
    from dispatch_from_skip [OF 1(1) this] show ?thesis unfolding dispatch_def sp .
  qed
  have "dispatch k = dispatch_from (i # [Suc i..<4]) k"
    unfolding dispatch_def sp by (rule dispatch_from_skip [OF R]) (use low in simp)
  also have "\<dots> = obind (cleanup (Some p) ?k2) (\<lambda>k'. dispatch_from (i # [Suc i..<4]) k')"
    by (simp add: q(1) obind_assoc)
  also have "\<dots> = obind (cleanup (Some p) ?k2) dispatch"
    using again by (cases "cleanup (Some p) ?k2") simp_all
  finally show thesis by (rule that [OF _ K]) (simp_all, auto simp: put_q_def)
qed

definition procs_only :: "(kptr \<times> u32) list \<Rightarrow> bool" where
  "procs_only es \<longleftrightarrow> (\<forall>e\<in>set es. \<exists>p. fst e = PcbP p)"

lemma first_ready:
  fixes R :: "nat \<Rightarrow> (kptr \<times> u32) list"
  assumes "\<exists>i<4. R i \<noteq> []" "\<forall>i<4. procs_only (R i)"
  obtains i p key es where "i < 4" "\<forall>j<i. R j = []" "R i = (PcbP p, key) # es"
proof -
  define i where "i = (LEAST i. i < 4 \<and> R i \<noteq> [])"
  have i: "i < 4" "R i \<noteq> []" using assms(1) LeastI_ex [of "\<lambda>i. i < 4 \<and> R i \<noteq> []"] by (auto simp: i_def)
  have "R j = []" if "j < i" for j
    using not_less_Least [of j "\<lambda>i. i < 4 \<and> R i \<noteq> []"] that i(1) by (auto simp: i_def)
  then have lower: "\<forall>j<i. R j = []" by blast
  obtain e es where e: "R i = e # es" using i(2) by (cases "R i") auto
  then have "e \<in> set (R i)" by simp
  then obtain p where "fst e = PcbP p" using assms(2) i(1) unfolding procs_only_def by blast
  then have "R i = (PcbP p, snd e) # es" using e by (cases e) simp
  then show thesis by (rule that [OF i(1) lower])
qed

text \<open>
  C4: the dispatcher panics when all four ready queues are empty; otherwise it takes the first process
  of the highest-priority queue that is not empty. If that process is not marked as killed it becomes
  the current one, is running with a full quantum, and its address space is loaded. If it is, it is
  made current and cleaned up, and the dispatcher starts again: a clean-up that returns leaves the
  process free at the end of the pool, and the address space that was loaded when the dispatcher was
  called (which need not be that of the killed process) without a user page, its directory freed; with
  that address space well formed the clean-up never touches memory it must not touch.
\<close>

theorem dispatch_correct:
  assumes R: "krep k A L" and Q: "ready_spec k A R" and P: "\<forall>i<4. procs_only (R i)"
    and F: "A (pcb_free_queue k) = Some (CmpNull, fs)" "pcb_free_queue k \<notin> ready k ` {..<4}"
  shows "if \<forall>i<4. R i = [] then dispatch k = Panic ''_dispatch: no non-empty readyq''
    else \<exists>i p key es. i < 4 \<and> (\<forall>j<i. R j = []) \<and> R i = (PcbP p, key) # es \<and>
      (if state (pcbs k p) = KILLED
       then \<exists>k2. dispatch k = obind (cleanup (Some p) k2) dispatch \<and> curr k2 = Some p \<and> pcbs k2 = pcbs k \<and>
         krep k2 (A(ready k i \<mapsto> (CmpNull, es))) L \<and>
         (\<forall>k'. cleanup (Some p) k2 = Ok k' \<longrightarrow> cleaned_up p k2 k' \<and> ready k' = ready k \<and>
            krep k' (A(ready k i \<mapsto> (CmpNull, es), pcb_free_queue k \<mapsto> (CmpNull, fs @ [(PcbP p, 0)]))) L) \<and>
         (tearable (vm k) \<longrightarrow> (\<exists>m. cleanup (Some p) k2 = Panic m) \<or>
            (\<exists>k'. cleanup (Some p) k2 = Ok k' \<and> torn_down (vm k) (vm k')))
       else \<exists>k'. dispatch k = Ok k' \<and> curr k' = Some p \<and> cr3 (vm k') = page_directory (pcbs k p) \<and>
         pcbs k' = (pcbs k)(p := (pcbs k p)\<lparr>state := RUNNING, quantum := STD_QUANTUM\<rparr>) \<and>
         krep k' (A(ready k i \<mapsto> (CmpNull, es))) L)"
proof (cases "\<forall>i<4. R i = []")
  case True
  then have "dispatch_from ([0..<4] @ []) k = dispatch_from [] k"
    by (intro dispatch_from_skip [OF R]) (use Q in \<open>auto simp: ready_spec_def\<close>)
  then show ?thesis using True by (simp add: dispatch_def)
next
  case False
  then obtain i p key es where h: "i < 4" "\<forall>j<i. R j = []" "R i = (PcbP p, key) # es"
    using first_ready [of R] P by blast
  show ?thesis
  proof (cases "state (pcbs k p) = KILLED")
    case killed: True
    obtain k2 where k2: "dispatch k = obind (cleanup (Some p) k2) dispatch" "krep k2 (A(ready k i \<mapsto> (CmpNull, es))) L"
      "curr k2 = Some p" "pcbs k2 = pcbs k" "ready k2 = ready k" "pcb_free_queue k2 = pcb_free_queue k"
      "\<exists>ph. vm k2 = (vm k)\<lparr>frames := ph\<rparr>"
      by (rule dispatch_killed [OF R Q h(1,3) killed h(2) F])
    have "pcb_free_queue k \<noteq> ready k i" using F(2) h(1) by blast
    then have f2: "(A(ready k i \<mapsto> (CmpNull, es))) (pcb_free_queue k2) = Some (CmpNull, fs)" using F(1) k2(6) by simp
    note cu = cleanup_current [OF k2(2) f2 k2(3)]
    have t: "tearable (vm k2) = tearable (vm k)" "torn_down (vm k2) = torn_down (vm k)"
      using k2(7) by (auto simp: tearable_def torn_down_def frames_irrelevant fun_eq_iff)
    have c: "cleaned_up p k2 k' \<and> ready k' = ready k \<and>
        krep k' (A(ready k i \<mapsto> (CmpNull, es), pcb_free_queue k \<mapsto> (CmpNull, fs @ [(PcbP p, 0)]))) L"
      if "cleanup (Some p) k2 = Ok k'" for k'
      using cu(1) [OF that] k2(5,6) by (simp add: cleaned_up_def del: fun_upd_apply)
    show ?thesis
      unfolding if_not_P [OF False]
      by (intro exI [of _ i] exI [of _ p] exI [of _ key] exI [of _ es] conjI h if_P [OF killed, THEN iffD2] exI [of _ k2] k2(1-4)
          allI impI c cu(2) [unfolded t])
  next
    case live: False
    have A: "A (ready k i) = Some (CmpNull, (PcbP p, key) # es)" using Q h(1,3) by (simp add: ready_spec_def)
    have "\<forall>j<i. \<exists>c. A (ready k j) = Some (c, [])" using Q h(1,2) by (auto simp: ready_spec_def)
    from dispatch_first [OF R h(1) A live this] obtain q where
      q: "dispatch k = Ok (dispatched p q k)" "qrep q (A(ready k i \<mapsto> (CmpNull, es))) L" .
    have "krep (dispatched p q k) (A(ready k i \<mapsto> (CmpNull, es))) L" using q(2) by (simp add: krep_def del: fun_upd_apply)
    then show ?thesis
      unfolding if_not_P [OF False]
      by (intro exI [of _ i] exI [of _ p] exI [of _ key] exI [of _ es] conjI h if_not_P [OF live, THEN iffD2]
          exI [of _ "dispatched p q k"] q(1) dispatched_fields)
  qed
qed

lemma dispatch_head:
  assumes R: "krep k A L" and Q: "ready_spec k A R" and h: "i < 4" "\<forall>j<i. R j = []" "R i = (PcbP p, key) # es"
    and s: "state (pcbs k p) \<noteq> KILLED"
  obtains k' where "dispatch k = Ok k'" "krep k' (A(ready k i \<mapsto> (CmpNull, es))) L"
    "ready_spec k' (A(ready k i \<mapsto> (CmpNull, es))) (R(i := es))" "curr k' = Some p"
    "cr3 (vm k') = page_directory (pcbs k p)"
    "pcbs k' = (pcbs k)(p := (pcbs k p)\<lparr>state := RUNNING, quantum := STD_QUANTUM\<rparr>)"
proof -
  have A: "A (ready k i) = Some (CmpNull, (PcbP p, key) # es)" using Q h(1,3) by (simp add: ready_spec_def)
  have "\<forall>j<i. \<exists>c. A (ready k j) = Some (c, [])" using Q h(1,2) by (auto simp: ready_spec_def)
  from dispatch_first [OF R h(1) A s this] obtain q where
    q: "dispatch k = Ok (dispatched p q k)" "qrep q (A(ready k i \<mapsto> (CmpNull, es))) L" .
  have "krep (dispatched p q k) (A(ready k i \<mapsto> (CmpNull, es))) L" using q(2) by (simp add: krep_def del: fun_upd_apply)
  moreover have "ready_spec (dispatched p q k) (A(ready k i \<mapsto> (CmpNull, es))) (R(i := es))"
    using ready_spec_rest [OF Q h(1)] by (subst ready_spec_cong [where k = k]) simp_all
  ultimately show thesis by (rule that [OF q(1)]) simp_all
qed

text \<open>One entry behind the others: it is the first of all exactly when no other is as urgent.\<close>

lemma tail_first:
  fixes R :: "nat \<Rightarrow> (kptr \<times> u32) list"
  assumes h: "\<forall>j<i. R j @ (if j = q then [e] else []) = []" "R i @ (if i = q then [e] else []) = (PcbP n, key) # es"
    and e: "fst e = PcbP p" and notin: "\<forall>j\<le>q. PcbP p \<notin> fst ` set (R j)"
  shows "i \<le> q" "n = p \<longleftrightarrow> (\<forall>j\<le>q. R j = [])"
proof -
  show iq: "i \<le> q"
  proof (rule ccontr)
    assume "\<not> i \<le> q"
    then have "R q @ (if q = q then [e] else []) = []" using h(1) not_le by blast
    then show False by simp
  qed
  show "n = p \<longleftrightarrow> (\<forall>j\<le>q. R j = [])"
  proof (cases "R i")
    case Nil
    then have "i = q" "n = p" using h(2) e by (auto split: if_splits)
    moreover have "R j = []" if "j \<le> q" for j
      using h(1) Nil that \<open>i = q\<close> by (cases "j = q") auto
    ultimately show ?thesis by blast
  next
    case (Cons x xs)
    then have "PcbP n \<in> fst ` set (R i)" using h(2) by auto
    then show ?thesis using iq notin Cons by (metis list.distinct(1))
  qed
qed

lemma procs_only_append [simp]: "procs_only (xs @ ys) \<longleftrightarrow> procs_only xs \<and> procs_only ys"
  unfolding procs_only_def set_append ball_Un ..

lemma procs_only_ready_entries [simp]: "procs_only (ready_entries P i ws)"
  by (auto simp: procs_only_def ready_entries_def)

lemma ready_entries_procs: "schedulable P es \<Longrightarrow> set ws \<subseteq> set es \<Longrightarrow> fst ` set (ready_entries P i ws) \<subseteq> fst ` set es"
  by (force simp: schedulable_def ready_entries_def as_proc_def)

text \<open>
  C34: a tick with no quantum left wakes the sleepers whose time has come and puts the current process
  behind them at the tail of the ready queue of its priority, whose first process the dispatcher then
  takes (or that of a more urgent queue). It is the preempted process again exactly when no process is
  ready at its priority or a more urgent one. The process that is taken runs with a full quantum and its
  own address space, unless it is marked as killed: then the dispatcher cleans it up first. (The kernel
  heap may panic.)
\<close>

theorem isr_clock_preempts:
  assumes R: "krep k A L" "A (sleeping k) = Some (c, es)" "ready_spec k A R" "sleeping k \<notin> ready k ` {..<4}"
    and sch: "schedulable (pcbs k) es" and cur: "curr k = Some p" "quantum (pcbs k p) = 0"
    and pr: "unat (priority (pcbs k p)) < 4" and P: "\<forall>i<4. procs_only (R i)"
    and notin: "\<forall>i<4. PcbP p \<notin> fst ` set (R i)" "PcbP p \<notin> fst ` set es"
  defines "q \<equiv> unat (priority (pcbs k p))"
    and "W \<equiv> takeWhile (\<lambda>e. snd e \<le> system_time k + 1) es"
  defines "R1 \<equiv> \<lambda>i. R i @ ready_entries (pcbs k) i W"
  defines "R' \<equiv> \<lambda>i. R1 i @ (if i = q then [(PcbP p, ucast (pid (pcbs k p)))] else [])"
  shows "(\<exists>m. isr_clock k = Panic m) \<or>
    (\<exists>k4 A' i n key es'. isr_clock k = obind (dispatch k4) (\<lambda>k5. Ok (outb PIC_MASTER_CMD_PORT PIC_EOI k5)) \<and>
       krep k4 A' L \<and> ready_spec k4 A' R' \<and> pcbs k4 = (make_ready W (pcbs k))(p := (make_ready W (pcbs k) p)\<lparr>state := READY\<rparr>) \<and>
       i \<le> q \<and> (\<forall>j<i. R' j = []) \<and> R' i = (PcbP n, key) # es' \<and> (n = p \<longleftrightarrow> (\<forall>j\<le>q. R1 j = [])) \<and>
       (state (pcbs k4 n) \<noteq> KILLED \<longrightarrow> (\<exists>k' A''. isr_clock k = Ok k' \<and> curr k' = Some n \<and>
          cr3 (vm k') = page_directory (pcbs k n) \<and> state (pcbs k' n) = RUNNING \<and> quantum (pcbs k' n) = STD_QUANTUM \<and>
          (n \<noteq> p \<longrightarrow> state (pcbs k' p) = READY) \<and> krep k' A'' L \<and> ready_spec k' A'' (R'(i := es')))))"
  using isr_clock_wake [OF R sch cur(1)]
proof (elim disjE exE conjE)
  fix k3 A'
  assume "krep k3 A' L" "ready_spec k3 A' (\<lambda>i. R i @ ready_entries (pcbs k) i (takeWhile (\<lambda>e. snd e \<le> system_time k + 1) es))"
    "pcbs k3 = make_ready (takeWhile (\<lambda>e. snd e \<le> system_time k + 1) es) (pcbs k)"
    "isr_clock k = obind (if quantum (pcbs k3 p) < 1
           then obind (sched (Some p) k3) (\<lambda>(st, k4).
                  obind (if st \<noteq> SUCCESS then cleanup (Some p) k4 else Ok k4) dispatch)
           else Ok (upd_pcb p (\<lambda>b. b\<lparr>quantum := quantum b - 1\<rparr>) k3)) (\<lambda>k5.
      Ok (outb PIC_MASTER_CMD_PORT PIC_EOI k5))"
  note * = this [folded W_def, folded R1_def]
  have f: "quantum (pcbs k3 x) = quantum (pcbs k x)" "priority (pcbs k3 x) = priority (pcbs k x)"
    "pid (pcbs k3 x) = pid (pcbs k x)" "page_directory (pcbs k3 x) = page_directory (pcbs k x)" for x
    using *(3) by (simp_all add: make_ready_fields)
  have pr3: "unat (priority (pcbs k3 p)) < 4" using pr by (simp add: f)
  have q4: "q < 4" using pr by (simp add: q_def)
  have q3: "unat (priority (pcbs k3 p)) = q" by (simp add: q_def f)
  have "A' (ready k3 (unat (priority (pcbs k3 p)))) = Some (CmpNull, R1 q)"
    using *(2) q4 by (simp add: ready_spec_def q3)
  from sched_sim [OF *(1) pr3 this] show ?thesis
  proof cases
    case (1 m)
    then show ?thesis using *(4) cur(2) by (simp add: f)
  next
    case (2 h)
    let ?k4 = "put_q h (upd_pcb p (\<lambda>b. b\<lparr>state := READY\<rparr>) k3)" and ?e = "(PcbP p, ucast (pid (pcbs k p)))"
    let ?A4 = "A'(ready k3 q \<mapsto> (CmpNull, R1 q @ [?e]))"
    have K: "krep ?k4 ?A4 L" using 2(2) unfolding q3 by (simp add: f del: fun_upd_apply)
    have S: "ready_spec ?k4 ?A4 R'"
      using ready_spec_insert [OF *(2) q4] unfolding R'_def by (subst ready_spec_cong [where k = k3]) simp_all
    have run: "isr_clock k = obind (dispatch ?k4) (\<lambda>k5. Ok (outb PIC_MASTER_CMD_PORT PIC_EOI k5))"
      unfolding *(4) using cur(2) 2(1) by (simp add: f)
    have ps: "pcbs ?k4 = (make_ready W (pcbs k))(p := (make_ready W (pcbs k) p)\<lparr>state := READY\<rparr>)" by (simp add: *(3))
    have po: "\<forall>i<4. procs_only (R' i)" using P by (simp add: R'_def R1_def) (simp add: procs_only_def)
    have "\<exists>i<4. R' i \<noteq> []" using q4 by (auto simp: R'_def)
    then obtain i n key es' where h: "i < 4" "\<forall>j<i. R' j = []" "R' i = (PcbP n, key) # es'"
      using first_ready [of R'] po by blast
    have "set W \<subseteq> set es" by (auto simp: W_def dest: set_takeWhileD)
    from ready_entries_procs [OF sch this] have n1: "\<forall>j\<le>q. PcbP p \<notin> fst ` set (R1 j)"
      using notin q4 by (auto simp: R1_def image_Un)
    have t: "i \<le> q" "n = p \<longleftrightarrow> (\<forall>j\<le>q. R1 j = [])"
      using tail_first [of i R1 q ?e n key es' p] h(2,3) n1 by (simp_all add: R'_def)
    have fin: "\<exists>k' A''. isr_clock k = Ok k' \<and> curr k' = Some n \<and>
          cr3 (vm k') = page_directory (pcbs k n) \<and> state (pcbs k' n) = RUNNING \<and> quantum (pcbs k' n) = STD_QUANTUM \<and>
          (n \<noteq> p \<longrightarrow> state (pcbs k' p) = READY) \<and> krep k' A'' L \<and> ready_spec k' A'' (R'(i := es'))"
      if live: "state (pcbs ?k4 n) \<noteq> KILLED"
    proof -
      obtain k' where d: "dispatch ?k4 = Ok k'" "krep k' (?A4(ready ?k4 i \<mapsto> (CmpNull, es'))) L"
        "ready_spec k' (?A4(ready ?k4 i \<mapsto> (CmpNull, es'))) (R'(i := es'))" "curr k' = Some n"
        "cr3 (vm k') = page_directory (pcbs ?k4 n)"
        "pcbs k' = (pcbs ?k4)(n := (pcbs ?k4 n)\<lparr>state := RUNNING, quantum := STD_QUANTUM\<rparr>)"
        by (rule dispatch_head [OF K S h live])
      let ?k = "outb PIC_MASTER_CMD_PORT PIC_EOI k'"
      have "isr_clock k = Ok ?k" unfolding run d(1) by simp
      moreover have "krep ?k (?A4(ready ?k4 i \<mapsto> (CmpNull, es'))) L" "ready_spec ?k (?A4(ready ?k4 i \<mapsto> (CmpNull, es'))) (R'(i := es'))"
        using d(2,3) by (simp_all add: outb_def krep_def qh_of_def ready_spec_def del: fun_upd_apply)
      moreover have "cr3 (vm ?k) = page_directory (pcbs k n)" "curr ?k = Some n" "state (pcbs ?k n) = RUNNING"
        "quantum (pcbs ?k n) = STD_QUANTUM" "n \<noteq> p \<longrightarrow> state (pcbs ?k p) = READY"
        using d(4-6) f(4) [of n] by (auto simp: outb_def)
      ultimately show ?thesis by blast
    qed
    show ?thesis
      by (intro disjI2 exI [of _ ?k4] exI [of _ ?A4] exI [of _ i] exI [of _ n] exI [of _ key] exI [of _ es'] conjI run K S ps t h(2,3) impI fin)
  qed
qed blast

text \<open>Setting up the ready queues and the pool of control blocks.\<close>

lemma krep_fresh:
  assumes "krep k A L" "A q = None"
  shows "A p = Some x \<Longrightarrow> p \<noteq> q"
  using assms by auto

lemma sched_init_loop:
  assumes "krep k A L" "n \<le> 4"
  shows "(\<exists>m. ofor 0 n (\<lambda>i k. obind (kq_alloc CmpNull k) (\<lambda>(st, q, k').
         if st \<noteq> SUCCESS then Panic ''_sched_init: readyq alloc status''
         else obind (deref q) (\<lambda>q. Ok (k'\<lparr>ready := (ready k')(i := q)\<rparr>)))) k = Panic m) \<or>
    (\<exists>k' A'. ofor 0 n (\<lambda>i k. obind (kq_alloc CmpNull k) (\<lambda>(st, q, k').
         if st \<noteq> SUCCESS then Panic ''_sched_init: readyq alloc status''
         else obind (deref q) (\<lambda>q. Ok (k'\<lparr>ready := (ready k')(i := q)\<rparr>)))) k = Ok k' \<and>
      krep k' A' L \<and> (\<forall>i<n. A' (ready k' i) = Some (CmpNull, []) \<and> A (ready k' i) = None) \<and> inj_on (ready k') {..<n} \<and>
      (\<forall>q x. A q = Some x \<longrightarrow> A' q = Some x))"
  using assms(2)
proof (induction n)
  case 0
  then show ?case using assms(1) by auto
next
  case (Suc n)
  let ?f = "\<lambda>i k. obind (kq_alloc CmpNull k) (\<lambda>(st, q, k').
         if st \<noteq> SUCCESS then Panic ''_sched_init: readyq alloc status''
         else obind (deref q) (\<lambda>q. Ok (k'\<lparr>ready := (ready k')(i := q)\<rparr>)))"
  have up: "ofor 0 (Suc n) ?f k = obind (ofor 0 n ?f k) (?f n)" by (rule ofor_Suc) simp
  from Suc have "(\<exists>m. ofor 0 n ?f k = Panic m) \<or> (\<exists>k' A'. ofor 0 n ?f k = Ok k' \<and>
      krep k' A' L \<and> (\<forall>i<n. A' (ready k' i) = Some (CmpNull, []) \<and> A (ready k' i) = None) \<and> inj_on (ready k') {..<n} \<and>
      (\<forall>q x. A q = Some x \<longrightarrow> A' q = Some x))" by simp
  then show ?case
  proof (elim disjE exE conjE)
    fix m assume "ofor 0 n ?f k = Panic m"
    then show ?thesis unfolding up by (simp only: obind.simps) blast
  next
    fix k1 A1
    assume 1: "ofor 0 n ?f k = Ok k1" "krep k1 A1 L"
      "\<forall>i<n. A1 (ready k1 i) = Some (CmpNull, []) \<and> A (ready k1 i) = None"
      "inj_on (ready k1) {..<n}" "\<forall>q x. A q = Some x \<longrightarrow> A1 q = Some x"
    from kq_alloc_sim [OF 1(2), of CmpNull] show ?thesis
    proof cases
      case (1 m)
      then show ?thesis unfolding up \<open>ofor 0 n ?f k = Ok k1\<close> by simp
    next
      case (2 q h)
      let ?k2 = "(put_q h k1)\<lparr>ready := (ready k1)(n := q)\<rparr>" and ?A2 = "A1(q \<mapsto> (CmpNull, []))"
      have ne: "ready k1 i \<noteq> q" if "i < n" for i using 1(3) 2(3) that by force
      have "ofor 0 (Suc n) ?f k = Ok ?k2" unfolding up 1(1) using 2(1) by simp
      moreover have "krep ?k2 ?A2 L" using 2(5) by (simp add: krep_def)
      moreover have "A q = None" using 1(5) 2(3) by (metis not_None_eq)
      then have "\<forall>i<Suc n. ?A2 (ready ?k2 i) = Some (CmpNull, []) \<and> A (ready ?k2 i) = None"
        using 1(3) ne by (auto simp: less_Suc_eq)
      moreover have "inj_on (ready ?k2) {..<Suc n}"
      proof (rule inj_onI)
        fix x y assume xy: "x \<in> {..<Suc n}" "y \<in> {..<Suc n}" "ready ?k2 x = ready ?k2 y"
        have "x = n \<or> ready k1 x \<noteq> q" "y = n \<or> ready k1 y \<noteq> q" using ne xy(1,2) by (auto simp: less_Suc_eq)
        then show "x = y"
          using xy 1(4) by (cases "x = n"; cases "y = n") (simp_all add: inj_on_def less_Suc_eq)
      qed
      moreover have "\<forall>p x. A p = Some x \<longrightarrow> ?A2 p = Some x" using 1(5) 2(3) by auto
      ultimately show ?thesis by blast
    qed
  qed
qed

text \<open>
  The scheduler starts with four empty ready queues that are new and different from each other,
  and without a current process; the queues there were are untouched.
\<close>

theorem sched_init_correct:
  assumes "krep k A L"
  shows "(\<exists>m. sched_init k = Panic m) \<or>
    (\<exists>k' A'. sched_init k = Ok k' \<and> krep k' A' L \<and> ready_spec k' A' (\<lambda>_. []) \<and> curr k' = None \<and>
      (\<forall>i<4. A (ready k' i) = None) \<and> (\<forall>q x. A q = Some x \<longrightarrow> A' q = Some x))"
  using sched_init_loop [OF assms order.refl]
proof (elim disjE exE conjE)
  fix k' A'
  assume *: "ofor 0 4 (\<lambda>i k. obind (kq_alloc CmpNull k) (\<lambda>(st, q, k').
         if st \<noteq> SUCCESS then Panic ''_sched_init: readyq alloc status''
         else obind (deref q) (\<lambda>q. Ok (k'\<lparr>ready := (ready k')(i := q)\<rparr>)))) k = Ok k'" "krep k' A' L"
    "\<forall>i<4. A' (ready k' i) = Some (CmpNull, []) \<and> A (ready k' i) = None" "inj_on (ready k') {..<4}"
    "\<forall>q x. A q = Some x \<longrightarrow> A' q = Some x"
  have "sched_init k = Ok (k'\<lparr>curr := None\<rparr>)" unfolding sched_init_def *(1) by simp
  moreover have "krep (k'\<lparr>curr := None\<rparr>) A' L" "ready_spec (k'\<lparr>curr := None\<rparr>) A' (\<lambda>_. [])"
    using *(2-4) by (simp_all add: krep_def ready_spec_def)
  ultimately show ?thesis using *(3,5) by auto
next
  fix m
  assume "ofor 0 4 (\<lambda>i k. obind (kq_alloc CmpNull k) (\<lambda>(st, q, k').
         if st \<noteq> SUCCESS then Panic ''_sched_init: readyq alloc status''
         else obind (deref q) (\<lambda>q. Ok (k'\<lparr>ready := (ready k')(i := q)\<rparr>)))) k = Panic m"
  then have "sched_init k = Panic m" unfolding sched_init_def by (simp only: obind.simps)
  then show ?thesis by blast
qed

lemma pcb_init_loop:
  assumes "krep k A L" "A (pcb_free_queue k) = Some (CmpNull, [])"
  shows "(\<exists>m. ofor 0 n (\<lambda>i k. obind (pcb_dealloc (Some i) k) (\<lambda>(st, k').
            if st \<noteq> SUCCESS then Panic ''_pcb_init: PCB queue insert'' else Ok k')) k = Panic m) \<or>
    (\<exists>k'. ofor 0 n (\<lambda>i k. obind (pcb_dealloc (Some i) k) (\<lambda>(st, k').
            if st \<noteq> SUCCESS then Panic ''_pcb_init: PCB queue insert'' else Ok k')) k = Ok k' \<and>
      krep k' (A(pcb_free_queue k \<mapsto> (CmpNull, map (\<lambda>i. (PcbP i, 0)) [0..<n]))) L \<and>
      pcb_free_queue k' = pcb_free_queue k \<and> (\<forall>i<n. state (pcbs k' i) = FREE))"
proof (induction n)
  case 0
  then show ?case using assms by (simp add: fun_upd_idem)
next
  case (Suc n)
  let ?f = "\<lambda>i k. obind (pcb_dealloc (Some i) k) (\<lambda>(st, k').
            if st \<noteq> SUCCESS then Panic ''_pcb_init: PCB queue insert'' else Ok k')"
  let ?es = "map (\<lambda>i. (PcbP i, 0)) [0..<n]"
  have up: "ofor 0 (Suc n) ?f k = obind (ofor 0 n ?f k) (?f n)" by (rule ofor_Suc) simp
  from Suc show ?case
  proof (elim disjE exE conjE)
    fix m assume "ofor 0 n ?f k = Panic m"
    then show ?thesis unfolding up by (simp only: obind.simps) blast
  next
    fix k1
    assume 1: "ofor 0 n ?f k = Ok k1" "krep k1 (A(pcb_free_queue k \<mapsto> (CmpNull, ?es))) L"
      "pcb_free_queue k1 = pcb_free_queue k" "\<forall>i<n. state (pcbs k1 i) = FREE"
    have a: "(A(pcb_free_queue k \<mapsto> (CmpNull, ?es))) (pcb_free_queue k1) = Some (CmpNull, ?es)" using 1(3) by simp
    from pcb_dealloc_sim [OF 1(2) a, of n] show ?thesis
    proof cases
      case (1 m)
      then show ?thesis unfolding up \<open>ofor 0 n ?f k = Ok k1\<close> by simp
    next
      case (2 h)
      let ?k2 = "put_q h (upd_pcb n (\<lambda>b. b\<lparr>state := FREE\<rparr>) k1)"
      have "ofor 0 (Suc n) ?f k = Ok ?k2" unfolding up 1(1) using 2(1) by simp
      moreover have "krep ?k2 (A(pcb_free_queue k \<mapsto> (CmpNull, map (\<lambda>i. (PcbP i, 0)) [0..<Suc n]))) L"
        using 2(2) 1(3) by (simp del: fun_upd_apply)
      ultimately show ?thesis using 1(3,4) by (intro disjI2 exI conjI) (assumption | simp add: less_Suc_eq)+
    qed
  qed
qed

text \<open>
  The pool of control blocks starts with all twenty-five blocks, free and in order, and the
  first process id is 1.
\<close>

theorem pcb_init_correct:
  assumes "krep k A L"
  shows "(\<exists>m. pcb_init k = Panic m) \<or>
    (\<exists>k'. pcb_init k = Ok k' \<and> krep k' (A(pcb_free_queue k' \<mapsto> (CmpNull, map (\<lambda>i. (PcbP i, 0)) [0..<N_PCBS]))) L \<and>
      A (pcb_free_queue k') = None \<and> next_pid k' = 1 \<and> (\<forall>i<N_PCBS. state (pcbs k' i) = FREE))"
  using assms
proof (rule kq_alloc_sim [of k A L CmpNull])
  fix m assume "kq_alloc CmpNull k = Panic m"
  then show ?thesis by (simp add: pcb_init_def)
next
  fix q h
  assume a: "kq_alloc CmpNull k = Ok (SUCCESS, Some q, put_q h k)" "A q = None" "qrep h (A(q \<mapsto> (CmpNull, []))) L"
  let ?k1 = "(put_q h k)\<lparr>pcb_free_queue := q\<rparr>"
  let ?f = "\<lambda>i k. obind (pcb_dealloc (Some i) k) (\<lambda>(st, k').
            if st \<noteq> SUCCESS then Panic ''_pcb_init: PCB queue insert'' else Ok k')"
  have e: "pcb_init k = obind (ofor 0 25 ?f ?k1) (\<lambda>k2. Ok (k2\<lparr>next_pid := PID_INIT\<rparr>))"
    unfolding pcb_init_def a(1) obind.simps prod.case deref_simps by simp
  have r: "krep ?k1 (A(q \<mapsto> (CmpNull, []))) L" using a(3) by (simp add: krep_def)
  have s: "(A(q \<mapsto> (CmpNull, []))) (pcb_free_queue ?k1) = Some (CmpNull, [])" by simp
  show ?thesis using pcb_init_loop [OF r s, of 25]
  proof (elim disjE exE conjE)
    fix m assume "ofor 0 25 ?f ?k1 = Panic m"
    then show ?thesis unfolding e by (simp only: obind.simps) blast
  next
    fix k2 assume b: "ofor 0 25 ?f ?k1 = Ok k2"
      "krep k2 (A(q \<mapsto> (CmpNull, []), pcb_free_queue ?k1 \<mapsto> (CmpNull, map (\<lambda>i. (PcbP i, 0)) [0..<25]))) L"
      "pcb_free_queue k2 = pcb_free_queue ?k1" "\<forall>i<25. state (pcbs k2 i) = FREE"
    have "pcb_init k = Ok (k2\<lparr>next_pid := PID_INIT\<rparr>)" unfolding e b(1) by (simp only: obind.simps)
    moreover have "pcb_free_queue k2 = q" using b(3) by simp
    ultimately show ?thesis using b(2,4) a(2)
      by (intro disjI2 exI [of _ "k2\<lparr>next_pid := PID_INIT\<rparr>"]) (simp add: krep_def del: upt_rec_numeral upt_Suc)
  qed
qed

text \<open>
  With a free block at the head of the pool an allocation takes it out and clears its page
  directory; with an empty pool the routine writes through the null pointer it is about to return.
\<close>

theorem pcb_alloc_correct:
  assumes R: "krep k A L" and A: "A (pcb_free_queue k) = Some (c, es)"
    and fr: "\<forall>e\<in>set es. \<exists>p. fst e = PcbP p \<and> state (pcbs k p) = FREE"
  shows "case es of [] \<Rightarrow> pcb_alloc k = Fault
    | e # es' \<Rightarrow> \<exists>p k'. fst e = PcbP p \<and> pcb_alloc k = Ok (Some p, k') \<and>
        krep k' (A(pcb_free_queue k \<mapsto> (c, es'))) L \<and> pcbs k' = (pcbs k)(p := (pcbs k p)\<lparr>page_directory := 0\<rparr>)"
proof (cases es)
  case Nil
  then have "A (pcb_free_queue k) = Some (c, [])" using A by simp
  from kq_remove_empty [OF R this] obtain h where "kq_remove (pcb_free_queue k) k = Ok (EMPTY_QUEUE, None, put_q h k)" .
  then show ?thesis using Nil by (simp add: pcb_alloc_def)
next
  case (Cons e es')
  then obtain p where p: "fst e = PcbP p" "state (pcbs k p) = FREE" using fr by auto
  obtain h where "kq_remove (pcb_free_queue k) k = Ok (SUCCESS, Some (PcbP p), put_q h k)"
    "qrep h (A(pcb_free_queue k \<mapsto> (c, es'))) L"
    using kq_remove_sim [OF R, of "pcb_free_queue k" c e es'] A Cons p(1) by auto
  then show ?thesis using Cons p by (simp add: pcb_alloc_def as_pcb_def krep_def)
qed

text \<open>
  When the process to be cleaned up is the current one, its own page directory plays no part:
  the address space that is torn down and freed is the one that happens to be loaded. The
  dispatcher, which makes a killed process current before it cleans up, so frees the directory of
  the process that ran before.
\<close>

theorem cleanup_ignores_directory:
  assumes "curr k = Some p"
  shows "(case cleanup (Some p) (upd_pcb p (\<lambda>b. b\<lparr>page_directory := d\<rparr>) k) of Ok k' \<Rightarrow> Some (vm k') | _ \<Rightarrow> None) =
    (case cleanup (Some p) k of Ok k' \<Rightarrow> Some (vm k') | _ \<Rightarrow> None)"
proof (cases "q_insert (pcb_free_queue k) (PcbP p) 0 (qh_of k)")
  case (Ok r)
  obtain st h where r: "r = (st, h)" by (cases r)
  show ?thesis
    using assms Ok r
    by (cases "virt_dealloc_page_directory (vm k\<lparr>frames := kphys (kh h)\<rparr>)")
      (simp_all add: cleanup_def pcb_dealloc_def kq_insert_def Let_def put_q_def)
qed (simp_all add: cleanup_def pcb_dealloc_def kq_insert_def Let_def)

subsection \<open>The properties at a concrete state\<close>

text \<open>Process 2 is ready, process 5 sleeps until tick 90, block 9 is free.\<close>

definition demo_table :: table where
  "demo_table i = (if i = 2 then (CmpNull, Some (PcbP 2, 2)) else if i = 4 then (CmpNull, Some (PcbP 9, 0))
     else if i = 5 then (CmpAscendUint, Some (PcbP 5, 90)) else (CmpNull, None))"

definition demo_procs :: "u8 \<Rightarrow> nat \<Rightarrow> pcb" where
  "demo_procs q p = (demo_pcb p)\<lparr>state := if p = 9 then FREE else if p = 0 then RUNNING else READY, quantum := q\<rparr>"

definition demo_ready :: "nat \<Rightarrow> (kptr \<times> u32) list" where
  "demo_ready i = (if i = 2 then [(PcbP 2, 2)] else [])"

lemma less_4_cases: "i < 4 \<Longrightarrow> i = 0 \<or> i = 1 \<or> i = 2 \<or> i = (3 :: nat)"
  by linarith

lemma demo_ready_spec: "ready_spec (table_kernel demo_table P) (table_spec demo_table) demo_ready"
  unfolding ready_spec_def by (auto simp: demo_table_def demo_ready_def inj_on_def)

lemma demo_sleeping: "table_spec demo_table (slot 5) = Some (CmpAscendUint, [(PcbP 5, 90)])"
  by (simp add: demo_table_def)

lemma demo_not_ready: "sleeping (table_kernel demo_table P) \<notin> ready (table_kernel demo_table P) ` {..<4}"
  by auto

lemma demo_schedulable: "schedulable (demo_procs q) [(PcbP 5, 90)]"
  by (simp add: schedulable_def demo_procs_def demo_pcb_def)

theorem sched_correct_witness:
  "(\<exists>m. sched (Some 2) (table_kernel demo_table (demo_procs 5)) = Panic m) \<or>
    (\<exists>k'. sched (Some 2) (table_kernel demo_table (demo_procs 5)) = Ok (SUCCESS, k') \<and> state (pcbs k' 2) = READY)"
  using sched_correct [OF table_krep [of demo_table "demo_procs 5"], of 2 "[(PcbP 2, 2)]"]
  by (auto simp: demo_procs_def demo_pcb_def demo_table_def)

lemma demo_procs_only: "\<forall>i<4. procs_only (demo_ready i)"
  by (simp add: procs_only_def demo_ready_def)

lemma demo_pool: "table_spec demo_table (pcb_free_queue (table_kernel demo_table P)) = Some (CmpNull, [(PcbP 9, 0)])"
  "pcb_free_queue (table_kernel demo_table P) \<notin> ready (table_kernel demo_table P) ` {..<4}"
  by (auto simp: demo_table_def)

lemma demo_first: "i < 4 \<Longrightarrow> demo_ready i = (PcbP p, key) # es \<Longrightarrow> p = 2"
  by (simp add: demo_ready_def split: if_splits)

text \<open>Process 2 runs; when it is marked as killed it is cleaned up.\<close>

definition killed_procs :: "nat \<Rightarrow> pcb" where
  "killed_procs = (demo_procs 5)(2 := (demo_procs 5 2)\<lparr>state := KILLED\<rparr>)"

theorem dispatch_correct_witness:
  "(\<exists>k'. dispatch (table_kernel demo_table (demo_procs 5)) = Ok k' \<and> curr k' = Some 2) \<and>
   (\<exists>k2. dispatch (table_kernel demo_table killed_procs) = obind (cleanup (Some 2) k2) dispatch \<and>
      ((\<exists>m. cleanup (Some 2) k2 = Panic m) \<or> (\<exists>k'. cleanup (Some 2) k2 = Ok k' \<and> torn_down demo_vm (vm k'))))"
proof
  have ne: "\<not> (\<forall>i<4. demo_ready i = [])" by (simp add: demo_ready_def)
  note d = dispatch_correct [OF table_krep demo_ready_spec demo_procs_only demo_pool, unfolded if_not_P [OF ne]]
  obtain i p key es where 1: "i < 4" "demo_ready i = (PcbP p, key) # es"
    "if state (pcbs (table_kernel demo_table (demo_procs 5)) p) = KILLED then True
     else \<exists>k'. dispatch (table_kernel demo_table (demo_procs 5)) = Ok k' \<and> curr k' = Some p"
    using d [of "demo_procs 5"] by (metis (lifting))
  then show "\<exists>k'. dispatch (table_kernel demo_table (demo_procs 5)) = Ok k' \<and> curr k' = Some 2"
    using demo_first [OF 1(1,2)] by (simp add: demo_procs_def)
  have t: "tearable (vm (table_kernel demo_table killed_procs))"
    using demo_wf demo_distinct by (simp add: tearable_def)
  obtain j q key' es' where 2: "j < 4" "demo_ready j = (PcbP q, key') # es'"
    "if state (pcbs (table_kernel demo_table killed_procs) q) = KILLED
     then \<exists>k2. dispatch (table_kernel demo_table killed_procs) = obind (cleanup (Some q) k2) dispatch \<and>
       ((\<exists>m. cleanup (Some q) k2 = Panic m) \<or>
        (\<exists>k'. cleanup (Some q) k2 = Ok k' \<and> torn_down (vm (table_kernel demo_table killed_procs)) (vm k')))
     else True"
    using d [of killed_procs] t by (metis (lifting))
  then show "\<exists>k2. dispatch (table_kernel demo_table killed_procs) = obind (cleanup (Some 2) k2) dispatch \<and>
      ((\<exists>m. cleanup (Some 2) k2 = Panic m) \<or> (\<exists>k'. cleanup (Some 2) k2 = Ok k' \<and> torn_down demo_vm (vm k')))"
    using demo_first [OF 2(1,2)] by (simp add: killed_procs_def)
qed

theorem isr_clock_tick_witness:
  "(\<exists>m. isr_clock (table_kernel demo_table (demo_procs 5)) = Panic m) \<or>
   (\<exists>k'. isr_clock (table_kernel demo_table (demo_procs 5)) = Ok k' \<and> quantum (pcbs k' 0) = 4 \<and> system_time k' = 101)"
proof -
  have "kernel.curr (table_kernel demo_table (demo_procs 5)) = Some 0"
    "quantum (pcbs (table_kernel demo_table (demo_procs 5)) 0) \<noteq> 0" by (simp_all add: demo_procs_def)
  from isr_clock_tick [OF table_krep _ demo_ready_spec demo_not_ready _ this, of CmpAscendUint "[(PcbP 5, 90)]"]
  show ?thesis using demo_sleeping demo_schedulable by (auto simp: demo_procs_def)
qed

text \<open>Process 4, of the priority of the current process 0, is ready too.\<close>

definition busy_table :: table where
  "busy_table i = (if i = 0 then (CmpNull, Some (PcbP 4, 4)) else demo_table i)"

definition busy_ready :: "nat \<Rightarrow> (kptr \<times> u32) list" where
  "busy_ready i = (if i = 0 then [(PcbP 4, 4)] else demo_ready i)"

theorem isr_clock_preempts_witness:
  "(\<exists>m. isr_clock (table_kernel busy_table (demo_procs 0)) = Panic m) \<or>
   (\<exists>k'. isr_clock (table_kernel busy_table (demo_procs 0)) = Ok k' \<and> curr k' = Some 4 \<and> state (pcbs k' 0) = READY)"
proof -
  let ?k = "table_kernel busy_table (demo_procs 0)"
  have r: "ready_spec ?k (table_spec busy_table) busy_ready"
    unfolding ready_spec_def by (auto simp: busy_table_def demo_table_def busy_ready_def demo_ready_def inj_on_def)
  have s: "table_spec busy_table (sleeping ?k) = Some (CmpAscendUint, [(PcbP 5, 90)])"
    by (simp add: busy_table_def demo_table_def)
  have n: "sleeping ?k \<notin> ready ?k ` {..<4}" by auto
  have sc: "schedulable (pcbs ?k) [(PcbP 5, 90)]" using demo_schedulable by simp
  have p: "curr ?k = Some 0" "quantum (pcbs ?k 0) = 0" "unat (priority (pcbs ?k 0)) < 4"
    by (simp_all add: demo_procs_def demo_pcb_def)
  have po: "\<forall>i<4. procs_only (busy_ready i)" by (simp add: procs_only_def busy_ready_def demo_ready_def)
  have ni: "\<forall>i<4. PcbP 0 \<notin> fst ` set (busy_ready i)" "PcbP 0 \<notin> fst ` set [(PcbP 5, 90 :: u32)]"
    by (auto simp: busy_ready_def demo_ready_def)
  have q0: "unat (priority (pcbs ?k 0)) = 0" by (simp add: demo_procs_def demo_pcb_def)
  have b0: "busy_ready 0 = [(PcbP 4, 4)]" by (simp add: busy_ready_def)
  have st: "state (pcbs ?k 4) \<noteq> KILLED" by (simp add: demo_procs_def)
  from isr_clock_preempts [OF table_krep s r n sc p po ni] show ?thesis
    unfolding q0
  proof (elim disjE exE conjE)
    fix k4 A' i n' key es'
    assume a: "pcbs k4 = (make_ready (takeWhile (\<lambda>e. snd e \<le> system_time ?k + 1) [(PcbP 5, 90)]) (pcbs ?k))
        (0 := (make_ready (takeWhile (\<lambda>e. snd e \<le> system_time ?k + 1) [(PcbP 5, 90)]) (pcbs ?k) 0)\<lparr>state := READY\<rparr>)"
      "i \<le> 0" "(busy_ready i @ ready_entries (pcbs ?k) i (takeWhile (\<lambda>e. snd e \<le> system_time ?k + 1) [(PcbP 5, 90)])) @
        (if i = 0 then [(PcbP 0, ucast (pid (pcbs ?k 0)))] else []) = (PcbP n', key) # es'"
      "state (pcbs k4 n') \<noteq> KILLED \<longrightarrow> (\<exists>k' A''. isr_clock ?k = Ok k' \<and> curr k' = Some n' \<and>
         cr3 (vm k') = page_directory (pcbs ?k n') \<and> state (pcbs k' n') = RUNNING \<and> quantum (pcbs k' n') = STD_QUANTUM \<and>
         (n' \<noteq> 0 \<longrightarrow> state (pcbs k' 0) = READY) \<and> krep k' A'' (table_rest busy_table) \<and>
         ready_spec k' A'' ((\<lambda>i. (busy_ready i @ ready_entries (pcbs ?k) i (takeWhile (\<lambda>e. snd e \<le> system_time ?k + 1) [(PcbP 5, 90)])) @
           (if i = 0 then [(PcbP 0, ucast (pid (pcbs ?k 0)))] else []))(i := es')))"
    have n4: "n' = 4" using a(2,3) by (simp add: b0)
    have "state (pcbs k4 n') \<noteq> KILLED" using a(1) by (simp add: n4 make_ready_state demo_procs_def)
    then show ?thesis using a(4) n4 by auto
  qed blast
qed

theorem sched_init_correct_witness:
  "(\<exists>m. sched_init (table_kernel demo_table (demo_procs 5)) = Panic m) \<or>
   (\<exists>k' A'. sched_init (table_kernel demo_table (demo_procs 5)) = Ok k' \<and> ready_spec k' A' (\<lambda>_. []))"
  using sched_init_correct [OF table_krep] by blast

theorem pcb_init_correct_witness:
  "(\<exists>m. pcb_init (table_kernel demo_table (demo_procs 5)) = Panic m) \<or>
   (\<exists>k'. pcb_init (table_kernel demo_table (demo_procs 5)) = Ok k' \<and> next_pid k' = 1)"
  using pcb_init_correct [OF table_krep] by blast

theorem pcb_alloc_correct_witness:
  "\<exists>k'. pcb_alloc (table_kernel demo_table (demo_procs 5)) = Ok (Some 9, k')"
  using pcb_alloc_correct [OF table_krep [of demo_table "demo_procs 5"], of CmpNull "[(PcbP 9, 0)]"]
  by (auto simp: demo_table_def demo_procs_def)

theorem cleanup_ignores_directory_witness:
  "(case cleanup (Some 0) (upd_pcb 0 (\<lambda>b. b\<lparr>page_directory := 0x77000\<rparr>) (table_kernel demo_table (demo_procs 5)))
     of Ok k' \<Rightarrow> Some (vm k') | _ \<Rightarrow> None) =
   (case cleanup (Some 0) (table_kernel demo_table (demo_procs 5)) of Ok k' \<Rightarrow> Some (vm k') | _ \<Rightarrow> None)"
  by (rule cleanup_ignores_directory) simp

end
