(* ===== verification/Semaphores.thy ===== *)
theory Semaphores
  imports Process
begin

text \<open>
  Counting semaphores, \<^verbatim>\<open>src/kernel/semaphores.c\<close>: ten semaphores in an array, the queue of those
  that are not in use, the queue of those in use, keyed by their number, and one queue of blocked
  processes for each.
\<close>

subsection \<open>Operations\<close>

definition upd_sem :: "nat \<Rightarrow> (semaphore \<Rightarrow> semaphore) \<Rightarrow> kernel \<Rightarrow> kernel" where
  "upd_sem s f k = k\<lparr>sems := (sems k)(s := f (sems k s))\<rparr>"

text \<open>The status of \<^verbatim>\<open>_sched\<close> is ignored.\<close>

partial_function (option) sem_sched_waiting :: "nat \<Rightarrow> kernel \<Rightarrow> kernel outcome option" where
  "sem_sched_waiting s k =
     (if sem_value (sems k s) > 0
      then lift_bind (kq_remove (sem_waiting (sems k s)) k) (\<lambda>(st, d, k1).
        if st = SUCCESS
        then lift_bind (as_pcb d) (\<lambda>p.
             lift_bind (sched (Some p) k1) (\<lambda>(_, k2).
               sem_sched_waiting s (upd_sem s (\<lambda>x. x\<lparr>sem_value := sem_value x - 1\<rparr>) k2)))
        else Some (Ok k1))
      else Some (Ok k))"

definition sem_init :: "kernel \<Rightarrow> kernel outcome" where
  "sem_init k =
     obind (kq_alloc CmpAscendUint k) (\<lambda>(st, q, k1).
       if st \<noteq> SUCCESS then Panic ''_sem_init: _semaphores alloc status''
       else obind (deref q) (\<lambda>q.
       let k1 = k1\<lparr>semaphores := q\<rparr> in
       obind (kq_alloc CmpNull k1) (\<lambda>(st, q, k2).
       if st \<noteq> SUCCESS then Panic ''_sem_init: _available_semaphores alloc status''
       else obind (deref q) (\<lambda>q.
         ofor 0 MAX_SEMAPHORES (\<lambda>i k. obind (kq_insert (available_semaphores k) (SemP i) (of_nat i) k) (\<lambda>(_, k'). Ok k'))
           (k2\<lparr>available_semaphores := q\<rparr>)))))"

definition sem_new :: "kernel \<Rightarrow> (u32 \<times> kernel) outcome" where
  "sem_new k =
     obind (kq_remove (available_semaphores k) k) (\<lambda>(st, d, k1).
       if st = SUCCESS then
         obind (as_sem d) (\<lambda>s.
         let n = sem_count k1 + 1;
             k2 = upd_sem s (\<lambda>x. x\<lparr>sem := n, sem_value := 0\<rparr>) (k1\<lparr>sem_count := n\<rparr>) in
         obind (kq_alloc CmpNull k2) (\<lambda>(_, q, k3).
         let k4 = (case q of None \<Rightarrow> k3 | Some q \<Rightarrow> upd_sem s (\<lambda>x. x\<lparr>sem_waiting := q\<rparr>) k3) in
         obind (kq_insert (semaphores k4) (SemP s) n k4) (\<lambda>(_, k5). Ok (sem (sems k5 s), k5))))
       else Ok (-1, k1))"

text \<open>
  Destroying a semaphore wakes every process that waits for it with the result \<^verbatim>\<open>FAILURE\<close>, which is
  written through the address space that is loaded, not that of the process.
\<close>

partial_function (option) sem_fail_waiting :: "u32 \<Rightarrow> kernel \<Rightarrow> kernel outcome option" where
  "sem_fail_waiting w k =
     lift_bind (kq_remove w k) (\<lambda>(st, d, k1).
       if st = SUCCESS
       then lift_bind (as_pcb d) (\<lambda>p.
            lift_bind (set_RET p (status_code FAILURE) k1) (\<lambda>k2.
            lift_bind (sched (Some p) k2) (\<lambda>(_, k3). sem_fail_waiting w k3)))
       else Some (Ok k1))"

definition sem_destroy :: "u32 \<Rightarrow> kernel \<Rightarrow> (status \<times> kernel) outcome" where
  "sem_destroy n k =
     obind (kq_get_by_key (semaphores k) n k) (\<lambda>(st, d).
       if st = SUCCESS then
         obind (as_sem d) (\<lambda>s.
         obind (of_loop (sem_fail_waiting (sem_waiting (sems k s)) k)) (\<lambda>k1.
         obind (kq_dealloc (sem_waiting (sems k1 s)) k1) (\<lambda>(_, k2).
         obind (kq_remove_by_key (semaphores k2) n k2) (\<lambda>(_, d', k3).
         obind (as_sem (if d' = None then d else d')) (\<lambda>s'.
         obind (kq_insert (available_semaphores k3) (SemP s') 0 k3) (\<lambda>(_, k4). Ok (SUCCESS, k4)))))))
       else Ok (st, k))"

definition sem_try_wait :: "u32 \<Rightarrow> kernel \<Rightarrow> (status \<times> kernel) outcome" where
  "sem_try_wait n k =
     obind (kq_get_by_key (semaphores k) n k) (\<lambda>(st, d).
       if st = SUCCESS then
         obind (as_sem d) (\<lambda>s.
           if sem_value (sems k s) > 0
           then Ok (SUCCESS, upd_sem s (\<lambda>x. x\<lparr>sem_value := sem_value x - 1\<rparr>) k)
           else Ok (FAILURE, k))
       else Ok (st, k))"

definition sem_post :: "u32 \<Rightarrow> kernel \<Rightarrow> (status \<times> kernel) outcome" where
  "sem_post n k =
     obind (kq_get_by_key (semaphores k) n k) (\<lambda>(st, d).
       if st = SUCCESS then
         obind (as_sem d) (\<lambda>s.
         obind (of_loop (sem_sched_waiting s (upd_sem s (\<lambda>x. x\<lparr>sem_value := sem_value x + 1\<rparr>) k))) (\<lambda>k1.
           Ok (SUCCESS, k1)))
       else Ok (st, k))"

definition sem_wait :: "u32 \<Rightarrow> nat \<Rightarrow> kernel \<Rightarrow> (status \<times> kernel) outcome" where
  "sem_wait n p k =
     obind (kq_get_by_key (semaphores k) n k) (\<lambda>(st, d).
       if st = SUCCESS then
         obind (as_sem d) (\<lambda>s.
           if sem_value (sems k s) > 0
           then Ok (SUCCESS, upd_sem s (\<lambda>x. x\<lparr>sem_value := sem_value x - 1\<rparr>) k)
           else obind (kq_insert (sem_waiting (sems k s)) (PcbP p) 0 k) (\<lambda>(_, k1).
                obind (dispatch k1) (\<lambda>k2. Ok (SUCCESS, k2))))
       else Ok (st, k))"

subsection \<open>Posting and waiting\<close>

lemma upd_sem_fields [simp]:
  "qh_of (upd_sem s f k) = qh_of k" "sems (upd_sem s f k) = (sems k)(s := f (sems k s))" "pcbs (upd_sem s f k) = pcbs k"
  "ready (upd_sem s f k) = ready k" "curr (upd_sem s f k) = curr k" "semaphores (upd_sem s f k) = semaphores k"
  "available_semaphores (upd_sem s f k) = available_semaphores k" "vm (upd_sem s f k) = vm k"
  by (simp_all add: upd_sem_def)

text \<open>The semaphore \<open>n\<close> is in use, in the array place \<open>s\<close>, with the processes \<open>ws\<close> waiting for it.\<close>

definition sem_at :: "kernel \<Rightarrow> kptr qspec \<Rightarrow> u32 \<Rightarrow> nat \<Rightarrow> (kptr \<times> u32) list \<Rightarrow> bool" where
  "sem_at k A n s ws \<longleftrightarrow>
     (\<exists>c es es'. A (semaphores k) = Some (c, es) \<and> spec_remove (\<lambda>e. snd e = n) es = Some (SemP s, es')) \<and>
     A (sem_waiting (sems k s)) = Some (CmpNull, ws)"

lemma sem_lookup:
  assumes "krep k A L" "sem_at k A n s ws"
  shows "kq_get_by_key (semaphores k) n k = Ok (SUCCESS, Some (SemP s))"
proof -
  obtain c es es' where *: "A (semaphores k) = Some (c, es)" "spec_remove (\<lambda>e. snd e = n) es = Some (SemP s, es')"
    using assms(2) by (auto simp: sem_at_def)
  then have "es \<noteq> []" by (auto simp: spec_remove_def)
  then show ?thesis using kq_get_by_key_sim [OF assms(1) *(1), of n] *(2) by simp
qed

lemma post_no_waiter:
  assumes R: "krep k A L" and w: "A (sem_waiting (sems k s)) = Some (c, [])" and v: "sem_value (sems k s) \<noteq> 0"
  shows "of_loop (sem_sched_waiting s k) = Ok (put_q (qh_of k) k)"
proof -
  obtain h where h: "kq_remove (sem_waiting (sems k s)) k = Ok (EMPTY_QUEUE, None, put_q h k)" "h = qh_of k"
    using kq_remove_empty [OF R w] by metis
  have "sem_value (sems k s) > 0" using v by (simp add: word_neq_0_conv)
  then show ?thesis using h by (subst sem_sched_waiting.simps) simp
qed

lemma post_waiter:
  assumes R: "krep k A L" and w: "A (sem_waiting (sems k s)) = Some (c, (PcbP p, key) # ws)"
    and v: "sem_value (sems k s) = 1" and pr: "unat (priority (pcbs k p)) < 4"
    and A: "A (ready k (unat (priority (pcbs k p)))) = Some (CmpNull, es)"
    and ne: "ready k (unat (priority (pcbs k p))) \<noteq> sem_waiting (sems k s)"
  obtains m where "of_loop (sem_sched_waiting s k) = Panic m"
    | h k1 where "of_loop (sem_sched_waiting s k) = Ok (upd_sem s (\<lambda>x. x\<lparr>sem_value := 0\<rparr>)
          (put_q h (upd_pcb p (\<lambda>b. b\<lparr>state := READY\<rparr>) k1)))" "pcbs k1 = pcbs k" "sems k1 = sems k" "ready k1 = ready k"
        "curr k1 = curr k" "semaphores k1 = semaphores k"
        "qrep h (A(sem_waiting (sems k s) \<mapsto> (c, ws),
           ready k (unat (priority (pcbs k p))) \<mapsto> (CmpNull, es @ [(PcbP p, ucast (pid (pcbs k p)))]))) L"
proof -
  let ?i = "unat (priority (pcbs k p))" and ?w = "sem_waiting (sems k s)"
  obtain h where h: "kq_remove ?w k = Ok (SUCCESS, Some (PcbP p), put_q h k)" "qrep h (A(?w \<mapsto> (c, ws))) L"
    using kq_remove_sim [OF R w] by auto
  let ?k1 = "put_q h k"
  have k1: "krep ?k1 (A(?w \<mapsto> (c, ws))) L" using h(2) by (simp del: fun_upd_apply)
  have pr1: "unat (priority (pcbs ?k1 p)) < 4" using pr by simp
  have A1: "(A(?w \<mapsto> (c, ws))) (ready ?k1 (unat (priority (pcbs ?k1 p)))) = Some (CmpNull, es)" using A ne by simp
  from sched_sim [OF k1 pr1 A1] show thesis
  proof cases
    case (1 m)
    then have "of_loop (sem_sched_waiting s k) = Panic m"
      using h(1) v by (subst sem_sched_waiting.simps) (simp add: as_pcb_def)
    then show thesis by (rule that(1))
  next
    case (2 h2)
    let ?k2 = "upd_sem s (\<lambda>x. x\<lparr>sem_value := sem_value x - 1\<rparr>) (put_q h2 (upd_pcb p (\<lambda>b. b\<lparr>state := READY\<rparr>) ?k1))"
    have "of_loop (sem_sched_waiting s k) = of_loop (sem_sched_waiting s ?k2)"
      using h(1) v 2(1) by (subst sem_sched_waiting.simps) (simp add: as_pcb_def)
    also have "\<dots> = Ok ?k2" using v by (subst sem_sched_waiting.simps) simp
    also have "?k2 = upd_sem s (\<lambda>x. x\<lparr>sem_value := 0\<rparr>) (put_q h2 (upd_pcb p (\<lambda>b. b\<lparr>state := READY\<rparr>) ?k1))"
      using v by (simp add: upd_sem_def fun_eq_iff)
    finally show thesis using that(2) [of h2 ?k1] 2(2) by (simp del: fun_upd_apply)
  qed
qed

text \<open>
  C6: posting a semaphore nobody waits for adds one to its value; posting one with waiting
  processes (whose value is then 0) leaves the value at 0 and makes the process that waited
  longest ready instead: no post is lost and none counts twice.
\<close>

theorem sem_post_correct:
  assumes R: "krep k A L" and S: "sem_at k A n s ws" and Q: "ready_spec k A Rq"
    and ne: "sem_waiting (sems k s) \<notin> ready k ` {..<4}" and sch: "schedulable (pcbs k) ws"
    and v: "ws \<noteq> [] \<longrightarrow> sem_value (sems k s) = 0" "sem_value (sems k s) \<noteq> -1"
  shows "(\<exists>m. sem_post n k = Panic m) \<or> (\<exists>k' A'. sem_post n k = Ok (SUCCESS, k') \<and> krep k' A' L \<and>
    (case ws of
       [] \<Rightarrow> sem_value (sems k' s) = sem_value (sems k s) + 1 \<and> A' = A \<and> pcbs k' = pcbs k
     | e # ws' \<Rightarrow> sem_value (sems k' s) = 0 \<and> (\<exists>p. fst e = PcbP p \<and>
         pcbs k' = (pcbs k)(p := (pcbs k p)\<lparr>state := READY\<rparr>) \<and>
         A' = A(sem_waiting (sems k s) \<mapsto> (CmpNull, ws'), ready k (unat (priority (pcbs k p))) \<mapsto>
                 (CmpNull, Rq (unat (priority (pcbs k p))) @ [(PcbP p, ucast (pid (pcbs k p)))])))))"
proof -
  let ?k = "upd_sem s (\<lambda>x. x\<lparr>sem_value := sem_value x + 1\<rparr>) k"
  have e: "sem_post n k = obind (of_loop (sem_sched_waiting s ?k)) (\<lambda>k1. Ok (SUCCESS, k1))"
    unfolding sem_post_def sem_lookup [OF R S] by (simp add: as_sem_def)
  have R': "krep ?k A L" using R by (simp add: krep_def)
  have w: "A (sem_waiting (sems ?k s)) = Some (CmpNull, ws)" using S by (simp add: sem_at_def)
  show ?thesis
  proof (cases ws)
    case Nil
    have "sem_value (sems k s) + 1 \<noteq> 0" using v(2) unfolding eq_neg_iff_add_eq_0 .
    then have "sem_value (sems ?k s) \<noteq> 0" by simp
    then have "of_loop (sem_sched_waiting s ?k) = Ok (put_q (qh_of ?k) ?k)"
      using post_no_waiter [OF R' w [unfolded Nil]] by blast
    then show ?thesis unfolding e using Nil R by (simp add: krep_def)
  next
    case (Cons x ws')
    then obtain p where p: "fst x = PcbP p" "unat (priority (pcbs k p)) < 4" using sch by (auto simp: schedulable_def)
    have w': "A (sem_waiting (sems ?k s)) = Some (CmpNull, (PcbP p, snd x) # ws')" using w Cons p(1) by (cases x) simp
    have v1: "sem_value (sems ?k s) = 1" using v Cons by simp
    have pr: "unat (priority (pcbs ?k p)) < 4" using p by simp
    have a: "A (ready ?k (unat (priority (pcbs ?k p)))) = Some (CmpNull, Rq (unat (priority (pcbs k p))))"
      using Q p by (simp add: ready_spec_def)
    have "ready k (unat (priority (pcbs k p))) \<in> ready k ` {..<4}" using p(2) by simp
    then have n': "ready ?k (unat (priority (pcbs ?k p))) \<noteq> sem_waiting (sems ?k s)" using ne by auto
    from post_waiter [OF R' w' v1 pr a n'] show ?thesis
    proof cases
      case (1 m)
      then show ?thesis unfolding e by simp
    next
      case (2 h k1)
      then show ?thesis unfolding e using Cons p(1) by (simp add: krep_def del: fun_upd_apply) (simp)
    qed
  qed
qed

text \<open>
  C35: waiting for a semaphore with a positive value takes one off and goes on; waiting for one with
  value 0 queues the caller behind those that wait already and runs the next ready process.
\<close>

theorem sem_wait_correct:
  assumes R: "krep k A L" and S: "sem_at k A n s ws" and Q: "ready_spec k A Rq"
    and ne: "sem_waiting (sems k s) \<notin> ready k ` {..<4}" and live: "\<forall>i<4. live_ready k (Rq i)" "\<exists>i<4. Rq i \<noteq> []"
  shows "if sem_value (sems k s) \<noteq> 0
    then \<exists>k'. sem_wait n p k = Ok (SUCCESS, k') \<and> sem_value (sems k' s) = sem_value (sems k s) - 1 \<and> krep k' A L \<and>
      curr k' = curr k
    else (\<exists>m. sem_wait n p k = Panic m) \<or> (\<exists>k' i q key es. sem_wait n p k = Ok (SUCCESS, k') \<and> sems k' = sems k \<and>
      i < 4 \<and> (\<forall>j<i. Rq j = []) \<and> Rq i = (PcbP q, key) # es \<and> curr k' = Some q \<and>
      krep k' (A(sem_waiting (sems k s) \<mapsto> (CmpNull, ws @ [(PcbP p, 0)]), ready k i \<mapsto> (CmpNull, es))) L)"
proof (cases "sem_value (sems k s) = 0")
  case False
  then have "sem_wait n p k = Ok (SUCCESS, upd_sem s (\<lambda>x. x\<lparr>sem_value := sem_value x - 1\<rparr>) k)"
    unfolding sem_wait_def sem_lookup [OF R S] by (simp add: as_sem_def word_neq_0_conv)
  then show ?thesis using False R by (simp add: krep_def)
next
  case True
  have w: "A (sem_waiting (sems k s)) = Some (CmpNull, ws)" using S by (simp add: sem_at_def)
  have e: "sem_wait n p k = obind (kq_insert (sem_waiting (sems k s)) (PcbP p) 0 k) (\<lambda>(_, k1).
                obind (dispatch k1) (\<lambda>k2. Ok (SUCCESS, k2)))"
    unfolding sem_wait_def sem_lookup [OF R S] using True by (simp add: as_sem_def)
  from kq_insert_sim [OF R w, of "PcbP p" 0] show ?thesis
  proof cases
    case (1 m)
    then show ?thesis unfolding e using True by simp
  next
    case (2 h)
    let ?k1 = "put_q h k" and ?A1 = "A(sem_waiting (sems k s) \<mapsto> (CmpNull, ws @ [(PcbP p, 0)]))"
    have k1: "krep ?k1 ?A1 L" using 2(2) by (simp del: fun_upd_apply)
    have "ready k i \<noteq> sem_waiting (sems k s)" if "i < 4" for i using ne that by (metis imageI lessThan_iff)
    then have q1: "ready_spec ?k1 ?A1 Rq" using Q by (simp add: ready_spec_def)
    have l1: "\<forall>i<4. live_ready ?k1 (Rq i)" using live(1) by (simp add: live_ready_def)
    obtain i q key es h' where d: "i < 4" "\<forall>j<i. Rq j = []" "Rq i = (PcbP q, key) # es"
      "dispatch ?k1 = Ok (dispatched q h' ?k1)" "qrep h' (?A1(ready ?k1 i \<mapsto> (CmpNull, es))) L"
      using dispatch_some [OF k1 q1 l1 live(2)] by metis
    have "sem_wait n p k = Ok (SUCCESS, dispatched q h' ?k1)" unfolding e 2(1) using d(4) by simp
    moreover have "krep (dispatched q h' ?k1) (?A1(ready k i \<mapsto> (CmpNull, es))) L"
      using d(5) by (simp add: krep_def del: fun_upd_apply)
    ultimately show ?thesis using True d(1-3)
      by (intro if_not_P [THEN iffD2] disjI2 exI conjI) (simp | assumption)+
  qed
qed

text \<open>
  A new semaphore takes a place from the queue of unused ones, gets the next number, the value
  0 and an empty queue of its own, and can be found under its number; with no place left the
  result is -1.
\<close>

theorem sem_new_correct:
  assumes R: "krep k A L" and av: "A (available_semaphores k) = Some (CmpNull, es)"
    and use: "A (semaphores k) = Some (CmpAscendUint, us)" and ne: "semaphores k \<noteq> available_semaphores k"
    and sm: "\<forall>e\<in>set es. \<exists>s. fst e = SemP s" and fresh: "\<forall>e\<in>set us. snd e < sem_count k + 1"
  shows "case es of
      [] \<Rightarrow> \<exists>k'. sem_new k = Ok (-1, k') \<and> krep k' A L
    | e # es' \<Rightarrow> (\<exists>m. sem_new k = Panic m) \<or> (\<exists>k' A' s. sem_new k = Ok (sem_count k + 1, k') \<and> krep k' A' L \<and>
        fst e = SemP s \<and> sem_at k' A' (sem_count k + 1) s [] \<and> sem_value (sems k' s) = 0 \<and>
        A (sem_waiting (sems k' s)) = None \<and> A' (available_semaphores k) = Some (CmpNull, es'))"
proof (cases es)
  case Nil
  then obtain h where "kq_remove (available_semaphores k) k = Ok (EMPTY_QUEUE, None, put_q h k)" "qrep h A L"
    using kq_remove_empty [OF R, of "available_semaphores k" CmpNull] av by metis
  then show ?thesis using Nil by (simp add: sem_new_def)
next
  case (Cons e es')
  then obtain s where s: "fst e = SemP s" using sm by auto
  obtain h where h: "kq_remove (available_semaphores k) k = Ok (SUCCESS, Some (SemP s), put_q h k)"
    "qrep h (A(available_semaphores k \<mapsto> (CmpNull, es'))) L"
    using kq_remove_sim [OF R, of "available_semaphores k" CmpNull e es'] av Cons s by auto
  let ?n = "sem_count k + 1" and ?A1 = "A(available_semaphores k \<mapsto> (CmpNull, es'))"
  let ?k2 = "upd_sem s (\<lambda>x. x\<lparr>sem := ?n, sem_value := 0\<rparr>) ((put_q h k)\<lparr>sem_count := ?n\<rparr>)"
  have e: "sem_new k = obind (kq_alloc CmpNull ?k2) (\<lambda>(_, q, k3).
         let k4 = (case q of None \<Rightarrow> k3 | Some q \<Rightarrow> upd_sem s (\<lambda>x. x\<lparr>sem_waiting := q\<rparr>) k3) in
         obind (kq_insert (semaphores k4) (SemP s) ?n k4) (\<lambda>(_, k5). Ok (sem (sems k5 s), k5)))"
    unfolding sem_new_def h(1) by (simp add: as_sem_def Let_def)
  have k2: "krep ?k2 ?A1 L" using h(2) by (simp add: krep_def del: fun_upd_apply)
  from kq_alloc_sim [OF k2, of CmpNull] show ?thesis
  proof cases
    case (1 m)
    then show ?thesis unfolding e using Cons by simp
  next
    case (2 q h3)
    let ?k4 = "upd_sem s (\<lambda>x. x\<lparr>sem_waiting := q\<rparr>) (put_q h3 ?k2)"
    have sq: "semaphores k \<noteq> q" "q \<noteq> available_semaphores k" "A q = None"
      using 2(3) use by (auto split: if_splits)
    have k4: "krep ?k4 (?A1(q \<mapsto> (CmpNull, []))) L" using 2(5) by (simp add: krep_def del: fun_upd_apply)
    have u4: "(?A1(q \<mapsto> (CmpNull, []))) (semaphores k) = Some (CmpAscendUint, us)" using use sq ne by simp
    have run: "sem_new k = obind (kq_insert (semaphores k) (SemP s) ?n ?k4) (\<lambda>(_, k5). Ok (sem (sems k5 s), k5))"
      unfolding e 2(1) by (simp add: Let_def)
    from kq_insert_sim [OF k4 u4, of "SemP s" ?n] show ?thesis
    proof cases
      case (1 m)
      then show ?thesis unfolding run using Cons by simp
    next
      case (2 h5)
      let ?us = "spec_insert CmpAscendUint (SemP s) ?n us"
      have "sem_new k = Ok (?n, put_q h5 ?k4)" unfolding run 2(1) by simp
      moreover have "krep (put_q h5 ?k4) (?A1(q \<mapsto> (CmpNull, []), semaphores k \<mapsto> (CmpAscendUint, ?us))) L"
        using 2(2) by (simp del: fun_upd_apply)
      moreover have "?us = us @ [(SemP s, ?n)]"
      proof -
        have "\<forall>e\<in>set us. comp_key CmpAscendUint (snd e) ?n \<le> 0" using fresh by (simp add: comp_ascend_uint_def)
        then have "takeWhile (\<lambda>e. comp_key CmpAscendUint (snd e) ?n \<le> 0) us = us"
          "dropWhile (\<lambda>e. comp_key CmpAscendUint (snd e) ?n \<le> 0) us = []" by simp_all
        then show ?thesis by (simp add: spec_insert_def Let_def)
      qed
      moreover have "spec_remove (\<lambda>e. snd e = ?n) (us @ [(SemP s, ?n)]) = Some (SemP s, us)"
      proof -
        have "\<forall>e\<in>set us. snd e \<noteq> ?n" using fresh by auto
        then show ?thesis by (simp add: spec_remove_def dropWhile_append2 takeWhile_append2)
      qed
      ultimately have "sem_at (put_q h5 ?k4) (?A1(q \<mapsto> (CmpNull, []), semaphores k \<mapsto> (CmpAscendUint, ?us))) ?n s []"
        using sq by (simp add: sem_at_def)
      moreover have "sem_value (sems (put_q h5 ?k4) s) = 0" "A (sem_waiting (sems (put_q h5 ?k4) s)) = None"
        "(?A1(q \<mapsto> (CmpNull, []), semaphores k \<mapsto> (CmpAscendUint, ?us))) (available_semaphores k) = Some (CmpNull, es')"
        using sq ne by simp_all
      ultimately show ?thesis unfolding Cons list.case
        using \<open>sem_new k = Ok (?n, put_q h5 ?k4)\<close> s
          \<open>krep (put_q h5 ?k4) (?A1(q \<mapsto> (CmpNull, []), semaphores k \<mapsto> (CmpAscendUint, ?us))) L\<close> by blast
    qed
  qed
qed

subsection \<open>The properties at a concrete state\<close>

text \<open>
  Semaphore 1 is in place 0 with process 3 waiting for it (queue 9), place 4 is unused, process 2
  is ready.
\<close>

definition sem_table :: "bool \<Rightarrow> table" where
  "sem_table w i = (if i = 2 then (CmpNull, Some (PcbP 2, 2)) else if i = 7 then (CmpAscendUint, Some (SemP 0, 1))
     else if i = 8 then (CmpNull, Some (SemP 4, 4)) else if i = 9 \<and> w then (CmpNull, Some (PcbP 3, 0)) else (CmpNull, None))"

lemma sem_table_ready: "ready_spec (table_kernel (sem_table w) P) (table_spec (sem_table w)) demo_ready"
  unfolding ready_spec_def by (auto simp: sem_table_def demo_ready_def inj_on_def)

lemma sem_table_at:
  "sem_at (table_kernel (sem_table w) P) (table_spec (sem_table w)) 1 0 (if w then [(PcbP 3, 0)] else [])"
  by (simp add: sem_at_def sem_table_def spec_remove_def)

lemma sem_table_not_ready: "sem_waiting (sems (table_kernel (sem_table w) P) 0) \<notin> ready (table_kernel (sem_table w) P) ` {..<4}"
  by auto

theorem sem_post_correct_witness:
  "(\<exists>m. sem_post 1 (table_kernel (sem_table True) (demo_procs 5)) = Panic m) \<or>
   (\<exists>k'. sem_post 1 (table_kernel (sem_table True) (demo_procs 5)) = Ok (SUCCESS, k') \<and>
     sem_value (sems k' 0) = 0 \<and> state (pcbs k' 3) = READY)"
proof -
  have "schedulable (pcbs (table_kernel (sem_table True) (demo_procs 5))) [(PcbP 3, 0)]"
    by (simp add: schedulable_def demo_procs_def demo_pcb_def)
  from sem_post_correct [OF table_krep sem_table_at [of True, unfolded if_True] sem_table_ready sem_table_not_ready this]
  show ?thesis by auto
qed

theorem sem_wait_correct_witness:
  "(\<exists>m. sem_wait 1 0 (table_kernel (sem_table False) (demo_procs 5)) = Panic m) \<or>
   (\<exists>k' i q key es. sem_wait 1 0 (table_kernel (sem_table False) (demo_procs 5)) = Ok (SUCCESS, k') \<and>
     demo_ready i = (PcbP q, key) # es \<and> curr k' = Some q)"
proof -
  have l: "\<forall>i<4. live_ready (table_kernel (sem_table False) (demo_procs 5)) (demo_ready i)"
    by (simp add: live_ready_def demo_ready_def demo_procs_def)
  have ne: "\<exists>i<4. demo_ready i \<noteq> []" by (simp add: demo_ready_def)
  have "\<not> sem_value (sems (table_kernel (sem_table False) (demo_procs 5)) 0) \<noteq> 0" by simp
  from sem_wait_correct [OF table_krep sem_table_at sem_table_ready sem_table_not_ready l ne, of 0, unfolded if_not_P [OF this]]
  show ?thesis by blast
qed

theorem sem_new_correct_witness:
  "(\<exists>m. sem_new (table_kernel (sem_table False) (demo_procs 5)) = Panic m) \<or>
   (\<exists>k'. sem_new (table_kernel (sem_table False) (demo_procs 5)) = Ok (2, k') \<and> sem_value (sems k' 4) = 0)"
proof -
  let ?k = "table_kernel (sem_table False) (demo_procs 5)"
  have "table_spec (sem_table False) (available_semaphores ?k) = Some (CmpNull, [(SemP 4, 4)])"
    "table_spec (sem_table False) (semaphores ?k) = Some (CmpAscendUint, [(SemP 0, 1)])"
    "semaphores ?k \<noteq> available_semaphores ?k" by (simp_all add: sem_table_def)
  from sem_new_correct [OF table_krep this]
  have "(\<exists>m. sem_new ?k = Panic m) \<or> (\<exists>k' s. sem_new ?k = Ok (sem_count ?k + 1, k') \<and>
        SemP 4 = SemP s \<and> sem_value (sems k' s) = 0)"
    by (auto simp: table_kernel_def)
  then show ?thesis by (auto simp: table_kernel_def)
qed

end
