(* ===== verification/Locks.thy ===== *)
theory Locks
  imports Process
begin

text \<open>
  Readers-writer locks, \<^verbatim>\<open>src/kernel/locks.c\<close>. A lock is an object of the kernel heap found by its
  number in the queue \<open>locks\<close>; a process that has to wait is represented by another heap object in
  the lock's queue, where writers (key 0) stand before readers (key 1). The trace is left out.
\<close>

subsection \<open>Operations\<close>

abbreviation (input) sizeof_LockInfo :: u32 where "sizeof_LockInfo \<equiv> 20"
abbreviation (input) sizeof_LockWaiter :: u32 where "sizeof_LockWaiter \<equiv> 8"

definition get_lock :: "u32 \<Rightarrow> kernel \<Rightarrow> lockinfo outcome" where
  "get_lock a k = deref (lock_infos k a)"

definition upd_lock :: "u32 \<Rightarrow> (lockinfo \<Rightarrow> lockinfo) \<Rightarrow> kernel \<Rightarrow> kernel outcome" where
  "upd_lock a f k = obind (get_lock a k) (\<lambda>l. Ok (k\<lparr>lock_infos := (lock_infos k)(a \<mapsto> f l)\<rparr>))"

definition get_waiter :: "u32 \<Rightarrow> kernel \<Rightarrow> lockwaiter outcome" where
  "get_waiter w k = deref (lock_waiters k w)"

definition lock_find_by_key :: "u32 \<Rightarrow> kernel \<Rightarrow> (status \<times> kptr option) outcome" where
  "lock_find_by_key n k = kq_get_by_key (locks k) n k"

definition free_waiter :: "u32 \<Rightarrow> kernel \<Rightarrow> kernel outcome" where
  "free_waiter w k = obind (k_free w k) (\<lambda>k'. Ok (k'\<lparr>lock_waiters := (lock_waiters k')(w := None)\<rparr>))"

definition lock_insert_waiter :: "u32 \<Rightarrow> lockmode \<Rightarrow> nat \<Rightarrow> kernel \<Rightarrow> (status \<times> kernel) outcome" where
  "lock_insert_waiter a mode p k =
     obind (k_malloc sizeof_LockWaiter k) (\<lambda>(w, k1).
     let k2 = k1\<lparr>lock_waiters := (lock_waiters k1)(w \<mapsto> \<lparr>lw_mode = mode, lw_pcb = p\<rparr>)\<rparr>;
         key = (if mode = LOCK_READ then 1 else 0) in
     obind (get_lock a k2) (\<lambda>l.
     obind (kq_insert (lock_waiting l) (WaiterP w) key k2) (\<lambda>(st, k3).
       if st = SUCCESS then
         obind (if mode = LOCK_WRITE
                then upd_lock a (\<lambda>l. l\<lparr>writerWaitingCount := writerWaitingCount l + 1\<rparr>) k3 else Ok k3) (\<lambda>k4.
         obind (dispatch k4) (\<lambda>k5. Ok (st, k5)))
       else obind (free_waiter w k3) (\<lambda>k4. Ok (st, k4)))))"

definition lock_init :: "kernel \<Rightarrow> kernel outcome" where
  "lock_init k =
     obind (kq_alloc CmpAscendUint k) (\<lambda>(st, q, k1).
       if st \<noteq> SUCCESS then Panic ''_lock_init: _locks alloc status''
       else obind (deref q) (\<lambda>q. Ok (k1\<lparr>locks := q\<rparr>)))"

text \<open>
  The second test of \<^verbatim>\<open>status\<close> in \<^verbatim>\<open>_lock_new\<close> looks at the status of the queue allocation
  again, so it never fails; the status of the insertion is lost.
\<close>

definition lock_new :: "u32 \<Rightarrow> kernel \<Rightarrow> (status \<times> kernel) outcome" where
  "lock_new lockp k =
     obind (k_malloc sizeof_LockInfo k) (\<lambda>(a, k1).
     let n = lock_count k1 + 1;
         k2 = k1\<lparr>lock_count := n, lock_infos := (lock_infos k1)
                (a \<mapsto> \<lparr>lock = n, readerCount = 0, writerWaitingCount = 0, lock_waiting = 0, hasWriter = False\<rparr>)\<rparr> in
     obind (kq_alloc CmpAscendUint k2) (\<lambda>(st, q, k3).
       if st \<noteq> SUCCESS then
         obind (k_free a k3) (\<lambda>k4. Ok (FAILURE, k4\<lparr>lock_infos := (lock_infos k4)(a := None)\<rparr>))
       else obind (deref q) (\<lambda>q.
       obind (upd_lock a (\<lambda>l. l\<lparr>lock_waiting := q\<rparr>) k3) (\<lambda>k4.
       obind (kstore lockp n k4) (\<lambda>k5.
       obind (kq_insert (locks k5) (LockP a) n k5) (\<lambda>(_, k6). Ok (SUCCESS, k6)))))))"

definition lock_destroy :: "u32 \<Rightarrow> kernel \<Rightarrow> status outcome" where
  "lock_destroy n k =
     obind (lock_find_by_key n k) (\<lambda>(st, d). if st = SUCCESS then Ok FAILURE else Ok st)"

definition lock_lock :: "u32 \<Rightarrow> lockmode \<Rightarrow> nat \<Rightarrow> kernel \<Rightarrow> (status \<times> kernel) outcome" where
  "lock_lock n mode p k =
     obind (lock_find_by_key n k) (\<lambda>(st, d).
       if st = SUCCESS then
         obind (as_lock d) (\<lambda>a. obind (get_lock a k) (\<lambda>l.
           if hasWriter l \<or> writerWaitingCount l > 0 then lock_insert_waiter a mode p k
           else if mode = LOCK_READ then
             obind (upd_lock a (\<lambda>l. l\<lparr>readerCount := readerCount l + 1\<rparr>) k) (\<lambda>k1. Ok (SUCCESS, k1))
           else if readerCount l > 0 then lock_insert_waiter a mode p k
           else obind (upd_lock a (\<lambda>l. l\<lparr>hasWriter := True\<rparr>) k) (\<lambda>k1. Ok (SUCCESS, k1))))
       else Ok (st, k))"

text \<open>The loop that admits all the readers in the queue.\<close>

partial_function (option) flush_readers :: "u32 \<Rightarrow> kernel \<Rightarrow> kernel outcome option" where
  "flush_readers a k =
     lift_bind (get_lock a k) (\<lambda>l.
     lift_bind (kq_remove (lock_waiting l) k) (\<lambda>(st, d, k1).
       if st = SUCCESS then
         lift_bind (as_waiter d) (\<lambda>w.
         lift_bind (upd_lock a (\<lambda>l. l\<lparr>readerCount := readerCount l + 1\<rparr>) k1) (\<lambda>k2.
         lift_bind (get_waiter w k2) (\<lambda>lw.
         lift_bind (sched (Some (lw_pcb lw)) k2) (\<lambda>(_, k3).
         lift_bind (free_waiter w k3) (\<lambda>k4. flush_readers a k4)))))
       else Some (Ok k1)))"

definition lock_unlock :: "u32 \<Rightarrow> lockmode \<Rightarrow> kernel \<Rightarrow> (status \<times> kernel) outcome" where
  "lock_unlock n mode k =
     obind (lock_find_by_key n k) (\<lambda>(st, d).
       if st \<noteq> SUCCESS then Ok (st, k)
       else obind (as_lock d) (\<lambda>a.
       obind (if mode = LOCK_READ then upd_lock a (\<lambda>l. l\<lparr>readerCount := readerCount l - 1\<rparr>) k else Ok k) (\<lambda>k1.
       obind (get_lock a k1) (\<lambda>l.
       if writerWaitingCount l > 0 \<or> hasWriter l then
         obind (kq_remove (lock_waiting l) k1) (\<lambda>(st, d, k2).
           if st = SUCCESS then
             obind (as_waiter d) (\<lambda>w.
             obind (get_waiter w k2) (\<lambda>lw.
             obind (sched (Some (lw_pcb lw)) k2) (\<lambda>(_, k3).
             obind (if lw_mode lw = LOCK_READ
                    then obind (upd_lock a (\<lambda>l. l\<lparr>readerCount := readerCount l + 1, hasWriter := False\<rparr>) k3) (\<lambda>k4.
                           of_loop (flush_readers a k4))
                    else upd_lock a (\<lambda>l. l\<lparr>writerWaitingCount := writerWaitingCount l - 1, hasWriter := True\<rparr>) k3) (\<lambda>k5.
             obind (free_waiter w k5) (\<lambda>k6. Ok (SUCCESS, k6))))))
           else if st = EMPTY_QUEUE \<and> mode = LOCK_WRITE then
             obind (upd_lock a (\<lambda>l. l\<lparr>hasWriter := False\<rparr>) k2) (\<lambda>k3. Ok (SUCCESS, k3))
           else Ok (st, k2))
       else Ok (SUCCESS, k1)))))"

subsection \<open>Granting and queueing\<close>

definition lock_at :: "kernel \<Rightarrow> kptr qspec \<Rightarrow> u32 \<Rightarrow> u32 \<Rightarrow> lockinfo \<Rightarrow> (kptr \<times> u32) list \<Rightarrow> bool" where
  "lock_at k A n a l ws \<longleftrightarrow>
     (\<exists>c es es'. A (locks k) = Some (c, es) \<and> spec_remove (\<lambda>e. snd e = n) es = Some (LockP a, es')) \<and>
     lock_infos k a = Some l \<and> A (lock_waiting l) = Some (CmpAscendUint, ws)"

lemma lock_lookup:
  assumes "krep k A L" "lock_at k A n a l ws"
  shows "lock_find_by_key n k = Ok (SUCCESS, Some (LockP a))"
proof -
  obtain c es es' where *: "A (locks k) = Some (c, es)" "spec_remove (\<lambda>e. snd e = n) es = Some (LockP a, es')"
    using assms(2) by (auto simp: lock_at_def)
  then have "es \<noteq> []" by (auto simp: spec_remove_def)
  then show ?thesis using kq_get_by_key_sim [OF assms(1) *(1), of n] *(2) by (simp add: lock_find_by_key_def)
qed

lemma upd_lock_Ok:
  "lock_infos k a = Some l \<Longrightarrow> upd_lock a f k = Ok (k\<lparr>lock_infos := (lock_infos k)(a \<mapsto> f l)\<rparr>)"
  by (simp add: upd_lock_def get_lock_def)

definition lock_busy :: "lockmode \<Rightarrow> lockinfo \<Rightarrow> bool" where
  "lock_busy mode l \<longleftrightarrow> hasWriter l \<or> writerWaitingCount l \<noteq> 0 \<or> (mode = LOCK_WRITE \<and> readerCount l \<noteq> 0)"

definition waiter_key :: "lockmode \<Rightarrow> u32" where
  "waiter_key mode = (if mode = LOCK_READ then 1 else 0)"

lemma lock_lock_busy:
  assumes "krep k A L" "lock_at k A n a l ws" "lock_busy mode l"
  shows "lock_lock n mode p k = lock_insert_waiter a mode p k"
proof -
  have "get_lock a k = Ok l" using assms(2) by (simp add: lock_at_def get_lock_def)
  then show ?thesis using assms(3) lock_lookup [OF assms(1,2)]
    by (cases mode) (auto simp: lock_lock_def as_lock_def lock_busy_def word_neq_0_conv)
qed

lemma insert_waiter:
  assumes R: "krep k A L" and T: "lock_at k A n a l ws" and Q: "ready_spec k A Rq"
    and ne: "lock_waiting l \<notin> ready k ` {..<4}" and live: "\<forall>i<4. live_ready k (Rq i)" "\<exists>i<4. Rq i \<noteq> []"
  obtains m where "lock_insert_waiter a mode p k = Panic m"
    | k' w i q key es where "lock_insert_waiter a mode p k = Ok (SUCCESS, k')" "lock_waiters k' w = Some \<lparr>lw_mode = mode, lw_pcb = p\<rparr>"
      "w \<notin> L" "\<forall>v. v \<noteq> w \<longrightarrow> lock_waiters k' v = lock_waiters k v"
      "lock_infos k' a = Some (if mode = LOCK_WRITE then l\<lparr>writerWaitingCount := writerWaitingCount l + 1\<rparr> else l)"
      "i < 4" "\<forall>j<i. Rq j = []" "Rq i = (PcbP q, key) # es" "curr k' = Some q"
      "krep k' (A(lock_waiting l \<mapsto> (CmpAscendUint, spec_insert CmpAscendUint (WaiterP w) (waiter_key mode) ws),
                  ready k i \<mapsto> (CmpNull, es))) (insert w L)"
proof -
  have li: "lock_infos k a = Some l" and wt: "A (lock_waiting l) = Some (CmpAscendUint, ws)" using T by (auto simp: lock_at_def)
  have n8: "unat sizeof_LockWaiter \<le> 2 ^ 28" by simp
  from k_malloc_sim [OF R n8] show thesis
  proof cases
    case (1 m)
    then show ?thesis using that(1) by (simp add: lock_insert_waiter_def)
  next
    case z: (2 w h)
    let ?k2 = "(put_q h k)\<lparr>lock_waiters := (lock_waiters k)(w \<mapsto> \<lparr>lw_mode = mode, lw_pcb = p\<rparr>)\<rparr>"
    have k2: "krep ?k2 A (insert w L)" using z by (simp add: krep_def)
    have i1: "lock_insert_waiter a mode p k =
      obind (kq_insert (lock_waiting l) (WaiterP w) (waiter_key mode) ?k2) (\<lambda>(st, k3).
        if st = SUCCESS then
         obind (if mode = LOCK_WRITE
                then upd_lock a (\<lambda>l. l\<lparr>writerWaitingCount := writerWaitingCount l + 1\<rparr>) k3 else Ok k3) (\<lambda>k4.
         obind (dispatch k4) (\<lambda>k5. Ok (st, k5)))
       else obind (free_waiter w k3) (\<lambda>k4. Ok (st, k4)))"
      using z(1) li by (simp add: lock_insert_waiter_def get_lock_def Let_def waiter_key_def)
    from kq_insert_sim [OF k2 wt, of "WaiterP w" "waiter_key mode"] show ?thesis
    proof cases
      case (1 m)
      then show ?thesis using that(1) i1 by simp
    next
      case (2 h3)
      let ?A3 = "A(lock_waiting l \<mapsto> (CmpAscendUint, spec_insert CmpAscendUint (WaiterP w) (waiter_key mode) ws))"
      let ?l = "if mode = LOCK_WRITE then l\<lparr>writerWaitingCount := writerWaitingCount l + 1\<rparr> else l"
      define k4 where "k4 = (if mode = LOCK_WRITE
         then (put_q h3 ?k2)\<lparr>lock_infos := (lock_infos k)(a \<mapsto> ?l)\<rparr> else put_q h3 ?k2)"
      have i2: "lock_insert_waiter a mode p k = obind (dispatch k4) (\<lambda>k5. Ok (SUCCESS, k5))"
        using i1 2(1) li by (simp add: upd_lock_Ok k4_def)
      have f4: "qh_of k4 = h3" "ready k4 = ready k" "pcbs k4 = pcbs k" "lock_infos k4 a = Some ?l"
        "lock_waiters k4 = (lock_waiters k)(w \<mapsto> \<lparr>lw_mode = mode, lw_pcb = p\<rparr>)"
        using li by (simp_all add: k4_def)
      have k4: "krep k4 ?A3 (insert w L)" using 2(2) f4(1) by (simp add: krep_def del: fun_upd_apply)
      have "ready k i \<noteq> lock_waiting l" if "i < 4" for i using ne that by (metis imageI lessThan_iff)
      then have q4: "ready_spec k4 ?A3 Rq" using Q f4(2) by (simp add: ready_spec_def)
      have l4: "\<forall>i<4. live_ready k4 (Rq i)" using live(1) f4(3) by (simp add: live_ready_def)
      obtain i q key es h' where d: "i < 4" "\<forall>j<i. Rq j = []" "Rq i = (PcbP q, key) # es"
        "dispatch k4 = Ok (dispatched q h' k4)" "qrep h' (?A3(ready k4 i \<mapsto> (CmpNull, es))) (insert w L)"
        using dispatch_some [OF k4 q4 l4 live(2)] by metis
      let ?k' = "dispatched q h' k4"
      have lf: "lock_infos ?k' = lock_infos k4" "lock_waiters ?k' = lock_waiters k4"
        by (simp_all add: dispatched_def load_directory_def upd_pcb_def)
      show ?thesis
      proof (rule that(2))
        show "lock_insert_waiter a mode p k = Ok (SUCCESS, ?k')" using i2 d(4) by simp
        show "lock_waiters ?k' w = Some \<lparr>lw_mode = mode, lw_pcb = p\<rparr>" using lf f4 by simp
        show "\<forall>v. v \<noteq> w \<longrightarrow> lock_waiters ?k' v = lock_waiters k v" using lf f4 by simp
        show "lock_infos ?k' a = Some ?l" using lf f4 by simp
        show "krep ?k' (?A3(ready k i \<mapsto> (CmpNull, es))) (insert w L)"
          using d(5) f4(2) by (simp add: krep_def del: fun_upd_apply)
      qed (use z d in simp_all)
    qed
  qed
qed

text \<open>
  C7: a lock is granted at once exactly when it is not busy: a reader enters when there is neither
  an active nor a waiting writer, a writer when there are no readers either. Otherwise the caller
  joins the queue of the lock, writers before readers and first come first served within each
  kind, the active holders are left alone and the next ready process runs.
\<close>

theorem lock_lock_correct:
  assumes R: "krep k A L" and T: "lock_at k A n a l ws" and Q: "ready_spec k A Rq"
    and ne: "lock_waiting l \<notin> ready k ` {..<4}" and live: "\<forall>i<4. live_ready k (Rq i)" "\<exists>i<4. Rq i \<noteq> []"
  shows "if \<not> lock_busy mode l
    then lock_lock n mode p k = Ok (SUCCESS, k\<lparr>lock_infos := (lock_infos k)(a \<mapsto>
           (if mode = LOCK_READ then l\<lparr>readerCount := readerCount l + 1\<rparr> else l\<lparr>hasWriter := True\<rparr>))\<rparr>)
    else (\<exists>m. lock_lock n mode p k = Panic m) \<or> (\<exists>k' w i q key es. lock_lock n mode p k = Ok (SUCCESS, k') \<and>
      lock_waiters k' w = Some \<lparr>lw_mode = mode, lw_pcb = p\<rparr> \<and>
      lock_infos k' a = Some (if mode = LOCK_WRITE then l\<lparr>writerWaitingCount := writerWaitingCount l + 1\<rparr> else l) \<and>
      i < 4 \<and> (\<forall>j<i. Rq j = []) \<and> Rq i = (PcbP q, key) # es \<and> curr k' = Some q \<and>
      krep k' (A(lock_waiting l \<mapsto> (CmpAscendUint, spec_insert CmpAscendUint (WaiterP w) (waiter_key mode) ws),
                 ready k i \<mapsto> (CmpNull, es))) (insert w L))"
proof (cases "lock_busy mode l")
  case True
  from insert_waiter [OF R T Q ne live, of mode p] show ?thesis
    unfolding lock_lock_busy [OF R T True] if_not_P [OF not_not [THEN iffD2, OF True]]
  proof cases
    case (2 k' w i q key es)
    then show "(\<exists>m. lock_insert_waiter a mode p k = Panic m) \<or> (\<exists>k' w i q key es. lock_insert_waiter a mode p k = Ok (SUCCESS, k') \<and>
      lock_waiters k' w = Some \<lparr>lw_mode = mode, lw_pcb = p\<rparr> \<and>
      lock_infos k' a = Some (if mode = LOCK_WRITE then l\<lparr>writerWaitingCount := writerWaitingCount l + 1\<rparr> else l) \<and>
      i < 4 \<and> (\<forall>j<i. Rq j = []) \<and> Rq i = (PcbP q, key) # es \<and> curr k' = Some q \<and>
      krep k' (A(lock_waiting l \<mapsto> (CmpAscendUint, spec_insert CmpAscendUint (WaiterP w) (waiter_key mode) ws),
                 ready k i \<mapsto> (CmpNull, es))) (insert w L))" by blast
  qed blast
next
  case False
  have "lock_infos k a = Some l" using T by (simp add: lock_at_def)
  then have "lock_lock n mode p k = Ok (SUCCESS, k\<lparr>lock_infos := (lock_infos k)(a \<mapsto>
           (if mode = LOCK_READ then l\<lparr>readerCount := readerCount l + 1\<rparr> else l\<lparr>hasWriter := True\<rparr>))\<rparr>)"
    using False lock_lookup [OF R T]
    by (cases mode) (simp_all add: lock_lock_def as_lock_def lock_busy_def get_lock_def upd_lock_Ok)
  then show ?thesis using False by simp
qed

subsection \<open>Releasing\<close>

text \<open>Admitting one waiting process: it is made ready and its waiter object is freed.\<close>

lemma admit:
  assumes R: "krep k A L" and wt: "A q = Some (c, (WaiterP w, key) # ws)" and lw: "lock_waiters k w = Some lw" and wL: "w \<in> L"
    and pr: "unat (priority (pcbs k (lw_pcb lw))) < 4" and Q: "ready_spec k A Rq" and ne: "q \<notin> ready k ` {..<4}"
  obtains h1 where "kq_remove q k = Ok (SUCCESS, Some (WaiterP w), put_q h1 k)"
    "(\<exists>m. \<forall>k1. qh_of k1 = h1 \<longrightarrow> pcbs k1 = pcbs k \<longrightarrow> ready k1 = ready k \<longrightarrow> sched (Some (lw_pcb lw)) k1 = Panic m) \<or>
     (\<exists>h2 h3. (\<forall>k1. qh_of k1 = h1 \<longrightarrow> pcbs k1 = pcbs k \<longrightarrow> ready k1 = ready k \<longrightarrow>
         sched (Some (lw_pcb lw)) k1 = Ok (SUCCESS, put_q h2 (upd_pcb (lw_pcb lw) (\<lambda>b. b\<lparr>state := READY\<rparr>) k1))) \<and>
       (\<forall>k3. qh_of k3 = h2 \<longrightarrow> k_free w k3 = Ok (put_q h3 k3)) \<and>
       qrep h2 (A(q \<mapsto> (c, ws), ready k (unat (priority (pcbs k (lw_pcb lw)))) \<mapsto>
           (CmpNull, Rq (unat (priority (pcbs k (lw_pcb lw)))) @ [(PcbP (lw_pcb lw), ucast (pid (pcbs k (lw_pcb lw))))]))) L \<and>
       qrep h3 (A(q \<mapsto> (c, ws), ready k (unat (priority (pcbs k (lw_pcb lw)))) \<mapsto>
           (CmpNull, Rq (unat (priority (pcbs k (lw_pcb lw)))) @ [(PcbP (lw_pcb lw), ucast (pid (pcbs k (lw_pcb lw))))]))) (L - {w}))"
proof -
  let ?p = "lw_pcb lw"
  let ?i = "unat (priority (pcbs k ?p))"
  obtain h1 where h1: "kq_remove q k = Ok (SUCCESS, Some (WaiterP w), put_q h1 k)" "qrep h1 (A(q \<mapsto> (c, ws))) L"
    using kq_remove_sim [OF R wt] by auto
  have nq: "ready k ?i \<noteq> q" using ne pr by (metis imageI lessThan_iff)
  have A1: "(A(q \<mapsto> (c, ws))) (ready k ?i) = Some (CmpNull, Rq ?i)" using Q pr nq by (simp add: ready_spec_def)
  have ins: "sched (Some ?p) k1 = obind (q_insert (ready k ?i) (PcbP ?p) (ucast (pid (pcbs k ?p))) h1)
      (\<lambda>(st, h). Ok (st, put_q h (upd_pcb ?p (\<lambda>b. b\<lparr>state := READY\<rparr>) k1)))"
    if "qh_of k1 = h1" "pcbs k1 = pcbs k" "ready k1 = ready k" for k1
    using that pr by (simp add: sched_def Let_def kq_insert_def)
  show thesis
  proof (rule that [OF h1(1)])
    show "(\<exists>m. \<forall>k1. qh_of k1 = h1 \<longrightarrow> pcbs k1 = pcbs k \<longrightarrow> ready k1 = ready k \<longrightarrow> sched (Some ?p) k1 = Panic m) \<or>
     (\<exists>h2 h3. (\<forall>k1. qh_of k1 = h1 \<longrightarrow> pcbs k1 = pcbs k \<longrightarrow> ready k1 = ready k \<longrightarrow>
         sched (Some ?p) k1 = Ok (SUCCESS, put_q h2 (upd_pcb ?p (\<lambda>b. b\<lparr>state := READY\<rparr>) k1))) \<and>
       (\<forall>k3. qh_of k3 = h2 \<longrightarrow> k_free w k3 = Ok (put_q h3 k3)) \<and>
       qrep h2 (A(q \<mapsto> (c, ws), ready k ?i \<mapsto> (CmpNull, Rq ?i @ [(PcbP ?p, ucast (pid (pcbs k ?p)))]))) L \<and>
       qrep h3 (A(q \<mapsto> (c, ws), ready k ?i \<mapsto> (CmpNull, Rq ?i @ [(PcbP ?p, ucast (pid (pcbs k ?p)))]))) (L - {w}))"
      using q_insert_sim [OF h1(2) A1, of "PcbP ?p" "ucast (pid (pcbs k ?p))"]
    proof (elim disjE exE conjE)
      fix m assume "q_insert (ready k ?i) (PcbP ?p) (ucast (pid (pcbs k ?p))) h1 = Panic m"
      then show ?thesis using ins by auto
    next
      fix h2 assume h2: "q_insert (ready k ?i) (PcbP ?p) (ucast (pid (pcbs k ?p))) h1 = Ok (SUCCESS, h2)"
        "qrep h2 (A(q \<mapsto> (c, ws), ready k ?i \<mapsto> (CmpNull, spec_insert CmpNull (PcbP ?p) (ucast (pid (pcbs k ?p))) (Rq ?i)))) L"
      let ?k = "put_q h2 k"
      have "krep ?k (A(q \<mapsto> (c, ws), ready k ?i \<mapsto> (CmpNull, Rq ?i @ [(PcbP ?p, ucast (pid (pcbs k ?p)))]))) L"
        using h2(2) by (simp del: fun_upd_apply)
      from k_free_sim [OF this wL] obtain h3 where h3: "k_free w ?k = Ok (put_q h3 ?k)"
        "qrep h3 (A(q \<mapsto> (c, ws), ready k ?i \<mapsto> (CmpNull, Rq ?i @ [(PcbP ?p, ucast (pid (pcbs k ?p)))]))) (L - {w})" .
      have "kfree w (kh h2) = Ok (kh h3) \<and> h3 = h2\<lparr>kh := kh h3\<rparr>"
      proof (cases "kfree w (kh h2)")
        case (Ok kk)
        then have "put_q (h2\<lparr>kh := kk\<rparr>) ?k = put_q h3 ?k" using h3(1) by (simp add: k_free_def)
        then have "qh_of (put_q (h2\<lparr>kh := kk\<rparr>) ?k) = qh_of (put_q h3 ?k)" by simp
        then have "h3 = h2\<lparr>kh := kk\<rparr>" by simp
        then show ?thesis using Ok by simp
      qed (use h3(1) in \<open>simp_all add: k_free_def\<close>)
      then have fr: "k_free w k3 = Ok (put_q h3 k3)" if "qh_of k3 = h2" for k3 using that by (simp add: k_free_def)
      show ?thesis using ins h2 fr h3(2) by (intro disjI2 exI [of _ h2] exI [of _ h3] conjI) (simp_all del: fun_upd_apply)
    qed
  qed
qed

definition unlocked :: "lockmode \<Rightarrow> lockinfo \<Rightarrow> lockinfo" where
  "unlocked mode l = (if mode = LOCK_READ then l\<lparr>readerCount := readerCount l - 1\<rparr> else l)"

definition as_admitted :: "kernel \<Rightarrow> kptr \<times> u32 \<Rightarrow> kptr \<times> u32" where
  "as_admitted k e = (case fst e of WaiterP w \<Rightarrow> (PcbP (lw_pcb (the (lock_waiters k w))), 0) | _ \<Rightarrow> e)"

text \<open>The entries of a lock's queue are waiters that exist and can be scheduled.\<close>

definition waiters_ok :: "kernel \<Rightarrow> u32 set \<Rightarrow> (kptr \<times> u32) list \<Rightarrow> bool" where
  "waiters_ok k L ws \<longleftrightarrow> distinct (map fst ws) \<and> (\<forall>e\<in>set ws. \<exists>w lw. fst e = WaiterP w \<and> w \<in> L \<and>
     lock_waiters k w = Some lw \<and> snd e = waiter_key (lw_mode lw) \<and> unat (priority (pcbs k (lw_pcb lw))) < 4)"

lemma waiters_okD:
  assumes "waiters_ok k L (e # ws)"
  obtains w lw where "e = (WaiterP w, waiter_key (lw_mode lw))" "w \<in> L" "lock_waiters k w = Some lw"
    "unat (priority (pcbs k (lw_pcb lw))) < 4" "WaiterP w \<notin> fst ` set ws" "waiters_ok k L ws"
  using assms by (cases e) (force simp: waiters_ok_def)

lemma waiters_ok_admit:
  assumes "waiters_ok k L ws" "WaiterP w \<notin> fst ` set ws"
    "lock_waiters k' = (lock_waiters k)(w := None)" "pcbs k' = (pcbs k)(p := (pcbs k p)\<lparr>state := s\<rparr>)"
  shows "waiters_ok k' (L - {w}) ws"
proof -
  have pr: "priority (pcbs k' x) = priority (pcbs k x)" for x using assms(4) by simp
  have "\<exists>v lw. fst e = WaiterP v \<and> v \<in> L - {w} \<and> lock_waiters k' v = Some lw \<and> snd e = waiter_key (lw_mode lw) \<and>
      unat (priority (pcbs k' (lw_pcb lw))) < 4" if e: "e \<in> set ws" for e
  proof -
    obtain v lw where v: "fst e = WaiterP v" "v \<in> L" "lock_waiters k v = Some lw" "snd e = waiter_key (lw_mode lw)"
      "unat (priority (pcbs k (lw_pcb lw))) < 4" using assms(1) e by (auto simp: waiters_ok_def)
    have "v \<noteq> w" using assms(2) e v(1) by force
    then show ?thesis using v pr assms(3) by auto
  qed
  then show ?thesis using assms(1) by (auto simp: waiters_ok_def)
qed

lemma as_admitted_other:
  assumes "WaiterP w \<notin> fst ` set ws" "lock_waiters k' = (lock_waiters k)(w := None)"
  shows "map (as_admitted k') ws = map (as_admitted k) ws"
  using assms by (force simp: as_admitted_def split: kptr.splits)

text \<open>Putting a process at the end of a ready queue, after another queue has lost an entry.\<close>

lemma ready_spec_push:
  assumes Q: "ready_spec k A Rq" and ne: "q \<notin> ready k ` {..<4}" and i: "i < 4"
  shows "ready_spec k (A(q \<mapsto> (c, ws), ready k i \<mapsto> (CmpNull, Rq i @ [en]))) (\<lambda>j. Rq j @ (if j = i then [en] else []))"
  unfolding ready_spec_def
proof (intro conjI allI impI)
  show inj: "inj_on (ready k) {..<4}" using Q by (simp add: ready_spec_def)
  fix j :: nat assume j: "j < 4"
  have "ready k j \<noteq> q" using ne j by (metis imageI lessThan_iff)
  moreover have "ready k j = ready k i \<longleftrightarrow> j = i" using inj j i by (meson inj_onD lessThan_iff)
  ultimately show "(A(q \<mapsto> (c, ws), ready k i \<mapsto> (CmpNull, Rq i @ [en]))) (ready k j) =
      Some (CmpNull, Rq j @ (if j = i then [en] else []))"
    using Q j by (auto simp: ready_spec_def)
qed

lemma flush_loop:
  assumes "krep k A L" "lock_infos k a = Some l" "A (lock_waiting l) = Some (c, ws)" "waiters_ok k L ws"
    "ready_spec k A Rq" "lock_waiting l \<notin> ready k ` {..<4}"
  shows "(\<exists>m. of_loop (flush_readers a k) = Panic m) \<or>
    (\<exists>k' A'. of_loop (flush_readers a k) = Ok k' \<and> krep k' A' (L - {w. WaiterP w \<in> fst ` set ws}) \<and>
       A' (lock_waiting l) = Some (c, []) \<and>
       ready_spec k' A' (\<lambda>i. Rq i @ ready_entries (pcbs k) i (map (as_admitted k) ws)) \<and>
       lock_infos k' = (lock_infos k)(a \<mapsto> l\<lparr>readerCount := readerCount l + of_nat (length ws)\<rparr>) \<and>
       pcbs k' = make_ready (map (as_admitted k) ws) (pcbs k) \<and> ready k' = ready k)"
  using assms
proof (induction ws arbitrary: k A L Rq l)
  case Nil
  obtain h where h: "kq_remove (lock_waiting l) k = Ok (EMPTY_QUEUE, None, put_q h k)" "qrep h A L"
    using kq_remove_empty [OF Nil.prems(1,3)] by metis
  have "of_loop (flush_readers a k) = Ok (put_q h k)"
    using h(1) Nil.prems(2) by (subst flush_readers.simps) (simp add: get_lock_def)
  moreover have "(lock_infos k)(a \<mapsto> l) = lock_infos k" using Nil.prems(2) by auto
  ultimately show ?case using Nil.prems h(2)
    by (intro disjI2 exI [of _ "put_q h k"] exI [of _ A]) (simp add: ready_spec_def ready_entries_def)
next
  case (Cons e ws)
  obtain w lw where e: "e = (WaiterP w, waiter_key (lw_mode lw))" "w \<in> L" "lock_waiters k w = Some lw"
    "unat (priority (pcbs k (lw_pcb lw))) < 4" "WaiterP w \<notin> fst ` set ws" "waiters_ok k L ws"
    using waiters_okD [OF Cons.prems(4)] .
  let ?p = "lw_pcb lw" and ?q = "lock_waiting l"
  let ?i = "unat (priority (pcbs k ?p))"
  let ?en = "(PcbP ?p, ucast (pid (pcbs k ?p)) :: u32)"
  let ?A = "A(?q \<mapsto> (c, ws), ready k ?i \<mapsto> (CmpNull, Rq ?i @ [?en]))"
  let ?l = "l\<lparr>readerCount := readerCount l + 1\<rparr>"
  obtain h1 where h1: "kq_remove ?q k = Ok (SUCCESS, Some (WaiterP w), put_q h1 k)"
    "(\<exists>m. \<forall>k1. qh_of k1 = h1 \<longrightarrow> pcbs k1 = pcbs k \<longrightarrow> ready k1 = ready k \<longrightarrow> sched (Some ?p) k1 = Panic m) \<or>
     (\<exists>h2 h3. (\<forall>k1. qh_of k1 = h1 \<longrightarrow> pcbs k1 = pcbs k \<longrightarrow> ready k1 = ready k \<longrightarrow>
         sched (Some ?p) k1 = Ok (SUCCESS, put_q h2 (upd_pcb ?p (\<lambda>b. b\<lparr>state := READY\<rparr>) k1))) \<and>
       (\<forall>k3. qh_of k3 = h2 \<longrightarrow> k_free w k3 = Ok (put_q h3 k3)) \<and> qrep h2 ?A L \<and> qrep h3 ?A (L - {w}))"
    using admit [OF Cons.prems(1) Cons.prems(3) [unfolded e(1)] e(3,2,4) Cons.prems(5,6)] .
  define k2 where "k2 = (put_q h1 k)\<lparr>lock_infos := (lock_infos k)(a \<mapsto> ?l)\<rparr>"
  have k2: "qh_of k2 = h1" "pcbs k2 = pcbs k" "ready k2 = ready k" "lock_waiters k2 = lock_waiters k"
    "lock_infos k2 = (lock_infos k)(a \<mapsto> ?l)" by (simp_all add: k2_def)
  have s1: "of_loop (flush_readers a k) = obind (sched (Some ?p) k2) (\<lambda>(_, k3). obind (free_waiter w k3) (\<lambda>k4. of_loop (flush_readers a k4)))"
    using h1(1) Cons.prems(2) e(3)
    by (subst flush_readers.simps) (simp add: get_lock_def as_waiter_def upd_lock_Ok get_waiter_def k2_def of_loop_lift split_def)
  from h1(2) show ?case
  proof (elim disjE exE conjE)
    fix m assume "\<forall>k1. qh_of k1 = h1 \<longrightarrow> pcbs k1 = pcbs k \<longrightarrow> ready k1 = ready k \<longrightarrow> sched (Some ?p) k1 = Panic m"
    then have "sched (Some ?p) k2 = Panic m" using k2 by blast
    then show ?thesis using s1 by simp
  next
    fix h2 h3
    assume sc: "\<forall>k1. qh_of k1 = h1 \<longrightarrow> pcbs k1 = pcbs k \<longrightarrow> ready k1 = ready k \<longrightarrow>
         sched (Some ?p) k1 = Ok (SUCCESS, put_q h2 (upd_pcb ?p (\<lambda>b. b\<lparr>state := READY\<rparr>) k1))"
      and fr: "\<forall>k3. qh_of k3 = h2 \<longrightarrow> k_free w k3 = Ok (put_q h3 k3)" and R3: "qrep h3 ?A (L - {w})"
    define k4 where "k4 = (put_q h3 (put_q h2 (upd_pcb ?p (\<lambda>b. b\<lparr>state := READY\<rparr>) k2)))\<lparr>lock_waiters := (lock_waiters k)(w := None)\<rparr>"
    have fw: "free_waiter w (put_q h2 (upd_pcb ?p (\<lambda>b. b\<lparr>state := READY\<rparr>) k2)) = Ok k4"
      using fr k2(4) by (simp add: free_waiter_def k4_def)
    have s2: "of_loop (flush_readers a k) = of_loop (flush_readers a k4)"
      using sc k2(1-3) fw unfolding s1 by simp
    have f4: "pcbs k4 = (pcbs k)(?p := (pcbs k ?p)\<lparr>state := READY\<rparr>)" "ready k4 = ready k" "qh_of k4 = h3"
      "lock_waiters k4 = (lock_waiters k)(w := None)" "lock_infos k4 = (lock_infos k)(a \<mapsto> ?l)"
      using k2 by (simp_all add: k4_def)
    have ri: "ready k ?i \<noteq> ?q" using Cons.prems(6) e(4) by (metis imageI lessThan_iff)
    have R4: "krep k4 ?A (L - {w})" using R3 f4(3) by (simp add: krep_def del: fun_upd_apply)
    have i4: "lock_infos k4 a = Some ?l" using f4(5) by simp
    have w4: "?A (lock_waiting ?l) = Some (c, ws)" using ri by simp
    have o4: "waiters_ok k4 (L - {w}) ws" by (rule waiters_ok_admit [OF e(6,5) f4(4,1)])
    have q4: "ready_spec k4 ?A (\<lambda>j. Rq j @ (if j = ?i then [?en] else []))"
      using ready_spec_push [OF Cons.prems(5,6) e(4)] f4(2) by (simp add: ready_spec_def del: fun_upd_apply)
    have n4: "lock_waiting ?l \<notin> ready k4 ` {..<4}" using Cons.prems(6) f4(2) by simp
    have ae: "as_admitted k e = (PcbP ?p, 0)" using e(1,3) by (simp add: as_admitted_def)
    have am: "map (as_admitted k4) ws = map (as_admitted k) ws" by (rule as_admitted_other [OF e(5) f4(4)])
    have re: "Rq j @ (if j = ?i then [?en] else []) @ ready_entries (pcbs k) j (map (as_admitted k) ws) =
        Rq j @ ready_entries (pcbs k) j (map (as_admitted k) (e # ws))" for j
      using ae by (simp add: ready_entries_def as_proc_def)
    have st: "L - {w} - {v. WaiterP v \<in> fst ` set ws} = L - {v. WaiterP v \<in> fst ` set (e # ws)}" using e(1) by auto
    have mk: "make_ready (map (as_admitted k) ws) (pcbs k4) = make_ready (map (as_admitted k) (e # ws)) (pcbs k)"
      using ae f4(1) by (simp add: as_proc_def)
    have lk: "(lock_infos k4)(a \<mapsto> ?l\<lparr>readerCount := readerCount ?l + of_nat (length ws)\<rparr>) =
        (lock_infos k)(a \<mapsto> l\<lparr>readerCount := readerCount l + of_nat (length (e # ws))\<rparr>)"
      using f4(5) by (simp add: algebra_simps)
    have rp: "ready_entries (pcbs k4) j es = ready_entries (pcbs k) j es" for j es unfolding f4(1) by simp
    from Cons.IH [OF R4 i4 w4 o4 q4 n4] show ?thesis
      unfolding s2 am st lk mk rp append_assoc re f4(2) by simp
  qed
qed

lemma lock_unlock_unfold:
  assumes R: "krep k A L" and T: "lock_at k A n a l ws"
    and k1_def: "k1 = k\<lparr>lock_infos := (lock_infos k)(a \<mapsto> unlocked mode l)\<rparr>"
  shows "lock_unlock n mode k =
    (if writerWaitingCount l \<noteq> 0 \<or> hasWriter l then
         obind (kq_remove (lock_waiting l) k1) (\<lambda>(st, d, k2).
           if st = SUCCESS then
             obind (as_waiter d) (\<lambda>w.
             obind (get_waiter w k2) (\<lambda>lw.
             obind (sched (Some (lw_pcb lw)) k2) (\<lambda>(_, k3).
             obind (if lw_mode lw = LOCK_READ
                    then obind (upd_lock a (\<lambda>l. l\<lparr>readerCount := readerCount l + 1, hasWriter := False\<rparr>) k3) (\<lambda>k4.
                           of_loop (flush_readers a k4))
                    else upd_lock a (\<lambda>l. l\<lparr>writerWaitingCount := writerWaitingCount l - 1, hasWriter := True\<rparr>) k3) (\<lambda>k5.
             obind (free_waiter w k5) (\<lambda>k6. Ok (SUCCESS, k6))))))
           else if st = EMPTY_QUEUE \<and> mode = LOCK_WRITE then
             obind (upd_lock a (\<lambda>l. l\<lparr>hasWriter := False\<rparr>) k2) (\<lambda>k3. Ok (SUCCESS, k3))
           else Ok (st, k2))
       else Ok (SUCCESS, k1))"
proof -
  have li: "lock_infos k a = Some l" using T by (simp add: lock_at_def)
  have "(lock_infos k)(a \<mapsto> l) = lock_infos k" using li by auto
  then have k1: "(if mode = LOCK_READ then upd_lock a (\<lambda>l. l\<lparr>readerCount := readerCount l - 1\<rparr>) k else Ok k) = Ok k1"
    using li by (simp add: upd_lock_Ok unlocked_def k1_def)
  have g: "get_lock a k1 = Ok (unlocked mode l)" by (simp add: k1_def get_lock_def)
  have f: "writerWaitingCount (unlocked mode l) = writerWaitingCount l" "hasWriter (unlocked mode l) = hasWriter l"
    "lock_waiting (unlocked mode l) = lock_waiting l" by (simp_all add: unlocked_def)
  show ?thesis
    unfolding lock_unlock_def lock_lookup [OF R T]
    by (simp only: obind.simps split_conv as_lock_def option.case kptr.case simp_thms if_False)
      (simp only: k1 g f obind.simps word_neq_0_conv)
qed

lemma lock_unlock_cases:
  assumes R: "krep k A L" and T: "lock_at k A n a l ws" and Q: "ready_spec k A Rq"
    and ne: "lock_waiting l \<notin> ready k ` {..<4}" and ok: "waiters_ok k L ws"
  shows "if writerWaitingCount l = 0 \<and> \<not> hasWriter l
    then lock_unlock n mode k = Ok (SUCCESS, k\<lparr>lock_infos := (lock_infos k)(a \<mapsto> unlocked mode l)\<rparr>)
    else case ws of
      [] \<Rightarrow> \<exists>k'. krep k' A L \<and> (if mode = LOCK_WRITE
        then lock_unlock n mode k = Ok (SUCCESS, k') \<and> lock_infos k' = (lock_infos k)(a \<mapsto> l\<lparr>hasWriter := False\<rparr>)
        else lock_unlock n mode k = Ok (EMPTY_QUEUE, k'))
    | e # ws' \<Rightarrow> (\<exists>m. lock_unlock n mode k = Panic m) \<or> (\<exists>k' A' w lw. lock_unlock n mode k = Ok (SUCCESS, k') \<and>
        fst e = WaiterP w \<and> lock_waiters k w = Some lw \<and>
        (if lw_mode lw = LOCK_WRITE
         then lock_infos k' = (lock_infos k)(a \<mapsto> (unlocked mode l)\<lparr>writerWaitingCount := writerWaitingCount l - 1, hasWriter := True\<rparr>) \<and>
           pcbs k' = make_ready [as_admitted k e] (pcbs k) \<and> A' (lock_waiting l) = Some (CmpAscendUint, ws') \<and>
           krep k' A' (L - {w})
         else lock_infos k' = (lock_infos k)(a \<mapsto> (unlocked mode l)
             \<lparr>readerCount := readerCount (unlocked mode l) + of_nat (length ws), hasWriter := False\<rparr>) \<and>
           pcbs k' = make_ready (map (as_admitted k) ws) (pcbs k) \<and> A' (lock_waiting l) = Some (CmpAscendUint, []) \<and>
           krep k' A' (L - {w. WaiterP w \<in> fst ` set ws})))"
proof (cases "writerWaitingCount l = 0 \<and> \<not> hasWriter l")
  case True
  then show ?thesis unfolding lock_unlock_unfold [OF R T refl] by simp
next
  case busy: False
  define k1 where "k1 = k\<lparr>lock_infos := (lock_infos k)(a \<mapsto> unlocked mode l)\<rparr>"
  note un = lock_unlock_unfold [OF R T k1_def]
  have b: "writerWaitingCount l \<noteq> 0 \<or> hasWriter l" using busy by blast
  have k1: "krep k1 A L" "ready k1 = ready k" "pcbs k1 = pcbs k" "lock_waiters k1 = lock_waiters k"
    using R by (simp_all add: k1_def krep_def)
  have wt: "A (lock_waiting l) = Some (CmpAscendUint, ws)" using T by (simp add: lock_at_def)
  show ?thesis
  proof (cases ws)
    case Nil
    obtain h where h: "kq_remove (lock_waiting l) k1 = Ok (EMPTY_QUEUE, None, put_q h k1)" "qrep h A L"
      using kq_remove_empty [OF k1(1) wt [unfolded Nil]] by metis
    have "krep (put_q h k1) A L" "krep ((put_q h k1)\<lparr>lock_infos := (lock_infos k)(a \<mapsto> l\<lparr>hasWriter := False\<rparr>)\<rparr>) A L"
      using h(2) by (simp_all add: krep_def)
    then show ?thesis unfolding if_not_P [OF busy] un if_P [OF b] h(1) Nil list.case
      by (cases mode) (auto simp: upd_lock_Ok k1_def unlocked_def)
  next
    case (Cons e ws')
    obtain w lw where e: "e = (WaiterP w, waiter_key (lw_mode lw))" "w \<in> L" "lock_waiters k w = Some lw"
      "unat (priority (pcbs k (lw_pcb lw))) < 4" "WaiterP w \<notin> fst ` set ws'" "waiters_ok k L ws'"
      using waiters_okD [OF ok [unfolded Cons]] .
    let ?p = "lw_pcb lw" and ?q = "lock_waiting l"
    let ?i = "unat (priority (pcbs k ?p))"
    let ?en = "(PcbP ?p, ucast (pid (pcbs k ?p)) :: u32)"
    let ?A = "A(?q \<mapsto> (CmpAscendUint, ws'), ready k ?i \<mapsto> (CmpNull, Rq ?i @ [?en]))"
    have a1: "lock_waiters k1 w = Some lw" "unat (priority (pcbs k1 ?p)) < 4" "ready_spec k1 A Rq" "?q \<notin> ready k1 ` {..<4}"
      using e k1 Q ne by (simp_all add: ready_spec_def)
    obtain h1 where h1: "kq_remove ?q k1 = Ok (SUCCESS, Some (WaiterP w), put_q h1 k1)"
      "(\<exists>m. \<forall>k2. qh_of k2 = h1 \<longrightarrow> pcbs k2 = pcbs k \<longrightarrow> ready k2 = ready k \<longrightarrow> sched (Some ?p) k2 = Panic m) \<or>
       (\<exists>h2 h3. (\<forall>k2. qh_of k2 = h1 \<longrightarrow> pcbs k2 = pcbs k \<longrightarrow> ready k2 = ready k \<longrightarrow>
           sched (Some ?p) k2 = Ok (SUCCESS, put_q h2 (upd_pcb ?p (\<lambda>b. b\<lparr>state := READY\<rparr>) k2))) \<and>
         (\<forall>k3. qh_of k3 = h2 \<longrightarrow> k_free w k3 = Ok (put_q h3 k3)) \<and> qrep h2 ?A L \<and> qrep h3 ?A (L - {w}))"
      using admit [OF k1(1) wt [unfolded Cons e(1)] a1(1) e(2) a1(2-4), unfolded k1(2,3)] .
    let ?k2 = "put_q h1 k1"
    have ae: "as_admitted k e = (PcbP ?p, 0)" using e(1,3) by (simp add: as_admitted_def)
    have un2: "lock_unlock n mode k = obind (sched (Some ?p) ?k2) (\<lambda>(_, k3).
             obind (if lw_mode lw = LOCK_READ
                    then obind (upd_lock a (\<lambda>l. l\<lparr>readerCount := readerCount l + 1, hasWriter := False\<rparr>) k3) (\<lambda>k4.
                           of_loop (flush_readers a k4))
                    else upd_lock a (\<lambda>l. l\<lparr>writerWaitingCount := writerWaitingCount l - 1, hasWriter := True\<rparr>) k3) (\<lambda>k5.
             obind (free_waiter w k5) (\<lambda>k6. Ok (SUCCESS, k6))))"
      unfolding un if_P [OF b] h1(1) using a1(1) by (simp add: as_waiter_def get_waiter_def del: obind_eq_Ok)
    from h1(2) show ?thesis
      unfolding if_not_P [OF busy] Cons list.case
    proof (elim disjE exE conjE)
      fix m assume "\<forall>k2. qh_of k2 = h1 \<longrightarrow> pcbs k2 = pcbs k \<longrightarrow> ready k2 = ready k \<longrightarrow> sched (Some ?p) k2 = Panic m"
      then have "sched (Some ?p) ?k2 = Panic m" using k1 by simp
      then show "(\<exists>m. lock_unlock n mode k = Panic m) \<or> Y" for Y unfolding un2 by simp
    next
      fix h2 h3
      assume sc: "\<forall>k2. qh_of k2 = h1 \<longrightarrow> pcbs k2 = pcbs k \<longrightarrow> ready k2 = ready k \<longrightarrow>
           sched (Some ?p) k2 = Ok (SUCCESS, put_q h2 (upd_pcb ?p (\<lambda>b. b\<lparr>state := READY\<rparr>) k2))"
        and fr: "\<forall>k3. qh_of k3 = h2 \<longrightarrow> k_free w k3 = Ok (put_q h3 k3)"
        and R2: "qrep h2 ?A L" and R3: "qrep h3 ?A (L - {w})"
      let ?k3 = "put_q h2 (upd_pcb ?p (\<lambda>b. b\<lparr>state := READY\<rparr>) ?k2)"
      have k3: "sched (Some ?p) ?k2 = Ok (SUCCESS, ?k3)" using sc k1 by simp
      show "(\<exists>m. lock_unlock n mode k = Panic m) \<or> (\<exists>k' A' w lw. lock_unlock n mode k = Ok (SUCCESS, k') \<and>
        fst e = WaiterP w \<and> lock_waiters k w = Some lw \<and>
        (if lw_mode lw = LOCK_WRITE
         then lock_infos k' = (lock_infos k)(a \<mapsto> (unlocked mode l)\<lparr>writerWaitingCount := writerWaitingCount l - 1, hasWriter := True\<rparr>) \<and>
           pcbs k' = make_ready [as_admitted k e] (pcbs k) \<and> A' (lock_waiting l) = Some (CmpAscendUint, ws') \<and>
           krep k' A' (L - {w})
         else lock_infos k' = (lock_infos k)(a \<mapsto> (unlocked mode l)
             \<lparr>readerCount := readerCount (unlocked mode l) + of_nat (length (e # ws')), hasWriter := False\<rparr>) \<and>
           pcbs k' = make_ready (map (as_admitted k) (e # ws')) (pcbs k) \<and> A' (lock_waiting l) = Some (CmpAscendUint, []) \<and>
           krep k' A' (L - {w. WaiterP w \<in> fst ` set (e # ws')})))"
      proof (cases "lw_mode lw")
        case LOCK_WRITE
        define k5 where "k5 = ?k3\<lparr>lock_infos := (lock_infos k)(a \<mapsto> (unlocked mode l)\<lparr>writerWaitingCount := writerWaitingCount l - 1, hasWriter := True\<rparr>)\<rparr>"
        define k6 where "k6 = (put_q h3 k5)\<lparr>lock_waiters := (lock_waiters k)(w := None)\<rparr>"
        have "upd_lock a (\<lambda>l. l\<lparr>writerWaitingCount := writerWaitingCount l - 1, hasWriter := True\<rparr>) ?k3 = Ok k5"
          by (simp add: upd_lock_Ok k1_def k5_def unlocked_def)
        moreover have "free_waiter w k5 = Ok k6" using fr k1(4) by (simp add: free_waiter_def k5_def k6_def)
        ultimately have "lock_unlock n mode k = Ok (SUCCESS, k6)" unfolding un2 k3 using LOCK_WRITE by simp
        moreover have "krep k6 ?A (L - {w})" using R3 by (simp add: krep_def k6_def del: fun_upd_apply)
        moreover have "?A ?q = Some (CmpAscendUint, ws')" using ne e(4) by (metis fun_upd_apply imageI lessThan_iff)
        moreover have "pcbs k6 = make_ready [as_admitted k e] (pcbs k)"
          unfolding ae by (simp add: k6_def k5_def k1_def as_proc_def)
        moreover have "lock_infos k6 = (lock_infos k)(a \<mapsto> (unlocked mode l)\<lparr>writerWaitingCount := writerWaitingCount l - 1, hasWriter := True\<rparr>)"
          by (simp add: k6_def k5_def)
        ultimately show ?thesis using e(1,3) LOCK_WRITE
          by (intro disjI2 exI [of _ k6] exI [of _ ?A] exI [of _ w] exI [of _ lw]) simp
      next
        case LOCK_READ
        let ?l = "(unlocked mode l)\<lparr>readerCount := readerCount (unlocked mode l) + 1, hasWriter := False\<rparr>"
        define k4 where "k4 = ?k3\<lparr>lock_infos := (lock_infos k)(a \<mapsto> ?l)\<rparr>"
        have f4: "qh_of k4 = h2" "pcbs k4 = (pcbs k)(?p := (pcbs k ?p)\<lparr>state := READY\<rparr>)" "ready k4 = ready k"
          "lock_waiters k4 = lock_waiters k" "lock_infos k4 = (lock_infos k)(a \<mapsto> ?l)"
          using k1 by (simp_all add: k4_def)
        have up: "upd_lock a (\<lambda>l. l\<lparr>readerCount := readerCount l + 1, hasWriter := False\<rparr>) ?k3 = Ok k4"
          by (simp add: upd_lock_Ok k1_def k4_def)
        have fl: "lock_unlock n mode k = obind (of_loop (flush_readers a k4)) (\<lambda>k5. obind (free_waiter w k5) (\<lambda>k6. Ok (SUCCESS, k6)))"
          unfolding un2 k3 using LOCK_READ up by (simp del: obind_eq_Ok)
        have R4: "krep k4 ?A L" using R2 f4(1) by (simp add: krep_def del: fun_upd_apply)
        have ri: "ready k ?i \<noteq> ?q" using ne e(4) by (metis imageI lessThan_iff)
        have lq: "lock_waiting ?l = ?q" by (simp add: unlocked_def)
        have w4: "?A (lock_waiting ?l) = Some (CmpAscendUint, ws')" using ri lq by simp
        have pr: "priority (pcbs k4 x) = priority (pcbs k x)" for x using f4(2) by simp
        have o4: "waiters_ok k4 L ws'" using e(6) f4(4) pr by (simp add: waiters_ok_def)
        have q4: "ready_spec k4 ?A (\<lambda>j. Rq j @ (if j = ?i then [?en] else []))"
          using ready_spec_push [OF Q ne e(4)] f4(3) by (simp add: ready_spec_def del: fun_upd_apply)
        have n4: "lock_waiting ?l \<notin> ready k4 ` {..<4}" using ne f4(3) lq by simp
        have i4: "lock_infos k4 a = Some ?l" using f4(5) by simp
        have am: "as_admitted k4 = as_admitted k" by (rule ext, unfold as_admitted_def f4(4), rule refl)
        from flush_loop [OF R4 i4 w4 o4 q4 n4] show ?thesis
        proof (elim disjE exE conjE)
          fix m assume "of_loop (flush_readers a k4) = Panic m"
          then show ?thesis unfolding fl by simp
        next
          fix k5 A' assume k5: "of_loop (flush_readers a k4) = Ok k5" "krep k5 A' (L - {w. WaiterP w \<in> fst ` set ws'})"
            "A' (lock_waiting ?l) = Some (CmpAscendUint, [])"
            "lock_infos k5 = (lock_infos k4)(a \<mapsto> ?l\<lparr>readerCount := readerCount ?l + of_nat (length ws')\<rparr>)"
            "pcbs k5 = make_ready (map (as_admitted k4) ws') (pcbs k4)"
          have "w \<in> L - {w. WaiterP w \<in> fst ` set ws'}" using e(2,5) by simp
          from k_free_sim [OF k5(2) this] obtain h where h: "k_free w k5 = Ok (put_q h k5)"
            "qrep h A' (L - {w. WaiterP w \<in> fst ` set ws'} - {w})" .
          define k6 where "k6 = (put_q h k5)\<lparr>lock_waiters := (lock_waiters k5)(w := None)\<rparr>"
          have "lock_unlock n mode k = Ok (SUCCESS, k6)" unfolding fl k5(1) using h(1) by (simp add: free_waiter_def k6_def)
          moreover have "L - {w. WaiterP w \<in> fst ` set ws'} - {w} = L - {w. WaiterP w \<in> fst ` set (e # ws')}" using e(1) by auto
          then have "krep k6 A' (L - {w. WaiterP w \<in> fst ` set (e # ws')})" using h(2) by (simp add: krep_def k6_def)
          moreover have "pcbs k6 = make_ready (map (as_admitted k) (e # ws')) (pcbs k)"
            using k5(5) f4(2) am ae by (simp add: k6_def as_proc_def)
          moreover have "lock_infos k6 = (lock_infos k)(a \<mapsto> (unlocked mode l)
             \<lparr>readerCount := readerCount (unlocked mode l) + of_nat (length (e # ws')), hasWriter := False\<rparr>)"
            using k5(4) f4(5) by (cases "unlocked mode l") (simp add: k6_def algebra_simps)
          ultimately show ?thesis using e(1,3) LOCK_READ k5(3) lq
            by (intro disjI2 exI [of _ k6] exI [of _ A'] exI [of _ w] exI [of _ lw]) simp
        qed
      qed
    qed
  qed
qed

text \<open>
  C11: releasing a lock nobody waits for only updates the counts; releasing one with waiting
  processes hands it to the first of them. A writer that is let in becomes the active writer; when
  the first is a reader, all the waiting processes are let in as readers, and the loop that does so
  ends with the queue empty. Everybody who is let in is made ready, nobody else is touched.
\<close>

theorem lock_unlock_correct:
  assumes R: "krep k A L" and T: "lock_at k A n a l ws" and Q: "ready_spec k A Rq"
    and ne: "lock_waiting l \<notin> ready k ` {..<4}" and ok: "waiters_ok k L ws"
  shows "if writerWaitingCount l = 0 \<and> \<not> hasWriter l
    then lock_unlock n mode k = Ok (SUCCESS, k\<lparr>lock_infos := (lock_infos k)(a \<mapsto> unlocked mode l)\<rparr>)
    else case ws of
      [] \<Rightarrow> \<exists>k'. krep k' A L \<and> (if mode = LOCK_WRITE
        then lock_unlock n mode k = Ok (SUCCESS, k') \<and> lock_infos k' = (lock_infos k)(a \<mapsto> l\<lparr>hasWriter := False\<rparr>)
        else lock_unlock n mode k = Ok (EMPTY_QUEUE, k'))
    | e # ws' \<Rightarrow> (\<exists>m. lock_unlock n mode k = Panic m) \<or> (\<exists>k' A' w lw. lock_unlock n mode k = Ok (SUCCESS, k') \<and>
        fst e = WaiterP w \<and> lock_waiters k w = Some lw \<and>
        (if lw_mode lw = LOCK_WRITE
         then lock_infos k' = (lock_infos k)(a \<mapsto> (unlocked mode l)\<lparr>writerWaitingCount := writerWaitingCount l - 1, hasWriter := True\<rparr>) \<and>
           pcbs k' = make_ready [as_admitted k e] (pcbs k) \<and> A' (lock_waiting l) = Some (CmpAscendUint, ws') \<and>
           krep k' A' (L - {w})
         else lock_infos k' = (lock_infos k)(a \<mapsto> (unlocked mode l)
             \<lparr>readerCount := readerCount (unlocked mode l) + of_nat (length ws), hasWriter := False\<rparr>) \<and>
           pcbs k' = make_ready (map (as_admitted k) ws) (pcbs k) \<and> A' (lock_waiting l) = Some (CmpAscendUint, []) \<and>
           krep k' A' (L - {w. WaiterP w \<in> fst ` set ws})))"
  by (rule lock_unlock_cases [OF assms])

text \<open>
  C38: a reader that releases the lock while other readers hold it and a writer waits lets the
  writer in at once: afterwards the lock has an active writer and readers at the same time. The
  release looks at the number of waiting writers, not at the number of the remaining readers.
\<close>

theorem reader_unlock_breaks_exclusion:
  assumes R: "krep k A L" and T: "lock_at k A n a l ((WaiterP w, key) # ws)" and Q: "ready_spec k A Rq"
    and ne: "lock_waiting l \<notin> ready k ` {..<4}" and ok: "waiters_ok k L ((WaiterP w, key) # ws)"
    and w: "lock_waiters k w = Some lw" "lw_mode lw = LOCK_WRITE"
    and l: "\<not> hasWriter l" "writerWaitingCount l \<noteq> 0" "readerCount l - 1 \<noteq> 0"
  shows "(\<exists>m. lock_unlock n LOCK_READ k = Panic m) \<or> (\<exists>k' l'. lock_unlock n LOCK_READ k = Ok (SUCCESS, k') \<and>
     lock_infos k' a = Some l' \<and> hasWriter l' \<and> readerCount l' \<noteq> 0)"
proof -
  have b: "\<not> (writerWaitingCount l = 0 \<and> \<not> hasWriter l)" using l by simp
  have m: "lock_waiters k v = Some lv \<Longrightarrow> WaiterP w = WaiterP v \<Longrightarrow> lw_mode lv = LOCK_WRITE" for v lv using w by simp
  note c = lock_unlock_cases [OF R T Q ne ok, of LOCK_READ, unfolded if_not_P [OF b] list.case fst_conv]
  let ?l = "(unlocked LOCK_READ l)\<lparr>writerWaitingCount := writerWaitingCount l - 1, hasWriter := True\<rparr>"
  consider m where "lock_unlock n LOCK_READ k = Panic m"
    | k' where "lock_unlock n LOCK_READ k = Ok (SUCCESS, k')" "lock_infos k' = (lock_infos k)(a \<mapsto> ?l)"
  proof -
    from c show thesis if "\<And>m. lock_unlock n LOCK_READ k = Panic m \<Longrightarrow> thesis"
      "\<And>k'. lock_unlock n LOCK_READ k = Ok (SUCCESS, k') \<Longrightarrow> lock_infos k' = (lock_infos k)(a \<mapsto> ?l) \<Longrightarrow> thesis"
      by (elim disjE exE conjE)
        (erule that(1), frule (1) m, simp only: if_True simp_thms, elim conjE, erule (1) that(2))
  qed
  then show ?thesis
  proof cases
    case (2 k')
    then have "lock_infos k' a = Some ?l" by simp
    then show ?thesis using 2(1) l(3) by (intro disjI2 exI [of _ k'] exI [of _ ?l]) (simp add: unlocked_def)
  qed blast
qed

subsection \<open>Witnesses\<close>

definition lock_table :: "bool \<Rightarrow> table" where
  "lock_table w i = (if i = 10 then (CmpAscendUint, Some (LockP (slot 40), 1))
     else if i = 11 then (CmpAscendUint, if w then Some (WaiterP (slot 41), 0) else None) else demo_table i)"

definition lock_demo :: "bool \<Rightarrow> lockinfo \<Rightarrow> kernel" where
  "lock_demo w l = (table_kernel (lock_table w) (demo_procs 5))\<lparr>lock_infos := [slot 40 \<mapsto> l],
     lock_waiters := (if w then [slot 41 \<mapsto> \<lparr>lw_mode = LOCK_WRITE, lw_pcb = 3\<rparr>] else Map.empty)\<rparr>"

definition demo_info :: "u32 \<Rightarrow> u32 \<Rightarrow> bool \<Rightarrow> lockinfo" where
  "demo_info r w h = \<lparr>lock = 1, readerCount = r, writerWaitingCount = w, lock_waiting = slot 11, hasWriter = h\<rparr>"

lemma lock_demo_rep:
  "krep (lock_demo w l) (table_spec (lock_table w)) (table_rest (lock_table w))"
  "ready_spec (lock_demo w l) (table_spec (lock_table w)) demo_ready" "\<forall>i<4. live_ready (lock_demo w l) (demo_ready i)"
  "lock_waiting (demo_info r v h) \<notin> ready (lock_demo w l) ` {..<4}" "\<exists>i<4. demo_ready i \<noteq> []"
proof -
  have "krep (table_kernel (lock_table w) (demo_procs 5)) (table_spec (lock_table w)) (table_rest (lock_table w))" by simp
  then show "krep (lock_demo w l) (table_spec (lock_table w)) (table_rest (lock_table w))"
    unfolding krep_def lock_demo_def qh_of_fields .
  show "ready_spec (lock_demo w l) (table_spec (lock_table w)) demo_ready"
    unfolding ready_spec_def lock_demo_def by (auto simp: lock_table_def demo_table_def demo_ready_def inj_on_def)
  show "\<forall>i<4. live_ready (lock_demo w l) (demo_ready i)"
    by (simp add: live_ready_def lock_demo_def demo_ready_def demo_procs_def)
  show "lock_waiting (demo_info r v h) \<notin> ready (lock_demo w l) ` {..<4}" by (auto simp: demo_info_def lock_demo_def)
  show "\<exists>i<4. demo_ready i \<noteq> []" by (simp add: demo_ready_def)
qed

lemma lock_demo_at:
  "lock_at (lock_demo w (demo_info r v h)) (table_spec (lock_table w)) 1 (slot 40) (demo_info r v h)
     (if w then [(WaiterP (slot 41), 0)] else [])"
  by (simp add: lock_at_def lock_demo_def lock_table_def demo_info_def spec_remove_def)

lemma lock_demo_waiters: "waiters_ok (lock_demo True l) (table_rest (lock_table True)) [(WaiterP (slot 41), 0)]"
  by (simp add: waiters_ok_def lock_demo_def waiter_key_def demo_procs_def demo_pcb_def)

theorem lock_lock_correct_witness:
  "(\<exists>k'. lock_lock 1 LOCK_READ 0 (lock_demo False (demo_info 1 0 False)) = Ok (SUCCESS, k')) \<and>
   ((\<exists>m. lock_lock 1 LOCK_WRITE 0 (lock_demo False (demo_info 1 0 False)) = Panic m) \<or>
    (\<exists>k'. lock_lock 1 LOCK_WRITE 0 (lock_demo False (demo_info 1 0 False)) = Ok (SUCCESS, k') \<and>
       (\<exists>q. curr k' = Some q)))"
proof (intro conjI)
  note c = lock_lock_correct [OF lock_demo_rep(1) lock_demo_at [of False] lock_demo_rep(2,4,3,5)]
  have "\<not> lock_busy LOCK_READ (demo_info 1 0 False)" by (simp add: lock_busy_def demo_info_def)
  from c [of LOCK_READ 1 0 False 0, unfolded if_P [OF this]]
  show "\<exists>k'. lock_lock 1 LOCK_READ 0 (lock_demo False (demo_info 1 0 False)) = Ok (SUCCESS, k')" by blast
  have "\<not> \<not> lock_busy LOCK_WRITE (demo_info 1 0 False)" by (simp add: lock_busy_def demo_info_def)
  from c [of LOCK_WRITE 1 0 False 0, unfolded if_not_P [OF this]]
  show "(\<exists>m. lock_lock 1 LOCK_WRITE 0 (lock_demo False (demo_info 1 0 False)) = Panic m) \<or>
    (\<exists>k'. lock_lock 1 LOCK_WRITE 0 (lock_demo False (demo_info 1 0 False)) = Ok (SUCCESS, k') \<and> (\<exists>q. curr k' = Some q))"
    by blast
qed

theorem lock_unlock_correct_witness:
  "\<exists>k'. lock_unlock 1 LOCK_WRITE (lock_demo False (demo_info 0 0 True)) = Ok (SUCCESS, k') \<and>
     lock_infos k' (slot 40) = Some (demo_info 0 0 False)"
proof -
  have ok: "waiters_ok (lock_demo False (demo_info 0 0 True)) (table_rest (lock_table False)) (if False then [(WaiterP (slot 41), 0)] else [])"
    by (simp add: waiters_ok_def)
  show ?thesis
    using lock_unlock_correct [OF lock_demo_rep(1) lock_demo_at [of False] lock_demo_rep(2,4) ok, of LOCK_WRITE]
    by (auto simp: demo_info_def)
qed

theorem reader_unlock_breaks_exclusion_witness:
  "(\<exists>m. lock_unlock 1 LOCK_READ (lock_demo True (demo_info 2 1 False)) = Panic m) \<or>
   (\<exists>k' l'. lock_unlock 1 LOCK_READ (lock_demo True (demo_info 2 1 False)) = Ok (SUCCESS, k') \<and>
     lock_infos k' (slot 40) = Some l' \<and> hasWriter l' \<and> readerCount l' \<noteq> 0)"
  by (rule reader_unlock_breaks_exclusion [OF lock_demo_rep(1) lock_demo_at [of True, unfolded if_True]
        lock_demo_rep(2,4) lock_demo_waiters, where lw = "\<lparr>lw_mode = LOCK_WRITE, lw_pcb = 3\<rparr>"])
    (simp_all add: lock_demo_def demo_info_def)

end
