(* ===== verification/Messages.thy ===== *)
theory Messages
  imports Process
begin

text \<open>
  Messages between processes, \<^verbatim>\<open>src/kernel/messages.c\<close>: one queue of pending messages per receiver,
  found under the receiver's process id, and the queue of the processes that wait for a message.
  The data of a message are bytes of user memory; the model moves them word by word, so sizes are
  multiples of four and the pointers aligned. A null sender is process id 0.
\<close>

subsection \<open>Operations\<close>

abbreviation (input) sizeof_Message :: u32 where "sizeof_Message \<equiv> 12"

definition kmemcpy_words :: "u32 \<Rightarrow> u32 \<Rightarrow> u32 \<Rightarrow> kernel \<Rightarrow> kernel outcome" where
  "kmemcpy_words dst src n =
     ofor 0 (unat n div 4) (\<lambda>i k. obind (kload (src + 4 * of_nat i) k) (\<lambda>x. kstore (dst + 4 * of_nat i) x k))"

definition current :: "kernel \<Rightarrow> nat outcome" where
  "current k = deref (curr k)"

definition messages_copy_kern_to_proc :: "nat \<Rightarrow> u32 \<Rightarrow> u32 \<Rightarrow> kernel \<Rightarrow> (u32 \<times> kernel) outcome" where
  "messages_copy_kern_to_proc p data sz k =
     (let k1 = load_directory (page_directory (pcbs k p)) k in
      obind (take_frame (vm k1)) (\<lambda>(pg, v).
      obind (virt_map_page pg (messageLoc k1) (PG_USER OR PG_READ_WRITE OR PG_PRESENT) v) (\<lambda>v2.
      let ptr = messageLoc k1; k2 = k1\<lparr>vm := v2\<rparr> in
      obind (kmemcpy_words ptr data sz k2) (\<lambda>k3.
      obind (current k3) (\<lambda>c.
        Ok (ptr, load_directory (page_directory (pcbs k3 c)) (k3\<lparr>messageLoc := messageLoc k3 + PAGE_BYTES\<rparr>)))))))"

definition messages_init :: "kernel \<Rightarrow> kernel outcome" where
  "messages_init k =
     obind (kq_alloc CmpAscendUint k) (\<lambda>(st, q, k1).
       if st \<noteq> SUCCESS then Panic ''_messages_init: _messageQueues alloc status''
       else obind (deref q) (\<lambda>q.
       obind (kq_alloc CmpAscendUint (k1\<lparr>messageQueues := q\<rparr>)) (\<lambda>(st, q, k2).
         if st \<noteq> SUCCESS then Panic ''_messages_init: _waitingPcbs alloc status''
         else obind (deref q) (\<lambda>q. Ok (k2\<lparr>waitingPcbs := q\<rparr>)))))"

text \<open>
  Sending. When the receiver waits, the message goes straight to its memory. Otherwise it is
  queued; that branch ends without a \<^verbatim>\<open>return\<close>, so its result is the parameter \<open>garbage\<close>.
\<close>

definition message_deliver :: "u16 \<Rightarrow> nat \<Rightarrow> u32 \<Rightarrow> u32 \<Rightarrow> kernel \<Rightarrow> kernel outcome" where
  "message_deliver from p data sz k =
     obind (k_malloc sz k) (\<lambda>(copy, k1).
     obind (kmemcpy_words copy data sz k1) (\<lambda>k2.
     obind (messages_copy_kern_to_proc p copy sz k2) (\<lambda>(final, k3).
     let k4 = load_directory (page_directory (pcbs k3 p)) k3 in
     obind (ARG p 1 k4) (\<lambda>a1. obind (kstore a1 (ucast from) k4) (\<lambda>k5.
     obind (ARG p 2 k5) (\<lambda>a2. obind (kstore a2 final k5) (\<lambda>k6.
     obind (ARG p 3 k6) (\<lambda>a3. obind (kstore a3 sz k6) (\<lambda>k7.
     obind (set_RET p (status_code SUCCESS) k7) (\<lambda>k8.
     obind (current k8) (\<lambda>c.
     obind (sched (Some p) (load_directory (page_directory (pcbs k8 c)) k8)) (\<lambda>(_, k9). Ok k9))))))))))))"

definition message_queue_for :: "u16 \<Rightarrow> kernel \<Rightarrow> (u32 option \<times> kernel) outcome" where
  "message_queue_for to_pid k =
     obind (kq_get_by_key (messageQueues k) (ucast to_pid) k) (\<lambda>(st, d).
       if st = NOT_FOUND \<or> st = EMPTY_QUEUE then
         obind (kq_alloc CmpNull k) (\<lambda>(st, q, k1).
           if st \<noteq> SUCCESS then Ok (None, k1)
           else obind (deref q) (\<lambda>q.
             obind (kq_insert (messageQueues k1) (QueueP q) (ucast to_pid) k1) (\<lambda>(_, k2). Ok (Some q, k2))))
       else obind (as_queue d) (\<lambda>q. Ok (Some q, k)))"

definition message_send :: "status \<Rightarrow> u16 \<Rightarrow> u16 \<Rightarrow> u32 \<Rightarrow> u32 \<Rightarrow> kernel \<Rightarrow> (status \<times> kernel) outcome" where
  "message_send garbage from to_pid data sz k =
     obind (kq_remove_by_key (waitingPcbs k) (ucast to_pid) k) (\<lambda>(st, d, k1).
       if st = SUCCESS then
         obind (as_pcb d) (\<lambda>p. obind (message_deliver from p data sz k1) (\<lambda>k2. Ok (SUCCESS, k2)))
       else obind (message_queue_for to_pid k1) (\<lambda>(q, k2).
         case q of
           None \<Rightarrow> Ok (FAILURE, k2)
         | Some q \<Rightarrow>
             obind (k_malloc sizeof_Message k2) (\<lambda>(m, k3).
             obind (k_malloc sz k3) (\<lambda>(buf, k4).
             let k5 = k4\<lparr>messages := (messages k4)(m \<mapsto> \<lparr>msg_data = buf, msg_size = sz, fromPid = from\<rparr>)\<rparr> in
             obind (kmemcpy_words buf data sz k5) (\<lambda>k6.
             obind (kq_insert q (MsgP m) 0 k6) (\<lambda>(_, k7). Ok (garbage, k7)))))))"

definition message_kern_send :: "status \<Rightarrow> u16 \<Rightarrow> u32 \<Rightarrow> u32 \<Rightarrow> kernel \<Rightarrow> (status \<times> kernel) outcome" where
  "message_kern_send garbage to_pid data sz = message_send garbage 0 to_pid data sz"

definition message_ikern_send :: "status \<Rightarrow> u16 \<Rightarrow> u32 \<Rightarrow> u32 \<Rightarrow> kernel \<Rightarrow> (status \<times> kernel) outcome" where
  "message_ikern_send garbage to_pid data sz = message_send garbage 0 to_pid data sz"

text \<open>Taking the first message of a receiver, for the process \<open>p\<close>; the heap objects are not freed.\<close>

definition message_take :: "nat \<Rightarrow> u16 \<Rightarrow> u32 \<Rightarrow> u32 \<Rightarrow> u32 \<Rightarrow> kernel \<Rightarrow> (bool \<times> kernel) outcome" where
  "message_take p to_pid fromp datap sizep k =
     obind (kq_get_by_key (messageQueues k) (ucast to_pid) k) (\<lambda>(st, d).
       if st \<noteq> SUCCESS then Ok (False, k)
       else obind (as_queue d) (\<lambda>q.
       obind (kq_remove q k) (\<lambda>(st, d, k1).
         if st \<noteq> SUCCESS then Ok (False, k1)
         else obind (as_msg d) (\<lambda>m. obind (deref (messages k1 m)) (\<lambda>msg.
           obind (kstore fromp (ucast (fromPid msg)) k1) (\<lambda>k2.
           obind (messages_copy_kern_to_proc p (msg_data msg) (msg_size msg) k2) (\<lambda>(ptr, k3).
           obind (kstore datap ptr k3) (\<lambda>k4.
           obind (kstore sizep (msg_size msg) k4) (\<lambda>k5. Ok (True, k5)))))))))) "

definition message_receive :: "nat \<Rightarrow> u16 \<Rightarrow> u32 \<Rightarrow> u32 \<Rightarrow> u32 \<Rightarrow> kernel \<Rightarrow> (status \<times> kernel) outcome" where
  "message_receive p to_pid fromp datap sizep k =
     obind (message_take p to_pid fromp datap sizep k) (\<lambda>(got, k1).
       if got then Ok (SUCCESS, k1)
       else obind (kq_insert (waitingPcbs k1) (PcbP p) (ucast to_pid) k1) (\<lambda>(_, k2).
            obind (dispatch k2) (\<lambda>k3. Ok (FAILURE, k3))))"

definition message_try_receive :: "u16 \<Rightarrow> u32 \<Rightarrow> u32 \<Rightarrow> u32 \<Rightarrow> kernel \<Rightarrow> (status \<times> kernel) outcome" where
  "message_try_receive to_pid fromp datap sizep k =
     obind (current k) (\<lambda>c.
     obind (message_take c to_pid fromp datap sizep k) (\<lambda>(got, k1).
       Ok (if got then SUCCESS else NOT_FOUND, k1)))"

definition message_has_message :: "u16 \<Rightarrow> kernel \<Rightarrow> status outcome" where
  "message_has_message to_pid k =
     obind (kq_get_by_key (messageQueues k) (ucast to_pid) k) (\<lambda>(st, d).
       if st = SUCCESS then
         obind (as_queue d) (\<lambda>q. obind (kq_empty q k) (\<lambda>e. Ok (if e then NOT_FOUND else SUCCESS)))
       else Ok NOT_FOUND)"

subsection \<open>Receiving and sending\<close>

text \<open>The pending messages of a receiver: the receivers that have a queue, and the queues.\<close>

definition inbox :: "kernel \<Rightarrow> kptr qspec \<Rightarrow> u16 \<Rightarrow> (kptr \<times> u32) list option \<Rightarrow> bool" where
  "inbox k A pd ms \<longleftrightarrow> (\<exists>c es. A (messageQueues k) = Some (c, es) \<and>
     (case spec_remove (\<lambda>e. snd e = ucast pd) es of
        None \<Rightarrow> ms = None
      | Some (d, _) \<Rightarrow> \<exists>q c' es'. d = QueueP q \<and> A q = Some (c', es') \<and> ms = Some es'))"

lemma inbox_none:
  assumes "krep k A L" "inbox k A pd None"
  shows "\<exists>st. st \<noteq> SUCCESS \<and> kq_get_by_key (messageQueues k) (ucast pd) k = Ok (st, None)"
proof -
  obtain c es where *: "A (messageQueues k) = Some (c, es)"
    "case spec_remove (\<lambda>e. snd e = ucast pd) es of None \<Rightarrow> None = (None :: (kptr \<times> u32) list option)
      | Some (d, _) \<Rightarrow> \<exists>q c' es'. d = QueueP q \<and> A q = Some (c', es') \<and> None = Some es'"
    using assms(2) unfolding inbox_def by blast
  have "spec_remove (\<lambda>e. snd e = ucast pd) es = None"
    using *(2) by (cases "spec_remove (\<lambda>e. snd e = ucast pd) es") (simp_all add: case_prod_beta)
  then show ?thesis using kq_get_by_key_sim [OF assms(1) *(1), of "ucast pd"] by auto
qed

lemma inbox_some:
  assumes "krep k A L" "inbox k A pd (Some ms)"
  obtains q c where "kq_get_by_key (messageQueues k) (ucast pd) k = Ok (SUCCESS, Some (QueueP q))" "A q = Some (c, ms)"
proof -
  obtain c es d r q c' where *: "A (messageQueues k) = Some (c, es)" "spec_remove (\<lambda>e. snd e = ucast pd) es = Some (d, r)"
    "d = QueueP q" "A q = Some (c', ms)"
    using assms(2) by (auto simp: inbox_def split: option.splits)
  then have "es \<noteq> []" by (auto simp: spec_remove_def)
  then show thesis using kq_get_by_key_sim [OF assms(1) *(1), of "ucast pd"] * that by simp
qed

text \<open>
  The test for a pending message tells whether the receiver has a queue with a message in it.
\<close>

theorem message_has_message_correct:
  assumes R: "krep k A L" and I: "inbox k A pd ms"
  shows "message_has_message pd k = Ok (if ms = None \<or> ms = Some [] then NOT_FOUND else SUCCESS)"
proof (cases ms)
  case None
  then show ?thesis using inbox_none [OF R I [unfolded None]] by (auto simp: message_has_message_def)
next
  case (Some es)
  obtain q c where q: "kq_get_by_key (messageQueues k) (ucast pd) k = Ok (SUCCESS, Some (QueueP q))" "A q = Some (c, es)"
    using inbox_some [OF R I [unfolded Some]] .
  show ?thesis using q(1) Some kq_look(1) [OF R q(2)] by (simp add: message_has_message_def as_queue_def)
qed

lemma take_nothing:
  assumes R: "krep k A L" and I: "inbox k A pd ms" and e: "ms = None \<or> ms = Some []"
  obtains h where "message_take p pd f d s k = Ok (False, put_q h k)" "h = qh_of k" | "message_take p pd f d s k = Ok (False, k)"
proof (cases ms)
  case None
  then show ?thesis using inbox_none [OF R I [unfolded None]] that(2) by (auto simp: message_take_def)
next
  case (Some es)
  obtain q c where q: "kq_get_by_key (messageQueues k) (ucast pd) k = Ok (SUCCESS, Some (QueueP q))" "A q = Some (c, es)"
    using inbox_some [OF R I [unfolded Some]] .
  have "es = []" using e Some by simp
  with q obtain h where h: "kq_remove q k = Ok (EMPTY_QUEUE, None, put_q h k)" "h = qh_of k"
    using kq_remove_empty [OF R, of q c] by metis
  then show ?thesis using q(1) that(1) by (simp add: message_take_def as_queue_def)
qed

text \<open>
  A process that receives with nothing pending is put into the queue of the waiting processes
  under the receiving process id, and the next ready process runs; nothing else changes.
\<close>

theorem message_receive_blocks:
  assumes R: "krep k A L" and I: "inbox k A pd ms" "ms = None \<or> ms = Some []" and W: "A (waitingPcbs k) = Some (c, ws)"
    and Q: "ready_spec k A Rq" and ne: "waitingPcbs k \<notin> ready k ` {..<4}"
    and live: "\<forall>i<4. live_ready k (Rq i)" "\<exists>i<4. Rq i \<noteq> []"
  shows "(\<exists>m. message_receive p pd f d s k = Panic m) \<or> (\<exists>k' i q key es. message_receive p pd f d s k = Ok (FAILURE, k') \<and>
      i < 4 \<and> (\<forall>j<i. Rq j = []) \<and> Rq i = (PcbP q, key) # es \<and> curr k' = Some q \<and>
      pcbs k' = (pcbs k)(q := (pcbs k q)\<lparr>state := RUNNING, quantum := STD_QUANTUM\<rparr>) \<and>
      krep k' (A(waitingPcbs k \<mapsto> (c, spec_insert c (PcbP p) (ucast pd) ws), ready k i \<mapsto> (CmpNull, es))) L)"
proof -
  obtain k1 where k1: "message_take p pd f d s k = Ok (False, k1)" "krep k1 A L" "waitingPcbs k1 = waitingPcbs k"
    "ready k1 = ready k" "pcbs k1 = pcbs k"
    using take_nothing [OF R I] R by (metis krep_def krep_put_q put_q_fields(3,6,22))
  have W1: "A (waitingPcbs k1) = Some (c, ws)" using W k1 by simp
  have e: "message_receive p pd f d s k = obind (kq_insert (waitingPcbs k1) (PcbP p) (ucast pd) k1) (\<lambda>(_, k2).
      obind (dispatch k2) (\<lambda>k3. Ok (FAILURE, k3)))"
    unfolding message_receive_def k1(1) by simp
  from kq_insert_sim [OF k1(2) W1, of "PcbP p" "ucast pd"] show ?thesis
  proof cases
    case (1 m)
    then show ?thesis unfolding e by simp
  next
    case (2 h)
    let ?k2 = "put_q h k1" and ?A2 = "A(waitingPcbs k \<mapsto> (c, spec_insert c (PcbP p) (ucast pd) ws))"
    have k2: "krep ?k2 ?A2 L" using 2(2) k1(3) by (simp del: fun_upd_apply)
    have "ready k i \<noteq> waitingPcbs k" if "i < 4" for i using ne that by (metis imageI lessThan_iff)
    then have q2: "ready_spec ?k2 ?A2 Rq" using Q k1 by (simp add: ready_spec_def)
    have l2: "\<forall>i<4. live_ready ?k2 (Rq i)" using live(1) k1 by (simp add: live_ready_def)
    obtain i q key es h' where d: "i < 4" "\<forall>j<i. Rq j = []" "Rq i = (PcbP q, key) # es"
      "dispatch ?k2 = Ok (dispatched q h' ?k2)" "qrep h' (?A2(ready ?k2 i \<mapsto> (CmpNull, es))) L"
      using dispatch_some [OF k2 q2 l2 live(2)] by metis
    have "message_receive p pd f d s k = Ok (FAILURE, dispatched q h' ?k2)" unfolding e 2(1) using d(4) by simp
    moreover have "krep (dispatched q h' ?k2) (?A2(ready k i \<mapsto> (CmpNull, es))) L"
      using d(5) k1(4) by (simp add: krep_def del: fun_upd_apply)
    ultimately show ?thesis using d(1-3) k1(5)
      by (intro disjI2 exI conjI) (simp | assumption)+
  qed
qed

text \<open>
  Sending to a process that does not wait never reports success of its own: the queued branch
  of the function ends without a result, so that the caller gets whatever was there.
\<close>

lemma message_send_no_result:
  assumes "kq_remove_by_key (waitingPcbs k) (ucast to_pid) k = Ok (st, d, k1)" "st \<noteq> SUCCESS"
    and "message_send garbage from to_pid data sz k = Ok (r, k')"
  shows "r = garbage \<or> r = FAILURE"
  using assms by (auto simp: message_send_def split: option.splits)

subsection \<open>Witnesses\<close>

definition message_table :: table where
  "message_table i = (if i = 13 then (CmpAscendUint, None) else if i = 12 then (CmpAscendUint, Some (QueueP (slot 14), 7)) else
     if i = 14 then (CmpNull, Some (MsgP (slot 42), 0)) else demo_table i)"

lemma message_inbox:
  "inbox (table_kernel message_table P) (table_spec message_table) 7 (Some [(MsgP (slot 42), 0)])"
  "inbox (table_kernel message_table P) (table_spec message_table) 8 None"
  by (simp_all add: inbox_def message_table_def spec_remove_def)

theorem message_has_message_correct_witness:
  "message_has_message 7 (table_kernel message_table (demo_procs 5)) = Ok SUCCESS \<and>
   message_has_message 8 (table_kernel message_table (demo_procs 5)) = Ok NOT_FOUND"
  using message_has_message_correct [OF table_krep message_inbox(1)] message_has_message_correct [OF table_krep message_inbox(2)]
  by simp

theorem message_receive_blocks_witness:
  "(\<exists>m. message_receive 0 8 0 0 0 (table_kernel message_table (demo_procs 5)) = Panic m) \<or>
   (\<exists>k' q. message_receive 0 8 0 0 0 (table_kernel message_table (demo_procs 5)) = Ok (FAILURE, k') \<and> curr k' = Some q)"
proof -
  let ?k = "table_kernel message_table (demo_procs 5)"
  have 1: "table_spec message_table (waitingPcbs ?k) = Some (CmpAscendUint, [])"
    by (simp add: message_table_def)
  have 2: "ready_spec ?k (table_spec message_table) demo_ready"
    unfolding ready_spec_def by (auto simp: message_table_def demo_table_def demo_ready_def inj_on_def)
  have 3: "waitingPcbs ?k \<notin> ready ?k ` {..<4}" by auto
  have 4: "\<forall>i<4. live_ready ?k (demo_ready i)"
    by (simp add: live_ready_def demo_ready_def demo_procs_def)
  have 5: "\<exists>i<4. demo_ready i \<noteq> []" by (simp add: demo_ready_def)
  show ?thesis using message_receive_blocks [OF table_krep message_inbox(2) disjI1 [OF refl] 1 2 3 4 5, of 0 0 0 0] by blast
qed

end
