(* ===== verification/Sio.thy ===== *)
theory Sio
  imports Process
begin

text \<open>
  The serial port, \<^verbatim>\<open>src/serial/sio.c\<close>. The character pointers into the two static buffers are
  indices; an access at or behind the end of a buffer is a \<open>Fault\<close>. The chip is a parameter: the
  list of the events it reports while the interrupt is handled, each the value of its event register
  and the value of the register the handler reads for it. What the code prints is left out.
\<close>

subsection \<open>Operations\<close>

abbreviation (input) UA4_TXD :: u32 where "UA4_TXD \<equiv> 0x3F8"
abbreviation (input) UA4_IER :: u32 where "UA4_IER \<equiv> 0x3F9"
abbreviation (input) UA4_FCR :: u32 where "UA4_FCR \<equiv> 0x3FA"
abbreviation (input) UA4_LCR :: u32 where "UA4_LCR \<equiv> 0x3FB"
abbreviation (input) UA4_MCR :: u32 where "UA4_MCR \<equiv> 0x3FC"
abbreviation (input) SIO_TX :: u8 where "SIO_TX \<equiv> 1"
abbreviation (input) SIO_RX :: u8 where "SIO_RX \<equiv> 2"
abbreviation (input) UA4_IER_RX_INT_ENABLE :: u8 where "UA4_IER_RX_INT_ENABLE \<equiv> 1"
abbreviation (input) UA4_IER_TX_INT_ENABLE :: u8 where "UA4_IER_TX_INT_ENABLE \<equiv> 2"
abbreviation (input) CR :: u8 where "CR \<equiv> 13"
abbreviation (input) LF :: u8 where "LF \<equiv> 10"

definition upd_sio :: "(sio \<Rightarrow> sio) \<Rightarrow> kernel \<Rightarrow> kernel" where
  "upd_sio f k = k\<lparr>sio_st := f (sio_st k)\<rparr>"

definition sio_init :: "kernel \<Rightarrow> kernel outcome" where
  "sio_init k =
     (let k1 = upd_sio (\<lambda>s. s\<lparr>inbuffer := (\<lambda>_. 0), inlast := 0, innext := 0, incount := 0,
                outbuffer := (\<lambda>_. 0), outlast := 0, outnext := 0, outcount := 0, sending := False\<rparr>) k in
      obind (kq_alloc CmpNull k1) (\<lambda>(st, q, k2).
        if st \<noteq> SUCCESS then Panic ''_sio_init: reading queue create status''
        else obind (deref q) (\<lambda>q.
          let k3 = outb UA4_IER 0 (outb UA4_FCR 7 (outb UA4_FCR 3 (outb UA4_FCR 1 (outb UA4_FCR 0
                     (outb UA4_FCR 0x20 (k2\<lparr>reading := q\<rparr>))))));
              k4 = upd_sio (\<lambda>s. s\<lparr>ier := 0\<rparr>) k3 in
          Ok (outb UA4_MCR 0x0B (outb UA4_LCR 3 (outb 0x3F9 0 (outb 0x3F8 12 (outb UA4_LCR 0x80 k4))))))))"

definition sio_enable :: "u8 \<Rightarrow> kernel \<Rightarrow> u8 \<times> kernel" where
  "sio_enable which k =
     (let old = ier (sio_st k);
          n1 = (if which AND SIO_TX \<noteq> 0 then old OR UA4_IER_TX_INT_ENABLE else old);
          n2 = (if which AND SIO_RX \<noteq> 0 then n1 OR UA4_IER_RX_INT_ENABLE else n1);
          k1 = upd_sio (\<lambda>s. s\<lparr>ier := n2\<rparr>) k in
      (old, if old \<noteq> n2 then outb UA4_IER n2 k1 else k1))"

definition sio_disable :: "u8 \<Rightarrow> kernel \<Rightarrow> u8 \<times> kernel" where
  "sio_disable which k =
     (let old = ier (sio_st k);
          n1 = (if which AND SIO_TX \<noteq> 0 then old AND NOT UA4_IER_TX_INT_ENABLE else old);
          n2 = (if which AND SIO_RX \<noteq> 0 then n1 AND NOT UA4_IER_RX_INT_ENABLE else n1);
          k1 = upd_sio (\<lambda>s. s\<lparr>ier := n2\<rparr>) k in
      (old, if old \<noteq> n2 then outb UA4_IER n2 k1 else k1))"

text \<open>Reading: \<open>-1\<close> stands for no character.\<close>

definition reset_input :: "sio \<Rightarrow> sio" where
  "reset_input s = (if incount s < 1 then s\<lparr>inlast := 0, innext := 0\<rparr> else s)"

definition sio_readc :: "kernel \<Rightarrow> (int \<times> kernel) outcome" where
  "sio_readc k =
     (let s = sio_st k in
      if incount s > 0 then
        if innext s < BUF_SIZE then
          Ok (uint (inbuffer s (innext s)),
              upd_sio (\<lambda>s. reset_input (s\<lparr>innext := innext s + 1, incount := incount s - 1\<rparr>)) k)
        else Fault
      else Ok (-1, k))"

text \<open>The loop of \<^verbatim>\<open>_sio_reads\<close>, over the number of characters that are left.\<close>

fun sio_reads_loop :: "nat \<Rightarrow> nat \<Rightarrow> u8 list \<Rightarrow> sio \<Rightarrow> (u8 list \<times> sio) outcome" where
  "sio_reads_loop 0 len buf s = Ok (buf, s)"
| "sio_reads_loop (Suc n) len buf s =
     (if length buf < len then
        if innext s < BUF_SIZE then
          let i = innext s + 1; i' = (if i > BUF_SIZE then 0 else i) in
          sio_reads_loop n len (buf @ [inbuffer s (innext s)]) (s\<lparr>innext := i', incount := n\<rparr>)
        else Fault
      else Ok (buf, s))"

definition sio_reads :: "int \<Rightarrow> kernel \<Rightarrow> (u8 list \<times> kernel) outcome" where
  "sio_reads len k =
     (let s = sio_st k in
      if incount s < 1 then Ok ([], k)
      else obind (sio_reads_loop (incount s) (nat len) [] s) (\<lambda>(buf, s'). Ok (buf, upd_sio (\<lambda>_. reset_input s') k)))"

text \<open>Writing a character: the carriage return before a line feed is sent by a recursive call.\<close>

definition sio_put :: "u8 \<Rightarrow> kernel \<Rightarrow> kernel outcome" where
  "sio_put ch k =
     (let s = sio_st k in
      if sending s then
        if outlast s < BUF_SIZE then
          Ok (upd_sio (\<lambda>s. s\<lparr>outbuffer := (outbuffer s)(outlast s := ch), outlast := outlast s + 1,
                outcount := outcount s + 1\<rparr>) k)
        else Fault
      else Ok (snd (sio_enable SIO_TX (outb UA4_TXD ch (upd_sio (\<lambda>s. s\<lparr>sending := True\<rparr>) k)))))"

definition sio_writec :: "u8 \<Rightarrow> kernel \<Rightarrow> kernel outcome" where
  "sio_writec ch k = (if ch = LF then obind (sio_put CR k) (sio_put ch) else sio_put ch k)"

text \<open>The loop that copies a buffer, with what is left of the buffer.\<close>

fun sio_writes_loop :: "u8 list \<Rightarrow> nat \<Rightarrow> nat \<Rightarrow> sio \<Rightarrow> (nat \<times> sio) outcome" where
  "sio_writes_loop buf 0 copied s = Ok (copied, s)"
| "sio_writes_loop buf (Suc left) copied s =
     (if outcount s < BUF_SIZE then
        (case buf of
           [] \<Rightarrow> Fault
         | ch # rest \<Rightarrow>
             if outlast s < BUF_SIZE then
               let i = outlast s + 1; i' = (if i \<ge> BUF_SIZE then 0 else i) in
               sio_writes_loop rest left (copied + 1) (s\<lparr>outbuffer := (outbuffer s)(outlast s := ch),
                 outlast := i', outcount := outcount s + 1\<rparr>)
             else Fault)
      else Ok (copied, s))"

definition sio_writes :: "u8 list \<Rightarrow> int \<Rightarrow> kernel \<Rightarrow> (nat \<times> kernel) outcome" where
  "sio_writes buf len k = (case buf of
     [] \<Rightarrow> Fault
   | first # rest \<Rightarrow>
       let busy = sending (sio_st k); copied = (if busy then 0 else 1) in
       obind (sio_writes_loop (if busy then buf else rest) (nat (len - int copied)) copied (sio_st k)) (\<lambda>(n, s).
       let k1 = upd_sio (\<lambda>_. s) k in
       obind (if \<not> busy then sio_writec first k1 else Ok k1) (\<lambda>k2. Ok (n, k2))))"

subsection \<open>The interrupt handler\<close>

text \<open>A character has come in: it goes to the first process that waits, or into the buffer.\<close>

definition sio_receive :: "u8 \<Rightarrow> kernel \<Rightarrow> kernel outcome" where
  "sio_receive data k =
     (let ch = (if data = CR then LF else data) in
      obind (kq_empty (reading k) k) (\<lambda>e.
        if \<not> e then
          obind (kq_remove (reading k) k) (\<lambda>(st, d, k1).
            if st \<noteq> SUCCESS then Panic ''_isr_sio: serial wakeup status''
            else obind (as_pcb d) (\<lambda>p.
              obind (ARG p 1 k1) (\<lambda>a. obind (kstore a (ucast ch) k1) (\<lambda>k2.
              obind (set_RET p (status_code SUCCESS) k2) (\<lambda>k3.
              obind (sched (Some p) k3) (\<lambda>(_, k4). Ok k4))))))
        else if incount (sio_st k) < BUF_SIZE then
          if inlast (sio_st k) < BUF_SIZE then
            Ok (upd_sio (\<lambda>s. s\<lparr>inbuffer := (inbuffer s)(inlast s := ch), inlast := inlast s + 1,
                  incount := incount s + 1\<rparr>) k)
          else Fault
        else Ok k))"

text \<open>The transmitter is free: the next character is sent, or sending ends.\<close>

definition sio_transmit :: "kernel \<Rightarrow> kernel outcome" where
  "sio_transmit k =
     (let s = sio_st k in
      if sending s \<and> outcount s > 0 then
        if outnext s < BUF_SIZE then
          Ok (upd_sio (\<lambda>s. s\<lparr>outnext := (if outnext s + 1 \<ge> BUF_SIZE then 0 else outnext s + 1),
                outcount := outcount s - 1\<rparr>) (outb UA4_TXD (outbuffer s (outnext s)) k))
        else Fault
      else Ok (snd (sio_disable SIO_TX (upd_sio (\<lambda>s. s\<lparr>outcount := 0, outlast := 0, outnext := 0, sending := False\<rparr>) k))))"

fun isr_sio :: "(u8 \<times> u8) list \<Rightarrow> kernel \<Rightarrow> kernel outcome" where
  "isr_sio [] k = Ok (outb PIC_MASTER_CMD_PORT PIC_EOI k)"
| "isr_sio ((reg, data) # evs) k =
     (let eir = reg AND 0x0F in
      if eir = 0x06 then isr_sio evs k
      else if eir = 0x04 then obind (sio_receive data k) (isr_sio evs)
      else if eir = 0x0C then isr_sio evs k
      else if eir = 0x02 then obind (sio_transmit k) (isr_sio evs)
      else if eir = 0x01 then Ok (outb PIC_MASTER_CMD_PORT PIC_EOI k)
      else if eir = 0x00 then isr_sio evs k
      else Panic ''_isr_sio: unknown device status'')"

subsection \<open>Characters come out in the order they went in\<close>

definition cr_to_lf :: "u8 \<Rightarrow> u8" where
  "cr_to_lf c = (if c = CR then LF else c)"

definition pending :: "sio \<Rightarrow> u8 list" where
  "pending s = map (inbuffer s) [innext s..<innext s + incount s]"

definition input_ok :: "sio \<Rightarrow> bool" where
  "input_ok s \<longleftrightarrow> inlast s = innext s + incount s \<and> inlast s \<le> BUF_SIZE \<and> (incount s = 0 \<longrightarrow> innext s = 0)"

lemma upd_sio_fields [simp]:
  "sio_st (upd_sio f k) = f (sio_st k)" "qh_of (upd_sio f k) = qh_of k" "reading (upd_sio f k) = reading k"
  "pcbs (upd_sio f k) = pcbs k" "vm (upd_sio f k) = vm k" "ready (upd_sio f k) = ready k" "ports (upd_sio f k) = ports k"
  by (simp_all add: upd_sio_def)

lemma receive_step:
  assumes "krep k A L" "A (reading k) = Some (c, [])" "input_ok (sio_st k)" "inlast (sio_st k) < BUF_SIZE"
  obtains k' where "sio_receive d k = Ok k'" "input_ok (sio_st k')" "pending (sio_st k') = pending (sio_st k) @ [cr_to_lf d]"
    "krep k' A L" "reading k' = reading k" "inlast (sio_st k') = inlast (sio_st k) + 1" "pcbs k' = pcbs k"
proof -
  let ?s = "sio_st k"
  have "incount ?s < BUF_SIZE" using assms(3,4) by (simp add: input_ok_def)
  then have "sio_receive d k = Ok (upd_sio (\<lambda>s. s\<lparr>inbuffer := (inbuffer s)(inlast s := cr_to_lf d), inlast := inlast s + 1,
      incount := incount s + 1\<rparr>) k)" (is "_ = Ok ?k")
    using kq_look(1) [OF assms(1,2)] assms(4) by (simp add: sio_receive_def cr_to_lf_def)
  moreover have "input_ok (sio_st ?k)" using assms(3,4) by (simp add: input_ok_def)
  moreover have "pending (sio_st ?k) = pending ?s @ [cr_to_lf d]"
    using assms(3) by (simp add: pending_def input_ok_def)
  ultimately show thesis using that assms(1) by (simp add: krep_def)
qed

lemma receive_all:
  assumes "krep k A L" "A (reading k) = Some (c, [])" "input_ok (sio_st k)" "inlast (sio_st k) + length cs \<le> BUF_SIZE"
  shows "\<exists>k'. isr_sio (map (\<lambda>d. (0x04, d)) cs) k = Ok k' \<and> input_ok (sio_st k') \<and>
    pending (sio_st k') = pending (sio_st k) @ map cr_to_lf cs \<and> krep k' A L \<and> reading k' = reading k \<and> pcbs k' = pcbs k"
  using assms
proof (induction cs arbitrary: k)
  case Nil
  then show ?case by (simp add: krep_def outb_def)
next
  case (Cons d cs)
  have "inlast (sio_st k) < BUF_SIZE" using Cons.prems(4) by simp
  from receive_step [OF Cons.prems(1-3) this, of d] obtain k1 where
    k1: "sio_receive d k = Ok k1" "input_ok (sio_st k1)" "pending (sio_st k1) = pending (sio_st k) @ [cr_to_lf d]"
      "krep k1 A L" "reading k1 = reading k" "inlast (sio_st k1) = inlast (sio_st k) + 1" "pcbs k1 = pcbs k" .
  have "A (reading k1) = Some (c, [])" "inlast (sio_st k1) + length cs \<le> BUF_SIZE" using Cons.prems k1 by simp_all
  from Cons.IH [OF k1(4) this(1) k1(2) this(2)] show ?case using k1 by (auto simp: Let_def)
qed

lemma reads_loop:
  assumes "n = incount s" "innext s + incount s \<le> BUF_SIZE"
  shows "sio_reads_loop n len buf s = Ok (buf @ take (len - length buf) (pending s),
     s\<lparr>innext := innext s + min n (len - length buf), incount := n - min n (len - length buf)\<rparr>)"
  using assms
proof (induction n arbitrary: buf s)
  case 0
  then show ?case by (simp add: pending_def)
next
  case (Suc n)
  show ?case
  proof (cases "length buf < len")
    case True
    let ?s = "s\<lparr>innext := innext s + 1, incount := n\<rparr>"
    have p: "pending s = inbuffer s (innext s) # pending ?s"
      using Suc.prems(1) [symmetric] by (simp add: pending_def upt_conv_Cons del: upt_Suc)
    have l: "innext s < BUF_SIZE" using Suc.prems by simp
    have "sio_reads_loop (Suc n) len buf s = sio_reads_loop n len (buf @ [inbuffer s (innext s)]) ?s"
      using True l by (simp add: Let_def)
    also have "\<dots> = Ok ((buf @ [inbuffer s (innext s)]) @ take (len - Suc (length buf)) (pending ?s),
        ?s\<lparr>innext := innext ?s + min n (len - Suc (length buf)), incount := n - min n (len - Suc (length buf))\<rparr>)"
      by (subst Suc.IH) (use Suc.prems in simp_all)
    also have "len - length buf = Suc (len - Suc (length buf))" using True by simp
    ultimately show ?thesis unfolding p by simp
  next
    case False
    have "s\<lparr>innext := innext s, incount := Suc n\<rparr> = s" using Suc.prems(1) by (cases s) simp
    then show ?thesis using False by simp
  qed
qed

text \<open>
  C10: what comes in over an empty buffer while nobody waits is what a later read returns: the first
  characters, as many as are asked for, in their order, with carriage returns turned into line feeds.
\<close>

theorem sio_input_roundtrip:
  assumes "krep k A L" "A (reading k) = Some (c, [])" "incount (sio_st k) = 0" "inlast (sio_st k) = 0" "innext (sio_st k) = 0"
    and "length cs \<le> BUF_SIZE" "0 \<le> len"
  shows "\<exists>k' k''. isr_sio (map (\<lambda>d. (0x04, d)) cs) k = Ok k' \<and> pcbs k' = pcbs k \<and>
    sio_reads len k' = Ok (take (nat len) (map cr_to_lf cs), k'') \<and>
    pending (sio_st k'') = drop (nat len) (map cr_to_lf cs)"
proof -
  have i: "input_ok (sio_st k)" using assms by (simp add: input_ok_def)
  have "inlast (sio_st k) + length cs \<le> BUF_SIZE" using assms by simp
  from receive_all [OF assms(1,2) i this] obtain k' where
    k': "isr_sio (map (\<lambda>d. (0x04, d)) cs) k = Ok k'" "input_ok (sio_st k')" "pending (sio_st k') = map cr_to_lf cs" "pcbs k' = pcbs k"
    using assms by (auto simp: pending_def)
  let ?s = "sio_st k'"
  have n: "incount ?s = length cs" using arg_cong [OF k'(3), of length] by (simp add: pending_def)
  let ?m = "min (incount ?s) (nat len)"
  let ?t = "?s\<lparr>innext := innext ?s + ?m, incount := incount ?s - ?m\<rparr>"
  have l: "sio_reads_loop (incount ?s) (nat len) [] ?s = Ok (take (nat len) (map cr_to_lf cs), ?t)"
    by (subst reads_loop) (use k'(2,3) in \<open>simp_all add: input_ok_def\<close>)
  have "pending ?t = drop ?m (pending ?s)" by (simp add: pending_def drop_map)
  also have "\<dots> = drop (nat len) (map cr_to_lf cs)" unfolding k'(3) n by (simp add: min_def)
  finally have pt: "pending ?t = drop (nat len) (map cr_to_lf cs)" .
  have pr: "pending (reset_input ?t) = pending ?t" by (simp add: reset_input_def pending_def)
  show ?thesis
  proof (cases "incount ?s < 1")
    case True
    then have "cs = []" using n by simp
    then show ?thesis using k' True by (auto simp: sio_reads_def)
  next
    case False
    then have "sio_reads len k' = Ok (take (nat len) (map cr_to_lf cs), upd_sio (\<lambda>_. reset_input ?t) k')"
      using l by (simp add: sio_reads_def Let_def)
    then show ?thesis using k'(1,4) pt pr by auto
  qed
qed

text \<open>
  The pointer at which characters are put into the input buffer is only reset when the buffer
  runs empty and never wraps around: when 2048 characters have come in since then, one more is
  written behind the buffer as soon as one character has been read.
\<close>

theorem sio_receive_overruns:
  assumes R: "krep k A L" "A (reading k) = Some (c, [])" and s: "input_ok (sio_st k)" "incount (sio_st k) = BUF_SIZE"
  shows "\<exists>ch k'. sio_readc k = Ok (ch, k') \<and> 0 \<le> ch \<and> sio_receive d k' = Fault"
proof -
  let ?s = "sio_st k"
  have i: "innext ?s = 0" "inlast ?s = BUF_SIZE" using s by (auto simp: input_ok_def)
  let ?k' = "upd_sio (\<lambda>s. reset_input (s\<lparr>innext := innext s + 1, incount := incount s - 1\<rparr>)) k"
  have "sio_readc k = Ok (uint (inbuffer ?s 0), ?k')" using i s by (simp add: sio_readc_def)
  moreover have "krep ?k' A L" "A (reading ?k') = Some (c, [])" using R by (simp_all add: krep_def)
  then have "kq_empty (reading ?k') ?k' = Ok True" using kq_look(1) by fastforce
  then have "sio_receive d ?k' = Fault" using i s by (simp add: sio_receive_def reset_input_def)
  ultimately show ?thesis by auto
qed

lemma writes_loop:
  assumes "outlast s + n < BUF_SIZE" "outcount s + n \<le> BUF_SIZE" "n \<le> length buf"
  shows "sio_writes_loop buf n m s = Ok (m + n, s\<lparr>outbuffer := (\<lambda>i. if outlast s \<le> i \<and> i < outlast s + n
     then buf ! (i - outlast s) else outbuffer s i), outlast := outlast s + n, outcount := outcount s + n\<rparr>)"
  using assms
proof (induction n arbitrary: buf m s)
  case 0
  have "(\<lambda>i. if outlast s \<le> i \<and> i < outlast s then buf ! (i - outlast s) else outbuffer s i) = outbuffer s" by (rule ext) auto
  then show ?case by simp
next
  case (Suc n)
  then obtain ch rest where b: "buf = ch # rest" by (cases buf) auto
  let ?s = "s\<lparr>outbuffer := (outbuffer s)(outlast s := ch), outlast := outlast s + 1, outcount := outcount s + 1\<rparr>"
  have "sio_writes_loop buf (Suc n) m s = sio_writes_loop rest n (m + 1) ?s"
    using Suc.prems b by (simp add: Let_def)
  also have "\<dots> = Ok (m + 1 + n, ?s\<lparr>outbuffer := (\<lambda>i. if outlast ?s \<le> i \<and> i < outlast ?s + n
     then rest ! (i - outlast ?s) else outbuffer ?s i), outlast := outlast ?s + n, outcount := outcount ?s + n\<rparr>)"
    by (rule Suc.IH) (use Suc.prems b in simp_all)
  also have "(\<lambda>i. if outlast ?s \<le> i \<and> i < outlast ?s + n then rest ! (i - outlast ?s) else outbuffer ?s i) =
      (\<lambda>i. if outlast s \<le> i \<and> i < outlast s + Suc n then buf ! (i - outlast s) else outbuffer s i)"
  proof
    fix i
    show "(if outlast ?s \<le> i \<and> i < outlast ?s + n then rest ! (i - outlast ?s) else outbuffer ?s i) =
      (if outlast s \<le> i \<and> i < outlast s + Suc n then buf ! (i - outlast s) else outbuffer s i)"
      using b by (cases "i = outlast s") (auto simp: nth_Cons' Suc_le_eq)
  qed
  finally show ?case by (simp add: add.commute)
qed

text \<open>
  Writing a buffer that begins with a line feed while the line is idle sends a carriage return
  and puts the line feed behind the rest of the buffer.
\<close>

theorem sio_writes_line_feed_last:
  assumes s: "\<not> sending (sio_st k)" "outlast (sio_st k) = 0" "outcount (sio_st k) = 0" and l: "length cs < BUF_SIZE"
  shows "\<exists>k'. sio_writes (LF # cs) (int (length cs) + 1) k = Ok (length cs + 1, k') \<and>
    (\<exists>w. ports k' = ports k @ (UA4_TXD, CR) # w) \<and>
    map (outbuffer (sio_st k')) [0..<outcount (sio_st k')] = cs @ [LF] \<and> outcount (sio_st k') = length cs + 1"
proof -
  let ?s = "(sio_st k)\<lparr>outbuffer := (\<lambda>i. if i < length cs then cs ! i else outbuffer (sio_st k) i),
     outlast := length cs, outcount := length cs\<rparr>"
  have w: "sio_writes_loop cs (length cs) 1 (sio_st k) = Ok (1 + length cs, ?s)"
    by (subst writes_loop) (use s l in \<open>simp_all cong: if_cong\<close>)
  let ?k1 = "upd_sio (\<lambda>_. ?s) k"
  let ?k2 = "snd (sio_enable SIO_TX (outb UA4_TXD CR (upd_sio (\<lambda>s. s\<lparr>sending := True\<rparr>) ?k1)))"
  have k2: "sio_put CR ?k1 = Ok ?k2" using s by (simp add: sio_put_def)
  have f2: "sending (sio_st ?k2)" "outlast (sio_st ?k2) = length cs" "outcount (sio_st ?k2) = length cs"
    "outbuffer (sio_st ?k2) = outbuffer ?s" "\<exists>w. ports ?k2 = ports k @ (UA4_TXD, CR) # w"
    by (simp_all add: sio_enable_def Let_def outb_def upd_sio_def)
  let ?k3 = "upd_sio (\<lambda>s. s\<lparr>outbuffer := (outbuffer s)(outlast s := LF), outlast := outlast s + 1,
                outcount := outcount s + 1\<rparr>) ?k2"
  have "sio_put LF ?k2 = Ok ?k3" using f2 l by (simp add: sio_put_def)
  then have "sio_writec LF ?k1 = Ok ?k3" using k2 by (simp add: sio_writec_def)
  then have "sio_writes (LF # cs) (int (length cs) + 1) k = Ok (1 + length cs, ?k3)"
    using s w by (simp add: sio_writes_def)
  moreover have "map (outbuffer (sio_st ?k3)) [0..<outcount (sio_st ?k3)] = cs @ [LF]"
    using f2(2-4) by (auto intro!: nth_equalityI simp: nth_append)
  ultimately show ?thesis using f2 by auto
qed

subsection \<open>Witnesses\<close>

lemma sio_demo:
  "table_spec demo_table (reading (table_kernel demo_table P)) = Some (CmpNull, [])"
  "sio_st (table_kernel demo_table P) = \<lparr>inbuffer = (\<lambda>_. 0), inlast = 0, innext = 0, incount = 0,
     outbuffer = (\<lambda>_. 0), outlast = 0, outnext = 0, outcount = 0, sending = False, ier = 0\<rparr>"
  by (simp_all add: demo_table_def table_kernel_def)

theorem sio_input_roundtrip_witness:
  "\<exists>k' k''. isr_sio [(4, 72), (4, 13)] (table_kernel demo_table (demo_procs 5)) = Ok k' \<and>
    sio_reads 5 k' = Ok ([72, 10], k'')"
  using sio_input_roundtrip [OF table_krep sio_demo(1), where cs = "[72, 13]" and len = 5 and P1 = "demo_procs 5"]
  by (auto simp: sio_demo(2) cr_to_lf_def)

definition full_sio :: "sio \<Rightarrow> sio" where
  "full_sio s = s\<lparr>incount := 2048, inlast := 2048, innext := 0\<rparr>"

theorem sio_receive_overruns_witness:
  "\<exists>ch k'. sio_readc (upd_sio full_sio (table_kernel demo_table (demo_procs 5))) = Ok (ch, k') \<and> 0 \<le> ch \<and>
     sio_receive 65 k' = Fault"
proof -
  let ?k = "upd_sio full_sio (table_kernel demo_table (demo_procs 5))"
  have "krep (table_kernel demo_table (demo_procs 5)) (table_spec demo_table) (table_rest demo_table)" by simp
  then have 1: "krep ?k (table_spec demo_table) (table_rest demo_table)" by (simp add: krep_def)
  have 2: "table_spec demo_table (reading ?k) = Some (CmpNull, [])" using sio_demo(1) by simp
  have 3: "input_ok (sio_st ?k)" "incount (sio_st ?k) = BUF_SIZE" by (simp_all add: full_sio_def input_ok_def)
  show ?thesis by (rule sio_receive_overruns [OF 1 2 3])
qed

theorem sio_writes_line_feed_last_witness:
  "\<exists>k'. sio_writes [10, 65] 2 (table_kernel demo_table (demo_procs 5)) = Ok (2, k') \<and>
     map (outbuffer (sio_st k')) [0..<outcount (sio_st k')] = [65, 10]"
  using sio_writes_line_feed_last [of "table_kernel demo_table (demo_procs 5)" "[65]"] by (auto simp: sio_demo(2))

end
