(* ===== verification/Syscalls.thy ===== *)
theory Syscalls
  imports Semaphores Locks Messages Sio
begin

text \<open>
  The system calls, \<^verbatim>\<open>src/kernel/syscalls.c\<close>: the second-level handlers, the jump table and the
  handler of the trap. What a call hands to the user goes through the address space that is loaded
  at the time. The routines of other parts of the system that are not modelled here, loading a
  program and reading and writing files, are parameters, and so is the value a function without a
  \<^verbatim>\<open>return\<close> leaves behind.
\<close>

record outside =
  elf_load_from_file :: "nat \<Rightarrow> u32 \<Rightarrow> kernel \<Rightarrow> (status \<times> kernel) outcome"
  raw_read :: "u32 \<Rightarrow> u32 \<Rightarrow> u32 \<Rightarrow> u32 \<Rightarrow> u32 \<Rightarrow> kernel \<Rightarrow> (u32 \<times> kernel) outcome"
  raw_write :: "u32 \<Rightarrow> u32 \<Rightarrow> u32 \<Rightarrow> u32 \<Rightarrow> u32 \<Rightarrow> kernel \<Rightarrow> (u32 \<times> kernel) outcome"
  no_return :: status

type_synonym handler = "nat \<Rightarrow> kernel \<Rightarrow> kernel outcome"

definition return_status :: "nat \<Rightarrow> (status \<times> kernel) outcome \<Rightarrow> kernel outcome" where
  "return_status p m = obind m (\<lambda>(st, k). set_RET p (status_code st) k)"

text \<open>Storing a word through the info pointer, the first argument.\<close>

definition put_info :: "nat \<Rightarrow> u32 \<Rightarrow> kernel \<Rightarrow> kernel outcome" where
  "put_info p x k = obind (ARG p 1 k) (\<lambda>a. kstore a x k)"

subsection \<open>Processes\<close>

definition sys_fork :: handler where
  "sys_fork p k =
     obind (pcb_alloc k) (\<lambda>(np, k1). case np of
       None \<Rightarrow> set_RET p (status_code FAILURE) k1
     | Some new \<Rightarrow>
       let k2 = upd_pcb new (\<lambda>_. pcbs k1 p) k1 in
       obind (virt_clone_directory (vm k2)) (\<lambda>(pd, v).
       let k3 = k2\<lparr>vm := v\<rparr>;
           k4 = (upd_pcb new (\<lambda>b. b\<lparr>page_directory := pd, pid := next_pid k3, ppid := pid (pcbs k3 p), state := NEW\<rparr>) k3)
                  \<lparr>next_pid := next_pid k3 + 1\<rparr> in
       obind (put_info p (ucast (pid (pcbs k4 new))) k4) (\<lambda>k5.
       obind (put_info new 0 (load_directory (page_directory (pcbs k5 new)) k5)) (\<lambda>k6.
       let k7 = load_directory (page_directory (pcbs k6 p)) k6 in
       obind (sched (Some new) k7) (\<lambda>(st, k8).
         if st \<noteq> SUCCESS then
           obind (set_RET p (status_code FAILURE) k8) (cleanup (Some new))
         else
           obind (set_RET p (status_code SUCCESS) k8) (\<lambda>k9.
           obind (set_RET new (status_code SUCCESS) (load_directory (page_directory (pcbs k9 new)) k9)) (\<lambda>k10.
             Ok (load_directory (page_directory (pcbs k10 p)) k10))))))))"

definition sys_exit :: handler where
  "sys_exit p k = obind (cleanup (Some p) k) dispatch"

definition sys_msleep :: handler where
  "sys_msleep p k =
     obind (ARG p 1 k) (\<lambda>time.
     obind (if time = 0 then sched (Some p) k
            else kq_insert (sleeping k) (PcbP p) (system_time k + time) k) (\<lambda>(st, k1).
       if st \<noteq> SUCCESS then set_RET p (status_code FAILURE) k1
       else obind (set_RET p (status_code SUCCESS) k1) dispatch))"

text \<open>The scan of the array of control blocks, from index \<open>i\<close>.\<close>

fun find_victim :: "u32 \<Rightarrow> (nat \<Rightarrow> pcb) \<Rightarrow> nat list \<Rightarrow> nat option" where
  "find_victim n P [] = None"
| "find_victim n P (i # is) = (if ucast (pid (P i)) = n \<and> state (P i) \<noteq> FREE then Some i else find_victim n P is)"

definition sys_kill :: handler where
  "sys_kill p k =
     obind (ARG p 1 k) (\<lambda>n. case find_victim n (pcbs k) [0..<N_PCBS] of
       Some i \<Rightarrow> set_RET p (status_code SUCCESS) (upd_pcb i (\<lambda>b. b\<lparr>state := KILLED\<rparr>) k)
     | None \<Rightarrow> set_RET p (status_code NOT_FOUND) k)"

definition sys_get_priority :: handler where
  "sys_get_priority p k = obind (set_RET p (status_code SUCCESS) k) (\<lambda>k1. put_info p (ucast (priority (pcbs k1 p))) k1)"

definition sys_get_pid :: handler where
  "sys_get_pid p k = obind (set_RET p (status_code SUCCESS) k) (\<lambda>k1. put_info p (ucast (pid (pcbs k1 p))) k1)"

definition sys_get_ppid :: handler where
  "sys_get_ppid p k = obind (set_RET p (status_code SUCCESS) k) (\<lambda>k1. put_info p (ucast (ppid (pcbs k1 p))) k1)"

definition sys_get_time :: handler where
  "sys_get_time p k = obind (set_RET p (status_code SUCCESS) k) (\<lambda>k1. put_info p (system_time k1) k1)"

definition sys_get_state :: handler where
  "sys_get_state p k = obind (set_RET p (status_code SUCCESS) k) (\<lambda>k1. put_info p (ucast (state_code (state (pcbs k1 p)))) k1)"

definition sys_set_priority :: handler where
  "sys_set_priority p k =
     obind (ARG p 1 k) (\<lambda>a. let prio = ucast a :: u8 in
       if unat prio < N_PRIOS then set_RET p (status_code SUCCESS) (upd_pcb p (\<lambda>b. b\<lparr>priority := prio\<rparr>) k)
       else set_RET p (status_code BAD_PARAM) k)"

definition sys_set_time :: handler where
  "sys_set_time p k = obind (ARG p 1 k) (\<lambda>t. set_RET p (status_code SUCCESS) (k\<lparr>system_time := t\<rparr>))"

text \<open>A failing \<^verbatim>\<open>exec\<close> is a panic, the assignment behind it is never reached.\<close>

definition sys_exec :: "outside \<Rightarrow> handler" where
  "sys_exec env p k =
     obind (ARG p 1 k) (\<lambda>path. obind (elf_load_from_file env p path k) (\<lambda>(st, k1).
       if st \<noteq> SUCCESS then Panic ''Exec: Failed to exec!'' else Ok k1))"

subsection \<open>Input and output\<close>

definition sys_read :: handler where
  "sys_read p k =
     obind (sio_readc k) (\<lambda>(ch, k1).
       if ch \<ge> 0 then obind (put_info p (word_of_int ch) k1) (set_RET p (status_code SUCCESS))
       else
         obind (deref (curr k1)) (\<lambda>c.
         let k2 = upd_pcb c (\<lambda>b. b\<lparr>state := BLOCKED\<rparr>) k1 in
         obind (kq_insert (reading k2) (PcbP c) (ucast (pid (pcbs k2 c))) k2) (\<lambda>(st, k3).
           if st \<noteq> SUCCESS then Panic ''_sys_read: insert status'' else dispatch k3)))"

definition sys_write :: handler where
  "sys_write p k =
     obind (ARG p 1 k) (\<lambda>ch. set_RET p (status_code SUCCESS) (k\<lparr>console := console k @ [PutChar ch]\<rparr>))"

definition sys_fs_read :: "outside \<Rightarrow> handler" where
  "sys_fs_read env p k =
     obind (ARG p 1 k) (\<lambda>path. obind (ARG p 2 k) (\<lambda>buf. obind (ARG p 3 k) (\<lambda>n. obind (ARG p 4 k) (\<lambda>off. obind (ARG p 5 k) (\<lambda>len.
     obind (raw_read env path buf n off len k) (\<lambda>(r, k1). set_RET p r k1))))))"

definition sys_fs_write :: "outside \<Rightarrow> handler" where
  "sys_fs_write env p k =
     obind (ARG p 1 k) (\<lambda>path. obind (ARG p 2 k) (\<lambda>buf. obind (ARG p 3 k) (\<lambda>n. obind (ARG p 4 k) (\<lambda>off. obind (ARG p 5 k) (\<lambda>len.
     obind (raw_write env path buf n off len k) (\<lambda>(r, k1). set_RET p r k1))))))"

subsection \<open>Semaphores, locks and messages\<close>

definition sys_sem_init :: handler where
  "sys_sem_init p k =
     obind (sem_new k) (\<lambda>(s, k1). obind (put_info p s k1) (set_RET p (status_code SUCCESS)))"

definition sys_sem_destroy :: handler where
  "sys_sem_destroy p k = obind (ARG p 1 k) (\<lambda>s. return_status p (sem_destroy s k))"

definition sys_sem_post :: handler where
  "sys_sem_post p k = obind (ARG p 1 k) (\<lambda>s. return_status p (sem_post s k))"

definition sys_sem_wait :: handler where
  "sys_sem_wait p k = obind (ARG p 1 k) (\<lambda>s. return_status p (sem_wait s p k))"

definition sys_sem_try_wait :: handler where
  "sys_sem_try_wait p k = obind (ARG p 1 k) (\<lambda>s. return_status p (sem_try_wait s k))"

text \<open>A mode that is not one of the two constants of the enumeration is outside the model.\<close>

definition as_lockmode :: "u32 \<Rightarrow> lockmode outcome" where
  "as_lockmode m = (if m = 0 then Ok LOCK_READ else if m = 1 then Ok LOCK_WRITE else Fault)"

definition sys_lock_init :: handler where
  "sys_lock_init p k = obind (ARG p 1 k) (\<lambda>a. return_status p (lock_new a k))"

definition sys_lock_destroy :: handler where
  "sys_lock_destroy p k = obind (ARG p 1 k) (\<lambda>n. obind (lock_destroy n k) (\<lambda>st. set_RET p (status_code st) k))"

definition sys_lock_lock :: handler where
  "sys_lock_lock p k = obind (ARG p 1 k) (\<lambda>n. obind (ARG p 2 k) (\<lambda>m. obind (as_lockmode m) (\<lambda>mode.
     return_status p (lock_lock n mode p k))))"

definition sys_lock_unlock :: handler where
  "sys_lock_unlock p k = obind (ARG p 1 k) (\<lambda>n. obind (ARG p 2 k) (\<lambda>m. obind (as_lockmode m) (\<lambda>mode.
     return_status p (lock_unlock n mode k))))"

definition sys_message_send :: "outside \<Rightarrow> handler" where
  "sys_message_send env p k = obind (ARG p 1 k) (\<lambda>t. obind (ARG p 2 k) (\<lambda>d. obind (ARG p 3 k) (\<lambda>n.
     return_status p (message_send (no_return env) (pid (pcbs k p)) (ucast t) d n k))))"

definition sys_message_receive :: handler where
  "sys_message_receive p k = obind (ARG p 1 k) (\<lambda>f. obind (ARG p 2 k) (\<lambda>d. obind (ARG p 3 k) (\<lambda>n.
     return_status p (message_receive p (pid (pcbs k p)) f d n k))))"

definition sys_message_try_receive :: handler where
  "sys_message_try_receive p k = obind (ARG p 1 k) (\<lambda>f. obind (ARG p 2 k) (\<lambda>d. obind (ARG p 3 k) (\<lambda>n.
     return_status p (message_try_receive (pid (pcbs k p)) f d n k))))"

definition sys_message_has_message :: handler where
  "sys_message_has_message p k =
     obind (message_has_message (pid (pcbs k p)) k) (\<lambda>st. set_RET p (status_code st) k)"

subsection \<open>The trap\<close>

abbreviation (input) N_SYSCALLS :: nat where "N_SYSCALLS \<equiv> 29"
abbreviation (input) SYS_exit :: nat where "SYS_exit \<equiv> 2"

definition syscall_tbl :: "outside \<Rightarrow> handler list" where
  "syscall_tbl env =
     [sys_fork, sys_exec env, sys_exit, sys_msleep, sys_read, sys_write, sys_kill, sys_get_priority, sys_get_pid,
      sys_get_ppid, sys_get_state, sys_get_time, sys_set_priority, sys_set_time, sys_sem_init, sys_sem_destroy,
      sys_sem_post, sys_sem_wait, sys_sem_try_wait, sys_lock_init, sys_lock_destroy, sys_lock_lock, sys_lock_unlock,
      sys_message_send env, sys_message_receive, sys_message_try_receive, sys_message_has_message,
      sys_fs_read env, sys_fs_write env]"

definition syscall_init :: "kernel \<Rightarrow> kernel outcome" where
  "syscall_init k =
     obind (kq_alloc CmpAscendUint k) (\<lambda>(st, q, k1).
       if st \<noteq> SUCCESS then Panic ''_syscall_init: sleepq alloc status''
       else obind (deref q) (\<lambda>q. Ok (k1\<lparr>sleeping := q\<rparr>)))"

definition isr_syscall :: "outside \<Rightarrow> kernel \<Rightarrow> kernel outcome" where
  "isr_syscall env k = (case curr k of
     None \<Rightarrow> Panic ''_isr_syscall: null _current''
   | Some c \<Rightarrow>
       if ctx (pcbs k c) = 0 then Panic ''_isr_syscall: null _current context''
       else obind (get_RET c k) (\<lambda>n.
         let num = (if unat n \<ge> N_SYSCALLS then SYS_exit else unat n) in
         obind ((syscall_tbl env ! num) c k) (\<lambda>k1. Ok (outb PIC_MASTER_CMD_PORT PIC_EOI k1))))"

subsection \<open>Words of the user\<close>

text \<open>
  A word below the kernel heap that is mapped, in a frame that is not used as a page table: what
  is written there does not change any translation.
\<close>

definition walk_words :: "vmem \<Rightarrow> u32 set" where
  "walk_words v = {a. \<exists>b. a = page_base (cr3 v) + 4 * pd_idx b \<or>
     a = page_base (pmem v (page_base (cr3 v) + 4 * pd_idx b)) + 4 * pt_idx b}"

definition plain_word :: "u32 \<Rightarrow> kernel \<Rightarrow> bool" where
  "plain_word a k \<longleftrightarrow> a < HEAP_START_LOCATION \<and> (\<exists>pa. translate (vm k) a = Some pa \<and> pa \<notin> walk_words (vm k))"

definition poke :: "u32 \<Rightarrow> u32 \<Rightarrow> kernel \<Rightarrow> kernel" where
  "poke a x k = k\<lparr>vm := (vm k)\<lparr>pmem := (pmem (vm k))(the (translate (vm k) a) := x)\<rparr>\<rparr>"

lemma walk_write:
  assumes "pa \<notin> walk_words v"
  shows "translate (v\<lparr>pmem := (pmem v)(pa := x)\<rparr>) b = translate v b" "walk_words (v\<lparr>pmem := (pmem v)(pa := x)\<rparr>) = walk_words v"
proof -
  have 1: "page_base (cr3 v) + 4 * pd_idx b \<noteq> pa"
    "page_base (pmem v (page_base (cr3 v) + 4 * pd_idx b)) + 4 * pt_idx b \<noteq> pa" for b
    using assms unfolding walk_words_def by blast+
  then show "translate (v\<lparr>pmem := (pmem v)(pa := x)\<rparr>) b = translate v b" by (simp add: translate_def Let_def)
  show "walk_words (v\<lparr>pmem := (pmem v)(pa := x)\<rparr>) = walk_words v" using 1 by (simp add: walk_words_def)
qed

lemma kstore_plain: "plain_word a k \<Longrightarrow> kstore a x k = Ok (poke a x k)"
  by (auto simp: plain_word_def kstore_def in_heap_def vwrite_def poke_def)

lemma poke_fields [simp]:
  "pcbs (poke a x k) = pcbs k" "qh (poke a x k) = qh k" "qh_of (poke a x k) = qh_of k" "ready (poke a x k) = ready k"
  "sleeping (poke a x k) = sleeping k" "system_time (poke a x k) = system_time k" "curr (poke a x k) = curr k"
  "in_heap b (poke a x k) = in_heap b k" "cr3 (vm (poke a x k)) = cr3 (vm k)"
  by (simp_all add: poke_def qh_of_def in_heap_def)

lemma poke_plain:
  assumes "plain_word a k"
  shows "translate (vm (poke a x k)) b = translate (vm k) b" "plain_word b (poke a x k) = plain_word b k"
proof -
  obtain pa where pa: "translate (vm k) a = Some pa" "pa \<notin> walk_words (vm k)" using assms by (auto simp: plain_word_def)
  then show t: "translate (vm (poke a x k)) b = translate (vm k) b" for b
    using walk_write [OF pa(2)] by (simp add: poke_def)
  have "walk_words (vm (poke a x k)) = walk_words (vm k)" using walk_write [OF pa(2)] pa(1) by (simp add: poke_def)
  then show "plain_word b (poke a x k) = plain_word b k" unfolding plain_word_def t by simp
qed

lemma kload_poke:
  assumes "plain_word a k" "plain_word b k"
  shows "kload b (poke a x k) = (if translate (vm k) b = translate (vm k) a then Ok x else kload b k)"
  using assms poke_plain(1) [OF assms(1), of x b]
  by (auto simp: plain_word_def kload_def in_heap_def vread_def) (auto simp: poke_def)

text \<open>
  The words a system call reads and writes: the return value, the first argument, and what it
  points to; the three do not share memory.
\<close>

definition call_frame :: "nat \<Rightarrow> u32 \<Rightarrow> kernel \<Rightarrow> bool" where
  "call_frame p a k \<longleftrightarrow>
     plain_word (ctx (pcbs k p) + 48) k \<and> plain_word (ctx (pcbs k p) + 76) k \<and> plain_word a k \<and> ARG p 1 k = Ok a \<and>
     translate (vm k) a \<noteq> translate (vm k) (ctx (pcbs k p) + 48) \<and>
     translate (vm k) (ctx (pcbs k p) + 76) \<noteq> translate (vm k) (ctx (pcbs k p) + 48)"

lemma put_info_frame:
  assumes "call_frame p a k"
  shows "obind (set_RET p r k) (put_info p x) = Ok (poke a x (poke (ctx (pcbs k p) + 48) r k))"
    "get_RET p (poke a x (poke (ctx (pcbs k p) + 48) r k)) = Ok r"
    "kload a (poke a x (poke (ctx (pcbs k p) + 48) r k)) = Ok x"
proof -
  let ?r = "ctx (pcbs k p) + 48" and ?g = "ctx (pcbs k p) + 76"
  note f = assms [unfolded call_frame_def]
  have ne: "translate (vm k) a \<noteq> translate (vm k) ?r" using f by blast
  let ?k = "poke ?r r k"
  have pl: "plain_word b ?k = plain_word b k" for b using poke_plain(2) f by blast
  have t: "translate (vm ?k) b = translate (vm k) b" for b using poke_plain(1) f by blast
  have "kload ?g ?k = kload ?g k" using kload_poke [of ?r k ?g r] f by simp
  then have "ARG p 1 ?k = Ok a" using f by (simp add: ARG_def add.assoc)
  then show "obind (set_RET p r k) (put_info p x) = Ok (poke a x ?k)"
    using f pl by (simp add: set_RET_def put_info_def kstore_plain)
  have "kload ?r ?k = Ok r" using kload_poke [of ?r k ?r r] f by simp
  then show "get_RET p (poke a x ?k) = Ok r"
    using kload_poke [of a ?k ?r x] f pl t not_sym [OF ne] by (simp add: get_RET_def)
  show "kload a (poke a x ?k) = Ok x" using kload_poke [of a ?k a x] f pl by simp
qed

text \<open>
  The five calls that ask for a property of the process return SUCCESS and leave the property in
  the word the caller named; they change nothing else but the two words.
\<close>

theorem sys_get_correct:
  assumes F: "call_frame p a k"
    and h: "(h, x) \<in> {(sys_get_pid, ucast (pid (pcbs k p))), (sys_get_ppid, ucast (ppid (pcbs k p))),
       (sys_get_priority, ucast (priority (pcbs k p))), (sys_get_state, ucast (state_code (state (pcbs k p)))),
       (sys_get_time, system_time k)}"
  shows "\<exists>k'. h p k = Ok k' \<and> get_RET p k' = Ok (status_code SUCCESS) \<and> kload a k' = Ok x \<and>
    pcbs k' = pcbs k \<and> qh k' = qh k \<and> curr k' = curr k"
proof -
  let ?r = "ctx (pcbs k p) + 48"
  let ?k1 = "poke ?r (status_code SUCCESS) k"
  have s: "set_RET p (status_code SUCCESS) k = Ok ?k1" using F by (simp add: set_RET_def call_frame_def kstore_plain)
  have "h p k = put_info p x ?k1"
    using h by (auto simp: sys_get_pid_def sys_get_ppid_def sys_get_priority_def sys_get_state_def sys_get_time_def s [simplified])
  then have "h p k = Ok (poke a x ?k1)" using put_info_frame(1) [OF F, of "status_code SUCCESS" x] s by simp
  then show ?thesis using put_info_frame(2,3) [OF F] by auto
qed

subsection \<open>Killing\<close>

lemma find_victim_spec:
  "case find_victim n P js of
     None \<Rightarrow> \<forall>i\<in>set js. ucast (pid (P i)) = n \<longrightarrow> state (P i) = FREE
   | Some i \<Rightarrow> i \<in> set js \<and> ucast (pid (P i)) = n \<and> state (P i) \<noteq> FREE"
  by (induction js) (auto split: option.splits)

lemma sys_kill_found:
  assumes "plain_word (ctx (pcbs k p) + 48) k" "ARG p 1 k = Ok n" "find_victim n (pcbs k) [0..<N_PCBS] = Some i"
  defines "k' \<equiv> poke (ctx (pcbs k p) + 48) (status_code SUCCESS) (upd_pcb i (\<lambda>b. b\<lparr>state := KILLED\<rparr>) k)"
  shows "sys_kill p k = Ok k'" "get_RET p k' = Ok (status_code SUCCESS)"
proof -
  let ?k = "upd_pcb i (\<lambda>b. b\<lparr>state := KILLED\<rparr>) k"
  have c: "ctx (pcbs ?k q) = ctx (pcbs k q)" for q by simp
  have pl: "plain_word (ctx (pcbs k p) + 48) ?k" using assms(1) by (simp add: plain_word_def)
  show "sys_kill p k = Ok k'"
    using assms(2,3) kstore_plain [OF pl] unfolding k'_def by (simp add: sys_kill_def set_RET_def del: upd_pcb_fields add: c)
  show "get_RET p k' = Ok (status_code SUCCESS)"
    using kload_poke [OF pl pl] unfolding get_RET_def k'_def poke_fields c by simp
qed

text \<open>
  C8: the kill call marks one live process with the given id as killed and reports success, or reports that
  there is none and changes no process; the victim stays in whatever queue it is in.
\<close>

theorem sys_kill_correct:
  assumes "plain_word (ctx (pcbs k p) + 48) k" "ARG p 1 k = Ok n"
  shows "\<exists>k'. sys_kill p k = Ok k' \<and> qh k' = qh k \<and>
    (if \<exists>i<N_PCBS. ucast (pid (pcbs k i)) = n \<and> state (pcbs k i) \<noteq> FREE
     then get_RET p k' = Ok (status_code SUCCESS) \<and>
       (\<exists>i<N_PCBS. ucast (pid (pcbs k i)) = n \<and> state (pcbs k i) \<noteq> FREE \<and> pcbs k' = (pcbs k)(i := (pcbs k i)\<lparr>state := KILLED\<rparr>))
     else get_RET p k' = Ok (status_code NOT_FOUND) \<and> pcbs k' = pcbs k)"
proof -
  have r: "get_RET p (poke (ctx (pcbs k p) + 48) x k) = Ok x" for x
    using kload_poke [OF assms(1) assms(1)] by (simp add: get_RET_def)
  note v = find_victim_spec [where n = n and P = "pcbs k" and js = "[0..<N_PCBS]"]
  show ?thesis
  proof (cases "find_victim n (pcbs k) [0..<N_PCBS]")
    case None
    then have "\<not> (\<exists>i<N_PCBS. ucast (pid (pcbs k i)) = n \<and> state (pcbs k i) \<noteq> FREE)" using v by auto
    then show ?thesis using None assms r by (simp add: sys_kill_def set_RET_def kstore_plain)
  next
    case (Some i)
    have i: "i < N_PCBS" "ucast (pid (pcbs k i)) = n" "state (pcbs k i) \<noteq> FREE" using v Some by auto
    then show ?thesis using sys_kill_found [OF assms Some] by auto
  qed
qed

text \<open>
  C39: the mark does not survive the sleep queue: when a sleeping process is killed and its time
  comes, the clock schedules it, which makes it ready again, so the kill is lost.
\<close>

theorem killed_sleeper_revived:
  assumes W: "plain_word (ctx (pcbs k p) + 48) k" "ARG p 1 k = Ok n" and v: "find_victim n (pcbs k) [0..<N_PCBS] = Some i"
    and R: "krep k A L" and S: "A (sleeping k) = Some (c, es)" and Q: "ready_spec k A Rq"
    and ns: "sleeping k \<notin> ready k ` {..<4}" and sch: "schedulable (pcbs k) es" and cu: "curr k = Some p"
    and qu: "quantum (pcbs k p) \<noteq> 0" and w: "(PcbP i, key) \<in> set (takeWhile (\<lambda>e. snd e \<le> system_time k + 1) es)"
  shows "\<exists>k1. sys_kill p k = Ok k1 \<and> state (pcbs k1 i) = KILLED \<and>
    ((\<exists>m. isr_clock k1 = Panic m) \<or> (\<exists>k2. isr_clock k1 = Ok k2 \<and> state (pcbs k2 i) = READY))"
proof -
  define k1 where "k1 = poke (ctx (pcbs k p) + 48) (status_code SUCCESS) (upd_pcb i (\<lambda>b. b\<lparr>state := KILLED\<rparr>) k)"
  have f: "pcbs k1 = (pcbs k)(i := (pcbs k i)\<lparr>state := KILLED\<rparr>)" "ready k1 = ready k" "sleeping k1 = sleeping k"
    "system_time k1 = system_time k" "curr k1 = curr k" "qh_of k1 = qh_of k" by (simp_all add: k1_def)
  have q: "quantum (make_ready ws (pcbs k1) p) \<noteq> 0" for ws using qu by (auto simp: make_ready_def f(1))
  have "krep k1 A L" "A (sleeping k1) = Some (c, es)" "ready_spec k1 A Rq" "sleeping k1 \<notin> ready k1 ` {..<4}"
    "schedulable (pcbs k1) es" "curr k1 = Some p"
    using R S Q ns sch cu unfolding f schedulable_upd by (simp_all add: krep_def ready_spec_def f(2,6))
  from isr_clock_wake [OF this] have
    "(\<exists>m. isr_clock k1 = Panic m) \<or> (\<exists>k2. isr_clock k1 = Ok k2 \<and> state (pcbs k2 i) = READY)"
  proof (elim disjE exE conjE)
    fix k3 A'
    assume 3: "pcbs k3 = make_ready (takeWhile (\<lambda>e. snd e \<le> system_time k1 + 1) es) (pcbs k1)"
      "isr_clock k1 = obind (if quantum (pcbs k3 p) < 1
             then obind (sched (Some p) k3) (\<lambda>(st, k4).
                    obind (if st \<noteq> SUCCESS then cleanup (Some p) k4 else Ok k4) dispatch)
             else Ok (upd_pcb p (\<lambda>b. b\<lparr>quantum := quantum b - 1\<rparr>) k3)) (\<lambda>k5.
        Ok (outb PIC_MASTER_CMD_PORT PIC_EOI k5))"
    have "\<not> quantum (pcbs k3 p) < 1" using q 3(1) by simp
    then have "isr_clock k1 = Ok (outb PIC_MASTER_CMD_PORT PIC_EOI (upd_pcb p (\<lambda>b. b\<lparr>quantum := quantum b - 1\<rparr>) k3))"
      unfolding 3(2) by simp
    moreover have "i \<in> as_proc ` set (takeWhile (\<lambda>e. snd e \<le> system_time k1 + 1) es)"
      using w f(4) by (force simp: as_proc_def)
    then have "state (pcbs k3 i) = READY" unfolding 3(1) make_ready_state by simp
    then have "state (pcbs (outb PIC_MASTER_CMD_PORT PIC_EOI (upd_pcb p (\<lambda>b. b\<lparr>quantum := quantum b - 1\<rparr>) k3)) i) = READY"
      by (auto simp: outb_def)
    ultimately show ?thesis by blast
  qed blast
  moreover have "sys_kill p k = Ok k1" unfolding k1_def by (rule sys_kill_found(1) [OF W v])
  moreover have "state (pcbs k1 i) = KILLED" by (simp add: f(1))
  ultimately show ?thesis by blast
qed

subsection \<open>Sleeping\<close>

text \<open>Where a process that sleeps or yields is put, before it is told so and the next one is dispatched.\<close>

lemma sleep_ready:
  assumes R: "krep k A L" and S: "A (sleeping k) = Some (CmpAscendUint, es)" and Q: "ready_spec k A Rq"
    and ns: "sleeping k \<notin> ready k ` {..<4}" and pr: "unat (priority (pcbs k p)) < 4"
    and live: "\<forall>i<4. live_ready k (Rq i)" and ne: "\<exists>i<4. Rq i \<noteq> []"
    and Rq': "Rq' = (\<lambda>i. Rq i @ (if time = 0 \<and> i = unat (priority (pcbs k p)) then [(PcbP p, ucast (pid (pcbs k p)))] else []))"
    and es': "es' = (if time = 0 then es else spec_insert CmpAscendUint (PcbP p) (system_time k + time) es)"
  defines "m \<equiv> if time = 0 then sched (Some p) k else kq_insert (sleeping k) (PcbP p) (system_time k + time) k"
  obtains msg where "m = Panic msg"
  | k1 A1 where "m = Ok (SUCCESS, k1)" "krep k1 A1 L" "A1 (sleeping k) = Some (CmpAscendUint, es')" "ready_spec k1 A1 Rq'"
      "\<forall>i<4. live_ready k1 (Rq' i)" "\<exists>i<4. Rq' i \<noteq> []" "ready k1 = ready k" "\<And>q. ctx (pcbs k1 q) = ctx (pcbs k q)"
      "\<And>a. plain_word a k1 = plain_word a k"
proof -
  have pl: "plain_word a (put_q h (k\<lparr>pcbs := P\<rparr>)) = plain_word a k" for a h P
  proof -
    have "translate (vm (put_q h (k\<lparr>pcbs := P\<rparr>))) = translate (vm k)" "walk_words (vm (put_q h (k\<lparr>pcbs := P\<rparr>))) = walk_words (vm k)"
      by (auto simp: translate_def walk_words_def put_q_def fun_eq_iff Let_def)
    then show ?thesis by (simp add: plain_word_def)
  qed
  show thesis
  proof (cases "time = 0")
    case True
    then have "Rq' = (\<lambda>i. Rq i @ (if i = unat (priority (pcbs k p)) then [(PcbP p, ucast (pid (pcbs k p)))] else []))"
      by (simp add: Rq')
    with R Q live pr show thesis
    proof (cases rule: yield_ready)
      case (1 msg)
      then show thesis using that(1) True by (simp add: m_def)
    next
      case (2 h k1 A1)
      then show thesis using True S ns pl [of _ h "(pcbs k)(p := (pcbs k p)\<lparr>state := READY\<rparr>)"]
        by (intro that(2) [of k1 A1]) (simp_all add: m_def es' upd_pcb_def)
    qed
  next
    case False
    then have Rq: "Rq' = Rq" by (simp add: Rq')
    from kq_insert_sim [OF R S, of "PcbP p" "system_time k + time"] show thesis
    proof cases
      case (1 msg)
      then show thesis using that(1) False by (simp add: m_def)
    next
      case (2 h)
      let ?A = "A(sleeping k \<mapsto> (CmpAscendUint, es'))"
      have "ready k i \<noteq> sleeping k" if "i < 4" for i using ns that by (metis imageI lessThan_iff)
      then have "ready_spec (put_q h k) ?A Rq'" using Q by (simp add: ready_spec_def Rq)
      moreover have "\<forall>i<4. live_ready (put_q h k) (Rq' i)" using live by (simp add: live_ready_def Rq)
      ultimately show thesis using 2 False ne pl [of _ h "pcbs k"] by (intro that(2) [of "put_q h k" ?A]) (simp_all add: m_def es' Rq)
    qed
  qed
qed

text \<open>
  The sleep call with a time puts the caller into the sleep queue, in the order of the wake-up times, and
  the next ready process runs; with time 0 it goes to the end of its ready queue instead.
\<close>

theorem sys_msleep_correct:
  assumes W: "plain_word (ctx (pcbs k p) + 48) k" and t: "ARG p 1 k = Ok time"
    and R: "krep k A L" and S: "A (sleeping k) = Some (CmpAscendUint, es)" and Q: "ready_spec k A Rq"
    and ns: "sleeping k \<notin> ready k ` {..<4}" and pr: "unat (priority (pcbs k p)) < 4"
    and live: "\<forall>i<4. live_ready k (Rq i)" and ne: "\<exists>i<4. Rq i \<noteq> []"
  defines "Rq' \<equiv> \<lambda>i. Rq i @ (if time = 0 \<and> i = unat (priority (pcbs k p)) then [(PcbP p, ucast (pid (pcbs k p)))] else [])"
    and "es' \<equiv> if time = 0 then es else spec_insert CmpAscendUint (PcbP p) (system_time k + time) es"
  shows "(\<exists>m. sys_msleep p k = Panic m) \<or> (\<exists>k' A' i q key rest. sys_msleep p k = Ok k' \<and> krep k' A' L \<and>
    A' (sleeping k) = Some (CmpAscendUint, es') \<and> i < 4 \<and> (\<forall>j<i. Rq' j = []) \<and> Rq' i = (PcbP q, key) # rest \<and>
    curr k' = Some q \<and> state (pcbs k' q) = RUNNING \<and> ready_spec k' A' (Rq'(i := rest)))"
proof -
  have e: "Rq' = (\<lambda>i. Rq i @ (if time = 0 \<and> i = unat (priority (pcbs k p)) then [(PcbP p, ucast (pid (pcbs k p)))] else []))"
    "es' = (if time = 0 then es else spec_insert CmpAscendUint (PcbP p) (system_time k + time) es)"
    by (simp_all add: Rq'_def es'_def)
  from R S Q ns pr live ne e show ?thesis
  proof (cases rule: sleep_ready)
    case (1 msg)
    then show ?thesis by (simp add: sys_msleep_def t)
  next
    case (2 k1 A1)
    let ?r = "ctx (pcbs k p) + 48"
    let ?k2 = "poke ?r (status_code SUCCESS) k1"
    have s: "set_RET p (status_code SUCCESS) k1 = Ok ?k2" using kstore_plain 2(8,9) W by (simp add: set_RET_def)
    have "krep ?k2 A1 L" "ready_spec ?k2 A1 Rq'" "\<forall>i<4. live_ready ?k2 (Rq' i)"
      using 2(2,4,5) by (simp_all add: krep_def ready_spec_def live_ready_def)
    then obtain i q key rest k' where d: "dispatch ?k2 = Ok k'" "i < 4" "\<forall>j<i. Rq' j = []" "Rq' i = (PcbP q, key) # rest"
      "krep k' (A1(ready ?k2 i \<mapsto> (CmpNull, rest))) L" "ready_spec k' (A1(ready ?k2 i \<mapsto> (CmpNull, rest))) (Rq'(i := rest))"
      "curr k' = Some q" "pcbs k' = (pcbs ?k2)(q := (pcbs ?k2 q)\<lparr>state := RUNNING, quantum := STD_QUANTUM\<rparr>)"
      using 2(6) by (rule dispatch_spec)
    have "sys_msleep p k = Ok k'" using 2(1) s d(1) by (simp add: sys_msleep_def t)
    moreover have "(A1(ready ?k2 i \<mapsto> (CmpNull, rest))) (sleeping k) = Some (CmpAscendUint, es')"
      using 2(3,7) ns d(2) by (auto simp: image_iff)
    moreover have "state (pcbs k' q) = RUNNING" using d(8) by simp
    ultimately show ?thesis using d(2-7) by blast
  qed
qed

subsection \<open>Witnesses\<close>

text \<open>The argument of the call of process 0 is stored behind its context.\<close>

definition sys_demo :: "u32 \<Rightarrow> kernel" where
  "sys_demo x = poke 0x40004C x (table_kernel demo_table (demo_procs 5))"

lemma demo_walk: "a \<in> walk_words demo_vm \<Longrightarrow> unat a < 0x3000"
proof -
  assume "a \<in> walk_words demo_vm"
  have m: "(0x1000 :: u32) AND 0xFFF = 0" "(0x2000 :: u32) AND 0xFFF = 0" "page_base 0x1000 = 0x1000" "page_base 0 = 0"
    by code_simp+
  have c: "page_base (cr3 demo_vm) = 0x1000" using m by (simp add: demo_vm_def)
  obtain b where "a = 0x1000 + 4 * pd_idx b \<or> a = page_base (pmem demo_vm (0x1000 + 4 * pd_idx b)) + 4 * pt_idx b"
    using \<open>a \<in> walk_words demo_vm\<close> unfolding walk_words_def c by blast
  moreover have "pmem demo_vm (0x1000 + 4 * pd_idx b) = dir_entry demo_vm (pd_idx b)"
    by (simp add: dir_entry_def demo_vm_def)
  then have "page_base (pmem demo_vm (0x1000 + 4 * pd_idx b)) \<in> {0x1000, 0x2000, 0}"
    using m demo_bases by (simp add: demo_entries idx_bounds)
  ultimately have "\<exists>f i. a = f + 4 * i \<and> f \<in> {0x1000, 0x2000, 0} \<and> unat i < 1024"
    using idx_bounds by blast
  then obtain f i where f: "a = f + 4 * i" "f \<in> {0x1000, 0x2000, 0}" "unat i < 1024" by blast
  then have "unat a = unat f + 4 * unat i" using m by (auto simp: frame_unat unat_4_times)
  then show ?thesis using f(2,3) by auto
qed

lemma demo_plain: "plain_word 0x400030 (table_kernel demo_table P)" "plain_word 0x40004C (table_kernel demo_table P)"
  "plain_word 0x400080 (table_kernel demo_table P)" "translate demo_vm 0x400030 = Some 0x5030"
  "translate demo_vm 0x40004C = Some 0x504C" "translate demo_vm 0x400080 = Some 0x5080"
proof -
  show t: "translate demo_vm 0x400030 = Some 0x5030" "translate demo_vm 0x40004C = Some 0x504C"
    "translate demo_vm 0x400080 = Some 0x5080" by code_simp+
  have "(0x5030 :: u32) \<notin> walk_words demo_vm" "(0x504C :: u32) \<notin> walk_words demo_vm" "(0x5080 :: u32) \<notin> walk_words demo_vm"
    using demo_walk by fastforce+
  then show "plain_word 0x400030 (table_kernel demo_table P)" "plain_word 0x40004C (table_kernel demo_table P)"
    "plain_word 0x400080 (table_kernel demo_table P)" using t by (simp_all add: plain_word_def)
qed

lemma sys_demo_fields:
  "pcbs (sys_demo x) = demo_procs 5" "ctx (demo_procs 5 0) = 0x400000" "ready (sys_demo x) = slot"
  "sleeping (sys_demo x) = slot 5" "system_time (sys_demo x) = 100" "curr (sys_demo x) = Some 0"
  "krep (sys_demo x) (table_spec demo_table) (table_rest demo_table)"
  "ready_spec (sys_demo x) (table_spec demo_table) demo_ready"
  "plain_word 0x400030 (sys_demo x)" "plain_word 0x40004C (sys_demo x)" "plain_word 0x400080 (sys_demo x)"
  "ARG 0 1 (sys_demo x) = Ok x" "translate (vm (sys_demo x)) = translate demo_vm"
proof -
  let ?k = "table_kernel demo_table (demo_procs 5)"
  show "pcbs (sys_demo x) = demo_procs 5" "ctx (demo_procs 5 0) = 0x400000" "ready (sys_demo x) = slot"
    "sleeping (sys_demo x) = slot 5" "system_time (sys_demo x) = 100" "curr (sys_demo x) = Some 0"
    by (simp_all add: sys_demo_def demo_procs_def demo_pcb_def)
  have "krep ?k (table_spec demo_table) (table_rest demo_table)" by simp
  then show "krep (sys_demo x) (table_spec demo_table) (table_rest demo_table)" by (simp add: krep_def sys_demo_def)
  show "ready_spec (sys_demo x) (table_spec demo_table) demo_ready"
    using demo_ready_spec by (simp add: ready_spec_def sys_demo_def)
  show "plain_word 0x400030 (sys_demo x)" "plain_word 0x40004C (sys_demo x)" "plain_word 0x400080 (sys_demo x)"
    unfolding sys_demo_def poke_plain(2) [OF demo_plain(2)] by (rule demo_plain)+
  have pw: "plain_word 0x40004C ?k" by (rule demo_plain)
  show "ARG 0 1 (sys_demo x) = Ok x"
    using kload_poke [OF pw pw, of x]
    by (simp add: ARG_def sys_demo_def demo_procs_def demo_pcb_def)
  show "translate (vm (sys_demo x)) = translate demo_vm"
    using poke_plain(1) [OF demo_plain(2)] by (simp add: sys_demo_def fun_eq_iff)
qed

theorem sys_get_correct_witness:
  "\<exists>k'. sys_get_time 0 (sys_demo 0x400080) = Ok k' \<and> kload 0x400080 k' = Ok 100"
proof -
  have F: "call_frame 0 0x400080 (sys_demo 0x400080)"
    unfolding call_frame_def by (simp add: sys_demo_fields demo_plain)
  show ?thesis using sys_get_correct [OF F, of sys_get_time 100] by (auto simp: sys_demo_fields)
qed

theorem sys_kill_correct_witness:
  "\<exists>k'. sys_kill 0 (sys_demo 5) = Ok k' \<and> get_RET 0 k' = Ok 0"
proof -
  have 1: "plain_word (ctx (pcbs (sys_demo 5) 0) + 48) (sys_demo 5)" by (simp add: sys_demo_fields)
  have "ucast (pid (pcbs (sys_demo 5) 5)) = (5 :: u32) \<and> state (pcbs (sys_demo 5) 5) \<noteq> FREE"
    by (simp add: sys_demo_fields demo_procs_def demo_pcb_def)
  then have 2: "\<exists>i<25. ucast (pid (pcbs (sys_demo 5) i)) = (5 :: u32) \<and> state (pcbs (sys_demo 5) i) \<noteq> FREE"
    by (intro exI [of _ 5]) simp
  from sys_kill_correct [OF 1 sys_demo_fields(12)] show ?thesis unfolding if_P [OF 2] by auto
qed

theorem killed_sleeper_revived_witness:
  "\<exists>k1. sys_kill 0 (sys_demo 5) = Ok k1 \<and> state (pcbs k1 5) = KILLED \<and>
    ((\<exists>m. isr_clock k1 = Panic m) \<or> (\<exists>k2. isr_clock k1 = Ok k2 \<and> state (pcbs k2 5) = READY))"
proof (rule killed_sleeper_revived [OF _ sys_demo_fields(12) _ sys_demo_fields(7) _ sys_demo_fields(8)])
  show "plain_word (ctx (pcbs (sys_demo 5) 0) + 48) (sys_demo 5)" by (simp add: sys_demo_fields)
  have "[0..<25] = [0,1,2,3,4,5] @ [6..<25]" by code_simp
  then show "find_victim 5 (pcbs (sys_demo 5)) [0..<25] = Some 5"
    by (simp add: sys_demo_fields demo_procs_def demo_pcb_def)
  show "table_spec demo_table (sleeping (sys_demo 5)) = Some (CmpAscendUint, [(PcbP 5, 90)])"
    using demo_sleeping by (simp add: sys_demo_fields)
  show "schedulable (pcbs (sys_demo 5)) [(PcbP 5, 90)]" using demo_schedulable by (simp add: sys_demo_fields)
qed (auto simp: sys_demo_fields demo_procs_def)

theorem sys_msleep_correct_witness:
  "(\<exists>m. sys_msleep 0 (sys_demo 5) = Panic m) \<or> (\<exists>k' q. sys_msleep 0 (sys_demo 5) = Ok k' \<and> curr k' = Some q)"
proof -
  have 1: "plain_word (ctx (pcbs (sys_demo 5) 0) + 48) (sys_demo 5)" by (simp add: sys_demo_fields)
  have 2: "table_spec demo_table (sleeping (sys_demo 5)) = Some (CmpAscendUint, [(PcbP 5, 90)])"
    using demo_sleeping by (simp add: sys_demo_fields)
  have 3: "sleeping (sys_demo 5) \<notin> ready (sys_demo 5) ` {..<4}" by (auto simp: sys_demo_fields)
  have 4: "unat (priority (pcbs (sys_demo 5) 0)) < 4" by (simp add: sys_demo_fields demo_procs_def demo_pcb_def)
  have 5: "\<forall>i<4. live_ready (sys_demo 5) (demo_ready i)"
    by (simp add: live_ready_def sys_demo_fields demo_ready_def demo_procs_def)
  have 6: "\<exists>i<4. demo_ready i \<noteq> []" by (simp add: demo_ready_def)
  show ?thesis using sys_msleep_correct [OF 1 sys_demo_fields(12,7) 2 sys_demo_fields(8) 3 4 5 6] by blast
qed

end
