(* ===== verification/Console.thy ===== *)
theory Console
  imports Prelude "HOL-Library.Signed_Division"
begin

text \<open>
  Console input and output, \<^verbatim>\<open>src/kernel/c_io.c\<close>: the scrolling region of the screen, formatted
  output and the keyboard. The screen memory is a map from addresses to words, the port writes that
  move the hardware cursor are recorded. A string is the list of its bytes; a format string is given
  with its terminator, so that reading past it is a \<open>Fault\<close>. \<^verbatim>\<open>int\<close> values are words of 32 bits read
  with \<^const>\<open>sint\<close>. The loops over columns end because no column bound is the largest word.
\<close>

subsection \<open>The screen\<close>

record screen =
  scroll_min_x :: u32
  scroll_min_y :: u32
  scroll_max_x :: u32
  scroll_max_y :: u32
  curr_x :: u32
  curr_y :: u32
  min_x :: u32
  min_y :: u32
  max_x :: u32
  max_y :: u32
  video :: "u32 \<Rightarrow> u16"
  cursor_ports :: "(u32 \<times> u8) list"

definition video_addr :: "u32 \<Rightarrow> u32 \<Rightarrow> u32" where
  "video_addr x y = 0xB8000 + 2 * (y * 80 + x)"

definition bound :: "u32 \<Rightarrow> u32 \<Rightarrow> u32 \<Rightarrow> u32" where
  "bound lo v hi = (let w = (if v < lo then lo else v) in if w > hi then hi else w)"

definition c_setcursor :: "screen \<Rightarrow> screen" where
  "c_setcursor s =
     (let y = (if curr_y s > scroll_max_y s then scroll_max_y s else curr_y s); addr = y * 80 + curr_x s in
      s\<lparr>cursor_ports := cursor_ports s @ [(0x3D4, 0x0E), (0x3D5, ucast (drop_bit 8 addr AND 0xFF)), (0x3D4, 0x0F), (0x3D5, ucast (addr AND 0xFF))]\<rparr>)"

definition putchar_raw :: "u32 \<Rightarrow> u32 \<Rightarrow> u32 \<Rightarrow> screen \<Rightarrow> screen" where
  "putchar_raw x y c s =
     (if x \<le> max_x s \<and> y \<le> max_y s
      then s\<lparr>video := (video s)(video_addr x y := (if c > 0xFF then ucast c else ucast c OR 0x0700))\<rparr>
      else s)"

definition c_setscroll :: "u32 \<Rightarrow> u32 \<Rightarrow> u32 \<Rightarrow> u32 \<Rightarrow> screen \<Rightarrow> screen" where
  "c_setscroll x0 y0 x1 y1 s =
     (let nx = bound (min_x s) x0 (max_x s); ny = bound (min_y s) y0 (max_y s) in
      c_setcursor (s\<lparr>scroll_min_x := nx, scroll_min_y := ny, scroll_max_x := bound nx x1 (max_x s),
        scroll_max_y := bound ny y1 (max_y s), curr_x := nx, curr_y := ny\<rparr>))"

definition c_moveto :: "u32 \<Rightarrow> u32 \<Rightarrow> screen \<Rightarrow> screen" where
  "c_moveto x y s = c_setcursor (s\<lparr>curr_x := bound (scroll_min_x s) (x + scroll_min_x s) (scroll_max_x s),
     curr_y := bound (scroll_min_y s) (y + scroll_min_y s) (scroll_max_y s)\<rparr>)"

text \<open>The columns from \<open>x\<close> to \<open>limit\<close>.\<close>

definition columns :: "u32 \<Rightarrow> u32 \<Rightarrow> u32 list" where
  "columns x limit = map of_nat [unat x..<Suc (unat limit)]"

definition blank_columns :: "u32 list \<Rightarrow> u32 \<Rightarrow> screen \<Rightarrow> screen" where
  "blank_columns xs y s = fold (\<lambda>x. putchar_raw x y 32) xs s"

definition c_putchar_at :: "u32 \<Rightarrow> u32 \<Rightarrow> u32 \<Rightarrow> screen \<Rightarrow> screen" where
  "c_putchar_at x y c s =
     (if c AND 0x7F = 10 then
        let limit = (if x > scroll_max_x s then max_x s
                     else if x \<ge> scroll_min_x s then scroll_max_x s else scroll_min_x s - 1) in
        blank_columns (columns x limit) y s
      else putchar_raw x y c s)"

text \<open>Clearing and scrolling the region, cell by cell.\<close>

definition c_clearscroll :: "screen \<Rightarrow> screen" where
  "c_clearscroll s = fold (\<lambda>y s. fold (\<lambda>x s. s\<lparr>video := (video s)(video_addr x y := 0x0720)\<rparr>)
     (columns (scroll_min_x s) (scroll_max_x s)) s) (columns (scroll_min_y s) (scroll_max_y s)) s"

definition c_clearscreen :: "screen \<Rightarrow> screen" where
  "c_clearscreen s = fold (\<lambda>i s. s\<lparr>video := (video s)(video_addr (min_x s) (min_y s) + 2 * of_nat i := 0x0720)\<rparr>)
     [0..<unat ((max_y s - min_y s + 1) * (max_x s - min_x s + 1))] s"

definition copy_line :: "u32 \<Rightarrow> u32 \<Rightarrow> screen \<Rightarrow> screen" where
  "copy_line to from s = fold (\<lambda>x s. s\<lparr>video := (video s)(video_addr x to := video s (video_addr x from))\<rparr>)
     (columns (scroll_min_x s) (scroll_max_x s)) s"

definition blank_line :: "u32 \<Rightarrow> screen \<Rightarrow> screen" where
  "blank_line y s = fold (\<lambda>x s. s\<lparr>video := (video s)(video_addr x y := 0x0720)\<rparr>)
     (columns (scroll_min_x s) (scroll_max_x s)) s"

definition c_scroll :: "u32 \<Rightarrow> screen \<Rightarrow> screen" where
  "c_scroll lines s =
     (if lines > scroll_max_y s - scroll_min_y s
      then let s1 = c_clearscroll s in c_setcursor (s1\<lparr>curr_x := scroll_min_x s1, curr_y := scroll_min_y s1\<rparr>)
      else let s1 = fold (\<lambda>l. copy_line l (l + lines)) (columns (scroll_min_y s) (scroll_max_y s - lines)) s in
        fold blank_line (columns (scroll_max_y s - lines + 1) (scroll_max_y s)) s1)"

definition c_putchar :: "u32 \<Rightarrow> screen \<Rightarrow> screen" where
  "c_putchar c s0 =
     (let s = (if curr_y s0 > scroll_max_y s0
               then (c_scroll (curr_y s0 - scroll_max_y s0) s0)\<lparr>curr_y := scroll_max_y s0\<rparr> else s0);
          ch = c AND 0xFF;
          s1 = (if ch = 10 then
                  (blank_columns (columns (curr_x s) (scroll_max_x s)) (curr_y s) s)
                    \<lparr>curr_x := scroll_min_x s, curr_y := curr_y s + 1\<rparr>
                else if ch = 13 then s\<lparr>curr_x := scroll_min_x s\<rparr>
                else let s2 = (putchar_raw (curr_x s) (curr_y s) c s)\<lparr>curr_x := curr_x s + 1\<rparr> in
                  if curr_x s2 > scroll_max_x s2 then s2\<lparr>curr_x := scroll_min_x s2, curr_y := curr_y s2 + 1\<rparr> else s2)
      in c_setcursor s1)"

text \<open>The characters of a string are signed, so they are extended with their sign.\<close>

fun c_puts_at :: "u32 \<Rightarrow> u32 \<Rightarrow> u8 list \<Rightarrow> screen \<Rightarrow> screen" where
  "c_puts_at x y [] s = s"
| "c_puts_at x y (c # cs) s = (if c \<noteq> 0 \<and> x \<le> max_x s then c_puts_at (x + 1) y cs (c_putchar_at x y (scast c) s) else s)"

definition c_puts :: "u8 list \<Rightarrow> screen \<Rightarrow> screen" where
  "c_puts str s = fold (\<lambda>c. c_putchar (scast c)) (takeWhile (\<lambda>c. c \<noteq> 0) str) s"

definition c_io_init :: "screen \<Rightarrow> screen" where
  "c_io_init s = c_setcursor (s\<lparr>min_x := 0, min_y := 0, max_x := 79, max_y := 24, scroll_min_x := 0, scroll_min_y := 0,
     scroll_max_x := 79, scroll_max_y := 24, curr_x := 0, curr_y := 0\<rparr>)"

subsection \<open>Conversions\<close>

text \<open>The division of \<^verbatim>\<open>int\<close> truncates. \<^verbatim>\<open>-value\<close> of the least number is itself, which \<^verbatim>\<open>cvtdec0\<close> patches.\<close>

function cvtdec0 :: "int \<Rightarrow> u8 list" where
  "cvtdec0 value =
     (let q = value sdiv 10; q' = (if q < 0 then 214748364 else q); v' = (if q < 0 then 8 else value) in
      (if q' \<noteq> 0 then cvtdec0 q' else []) @ [word_of_int (v' smod 10 + 48)])"
  by auto
termination
proof (relation "measure (\<lambda>v. if v < 0 then 4294967296 else nat v)")
  fix u x :: int and xa xb
  assume *: "x = u sdiv 10" "xa = (if x < 0 then 214748364 else x)" "xa \<noteq> 0"
  show "(xa, u) \<in> measure (\<lambda>v. if v < 0 then 4294967296 else nat v)"
  proof (cases "u < 0")
    case True
    then have "x \<le> 0" using *(1) by (simp add: signed_divide_int_def sgn_if)
    then show ?thesis using True *(2,3) by (auto split: if_splits)
  next
    case False
    then have "x = u div 10" using *(1) by (auto simp: signed_divide_int_def sgn_if)
    then show ?thesis using False *(2,3) by (auto split: if_splits)
  qed
qed auto

definition cvtdec :: "int \<Rightarrow> u8 list" where
  "cvtdec value = (if value < 0 then 45 # cvtdec0 (if value = - (2 ^ 31) then value else - value) else cvtdec0 value)"

definition hexdigits :: "u8 list" where
  "hexdigits = [48, 49, 50, 51, 52, 53, 54, 55, 56, 57, 65, 66, 67, 68, 69, 70]"

text \<open>The loops over the digit positions; \<open>stored\<close> tells whether a digit was stored.\<close>

fun cvthex_loop :: "nat list \<Rightarrow> bool \<Rightarrow> u32 \<Rightarrow> u8 list" where
  "cvthex_loop [] stored value = []"
| "cvthex_loop (i # is) stored value =
     (let val = value AND 0xF0000000 in
      if i = 7 \<or> val \<noteq> 0 \<or> stored
      then hexdigits ! unat (drop_bit 28 val AND 0xF) # cvthex_loop is True (push_bit 4 value)
      else cvthex_loop is stored (push_bit 4 value))"

definition cvthex :: "u32 \<Rightarrow> u8 list" where
  "cvthex value = cvthex_loop [0..<8] False value"

fun cvtoct_loop :: "nat list \<Rightarrow> bool \<Rightarrow> u32 \<Rightarrow> u32 \<Rightarrow> u8 list" where
  "cvtoct_loop [] stored val value = []"
| "cvtoct_loop (i # is) stored val value =
     (let value' = push_bit 3 value; val' = signed_drop_bit 29 (value' AND 0xE0000000) in
      if i = 10 \<or> val \<noteq> 0 \<or> stored
      then hexdigits ! unat (val AND 7) # cvtoct_loop is True val' value'
      else cvtoct_loop is stored val' value')"

definition cvtoct :: "u32 \<Rightarrow> u8 list" where
  "cvtoct value = cvtoct_loop [0..<11] False (signed_drop_bit 30 (value AND 0xC0000000)) value"

subsection \<open>Formatted output\<close>

definition at_cursor :: "u32 \<Rightarrow> u32 \<Rightarrow> bool" where
  "at_cursor x y \<longleftrightarrow> \<not> (x \<noteq> -1 \<or> y \<noteq> -1)"

fun pad_loop :: "nat \<Rightarrow> u32 \<Rightarrow> u32 \<Rightarrow> u32 \<Rightarrow> screen \<Rightarrow> u32 \<times> screen" where
  "pad_loop 0 x y padchar s = (x, s)"
| "pad_loop (Suc n) x y padchar s =
     (if \<not> at_cursor x y then pad_loop n (x + 1) y padchar (c_putchar_at x y padchar s)
      else pad_loop n x y padchar (c_putchar padchar s))"

definition pad :: "u32 \<Rightarrow> u32 \<Rightarrow> u32 \<Rightarrow> u32 \<Rightarrow> screen \<Rightarrow> u32 \<times> screen" where
  "pad x y extra padchar s = pad_loop (nat (sint extra)) x y padchar s"

definition padstr :: "u32 \<Rightarrow> u32 \<Rightarrow> u8 list \<Rightarrow> u32 \<Rightarrow> u32 \<Rightarrow> bool \<Rightarrow> u32 \<Rightarrow> screen \<Rightarrow> u32 \<times> screen" where
  "padstr x y str len0 width leftadjust padchar s =
     (let len = (if sint len0 < 0 then of_nat (length (takeWhile (\<lambda>c. c \<noteq> 0) str)) else len0);
          extra = width - len;
          (x1, s1) = (if sint extra > 0 \<and> \<not> leftadjust then pad x y extra padchar s else (x, s));
          (x2, s2) = (if \<not> at_cursor x1 y then (x1 + len, c_puts_at x1 y str s1) else (x1, c_puts str s1)) in
      if sint extra > 0 \<and> leftadjust then pad x2 y extra padchar s2 else (x2, s2))"

text \<open>An argument is a word or a string; reading an argument that is not there or not of the type that is asked for is a \<open>Fault\<close>.\<close>

datatype arg = IntArg u32 | StrArg "u8 list"

definition int_arg :: "arg list \<Rightarrow> (u32 \<times> arg list) outcome" where
  "int_arg as = (case as of IntArg i # r \<Rightarrow> Ok (i, r) | _ \<Rightarrow> Fault)"

definition str_arg :: "arg list \<Rightarrow> (u8 list \<times> arg list) outcome" where
  "str_arg as = (case as of StrArg s # r \<Rightarrow> Ok (s, r) | _ \<Rightarrow> Fault)"

definition getc :: "u8 list \<Rightarrow> (u8 \<times> u8 list) outcome" where
  "getc f = (case f of [] \<Rightarrow> Fault | c # r \<Rightarrow> Ok (c, r))"

fun parse_width :: "u32 \<Rightarrow> u8 \<Rightarrow> u8 list \<Rightarrow> (u32 \<times> u8 \<times> u8 list) outcome" where
  "parse_width w ch fmt =
     (if sint ch \<ge> 48 \<and> sint ch \<le> 57
      then (case fmt of [] \<Rightarrow> Fault | c # r \<Rightarrow> parse_width (w * 10 + (scast ch - 48)) c r)
      else Ok (w, ch, fmt))"

definition parse_options :: "u8 list \<Rightarrow> (bool \<times> u32 \<times> u32 \<times> u8 \<times> u8 list) outcome" where
  "parse_options fmt =
     obind (getc fmt) (\<lambda>(ch, f1).
     obind (if ch = 45 then obind (getc f1) (\<lambda>(c, f). Ok (True, c, f)) else Ok (False, ch, f1)) (\<lambda>(left, ch, f2).
     obind (if ch = 48 then obind (getc f2) (\<lambda>(c, f). Ok (48, c, f)) else Ok (32, ch, f2)) (\<lambda>(pc, ch, f3).
     obind (parse_width 0 ch f3) (\<lambda>(w, ch, f4). Ok (left, pc, w, ch, f4)))))"

text \<open>One format code: the new column, the screen and the arguments that are left.\<close>

definition do_format :: "u32 \<Rightarrow> u32 \<Rightarrow> bool \<Rightarrow> u32 \<Rightarrow> u32 \<Rightarrow> u8 \<Rightarrow> arg list \<Rightarrow> screen \<Rightarrow> (u32 \<times> screen \<times> arg list) outcome" where
  "do_format x y left pc w ch as s =
     (if ch = 99 then obind (int_arg as) (\<lambda>(v, r).
        let (x', s') = padstr x y [ucast v] 1 w left pc s in Ok (x', s', r))
      else if ch = 100 then obind (int_arg as) (\<lambda>(v, r). let buf = cvtdec (sint v);
        (x', s') = padstr x y buf (of_nat (length buf)) w left pc s in Ok (x', s', r))
      else if ch = 115 then obind (str_arg as) (\<lambda>(str, r).
        let (x', s') = padstr x y str (-1) w left pc s in Ok (x', s', r))
      else if ch = 120 then obind (int_arg as) (\<lambda>(v, r). let buf = cvthex v;
        (x', s') = padstr x y buf (of_nat (length buf)) w left pc s in Ok (x', s', r))
      else if ch = 111 then obind (int_arg as) (\<lambda>(v, r). let buf = cvtoct v;
        (x', s') = padstr x y buf (of_nat (length buf)) w left pc s in Ok (x', s', r))
      else Ok (x, s, as))"

lemma getc_shorter: "getc f = Ok (c, r) \<Longrightarrow> length r < length f"
  by (auto simp: getc_def split: list.splits)

lemma parse_width_shorter: "parse_width w ch f = Ok (w', c, r) \<Longrightarrow> length r \<le> length f"
proof (induction w ch f rule: parse_width.induct)
  case (1 w ch f)
  then show ?case by (cases f) (fastforce split: if_splits simp del: parse_width.simps simp: parse_width.simps [of w ch])+
qed

lemma parse_options_shorter:
  assumes "parse_options f = Ok (a, b, c, d, r)"
  shows "length r < length f"
  using assms by (auto simp: parse_options_def dest!: getc_shorter parse_width_shorter split: if_splits simp del: parse_width.simps)

lemma obind_cong [fundef_cong]:
  "m = m' \<Longrightarrow> (\<And>x. m' = Ok x \<Longrightarrow> f x = g x) \<Longrightarrow> obind m f = obind m' g"
  by (cases m') simp_all

function do_printf :: "u32 \<Rightarrow> u32 \<Rightarrow> u8 list \<Rightarrow> arg list \<Rightarrow> screen \<Rightarrow> screen outcome" where
  "do_printf x y [] as s = Fault"
| "do_printf x y (ch # fmt) as s =
     (if ch = 0 then Ok s
      else if ch = 37 then
        obind (parse_options fmt) (\<lambda>(left, pc, w, code, rest).
        obind (do_format x y left pc w code as s) (\<lambda>(x', s', as'). do_printf x' y rest as' s'))
      else if \<not> at_cursor x y then
        let s' = c_putchar_at x y (scast ch) s in
        if ch = 10 then do_printf (scroll_min_x s') (y + 1) fmt as s'
        else if ch = 13 then do_printf (scroll_min_x s') y fmt as s'
        else do_printf (x + 1) y fmt as s'
      else do_printf x y fmt as (c_putchar (scast ch) s))"
  by pat_completeness auto
termination
  by (relation "measure (\<lambda>(x, y, f, as, s). length f)") (auto dest: parse_options_shorter)

definition c_printf_at :: "u32 \<Rightarrow> u32 \<Rightarrow> u8 list \<Rightarrow> arg list \<Rightarrow> screen \<Rightarrow> screen outcome" where
  "c_printf_at x y fmt as s = do_printf x y fmt as s"

definition c_printf :: "u8 list \<Rightarrow> arg list \<Rightarrow> screen \<Rightarrow> screen outcome" where
  "c_printf fmt as s = do_printf (-1) (-1) fmt as s"

subsection \<open>The keyboard\<close>

abbreviation (input) C_BUFSIZE :: nat where "C_BUFSIZE \<equiv> 200"
abbreviation (input) EOT :: u8 where "EOT \<equiv> 4"

record keyboard =
  input_buffer :: "nat \<Rightarrow> u8"
  next_char :: nat
  next_space :: nat
  shifted :: bool
  ctrl_mask :: u8

definition scan_code :: "bool \<Rightarrow> u8 list" where
  "scan_code shift = (if \<not> shift then
    [255, 27, 49, 50, 51, 52, 53, 54, 55, 56, 57, 48, 45, 61, 8, 9, 113, 119, 101, 114, 116, 121, 117,
     105, 111, 112, 91, 93, 10, 255, 97, 115, 100, 102, 103, 104, 106, 107, 108, 59, 39, 96, 255, 92,
     122, 120, 99, 118, 98, 110, 109, 44, 46, 47, 255, 42, 255, 32, 255, 255, 255, 255, 255, 255, 255,
     255, 255, 255, 255, 255, 255, 55, 56, 57, 45, 52, 53, 54, 43, 49, 50, 51, 48, 46] @ replicate 44 255
   else
    [255, 27, 33, 64, 35, 36, 37, 94, 38, 42, 40, 41, 95, 43, 8, 9, 81, 87, 69, 82, 84, 89, 85, 73, 79,
     80, 123, 125, 10, 255, 65, 83, 68, 70, 71, 72, 74, 75, 76, 58, 34, 126, 255, 124, 90, 88, 67, 86,
     66, 78, 77, 60, 62, 63, 255, 42, 255, 32, 255, 255, 255, 255, 255, 255, 255, 255, 255, 255, 255,
     255, 255, 55, 56, 57, 45, 52, 53, 54, 43, 49, 50, 51, 48, 46] @ replicate 44 255)"

definition c_increment :: "nat \<Rightarrow> nat" where
  "c_increment p = (if p + 1 \<ge> C_BUFSIZE then 0 else p + 1)"

text \<open>
  The test for undefined scan codes compares an unsigned character with the character constant 377 in octal, which is
  -1 as an \<^verbatim>\<open>int\<close>; the two are never equal.
\<close>

definition input_scan_code :: "u8 \<Rightarrow> keyboard \<Rightarrow> keyboard" where
  "input_scan_code code b =
     (if code = 0x2A \<or> code = 0x36 then b\<lparr>shifted := True\<rparr>
      else if code = 0xAA \<or> code = 0xB6 then b\<lparr>shifted := False\<rparr>
      else if code = 0x1D then b\<lparr>ctrl_mask := 0x1F\<rparr>
      else if code = 0x9D then b\<lparr>ctrl_mask := 0xFF\<rparr>
      else if code AND 0x80 = 0 then
        let c = scan_code (shifted b) ! unat code in
        if uint c \<noteq> -1 then
          let n = c_increment (next_space b) in
          if n \<noteq> next_char b
          then b\<lparr>input_buffer := (input_buffer b)(next_space b := c AND ctrl_mask b), next_space := n\<rparr>
          else b
        else b
      else b)"

text \<open>The keyboard interrupt: the code read from the port is handled, the interrupt controller is told.\<close>

definition c_keyboard_isr :: "u8 \<Rightarrow> keyboard \<Rightarrow> keyboard \<times> (u32 \<times> u8) list" where
  "c_keyboard_isr code b = (input_scan_code code b, [(0x20, 0x20)])"

text \<open>
  Waiting for a character: the codes that arrive, by polling or by the interrupt, are a parameter;
  when none is left the loop does not end.
\<close>

fun wait_key :: "u8 list \<Rightarrow> keyboard \<Rightarrow> (u8 list \<times> keyboard) outcome" where
  "wait_key codes b =
     (if next_char b = next_space b
      then (case codes of [] \<Rightarrow> Diverge | c # r \<Rightarrow> wait_key r (input_scan_code c b))
      else Ok (codes, b))"

definition c_getchar :: "u8 list \<Rightarrow> keyboard \<Rightarrow> screen \<Rightarrow> (u8 \<times> u8 list \<times> keyboard \<times> screen) outcome" where
  "c_getchar codes b s =
     obind (wait_key codes b) (\<lambda>(codes', b1).
     let c = input_buffer b1 (next_char b1); b2 = b1\<lparr>next_char := c_increment (next_char b1)\<rparr> in
     Ok (c, codes', b2, if c \<noteq> EOT then c_putchar (scast c) s else s))"

fun c_gets :: "nat \<Rightarrow> u8 list \<Rightarrow> keyboard \<Rightarrow> screen \<Rightarrow> (u8 list \<times> u8 list \<times> keyboard \<times> screen) outcome" where
  "c_gets n codes b s =
     (if n > 1 then
        obind (c_getchar codes b s) (\<lambda>(ch, codes1, b1, s1).
          if ch = EOT then Ok ([], codes1, b1, s1)
          else if ch = 10 then Ok ([ch], codes1, b1, s1)
          else obind (c_gets (n - 1) codes1 b1 s1) (\<lambda>(cs, r). Ok (ch # cs, r)))
      else Ok ([], codes, b, s))"

definition c_input_queue :: "keyboard \<Rightarrow> int" where
  "c_input_queue b = (let n = int (next_space b) - int (next_char b) in if n < 0 then n + 200 else n)"

subsection \<open>Numbers are printed as they are\<close>

text \<open>Reading a printed number back.\<close>

definition digit_value :: "u8 \<Rightarrow> int" where
  "digit_value c = (if 48 \<le> uint c \<and> uint c \<le> 57 then uint c - 48 else uint c - 55)"

definition value_of :: "int \<Rightarrow> u8 list \<Rightarrow> int" where
  "value_of base cs = foldl (\<lambda>n c. base * n + digit_value c) 0 cs"

definition decimal_value :: "u8 list \<Rightarrow> int" where
  "decimal_value cs = (case cs of [] \<Rightarrow> 0 | c # r \<Rightarrow> if c = 45 then - value_of 10 r else value_of 10 cs)"

lemma value_of_snoc [simp]: "value_of b (cs @ [c]) = b * value_of b cs + digit_value c" "value_of b [] = 0"
  by (simp_all add: value_of_def)

declare cvtdec0.simps [simp del]

definition dec_char :: "int \<Rightarrow> u8" where
  "dec_char d = word_of_int (d + 48)"

lemma cvtdec0_step:
  assumes "0 \<le> v"
  shows "cvtdec0 v = (if v < 10 then [] else cvtdec0 (v div 10)) @ [dec_char (v mod 10)]"
proof -
  have "v sdiv 10 = v div 10" "v smod 10 = v mod 10"
    using assms by (auto simp: signed_divide_int_def signed_modulo_int_def sgn_if)
  then show ?thesis using assms by (subst cvtdec0.simps) (auto simp: Let_def dec_char_def)
qed

lemma digit_char: "0 \<le> d \<Longrightarrow> d < 10 \<Longrightarrow> digit_value (dec_char d) = d"
proof -
  assume d: "0 \<le> d" "d < 10"
  have "uint (dec_char d) = d + 48" unfolding dec_char_def by (subst uint_word_of_int) (use d in simp)
  then show ?thesis using d by (simp add: digit_value_def)
qed

lemma value_of_single [simp]: "value_of b [c] = digit_value c"
  by (simp add: value_of_def)

lemma cvtdec0_value: "0 \<le> v \<Longrightarrow> value_of 10 (cvtdec0 v) = v"
proof (induction "nat v" arbitrary: v rule: less_induct)
  case less
  have d: "digit_value (dec_char (v mod 10)) = v mod 10" by (rule digit_char) simp_all
  show ?case
  proof (cases "v < 10")
    case True
    then show ?thesis using less.prems d by (subst cvtdec0_step) (simp_all)
  next
    case False
    then have "value_of 10 (cvtdec0 (v div 10)) = v div 10" by (intro less.hyps) auto
    then show ?thesis using False less.prems d by (subst cvtdec0_step) simp_all
  qed
qed

lemma cvtdec0_length: "0 \<le> v \<Longrightarrow> v < 10 ^ n \<Longrightarrow> 0 < n \<Longrightarrow> length (cvtdec0 v) \<le> n"
proof (induction n arbitrary: v)
  case (Suc n)
  show ?case
  proof (cases "v < 10")
    case True
    then show ?thesis using Suc.prems by (subst cvtdec0_step) simp_all
  next
    case False
    then have "0 < n" using Suc.prems by (cases n) auto
    moreover have "10 * (v div 10) \<le> v" by presburger
    then have "v div 10 < 10 ^ n" using Suc.prems(2) by simp
    ultimately have "length (cvtdec0 (v div 10)) \<le> n" using Suc by simp
    then show ?thesis using False Suc.prems by (subst cvtdec0_step) simp_all
  qed
qed simp

lemma cvtdec0_hd:
  assumes "0 \<le> v"
  shows "\<exists>d r. cvtdec0 v = dec_char d # r \<and> 0 \<le> d \<and> d < 10"
  using assms
proof (induction "nat v" arbitrary: v rule: less_induct)
  case less
  show ?case
  proof (cases "v < 10")
    case True
    then show ?thesis using less.prems by (subst cvtdec0_step) (auto intro: exI [of _ "v mod 10"])
  next
    case False
    then have "nat (v div 10) < nat v" "0 \<le> v div 10" using less.prems by auto
    from less.hyps [OF this] obtain d r where "cvtdec0 (v div 10) = dec_char d # r" "0 \<le> d" "d < 10" by blast
    then show ?thesis using False less.prems by (subst cvtdec0_step) auto
  qed
qed

text \<open>The least number takes the way through the patched quotient.\<close>

lemma cvtdec0_min: "cvtdec0 (- 2147483648) = cvtdec0 2147483648"
proof -
  have "(- 2147483648 :: int) sdiv 10 = - 214748364" "(8 :: int) smod 10 = 8" by (simp_all add: signed_divide_int_def signed_modulo_int_def)
  then have "cvtdec0 (- 2147483648) = cvtdec0 214748364 @ [dec_char 8]"
    by (subst cvtdec0.simps) (simp add: Let_def dec_char_def)
  also have "\<dots> = cvtdec0 2147483648" by (subst (2) cvtdec0_step) simp_all
  finally show ?thesis .
qed

lemma cvtdec_decimal:
  "decimal_value (cvtdec (sint (v :: u32))) = sint v \<and> length (cvtdec (sint v)) \<le> 11"
proof -
  let ?n = "sint v"
  have b: "- 2147483648 \<le> ?n" "?n < 2147483648"
    using sint_greater_eq [of v] sint_less [of v] by simp_all
  show ?thesis
  proof (cases "?n < 0")
    case True
    have e: "cvtdec ?n = 45 # cvtdec0 (- ?n)"
      using True cvtdec0_min by (cases "?n = - 2147483648") (simp_all add: cvtdec_def)
    have "length (cvtdec0 (- ?n)) \<le> 10" by (rule cvtdec0_length) (use b True in simp_all)
    then show ?thesis unfolding e using cvtdec0_value [of "- ?n"] True by (simp add: decimal_value_def)
  next
    case False
    then have e: "cvtdec ?n = cvtdec0 ?n" by (simp add: cvtdec_def)
    obtain d r where h: "cvtdec0 ?n = dec_char d # r" "0 \<le> d" "d < 10" using cvtdec0_hd [of ?n] False by auto
    have "digit_value (dec_char d) = d" using h by (simp add: digit_char)
    then have "dec_char d \<noteq> (45 :: u8)" using h(2) by (auto simp: digit_value_def)
    then have "decimal_value (cvtdec0 ?n) = value_of 10 (cvtdec0 ?n)" unfolding decimal_value_def h(1) by simp
    moreover have "length (cvtdec0 ?n) \<le> 11" by (rule cvtdec0_length) (use b False in simp_all)
    ultimately show ?thesis unfolding e using cvtdec0_value [of ?n] False by simp
  qed
qed

text \<open>
  Every number of 32 bits is printed in decimal so that reading the text back gives the number,
  the least one included, in at most eleven characters, so that the buffer of twelve is enough.
\<close>

theorem cvtdec_roundtrip:
  "decimal_value (cvtdec (sint (v :: u32))) = sint v \<and> length (cvtdec (sint v)) \<le> 11"
  by (rule cvtdec_decimal)

text \<open>Hexadecimal and octal: the digits that a loop over the positions produces, most significant first.\<close>

lemma hex_digit: "n < 16 \<Longrightarrow> digit_value (hexdigits ! n) = int n"
proof -
  assume "n < 16"
  moreover have "\<forall>n\<in>set [0..<16]. digit_value (hexdigits ! n) = int n" by code_simp
  ultimately show ?thesis by simp
qed

fun digits_of :: "nat \<Rightarrow> nat \<Rightarrow> nat \<Rightarrow> nat list" where
  "digits_of b 0 u = []"
| "digits_of b (Suc n) u = u div (2 ^ 32 div b) # digits_of b n (u * b mod 2 ^ 32)"

definition text_of :: "bool \<Rightarrow> nat list \<Rightarrow> u8 list" where
  "text_of stored ds = map ((!) hexdigits) (if stored then ds else
     (case dropWhile (\<lambda>d. d = 0) ds of [] \<Rightarrow> (if ds = [] then [] else [0]) | r \<Rightarrow> r))"

lemma foldl_digits:
  "foldl (\<lambda>n c. b * n + digit_value c) m (map ((!) hexdigits) ds) =
   m * b ^ length ds + value_of b (map ((!) hexdigits) ds)"
proof (induction ds arbitrary: m)
  case (Cons d ds)
  have "foldl (\<lambda>n c. b * n + digit_value c) m (map ((!) hexdigits) (d # ds)) =
      (b * m + digit_value (hexdigits ! d)) * b ^ length ds + value_of b (map ((!) hexdigits) ds)"
    using Cons.IH [of "b * m + digit_value (hexdigits ! d)"] by simp
  moreover have "value_of b (map ((!) hexdigits) (d # ds)) =
      digit_value (hexdigits ! d) * b ^ length ds + value_of b (map ((!) hexdigits) ds)"
    using Cons.IH [of "digit_value (hexdigits ! d)"] by (simp add: value_of_def)
  ultimately show ?case by (simp add: algebra_simps)
qed (simp add: value_of_def)

lemma value_of_Cons:
  "value_of b (map ((!) hexdigits) (d # ds)) = digit_value (hexdigits ! d) * b ^ length ds + value_of b (map ((!) hexdigits) ds)"
  using foldl_digits [of b "digit_value (hexdigits ! d)" ds] by (simp add: value_of_def)

lemma text_of_value: "value_of b (text_of stored ds) = value_of b (map ((!) hexdigits) ds)"
proof (induction ds)
  case (Cons d ds)
  have z: "digit_value (hexdigits ! 0) = 0" by (simp add: hexdigits_def digit_value_def)
  show ?case
  proof (cases "stored \<or> d \<noteq> 0")
    case True
    then show ?thesis by (auto simp: text_of_def)
  next
    case False
    then have "value_of b (text_of stored (d # ds)) = value_of b (text_of stored ds)"
      using z by (cases ds) (auto simp: text_of_def split: list.splits)
    moreover have "value_of b (map ((!) hexdigits) (d # ds)) = value_of b (map ((!) hexdigits) ds)"
      unfolding value_of_Cons using False z by simp
    ultimately show ?thesis using Cons by simp
  qed
qed (simp add: text_of_def split: list.splits)

lemma digits_value:
  assumes "b = 16 \<or> b = 8" "u < 2 ^ 32"
  shows "value_of (int b) (map ((!) hexdigits) (digits_of b n u)) * 2 ^ 32 + int ((u * b ^ n) mod 2 ^ 32) = int (u * b ^ n)"
  using assms(2)
proof (induction n arbitrary: u)
  case 0
  then show ?case by (simp add: value_of_def)
next
  case (Suc n)
  let ?u = "u * b mod 2 ^ 32" and ?d = "u div (2 ^ 32 div b)"
  have d: "?d = u * b div 2 ^ 32" using assms(1) by auto
  have "u * b div 2 ^ 32 < b" using Suc.prems assms(1) by (auto simp: div_less_iff_less_mult)
  then have "?d < 16" using d assms(1) by auto
  then have dv: "digit_value (hexdigits ! ?d) = int ?d" by (rule hex_digit)
  have ub: "u * b = ?d * 2 ^ 32 + ?u" unfolding d by (rule div_mult_mod_eq [symmetric])
  have l: "length (digits_of b n v) = n" for v by (induction n arbitrary: v) simp_all
  have m: "u * b ^ Suc n mod 2 ^ 32 = ?u * b ^ n mod 2 ^ 32" by (simp add: mod_mult_left_eq mult.assoc [symmetric])
  have ih: "value_of (int b) (map ((!) hexdigits) (digits_of b n ?u)) * 2 ^ 32 = int (?u * b ^ n) - int (?u * b ^ n mod 2 ^ 32)"
    using Suc.IH [of ?u] by (simp add: algebra_simps)
  have "value_of (int b) (map ((!) hexdigits) (digits_of b (Suc n) u)) * 2 ^ 32 =
      int ?d * int b ^ n * 2 ^ 32 + value_of (int b) (map ((!) hexdigits) (digits_of b n ?u)) * 2 ^ 32"
    by (simp only: digits_of.simps value_of_Cons dv l distrib_right)
  also have "\<dots> = int ((?d * 2 ^ 32 + ?u) * b ^ n) - int (?u * b ^ n mod 2 ^ 32)"
    unfolding ih by (simp add: algebra_simps)
  also have "\<dots> = int (u * b ^ Suc n) - int (u * b ^ Suc n mod 2 ^ 32)"
    unfolding m ub [symmetric] by (simp add: mult.assoc)
  finally show ?case by simp
qed

lemma text_of_Cons:
  "text_of stored (d # ds) = (if ds = [] \<or> d \<noteq> 0 \<or> stored then hexdigits ! d # text_of True ds else text_of stored ds)"
  by (cases ds) (auto simp: text_of_def split: list.splits)

lemma digits_of_empty: "digits_of b n u = [] \<longleftrightarrow> n = 0"
  by (cases n) simp_all

lemma cvthex_loop_text:
  "i \<le> 8 \<Longrightarrow> cvthex_loop [i..<8] stored v = text_of stored (digits_of 16 (8 - i) (unat v))"
proof (induction "8 - i" arbitrary: i stored v)
  case 0
  then show ?case by (simp add: text_of_def)
next
  case (Suc n)
  then have i: "i < 8" "8 - i = Suc n" "n = 8 - Suc i" by auto
  have u: "unat (push_bit 4 v) = unat v * 16 mod 2 ^ 32" by (simp add: push_bit_eq_mult unat_word_ariths)
  have "(0xF0000000 :: u32) = NOT (mask 28)" by code_simp
  then have top: "v AND 0xF0000000 = 0 \<longleftrightarrow> unat v div 2 ^ 28 = 0" using high_bits_zero by metis
  have q: "unat v div 268435456 < 16" using unat_u32_bound [of v] by (simp add: div_less_iff_less_mult)
  have d: "unat (drop_bit 28 (v AND 0xF0000000) AND 0xF) = unat v div 268435456"
  proof -
    have "drop_bit 28 (v AND NOT (mask 28)) = drop_bit 28 v"
      by (rule bit_word_eqI) (auto simp: bit_simps dest: bit_imp_le_length)
    moreover have "(0xF0000000 :: u32) = NOT (mask 28)" by code_simp
    ultimately have h: "drop_bit 28 (v AND 0xF0000000) = drop_bit 28 v" by simp
    have "(0xF :: u32) = mask 4" by code_simp
    then show ?thesis using q by (simp only: h unat_div_mod) simp
  qed
  have z: "v AND 0xF0000000 = 0 \<longleftrightarrow> unat v div 268435456 = 0" using top by simp
  have IH: "cvthex_loop [Suc i..<8] st w = text_of st (digits_of 16 n (unat w))" for st w
    using Suc.hyps(1) [OF i(3)] i(1) i(3) by simp
  have up: "[i..<8] = i # [Suc i..<8]" using i(1) by (rule upt_conv_Cons)
  have "cvthex_loop [i..<8] stored v = (if i = 7 \<or> unat v div 268435456 \<noteq> 0 \<or> stored
      then hexdigits ! (unat v div 268435456) # text_of True (digits_of 16 n (unat v * 16 mod 2 ^ 32))
      else text_of stored (digits_of 16 n (unat v * 16 mod 2 ^ 32)))"
    unfolding up cvthex_loop.simps Let_def z IH u d ..
  also have "\<dots> = text_of stored (digits_of 16 (Suc n) (unat v))"
    unfolding digits_of.simps text_of_Cons digits_of_empty using i by auto
  finally show ?case unfolding i(2) .
qed

text \<open>
  C9: every word is printed in hexadecimal so that reading the text back gives the word.
\<close>

theorem cvthex_roundtrip: "value_of 16 (cvthex v) = uint v \<and> length (cvthex v) \<le> 8"
proof
  have c: "cvthex v = text_of False (digits_of 16 8 (unat v))"
    unfolding cvthex_def using cvthex_loop_text [of 0 False v] by simp
  have "value_of (int 16) (map ((!) hexdigits) (digits_of 16 8 (unat v))) * 2 ^ 32 + int ((unat v * 16 ^ 8) mod 2 ^ 32) = int (unat v * 16 ^ 8)"
    by (rule digits_value) (use unat_u32_bound [of v] in simp_all)
  moreover have "(unat v * 16 ^ 8) mod 2 ^ 32 = 0" by simp
  ultimately show "value_of 16 (cvthex v) = uint v" unfolding c text_of_value by simp
  have l: "length (digits_of 16 n u) = n" for n u by (induction n arbitrary: u) simp_all
  have "length (dropWhile (\<lambda>d. d = 0) ds) \<le> length ds" for ds :: "nat list" by (rule length_dropWhile_le)
  from this [of "digits_of 16 8 (unat v)"] show "length (cvthex v) \<le> 8"
    unfolding c text_of_def l by (auto split: list.splits)
qed

lemma oct_digit:
  "signed_drop_bit 29 (w AND 0xE0000000) AND 7 = drop_bit 29 (w :: u32)"
  "signed_drop_bit 29 (w AND 0xE0000000) = 0 \<longleftrightarrow> drop_bit 29 (w :: u32) = 0"
proof -
  have m: "(0xE0000000 :: u32) = NOT (mask 29)" "(7 :: u32) = mask 3" by code_simp+
  show 1: "signed_drop_bit 29 (w AND 0xE0000000) AND 7 = drop_bit 29 w"
    unfolding m by (rule bit_word_eqI) (auto simp: bit_simps dest: bit_imp_le_length)
  show "signed_drop_bit 29 (w AND 0xE0000000) = 0 \<longleftrightarrow> drop_bit 29 w = 0"
  proof
    assume "signed_drop_bit 29 (w AND 0xE0000000) = 0"
    then show "drop_bit 29 w = 0" using 1 by simp
  next
    assume "drop_bit 29 w = 0"
    then have "unat w div 2 ^ 29 = 0" using unat_div_mod(1) [of 29 w] by simp
    then have "w AND NOT (mask 29) = 0" using high_bits_zero by blast
    then show "signed_drop_bit 29 (w AND 0xE0000000) = 0" unfolding m by simp
  qed
qed

lemma cvtoct_loop_text:
  "i \<le> 11 \<Longrightarrow> cvtoct_loop [i..<11] stored (signed_drop_bit 29 (v AND 0xE0000000)) v =
     text_of stored (digits_of 8 (11 - i) (unat v))"
proof (induction "11 - i" arbitrary: i stored v)
  case 0
  then show ?case by (simp add: text_of_def)
next
  case (Suc n)
  then have i: "i < 11" "11 - i = Suc n" "n = 11 - Suc i" by auto
  have u: "unat (push_bit 3 v) = unat v * 8 mod 2 ^ 32" by (simp add: push_bit_eq_mult unat_word_ariths)
  let ?val = "signed_drop_bit 29 (v AND 0xE0000000)"
  have d: "unat (?val AND 7) = unat v div 536870912" unfolding oct_digit(1) unat_div_mod by simp
  have z: "?val = 0 \<longleftrightarrow> unat v div 536870912 = 0"
    unfolding oct_digit(2) by (simp only: word_unat_eq_iff unat_div_mod) simp
  have IH: "cvtoct_loop [Suc i..<11] st (signed_drop_bit 29 (w AND 0xE0000000)) w = text_of st (digits_of 8 n (unat w))" for st w
    using Suc.hyps(1) [OF i(3)] i(1) i(3) by simp
  have up: "[i..<11] = i # [Suc i..<11]" using i(1) by (rule upt_conv_Cons)
  have "cvtoct_loop [i..<11] stored ?val v = (if i = 10 \<or> unat v div 536870912 \<noteq> 0 \<or> stored
      then hexdigits ! (unat v div 536870912) # text_of True (digits_of 8 n (unat v * 8 mod 2 ^ 32))
      else text_of stored (digits_of 8 n (unat v * 8 mod 2 ^ 32)))"
    unfolding up cvtoct_loop.simps Let_def z IH u d ..
  also have "\<dots> = text_of stored (digits_of 8 (Suc n) (unat v))"
    unfolding digits_of.simps text_of_Cons digits_of_empty using i by auto
  finally show ?case unfolding i(2) .
qed

text \<open>
  The octal conversion takes the first two bits as the first digit but then shifts by three, so
  that what it prints for a number below 2^29 is twice the number.
\<close>

theorem cvtoct_doubles:
  assumes "unat v < 2 ^ 29"
  shows "value_of 8 (cvtoct v) = 2 * uint v"
proof -
  have n: "unat v < 536870912" using assms by simp
  then have "unat v div 2 ^ 30 = 0" by simp
  then have "v AND NOT (mask 30) = 0" using high_bits_zero by blast
  moreover have "(0xC0000000 :: u32) = NOT (mask 30)" by code_simp
  ultimately have z: "v AND 0xC0000000 = 0" by metis
  have "cvtoct v = cvtoct_loop (0 # [1..<11]) False 0 v" by (simp add: cvtoct_def z upt_conv_Cons)
  also have "\<dots> = cvtoct_loop [1..<11] False (signed_drop_bit 29 (push_bit 3 v AND 0xE0000000)) (push_bit 3 v)"
    by (subst cvtoct_loop.simps) (simp only: Let_def simp_thms if_False zero_neq_numeral)
  also have "\<dots> = text_of False (digits_of 8 (11 - 1) (unat (push_bit 3 v)))" by (rule cvtoct_loop_text) simp
  also have "unat (push_bit 3 v) = unat v * 8" using n by (simp add: push_bit_eq_mult unat_word_ariths)
  finally have c: "cvtoct v = text_of False (digits_of 8 10 (unat v * 8))" by simp
  have "value_of (int 8) (map ((!) hexdigits) (digits_of 8 10 (unat v * 8))) * 2 ^ 32 +
      int ((unat v * 8 * 8 ^ 10) mod 2 ^ 32) = int (unat v * 8 * 8 ^ 10)"
    by (rule digits_value) (use n in simp_all)
  moreover have "unat v * 8 * 8 ^ 10 = 2 * unat v * 2 ^ 32" by simp
  ultimately show ?thesis unfolding c text_of_value by simp
qed

theorem cvtoct_doubles_witness: "value_of 8 (cvtoct 8) = 16"
  using cvtoct_doubles [of 8] by simp

subsection \<open>The keyboard buffer is a bounded queue\<close>

definition kb_ok :: "keyboard \<Rightarrow> bool" where
  "kb_ok b \<longleftrightarrow> next_char b < C_BUFSIZE \<and> next_space b < C_BUFSIZE"

definition keys :: "keyboard \<Rightarrow> u8 list" where
  "keys b = map (\<lambda>i. input_buffer b ((next_char b + i) mod C_BUFSIZE)) [0..<nat (c_input_queue b)]"

definition printing :: "u8 \<Rightarrow> bool" where
  "printing code \<longleftrightarrow> code AND 0x80 = 0 \<and> code \<noteq> 0x2A \<and> code \<noteq> 0x36 \<and> code \<noteq> 0x1D"

definition key_count :: "nat \<Rightarrow> nat \<Rightarrow> nat" where
  "key_count nc ns = (if nc \<le> ns then ns - nc else ns + 200 - nc)"

lemma input_queue_count: "kb_ok b \<Longrightarrow> c_input_queue b = int (key_count (next_char b) (next_space b))"
  by (simp add: c_input_queue_def kb_ok_def key_count_def Let_def)

lemma key_count:
  assumes "nc < 200" "ns < 200"
  shows "key_count nc ns < 200" "ns = (nc + key_count nc ns) mod 200" "key_count nc ns = 0 \<longleftrightarrow> nc = ns"
    "key_count nc ((ns + 1) mod 200) = (if key_count nc ns = 199 then 0 else key_count nc ns + 1)"
    "nc \<noteq> ns \<Longrightarrow> key_count nc ns = key_count ((nc + 1) mod 200) ns + 1"
proof -
  show "key_count nc ns < 200" "key_count nc ns = 0 \<longleftrightarrow> nc = ns" using assms by (auto simp: key_count_def)
  show "ns = (nc + key_count nc ns) mod 200" using assms by (cases "nc \<le> ns") (simp_all add: key_count_def)
  show "key_count nc ((ns + 1) mod 200) = (if key_count nc ns = 199 then 0 else key_count nc ns + 1)"
    using assms by (cases "ns = 199") (auto simp: key_count_def)
  show "nc \<noteq> ns \<Longrightarrow> key_count nc ns = key_count ((nc + 1) mod 200) ns + 1"
    using assms by (cases "nc = 199") (auto simp: key_count_def)
qed

lemma queue_length:
  assumes "kb_ok b"
  shows "length (keys b) = key_count (next_char b) (next_space b)" "length (keys b) < C_BUFSIZE"
    "next_space b = (next_char b + length (keys b)) mod C_BUFSIZE" "keys b = [] \<longleftrightarrow> next_char b = next_space b"
proof -
  show l: "length (keys b) = key_count (next_char b) (next_space b)"
    using input_queue_count [OF assms] by (simp add: keys_def)
  have k: "next_char b < 200" "next_space b < 200" using assms by (simp_all add: kb_ok_def)
  show "length (keys b) < C_BUFSIZE" "next_space b = (next_char b + length (keys b)) mod C_BUFSIZE"
    unfolding l using key_count(1,2) [OF k] by blast+
  show "keys b = [] \<longleftrightarrow> next_char b = next_space b"
    using key_count(3) [OF k] l by (metis length_0_conv)
qed

lemma c_increment_mod: "p < 200 \<Longrightarrow> c_increment p = (p + 1) mod 200"
  by (cases "p = 199") (simp_all add: c_increment_def)

lemma key_pressed:
  assumes ok: "kb_ok b" and p: "printing code"
  shows "kb_ok (input_scan_code code b) \<and> keys (input_scan_code code b) =
    (if length (keys b) < C_BUFSIZE - 1 then keys b @ [(scan_code (shifted b) ! unat code) AND ctrl_mask b] else keys b)"
proof -
  let ?c = "scan_code (shifted b) ! unat code" and ?n = "c_increment (next_space b)" and ?l = "length (keys b)"
  have "code \<noteq> 0xAA" "code \<noteq> 0xB6" "code \<noteq> 0x9D" using p by (auto simp: printing_def)
  moreover have "0 \<le> uint ?c" by simp
  then have "uint ?c \<noteq> -1" by linarith
  ultimately have e: "input_scan_code code b = (if ?n \<noteq> next_char b
      then b\<lparr>input_buffer := (input_buffer b)(next_space b := ?c AND ctrl_mask b), next_space := ?n\<rparr> else b)"
    using p by (simp add: input_scan_code_def printing_def Let_def)
  note q = queue_length [OF ok]
  have k: "next_char b < 200" "next_space b < 200" using ok by (simp_all add: kb_ok_def)
  note n = c_increment_mod [OF k(2)]
  have kn: "key_count (next_char b) ?n = (if ?l = 199 then 0 else ?l + 1)" unfolding n q(1) by (rule key_count(4) [OF k])
  have n200: "?n < 200" unfolding n by simp
  have full: "?n = next_char b \<longleftrightarrow> ?l = 199" using key_count(3) [OF k(1) n200] kn by (metis add_is_0 zero_neq_one)
  show ?thesis
  proof (cases "?l = 199")
    case True
    then show ?thesis using e full ok by simp
  next
    case False
    let ?b = "b\<lparr>input_buffer := (input_buffer b)(next_space b := ?c AND ctrl_mask b), next_space := ?n\<rparr>"
    have ok': "kb_ok ?b" using ok n200 by (simp add: kb_ok_def)
    have cnt: "nat (c_input_queue ?b) = ?l + 1" using input_queue_count [OF ok'] kn False by simp
    have old: "(next_char b + i) mod 200 \<noteq> next_space b" if i: "i < ?l" for i
    proof
      assume "(next_char b + i) mod 200 = next_space b"
      then have "(next_char b + i) mod 200 = (next_char b + ?l) mod 200" using q(3) by simp
      then have "i mod 200 = ?l mod 200" by (simp add: nat_mod_eq_iff)
      then show False using i q(2) by simp
    qed
    have "keys ?b = map (\<lambda>i. input_buffer ?b ((next_char b + i) mod 200)) [0..<?l] @
        [input_buffer ?b ((next_char b + ?l) mod 200)]" using cnt by (simp add: keys_def)
    also have "map (\<lambda>i. input_buffer ?b ((next_char b + i) mod 200)) [0..<?l] = keys b"
      unfolding keys_def using old q(1) input_queue_count [OF ok] by (intro map_cong) simp_all
    also have "input_buffer ?b ((next_char b + ?l) mod 200) = ?c AND ctrl_mask b" using q(3) by simp
    finally have kb: "keys ?b = keys b @ [?c AND ctrl_mask b]" .
    have "input_scan_code code b = ?b" "?l < 199" using e full False q(2) by simp_all
    then show ?thesis using kb ok' by (simp only: if_True simp_thms) simp
  qed
qed

lemma key_taken:
  assumes ok: "kb_ok b" and ne: "keys b \<noteq> []"
  shows "kb_ok (b\<lparr>next_char := c_increment (next_char b)\<rparr>)"
    "keys b = input_buffer b (next_char b) # keys (b\<lparr>next_char := c_increment (next_char b)\<rparr>)"
proof -
  let ?b = "b\<lparr>next_char := c_increment (next_char b)\<rparr>"
  have k: "next_char b < 200" "next_space b < 200" using ok by (simp_all add: kb_ok_def)
  note n = c_increment_mod [OF k(1)]
  show ok': "kb_ok ?b" using ok n by (simp add: kb_ok_def)
  have c: "nat (c_input_queue b) = Suc (nat (c_input_queue ?b))"
    using key_count(5) [OF k] ne queue_length(4) [OF ok] input_queue_count [OF ok] input_queue_count [OF ok'] n by simp
  have m: "(next_char b + Suc i) mod 200 = (c_increment (next_char b) + i) mod 200" for i
    unfolding n by (simp add: mod_add_left_eq)
  have "[0..<Suc (nat (c_input_queue ?b))] = 0 # map Suc [0..<nat (c_input_queue ?b)]"
    by (simp add: upt_conv_Cons map_Suc_upt del: upt_Suc)
  then have "keys b = input_buffer b (next_char b mod 200) #
      map (\<lambda>i. input_buffer b ((next_char b + Suc i) mod 200)) [0..<nat (c_input_queue ?b)]"
    unfolding keys_def c by (simp add: comp_def)
  then show "keys b = input_buffer b (next_char b) # keys ?b" using k(1) unfolding m by (simp add: keys_def)
qed

text \<open>
  C40: the keyboard buffer is a queue of at most 199 characters: a key that is pressed puts its
  character, for the state of shift and control, behind the others or is dropped when the buffer is
  full; reading takes the first character, and waits when there is none; the size that is reported
  is the number of characters.
\<close>

theorem keyboard_is_queue:
  assumes ok: "kb_ok b"
  shows "(printing code \<longrightarrow> kb_ok (input_scan_code code b) \<and> keys (input_scan_code code b) =
      (if length (keys b) < C_BUFSIZE - 1 then keys b @ [(scan_code (shifted b) ! unat code) AND ctrl_mask b] else keys b)) \<and>
    (case keys b of
        [] \<Rightarrow> c_getchar [] b s = Diverge
      | c # cs \<Rightarrow> \<exists>b' s'. c_getchar codes b s = Ok (c, codes, b', s') \<and> kb_ok b' \<and> keys b' = cs) \<and>
    c_input_queue b = int (length (keys b)) \<and> length (keys b) < C_BUFSIZE"
proof (intro conjI)
  show "printing code \<longrightarrow> kb_ok (input_scan_code code b) \<and> keys (input_scan_code code b) =
      (if length (keys b) < C_BUFSIZE - 1 then keys b @ [(scan_code (shifted b) ! unat code) AND ctrl_mask b] else keys b)"
    using key_pressed [OF ok] by blast
  show "case keys b of
        [] \<Rightarrow> c_getchar [] b s = Diverge
      | c # cs \<Rightarrow> \<exists>b' s'. c_getchar codes b s = Ok (c, codes, b', s') \<and> kb_ok b' \<and> keys b' = cs"
  proof (cases "keys b")
    case Nil
    then have "next_char b = next_space b" using queue_length(4) [OF ok] by blast
    then show ?thesis using Nil by (simp add: c_getchar_def)
  next
    case (Cons c cs)
    then have ne: "keys b \<noteq> []" by simp
    then have "next_char b \<noteq> next_space b" using queue_length(4) [OF ok] by blast
    then show ?thesis using Cons key_taken [OF ok ne] by (simp add: c_getchar_def Let_def)
  qed
qed (use queue_length(1,2) [OF ok] input_queue_count [OF ok] in simp_all)

definition empty_keyboard :: keyboard where
  "empty_keyboard = \<lparr>input_buffer = (\<lambda>_. 0), next_char = 199, next_space = 199, shifted = False, ctrl_mask = 0xFF\<rparr>"

theorem keyboard_is_queue_witness:
  "kb_ok empty_keyboard \<and> printing 0x1E \<and> keys (input_scan_code 0x1E empty_keyboard) = [97]"
proof -
  have ok: "kb_ok empty_keyboard" by (simp add: kb_ok_def empty_keyboard_def)
  have e: "keys empty_keyboard = []" by (simp add: keys_def c_input_queue_def empty_keyboard_def)
  have s: "scan_code (shifted empty_keyboard) ! unat (0x1E :: u8) AND ctrl_mask empty_keyboard = 97" by code_simp
  have p: "printing 0x1E" by code_simp
  then show ?thesis using keyboard_is_queue [OF ok, of "0x1E"] ok e s by simp
qed

subsection \<open>Output stays in the scrolling region\<close>

definition screen_ok :: "screen \<Rightarrow> bool" where
  "screen_ok s \<longleftrightarrow> scroll_min_x s \<le> curr_x s \<and> curr_x s \<le> scroll_max_x s \<and> scroll_max_x s \<le> max_x s \<and> max_x s \<le> 79 \<and>
     scroll_min_y s \<le> curr_y s \<and> curr_y s \<le> scroll_max_y s + 1 \<and> scroll_min_y s \<le> scroll_max_y s \<and>
     scroll_max_y s \<le> max_y s \<and> max_y s \<le> 24"

definition region :: "screen \<Rightarrow> u32 set" where
  "region s = {video_addr x y | x y. scroll_min_x s \<le> x \<and> x \<le> scroll_max_x s \<and> scroll_min_y s \<le> y \<and> y \<le> scroll_max_y s}"

text \<open>Two screens with the same bounds that differ only in the region, the cursor and the port writes.\<close>

definition keeps :: "screen \<Rightarrow> screen \<Rightarrow> bool" where
  "keeps s s' \<longleftrightarrow> scroll_min_x s' = scroll_min_x s \<and> scroll_max_x s' = scroll_max_x s \<and>
     scroll_min_y s' = scroll_min_y s \<and> scroll_max_y s' = scroll_max_y s \<and> min_x s' = min_x s \<and> max_x s' = max_x s \<and>
     min_y s' = min_y s \<and> max_y s' = max_y s \<and> (\<forall>a. a \<notin> region s \<longrightarrow> video s' a = video s a)"

definition keeps_cursor :: "screen \<Rightarrow> screen \<Rightarrow> bool" where
  "keeps_cursor s s' \<longleftrightarrow> keeps s s' \<and> curr_x s' = curr_x s \<and> curr_y s' = curr_y s"

lemma keeps_cursor_refl [simp]: "keeps_cursor s s"
  by (simp add: keeps_cursor_def keeps_def)

lemma keeps_region: "keeps s s' \<Longrightarrow> region s' = region s"
  by (simp add: keeps_def region_def)

lemma keeps_trans: "keeps s t \<Longrightarrow> keeps t u \<Longrightarrow> keeps s u"
  using keeps_region [of s t] by (auto simp: keeps_def)

lemma keeps_cursor_trans: "keeps_cursor s t \<Longrightarrow> keeps_cursor t u \<Longrightarrow> keeps_cursor s u"
  unfolding keeps_cursor_def using keeps_trans by metis

lemma fold_keeps:
  assumes "\<And>x t. x \<in> set xs \<Longrightarrow> keeps_cursor s t \<Longrightarrow> keeps_cursor t (f x t)"
  shows "keeps_cursor s (fold f xs s)"
proof -
  have "keeps_cursor s t \<Longrightarrow> set ys \<subseteq> set xs \<Longrightarrow> keeps_cursor s (fold f ys t)" for ys t
    by (induction ys arbitrary: t) (use assms keeps_cursor_trans in auto)
  then show ?thesis by simp
qed

lemma set_columns:
  assumes "x \<in> set (columns lo hi)"
  shows "lo \<le> x" "x \<le> hi"
proof -
  obtain n where n: "x = of_nat n" "unat lo \<le> n" "n \<le> unat hi" using assms by (auto simp: columns_def)
  have "unat x = n" using n unat_u32_bound [of hi] by (simp add: unat_of_nat take_bit_nat_eq_self)
  then show "lo \<le> x" "x \<le> hi" using n by (simp_all add: word_le_nat_alt)
qed

lemma poke_keeps:
  assumes "scroll_min_x s \<le> x" "x \<le> scroll_max_x s" "scroll_min_y s \<le> y" "y \<le> scroll_max_y s"
  shows "keeps_cursor s (s\<lparr>video := (video s)(video_addr x y := v)\<rparr>)"
  using assms by (auto simp: keeps_cursor_def keeps_def region_def)

lemma putchar_raw_keeps:
  assumes "scroll_min_x s \<le> x" "x \<le> scroll_max_x s" "scroll_min_y s \<le> y" "y \<le> scroll_max_y s"
  shows "keeps_cursor s (putchar_raw x y c s)"
  using poke_keeps [OF assms] by (simp add: putchar_raw_def)

lemma blank_columns_keeps:
  assumes "scroll_min_x s \<le> x" "scroll_min_y s \<le> y" "y \<le> scroll_max_y s"
  shows "keeps_cursor s (blank_columns (columns x (scroll_max_x s)) y s)"
  unfolding blank_columns_def
proof (rule fold_keeps)
  fix z t assume z: "z \<in> set (columns x (scroll_max_x s))" and t: "keeps_cursor s t"
  show "keeps_cursor t (putchar_raw z y 32 t)"
    using set_columns [OF z] t assms by (intro putchar_raw_keeps) (auto simp: keeps_cursor_def keeps_def)
qed

lemma line_keeps:
  assumes "scroll_min_y s \<le> y" "y \<le> scroll_max_y s"
  shows "keeps_cursor s (blank_line y s)" "keeps_cursor s (copy_line y from s)"
proof -
  have p: "keeps_cursor t (t\<lparr>video := (video t)(video_addr x y := v)\<rparr>)"
    if "x \<in> set (columns (scroll_min_x s) (scroll_max_x s))" "keeps_cursor s t" for x t v
    using set_columns [OF that(1)] that(2) assms by (intro poke_keeps) (auto simp: keeps_cursor_def keeps_def)
  show "keeps_cursor s (blank_line y s)" unfolding blank_line_def by (rule fold_keeps) (rule p)
  show "keeps_cursor s (copy_line y from s)" unfolding copy_line_def by (rule fold_keeps) (rule p)
qed

lemma clearscroll_keeps: "keeps_cursor s (c_clearscroll s)"
proof -
  have e: "c_clearscroll s = fold (\<lambda>y s. fold (\<lambda>x s. s\<lparr>video := (video s)(video_addr x y := 0x0720)\<rparr>)
     (columns (scroll_min_x s) (scroll_max_x s)) s) (columns (scroll_min_y s) (scroll_max_y s)) s"
    unfolding c_clearscroll_def ..
  show ?thesis unfolding e
  proof (rule fold_keeps)
    fix y t assume y: "y \<in> set (columns (scroll_min_y s) (scroll_max_y s))" and t: "keeps_cursor s t"
    have "scroll_min_y t \<le> y" "y \<le> scroll_max_y t" using set_columns [OF y] t by (auto simp: keeps_cursor_def keeps_def)
    from line_keeps(1) [OF this] show "keeps_cursor t (fold (\<lambda>x s. s\<lparr>video := (video s)(video_addr x y := 0x0720)\<rparr>)
        (columns (scroll_min_x t) (scroll_max_x t)) t)" by (simp add: blank_line_def)
  qed
qed

lemma setcursor_keeps [simp]: "keeps_cursor s (c_setcursor s)"
  by (simp add: c_setcursor_def keeps_cursor_def keeps_def Let_def)

lemma scroll_keeps:
  assumes ok: "scroll_min_y s \<le> scroll_max_y s" "scroll_max_y s \<le> 24"
  shows "keeps s (c_scroll n s)"
proof (cases "n > scroll_max_y s - scroll_min_y s")
  case True
  have "keeps s (c_clearscroll s)" using clearscroll_keeps by (simp add: keeps_cursor_def)
  moreover have "keeps t (t\<lparr>curr_x := a, curr_y := b\<rparr>)" for t a b by (simp add: keeps_def region_def)
  ultimately have "keeps s ((c_clearscroll s)\<lparr>curr_x := a, curr_y := b\<rparr>)" for a b using keeps_trans by blast
  then show ?thesis using True setcursor_keeps keeps_trans
    unfolding c_scroll_def keeps_cursor_def by (simp add: Let_def) blast
next
  case False
  let ?lo = "scroll_min_y s" and ?hi = "scroll_max_y s"
  have u: "unat n \<le> unat ?hi - unat ?lo" "unat ?lo \<le> unat ?hi" "unat ?hi \<le> 24"
    using False ok by (simp_all add: word_le_nat_alt not_less unat_sub)
  then have n: "n \<le> ?hi" by (simp add: word_le_nat_alt)
  have d: "unat (?hi - n) = unat ?hi - unat n" using n by (rule unat_sub)
  then have d1: "unat (?hi - n + 1) = unat ?hi - unat n + 1" using u by (simp add: unat_word_ariths)
  have a: "keeps_cursor s (fold (\<lambda>l. copy_line l (l + n)) (columns ?lo (?hi - n)) s)"
  proof (rule fold_keeps)
    fix l t assume l: "l \<in> set (columns ?lo (?hi - n))" and t: "keeps_cursor s t"
    have "?hi - n \<le> ?hi" using d by (simp add: word_le_nat_alt)
    then have "?lo \<le> l" "l \<le> ?hi" using set_columns [OF l] by (blast, blast intro: order_trans)
    then show "keeps_cursor t (copy_line l (l + n) t)"
      using t by (intro line_keeps) (simp_all add: keeps_cursor_def keeps_def)
  qed
  let ?t = "fold (\<lambda>l. copy_line l (l + n)) (columns ?lo (?hi - n)) s"
  have b: "keeps_cursor ?t (fold blank_line (columns (?hi - n + 1) ?hi) ?t)"
  proof (rule fold_keeps)
    fix l t assume l: "l \<in> set (columns (?hi - n + 1) ?hi)" and t: "keeps_cursor ?t t"
    have "?lo \<le> ?hi - n + 1" using u d1 by (simp add: word_le_nat_alt)
    then have "?lo \<le> l" "l \<le> ?hi" using set_columns [OF l] by (blast intro: order_trans, blast)
    then show "keeps_cursor t (blank_line l t)"
      using keeps_cursor_trans [OF a t] by (intro line_keeps) (simp_all add: keeps_cursor_def keeps_def)
  qed
  have "keeps_cursor s (c_scroll n s)" using keeps_cursor_trans [OF a b] False by (simp add: c_scroll_def Let_def)
  then show ?thesis by (simp add: keeps_cursor_def)
qed

text \<open>What one character does to the bounds, to the screen and to the cursor.\<close>

lemma keeps_move: "keeps s t \<Longrightarrow> keeps s (t\<lparr>curr_x := a\<rparr>)" "keeps s t \<Longrightarrow> keeps s (t\<lparr>curr_y := b\<rparr>)"
  by (simp_all add: keeps_def)

lemma ok_after:
  assumes "screen_ok s" "keeps s t" "scroll_min_x s \<le> curr_x t" "curr_x t \<le> scroll_max_x s"
    "scroll_min_y s \<le> curr_y t" "curr_y t \<le> scroll_max_y s + 1"
  shows "screen_ok t"
  using assms by (simp add: screen_ok_def keeps_def)

definition scrolled :: "screen \<Rightarrow> screen" where
  "scrolled s = (if curr_y s > scroll_max_y s then (c_scroll (curr_y s - scroll_max_y s) s)\<lparr>curr_y := scroll_max_y s\<rparr> else s)"

lemma scroll_cursor:
  assumes ok: "screen_ok s"
  shows "keeps s (c_scroll n s)" "scroll_min_x s \<le> curr_x (c_scroll n s)" "curr_x (c_scroll n s) \<le> scroll_max_x s"
proof -
  have b: "scroll_min_y s \<le> scroll_max_y s" "scroll_max_y s \<le> 24" "scroll_min_x s \<le> curr_x s" "curr_x s \<le> scroll_max_x s"
    using ok by (auto simp: screen_ok_def)
  show k: "keeps s (c_scroll n s)" using b by (intro scroll_keeps)
  have f: "(\<And>x t. curr_x (f x t) = curr_x t) \<Longrightarrow> curr_x (fold f xs t) = curr_x t" for f :: "u32 \<Rightarrow> screen \<Rightarrow> screen" and xs t
    by (induction xs arbitrary: t) simp_all
  have c: "curr_x (c_setcursor t) = curr_x t" for t by (simp add: c_setcursor_def Let_def)
  have "curr_x (c_scroll n s) = curr_x s \<or> curr_x (c_scroll n s) = scroll_min_x s"
  proof (cases "n > scroll_max_y s - scroll_min_y s")
    case True
    then show ?thesis using clearscroll_keeps [of s]
      by (simp add: c_scroll_def Let_def c keeps_cursor_def keeps_def)
  next
    case False
    then show ?thesis by (simp add: c_scroll_def Let_def f copy_line_def blank_line_def)
  qed
  then show "scroll_min_x s \<le> curr_x (c_scroll n s)" "curr_x (c_scroll n s) \<le> scroll_max_x s"
    using b by auto
qed

lemma scrolled_ok:
  assumes ok: "screen_ok s"
  shows "screen_ok (scrolled s)" "keeps s (scrolled s)" "curr_y (scrolled s) \<le> scroll_max_y s"
proof -
  note c = scroll_cursor [OF ok]
  have m: "scroll_min_y s \<le> scroll_max_y s" "scroll_max_y s \<le> scroll_max_y s + 1"
    using ok by (auto simp: screen_ok_def word_le_nat_alt unat_word_ariths)
  show k: "keeps s (scrolled s)" using c keeps_move by (simp add: scrolled_def keeps_def)
  show y: "curr_y (scrolled s) \<le> scroll_max_y s" by (simp add: scrolled_def not_less)
  show "screen_ok (scrolled s)"
  proof (rule ok_after [OF ok k])
    show "scroll_min_x s \<le> curr_x (scrolled s)" "curr_x (scrolled s) \<le> scroll_max_x s" "scroll_min_y s \<le> curr_y (scrolled s)"
      using c m ok by (auto simp: scrolled_def screen_ok_def)
    show "curr_y (scrolled s) \<le> scroll_max_y s + 1" using y m by auto
  qed
qed

lemma putchar_ok:
  assumes ok: "screen_ok s" and y: "curr_y s \<le> scroll_max_y s"
  shows "screen_ok (c_putchar c s) \<and> keeps s (c_putchar c s)"
proof -
  have b: "scroll_min_x s \<le> curr_x s" "curr_x s \<le> scroll_max_x s" "scroll_max_x s \<le> 79" "scroll_min_y s \<le> curr_y s"
    "curr_y s + 1 \<le> scroll_max_y s + 1" "scroll_min_y s \<le> curr_y s + 1" "scroll_min_x s \<le> scroll_max_x s"
    using ok y by (auto simp: screen_ok_def word_le_nat_alt unat_word_ariths)
  have x1: "scroll_min_x s \<le> curr_x s + 1" "curr_y s \<le> scroll_max_y s + 1"
    using ok y b by (auto simp: screen_ok_def word_le_nat_alt unat_word_ariths)
  have raw: "keeps_cursor s (putchar_raw (curr_x s) (curr_y s) c s)"
    using b y by (intro putchar_raw_keeps) simp_all
  have blank: "keeps_cursor s (blank_columns (columns (curr_x s) (scroll_max_x s)) (curr_y s) s)"
    using b y by (intro blank_columns_keeps) simp_all
  have so: "screen_ok (c_setcursor t) = screen_ok t" for t by (simp add: c_setcursor_def Let_def screen_ok_def)
  have ke: "keeps s (c_setcursor t) = keeps s t" for t by (simp add: c_setcursor_def Let_def keeps_def)
  have go: "screen_ok (c_setcursor t) \<and> keeps s (c_setcursor t)" if "keeps s t" "scroll_min_x s \<le> curr_x t"
      "curr_x t \<le> scroll_max_x s" "scroll_min_y s \<le> curr_y t" "curr_y t \<le> scroll_max_y s + 1" for t
    unfolding so ke using ok_after [OF ok that] that(1) by blast
  have ny: "\<not> curr_y s > scroll_max_y s" using y by simp
  consider "c AND 0xFF = 10" | "c AND 0xFF = 13" | "c AND 0xFF \<noteq> 10" "c AND 0xFF \<noteq> 13" by blast
  then show ?thesis
  proof cases
    case 1
    have "c_putchar c s = c_setcursor ((blank_columns (columns (curr_x s) (scroll_max_x s)) (curr_y s) s)
        \<lparr>curr_x := scroll_min_x s, curr_y := curr_y s + 1\<rparr>)" using 1 ny by (simp add: c_putchar_def Let_def)
    then show ?thesis using blank b by (simp only:) (intro go, simp_all add: keeps_cursor_def keeps_def)
  next
    case 2
    have "c_putchar c s = c_setcursor (s\<lparr>curr_x := scroll_min_x s\<rparr>)" using 2 ny by (simp add: c_putchar_def Let_def)
    then show ?thesis using b x1 by (simp only:) (intro go, simp_all add: keeps_def)
  next
    case 3
    let ?t = "(putchar_raw (curr_x s) (curr_y s) c s)\<lparr>curr_x := curr_x s + 1\<rparr>"
    have r: "keeps s ?t" "curr_y ?t = curr_y s" using raw by (simp_all add: keeps_cursor_def keeps_def)
    show ?thesis
    proof (cases "curr_x s + 1 > scroll_max_x s")
      case True
      have "c_putchar c s = c_setcursor (?t\<lparr>curr_x := scroll_min_x s, curr_y := curr_y s + 1\<rparr>)"
        using 3 ny True r by (simp add: c_putchar_def Let_def keeps_def)
      then show ?thesis using r b by (simp only:) (intro go, simp_all add: keeps_def)
    next
      case False
      have "c_putchar c s = c_setcursor ?t" using 3 ny False r by (simp add: c_putchar_def Let_def keeps_def)
      then show ?thesis using r b x1 False by (simp only:) (intro go, simp_all)
    qed
  qed
qed

lemma putchar_scrolled:
  assumes "screen_ok s"
  shows "c_putchar c s = c_putchar c (scrolled s)"
proof -
  have "scroll_max_y (scrolled s) = scroll_max_y s" using scrolled_ok(2) [OF assms] by (simp add: keeps_def)
  then have "\<not> curr_y (scrolled s) > scroll_max_y (scrolled s)" using scrolled_ok(3) [OF assms] by simp
  then have "scrolled (scrolled s) = scrolled s" by (simp add: scrolled_def [of "scrolled s"])
  then show ?thesis unfolding c_putchar_def scrolled_def [symmetric] by (simp only:)
qed

lemma putchar_keeps:
  assumes "screen_ok t"
  shows "screen_ok (c_putchar d t) \<and> keeps t (c_putchar d t)"
proof -
  note k = scrolled_ok [OF assms]
  have "curr_y (scrolled t) \<le> scroll_max_y (scrolled t)" using k(2,3) by (simp add: keeps_def)
  from putchar_ok [OF k(1) this, of d] have a: "screen_ok (c_putchar d t)" "keeps (scrolled t) (c_putchar d t)"
    unfolding putchar_scrolled [OF assms, of d, symmetric] by blast+
  show ?thesis using a(1) keeps_trans [OF k(2) a(2)] by blast
qed

text \<open>
  Printing a character keeps the state of the console well formed (the cursor stays in the
  scrolling region, or on the row below it when a scroll is due) and changes no cell of the screen
  outside the scrolling region; so does printing a string.
\<close>

theorem c_putchar_in_region:
  assumes ok: "screen_ok s"
  shows "screen_ok (c_puts str s) \<and> screen_ok (c_putchar c s) \<and>
    (\<forall>a. a \<notin> region s \<longrightarrow> video (c_puts str s) a = video s a \<and> video (c_putchar c s) a = video s a)"
proof -
  have "screen_ok t \<and> keeps s t \<Longrightarrow> screen_ok (fold (\<lambda>c. c_putchar (scast c)) cs t) \<and>
      keeps s (fold (\<lambda>c. c_putchar (scast c)) cs t)" for t and cs :: "u8 list"
  proof (induction cs arbitrary: t)
    case (Cons a cs)
    have "screen_ok (c_putchar (scast a) t) \<and> keeps s (c_putchar (scast a) t)"
      using putchar_keeps [of t "scast a"] Cons.prems keeps_trans by blast
    from Cons.IH [OF this] show ?case by simp
  qed simp
  then have "screen_ok (c_puts str s) \<and> keeps s (c_puts str s)" using ok by (simp add: c_puts_def keeps_def)
  then show ?thesis using putchar_keeps [OF ok] by (simp add: keeps_def)
qed

definition blank_screen :: screen where
  "blank_screen = c_setscroll 5 5 10 6 (c_io_init \<lparr>scroll_min_x = 0, scroll_min_y = 0, scroll_max_x = 0, scroll_max_y = 0,
     curr_x = 0, curr_y = 0, min_x = 0, min_y = 0, max_x = 0, max_y = 0, video = (\<lambda>_. 0x0720), cursor_ports = []\<rparr>)"

theorem c_putchar_in_region_witness:
  "screen_ok blank_screen \<and> screen_ok (c_putchar 65 blank_screen) \<and> video (c_putchar 65 blank_screen) 0xB8000 = 0x0720"
proof -
  have ok: "screen_ok blank_screen" by code_simp
  have "0xB8000 \<notin> region blank_screen"
  proof
    assume "0xB8000 \<in> region blank_screen"
    moreover have m: "scroll_min_x blank_screen = 5" "scroll_max_x blank_screen = 10" "scroll_min_y blank_screen = 5" "scroll_max_y blank_screen = 6"
      by code_simp+
    ultimately obtain x y :: u32 where xy: "0xB8000 = video_addr x y" "5 \<le> x" "x \<le> 10" "5 \<le> y" "y \<le> 6"
      by (auto simp: region_def)
    then have "unat x \<le> 10" "unat y \<le> 6" "5 \<le> unat x" by (simp_all add: word_le_nat_alt)
    then have "unat (2 * (y * 80 + x)) = 2 * (unat y * 80 + unat x)" by (simp add: unat_word_ariths)
    moreover have "2 * (y * 80 + x) = 0" using xy(1) by (simp add: video_addr_def)
    ultimately show False using \<open>5 \<le> unat x\<close> by (simp add: mult.commute)
  qed
  moreover have "video blank_screen 0xB8000 = 0x0720" by code_simp
  ultimately show ?thesis using c_putchar_in_region [OF ok, of "[]" 65] ok by simp
qed

end
