(* ===== verification/Ulib.thy ===== *)
theory Ulib
  imports Console
begin

text \<open>
  Formatted output that goes out character by character: \<^verbatim>\<open>writef\<close> of the user library, \<^verbatim>\<open>src/ulib/ulibc.c\<close>, and
  \<^verbatim>\<open>serial_printf\<close> of \<^verbatim>\<open>src/kernel/serial.c\<close>. The two have the same text but for the routine that takes a character,
  which is the argument \<open>put\<close>: the system call \<^verbatim>\<open>write\<close> or \<^verbatim>\<open>serial_char\<close>. The conversions of numbers and the
  parsing of options are those of \<^verbatim>\<open>c_io.c\<close>, text for text.
\<close>

type_synonym 's put = "u8 \<Rightarrow> 's \<Rightarrow> 's outcome"

subsection \<open>The user library\<close>

definition put_string :: "'s put \<Rightarrow> u8 list \<Rightarrow> 's \<Rightarrow> 's outcome" where
  "put_string put out = ofold put (takeWhile (\<lambda>c. c \<noteq> 0) out)"

fun put_pad :: "'s put \<Rightarrow> nat \<Rightarrow> u8 \<Rightarrow> 's \<Rightarrow> 's outcome" where
  "put_pad put 0 padchar s = Ok s"
| "put_pad put (Suc extra) padchar s = obind (put padchar s) (put_pad put extra padchar)"

definition put_padstr :: "'s put \<Rightarrow> u8 list \<Rightarrow> u32 \<Rightarrow> u32 \<Rightarrow> bool \<Rightarrow> u8 \<Rightarrow> 's \<Rightarrow> 's outcome" where
  "put_padstr put str len0 width leftadjust padchar s =
     (let len = (if sint len0 < 0 then of_nat (length (takeWhile (\<lambda>c. c \<noteq> 0) str)) else len0);
          extra = width - len in
      obind (if sint extra > 0 \<and> \<not> leftadjust then put_pad put (nat (sint extra)) padchar s else Ok s) (\<lambda>s1.
      obind (put_string put str s1) (\<lambda>s2.
      if sint extra > 0 \<and> leftadjust then put_pad put (nat (sint extra)) padchar s2 else Ok s2)))"

definition put_format :: "'s put \<Rightarrow> bool \<Rightarrow> u8 \<Rightarrow> u32 \<Rightarrow> u8 \<Rightarrow> arg list \<Rightarrow> 's \<Rightarrow> ('s \<times> arg list) outcome" where
  "put_format put left pc w ch as s =
     (if ch = 99 then obind (int_arg as) (\<lambda>(v, r). obind (put_padstr put [ucast v] 1 w left pc s) (\<lambda>s'. Ok (s', r)))
      else if ch = 100 then obind (int_arg as) (\<lambda>(v, r). let buf = cvtdec (sint v) in
        obind (put_padstr put buf (of_nat (length buf)) w left pc s) (\<lambda>s'. Ok (s', r)))
      else if ch = 115 then obind (str_arg as) (\<lambda>(str, r). obind (put_padstr put str (-1) w left pc s) (\<lambda>s'. Ok (s', r)))
      else if ch = 120 then obind (int_arg as) (\<lambda>(v, r). let buf = cvthex v in
        obind (put_padstr put buf (of_nat (length buf)) w left pc s) (\<lambda>s'. Ok (s', r)))
      else if ch = 111 then obind (int_arg as) (\<lambda>(v, r). let buf = cvtoct v in
        obind (put_padstr put buf (of_nat (length buf)) w left pc s) (\<lambda>s'. Ok (s', r)))
      else Ok (s, as))"

function put_printf :: "'s put \<Rightarrow> u8 list \<Rightarrow> arg list \<Rightarrow> 's \<Rightarrow> 's outcome" where
  "put_printf put [] as s = Fault"
| "put_printf put (ch # fmt) as s =
     (if ch = 0 then Ok s
      else if ch = 37 then
        obind (parse_options fmt) (\<lambda>(left, pc, w, code, rest).
        obind (put_format put left (ucast pc) w code as s) (\<lambda>(s', as'). put_printf put rest as' s'))
      else obind (put ch s) (put_printf put fmt as))"
  by pat_completeness auto
termination
  by (relation "measure (\<lambda>(p, f, as, s). length f)") (auto dest: parse_options_shorter)

text \<open>The system call is an argument: it hands the character to the serial line.\<close>

definition writef :: "'s put \<Rightarrow> u8 list \<Rightarrow> arg list \<Rightarrow> 's \<Rightarrow> 's outcome" where
  "writef write = put_printf write"

subsection \<open>The trace on the serial line\<close>

text \<open>The line status that each read of the port returns, and what is written to the ports. Waiting for ever is \<open>Diverge\<close>.\<close>

record serial =
  line_status :: "u8 list"
  serial_ports :: "(u16 \<times> u8) list"

abbreviation (input) SERIAL_PORT_A :: u16 where "SERIAL_PORT_A \<equiv> 0x3F8"

definition serial_install :: "serial \<Rightarrow> serial" where
  "serial_install s = s\<lparr>serial_ports := serial_ports s @
     [(SERIAL_PORT_A + 1, 0), (SERIAL_PORT_A + 3, 0x80), (SERIAL_PORT_A + 0, 3), (SERIAL_PORT_A + 1, 0), (SERIAL_PORT_A + 3, 3),
      (SERIAL_PORT_A + 2, 0xC7), (SERIAL_PORT_A + 4, 8)]\<rparr>"

fun wait_transmit_empty :: "u8 list \<Rightarrow> u8 list outcome" where
  "wait_transmit_empty [] = Diverge"
| "wait_transmit_empty (b # bs) = (if b AND 0x20 = 0 then wait_transmit_empty bs else Ok bs)"

definition serial_char :: "serial put" where
  "serial_char c s = obind (wait_transmit_empty (line_status s)) (\<lambda>bs.
     Ok (s\<lparr>line_status := bs, serial_ports := serial_ports s @ [(SERIAL_PORT_A, c)]\<rparr>))"

definition serial_string :: "u8 list \<Rightarrow> serial \<Rightarrow> serial outcome" where
  "serial_string = put_string serial_char"

definition serial_printf :: "u8 list \<Rightarrow> arg list \<Rightarrow> serial \<Rightarrow> serial outcome" where
  "serial_printf = put_printf serial_char"

subsection \<open>The characters of a format\<close>

definition collect :: "u8 list put" where
  "collect c out = Ok (out @ [c])"

lemma put_pad_ofold: "put_pad put n c s = ofold put (replicate n c) s"
  by (induction n arbitrary: s) (auto intro: obind_cong)

lemma ofold_collect: "ofold collect cs out = Ok (out @ cs)"
  by (induction cs arbitrary: out) (simp_all add: collect_def)

text \<open>The characters of a string that is padded to a width.\<close>

definition padded :: "u8 list \<Rightarrow> u32 \<Rightarrow> u32 \<Rightarrow> bool \<Rightarrow> u8 \<Rightarrow> u8 list" where
  "padded str len0 width left pc =
     (let str' = takeWhile (\<lambda>c. c \<noteq> 0) str; extra = width - (if sint len0 < 0 then of_nat (length str') else len0);
          p = replicate (nat (sint extra)) pc in
      if left then str' @ p else p @ str')"

lemma put_padstr_ofold: "put_padstr put str len width left pc s = ofold put (padded str len width left pc) s"
proof -
  let ?str = "takeWhile (\<lambda>c. c \<noteq> 0) str"
  let ?extra = "width - (if sint len < 0 then of_nat (length ?str) else len)"
  show ?thesis
  proof (cases "sint ?extra > 0")
    case False
    then have "padded str len width left pc = ?str" by (simp add: padded_def Let_def)
    then show ?thesis unfolding put_padstr_def Let_def using False by (simp add: put_string_def)
  next
    case True
    then show ?thesis unfolding put_padstr_def padded_def Let_def
      by (cases left) (simp_all add: put_string_def put_pad_ofold ofold_append)
  qed
qed

lemma put_padstr_collect: "put_padstr collect str len width left pc out = Ok (out @ padded str len width left pc)"
  by (simp add: put_padstr_ofold ofold_collect)

text \<open>One field of a format: its characters and the arguments that are left.\<close>

definition field :: "bool \<Rightarrow> u8 \<Rightarrow> u32 \<Rightarrow> u8 \<Rightarrow> arg list \<Rightarrow> (u8 list \<times> arg list) outcome" where
  "field left pc w ch as = put_format collect left pc w ch as []"

lemma put_format_field: "put_format put left pc w ch as s = obind (field left pc w ch as) (\<lambda>(cs, r). obind (ofold put cs s) (\<lambda>s'. Ok (s', r)))"
  by (simp add: put_format_def field_def Let_def put_padstr_ofold ofold_collect obind_assoc split_def)

lemma field_arguments: "field left pc w ch as = Ok (cs, r) \<Longrightarrow> length r \<le> length as"
  by (auto simp: field_def put_format_def int_arg_def str_arg_def Let_def split: if_splits list.splits arg.splits)

function printf_chars :: "u8 list \<Rightarrow> arg list \<Rightarrow> u8 list outcome" where
  "printf_chars [] as = Fault"
| "printf_chars (ch # fmt) as =
     (if ch = 0 then Ok []
      else if ch = 37 then
        obind (parse_options fmt) (\<lambda>(left, pc, w, code, rest).
        obind (field left (ucast pc) w code as) (\<lambda>(cs, as').
        obind (printf_chars rest as') (\<lambda>r. Ok (cs @ r))))
      else obind (printf_chars fmt as) (\<lambda>r. Ok (ch # r)))"
  by pat_completeness auto
termination
  by (relation "measure (\<lambda>(f, as). length f)") (auto dest: parse_options_shorter)

lemma put_printf_chars: "printf_chars fmt as = Ok cs \<Longrightarrow> put_printf put fmt as s = ofold put cs s"
proof (induction fmt as arbitrary: cs s rule: printf_chars.induct)
  case (2 ch fmt as)
  show ?case
  proof (cases "ch = 0 \<or> ch \<noteq> 37")
    case True
    then consider "ch = 0" "cs = []" | r where "ch \<noteq> 0" "ch \<noteq> 37" "printf_chars fmt as = Ok r" "cs = ch # r" using 2(3) by (auto split: if_splits)
    then show ?thesis
    proof cases
      case 2
      have "put_printf put fmt as = ofold put r" by (rule ext) (rule "2.IH"(2) [OF 2(1-3)])
      then show ?thesis using 2 by simp
    qed simp
  next
    case False
    then obtain left pc w code rest fs as' r where p: "parse_options fmt = Ok (left, pc, w, code, rest)"
      and f: "field left (ucast pc) w code as = Ok (fs, as')" and r: "printf_chars rest as' = Ok r" and cs: "cs = fs @ r"
      using 2(3) by auto
    have "put_printf put rest as' s' = ofold put r s'" for s' using 2(1) False p f r by auto
    then show ?thesis using False p f cs by (simp add: put_format_field obind_assoc ofold_append cong: obind_cong)
  qed
qed simp

subsection \<open>The console\<close>

definition screen_put :: "screen put" where
  "screen_put c s = Ok (c_putchar (scast c) s)"

lemma ofold_screen_put: "ofold screen_put cs s = Ok (fold (\<lambda>c. c_putchar (scast c)) cs s)"
  by (induction cs arbitrary: s) (simp_all add: screen_put_def)

lemma at_cursor_minus [simp]: "at_cursor (-1) (-1)"
  by (simp add: at_cursor_def)

lemma pad_loop_cursor: "scast c = pc \<Longrightarrow> pad_loop n (-1) (-1) pc s = (-1, fold (\<lambda>c. c_putchar (scast c)) (replicate n c) s)"
  by (induction n arbitrary: s) simp_all

lemma padstr_cursor:
  assumes "scast c = pc"
  shows "padstr (-1) (-1) str len w left pc s = (-1, fold (\<lambda>c. c_putchar (scast c)) (padded str len w left c) s)"
proof -
  let ?str = "takeWhile (\<lambda>c. c \<noteq> 0) str"
  let ?extra = "w - (if sint len < 0 then of_nat (length ?str) else len)"
  show ?thesis
  proof (cases "sint ?extra > 0")
    case False
    then have "padded str len w left c = ?str" by (simp add: padded_def Let_def)
    then show ?thesis unfolding padstr_def Let_def using False by (simp add: c_puts_def)
  next
    case True
    then show ?thesis unfolding padstr_def padded_def Let_def pad_def
      by (cases left) (simp_all add: c_puts_def pad_loop_cursor [OF assms])
  qed
qed

lemma do_format_cursor:
  assumes "scast c = pc"
  shows "do_format (-1) (-1) left pc w ch as s =
    obind (field left c w ch as) (\<lambda>(cs, r). Ok (-1, fold (\<lambda>c. c_putchar (scast c)) cs s, r))"
  by (simp add: do_format_def field_def put_format_def Let_def put_padstr_collect padstr_cursor [OF assms] obind_assoc split_def)

lemma parse_options_padchar: "parse_options f = Ok (left, pc, w, ch, r) \<Longrightarrow> scast (ucast pc :: u8) = pc"
  by (auto simp: parse_options_def split: if_splits simp del: parse_width.simps)

lemma do_printf_chars:
  "printf_chars fmt as = Ok cs \<Longrightarrow> do_printf (-1) (-1) fmt as s = Ok (fold (\<lambda>c. c_putchar (scast c)) cs s)"
proof (induction fmt as arbitrary: cs s rule: printf_chars.induct)
  case (2 ch fmt as)
  show ?case
  proof (cases "ch = 0 \<or> ch \<noteq> 37")
    case True
    then show ?thesis using 2 by auto
  next
    case False
    then obtain left pc w code rest fs as' r where p: "parse_options fmt = Ok (left, pc, w, code, rest)"
      and f: "field left (ucast pc) w code as = Ok (fs, as')" and r: "printf_chars rest as' = Ok r" and cs: "cs = fs @ r"
      using 2(3) by auto
    have "do_printf (-1) (-1) rest as' s' = Ok (fold (\<lambda>c. c_putchar (scast c)) r s')" for s' using 2(1) False p f r by auto
    then show ?thesis using False p f cs by (simp add: do_format_cursor [OF parse_options_padchar [OF p]])
  qed
qed simp

text \<open>
  C20: the formatted output of user programs, of the trace and of the console print the same characters: those the format and the
  arguments stand for, in order, whatever takes them
\<close>

theorem printf_equivalence:
  assumes "printf_chars fmt as = Ok cs"
  shows "writef write fmt as s = ofold write cs s \<and> serial_printf fmt as t = ofold serial_char cs t \<and>
    c_printf fmt as scr = Ok (fold (\<lambda>c. c_putchar (scast c)) cs scr)"
  by (simp add: writef_def serial_printf_def c_printf_def put_printf_chars [OF assms] do_printf_chars [OF assms])

theorem printf_equivalence_witness:
  "writef collect [37, 53, 100, 33, 0] [IntArg 42] [] = Ok [32, 32, 32, 52, 50, 33] \<and>
   c_printf [37, 53, 100, 33, 0] [IntArg 42] blank_screen = Ok (fold (\<lambda>c :: u8. c_putchar (scast c)) [32, 32, 32, 52, 50, 33] blank_screen)"
proof -
  have c: "printf_chars [37, 53, 100, 33, 0] [IntArg 42] = Ok [32, 32, 32, 52, 50, 33]" by code_simp
  show ?thesis using printf_equivalence [OF c, of collect "[]" undefined blank_screen] by (simp only: ofold_collect append_Nil simp_thms)
qed

subsection \<open>Fields\<close>

lemma cvtdec0_digits: "0 \<le> v \<Longrightarrow> 0 \<notin> set (cvtdec0 v)"
proof (induction "nat v" arbitrary: v rule: less_induct)
  case less
  have "digit_value (dec_char (v mod 10)) = v mod 10" by (rule digit_char) simp_all
  then have d: "dec_char (v mod 10) \<noteq> 0" by (auto simp: digit_value_def)
  show ?case
  proof (cases "v < 10")
    case True
    then show ?thesis using less.prems d by (subst cvtdec0_step) auto
  next
    case False
    then have "0 \<notin> set (cvtdec0 (v div 10))" by (intro less.hyps) auto
    then show ?thesis using False less.prems d by (subst cvtdec0_step) auto
  qed
qed

lemma cvtdec_digits: "0 \<notin> set (cvtdec (sint (v :: u32)))"
proof (cases "sint v < 0")
  case True
  have "cvtdec (sint v) = 45 # cvtdec0 (- sint v)"
    using True cvtdec0_min by (cases "sint v = - 2147483648") (simp_all add: cvtdec_def)
  then show ?thesis using cvtdec0_digits [of "- sint v"] True by simp
qed (use cvtdec0_digits [of "sint v"] in \<open>simp add: cvtdec_def\<close>)

lemma padding_width:
  assumes "unat w < 2 ^ 31" "n < 2 ^ 31"
  shows "nat (sint (w - of_nat n :: u32)) = unat w - n"
proof -
  have s: "sint (of_int z :: u32) = z" if "- (2 ^ 31) \<le> z" "z < 2 ^ 31" for z
    using that by (simp add: signed_of_int signed_take_bit_int_eq_self)
  have e: "w - of_nat n = (of_int (int (unat w) - int n) :: u32)" by simp
  have u: "unat w < 2147483648" "n < 2147483648" using assms by simp_all
  have b: "- 2147483648 \<le> int (unat w) - int n" using u by linarith
  have b': "int (unat w) - int n < 2147483648" using u by linarith
  have "sint (of_int (int (unat w) - int n) :: u32) = int (unat w) - int n" by (rule s) (simp_all only: power_numeral, use b b' in simp_all)
  with e show ?thesis by (simp only: nat_minus_as_int)
qed

text \<open>
  A decimal field is the decimal text of the number with padding up to the width, behind it or in front of it; zeros
  in front of a negative number come before its sign
\<close>

theorem decimal_field:
  assumes "unat w < 2 ^ 31"
  shows "\<exists>d p. field left pc w 100 (IntArg v # as) = Ok (if left then d @ p else p @ d, as) \<and> decimal_value d = sint v \<and>
    p = replicate (unat w - length d) pc \<and> (sint v < 0 \<longrightarrow> hd d = 45)"
proof -
  let ?d = "cvtdec (sint v)"
  have len: "length ?d \<le> 11" "decimal_value ?d = sint v" using cvtdec_decimal by simp_all
  have "takeWhile (\<lambda>c. c \<noteq> 0) ?d = ?d" using cvtdec_digits by (intro takeWhile_eq_all_conv [THEN iffD2]) auto
  moreover have "\<not> sint (of_nat (length ?d) :: u32) < 0" using len(1) by (simp add: signed_of_nat signed_take_bit_int_eq_self)
  moreover have "nat (sint (w - of_nat (length ?d))) = unat w - length ?d" by (rule padding_width [OF assms]) (use len in simp)
  ultimately have "field left pc w 100 (IntArg v # as) =
      Ok (if left then ?d @ replicate (unat w - length ?d) pc else replicate (unat w - length ?d) pc @ ?d, as)"
    by (simp add: field_def put_format_def int_arg_def put_padstr_collect padded_def Let_def)
  moreover have "sint v < 0 \<longrightarrow> hd ?d = 45" by (simp add: cvtdec_def)
  ultimately show ?thesis using len(2) by blast
qed

theorem decimal_field_witness:
  "field False 48 5 100 [IntArg (- 3)] = Ok ([48, 48, 48, 45, 51], []) \<and>
   (\<exists>d p. [48, 48, 48, 45, 51] = p @ d \<and> decimal_value d = - 3 \<and> p = [48, 48, 48])"
proof -
  have f: "field False 48 5 100 [IntArg (- 3)] = Ok ([48, 48, 48, 45, 51], [])" by code_simp
  obtain d p where d: "[48, 48, 48, 45, 51] = p @ d" "decimal_value d = - 3" "p = replicate (5 - length d) 48"
    using decimal_field [of 5 False 48 "- 3" "[]"] unfolding f by auto
  moreover have "length p + length d = 5" using arg_cong [OF d(1), of length] by simp
  moreover have "length d \<le> 5" using arg_cong [OF d(1), of length] by simp
  moreover have "d = [48, 48, 48, 45, 51] \<or> d = [48, 48, 45, 51] \<or> d = [48, 45, 51] \<or> d = [45, 51] \<or> d = [51] \<or> d = []"
    using d(1) by (auto simp: Cons_eq_append_conv)
  ultimately have e: "d = [45, 51]" by (auto simp: decimal_value_def value_of_def digit_value_def)
  then have "p = [48, 48, 48]" using d(1) by simp
  then show ?thesis using f d(1,2) by blast
qed

subsection \<open>The serial line\<close>

lemma wait_transmit_empty_Ok:
  "wait_transmit_empty bs = (if \<exists>b\<in>set bs. b AND 0x20 \<noteq> 0 then Ok (tl (dropWhile (\<lambda>b. b AND 0x20 = 0) bs)) else Diverge)"
  by (induction bs) auto

lemma ready_tl: "0 < length (filter P bs) \<Longrightarrow> length (filter P (tl (dropWhile (\<lambda>b. \<not> P b) bs))) = length (filter P bs) - 1"
  by (induction bs) auto

text \<open>
  The trace goes out over the serial line in order, each character when the line is ready; it does not end if the
  line is ready less often than there are characters
\<close>

theorem serial_printf_sends:
  assumes "printf_chars fmt as = Ok cs"
  shows "(length cs \<le> length (filter (\<lambda>b. b AND 0x20 \<noteq> 0) (line_status s)) \<longrightarrow>
      (\<exists>s'. serial_printf fmt as s = Ok s' \<and> serial_ports s' = serial_ports s @ map (\<lambda>c. (SERIAL_PORT_A, c)) cs)) \<and>
    (length (filter (\<lambda>b. b AND 0x20 \<noteq> 0) (line_status s)) < length cs \<longrightarrow> serial_printf fmt as s = Diverge)"
  unfolding serial_printf_def put_printf_chars [OF assms]
proof (induction cs arbitrary: s)
  case (Cons c cs)
  let ?R = "\<lambda>b :: u8. b AND 0x20 \<noteq> 0"
  show ?case
  proof (cases "\<exists>b\<in>set (line_status s). ?R b")
    case True
    let ?s = "s\<lparr>line_status := tl (dropWhile (\<lambda>b. b AND 0x20 = 0) (line_status s)), serial_ports := serial_ports s @ [(SERIAL_PORT_A, c)]\<rparr>"
    have step: "serial_char c s = Ok ?s" using True by (simp add: serial_char_def wait_transmit_empty_Ok)
    have "0 < length (filter ?R (line_status s))" using True by (auto simp: filter_empty_conv)
    then obtain n where n: "length (filter ?R (line_status s)) = Suc n" by (auto simp: gr0_conv_Suc)
    then have "length (filter ?R (line_status ?s)) = n" using ready_tl [of ?R "line_status s"] by simp
    then show ?thesis using Cons.IH [of ?s] unfolding n by (auto simp: step)
  next
    case False
    then have "serial_char c s = Diverge" "filter ?R (line_status s) = []" by (auto simp: serial_char_def wait_transmit_empty_Ok filter_empty_conv)
    then show ?thesis by simp
  qed
qed simp

theorem serial_printf_sends_witness:
  "\<exists>s'. serial_printf [97, 98, 0] [] \<lparr>line_status = [0, 0x20, 0x60], serial_ports = []\<rparr> = Ok s' \<and> serial_ports s' = [(0x3F8, 97), (0x3F8, 98)]"
proof -
  have c: "printf_chars [97, 98, 0] [] = Ok [97, 98]" by code_simp
  show ?thesis using serial_printf_sends [OF c, of "\<lparr>line_status = [0, 0x20, 0x60], serial_ports = []\<rparr>"] by simp
qed

end
