(* ===== verification/Gconsole.thy ===== *)
theory Gconsole
  imports Console
begin

text \<open>
  The graphical console, \<^verbatim>\<open>src/kernel/video/gconsole.cpp\<close>, which takes the place of the output routines of \<^verbatim>\<open>c_io.c\<close> unless the
  kernel is built with \<^verbatim>\<open>VIDEO_DISABLE\<close>. The text is kept in an array of 2000 characters; an access outside the
  array is a \<open>Fault\<close>. The conversions of numbers and the options of a format are the same text as in \<^verbatim>\<open>c_io.c\<close> and are
  those of \<^theory_text>\<open>Console\<close>. As there, the loops over columns end because no column bound is the largest word.
\<close>

subsection \<open>State\<close>

record gcon =
  gscroll_min_x :: u32
  gscroll_min_y :: u32
  gscroll_max_x :: u32
  gscroll_max_y :: u32
  gcursor_x :: u32
  gcursor_y :: u32
  gmin_x :: u32
  gmin_y :: u32
  gmax_x :: u32
  gmax_y :: u32
  chars :: "nat \<Rightarrow> u8"
  gwindow :: "bool option"

abbreviation (input) SCREEN_X_SIZE :: nat where "SCREEN_X_SIZE \<equiv> 80"
abbreviation (input) SCREEN_Y_SIZE :: nat where "SCREEN_Y_SIZE \<equiv> 25"
abbreviation (input) SCREEN_MAX_X :: nat where "SCREEN_MAX_X \<equiv> 79"
abbreviation (input) SCREEN_MAX_Y :: nat where "SCREEN_MAX_Y \<equiv> 24"

text \<open>The offset of a cell from the start of the array, as a 32-bit number that wraps around.\<close>

definition screen_addr :: "u32 \<Rightarrow> u32 \<Rightarrow> u32" where
  "screen_addr x y = x + (y - 1) * 80"

definition get_cell :: "u32 \<Rightarrow> gcon \<Rightarrow> u8 outcome" where
  "get_cell a g = (if unat a < SCREEN_X_SIZE * SCREEN_Y_SIZE then Ok (chars g (unat a)) else Fault)"

definition put_cell :: "u32 \<Rightarrow> u8 \<Rightarrow> gcon \<Rightarrow> gcon outcome" where
  "put_cell a c g = (if unat a < SCREEN_X_SIZE * SCREEN_Y_SIZE then Ok (g\<lparr>chars := (chars g)(unat a := c)\<rparr>) else Fault)"

text \<open>The window of the console, once there is one, is marked to be drawn again.\<close>

definition gcon_flush :: "gcon \<Rightarrow> gcon" where
  "gcon_flush g = g\<lparr>gwindow := map_option (\<lambda>_. True) (gwindow g)\<rparr>"

subsection \<open>Output\<close>

definition gcon_putchar_raw :: "u32 \<Rightarrow> u32 \<Rightarrow> u8 \<Rightarrow> gcon \<Rightarrow> gcon outcome" where
  "gcon_putchar_raw x y c g = (if x \<le> gmax_x g \<and> y \<le> gmax_y g then put_cell (screen_addr x y) c g else Ok g)"

definition gcon_setscroll :: "u32 \<Rightarrow> u32 \<Rightarrow> u32 \<Rightarrow> u32 \<Rightarrow> gcon \<Rightarrow> gcon" where
  "gcon_setscroll x0 y0 x1 y1 g =
     (let nx = bound (gmin_x g) x0 (gmax_x g); ny = bound (gmin_y g) y0 (gmax_y g) in
      g\<lparr>gscroll_min_x := nx, gscroll_min_y := ny, gscroll_max_x := bound nx x1 (gmax_x g),
        gscroll_max_y := bound ny y1 (gmax_y g), gcursor_x := nx, gcursor_y := ny\<rparr>)"

definition gcon_moveto :: "u32 \<Rightarrow> u32 \<Rightarrow> gcon \<Rightarrow> gcon" where
  "gcon_moveto x y g = g\<lparr>gcursor_x := bound (gscroll_min_x g) (x + gscroll_min_x g) (gscroll_max_x g),
     gcursor_y := bound (gscroll_min_y g) (y + gscroll_min_y g) (gscroll_max_y g)\<rparr>"

definition gcon_blank_line :: "u32 \<Rightarrow> gcon \<Rightarrow> gcon outcome" where
  "gcon_blank_line y g = ofold (\<lambda>x. put_cell (screen_addr x y) 32) (columns (gscroll_min_x g) (gscroll_max_x g)) g"

definition gcon_copy_line :: "u32 \<Rightarrow> u32 \<Rightarrow> gcon \<Rightarrow> gcon outcome" where
  "gcon_copy_line to from g =
     ofold (\<lambda>x g. obind (get_cell (screen_addr x from) g) (\<lambda>c. put_cell (screen_addr x to) c g))
       (columns (gscroll_min_x g) (gscroll_max_x g)) g"

definition gcon_clearscroll :: "gcon \<Rightarrow> gcon outcome" where
  "gcon_clearscroll g =
     obind (ofold gcon_blank_line (columns (gscroll_min_y g) (gscroll_max_y g)) g) (\<lambda>g. Ok (gcon_flush g))"

definition gcon_clearscreen :: "gcon \<Rightarrow> gcon outcome" where
  "gcon_clearscreen g =
     obind (ofold (\<lambda>i. put_cell (screen_addr (gmin_x g) (gmin_y g) + of_nat i) 32)
        [0..<unat ((gmax_y g - gmin_y g + 1) * (gmax_x g - gmin_x g + 1))] g) (\<lambda>g. Ok (gcon_flush g))"

definition gcon_scroll :: "u32 \<Rightarrow> gcon \<Rightarrow> gcon outcome" where
  "gcon_scroll lines g =
     (if lines > gscroll_max_y g - gscroll_min_y g
      then obind (gcon_clearscroll g) (\<lambda>g. Ok (g\<lparr>gcursor_x := gscroll_min_x g, gcursor_y := gscroll_min_y g\<rparr>))
      else
        obind (ofold (\<lambda>l. gcon_copy_line l (l + lines)) (columns (gscroll_min_y g) (gscroll_max_y g - lines)) g) (\<lambda>g1.
        obind (ofold gcon_blank_line (columns (gscroll_max_y g - lines + 1) (gscroll_max_y g)) g1) (\<lambda>g2.
        Ok (gcon_flush g2))))"

text \<open>\<^verbatim>\<open>__gcon_putchar\<close>\<close>

definition gcon_output :: "u8 \<Rightarrow> gcon \<Rightarrow> gcon outcome" where
  "gcon_output c g0 =
     obind (if gcursor_y g0 > gscroll_max_y g0
            then obind (gcon_scroll (gcursor_y g0 - gscroll_max_y g0) g0) (\<lambda>g. Ok (g\<lparr>gcursor_y := gscroll_max_y g0\<rparr>))
            else Ok g0) (\<lambda>g.
     if c = 10 then
       obind (ofold (\<lambda>x. gcon_putchar_raw x (gcursor_y g) 32) (columns (gcursor_x g) (gscroll_max_x g)) g) (\<lambda>g.
       Ok (g\<lparr>gcursor_x := gscroll_min_x g, gcursor_y := gcursor_y g + 1\<rparr>))
     else if c = 13 then Ok (g\<lparr>gcursor_x := gscroll_min_x g\<rparr>)
     else
       obind (gcon_putchar_raw (gcursor_x g) (gcursor_y g) c g) (\<lambda>g.
       let g1 = g\<lparr>gcursor_x := gcursor_x g + 1\<rparr> in
       Ok (if gcursor_x g1 > gscroll_max_x g1 then g1\<lparr>gcursor_x := gscroll_min_x g1, gcursor_y := gcursor_y g1 + 1\<rparr> else g1)))"

definition gcon_putchar :: "u8 \<Rightarrow> gcon \<Rightarrow> gcon outcome" where
  "gcon_putchar c g = obind (gcon_output c g) (\<lambda>g. Ok (gcon_flush g))"

definition gcon_putchar_at :: "u32 \<Rightarrow> u32 \<Rightarrow> u8 \<Rightarrow> gcon \<Rightarrow> gcon outcome" where
  "gcon_putchar_at x y c g =
     obind (if c = 10 then
              let limit = (if x > gscroll_max_x g then gmax_x g
                           else if x \<ge> gscroll_min_x g then gscroll_max_x g else gscroll_min_x g - 1) in
              ofold (\<lambda>x. gcon_putchar_raw x y 32) (columns x limit) g
            else gcon_putchar_raw x y c g) (\<lambda>g. Ok (gcon_flush g))"

definition gcon_puts :: "u8 list \<Rightarrow> gcon \<Rightarrow> gcon outcome" where
  "gcon_puts str g = obind (ofold gcon_output (takeWhile (\<lambda>c. c \<noteq> 0) str) g) (\<lambda>g. Ok (gcon_flush g))"

fun gcon_puts_loop :: "u32 \<Rightarrow> u32 \<Rightarrow> u8 list \<Rightarrow> gcon \<Rightarrow> gcon outcome" where
  "gcon_puts_loop x y [] g = Ok g"
| "gcon_puts_loop x y (c # cs) g =
     (if c \<noteq> 0 \<and> x \<le> gmax_x g then obind (gcon_putchar_at x y c g) (gcon_puts_loop (x + 1) y cs) else Ok g)"

definition gcon_puts_at :: "u32 \<Rightarrow> u32 \<Rightarrow> u8 list \<Rightarrow> gcon \<Rightarrow> gcon outcome" where
  "gcon_puts_at x y str g = obind (gcon_puts_loop x y str g) (\<lambda>g. Ok (gcon_flush g))"

definition gcon_init :: "gcon \<Rightarrow> gcon" where
  "gcon_init g = g\<lparr>gmin_x := 0, gmin_y := 0, gmax_x := 79, gmax_y := 24, gscroll_min_x := 0, gscroll_min_y := 0,
     gscroll_max_x := 79, gscroll_max_y := 24, gcursor_y := 0, gcursor_x := 0\<rparr>"

subsection \<open>Formatted output\<close>

fun gcon_pad_loop :: "nat \<Rightarrow> u32 \<Rightarrow> u32 \<Rightarrow> u8 \<Rightarrow> gcon \<Rightarrow> (u32 \<times> gcon) outcome" where
  "gcon_pad_loop 0 x y padchar g = Ok (x, g)"
| "gcon_pad_loop (Suc n) x y padchar g =
     (if \<not> at_cursor x y then obind (gcon_putchar_at x y padchar g) (gcon_pad_loop n (x + 1) y padchar)
      else obind (gcon_putchar padchar g) (gcon_pad_loop n x y padchar))"

definition gcon_pad :: "u32 \<Rightarrow> u32 \<Rightarrow> u32 \<Rightarrow> u8 \<Rightarrow> gcon \<Rightarrow> (u32 \<times> gcon) outcome" where
  "gcon_pad x y extra padchar g = gcon_pad_loop (nat (sint extra)) x y padchar g"

definition gcon_padstr :: "u32 \<Rightarrow> u32 \<Rightarrow> u8 list \<Rightarrow> u32 \<Rightarrow> u32 \<Rightarrow> bool \<Rightarrow> u8 \<Rightarrow> gcon \<Rightarrow> (u32 \<times> gcon) outcome" where
  "gcon_padstr x y str len0 width leftadjust padchar g =
     (let len = (if sint len0 < 0 then of_nat (length (takeWhile (\<lambda>c. c \<noteq> 0) str)) else len0); extra = width - len in
      obind (if sint extra > 0 \<and> \<not> leftadjust then gcon_pad x y extra padchar g else Ok (x, g)) (\<lambda>(x1, g1).
      obind (if \<not> at_cursor x1 y then obind (gcon_puts_at x1 y str g1) (\<lambda>g. Ok (x1 + len, g))
             else obind (gcon_puts str g1) (\<lambda>g. Ok (x1, g))) (\<lambda>(x2, g2).
      if sint extra > 0 \<and> leftadjust then gcon_pad x2 y extra padchar g2 else Ok (x2, g2))))"

definition gcon_do_format :: "u32 \<Rightarrow> u32 \<Rightarrow> bool \<Rightarrow> u8 \<Rightarrow> u32 \<Rightarrow> u8 \<Rightarrow> arg list \<Rightarrow> gcon \<Rightarrow> (u32 \<times> gcon \<times> arg list) outcome" where
  "gcon_do_format x y left pc w ch as g =
     (if ch = 99 then obind (int_arg as) (\<lambda>(v, r).
        obind (gcon_padstr x y [ucast v] 1 w left pc g) (\<lambda>(x', g'). Ok (x', g', r)))
      else if ch = 100 then obind (int_arg as) (\<lambda>(v, r). let buf = cvtdec (sint v) in
        obind (gcon_padstr x y buf (of_nat (length buf)) w left pc g) (\<lambda>(x', g'). Ok (x', g', r)))
      else if ch = 115 then obind (str_arg as) (\<lambda>(str, r).
        obind (gcon_padstr x y str (-1) w left pc g) (\<lambda>(x', g'). Ok (x', g', r)))
      else if ch = 120 then obind (int_arg as) (\<lambda>(v, r). let buf = cvthex v in
        obind (gcon_padstr x y buf (of_nat (length buf)) w left pc g) (\<lambda>(x', g'). Ok (x', g', r)))
      else if ch = 111 then obind (int_arg as) (\<lambda>(v, r). let buf = cvtoct v in
        obind (gcon_padstr x y buf (of_nat (length buf)) w left pc g) (\<lambda>(x', g'). Ok (x', g', r)))
      else Ok (x, g, as))"

function gcon_do_printf :: "u32 \<Rightarrow> u32 \<Rightarrow> u8 list \<Rightarrow> arg list \<Rightarrow> gcon \<Rightarrow> gcon outcome" where
  "gcon_do_printf x y [] as g = Fault"
| "gcon_do_printf x y (ch # fmt) as g =
     (if ch = 0 then Ok g
      else if ch = 37 then
        obind (parse_options fmt) (\<lambda>(left, pc, w, code, rest).
        obind (gcon_do_format x y left (ucast pc) w code as g) (\<lambda>(x', g', as'). gcon_do_printf x' y rest as' g'))
      else if \<not> at_cursor x y then
        obind (gcon_putchar_raw x y ch g) (\<lambda>g'.
        if ch = 10 then gcon_do_printf (gscroll_min_x g') (y + 1) fmt as g'
        else if ch = 13 then gcon_do_printf (gscroll_min_x g') y fmt as g'
        else gcon_do_printf (x + 1) y fmt as g')
      else obind (gcon_output ch g) (gcon_do_printf x y fmt as))"
  by pat_completeness auto
termination
  by (relation "measure (\<lambda>(x, y, f, as, s). length f)") (auto dest: parse_options_shorter)

definition gcon_printf_at :: "u32 \<Rightarrow> u32 \<Rightarrow> u8 list \<Rightarrow> arg list \<Rightarrow> gcon \<Rightarrow> gcon outcome" where
  "gcon_printf_at x y fmt as g = obind (gcon_do_printf x y fmt as g) (\<lambda>g. Ok (gcon_flush g))"

definition gcon_printf :: "u8 list \<Rightarrow> arg list \<Rightarrow> gcon \<Rightarrow> gcon outcome" where
  "gcon_printf fmt as g = obind (gcon_do_printf (-1) (-1) fmt as g) (\<lambda>g. Ok (gcon_flush g))"

subsection \<open>The view\<close>

text \<open>The pieces of the array, by their first and their last offset, that \<^verbatim>\<open>ConsoleView::Draw\<close> draws, with the row on the screen.\<close>

function view_loop :: "nat \<Rightarrow> nat \<Rightarrow> nat \<Rightarrow> (nat \<times> nat \<times> nat) list" where
  "view_loop start stop y =
     (if stop < SCREEN_MAX_X * SCREEN_MAX_Y
      then (start, stop, y) # view_loop (stop + 1) (stop + SCREEN_X_SIZE) (y + 16) else [])"
  by auto
termination by (relation "measure (\<lambda>(a, b, c). 1896 - b)") auto

definition console_view :: "nat \<Rightarrow> (nat \<times> nat \<times> nat) list" where
  "console_view bounds_y = view_loop 0 SCREEN_MAX_X (bounds_y + 36)"

subsection \<open>Cells\<close>

lemma rows_inject: "80 * a + b = 80 * c + d \<Longrightarrow> b < 80 \<Longrightarrow> d < 80 \<Longrightarrow> a = c \<and> b = d" for a b c d :: nat
proof -
  assume e: "80 * a + b = 80 * c + d" and b: "b < 80" "d < 80"
  have "a = (80 * a + b) div 80" using b by simp
  also have "\<dots> = c" unfolding e using b by simp
  finally show ?thesis using e by simp
qed

lemma unat_screen_addr:
  assumes "x \<le> 79" "1 \<le> y" "y \<le> 24"
  shows "unat (screen_addr x y) = unat x + 80 * (unat y - 1)"
proof -
  have b: "unat x \<le> 79" "1 \<le> unat y" "unat y \<le> 24" using assms by (simp_all add: word_le_nat_alt)
  have "unat (y - 1) = unat y - 1" using assms(2) by (simp add: unat_sub)
  moreover have "unat ((y - 1) * 80) = unat (y - 1) * unat (80 :: u32) mod 2 ^ 32" by (simp only: unat_word_ariths) simp
  ultimately have "unat ((y - 1) * 80) = 80 * (unat y - 1)" using b by simp
  then show ?thesis unfolding screen_addr_def using b by (subst unat_add_no_wrap) simp_all
qed

lemma screen_addr_inject:
  assumes "x \<le> 79" "1 \<le> y" "y \<le> 24" "x' \<le> 79" "1 \<le> y'" "y' \<le> 24" "unat (screen_addr x y) = unat (screen_addr x' y')"
  shows "x = x' \<and> y = y'"
proof -
  have b: "unat x < 80" "unat x' < 80" "1 \<le> unat y" "1 \<le> unat y'" using assms(1-6) by (simp_all add: word_le_nat_alt)
  have "80 * (unat y - 1) + unat x = 80 * (unat y' - 1) + unat x'"
    using assms(7) unfolding unat_screen_addr [OF assms(1-3)] unat_screen_addr [OF assms(4-6)] by simp
  from rows_inject [OF this b(1,2)] have "unat x = unat x' \<and> unat y = unat y'" using b(3,4) by linarith
  then show ?thesis by (simp add: word_unat_eq_iff)
qed

lemma video_addr_inject:
  assumes "x \<le> 79" "y \<le> 24" "x' \<le> 79" "y' \<le> 24" "video_addr x y = video_addr x' y'"
  shows "x = x' \<and> y = y'"
proof -
  have b: "unat a \<le> 79" if "a \<le> 79" for a :: u32 using that by (simp add: word_le_nat_alt)
  have c: "unat a \<le> 24" if "a \<le> 24" for a :: u32 using that by (simp add: word_le_nat_alt)
  have u: "unat (video_addr a d) = 0xB8000 + 2 * (80 * unat d + unat a)" if "a \<le> 79" "d \<le> 24" for a d
    using b [OF that(1)] c [OF that(2)] by (simp add: video_addr_def unat_word_ariths)
  have "80 * unat y + unat x = 80 * unat y' + unat x'"
    using arg_cong [OF assms(5), of unat] u [OF assms(1,2)] u [OF assms(3,4)] by simp
  from rows_inject [OF this] have "unat x = unat x' \<and> unat y = unat y'" using b [OF assms(1)] b [OF assms(3)] by linarith
  then show ?thesis by (simp add: word_unat_eq_iff)
qed

text \<open>The two consoles show the same text below the first row, and have the same bounds and cursor.\<close>

definition same_text :: "screen \<Rightarrow> gcon \<Rightarrow> bool" where
  "same_text s g \<longleftrightarrow> gscroll_min_x g = scroll_min_x s \<and> gscroll_min_y g = scroll_min_y s \<and>
     gscroll_max_x g = scroll_max_x s \<and> gscroll_max_y g = scroll_max_y s \<and> gcursor_x g = curr_x s \<and> gcursor_y g = curr_y s \<and>
     gmin_x g = min_x s \<and> gmin_y g = min_y s \<and> gmax_x g = max_x s \<and> gmax_y g = max_y s \<and>
     (\<forall>x y. x \<le> 79 \<longrightarrow> 1 \<le> y \<longrightarrow> y \<le> 24 \<longrightarrow> chars g (unat (screen_addr x y)) = ucast (video s (video_addr x y)))"

lemma cell_in_range: "x \<le> 79 \<Longrightarrow> 1 \<le> y \<Longrightarrow> y \<le> 24 \<Longrightarrow> unat (screen_addr x y) < 2000"
proof -
  assume a: "x \<le> 79" "1 \<le> y" "y \<le> 24"
  then have "unat x \<le> 79" "unat y \<le> 24" by (simp_all add: word_le_nat_alt)
  then show ?thesis unfolding unat_screen_addr [OF a] by simp
qed

lemma poke_sim:
  assumes R: "same_text s g" and xy: "x \<le> 79" "1 \<le> y" "y \<le> 24" and c: "c = ucast v"
  shows "\<exists>g'. put_cell (screen_addr x y) c g = Ok g' \<and> same_text (s\<lparr>video := (video s)(video_addr x y := v)\<rparr>) g'"
proof -
  let ?g = "g\<lparr>chars := (chars g)(unat (screen_addr x y) := c)\<rparr>"
  have "same_text (s\<lparr>video := (video s)(video_addr x y := v)\<rparr>) ?g"
    unfolding same_text_def
  proof (intro conjI allI impI)
    fix x' y' :: u32 assume b: "x' \<le> 79" "1 \<le> y'" "y' \<le> 24"
    show "chars ?g (unat (screen_addr x' y')) = ucast (video (s\<lparr>video := (video s)(video_addr x y := v)\<rparr>) (video_addr x' y'))"
    proof (cases "x' = x \<and> y' = y")
      case False
      then have "unat (screen_addr x' y') \<noteq> unat (screen_addr x y)" "video_addr x' y' \<noteq> video_addr x y"
        using screen_addr_inject [OF b xy] video_addr_inject [OF b(1,3) xy(1,3)] by blast+
      then show ?thesis using R b by (simp add: same_text_def)
    qed (simp add: c)
  qed (use R in \<open>simp_all add: same_text_def\<close>)
  then show ?thesis using cell_in_range [OF xy] by (simp add: put_cell_def)
qed

lemma get_cell_sim:
  assumes "same_text s g" "x \<le> 79" "1 \<le> y" "y \<le> 24"
  shows "get_cell (screen_addr x y) g = Ok (ucast (video s (video_addr x y)))"
  using assms cell_in_range [OF assms(2-4)] by (simp add: get_cell_def same_text_def)

lemma putchar_raw_sim:
  assumes R: "same_text s g" and xy: "x \<le> 79" "1 \<le> y" "y \<le> 24"
  shows "\<exists>g'. gcon_putchar_raw x y (ucast c) g = Ok g' \<and> same_text (putchar_raw x y c s) g'"
proof -
  have w: "(ucast (ucast c :: u16) :: u8) = ucast c" by (rule bit_word_eqI) (auto simp: bit_simps)
  have "(ucast (a OR d) :: u8) = ucast a OR ucast d" for a d :: u16 by (rule bit_word_eqI) (auto simp: bit_simps)
  then have "(ucast (ucast c OR 0x0700 :: u16) :: u8) = ucast (ucast c :: u16) OR ucast (0x0700 :: u16)" .
  moreover have "(ucast (0x0700 :: u16) :: u8) = 0" by code_simp
  ultimately have "(ucast (ucast c OR 0x0700 :: u16) :: u8) = ucast c" by (simp only: w or.right_neutral)
  then have "ucast c = (ucast (if c > 0xFF then ucast c else ucast c OR 0x0700 :: u16) :: u8)" by (simp only: w simp_thms split: if_split)
  from poke_sim [OF R xy this] have "\<exists>g'. put_cell (screen_addr x y) (ucast c) g = Ok g' \<and>
      same_text (s\<lparr>video := (video s)(video_addr x y := if c > 0xFF then ucast c else ucast c OR 0x0700)\<rparr>) g'" .
  moreover have "gmax_x g = max_x s" "gmax_y g = max_y s" using R by (simp_all add: same_text_def)
  ultimately show ?thesis using R by (simp only: gcon_putchar_raw_def putchar_raw_def split: if_split) auto
qed

lemma fold_sim:
  assumes "\<And>x s g. x \<in> set xs \<Longrightarrow> R s g \<Longrightarrow> \<exists>g'. G x g = Ok g' \<and> R (F x s) g'" "R s g"
  shows "\<exists>g'. ofold G xs g = Ok g' \<and> R (fold F xs s) g'"
  using assms
proof (induction xs arbitrary: s g)
  case (Cons x xs)
  obtain g' where "G x g = Ok g'" "R (F x s) g'" using Cons.prems(1) [of x s g] Cons.prems(2) by auto
  moreover have "\<exists>g''. ofold G xs g' = Ok g'' \<and> R (fold F xs (F x s)) g''"
    by (rule Cons.IH) (use Cons.prems(1) calculation in auto)
  ultimately show ?case by auto
qed simp

subsection \<open>Output\<close>

definition screen_bounds :: "screen \<Rightarrow> u32 list" where
  "screen_bounds s = [scroll_min_x s, scroll_min_y s, scroll_max_x s, scroll_max_y s, min_x s, min_y s, max_x s, max_y s]"

definition text_sim :: "u32 list \<Rightarrow> screen \<Rightarrow> gcon \<Rightarrow> bool" where
  "text_sim b s g \<longleftrightarrow> same_text s g \<and> screen_bounds s = b"

lemma sim_poke:
  assumes "text_sim b s g" "x \<le> 79" "1 \<le> y" "y \<le> 24" "c = ucast v"
  shows "\<exists>g'. put_cell (screen_addr x y) c g = Ok g' \<and> text_sim b (s\<lparr>video := (video s)(video_addr x y := v)\<rparr>) g'"
  using poke_sim [OF _ assms(2-5), of s g] assms(1) by (simp add: text_sim_def screen_bounds_def)

lemma sim_raw:
  assumes "text_sim b s g" "x \<le> 79" "1 \<le> y" "y \<le> 24"
  shows "\<exists>g'. gcon_putchar_raw x y (ucast c) g = Ok g' \<and> text_sim b (putchar_raw x y c s) g'"
proof -
  have "screen_bounds (putchar_raw x y c s) = screen_bounds s" by (simp add: screen_bounds_def putchar_raw_def)
  then show ?thesis using putchar_raw_sim [OF _ assms(2-4), of s g c] assms(1) by (simp add: text_sim_def)
qed

text \<open>What is needed of the bounds: the region lies in the array, which starts with the second row of the screen.\<close>

definition inside :: "u32 list \<Rightarrow> bool" where
  "inside b \<longleftrightarrow> (\<exists>s. b = screen_bounds s \<and> scroll_max_x s \<le> 79 \<and> 1 \<le> scroll_min_y s \<and>
     scroll_min_y s \<le> scroll_max_y s \<and> scroll_max_y s \<le> 24)"

lemma insideD:
  assumes "text_sim b s g" "inside b"
  shows "scroll_max_x s \<le> 79" "1 \<le> scroll_min_y s" "scroll_max_y s \<le> 24"
    "gscroll_min_x g = scroll_min_x s" "gscroll_max_x g = scroll_max_x s" "gscroll_min_y g = scroll_min_y s" "gscroll_max_y g = scroll_max_y s"
    "gcursor_x g = curr_x s" "gcursor_y g = curr_y s" "scroll_min_y s \<le> scroll_max_y s"
  using assms by (auto simp: text_sim_def inside_def screen_bounds_def same_text_def)

lemma in_columns: "x \<in> set (columns lo hi) \<Longrightarrow> hi \<le> n \<Longrightarrow> x \<le> n" "x \<in> set (columns lo hi) \<Longrightarrow> n \<le> lo \<Longrightarrow> n \<le> x"
  using set_columns [of x lo hi] by auto

lemma blank_line_sim:
  assumes R: "text_sim b s g" and b: "inside b" and y: "1 \<le> y" "y \<le> 24"
  shows "\<exists>g'. gcon_blank_line y g = Ok g' \<and> text_sim b (blank_line y s) g'"
  unfolding gcon_blank_line_def blank_line_def insideD(4,5) [OF R b]
  by (rule fold_sim [where R = "text_sim b"]) (use R insideD(1) [OF R b] y in \<open>auto intro!: sim_poke dest: in_columns(1)\<close>)

lemma copy_line_sim:
  assumes R: "text_sim b s g" and b: "inside b" and y: "1 \<le> y" "y \<le> 24" "1 \<le> f" "f \<le> 24"
  shows "\<exists>g'. gcon_copy_line y f g = Ok g' \<and> text_sim b (copy_line y f s) g'"
  unfolding gcon_copy_line_def copy_line_def insideD(4,5) [OF R b]
proof (rule fold_sim [where R = "text_sim b"])
  fix x t h assume x: "x \<in> set (columns (scroll_min_x s) (scroll_max_x s))" and t: "text_sim b t h"
  have x79: "x \<le> 79" using in_columns(1) [OF x] insideD(1) [OF R b] by blast
  have "get_cell (screen_addr x f) h = Ok (ucast (video t (video_addr x f)))"
    using t x79 y by (intro get_cell_sim) (simp_all add: text_sim_def)
  then show "\<exists>g'. obind (get_cell (screen_addr x f) h) (\<lambda>c. put_cell (screen_addr x y) c h) = Ok g' \<and>
      text_sim b (t\<lparr>video := (video t)(video_addr x y := video t (video_addr x f))\<rparr>) g'"
    using sim_poke [OF t x79 y(1,2) refl] by simp
qed (rule R)

lemma flush_sim: "text_sim b s (gcon_flush g) = text_sim b s g"
  by (simp add: text_sim_def same_text_def gcon_flush_def)

lemma flush_same: "same_text s (gcon_flush g) = same_text s g"
  by (simp add: same_text_def gcon_flush_def)

lemma clearscroll_sim:
  assumes R: "text_sim b s g" and b: "inside b"
  shows "\<exists>g'. gcon_clearscroll g = Ok g' \<and> text_sim b (c_clearscroll s) g'"
proof -
  have "\<exists>g'. ofold gcon_blank_line (columns (scroll_min_y s) (scroll_max_y s)) g = Ok g' \<and>
      text_sim b (fold (\<lambda>y s. fold (\<lambda>x s. s\<lparr>video := (video s)(video_addr x y := 0x0720)\<rparr>)
     (columns (scroll_min_x s) (scroll_max_x s)) s) (columns (scroll_min_y s) (scroll_max_y s)) s) g'"
  proof (rule fold_sim [where R = "text_sim b"])
    fix y t h assume y: "y \<in> set (columns (scroll_min_y s) (scroll_max_y s))" and t: "text_sim b t h"
    have "1 \<le> y" "y \<le> 24" using in_columns [OF y] insideD(2,3) [OF R b] by blast+
    from blank_line_sim [OF t b this] show "\<exists>g'. gcon_blank_line y h = Ok g' \<and>
       text_sim b (fold (\<lambda>x s. s\<lparr>video := (video s)(video_addr x y := 0x0720)\<rparr>) (columns (scroll_min_x t) (scroll_max_x t)) t) g'"
      by (simp add: blank_line_def)
  qed (rule R)
  then show ?thesis using insideD(6,7) [OF R b] by (auto simp: gcon_clearscroll_def c_clearscroll_def flush_sim)
qed

lemma scroll_sim:
  assumes R: "text_sim b s g" and b: "inside b"
  shows "\<exists>g'. gcon_scroll n g = Ok g' \<and> text_sim b (c_scroll n s) g'"
proof (cases "n > scroll_max_y s - scroll_min_y s")
  case True
  obtain g1 where g1: "gcon_clearscroll g = Ok g1" "text_sim b (c_clearscroll s) g1" using clearscroll_sim [OF R b] by blast
  then show ?thesis using True insideD(6,7) [OF R b] insideD(4,6) [OF g1(2) b]
    by (simp add: gcon_scroll_def c_scroll_def Let_def c_setcursor_def) (simp add: text_sim_def same_text_def screen_bounds_def)
next
  case False
  let ?lo = "scroll_min_y s" and ?hi = "scroll_max_y s"
  have u: "unat n \<le> unat ?hi - unat ?lo" "unat ?hi \<le> 24" "1 \<le> unat ?lo" "unat ?lo \<le> unat ?hi"
    using False insideD(2,3,10) [OF R b] by (simp_all add: word_le_nat_alt not_less unat_sub)
  have d: "unat (?hi - n) = unat ?hi - unat n" using u by (intro unat_sub) (simp add: word_le_nat_alt)
  have d1: "unat (?hi - n + 1) = unat ?hi - unat n + 1" using u d by (subst unat_add_no_wrap) simp_all
  have "\<exists>g1. ofold (\<lambda>l. gcon_copy_line l (l + n)) (columns ?lo (?hi - n)) g = Ok g1 \<and>
      text_sim b (fold (\<lambda>l. copy_line l (l + n)) (columns ?lo (?hi - n)) s) g1"
  proof (rule fold_sim [where R = "text_sim b"])
    fix l t h assume l: "l \<in> set (columns ?lo (?hi - n))" and t: "text_sim b t h"
    have r: "unat ?lo \<le> unat l" "unat l \<le> unat ?hi - unat n" using set_columns [OF l] d by (simp_all add: word_le_nat_alt)
    then have "unat (l + n) = unat l + unat n" using u by (intro unat_add_no_wrap) simp
    then have "1 \<le> unat l \<and> unat l \<le> 24 \<and> 1 \<le> unat (l + n) \<and> unat (l + n) \<le> 24" using r u by linarith
    then have "1 \<le> l \<and> l \<le> 24 \<and> 1 \<le> l + n \<and> l + n \<le> 24" by (simp add: word_le_nat_alt)
    then show "\<exists>g'. gcon_copy_line l (l + n) h = Ok g' \<and> text_sim b (copy_line l (l + n) t) g'"
      using copy_line_sim [OF t b] by blast
  qed (rule R)
  then obtain g1 where g1: "ofold (\<lambda>l. gcon_copy_line l (l + n)) (columns ?lo (?hi - n)) g = Ok g1"
    "text_sim b (fold (\<lambda>l. copy_line l (l + n)) (columns ?lo (?hi - n)) s) g1" by blast
  have "\<exists>g2. ofold gcon_blank_line (columns (?hi - n + 1) ?hi) g1 = Ok g2 \<and>
      text_sim b (fold blank_line (columns (?hi - n + 1) ?hi) (fold (\<lambda>l. copy_line l (l + n)) (columns ?lo (?hi - n)) s)) g2"
  proof (rule fold_sim [where R = "text_sim b"])
    fix l t h assume l: "l \<in> set (columns (?hi - n + 1) ?hi)" and t: "text_sim b t h"
    have "unat (?hi - n + 1) \<le> unat l" "unat l \<le> unat ?hi" using set_columns [OF l] by (simp_all add: word_le_nat_alt)
    then have "1 \<le> unat l" "unat l \<le> 24" using u d1 by linarith+
    then have "1 \<le> l" "l \<le> 24" by (simp_all add: word_le_nat_alt)
    then show "\<exists>g'. gcon_blank_line l h = Ok g' \<and> text_sim b (blank_line l t) g'" by (rule blank_line_sim [OF t b])
  qed (rule g1(2))
  then show ?thesis using False g1(1) insideD(6,7) [OF R b] insideD(6,7) [OF g1(2) b]
    by (auto simp: gcon_scroll_def c_scroll_def Let_def flush_sim)
qed

lemma raw_columns_sim:
  assumes R: "text_sim b s g" and b: "inside b" and y: "1 \<le> y" "y \<le> 24"
  shows "\<exists>g'. ofold (\<lambda>x. gcon_putchar_raw x y 32) (columns x (scroll_max_x s)) g = Ok g' \<and>
    text_sim b (blank_columns (columns x (scroll_max_x s)) y s) g'"
  unfolding blank_columns_def
proof (rule fold_sim [where R = "text_sim b"])
  fix z t h assume z: "z \<in> set (columns x (scroll_max_x s))" and t: "text_sim b t h"
  have "z \<le> 79" using in_columns(1) [OF z] insideD(1) [OF R b] by blast
  from sim_raw [OF t this y, of 32] show "\<exists>g'. gcon_putchar_raw z y 32 h = Ok g' \<and> text_sim b (putchar_raw z y 32 t) g'" by simp
qed (rule R)

lemma sim_cursor:
  "text_sim b s g \<Longrightarrow> text_sim b (s\<lparr>curr_x := x\<rparr>) (g\<lparr>gcursor_x := x\<rparr>)" "text_sim b s g \<Longrightarrow> text_sim b (s\<lparr>curr_y := y\<rparr>) (g\<lparr>gcursor_y := y\<rparr>)"
  "text_sim b (c_setcursor s) g = text_sim b s g"
  by (simp_all add: text_sim_def same_text_def screen_bounds_def c_setcursor_def Let_def)

lemma low_byte:
  assumes "d AND 0xFF = d"
  shows "(c :: u32) AND 0xFF = d \<longleftrightarrow> (ucast c :: u8) = ucast d"
proof -
  have m: "(0xFF :: u32) = mask 8" by code_simp
  have e: "(ucast (ucast x :: u8) :: u32) = x AND 0xFF" for x :: u32
    unfolding m by (rule bit_word_eqI) (auto simp: bit_simps)
  have f: "(ucast (x AND 0xFF) :: u8) = ucast x" for x :: u32
    unfolding m by (rule bit_word_eqI) (auto simp: bit_simps)
  show ?thesis using e [of c] e [of d] f [of c] assms by metis
qed

text \<open>One character, when the cursor is in the region.\<close>

lemma output_sim:
  assumes R: "text_sim b s g" and b: "inside b" and c: "curr_x s \<le> scroll_max_x s" "scroll_min_y s \<le> curr_y s" "curr_y s \<le> scroll_max_y s"
  shows "\<exists>g'. gcon_output (ucast c) g = Ok g' \<and> text_sim b (c_putchar c s) g'"
proof -
  note G = insideD [OF R b]
  have x: "curr_x s \<le> 79" and y: "1 \<le> curr_y s" "curr_y s \<le> 24"
    using c G(1-3) by (blast intro: order_trans)+
  have ny: "\<not> curr_y s > scroll_max_y s" "\<not> gcursor_y g > gscroll_max_y g" using c(3) G(7,9) by simp_all
  note ch = low_byte [where d = 10] low_byte [where d = 13]
  consider "c AND 0xFF = 10" | "c AND 0xFF = 13" | "c AND 0xFF \<noteq> 10" "c AND 0xFF \<noteq> 13" by blast
  then show ?thesis
  proof cases
    case 1
    obtain g1 where g1: "ofold (\<lambda>x. gcon_putchar_raw x (curr_y s) 32) (columns (curr_x s) (scroll_max_x s)) g = Ok g1"
      "text_sim b (blank_columns (columns (curr_x s) (scroll_max_x s)) (curr_y s) s) g1"
      using raw_columns_sim [OF R b y] by blast
    let ?B = "blank_columns (columns (curr_x s) (scroll_max_x s)) (curr_y s) s"
    have m: "curr_y (blank_columns xs yy t) = curr_y t" for xs yy t
      unfolding blank_columns_def by (induction xs arbitrary: t) (simp_all add: putchar_raw_def)
    have "screen_bounds ?B = screen_bounds s" using R g1(2) by (simp add: text_sim_def)
    then have f: "gscroll_min_x g1 = scroll_min_x s" "gcursor_y g1 = curr_y s"
      using insideD(4,9) [OF g1(2) b] m by (simp_all add: screen_bounds_def)
    have "c_putchar c s = c_setcursor (?B\<lparr>curr_x := scroll_min_x s, curr_y := curr_y s + 1\<rparr>)"
      using 1 ny by (simp add: c_putchar_def Let_def)
    moreover have "text_sim b (?B\<lparr>curr_x := scroll_min_x s, curr_y := curr_y s + 1\<rparr>)
        (g1\<lparr>gcursor_x := scroll_min_x s, gcursor_y := curr_y s + 1\<rparr>)"
      using sim_cursor(2) [OF sim_cursor(1) [OF g1(2)]] .
    moreover have "gcon_output (ucast c) g = Ok (g1\<lparr>gcursor_x := scroll_min_x s, gcursor_y := curr_y s + 1\<rparr>)"
      using 1 ch(1) ny g1(1) f G(5,8,9) by (simp add: gcon_output_def)
    ultimately show ?thesis by (simp add: sim_cursor(3))
  next
    case 2
    have "c_putchar c s = c_setcursor (s\<lparr>curr_x := scroll_min_x s\<rparr>)" using 2 ny by (simp add: c_putchar_def Let_def)
    moreover have "gcon_output (ucast c) g = Ok (g\<lparr>gcursor_x := scroll_min_x s\<rparr>)"
      using 2 ch(2) ny G(4) by (simp add: gcon_output_def)
    ultimately show ?thesis using sim_cursor(1) [OF R] by (simp add: sim_cursor(3))
  next
    case 3
    obtain g1 where g1: "gcon_putchar_raw (curr_x s) (curr_y s) (ucast c) g = Ok g1" "text_sim b (putchar_raw (curr_x s) (curr_y s) c s) g1"
      using sim_raw [OF R x y] by blast
    let ?P = "(putchar_raw (curr_x s) (curr_y s) c s)\<lparr>curr_x := curr_x s + 1\<rparr>"
    let ?g = "g1\<lparr>gcursor_x := curr_x s + 1\<rparr>"
    have p: "curr_x (putchar_raw xx yy c s) = curr_x s" "curr_y (putchar_raw xx yy c s) = curr_y s"
      "scroll_max_x (putchar_raw xx yy c s) = scroll_max_x s" "scroll_min_x (putchar_raw xx yy c s) = scroll_min_x s" for xx yy
      by (simp_all add: putchar_raw_def)
    have P: "text_sim b ?P ?g" by (rule sim_cursor(1) [OF g1(2)])
    note H = insideD(4,5,8,9) [OF P b]
    have "c_putchar c s = c_setcursor (if curr_x s + 1 > scroll_max_x s then ?P\<lparr>curr_x := scroll_min_x s, curr_y := curr_y s + 1\<rparr> else ?P)"
      using 3 ny by (simp add: c_putchar_def Let_def p)
    moreover have "gcon_output (ucast c) g =
        Ok (if curr_x s + 1 > scroll_max_x s then ?g\<lparr>gcursor_x := scroll_min_x s, gcursor_y := curr_y s + 1\<rparr> else ?g)"
      using 3 ch ny g1(1) H G(8,9) insideD(8) [OF g1(2) b] by (simp add: gcon_output_def Let_def p)
    moreover have "text_sim b (?P\<lparr>curr_x := scroll_min_x s, curr_y := curr_y s + 1\<rparr>) (?g\<lparr>gcursor_x := scroll_min_x s, gcursor_y := curr_y s + 1\<rparr>)"
      using sim_cursor(2) [OF sim_cursor(1) [OF P]] .
    ultimately show ?thesis using P by (simp add: sim_cursor(3))
  qed
qed

lemma screen_inside: "screen_ok s \<Longrightarrow> 1 \<le> scroll_min_y s \<Longrightarrow> inside (screen_bounds s)"
  unfolding inside_def screen_ok_def by (intro exI [of _ s]) (auto intro: order_trans)

lemma putchar_sim:
  assumes R: "text_sim b s g" and b: "inside b" and ok: "screen_ok s"
  shows "\<exists>g'. gcon_output (ucast c) g = Ok g' \<and> text_sim b (c_putchar c s) g'"
proof -
  note k = scrolled_ok [OF ok]
  have m: "scroll_max_y (scrolled s) = scroll_max_y s" using k(2) by (simp add: keeps_def)
  have "\<exists>g1. (if gcursor_y g > gscroll_max_y g
            then obind (gcon_scroll (gcursor_y g - gscroll_max_y g) g) (\<lambda>h. Ok (h\<lparr>gcursor_y := gscroll_max_y g\<rparr>))
            else Ok g) = Ok g1 \<and> text_sim b (scrolled s) g1"
  proof (cases "curr_y s > scroll_max_y s")
    case True
    obtain g1 where g1: "gcon_scroll (curr_y s - scroll_max_y s) g = Ok g1" "text_sim b (c_scroll (curr_y s - scroll_max_y s) s) g1"
      using scroll_sim [OF R b] by blast
    show ?thesis using True g1(1) insideD(7,9) [OF R b] sim_cursor(2) [OF g1(2), of "scroll_max_y s"] by (simp add: scrolled_def)
  next
    case False
    then show ?thesis using R insideD(7,9) [OF R b] by (simp add: scrolled_def)
  qed
  then obtain g1 where g1: "(if gcursor_y g > gscroll_max_y g
            then obind (gcon_scroll (gcursor_y g - gscroll_max_y g) g) (\<lambda>h. Ok (h\<lparr>gcursor_y := gscroll_max_y g\<rparr>))
            else Ok g) = Ok g1" "text_sim b (scrolled s) g1" by blast
  have c: "curr_y (scrolled s) \<le> scroll_max_y (scrolled s)" using k(3) m by simp
  have "\<not> gcursor_y g1 > gscroll_max_y g1" using c insideD(7,9) [OF g1(2) b] by simp
  then have "gcon_output d g = gcon_output d g1" for d unfolding gcon_output_def g1(1) by simp
  moreover have "curr_x (scrolled s) \<le> scroll_max_x (scrolled s)" "scroll_min_y (scrolled s) \<le> curr_y (scrolled s)"
    using k(1) by (simp_all add: screen_ok_def)
  ultimately show ?thesis using output_sim [OF g1(2) b _ _ c, of c] putchar_scrolled [OF ok, of c] by simp
qed

lemma puts_sim:
  assumes "text_sim b s g" "inside b" "screen_ok s"
  shows "\<exists>g'. ofold gcon_output cs g = Ok g' \<and> text_sim b (fold (\<lambda>c. c_putchar (scast c)) cs s) g'"
proof -
  have u: "ucast (scast c :: u32) = c" for c :: u8 by (rule bit_word_eqI) (auto simp: bit_simps)
  have "\<exists>g'. ofold gcon_output cs g = Ok g' \<and>
      (text_sim b (fold (\<lambda>c. c_putchar (scast c)) cs s) g' \<and> screen_ok (fold (\<lambda>c. c_putchar (scast c)) cs s))"
  proof (rule fold_sim [where R = "\<lambda>s g. text_sim b s g \<and> screen_ok s"])
    fix c t h assume "text_sim b t h \<and> screen_ok t"
    then show "\<exists>g'. gcon_output c h = Ok g' \<and> text_sim b (c_putchar (scast c) t) g' \<and> screen_ok (c_putchar (scast c) t)"
      using putchar_sim [of b t h "scast c"] assms(2) putchar_keeps [of t "scast c"] by (simp add: u)
  qed (use assms in simp)
  then show ?thesis by blast
qed

subsection \<open>Properties\<close>

lemma ofold_first: "xs \<noteq> [] \<Longrightarrow> f (hd xs) s = Fault \<Longrightarrow> ofold f xs s = Fault"
  by (cases xs) simp_all

lemma view_loop_rows: "k \<le> 23 \<Longrightarrow> view_loop (80 * k) (80 * k + 79) y = map (\<lambda>j. (80 * j, 80 * j + 79, y + 16 * (j - k))) [k..<23]"
proof (induction "23 - k" arbitrary: k y)
  case 0
  then show ?case by (subst view_loop.simps) simp
next
  case (Suc n)
  then have k: "k < 23" by simp
  have IH: "view_loop (80 * Suc k) (80 * Suc k + 79) (y + 16) = map (\<lambda>j. (80 * j, 80 * j + 79, y + 16 + 16 * (j - Suc k))) [Suc k..<23]"
    by (rule Suc.hyps(1)) (use Suc.hyps(2) in simp_all)
  have "view_loop (80 * k) (80 * k + 79) y = (80 * k, 80 * k + 79, y) # view_loop (80 * Suc k) (80 * Suc k + 79) (y + 16)"
    using k by (subst view_loop.simps) (simp add: algebra_simps)
  moreover have "map (\<lambda>j. (80 * j, 80 * j + 79, y + 16 + 16 * (j - Suc k))) [Suc k..<23] = map (\<lambda>j. (80 * j, 80 * j + 79, y + 16 * (j - k))) [Suc k..<23]"
    by (rule map_cong) auto
  moreover have "[k..<23] = k # [Suc k..<23]" using k by (simp add: upt_conv_Cons)
  ultimately show ?case using IH by simp
qed

lemma console_view_rows: "console_view t = map (\<lambda>j. (80 * j, 80 * j + 79, t + 36 + 16 * j)) [0..<23]"
  using view_loop_rows [of 0 "t + 36"] by (simp add: console_view_def)

text \<open>
  C18: as long as the scrolling region does not include the first row of the screen, the graphical console does what the text
  console does: from states that show the same text, printing a character or a string never leaves the array and leads to states that show
  the same text, with the same cursor.
\<close>

theorem gcon_matches_c_io:
  assumes "same_text s g" "screen_ok s" "1 \<le> scroll_min_y s"
  shows "(\<exists>g'. gcon_putchar c g = Ok g' \<and> same_text (c_putchar (scast c) s) g') \<and>
    (\<exists>g'. gcon_puts str g = Ok g' \<and> same_text (c_puts str s) g')"
proof -
  have R: "text_sim (screen_bounds s) s g" and b: "inside (screen_bounds s)" using assms screen_inside by (simp_all add: text_sim_def)
  show ?thesis using puts_sim [OF R b assms(2), of "[c]"] puts_sim [OF R b assms(2), of "takeWhile (\<lambda>c. c \<noteq> 0) str"]
    by (auto simp: gcon_putchar_def gcon_puts_def c_puts_def text_sim_def flush_same)
qed

definition gcon_demo :: gcon where
  "gcon_demo = gcon_setscroll 5 5 10 6 (gcon_init \<lparr>gscroll_min_x = 0, gscroll_min_y = 0, gscroll_max_x = 0, gscroll_max_y = 0,
     gcursor_x = 0, gcursor_y = 0, gmin_x = 0, gmin_y = 0, gmax_x = 0, gmax_y = 0, chars = (\<lambda>_. 32), gwindow = Some False\<rparr>)"

theorem gcon_matches_c_io_witness:
  "\<exists>g'. gcon_puts [72, 105] gcon_demo = Ok g' \<and> same_text (c_puts [72, 105] blank_screen) g'"
proof -
  have "(ucast (0x0720 :: u16) :: u8) = 32" by code_simp
  then have "same_text blank_screen gcon_demo"
    by (simp add: same_text_def blank_screen_def gcon_demo_def c_setscroll_def gcon_setscroll_def c_io_init_def gcon_init_def
        c_setcursor_def bound_def Let_def)
  moreover have "screen_ok blank_screen" "1 \<le> scroll_min_y blank_screen"
    by (simp_all add: screen_ok_def blank_screen_def c_setscroll_def c_io_init_def c_setcursor_def bound_def Let_def)
  ultimately show ?thesis using gcon_matches_c_io by blast
qed

text \<open>
  After its initialisation the console cannot be used. The first row, where the cursor is, lies in front of the array, so that printing
  any character but a carriage return, or clearing the region or the screen, stores outside of it.
\<close>

theorem gcon_first_row_outside:
  "gcon_putchar c (gcon_init g) = (if c = 13 then Ok (gcon_flush (gcon_init g)) else Fault) \<and>
   gcon_clearscroll (gcon_init g) = Fault \<and> gcon_clearscreen (gcon_init g) = Fault"
proof -
  let ?g = "gcon_init g"
  have row: "put_cell (screen_addr 0 0) d h = Fault" "put_cell (screen_addr 0 0 + 0) d h = Fault" for d h
    by (simp_all add: put_cell_def screen_addr_def)
  have hd: "columns 0 79 \<noteq> []" "hd (columns 0 79) = 0" "columns 0 24 \<noteq> []" "hd (columns 0 24) = 0"
    by (simp_all add: columns_def upt_rec)
  have raw: "gcon_putchar_raw 0 0 d ?g = Fault" for d by (simp add: gcon_putchar_raw_def gcon_init_def row)
  have "ofold (\<lambda>x. gcon_putchar_raw x 0 32) (columns 0 79) ?g = Fault" by (rule ofold_first) (simp_all add: hd raw)
  then have "gcon_putchar c ?g = (if c = 13 then Ok (gcon_flush ?g) else Fault)"
    using raw by (simp add: gcon_putchar_def gcon_output_def gcon_init_def)
  moreover have "gcon_blank_line 0 ?g = Fault"
    unfolding gcon_blank_line_def by (rule ofold_first) (simp_all add: gcon_init_def hd row)
  then have "ofold gcon_blank_line (columns 0 24) ?g = Fault" by (intro ofold_first) (simp_all add: hd)
  then have "gcon_clearscroll ?g = Fault" by (simp add: gcon_clearscroll_def gcon_init_def)
  moreover have "ofold (\<lambda>i. put_cell (screen_addr 0 0 + of_nat i) 32) [0..<2000] ?g = Fault"
    by (rule ofold_first) (simp_all add: row)
  then have "gcon_clearscreen ?g = Fault" by (simp add: gcon_clearscreen_def gcon_init_def)
  ultimately show ?thesis by blast
qed

text \<open>
  The view of the console draws the first 79 columns of the second to the last but one row. Neither the first and the last row
  nor the last column are ever drawn.
\<close>

theorem console_view_shows:
  "{i :: nat. \<exists>(a, b, y) \<in> set (console_view t). a \<le> i \<and> i < b} = {unat (screen_addr x y) | x y. x \<le> 78 \<and> 1 \<le> y \<and> y \<le> 23}"
proof -
  have "{i :: nat. \<exists>(a, b, y) \<in> set (console_view t). a \<le> i \<and> i < b} = {i :: nat. \<exists>k<23. 80 * k \<le> i \<and> i < 80 * k + 79}"
    unfolding console_view_rows by auto
  also have "\<dots> = {unat (screen_addr x y) | x y. x \<le> 78 \<and> 1 \<le> y \<and> y \<le> 23}"
  proof (intro set_eqI iffI)
    fix i assume "i \<in> {i :: nat. \<exists>k<23. 80 * k \<le> i \<and> i < 80 * k + 79}"
    then obtain k where k: "k < 23" "80 * k \<le> i" "i < 80 * k + 79" by blast
    let ?x = "of_nat (i - 80 * k) :: u32" and ?y = "of_nat (k + 1) :: u32"
    have w: "unat (of_nat m :: u32) = m" if "m < 2 ^ 32" for m using that by (simp add: unat_of_nat take_bit_nat_eq_self)
    have u: "unat ?x = i - 80 * k" "unat ?y = k + 1" by (rule w, use k in simp)+
    have b: "?x \<le> 78" "1 \<le> ?y" "?y \<le> 23" unfolding word_le_nat_alt u using k by simp_all
    have "?x \<le> 79" "?y \<le> 24" unfolding word_le_nat_alt u using k by simp_all
    then have "unat (screen_addr ?x ?y) = unat ?x + 80 * (unat ?y - 1)" by (intro unat_screen_addr b(2))
    also have "\<dots> = i" unfolding u using k by simp
    finally have "unat (screen_addr ?x ?y) = i" .
    then show "i \<in> {unat (screen_addr x y) | x y. x \<le> 78 \<and> 1 \<le> y \<and> y \<le> 23}"
      unfolding mem_Collect_eq by (intro exI [of _ ?x] exI [of _ ?y] conjI b) (rule sym)
  next
    fix i assume "i \<in> {unat (screen_addr x y) | x y. x \<le> 78 \<and> 1 \<le> y \<and> y \<le> 23}"
    then obtain x y where xy: "i = unat (screen_addr x y)" "x \<le> 78" "1 \<le> y" "y \<le> 23" by blast
    then have b: "unat x \<le> 78" "1 \<le> unat y" "unat y \<le> 23" by (simp_all add: word_le_nat_alt)
    have "i = unat x + 80 * (unat y - 1)" unfolding xy(1) using xy(2-4) by (intro unat_screen_addr) (auto simp: word_le_nat_alt)
    then show "i \<in> {i :: nat. \<exists>k<23. 80 * k \<le> i \<and> i < 80 * k + 79}" using b by (intro CollectI exI [of _ "unat y - 1"]) simp
  qed
  finally show ?thesis .
qed

end
