(* ===== verification/Klib.thy ===== *)
theory Klib
  imports Prelude
begin

text \<open>
  The kernel library, \<^verbatim>\<open>src/kernel/lib/klibc.c\<close> and \<^verbatim>\<open>src/kernel/lib/string.c\<close>. Memory is a map from
  addresses to bytes. A string is the list of the bytes from its first one on, with its terminator:
  a routine that reads behind the end of the list is a \<open>Fault\<close>; a pointer into the string that is
  returned is the number of bytes in front of it. Characters are signed.
\<close>

subsection \<open>Blocks of memory\<close>

type_synonym bytes = "u32 \<Rightarrow> u8"

fun kmemset :: "u32 \<Rightarrow> u8 \<Rightarrow> nat \<Rightarrow> bytes \<Rightarrow> bytes" where
  "kmemset p x 0 m = m"
| "kmemset p x (Suc n) m = kmemset (p + 1) x n (m(p := x))"

fun kmemclr :: "u32 \<Rightarrow> nat \<Rightarrow> bytes \<Rightarrow> bytes" where
  "kmemclr p 0 m = m"
| "kmemclr p (Suc n) m = kmemclr (p + 1) n (m(p := 0))"

fun kmemcpy :: "u32 \<Rightarrow> u32 \<Rightarrow> nat \<Rightarrow> bytes \<Rightarrow> bytes" where
  "kmemcpy dst src 0 m = m"
| "kmemcpy dst src (Suc n) m = kmemcpy (dst + 1) (src + 1) n (m(dst := m src))"

subsection \<open>Random numbers\<close>

definition krand :: "u32 \<times> u32 \<Rightarrow> u32 \<times> u32 \<times> u32" where
  "krand s = (let (z, w) = s; z' = 36969 * (z AND 65535) + drop_bit 16 z; w' = 18000 * (w AND 65535) + drop_bit 16 w in
     (push_bit 16 z' + w', z', w'))"

subsection \<open>Strings\<close>

fun kstrchr :: "u8 list \<Rightarrow> u8 \<Rightarrow> nat outcome" where
  "kstrchr [] c = Fault"
| "kstrchr (x # xs) c = (if x \<noteq> 0 \<and> x \<noteq> c then obind (kstrchr xs c) (\<lambda>n. Ok (n + 1)) else Ok 0)"

text \<open>The loop of \<^verbatim>\<open>_kstrrchr\<close>, at offset \<open>i\<close>.\<close>

fun kstrrchr_loop :: "u8 list \<Rightarrow> u8 \<Rightarrow> nat \<Rightarrow> nat \<Rightarrow> nat outcome" where
  "kstrrchr_loop [] c i found = Fault"
| "kstrrchr_loop (x # xs) c i found = (if x \<noteq> 0 then kstrrchr_loop xs c (i + 1) (if x = c then i else found) else Ok found)"

definition kstrrchr :: "u8 list \<Rightarrow> u8 \<Rightarrow> nat outcome" where
  "kstrrchr str c = obind (kstrchr str c) (kstrrchr_loop str c 0)"

fun kstrcmp :: "u8 list \<Rightarrow> u8 list \<Rightarrow> int outcome" where
  "kstrcmp (a # s) (b # t) =
     (if a \<noteq> 0 \<or> b \<noteq> 0 then if a \<noteq> b then Ok (sint a - sint b) else kstrcmp s t else Ok (sint a - sint b))"
| "kstrcmp s t = Fault"

fun kstrncmp :: "u8 list \<Rightarrow> u8 list \<Rightarrow> nat \<Rightarrow> int outcome" where
  "kstrncmp s t 0 = Ok 0"
| "kstrncmp s t (Suc n) = (case s of
     [] \<Rightarrow> Fault
   | a # s' \<Rightarrow> if a = 0 then Ok 0 else (case t of
       [] \<Rightarrow> Fault
     | b # t' \<Rightarrow> if b = 0 then Ok 0 else if a \<noteq> b then Ok (sint a - sint b) else kstrncmp s' t' n))"

fun kstrlen :: "u8 list \<Rightarrow> nat outcome" where
  "kstrlen [] = Fault"
| "kstrlen (x # xs) = (if x \<noteq> 0 then obind (kstrlen xs) (\<lambda>n. Ok (n + 1)) else Ok 0)"

subsection \<open>Status strings\<close>

text \<open>There is no comma behind the ninth literal, so the compiler joins it with the tenth.\<close>

definition kstatus_strings :: "string list" where
  "kstatus_strings = [''success'', ''failure'', ''bad parameter'', ''empty queue'', ''not empty queue'',
     ''allocation failed'', ''not found'', ''no queues'', ''bad priority'' @ ''feature not supported'']"

abbreviation (input) STATUS_SENTINEL :: u32 where "STATUS_SENTINEL \<equiv> 10"

definition kstatus :: "u32 \<Rightarrow> string outcome" where
  "kstatus n = (if n \<ge> STATUS_SENTINEL then Ok ''bad status value''
     else if unat n < length kstatus_strings then Ok (kstatus_strings ! unat n) else Fault)"

subsection \<open>Facts about memory\<close>

lemma kmemcpy_outside:
  assumes "\<And>i. i < n \<Longrightarrow> a \<noteq> dst + of_nat i"
  shows "kmemcpy dst src n m a = m a"
  using assms
proof (induction n arbitrary: dst src m)
  case (Suc n)
  have "a \<noteq> dst + 1 + of_nat i" if "i < n" for i using Suc.prems [of "Suc i"] that by (simp add: add.assoc)
  from Suc.IH [OF this] show ?case using Suc.prems [of 0] by simp
qed simp

text \<open>Copying is right when the source does not meet the destination.\<close>

lemma kmemcpy_inside:
  assumes "n \<le> 2 ^ 32" "\<And>i j. i < n \<Longrightarrow> j < n \<Longrightarrow> src + of_nat i \<noteq> dst + of_nat j" "k < n"
  shows "kmemcpy dst src n m (dst + of_nat k) = m (src + of_nat k)"
  using assms
proof (induction n arbitrary: dst src m k)
  case (Suc n)
  let ?m = "m(dst := m src)"
  show ?case
  proof (cases k)
    case 0
    have "dst \<noteq> dst + 1 + of_nat i" if "i < n" for i
    proof
      assume "dst = dst + 1 + of_nat i"
      then have "of_nat (Suc i) = (0 :: u32)" by (simp add: add.assoc)
      then have "2 ^ 32 dvd Suc i" by (simp only: word_of_nat_eq_0_iff) simp
      then show False using that Suc.prems(1) by (auto dest: dvd_imp_le)
    qed
    from kmemcpy_outside [of n dst "dst + 1" "src + 1" ?m, OF this] show ?thesis using 0 by simp
  next
    case (Suc j)
    have d: "src + 1 + of_nat i \<noteq> dst + 1 + of_nat j" if "i < n" "j < n" for i j
      using Suc.prems(2) [of "Suc i" "Suc j"] that by (simp add: algebra_simps)
    have "kmemcpy (dst + 1) (src + 1) n ?m (dst + 1 + of_nat j) = ?m (src + 1 + of_nat j)"
      by (rule Suc.IH [OF _ d]) (use Suc.prems \<open>k = Suc j\<close> in simp_all)
    moreover have "src + 1 + of_nat j \<noteq> dst" using Suc.prems(2) [of "Suc j" 0] Suc.prems(3) \<open>k = Suc j\<close> by (simp add: add.assoc)
    ultimately show ?thesis using \<open>k = Suc j\<close> by (simp add: algebra_simps)
  qed
qed simp

subsection \<open>Strings\<close>

lemma kstrlen_length: "0 \<notin> set s \<Longrightarrow> kstrlen (s @ 0 # r) = Ok (length s)"
  by (induction s) auto

lemma kstrchr_first: "0 \<notin> set s \<Longrightarrow> kstrchr (s @ 0 # r) c = Ok (length (takeWhile (\<lambda>x. x \<noteq> c) s))"
  by (induction s) auto

lemma kstrrchr_loop_last:
  "0 \<notin> set s \<Longrightarrow> kstrrchr_loop (s @ 0 # r) c i found =
     Ok (if c \<in> set s then i + length s - Suc (length (takeWhile (\<lambda>x. x \<noteq> c) (rev s))) else found)"
proof (induction s arbitrary: i found)
  case (Cons x s)
  have "length (takeWhile (\<lambda>x. x \<noteq> c) (rev s)) < length s" if "c \<in> set s"
  proof -
    have "takeWhile (\<lambda>x. x \<noteq> c) (rev s) \<noteq> rev s" using that by (auto simp: takeWhile_eq_all_conv)
    then show ?thesis using length_takeWhile_le [of "\<lambda>x. x \<noteq> c" "rev s"]
      by (metis length_rev le_neq_implies_less takeWhile_eq_take take_all_iff order_refl)
  qed
  then show ?case using Cons by (auto simp: takeWhile_append takeWhile_eq_all_conv)
qed simp

text \<open>The offset of the last \<open>c\<close>, or of the terminator when there is none.\<close>

definition last_offset :: "u8 list \<Rightarrow> u8 \<Rightarrow> nat" where
  "last_offset s c = (if c \<in> set s then length s - Suc (length (takeWhile (\<lambda>x. x \<noteq> c) (rev s))) else length s)"

lemma kstrrchr_last:
  assumes "0 \<notin> set s"
  shows "kstrrchr (s @ 0 # r) c = Ok (last_offset s c)"
proof -
  have "takeWhile (\<lambda>x. x \<noteq> c) s = s" if "c \<notin> set s" using that by (auto simp: takeWhile_eq_all_conv)
  then show ?thesis using kstrchr_first [OF assms] kstrrchr_loop_last [OF assms]
    by (simp add: kstrrchr_def last_offset_def del: takeWhile_eq_all_conv)
qed

lemma sint_diff_zero: "sint (a :: u8) - sint b = 0 \<longleftrightarrow> a = b"
  using signed_word_eqI [of a b] by auto

lemma sint_zero: "sint (a :: u8) = 0 \<longleftrightarrow> a = 0"
  using sint_diff_zero [of a 0] by simp

lemma kstrcmp_zero:
  "0 \<notin> set s \<Longrightarrow> 0 \<notin> set t \<Longrightarrow> \<exists>d. kstrcmp (s @ 0 # r) (t @ 0 # r') = Ok d \<and> (d = 0 \<longleftrightarrow> s = t)"
proof (induction s arbitrary: t)
  case Nil
  then show ?case by (cases t) (auto simp: sint_zero)
next
  case (Cons a s)
  then show ?case by (cases t) (auto simp: sint_zero sint_diff_zero [simplified])
qed

lemma kstrncmp_zero:
  "0 \<notin> set s \<Longrightarrow> 0 \<notin> set t \<Longrightarrow> n \<le> length t \<or> r' = 0 # r'' \<Longrightarrow>
    \<exists>d. kstrncmp (s @ 0 # r) (t @ r') n = Ok d \<and> (d = 0 \<longleftrightarrow> take (min n (min (length s) (length t))) s = take (min n (min (length s) (length t))) t)"
proof (induction n arbitrary: s t)
  case (Suc n)
  show ?case
  proof (cases s)
    case (Cons a s')
    then show ?thesis using Suc sint_diff_zero [of a] by (cases t) auto
  qed simp
qed simp

text \<open>
  On strings in memory the length is the number of characters in front of the terminator; the
  searches find the first and the last occurrence of a character, or the terminator when there is
  none; comparing gives zero exactly for equal strings, but comparing at most a number of characters
  gives zero whenever one string is a prefix of the other.
\<close>

theorem kstr_correct:
  assumes "0 \<notin> set s" "0 \<notin> set t"
  shows "kstrlen (s @ 0 # r) = Ok (length s) \<and>
    kstrchr (s @ 0 # r) c = Ok (length (takeWhile (\<lambda>x. x \<noteq> c) s)) \<and>
    kstrrchr (s @ 0 # r) c = Ok (last_offset s c) \<and>
    (\<exists>d. kstrcmp (s @ 0 # r) (t @ 0 # r') = Ok d \<and> (d = 0 \<longleftrightarrow> s = t)) \<and>
    (\<exists>d. kstrncmp (s @ 0 # r) (t @ 0 # r') n = Ok d \<and>
       (d = 0 \<longleftrightarrow> (let m = min n (min (length s) (length t)) in take m s = take m t)))"
  unfolding Let_def
proof (intro conjI)
  show "\<exists>d. kstrncmp (s @ 0 # r) (t @ 0 # r') n = Ok d \<and>
      (d = 0 \<longleftrightarrow> take (min n (min (length s) (length t))) s = take (min n (min (length s) (length t))) t)"
    using assms by (intro kstrncmp_zero [where r'' = r']) simp_all
qed (rule kstrlen_length kstrchr_first kstrrchr_last kstrcmp_zero; fact assms)+

theorem kstr_correct_witness:
  "kstrrchr [47, 97, 47, 98, 0] 47 = Ok 2 \<and> (\<exists>d. kstrncmp [97, 0] [97, 98, 0] 2 = Ok d \<and> d = 0)"
proof -
  have "0 \<notin> set [47 :: u8, 97, 47, 98]" "0 \<notin> set [97 :: u8]" "0 \<notin> set [97 :: u8, 98]" by simp_all
  with kstr_correct [of "[47, 97, 47, 98]" "[97]" "[]" 47 "[]" 1] kstr_correct [of "[97]" "[97, 98]" "[]" 47 "[]" 2]
  show ?thesis by (simp add: last_offset_def)
qed

text \<open>The literal that was joined makes the table one entry too short: the last status reads behind it.\<close>

lemma kstatus_last: "kstatus (status_code FEATURE_UNIMPLEMENTED) = Fault"
  "kstatus (status_code BAD_PRIO) = Ok ''bad priorityfeature not supported''"
  by (simp_all add: kstatus_def kstatus_strings_def)

end
