(* ===== verification/Ext2.thy ===== *)
theory Ext2
  imports Klib
begin

text \<open>
  The second extended file system, \<^verbatim>\<open>src/fs/ext2/\<close>: reading and writing files of the ramdisk that is
  mapped into memory. Memory is a map from addresses to bytes, little endian; the image of the file
  system and the buffers of the callers are both in it, pointers are addresses and 0 is \<^verbatim>\<open>NULL\<close>. Strings the callers pass are
  lists of bytes with their terminator. What the code prints is left out, and the counts it stores
  through a pointer are results.
\<close>

subsection \<open>Words in memory\<close>

definition read16 :: "bytes \<Rightarrow> u32 \<Rightarrow> u16" where
  "read16 m a = ucast (m a) OR push_bit 8 (ucast (m (a + 1)))"

definition read32 :: "bytes \<Rightarrow> u32 \<Rightarrow> u32" where
  "read32 m a = ucast (m a) OR push_bit 8 (ucast (m (a + 1))) OR push_bit 16 (ucast (m (a + 2))) OR push_bit 24 (ucast (m (a + 3)))"

definition write16 :: "u32 \<Rightarrow> u16 \<Rightarrow> bytes \<Rightarrow> bytes" where
  "write16 a x m = m(a := ucast x, a + 1 := ucast (drop_bit 8 x))"

definition write32 :: "u32 \<Rightarrow> u32 \<Rightarrow> bytes \<Rightarrow> bytes" where
  "write32 a x m = m(a := ucast x, a + 1 := ucast (drop_bit 8 x), a + 2 := ucast (drop_bit 16 x), a + 3 := ucast (drop_bit 24 x))"

subsection \<open>Structures on the disk\<close>

text \<open>The fields that are used, at their offsets in the packed structures.\<close>

record fs_context =
  sb :: u32
  base_address :: u32

definition inodes_count :: "bytes \<Rightarrow> u32 \<Rightarrow> u32" where "inodes_count m s = read32 m s"
definition blocks_count :: "bytes \<Rightarrow> u32 \<Rightarrow> u32" where "blocks_count m s = read32 m (s + 4)"
definition logarithmic_block_size :: "bytes \<Rightarrow> u32 \<Rightarrow> u32" where "logarithmic_block_size m s = read32 m (s + 24)"
definition blocks_per_group :: "bytes \<Rightarrow> u32 \<Rightarrow> u32" where "blocks_per_group m s = read32 m (s + 32)"
definition inodes_per_group :: "bytes \<Rightarrow> u32 \<Rightarrow> u32" where "inodes_per_group m s = read32 m (s + 40)"
definition read_only_nonbreaking :: "bytes \<Rightarrow> u32 \<Rightarrow> u32" where "read_only_nonbreaking m s = read32 m (s + 100)"

definition inode_size :: "bytes \<Rightarrow> u32 \<Rightarrow> u32" where "inode_size m fp = read32 m (fp + 4)"
definition inode_blocks :: "bytes \<Rightarrow> u32 \<Rightarrow> u32 \<Rightarrow> u32" where "inode_blocks m fp i = read32 m (fp + 40 + 4 * i)"

definition inode_number :: "bytes \<Rightarrow> u32 \<Rightarrow> u32" where "inode_number m d = read32 m d"
definition entry_length :: "bytes \<Rightarrow> u32 \<Rightarrow> u16" where "entry_length m d = read16 m (d + 4)"
definition name_length :: "bytes \<Rightarrow> u32 \<Rightarrow> u8" where "name_length m d = m (d + 6)"
definition filename :: "bytes \<Rightarrow> u32 \<Rightarrow> u8 list" where
  "filename m d = map (\<lambda>i. m (d + 8 + of_nat i)) [0..<unat (name_length m d)]"

subsection \<open>Common helpers\<close>

abbreviation (input) SUPERBLOCK_LOCATION :: u32 where "SUPERBLOCK_LOCATION \<equiv> 0x400"
abbreviation (input) SUPERBLOCK_SIZE :: u32 where "SUPERBLOCK_SIZE \<equiv> 1024"
abbreviation (input) INODE_SIZE :: u32 where "INODE_SIZE \<equiv> 128"
abbreviation (input) DIRECT_BLOCKS :: nat where "DIRECT_BLOCKS \<equiv> 12"
abbreviation (input) TOTAL_BLOCKS :: nat where "TOTAL_BLOCKS \<equiv> 15"
abbreviation (input) INDIRECT_BLOCK_IDX :: nat where "INDIRECT_BLOCK_IDX \<equiv> 12"
abbreviation (input) INODE_ROOT :: u32 where "INODE_ROOT \<equiv> 2"
abbreviation (input) SEPARATOR :: u8 where "SEPARATOR \<equiv> 47"

definition get_block_size :: "bytes \<Rightarrow> fs_context \<Rightarrow> u32" where
  "get_block_size m cx = push_bit (unat (logarithmic_block_size m (sb cx))) 1024"

definition block_number_to_address :: "bytes \<Rightarrow> fs_context \<Rightarrow> u32 \<Rightarrow> u32" where
  "block_number_to_address m cx n = base_address cx + SUPERBLOCK_LOCATION + (n - 1) * get_block_size m cx"

definition get_next_dirent :: "bytes \<Rightarrow> u32 \<Rightarrow> u32" where
  "get_next_dirent m d = d + ucast (entry_length m d)"

definition dirent_is_too_large :: "bytes \<Rightarrow> u32 \<Rightarrow> bool" where
  "dirent_is_too_large m d =
     (let e = 8 + ucast (name_length m d) :: u16; e' = (if e mod 4 \<noteq> 0 then e + (4 - e mod 4) else e) in
      e' < entry_length m d)"

definition indirect_data_block_size :: "bytes \<Rightarrow> fs_context \<Rightarrow> u32" where
  "indirect_data_block_size m cx = get_block_size m cx div 4"

text \<open>A pointer to a block number in the inode; indirect blocks are not supported.\<close>

definition get_inode_block :: "u32 \<Rightarrow> u32 \<Rightarrow> u32 outcome" where
  "get_inode_block fp i = (if i \<ge> 12 then Panic ''No support for indirect blocks.'' else Ok (fp + 40 + 4 * i))"

subsection \<open>Mounting\<close>

definition get_superblock :: "u32 \<Rightarrow> u32" where
  "get_superblock start = start + SUPERBLOCK_LOCATION"

definition mount_ramdisk :: "u32 \<Rightarrow> fs_context" where
  "mount_ramdisk a = \<lparr>sb = get_superblock a, base_address = a\<rparr>"

subsection \<open>Inodes\<close>

definition get_inode :: "bytes \<Rightarrow> fs_context \<Rightarrow> u32 \<Rightarrow> u32 outcome" where
  "get_inode m cx n =
     (if n > inodes_count m (sb cx) then Panic ''Requested an out of bounds inode number!''
      else if inodes_per_group m (sb cx) = 0 then Fault
      else
        let block_group = n div inodes_per_group m (sb cx) in
        if read_only_nonbreaking m (sb cx) AND 1 \<noteq> 0 then Panic ''sparse superblock support not handled''
        else
          Ok (base_address cx + SUPERBLOCK_LOCATION + SUPERBLOCK_SIZE + 3 * get_block_size m cx
                + block_group * blocks_per_group m (sb cx) + (n - 1) * INODE_SIZE))"

subsection \<open>Reading and writing the blocks of a file\<close>

text \<open>Where the data of the block with index \<open>idx\<close> begin: the block itself or one of the indirect blocks.\<close>

definition data_block :: "bytes \<Rightarrow> fs_context \<Rightarrow> u32 \<Rightarrow> nat \<Rightarrow> u32 \<Rightarrow> u32 outcome" where
  "data_block m cx fp idx indirect =
     (let a = block_number_to_address m cx (inode_blocks m fp (of_nat idx)) in
      if idx = 13 \<or> idx = 14 then Panic ''No support for double or tripple indirect blocks''
      else if idx = INDIRECT_BLOCK_IDX then Ok (block_number_to_address m cx (read32 m (a + 4 * indirect)))
      else Ok a)"

text \<open>
  The loop of \<^verbatim>\<open>ext2_read_file_by_inode\<close> from block index \<open>idx\<close>: the index stays at the indirect block as
  long as it has entries. The result is what remains to be read.
\<close>

partial_function (option) read_loop ::
  "fs_context \<Rightarrow> u32 \<Rightarrow> u32 \<Rightarrow> nat \<Rightarrow> u32 \<Rightarrow> u32 \<Rightarrow> u32 \<Rightarrow> u32 \<Rightarrow> bytes \<Rightarrow> (u32 \<times> bytes) outcome option" where
  "read_loop cx fp bs idx indirect offset buffer remaining m =
     (if idx < TOTAL_BLOCKS then
        lift_bind (data_block m cx fp idx indirect) (\<lambda>a.
        let data = a + offset;
            idx' = (if idx = INDIRECT_BLOCK_IDX \<and> indirect < indirect_data_block_size m cx then idx else idx + 1);
            indirect' = (if idx = INDIRECT_BLOCK_IDX then indirect + 1 else indirect) in
        if remaining < bs then Some (Ok (0, kmemcpy buffer data (unat remaining) m))
        else read_loop cx fp bs idx' indirect' 0 (buffer + (bs - offset)) (remaining - (bs - offset))
               (kmemcpy buffer data (unat (bs - offset)) m))
      else Some (Ok (remaining, m)))"

definition clip_length :: "u32 \<Rightarrow> u32 \<Rightarrow> u32 \<Rightarrow> u32" where
  "clip_length fsize start nbytes =
     (if fsize < nbytes + start then if start > fsize then 0 else fsize - start else nbytes)"

definition read_file_by_inode :: "fs_context \<Rightarrow> u32 \<Rightarrow> u32 \<Rightarrow> u32 \<Rightarrow> u32 \<Rightarrow> bytes \<Rightarrow> (u32 \<times> bytes) outcome" where
  "read_file_by_inode cx file buffer start nbytes m =
     obind (get_inode m cx (inode_number m file)) (\<lambda>fp.
     let bs = get_block_size m cx; n = clip_length (inode_size m fp) start nbytes in
     if bs = 0 then Fault
     else
       let first = start div bs in
       obind (of_loop (read_loop cx fp bs (if first \<ge> 12 then INDIRECT_BLOCK_IDX else unat first)
                         (if first \<ge> 12 then first - 12 else 0) (start mod bs) buffer n m)) (\<lambda>(remaining, m').
       Ok (n - remaining, m')))"

subsection \<open>Directories\<close>

text \<open>How the search of one block of a directory ends.\<close>

datatype dir_result = Found u32 | Absent | Ended u32

definition name_matches :: "bytes \<Rightarrow> u8 list \<Rightarrow> nat \<Rightarrow> u32 \<Rightarrow> bool outcome" where
  "name_matches m name len d =
     (if len = unat (name_length m d)
      then obind (kstrncmp name (filename m d) (unat (name_length m d))) (\<lambda>c. Ok (c = 0)) else Ok False)"

partial_function (option) search_block ::
  "bytes \<Rightarrow> u8 list \<Rightarrow> nat \<Rightarrow> u32 \<Rightarrow> u32 \<Rightarrow> dir_result outcome option" where
  "search_block m name len limit d =
     (if inode_number m d \<noteq> 0 then
        lift_bind (name_matches m name len d) (\<lambda>yes.
          if yes then Some (Ok (Found d))
          else if dirent_is_too_large m d then Some (Ok Absent)
          else let d' = get_next_dirent m d in
            if d' > limit then Some (Ok (Ended d')) else search_block m name len limit d')
      else Some (Ok (Ended d)))"

text \<open>The loop over the blocks; the limit counts block sizes in entries of eight bytes, as the pointer arithmetic does.\<close>

fun search_blocks :: "bytes \<Rightarrow> fs_context \<Rightarrow> u32 \<Rightarrow> u8 list \<Rightarrow> nat \<Rightarrow> nat list \<Rightarrow> u32 outcome" where
  "search_blocks m cx ino name len [] = Ok 0"
| "search_blocks m cx ino name len (i # is) =
     (if i \<ge> DIRECT_BLOCKS then Panic ''I don't support extended blocks yet!''
      else
        let first = block_number_to_address m cx (inode_blocks m ino (of_nat i)) in
        obind (of_loop (search_block m name len (first + 8 * get_block_size m cx) first)) (\<lambda>r. case r of
          Found d \<Rightarrow> Ok d
        | Absent \<Rightarrow> Ok 0
        | Ended d \<Rightarrow> if inode_number m d \<noteq> 0 then search_blocks m cx ino name len is else Ok 0))"

definition get_file_from_dir_inode :: "bytes \<Rightarrow> fs_context \<Rightarrow> u32 \<Rightarrow> u8 list \<Rightarrow> u32 outcome" where
  "get_file_from_dir_inode m cx ino name =
     obind (kstrlen name) (\<lambda>len. search_blocks m cx ino name len [0..<TOTAL_BLOCKS])"

text \<open>The loop over the components of a path: the length of the first one, the inode and the entry reached so far.\<close>

function walk_path :: "bytes \<Rightarrow> fs_context \<Rightarrow> u8 list \<Rightarrow> nat \<Rightarrow> u32 \<Rightarrow> u32 \<Rightarrow> u32 option outcome" where
  "walk_path m cx [] n ino d = Fault"
| "walk_path m cx (c # p) n ino d =
     (if c \<noteq> 0 then
        obind (get_file_from_dir_inode m cx ino (take n (c # p) @ [0])) (\<lambda>d'.
        if d' = 0 then Ok None
        else
          obind (kstrchr (drop n p) SEPARATOR) (\<lambda>n'.
          obind (get_inode m cx (inode_number m d')) (\<lambda>ino'. walk_path m cx (drop n p) n' ino' d')))
      else Ok (Some d))"
  by pat_completeness auto
termination
  by (relation "measure (\<lambda>(m, cx, p, n, ino, d). length p)") auto

definition get_file_from_dir_path :: "bytes \<Rightarrow> fs_context \<Rightarrow> u8 list \<Rightarrow> u8 list \<Rightarrow> u32 outcome" where
  "get_file_from_dir_path m cx dirpath name = (case dirpath of
     [] \<Rightarrow> Fault
   | c # rest \<Rightarrow>
       let path = (if c = SEPARATOR then rest else dirpath) in
       obind (kstrchr path SEPARATOR) (\<lambda>n.
       obind (get_inode m cx INODE_ROOT) (\<lambda>root.
       obind (get_file_from_dir_inode m cx root [46, 0]) (\<lambda>dot.
       obind (walk_path m cx path n root dot) (\<lambda>r. case r of
         None \<Rightarrow> Ok 0
       | Some d \<Rightarrow> if d = 0 then Fault
           else obind (get_inode m cx (inode_number m d)) (\<lambda>ino. get_file_from_dir_inode m cx ino name))))))"

text \<open>Splitting a path: the name behind the last separator, and the path up to that separator.\<close>

definition path_name :: "u8 list \<Rightarrow> u8 list outcome" where
  "path_name path = obind (kstrrchr path SEPARATOR) (\<lambda>i. Ok (drop (i + 1) path))"

definition cut_name :: "u8 list \<Rightarrow> u8 list outcome" where
  "cut_name dirname = obind (kstrrchr dirname SEPARATOR) (\<lambda>i. Ok (dirname[i + 1 := 0]))"

definition get_file_size :: "bytes \<Rightarrow> fs_context \<Rightarrow> u8 list \<Rightarrow> u32 outcome" where
  "get_file_size m cx path = (case path of
     [] \<Rightarrow> Fault
   | c # rest \<Rightarrow>
       if c \<noteq> SEPARATOR then Ok 2
       else
         obind (kstrlen path) (\<lambda>len. obind (path_name path) (\<lambda>name. obind (cut_name (take (len + 1) path)) (\<lambda>dirname.
         obind (get_file_from_dir_path m cx dirname name) (\<lambda>file.
           if file = 0 then Ok 0
           else obind (get_inode m cx (inode_number m file)) (\<lambda>fp. Ok (if fp \<noteq> 0 then inode_size m fp else 0)))))))"

datatype read_status = READ_SUCCESS | READ_FILE_NOT_FOUND | READ_NO_LEADING_SLASH

definition ext2_raw_read :: "fs_context \<Rightarrow> u8 list \<Rightarrow> u32 \<Rightarrow> u32 \<Rightarrow> u32 \<Rightarrow> bytes \<Rightarrow> (read_status \<times> u32 \<times> bytes) outcome" where
  "ext2_raw_read cx path buffer start nbytes m = (case path of
     [] \<Rightarrow> Fault
   | c # rest \<Rightarrow>
       if c \<noteq> SEPARATOR then Ok (READ_NO_LEADING_SLASH, 0, m)
       else
         obind (kstrlen path) (\<lambda>len. obind (path_name path) (\<lambda>name.
         obind (obind (cut_name (take (len + 1) path)) cut_name) (\<lambda>dirname.
         obind (get_file_from_dir_path m cx dirname name) (\<lambda>file.
           if file \<noteq> 0
           then obind (read_file_by_inode cx file buffer start nbytes m) (\<lambda>(n, m'). Ok (READ_SUCCESS, n, m'))
           else Ok (READ_FILE_NOT_FOUND, 0, m))))))"

subsection \<open>Block allocation\<close>

definition block_to_block_group :: "bytes \<Rightarrow> fs_context \<Rightarrow> u32 \<Rightarrow> u32 outcome" where
  "block_to_block_group m cx n = (if blocks_per_group m (sb cx) = 0 then Fault else Ok (n div blocks_per_group m (sb cx)))"

definition group_descriptor :: "bytes \<Rightarrow> fs_context \<Rightarrow> u32 \<Rightarrow> u32" where
  "group_descriptor m cx g = block_number_to_address m cx 2 + 32 * g"

definition get_block_bitmap :: "bytes \<Rightarrow> fs_context \<Rightarrow> u32 \<Rightarrow> u32 outcome" where
  "get_block_bitmap m cx n =
     obind (block_to_block_group m cx n) (\<lambda>g. Ok (block_number_to_address m cx (read32 m (group_descriptor m cx g))))"

definition bitmap_word :: "bytes \<Rightarrow> fs_context \<Rightarrow> u32 \<Rightarrow> u32 outcome" where
  "bitmap_word m cx n =
     obind (get_block_bitmap m cx n) (\<lambda>b. Ok (b + 4 * ((n mod blocks_per_group m (sb cx)) div 32)))"

definition block_is_occupied :: "bytes \<Rightarrow> fs_context \<Rightarrow> u32 \<Rightarrow> bool outcome" where
  "block_is_occupied m cx n =
     obind (bitmap_word m cx n) (\<lambda>w. Ok (read32 m w AND push_bit (unat (n mod 32)) 1 \<noteq> 0))"

definition mark_block_occupied :: "fs_context \<Rightarrow> u32 \<Rightarrow> bytes \<Rightarrow> bytes outcome" where
  "mark_block_occupied cx n m =
     obind (bitmap_word m cx n) (\<lambda>w.
     let m1 = write32 w (read32 m w OR push_bit (unat (n mod 32)) 1) m;
         m2 = write32 (sb cx + 12) (read32 m1 (sb cx + 12) - 1) m1 in
     obind (block_to_block_group m2 cx n) (\<lambda>g.
     let d = group_descriptor m2 cx g in Ok (write16 (d + 12) (read16 m2 (d + 12) - 1) m2)))"

fun alloc_from :: "fs_context \<Rightarrow> nat list \<Rightarrow> bytes \<Rightarrow> (u32 \<times> bytes) outcome" where
  "alloc_from cx [] m = Ok (0, m)"
| "alloc_from cx (i # is) m =
     obind (block_is_occupied m cx (of_nat i)) (\<lambda>occ.
       if \<not> occ then obind (mark_block_occupied cx (of_nat i) m) (\<lambda>m'. Ok (of_nat i, m'))
       else alloc_from cx is m)"

definition block_alloc :: "fs_context \<Rightarrow> bytes \<Rightarrow> (u32 \<times> bytes) outcome" where
  "block_alloc cx m = alloc_from cx [0..<unat (blocks_count m (sb cx))] m"

text \<open>The loop that adds blocks to a file: how many were allocated.\<close>

fun add_blocks :: "fs_context \<Rightarrow> u32 \<Rightarrow> u32 \<Rightarrow> nat \<Rightarrow> u32 \<Rightarrow> bytes \<Rightarrow> (u32 \<times> bytes) outcome" where
  "add_blocks cx fp idx 0 got m = Ok (got, m)"
| "add_blocks cx fp idx (Suc n) got m =
     obind (block_alloc cx m) (\<lambda>(b, m1).
       if b \<noteq> 0 then obind (get_inode_block fp idx) (\<lambda>p. add_blocks cx fp idx n (got + 1) (write32 p b m1))
       else Ok (got, m1))"

text \<open>The number of blocks to add, from the size of a block, the size of the file and the bytes to add.\<close>

definition blocks_to_alloc :: "u32 \<Rightarrow> u32 \<Rightarrow> u32 \<Rightarrow> u32" where
  "blocks_to_alloc bs initial nbytes =
     (let n = (if initial mod bs \<noteq> 0 then nbytes - (bs - initial mod bs) else nbytes) in
      n div bs + (if n mod bs \<noteq> 0 then 1 else 0))"

definition increase_inode_size :: "fs_context \<Rightarrow> u32 \<Rightarrow> u32 \<Rightarrow> bytes \<Rightarrow> (u32 \<times> bytes) outcome" where
  "increase_inode_size cx fp nbytes m =
     (let bs = get_block_size m cx in
      if bs = 0 then Fault
      else
        let initial = inode_size m fp; idx = initial div bs; num = blocks_to_alloc bs initial nbytes in
        obind (add_blocks cx fp idx (unat num) 0 m) (\<lambda>(got, m1).
          let grown = (if got = num then nbytes else nbytes - (num - got) * bs) in
          Ok (got, write32 (fp + 4) (inode_size m1 fp + grown) m1)))"

subsection \<open>Writing\<close>

partial_function (option) write_loop ::
  "fs_context \<Rightarrow> u32 \<Rightarrow> u32 \<Rightarrow> nat \<Rightarrow> u32 \<Rightarrow> u32 \<Rightarrow> u32 \<Rightarrow> u32 \<Rightarrow> bytes \<Rightarrow> (u32 \<times> bytes) outcome option" where
  "write_loop cx fp bs idx indirect offset buffer remaining m =
     (if idx < TOTAL_BLOCKS then
        lift_bind (data_block m cx fp idx indirect) (\<lambda>a.
        let data = a + offset;
            idx' = (if idx = INDIRECT_BLOCK_IDX \<and> indirect < indirect_data_block_size m cx then idx else idx + 1);
            indirect' = (if idx = INDIRECT_BLOCK_IDX then indirect + 1 else indirect) in
        if remaining < bs then Some (Ok (0, kmemcpy data buffer (unat remaining) m))
        else write_loop cx fp bs idx' indirect' 0 (buffer + (bs - offset)) (remaining - (bs - offset))
               (kmemcpy data buffer (unat (bs - offset)) m))
      else Some (Ok (remaining, m)))"

text \<open>A write that does not begin in the file gives the number of a status, which the caller takes for a count.\<close>

definition write_file_by_inode :: "fs_context \<Rightarrow> u32 \<Rightarrow> u32 \<Rightarrow> u32 \<Rightarrow> u32 \<Rightarrow> bytes \<Rightarrow> (u32 \<times> bytes) outcome" where
  "write_file_by_inode cx file buffer start nbytes m =
     obind (get_inode m cx (inode_number m file)) (\<lambda>fp.
     let bs = get_block_size m cx; fsize = inode_size m fp in
     if fsize < nbytes + start \<and> start > fsize then Ok (3, m)
     else
       obind (if fsize < nbytes + start then obind (increase_inode_size cx fp (nbytes + start - fsize) m) (\<lambda>(_, m1). Ok m1)
              else Ok m) (\<lambda>m1.
       if bs = 0 then Fault
       else
         let first = start div bs in
         obind (of_loop (write_loop cx fp bs (if first \<ge> 12 then INDIRECT_BLOCK_IDX else unat first)
                           (if first \<ge> 12 then first - 12 else 0) (start mod bs) buffer nbytes m1)) (\<lambda>(remaining, m').
         Ok (nbytes - remaining, m'))))"

datatype write_status = WRITE_SUCCESS | WRITE_FILE_NOT_FOUND | WRITE_NO_LEADING_SLASH | WRITE_NON_CONTIGUOUS

definition ext2_raw_write :: "fs_context \<Rightarrow> u8 list \<Rightarrow> u32 \<Rightarrow> u32 \<Rightarrow> u32 \<Rightarrow> bytes \<Rightarrow> (write_status \<times> u32 \<times> bytes) outcome" where
  "ext2_raw_write cx path buffer start nbytes m = (case path of
     [] \<Rightarrow> Fault
   | c # rest \<Rightarrow>
       if c \<noteq> SEPARATOR then Ok (WRITE_NO_LEADING_SLASH, 0, m)
       else
         obind (kstrlen path) (\<lambda>len. obind (path_name path) (\<lambda>name.
         obind (obind (cut_name (take (len + 1) path)) cut_name) (\<lambda>dirname.
         obind (get_file_from_dir_path m cx dirname name) (\<lambda>file.
           if file \<noteq> 0
           then obind (write_file_by_inode cx file buffer start nbytes m) (\<lambda>(n, m'). Ok (WRITE_SUCCESS, n, m'))
           else Ok (WRITE_FILE_NOT_FOUND, 0, m))))))"

end
