(* ===== verification/Ext2_Facts.thy ===== *)
theory Ext2_Facts
  imports Ext2
begin

text \<open>
  What the file system of \<^verbatim>\<open>Ext2\<close> does: reading a file and where reading goes wrong, looking a
  name up in a directory, paths in the root directory, the block allocator and the growth of a file.
  The last section has a small ramdisk on which every statement is applied.
\<close>

subsection \<open>Reading a file\<close>

text \<open>
  The blocks of an inode in the order of the file: the direct ones and those that the indirect block names. The
  bytes of the file, and the bytes of the image that reading the first \<open>N\<close> blocks depends on: the superblock,
  the inode, the blocks and, if there are more than the direct ones, the indirect block.
\<close>

definition direct_block :: "bytes \<Rightarrow> fs_context \<Rightarrow> u32 \<Rightarrow> nat \<Rightarrow> u32" where
  "direct_block m cx fp k = block_number_to_address m cx (inode_blocks m fp (of_nat k))"

























subsection \<open>Finding a file in a directory\<close>

text \<open>Entries that follow one another in a block, from address \<open>d\<close> on.\<close>

fun entries :: "bytes \<Rightarrow> u32 \<Rightarrow> u32 \<Rightarrow> u32 list \<Rightarrow> bool" where
  "entries m limit d [] = False"
| "entries m limit d [e] = (e = d \<and> inode_number m e \<noteq> 0)"
| "entries m limit d (e # es) =
     (e = d \<and> inode_number m e \<noteq> 0 \<and> \<not> dirent_is_too_large m e \<and> get_next_dirent m e \<le> limit \<and> entries m limit (get_next_dirent m e) es)"


lemma name_matches_correct:
  assumes "0 \<notin> set name" "0 \<notin> set (filename m d)"
  shows "name_matches m (name @ [0]) (length name) d = Ok (filename m d = name)"
proof (cases "length name = unat (name_length m d)")
  case True
  then have l: "length (filename m d) = length name" by (simp add: filename_def)
  obtain c where "kstrncmp (name @ [0]) (filename m d @ []) (length name) = Ok c"
    "(c = 0) = (take (length name) name = take (length name) (filename m d))"
    using kstrncmp_zero [of name "filename m d" "length name" "[]" "[]" "[]"] assms l by auto
  then show ?thesis using True l by (auto simp: name_matches_def)
next
  case False
  then have "filename m d \<noteq> name" by (auto simp: filename_def)
  then show ?thesis using False by (simp add: name_matches_def)
qed

lemma search_block_entries:
  assumes "entries m limit d es" "0 \<notin> set name" "\<forall>e\<in>set es. 0 \<notin> set (filename m e)"
    and "dirent_is_too_large m (last es) \<or> (\<exists>e\<in>set es. filename m e = name)"
  shows "search_block m (name @ [0]) (length name) limit d =
    Some (Ok (case find (\<lambda>e. filename m e = name) es of Some e \<Rightarrow> Found e | None \<Rightarrow> Absent))"
  using assms
proof (induction m limit d es rule: entries.induct)
  case (2 m limit d e)
  then show ?case using name_matches_correct [of name m e] by (subst search_block.simps) auto
next
  case (3 m limit d e e' es)
  note match = name_matches_correct [of name m e]
  show ?case
  proof (cases "filename m e = name")
    case True
    then show ?thesis using match 3(2-4) by (subst search_block.simps) auto
  next
    case False
    let ?n = "get_next_dirent m e"
    have e: "e = d" "inode_number m e \<noteq> 0" "\<not> dirent_is_too_large m e" "\<not> ?n > limit" "entries m limit ?n (e' # es)"
      using 3(2) by auto
    have "search_block m (name @ [0]) (length name) limit ?n =
        Some (Ok (case find (\<lambda>e. filename m e = name) (e' # es) of Some e \<Rightarrow> Found e | None \<Rightarrow> Absent))"
      using 3(2-5) False by (intro 3(1)) auto
    moreover have "search_block m (name @ [0]) (length name) limit d = search_block m (name @ [0]) (length name) limit ?n"
      using e match 3(3,4) False by (subst search_block.simps) (simp add: Let_def)
    ultimately show ?thesis using False by (simp only: find.simps if_False)
  qed
qed simp

lemma directory_lookup:
  assumes "entries m (D + 8 * get_block_size m cx) D es" "0 \<notin> set name" "\<forall>e\<in>set es. 0 \<notin> set (filename m e)"
    and "dirent_is_too_large m (last es) \<or> (\<exists>e\<in>set es. filename m e = name)"
    and "D = direct_block m cx ino 0"
  shows "get_file_from_dir_inode m cx ino (name @ [0]) =
    Ok (case find (\<lambda>e. filename m e = name) es of Some e \<Rightarrow> e | None \<Rightarrow> 0)"
proof -
  have z: "[0..<15] = 0 # [Suc 0..<15]" by (simp add: upt_conv_Cons)
  have d: "block_number_to_address m cx (inode_blocks m ino (of_nat 0)) = D" using assms(5) by (simp add: direct_block_def)
  show ?thesis using kstrlen_length [OF assms(2), of "[]"] search_block_entries [OF assms(1-4)]
    unfolding get_file_from_dir_inode_def z search_blocks.simps Let_def d by (auto split: option.split)
qed

text \<open>
  C36: looking a name up in a directory gives the first entry with this name, or none, when the
  entries up to one that is longer than its name needs are followed; what comes behind such an entry
  is not looked at.
\<close>

theorem directory_lookup_correct:
  assumes "entries m (D + 8 * get_block_size m cx) D es" "0 \<notin> set name" "\<forall>e\<in>set es. 0 \<notin> set (filename m e)"
    and "dirent_is_too_large m (last es) \<or> (\<exists>e\<in>set es. filename m e = name)"
    and "D = direct_block m cx ino 0"
  shows "get_file_from_dir_inode m cx ino (name @ [0]) =
    Ok (case find (\<lambda>e. filename m e = name) es of Some e \<Rightarrow> e | None \<Rightarrow> 0)"
  by (rule directory_lookup [OF assms])

subsection \<open>Directories that make the search run forever\<close>

text \<open>
  An entry of length zero whose name is not the one that is looked for makes the search run
  forever.
\<close>

theorem zero_length_entry_diverges:
  assumes "inode_number m D \<noteq> 0" "entry_length m D = 0" "0 \<notin> set name" "0 \<notin> set (filename m D)" "filename m D \<noteq> name"
    and "D = direct_block m cx ino 0" "unat D + 8 * unat (get_block_size m cx) < 2 ^ 32"
  shows "get_file_from_dir_inode m cx ino (name @ [0]) = Diverge"
proof -
  let ?l = "D + 8 * get_block_size m cx"
  have l: "\<not> D > ?l"
  proof -
    have "unat (8 * get_block_size m cx) = 8 * unat (get_block_size m cx)" using assms(7) by (simp add: unat_word_ariths)
    then have "unat ?l = unat D + 8 * unat (get_block_size m cx)" using assms(7) by (subst unat_add_no_wrap) simp_all
    then show ?thesis by (simp add: word_less_nat_alt)
  qed
  have t: "\<not> dirent_is_too_large m D" using assms(2) by (simp add: dirent_is_too_large_def Let_def)
  have n: "get_next_dirent m D = D" using assms(2) by (simp add: get_next_dirent_def)
  have match: "name_matches m (name @ [0]) (length name) D = Ok False"
    using name_matches_correct [OF assms(3,4)] assms(5) by simp
  let ?P = "\<lambda>m' nm len lim d y. \<not> (m' = m \<and> nm = name @ [0] \<and> len = length name \<and> lim = ?l \<and> d = D)"
  have "?P m' nm len lim d y" if s: "search_block m' nm len lim d = Some y" for m' nm len lim d y
    using assms(1) l t n match
    by (intro search_block.raw_induct [where P = ?P, OF _ s]) (clarsimp simp: Let_def, blast)
  then have "search_block m (name @ [0]) (length name) ?l D = None"
    by (cases "search_block m (name @ [0]) (length name) ?l D") blast+
  moreover have z: "[0..<15] = 0 # [Suc 0..<15]" by (simp add: upt_conv_Cons)
  moreover have d: "block_number_to_address m cx (inode_blocks m ino (of_nat 0)) = D" using assms(6) by (simp add: direct_block_def)
  ultimately show ?thesis using kstrlen_length [OF assms(3), of "[]"]
    unfolding get_file_from_dir_inode_def z search_blocks.simps Let_def d by simp
qed

subsection \<open>Allocation\<close>

lemma alloc_from_skip:
  "\<forall>i\<in>set xs. block_is_occupied m cx (of_nat i) = Ok True \<Longrightarrow> alloc_from cx (xs @ ys) m = alloc_from cx ys m"
  by (induction xs) simp_all

lemma alloc_from_first:
  assumes "alloc_from cx xs m = Ok (b, m')" "b \<noteq> 0"
  shows "\<exists>k < length xs. b = of_nat (xs ! k) \<and> block_is_occupied m cx b = Ok False \<and>
    (\<forall>j < k. block_is_occupied m cx (of_nat (xs ! j)) = Ok True) \<and> mark_block_occupied cx b m = Ok m'"
  using assms
proof (induction xs)
  case (Cons i xs)
  obtain occ where occ: "block_is_occupied m cx (of_nat i) = Ok occ" using Cons.prems(1) by auto
  show ?case
  proof (cases occ)
    case False
    then show ?thesis using Cons.prems occ by (intro exI [of _ 0]) auto
  next
    case True
    then have "alloc_from cx xs m = Ok (b, m')" using Cons.prems(1) occ by simp
    from Cons.IH [OF this Cons.prems(2)] obtain k where "k < length xs" "b = of_nat (xs ! k)" "block_is_occupied m cx b = Ok False"
      "\<forall>j < k. block_is_occupied m cx (of_nat (xs ! j)) = Ok True" "mark_block_occupied cx b m = Ok m'" by blast
    then show ?thesis using True occ by (intro exI [of _ "Suc k"]) (auto simp: less_Suc_eq_0_disj)
  qed
qed simp

text \<open>On the disk the bit with number \<open>b - first_data_block\<close> tells whether block \<open>b\<close> is in use.\<close>

definition first_data_block :: "bytes \<Rightarrow> u32 \<Rightarrow> u32" where
  "first_data_block m s = read32 m (s + 20)"

definition block_in_use :: "bytes \<Rightarrow> fs_context \<Rightarrow> u32 \<Rightarrow> bool outcome" where
  "block_in_use m cx b = block_is_occupied m cx (b - first_data_block m (sb cx))"

text \<open>
  The allocator returns the number of the first bit of the bitmaps that is clear, and sets it; on a disk whose
  blocks are numbered from one, which is what the addresses of the blocks are computed for, the block with this number is the one in front of the block
  that was free, which is in use already.
\<close>

theorem block_alloc_returns_used_block:
  assumes a: "block_alloc cx m = Ok (b, m')" "b \<noteq> 0" and f: "first_data_block m (sb cx) = 1"
  shows "unat b < unat (blocks_count m (sb cx)) \<and> block_is_occupied m cx b = Ok False \<and>
    (\<forall>c < b. block_is_occupied m cx c = Ok True) \<and> mark_block_occupied cx b m = Ok m' \<and> block_in_use m cx b = Ok True"
proof -
  let ?n = "unat (blocks_count m (sb cx))"
  obtain k where k: "k < ?n" "b = of_nat k" "block_is_occupied m cx b = Ok False"
    "\<And>j. j < k \<Longrightarrow> block_is_occupied m cx (of_nat j) = Ok True" "mark_block_occupied cx b m = Ok m'"
    using alloc_from_first [OF a(1) [unfolded block_alloc_def] a(2)] by auto
  have "k < 2 ^ 32" using k(1) unat_u32_bound [of "blocks_count m (sb cx)"] by simp
  then have u: "unat b = k" using k(2) by (simp add: unat_of_nat take_bit_nat_eq_self)
  have all: "block_is_occupied m cx c = Ok True" if "c < b" for c
    using k(4) [of "unat c"] that u by (simp add: word_less_nat_alt)
  have "b - 1 < b" using a(2) by (simp add: word_less_nat_alt unat_minus_one unat_gt_0)
  then show ?thesis using k all u f by (simp add: block_in_use_def)
qed

subsection \<open>Paths in the root directory\<close>

text \<open>The entries of the root directory, with one for itself.\<close>

definition root_entries :: "bytes \<Rightarrow> fs_context \<Rightarrow> u32 list \<Rightarrow> bool" where
  "root_entries m cx es \<longleftrightarrow> (case get_inode m cx INODE_ROOT of
     Ok root \<Rightarrow> entries m (direct_block m cx root 0 + 8 * get_block_size m cx) (direct_block m cx root 0) es \<and>
       (\<forall>e\<in>set es. e \<noteq> 0 \<and> 0 \<notin> set (filename m e)) \<and> dirent_is_too_large m (last es) \<and>
       (case find (\<lambda>e. filename m e = [46]) es of Some e \<Rightarrow> inode_number m e = INODE_ROOT | None \<Rightarrow> False)
   | _ \<Rightarrow> False)"

definition lookup :: "bytes \<Rightarrow> u8 list \<Rightarrow> u32 list \<Rightarrow> u32" where
  "lookup m name es = (case find (\<lambda>e. filename m e = name) es of Some e \<Rightarrow> e | None \<Rightarrow> 0)"

lemma kstrrchr_root: "0 \<notin> set name \<Longrightarrow> SEPARATOR \<notin> set name \<Longrightarrow> kstrrchr (SEPARATOR # name @ 0 # r) SEPARATOR = Ok 0"
proof -
  assume n: "0 \<notin> set name" "SEPARATOR \<notin> set name"
  have "takeWhile (\<lambda>x. x \<noteq> SEPARATOR) (rev name @ [SEPARATOR]) = rev name" using n(2) by (subst takeWhile_append2) auto
  then show ?thesis using kstrrchr_last [of "SEPARATOR # name" r SEPARATOR] n by (simp add: last_offset_def)
qed

lemma root_path:
  assumes "0 \<notin> set name" "SEPARATOR \<notin> set name"
  shows "path_name (SEPARATOR # name @ [0]) = Ok (name @ [0])"
    "cut_name (SEPARATOR # name @ [0]) = Ok (SEPARATOR # (name @ [0])[0 := 0])"
    "cut_name (SEPARATOR # (name @ [0])[0 := 0]) = Ok (SEPARATOR # (name @ [0])[0 := 0])"
proof -
  show "path_name (SEPARATOR # name @ [0]) = Ok (name @ [0])" "cut_name (SEPARATOR # name @ [0]) = Ok (SEPARATOR # (name @ [0])[0 := 0])"
    using kstrrchr_root [OF assms, of "[]"] by (simp_all add: path_name_def cut_name_def)
  obtain r where "(name @ [0])[0 := 0] = 0 # r" by (cases name) auto
  then show "cut_name (SEPARATOR # (name @ [0])[0 := 0]) = Ok (SEPARATOR # (name @ [0])[0 := 0])"
    using kstrrchr_root [of "[]" r] by (simp add: cut_name_def)
qed

lemma root_lookup:
  assumes R: "root_entries m cx es" and n: "0 \<notin> set name"
  shows "get_file_from_dir_path m cx (SEPARATOR # (name' @ [0])[0 := 0]) (name @ [0]) = Ok (lookup m name es)"
proof -
  obtain root where root: "get_inode m cx 2 = Ok root" using R by (auto simp: root_entries_def split: outcome.splits)
  let ?D = "direct_block m cx root 0"
  have E: "entries m (?D + 8 * get_block_size m cx) ?D es" "\<forall>e\<in>set es. e \<noteq> 0 \<and> 0 \<notin> set (filename m e)" "dirent_is_too_large m (last es)"
    and dot: "case find (\<lambda>e. filename m e = [46]) es of Some e \<Rightarrow> inode_number m e = 2 | None \<Rightarrow> False"
    using R root by (simp_all add: root_entries_def)
  have L: "get_file_from_dir_inode m cx root (nm @ [0]) = Ok (lookup m nm es)" if "0 \<notin> set nm" for nm
    unfolding lookup_def using directory_lookup [OF E(1) that] E(2,3) by blast
  obtain d where d: "find (\<lambda>e. filename m e = [46]) es = Some d" "inode_number m d = 2" using dot by (auto split: option.splits)
  then have "lookup m [46] es = d" "d \<in> set es" by (simp add: lookup_def, auto simp: find_Some_iff)
  moreover from this(2) have "d \<noteq> 0" using E(2) by blast
  moreover obtain r where "(name' @ [0])[0 := 0] = 0 # r" by (cases name') auto
  ultimately show ?thesis using L [of "[46]"] L [OF n] root d(2) by (simp add: get_file_from_dir_path_def)
qed

lemma root_file:
  assumes R: "root_entries m cx es" and n: "0 \<notin> set name" "SEPARATOR \<notin> set name"
  shows "ext2_raw_read cx (SEPARATOR # name @ [0]) buffer start nbytes m =
      (if lookup m name es = 0 then Ok (READ_FILE_NOT_FOUND, 0, m)
       else obind (read_file_by_inode cx (lookup m name es) buffer start nbytes m) (\<lambda>(k, m'). Ok (READ_SUCCESS, k, m')))"
    "ext2_raw_write cx (SEPARATOR # name @ [0]) buffer start nbytes m =
      (if lookup m name es = 0 then Ok (WRITE_FILE_NOT_FOUND, 0, m)
       else obind (write_file_by_inode cx (lookup m name es) buffer start nbytes m) (\<lambda>(k, m'). Ok (WRITE_SUCCESS, k, m')))"
proof -
  have l: "kstrlen (SEPARATOR # name @ [0]) = Ok (length name + 1)" using kstrlen_length [of "SEPARATOR # name" "[]"] n(1) by simp
  have t: "take (length name + 1 + 1) (SEPARATOR # name @ [0]) = SEPARATOR # name @ [0]" by simp
  note parts = l t root_path [OF n] root_lookup [OF R n(1), of name]
  show "ext2_raw_read cx (SEPARATOR # name @ [0]) buffer start nbytes m =
      (if lookup m name es = 0 then Ok (READ_FILE_NOT_FOUND, 0, m)
       else obind (read_file_by_inode cx (lookup m name es) buffer start nbytes m) (\<lambda>(k, m'). Ok (READ_SUCCESS, k, m')))"
    "ext2_raw_write cx (SEPARATOR # name @ [0]) buffer start nbytes m =
      (if lookup m name es = 0 then Ok (WRITE_FILE_NOT_FOUND, 0, m)
       else obind (write_file_by_inode cx (lookup m name es) buffer start nbytes m) (\<lambda>(k, m'). Ok (WRITE_SUCCESS, k, m')))"
    by (simp_all only: ext2_raw_read_def ext2_raw_write_def list.case parts obind.simps simp_thms if_True if_False refl not_True_eq_False) simp_all
qed

text \<open>
  C37: reading or writing a file of the root directory by its path acts on the first entry with the
  name and reports whether there is one; a path that does not begin with a separator is refused.
\<close>

theorem ext2_root_file:
  assumes R: "root_entries m cx es" and n: "0 \<notin> set name" "SEPARATOR \<notin> set name" and c: "c \<noteq> SEPARATOR"
  shows "ext2_raw_read cx (SEPARATOR # name @ [0]) buffer start nbytes m =
      (if lookup m name es = 0 then Ok (READ_FILE_NOT_FOUND, 0, m)
       else obind (read_file_by_inode cx (lookup m name es) buffer start nbytes m) (\<lambda>(k, m'). Ok (READ_SUCCESS, k, m'))) \<and>
    ext2_raw_write cx (SEPARATOR # name @ [0]) buffer start nbytes m =
      (if lookup m name es = 0 then Ok (WRITE_FILE_NOT_FOUND, 0, m)
       else obind (write_file_by_inode cx (lookup m name es) buffer start nbytes m) (\<lambda>(k, m'). Ok (WRITE_SUCCESS, k, m'))) \<and>
    ext2_raw_read cx (c # name) buffer start nbytes m = Ok (READ_NO_LEADING_SLASH, 0, m) \<and>
    ext2_raw_write cx (c # name) buffer start nbytes m = Ok (WRITE_NO_LEADING_SLASH, 0, m)"
  using c by (simp only: root_file [OF R n]) (simp add: ext2_raw_read_def ext2_raw_write_def)

text \<open>
  A write that begins behind the end of a file writes nothing but reports success, and three
  bytes written: the number of the error is taken for a count.
\<close>

theorem noncontiguous_write_succeeds:
  assumes R: "root_entries m cx es" and n: "0 \<notin> set name" "SEPARATOR \<notin> set name" and f: "lookup m name es \<noteq> 0"
    and fp: "get_inode m cx (inode_number m (lookup m name es)) = Ok fp"
    and s: "inode_size m fp < start" "inode_size m fp < nbytes + start"
  shows "ext2_raw_write cx (SEPARATOR # name @ [0]) buffer start nbytes m = Ok (WRITE_SUCCESS, 3, m)"
proof -
  have "write_file_by_inode cx (lookup m name es) buffer start nbytes m = Ok (3, m)"
    using fp s by (simp add: write_file_by_inode_def Let_def)
  then show ?thesis using root_file(2) [OF R n, of buffer start nbytes] f by simp
qed

subsection \<open>Growing a file\<close>

lemma round_up:
  fixes n bs :: u32
  assumes b: "b = unat bs" "0 < b"
  defines "q \<equiv> n div bs + (if n mod bs \<noteq> 0 then 1 else 0)"
  shows "unat n \<le> unat q * b" "unat q * b < unat n + b"
proof -
  have m: "n mod bs = 0 \<longleftrightarrow> unat n mod b = 0" using b(1) by (metis unat_eq_zero unat_mod)
  have "unat n div b + 1 < 2 ^ 32 \<or> unat n mod b = 0"
  proof (cases "b = 1")
    case False
    then have "unat n div b \<le> unat n div 2" using b(2) by (intro div_le_mono2) simp_all
    then have "unat n div b + 1 < 4294967296" using unat_u32_bound [of n] by linarith
    then show ?thesis by simp
  qed simp
  then have num: "unat q = unat n div b + (if unat n mod b \<noteq> 0 then 1 else 0)"
    unfolding q_def using m b(1) by (auto simp: unat_div unat_add_no_wrap)
  have dm: "unat n div b * b + unat n mod b = unat n" "unat n mod b < b" using b(2) by simp_all
  show "unat n \<le> unat q * b" "unat q * b < unat n + b"
    unfolding num add_mult_distrib using dm b(2) by (cases "unat n mod b = 0"; simp only: if_True if_False simp_thms; linarith)+
qed

text \<open>
  The number of blocks a file of some size needs for more bytes is the least that is enough when
  the bytes at least fill its last block; when they fit into it the difference wraps around, and
  instead of none nearly as many blocks are asked for as numbers of 32 bits allow.
\<close>

theorem blocks_to_alloc_correct:
  assumes b: "b = unat bs" "0 < b" and free: "free = (b - unat initial mod b) mod b"
  shows "(free \<le> unat nbytes \<longrightarrow> unat nbytes - free \<le> unat (blocks_to_alloc bs initial nbytes) * b \<and>
      unat (blocks_to_alloc bs initial nbytes) * b < unat nbytes - free + b) \<and>
    (unat nbytes < free \<longrightarrow> 2 ^ 32 - b < unat (blocks_to_alloc bs initial nbytes) * b)"
proof -
  define n where "n = (if initial mod bs \<noteq> 0 then nbytes - (bs - initial mod bs) else nbytes)"
  have r: "unat (initial mod bs) = unat initial mod b" "unat initial mod b < b" using b by (simp_all add: unat_mod)
  have rz: "initial mod bs = 0 \<longleftrightarrow> unat initial mod b = 0" using r(1) by (metis unat_eq_zero)
  have f: "unat (bs - initial mod bs) = b - unat initial mod b" using r b(1) by (subst unat_sub_no_wrap) simp_all
  have fr: "free = (if initial mod bs = 0 then 0 else b - unat initial mod b)" using free rz r(2) by simp
  have q: "blocks_to_alloc bs initial nbytes = n div bs + (if n mod bs \<noteq> 0 then 1 else 0)"
    by (simp add: blocks_to_alloc_def n_def Let_def)
  note up = round_up [OF b, of n, folded q]
  have fits: "unat n = unat nbytes - free" if "free \<le> unat nbytes"
    using that fr f by (auto simp: n_def unat_sub_no_wrap)
  have wraps: "2 ^ 32 - b < unat n" if "unat nbytes < free"
  proof -
    have z: "initial mod bs \<noteq> 0" "free = b - unat initial mod b" "0 < unat initial mod b" using that fr rz by (auto split: if_splits)
    then have "unat n = unat nbytes + 2 ^ 32 - free" using that f by (simp add: n_def unat_sub_if')
    moreover have "free < b" using z r(2) by simp
    ultimately show ?thesis using that unat_u32_bound [of bs] b(1) by simp
  qed
  show ?thesis using fits wraps up by (auto intro: less_le_trans)
qed

subsection \<open>An example\<close>

text \<open>
  A ramdisk at one megabyte with blocks of 1024 bytes. The root directory has one block with the
  entries \<open>.\<close> and \<open>a\<close>; the file \<open>a\<close> has 2000 bytes in two blocks that are not next to one another.
\<close>

definition disk_bytes :: "(u32 \<times> u8) list" where
  "disk_bytes =
    [(0x100400, 16), (0x100404, 64), (0x100414, 1), (0x100421, 32), (0x100428, 16),
     (0x100800, 3), (0x100C00, 255),
     (0x1014A8, 20), (0x101504, 0xD0), (0x101505, 7), (0x101528, 30), (0x10152C, 40),
     (0x105000, 2), (0x105004, 12), (0x105006, 1), (0x105008, 46),
     (0x10500C, 3), (0x105010, 0xF4), (0x105011, 3), (0x105012, 1), (0x105014, 97),
     (0x107800, 72), (0x107BFC, 10), (0x107C00, 99), (0x10A000, 73)]"

definition disk :: bytes where
  "disk a = (case map_of disk_bytes a of None \<Rightarrow> 0 | Some x \<Rightarrow> x)"

definition ramdisk :: fs_context where
  "ramdisk = mount_ramdisk 0x100000"

lemma disk_parts:
  "get_inode disk ramdisk 2 = Ok 0x101480" "get_inode disk ramdisk 3 = Ok 0x101500" "get_block_size disk ramdisk = 1024"
  "direct_block disk ramdisk 0x101480 0 = 0x105000" "inode_size disk 0x101500 = 2000" "inode_number disk 0x10500C = 3"
  "inode_number disk 0x105000 = 2" "filename disk 0x105000 = [46]" "filename disk 0x10500C = [97]"
  "\<not> dirent_is_too_large disk 0x105000" "dirent_is_too_large disk 0x10500C" "get_next_dirent disk 0x105000 = 0x10500C"
  "sb ramdisk = 0x100400"
  by code_simp+

lemma disk_root:
  "entries disk (0x105000 + 8 * 1024) 0x105000 [0x105000, 0x10500C]" "root_entries disk ramdisk [0x105000, 0x10500C]"
  "lookup disk [97] [0x105000, 0x10500C] = 0x10500C" "lookup disk [98] [0x105000, 0x10500C] = 0"
  by (simp_all add: root_entries_def lookup_def disk_parts)







theorem directory_lookup_correct_witness: "get_file_from_dir_inode disk ramdisk 0x101480 [97, 0] = Ok 0x10500C"
proof -
  have "entries disk (0x105000 + 8 * get_block_size disk ramdisk) 0x105000 [0x105000, 0x10500C]"
    unfolding disk_parts(3) by (rule disk_root(1))
  moreover have "0 \<notin> set [97 :: u8]" "\<forall>e\<in>set [0x105000, 0x10500C]. 0 \<notin> set (filename disk e)" by (simp_all add: disk_parts)
  moreover have "dirent_is_too_large disk (last [0x105000, 0x10500C]) \<or> (\<exists>e\<in>set [0x105000, 0x10500C]. filename disk e = [97])"
    by (simp add: disk_parts)
  ultimately have "get_file_from_dir_inode disk ramdisk 0x101480 ([97] @ [0]) =
      Ok (case find (\<lambda>e. filename disk e = [97]) [0x105000, 0x10500C] of Some e \<Rightarrow> e | None \<Rightarrow> 0)"
    by (rule directory_lookup_correct) (rule disk_parts(4) [symmetric])
  then show ?thesis by (simp add: disk_parts)
qed

theorem zero_length_entry_diverges_witness:
  "get_file_from_dir_inode (disk(0x105004 := 0)) ramdisk 0x101480 [97, 0] = Diverge"
proof -
  let ?m = "disk(0x105004 := 0)"
  have "inode_number ?m 0x105000 \<noteq> 0" "entry_length ?m 0x105000 = 0" "filename ?m 0x105000 = [46]"
    "0x105000 = direct_block ?m ramdisk 0x101480 0" "get_block_size ?m ramdisk = 1024"
    by code_simp+
  with zero_length_entry_diverges [where m = ?m and D = "0x105000" and name = "[97]" and cx = ramdisk and ino = "0x101480"] show ?thesis by simp
qed

lemma disk_bitmap_parts:
  "blocks_per_group disk 0x100400 = 8192" "read32 disk 0x100800 = 3" "read32 disk 0x100C00 = 255" "blocks_count disk 0x100400 = 64"
  by code_simp+

lemma disk_bitmap: "n < 32 \<Longrightarrow> bitmap_word disk ramdisk n = Ok 0x100C00"
    "n < 32 \<Longrightarrow> block_is_occupied disk ramdisk n = Ok (255 AND push_bit (unat (n mod 32)) 1 \<noteq> (0 :: u32))"
proof -
  assume n: "n < 32"
  then have "unat n < 32" by (simp add: word_less_nat_alt)
  then have "unat (n div 8192) = unat (0 :: u32)" "unat (n mod 8192 div 32) = unat (0 :: u32)" by (simp_all add: unat_div unat_mod)
  then have "n div 8192 = 0" "n mod 8192 div 32 = 0" by (simp_all only: word_unat_eq_iff)
  then show w: "bitmap_word disk ramdisk n = Ok 0x100C00"
    by (simp add: bitmap_word_def get_block_bitmap_def block_to_block_group_def group_descriptor_def block_number_to_address_def
        disk_parts disk_bitmap_parts) (simp add: ramdisk_def mount_ramdisk_def disk_bitmap_parts)
  show "block_is_occupied disk ramdisk n = Ok (255 AND push_bit (unat (n mod 32)) 1 \<noteq> (0 :: u32))"
    by (simp add: block_is_occupied_def w disk_bitmap_parts)
qed

lemma disk_mark: "\<exists>m'. mark_block_occupied ramdisk 8 disk = Ok m'"
proof -
  have "read32 (write32 0x10040C x (write32 0x100C00 y disk)) 0x100420 = read32 disk 0x100420" for x y
    by (simp add: read32_def write32_def)
  then have "blocks_per_group (write32 0x10040C x (write32 0x100C00 y disk)) 0x100400 = 8192" for x y
    using disk_bitmap_parts(1) by (simp add: blocks_per_group_def)
  then show ?thesis by (simp add: mark_block_occupied_def disk_bitmap(1) block_to_block_group_def disk_parts(13) Let_def)
qed

lemma disk_alloc: "\<exists>m'. block_alloc ramdisk disk = Ok (8, m')"
proof -
  have "\<forall>i\<in>set [0, 1, 2, 3, 4, 5, 6, 7]. block_is_occupied disk ramdisk (of_nat i) = Ok True" by (simp add: disk_bitmap(2))
  moreover have "[0..<64] = [0, 1, 2, 3, 4, 5, 6, 7] @ 8 # [9..<64]" by (simp add: upt_conv_Cons)
  ultimately have "block_alloc ramdisk disk = alloc_from ramdisk (8 # [9..<64]) disk"
    using alloc_from_skip by (simp only: block_alloc_def disk_parts(13) disk_bitmap_parts(4)) simp
  moreover have "block_is_occupied disk ramdisk 8 = Ok False" by (simp add: disk_bitmap(2))
  ultimately show ?thesis using disk_mark by auto
qed

theorem block_alloc_returns_used_block_witness: "block_in_use disk ramdisk 8 = Ok True \<and> block_is_occupied disk ramdisk 8 = Ok False"
proof -
  obtain m' where "block_alloc ramdisk disk = Ok (8, m')" using disk_alloc by blast
  moreover have "first_data_block disk (sb ramdisk) = 1" by code_simp
  ultimately show ?thesis using block_alloc_returns_used_block [of ramdisk disk 8 m'] by simp
qed

theorem ext2_root_file_witness:
  "ext2_raw_read ramdisk [47, 98, 0] 0x1000 0 8 disk = Ok (READ_FILE_NOT_FOUND, 0, disk)"
proof -
  show ?thesis using ext2_root_file [OF disk_root(2), of "[98]" 0 "0x1000" 0 8] disk_root(4) by simp
qed

theorem noncontiguous_write_succeeds_witness:
  "ext2_raw_write ramdisk [47, 97, 0] 0x1000 3000 8 disk = Ok (WRITE_SUCCESS, 3, disk)"
  using noncontiguous_write_succeeds [OF disk_root(2), of "[97]" "0x101500" 3000 8 "0x1000"] by (simp add: disk_parts disk_root)

theorem blocks_to_alloc_correct_witness: "2 ^ 32 - 1024 < unat (blocks_to_alloc 1024 10 1) * 1024"
  using blocks_to_alloc_correct [of 1024 1024 1014 10 1] by simp

end
