(* ===== verification/Linked_List.thy ===== *)
theory Linked_List
  imports Kmalloc
begin

text \<open>
  The linked lists of \<^verbatim>\<open>src/kernel/data_structures/linkedlist.c\<close>. The elements are objects in a map
  from addresses, with addresses from the kernel heap; the structure of the list itself is a record.
  An access through an address that is not that of an element is a \<open>Fault\<close>, so is one through
  \<^verbatim>\<open>NULL\<close>. The function that destroys the data is a flag, its calls are the data it is called with.
\<close>

subsection \<open>State\<close>

record 'd list_element =
  ldata :: 'd
  lnext :: u32
  lprev :: u32

record linked_list =
  list_size :: u32
  destroyer :: bool
  list_head :: u32
  list_tail :: u32

record 'd list_state =
  lheap :: kheap
  elements :: "u32 \<Rightarrow> 'd list_element option"
  llist :: linked_list

abbreviation (input) sizeof_list_element :: u32 where "sizeof_list_element \<equiv> 12"

subsection \<open>Operations\<close>

definition get_element :: "u32 \<Rightarrow> 'd list_state \<Rightarrow> 'd list_element outcome" where
  "get_element a s = deref (elements s a)"

definition upd_element :: "u32 \<Rightarrow> ('d list_element \<Rightarrow> 'd list_element) \<Rightarrow> 'd list_state \<Rightarrow> 'd list_state outcome" where
  "upd_element a f s = obind (get_element a s) (\<lambda>e. Ok (s\<lparr>elements := (elements s)(a \<mapsto> f e)\<rparr>))"

definition upd_list :: "(linked_list \<Rightarrow> linked_list) \<Rightarrow> 'd list_state \<Rightarrow> 'd list_state" where
  "upd_list f s = s\<lparr>llist := f (llist s)\<rparr>"

definition list_init :: "bool \<Rightarrow> 'd list_state \<Rightarrow> 'd list_state" where
  "list_init d = upd_list (\<lambda>_. \<lparr>list_size = 0, destroyer = d, list_head = 0, list_tail = 0\<rparr>)"

definition list_insert_next :: "u32 \<Rightarrow> 'd \<Rightarrow> 'd list_state \<Rightarrow> (int \<times> 'd list_state) outcome" where
  "list_insert_next element d s0 =
     obind (kmalloc sizeof_list_element (lheap s0)) (\<lambda>(p, k).
       if p = 0 then Ok (-1, s0\<lparr>lheap := k\<rparr>)
       else
         let s = s0\<lparr>lheap := k, elements := (elements s0)(p \<mapsto> \<lparr>ldata = d, lnext = 0, lprev = 0\<rparr>)\<rparr> in
         obind
           (if element = 0 then
              let s1 = (if list_size (llist s) = 0 then upd_list (\<lambda>l. l\<lparr>list_tail := p\<rparr>) s else s) in
              obind (if list_head (llist s1) \<noteq> 0 then upd_element (list_head (llist s1)) (\<lambda>e. e\<lparr>lprev := p\<rparr>) s1 else Ok s1) (\<lambda>s2.
              obind (upd_element p (\<lambda>e. e\<lparr>lnext := list_head (llist s2)\<rparr>) s2) (\<lambda>s3.
              upd_element p (\<lambda>e. e\<lparr>lprev := 0\<rparr>) (upd_list (\<lambda>l. l\<lparr>list_head := p\<rparr>) s3)))
            else
              obind (get_element element s) (\<lambda>e.
              let s1 = (if lnext e = 0 then upd_list (\<lambda>l. l\<lparr>list_tail := p\<rparr>) s else s) in
              obind (upd_element p (\<lambda>n. n\<lparr>lprev := element\<rparr>) s1) (\<lambda>s2.
              obind (upd_element (lnext e) (\<lambda>n. n\<lparr>lprev := p\<rparr>) s2) (\<lambda>s3.
              obind (get_element element s3) (\<lambda>e3.
              obind (upd_element p (\<lambda>n. n\<lparr>lnext := lnext e3\<rparr>) s3) (\<lambda>s4.
              upd_element element (\<lambda>n. n\<lparr>lnext := p\<rparr>) s4))))))
           (\<lambda>s5. Ok (0, upd_list (\<lambda>l. l\<lparr>list_size := list_size l + 1\<rparr>) s5)))"

definition list_remove_next :: "u32 \<Rightarrow> 'd list_state \<Rightarrow> (int \<times> 'd option \<times> 'd list_state) outcome" where
  "list_remove_next element s =
     (if list_size (llist s) = 0 then Ok (-1, None, s)
      else if element = 0 then
        obind (get_element (list_head (llist s)) s) (\<lambda>old.
        let s1 = upd_list (\<lambda>l. l\<lparr>list_head := lnext old\<rparr>) s;
            s2 = (if list_size (llist s1) = 1 then upd_list (\<lambda>l. l\<lparr>list_tail := 0\<rparr>) s1 else s1) in
        obind (kfree (list_head (llist s)) (lheap s2)) (\<lambda>k.
        Ok (0, Some (ldata old), upd_list (\<lambda>l. l\<lparr>list_size := list_size l - 1\<rparr>)
          (s2\<lparr>lheap := k, elements := (elements s2)(list_head (llist s) := None)\<rparr>))))
      else
        obind (get_element element s) (\<lambda>e.
        if lnext e = 0 then Ok (-1, None, s)
        else
          obind (get_element (lnext e) s) (\<lambda>old.
          obind (upd_element element (\<lambda>n. n\<lparr>lnext := lnext old\<rparr>) s) (\<lambda>s1.
          let s2 = (if lnext old = 0 then upd_list (\<lambda>l. l\<lparr>list_tail := element\<rparr>) s1 else s1) in
          obind (kfree (lnext e) (lheap s2)) (\<lambda>k.
          Ok (0, Some (ldata old), upd_list (\<lambda>l. l\<lparr>list_size := list_size l - 1\<rparr>)
            (s2\<lparr>lheap := k, elements := (elements s2)(lnext e := None)\<rparr>)))))))"

text \<open>
  The loop of \<^verbatim>\<open>list_destroy\<close>; the size is signed. What the function that destroys data does is the argument
  \<open>f\<close>; every list of the kernel uses \<^verbatim>\<open>__kfree\<close>, which is \<open>free_data\<close>.
\<close>

partial_function (option) destroy_loop ::
  "('d \<Rightarrow> 'd list_state \<Rightarrow> 'd list_state outcome) \<Rightarrow> 'd list_state \<Rightarrow> 'd list_state outcome option" where
  "destroy_loop f s =
     (if sint (list_size (llist s)) > 0 then
        lift_bind (list_remove_next 0 s) (\<lambda>(r, d, s').
        lift_bind (case d of Some x \<Rightarrow> if r = 0 \<and> destroyer (llist s') then f x s' else Ok s' | None \<Rightarrow> Ok s') (destroy_loop f))
      else Some (Ok s))"

definition list_destroy :: "('d \<Rightarrow> 'd list_state \<Rightarrow> 'd list_state outcome) \<Rightarrow> 'd list_state \<Rightarrow> 'd list_state outcome" where
  "list_destroy f s = obind (of_loop (destroy_loop f s)) (\<lambda>s'. Ok (list_init False s'))"

definition free_data :: "u32 \<Rightarrow> u32 list_state \<Rightarrow> u32 list_state outcome" where
  "free_data a s = obind (kfree a (lheap s)) (\<lambda>k. Ok (s\<lparr>lheap := k\<rparr>))"

text \<open>The loop with which the kernel searches a list of pointers to objects: the first that satisfies \<open>P\<close>, or \<^verbatim>\<open>NULL\<close>.\<close>

partial_function (option) find_object ::
  "(u32 \<Rightarrow> 'o option) \<Rightarrow> ('o \<Rightarrow> bool) \<Rightarrow> u32 \<Rightarrow> u32 list_state \<Rightarrow> u32 outcome option" where
  "find_object objs P node s =
     (if node = 0 then Some (Ok 0)
      else lift_bind (get_element node s) (\<lambda>e.
           lift_bind (deref (objs (ldata e))) (\<lambda>c.
           if P c then Some (Ok (ldata e)) else find_object objs P (lnext e) s)))"

subsection \<open>The list that is represented\<close>

fun nexts :: "(u32 \<Rightarrow> 'd list_element option) \<Rightarrow> u32 \<Rightarrow> u32 list \<Rightarrow> 'd list \<Rightarrow> bool" where
  "nexts m p [] [] = (p = 0)"
| "nexts m p (a # as) (x # xs) = (p = a \<and> (case m a of Some e \<Rightarrow> ldata e = x \<and> nexts m (lnext e) as xs | None \<Rightarrow> False))"
| "nexts m p as xs = False"

text \<open>
  The addresses follow one another along the next pointers, the tail is the last one and the size
  their number; nothing is at \<^verbatim>\<open>NULL\<close>; they are live in the heap with the pointers \<open>L\<close> that belong to others. Nothing is
  said of the previous pointers: removing an element leaves them as they are.
\<close>

definition linv :: "'d list_state \<Rightarrow> 'd list \<Rightarrow> u32 list \<Rightarrow> u32 set \<Rightarrow> bool" where
  "linv s xs as L \<longleftrightarrow> nexts (elements s) (list_head (llist s)) as xs \<and> distinct as \<and> 0 \<notin> set as \<and> set as \<inter> L = {} \<and>
     list_tail (llist s) = last_or as 0 \<and> list_size (llist s) = of_nat (length xs) \<and> length xs < 2 ^ 31 \<and> elements s 0 = None \<and>
     heap_live (lheap s) (set as \<union> L)"

definition lrep :: "'d list_state \<Rightarrow> 'd list \<Rightarrow> u32 set \<Rightarrow> bool" where
  "lrep s xs L \<longleftrightarrow> (\<exists>as. linv s xs as L)"

lemma nexts_length: "nexts m p as xs \<Longrightarrow> length as = length xs"
  by (induction m p as xs rule: nexts.induct) (auto split: option.splits)

lemma nexts_cong: "nexts m p as xs \<Longrightarrow> (\<And>a. a \<in> set as \<Longrightarrow> map_option ldata (m' a) = map_option ldata (m a) \<and> map_option lnext (m' a) = map_option lnext (m a)) \<Longrightarrow> nexts m' p as xs"
proof (induction m p as xs rule: nexts.induct)
  case (2 m p a as x xs)
  obtain e where e: "m a = Some e" "ldata e = x" "nexts m (lnext e) as xs" "p = a" using 2(2) by (auto split: option.splits)
  obtain e' where e': "m' a = Some e'" "ldata e' = ldata e" "lnext e' = lnext e" using 2(3) [of a] e(1) by auto
  have "nexts m' (lnext e) as xs" using 2(1) [OF e(1,3)] 2(3) by simp
  then show ?case using e e' by simp
qed simp_all

lemma nexts_head: "nexts m p as xs \<Longrightarrow> p = hd_or as 0"
  by (induction m p as xs rule: nexts.induct) auto

text \<open>Sizes below 2^31 are what they are as words.\<close>

lemma size_word: "n < 2 ^ 31 \<Longrightarrow> (of_nat n :: u32) = 0 \<longleftrightarrow> n = 0" "n < 2 ^ 31 \<Longrightarrow> (of_nat n :: u32) = 1 \<longleftrightarrow> n = 1"
    "n < 2 ^ 31 \<Longrightarrow> sint (of_nat n :: u32) = int n"
proof -
  assume n: "n < 2 ^ 31"
  then have u: "unat (of_nat n :: u32) = n" by (simp add: unat_of_nat take_bit_nat_eq_self)
  have "unat (of_nat n :: u32) = 0 \<longleftrightarrow> n = 0" unfolding u ..
  then show "(of_nat n :: u32) = 0 \<longleftrightarrow> n = 0" by (simp only: unat_eq_zero)
  have "(of_nat n :: u32) = 1 \<longleftrightarrow> unat (of_nat n :: u32) = unat (1 :: u32)" by (rule word_unat_eq_iff)
  then show "(of_nat n :: u32) = 1 \<longleftrightarrow> n = 1" unfolding u by simp
  show "sint (of_nat n :: u32) = int n" using n by (simp add: signed_of_nat signed_take_bit_int_eq_self)
qed

subsection \<open>Inserting and removing at the head\<close>

lemma list_push_sim:
  assumes R: "lrep s xs L" and n: "length xs < 2 ^ 31 - 1"
  shows "(\<exists>m. list_insert_next 0 d s = Panic m) \<or> (\<exists>s'. list_insert_next 0 d s = Ok (0, s') \<and> lrep s' (d # xs) L)"
proof -
  obtain as where I: "linv s xs as L" using R by (auto simp: lrep_def)
  then have N: "nexts (elements s) (list_head (llist s)) as xs" "distinct as" "0 \<notin> set as" "set as \<inter> L = {}"
    "list_tail (llist s) = last_or as 0" "list_size (llist s) = of_nat (length xs)" "length xs < 2 ^ 31" "heap_live (lheap s) (set as \<union> L)"
    and z: "elements s 0 = None"
    by (simp_all add: linv_def)
  have h: "list_head (llist s) = hd_or as 0" "length as = length xs" using nexts_head [OF N(1)] nexts_length [OF N(1)] by auto
  have "unat sizeof_list_element \<le> 2 ^ 28" by simp
  from km.alloc_cases [OF N(8) this] show ?thesis
  proof cases
    case (1 m)
    then show ?thesis by (simp add: list_insert_next_def)
  next
    case (2 p k)
    let ?m = "(elements s)(p \<mapsto> \<lparr>ldata = d, lnext = hd_or as 0, lprev = 0\<rparr>)"
    let ?m' = "case as of [] \<Rightarrow> ?m | a # _ \<Rightarrow> ?m(a \<mapsto> (the (elements s a))\<lparr>lprev := p\<rparr>)"
    let ?s = "s\<lparr>lheap := k, elements := ?m', llist := \<lparr>list_size = of_nat (length xs) + 1, destroyer = destroyer (llist s), list_head = p,
      list_tail = (if as = [] then p else last_or as 0)\<rparr>\<rparr>"
    have run: "list_insert_next 0 d s = Ok (0, ?s)"
    proof (cases as)
      case Nil
      then have "length xs = 0" using h(2) by simp
      then show ?thesis using 2(1,4) Nil h N(5,6)
        by (cases "llist s") (simp add: list_insert_next_def upd_list_def upd_element_def get_element_def)
    next
      case (Cons a bs)
      then obtain e where e: "elements s a = Some e" using N(1) by (cases xs) (auto split: option.splits)
      have "p \<noteq> a" "a \<noteq> 0" using 2(3) N(3) Cons by auto
      moreover have "(of_nat (length xs) :: u32) \<noteq> 0" using size_word(1) [OF N(7)] h(2) Cons by auto
      ultimately show ?thesis using 2(1,4) Cons h N(5,6) e
        by (cases "llist s") (simp add: list_insert_next_def upd_list_def upd_element_def get_element_def fun_upd_twist)
    qed
    have "nexts ?m' (hd_or as 0) as xs"
    proof (rule nexts_cong [where m = "elements s"])
      show "nexts (elements s) (hd_or as 0) as xs" using N(1) h(1) by simp
      fix a assume a: "a \<in> set as"
      then have "a \<noteq> p" using 2(3) by auto
      moreover have "elements s (hd as) \<noteq> None" using N(1) a by (cases as; cases xs) (auto split: option.splits)
      ultimately show "map_option ldata (?m' a) = map_option ldata (elements s a) \<and> map_option lnext (?m' a) = map_option lnext (elements s a)"
        using a by (auto split: list.splits)
    qed
    moreover have "p \<notin> set as" using 2(3) by simp
    then have "?m' p = Some \<lparr>ldata = d, lnext = hd_or as 0, lprev = 0\<rparr>" by (auto split: list.splits)
    ultimately have "nexts ?m' p (p # as) (d # xs)" by simp
    moreover have "p \<noteq> 0" using 2(4) .
    then have "?m' 0 = None" using N(3) z by (cases as) auto
    ultimately have "linv ?s (d # xs) (p # as) L"
      unfolding linv_def using N(2-5,7) n 2(2-4) by (auto simp: insert_commute last_or_def)
    then show ?thesis using run by (auto simp: lrep_def)
  qed
qed

lemma list_pop_empty: "lrep s [] L \<Longrightarrow> list_remove_next e s = Ok (-1, None, s)"
  by (auto simp: lrep_def linv_def list_remove_next_def)

lemma list_pop_sim:
  assumes R: "lrep s (x # xs) L"
  shows "\<exists>s'. list_remove_next 0 s = Ok (0, Some x, s') \<and> lrep s' xs L \<and> destroyer (llist s') = destroyer (llist s)"
proof -
  obtain as where I: "linv s (x # xs) as L" using R by (auto simp: lrep_def)
  then obtain a bs where as: "as = a # bs" by (cases as) (auto simp: linv_def)
  have N: "nexts (elements s) (list_head (llist s)) (a # bs) (x # xs)" "distinct (a # bs)" "0 \<notin> set (a # bs)" "set (a # bs) \<inter> L = {}"
    "list_tail (llist s) = last_or bs a" "list_size (llist s) = of_nat (Suc (length xs))" "Suc (length xs) < 2 ^ 31"
    "heap_live (lheap s) (set (a # bs) \<union> L)" and z: "elements s 0 = None" using I as by (simp_all add: linv_def)
  obtain e where e: "elements s a = Some e" "ldata e = x" "nexts (elements s) (lnext e) bs xs" "list_head (llist s) = a"
    using N(1) by (auto split: option.splits)
  have bs: "length bs = length xs" using nexts_length [OF e(3)] .
  obtain k where k: "kfree a (lheap s) = Ok k" "heap_live k (set (a # bs) \<union> L - {a})"
    using km.free_cases [OF N(8), of a] by auto
  have live: "set (a # bs) \<union> L - {a} = set bs \<union> L" using N(2,4) by auto
  have sz: "(of_nat (Suc (length xs)) :: u32) \<noteq> 0" "(of_nat (Suc (length xs)) :: u32) = 1 \<longleftrightarrow> xs = []"
    using size_word(1,2) [OF N(7)] by auto
  let ?s = "s\<lparr>lheap := k, elements := (elements s)(a := None), llist := \<lparr>list_size = of_nat (length xs), destroyer = destroyer (llist s),
    list_head = lnext e, list_tail = (if xs = [] then 0 else last_or bs a)\<rparr>\<rparr>"
  have "list_remove_next 0 s = Ok (0, Some x, ?s)"
    using sz e k(1) N(5,6) by (cases "llist s") (simp add: list_remove_next_def upd_list_def get_element_def Let_def del: of_nat_Suc, simp)
  moreover have "nexts ((elements s)(a := None)) (lnext e) bs xs" using N(2) by (intro nexts_cong [OF e(3)]) auto
  then have "linv ?s xs bs L" unfolding linv_def using N(2-4,7) k(2) live bs z by (cases bs) auto
  ultimately show ?thesis by (auto simp: lrep_def)
qed

subsection \<open>The contract of a stack\<close>

text \<open>What the clients of the lists rely on: data go in and out at the head.\<close>

locale stack =
  fixes push :: "'d \<Rightarrow> 's \<Rightarrow> (int \<times> 's) outcome"
    and pop :: "'s \<Rightarrow> (int \<times> 'd option \<times> 's) outcome"
    and rep :: "'s \<Rightarrow> 'd list \<Rightarrow> u32 set \<Rightarrow> bool"
  assumes push_step: "rep s xs L \<Longrightarrow> length xs < 2 ^ 31 - 1 \<Longrightarrow>
      (\<exists>m. push d s = Panic m) \<or> (\<exists>s'. push d s = Ok (0, s') \<and> rep s' (d # xs) L)"
    and pop_empty: "rep s [] L \<Longrightarrow> pop s = Ok (-1, None, s)"
    and pop_first: "rep s (x # xs) L \<Longrightarrow> \<exists>s'. pop s = Ok (0, Some x, s') \<and> rep s' xs L"
begin

lemma push_Ok: "rep s xs L \<Longrightarrow> length xs < 2 ^ 31 - 1 \<Longrightarrow> push d s = Ok (r, s') \<Longrightarrow> r = 0 \<and> rep s' (d # xs) L"
  using push_step [of s xs L d] by auto

lemma push_all:
  assumes "rep s xs L" "length xs + length ds < 2 ^ 31"
    and "ofold (\<lambda>d s. obind (push d s) (\<lambda>(r, s'). Ok s')) ds s = Ok s'"
  shows "rep s' (rev ds @ xs) L"
  using assms
proof (induction ds arbitrary: s xs)
  case (Cons d ds)
  then obtain r s1 where s1: "push d s = Ok (r, s1)" "ofold (\<lambda>d s. obind (push d s) (\<lambda>(r, s'). Ok s')) ds s1 = Ok s'"
    by (auto simp: split_def)
  have "rep s1 (d # xs) L" using push_Ok [OF Cons.prems(1) _ s1(1)] Cons.prems(2) by simp
  from Cons.IH [OF this _ s1(2)] Cons.prems(2) show ?case by simp
qed simp

lemma pop_returns: "rep s xs L \<Longrightarrow> \<exists>r. pop s = Ok r"
  using pop_empty pop_first by (cases xs) blast+

end

interpretation ll: stack "list_insert_next 0" "list_remove_next 0" lrep
proof
  show "(\<exists>m. list_insert_next 0 d s = Panic m) \<or> (\<exists>s'. list_insert_next 0 d s = Ok (0, s') \<and> lrep s' (d # xs) L)"
    if "lrep s xs L" "length xs < 2 ^ 31 - 1" for s :: "'a list_state" and xs L d
    using list_push_sim [OF that] .
  show "list_remove_next 0 s = Ok (-1, None, s)" if "lrep s [] L" for s :: "'a list_state" and L
    using list_pop_empty [OF that] .
  show "\<exists>s'. list_remove_next 0 s = Ok (0, Some x, s') \<and> lrep s' xs L" if "lrep s (x # xs) L" for s :: "'a list_state" and x xs L
    using list_pop_sim [OF that] by blast
qed

subsection \<open>Destroying a list\<close>

lemma free_data_sim:
  assumes "lrep s xs (insert a L)" "a \<notin> L"
  shows "\<exists>s'. free_data a s = Ok s' \<and> lrep s' xs L \<and> llist s' = llist s"
proof -
  obtain as where I: "linv s xs as (insert a L)" using assms(1) by (auto simp: lrep_def)
  then have l: "heap_live (lheap s) (set as \<union> insert a L)" "set as \<inter> insert a L = {}" by (simp_all add: linv_def)
  then obtain k where k: "kfree a (lheap s) = Ok k" "heap_live k (set as \<union> insert a L - {a})" using km.free_cases [OF l(1), of a] by auto
  have "set as \<union> insert a L - {a} = set as \<union> L" using l(2) assms(2) by auto
  then have "linv (s\<lparr>lheap := k\<rparr>) xs as L" using I k(2) by (simp add: linv_def)
  then show ?thesis using k(1) by (auto simp: free_data_def lrep_def)
qed

lemma destroy_loop_sim:
  assumes "lrep s ps (set ps \<union> L)" "distinct ps" "set ps \<inter> L = {}" "destroyer (llist s)"
  shows "\<exists>s'. destroy_loop free_data s = Some (Ok s') \<and> lrep s' [] L"
  using assms
proof (induction ps arbitrary: s)
  case Nil
  then have "list_size (llist s) = 0" by (auto simp: lrep_def linv_def)
  then show ?case using Nil by (subst destroy_loop.simps) auto
next
  case (Cons x xs)
  obtain s1 where s1: "list_remove_next 0 s = Ok (0, Some x, s1)" "lrep s1 xs (insert x (set xs \<union> L))" "destroyer (llist s1)"
    using list_pop_sim [OF Cons.prems(1)] Cons.prems(4) by auto
  have "x \<notin> set xs \<union> L" using Cons.prems(2,3) by auto
  from free_data_sim [OF s1(2) this] obtain s2 where s2: "free_data x s1 = Ok s2" "lrep s2 xs (set xs \<union> L)" "destroyer (llist s2)"
    using s1(3) by auto
  have "list_size (llist s) = of_nat (length (x # xs))" "length (x # xs) < 2 ^ 31" using Cons.prems by (auto simp: lrep_def linv_def)
  then have "sint (list_size (llist s)) > 0" using size_word(3) [of "length (x # xs)"] by simp
  then have "destroy_loop free_data s = destroy_loop free_data s2"
    using s1 s2 by (subst destroy_loop.simps) simp
  moreover have "distinct xs" "set xs \<inter> L = {}" using Cons.prems(2,3) by auto
  ultimately show ?case using Cons.IH [OF s2(2) _ _ s2(3)] by simp
qed

subsection \<open>Lists of objects\<close>

text \<open>
  The data are the addresses \<open>ps\<close> of the objects \<open>os\<close>; the objects are live in the heap beside the elements
  of the list.
\<close>

definition objects :: "u32 list_state \<Rightarrow> (u32 \<Rightarrow> 'o option) \<Rightarrow> u32 list \<Rightarrow> 'o list \<Rightarrow> u32 set \<Rightarrow> bool" where
  "objects s objs ps os L \<longleftrightarrow> lrep s ps (set ps \<union> L) \<and> distinct ps \<and> 0 \<notin> set ps \<and> set ps \<inter> L = {} \<and> map objs ps = map Some os"

lemma lrep_alloc:
  assumes R: "lrep s xs L" and n: "unat n \<le> 2 ^ 28"
  obtains m where "kmalloc n (lheap s) = Panic m"
  | a k where "kmalloc n (lheap s) = Ok (a, k)" "a \<noteq> 0" "a \<notin> L" "lrep (s\<lparr>lheap := k\<rparr>) xs (insert a L)"
proof -
  obtain as where I: "linv s xs as L" using R by (auto simp: lrep_def)
  then have "heap_live (lheap s) (set as \<union> L)" by (simp add: linv_def)
  from km.alloc_cases [OF this n] show ?thesis
  proof cases
    case (2 a k)
    then have "linv (s\<lparr>lheap := k\<rparr>) xs as (insert a L)" using I by (auto simp: linv_def)
    then show ?thesis using 2 that(2) by (auto simp: lrep_def)
  qed (rule that(1))
qed

text \<open>A new object is allocated and its address put at the head of the list.\<close>

lemma objects_insert:
  assumes O: "objects s objs ps os L" and n: "unat n \<le> 2 ^ 28" "length ps < 2 ^ 31 - 1"
  obtains m where "kmalloc n (lheap s) = Panic m"
  | a k m where "kmalloc n (lheap s) = Ok (a, k)" "list_insert_next 0 a (s\<lparr>lheap := k\<rparr>) = Panic m"
  | a k s' where "kmalloc n (lheap s) = Ok (a, k)" "list_insert_next 0 a (s\<lparr>lheap := k\<rparr>) = Ok (0, s')"
      "\<And>c. objects s' (objs(a \<mapsto> c)) (a # ps) (c # os) L"
proof -
  have "lrep s ps (set ps \<union> L)" using O by (simp add: objects_def)
  from lrep_alloc [OF this n(1)] show ?thesis
  proof cases
    case (2 a k)
    from ll.push_step [OF 2(4) n(2), of a] show ?thesis
    proof (elim disjE exE conjE)
      fix s' assume s': "list_insert_next 0 a (s\<lparr>lheap := k\<rparr>) = Ok (0, s')" "lrep s' (a # ps) (insert a (set ps \<union> L))"
      then have "objects s' (objs(a \<mapsto> c)) (a # ps) (c # os) L" for c
        using O 2(2,3) by (auto simp: objects_def)
      then show ?thesis using that(3) [OF 2(1) s'(1)] by blast
    qed (rule that(2) [OF 2(1)])
  qed (rule that(1))
qed

lemma find_nexts:
  "nexts (elements s) node as ps \<Longrightarrow> 0 \<notin> set as \<Longrightarrow> map objs ps = map Some os \<Longrightarrow>
     find_object objs P node s = Some (Ok (case find (\<lambda>(a, c). P c) (zip ps os) of None \<Rightarrow> 0 | Some (a, c) \<Rightarrow> a))"
proof (induction "elements s" node as ps arbitrary: os rule: nexts.induct)
  case (1 node)
  then show ?case by (simp add: find_object.simps)
next
  case (2 node a as x xs)
  obtain e where e: "elements s a = Some e" "ldata e = x" "nexts (elements s) (lnext e) as xs" "node = a"
    using 2(2) by (auto split: option.splits)
  obtain k ks where k: "os = k # ks" "objs x = Some k" "map objs xs = map Some ks"
    using 2(4) by (cases os) auto
  have "find_object objs P (lnext e) s = Some (Ok (case find (\<lambda>(a, c). P c) (zip xs ks) of None \<Rightarrow> 0 | Some (a, c) \<Rightarrow> a))"
    using 2(1) [OF e(1,3) _ k(3)] 2(3) by simp
  then show ?case using e k 2(3) by (subst find_object.simps) (simp add: get_element_def)
qed simp_all

lemma find_objects:
  assumes "objects s objs ps os L"
  shows "of_loop (find_object objs P (list_head (llist s)) s) = Ok (case find (\<lambda>(a, c). P c) (zip ps os) of None \<Rightarrow> 0 | Some (a, c) \<Rightarrow> a)"
proof -
  obtain as where as: "linv s ps as (set ps \<union> L)" using assms by (auto simp: objects_def lrep_def)
  then have "nexts (elements s) (list_head (llist s)) as ps" "0 \<notin> set as" by (simp_all add: linv_def)
  moreover have "map objs ps = map Some os" using assms by (simp add: objects_def)
  ultimately show ?thesis by (simp add: find_nexts)
qed

lemma destroy_objects:
  assumes "objects s objs ps os L" "destroyer (llist s)"
  shows "\<exists>s'. list_destroy free_data s = Ok s' \<and> lrep s' [] L"
proof -
  have "lrep s ps (set ps \<union> L)" "distinct ps" "set ps \<inter> L = {}" using assms(1) by (simp_all add: objects_def)
  from destroy_loop_sim [OF this assms(2)] obtain s' where s': "destroy_loop free_data s = Some (Ok s')" "lrep s' [] L" by blast
  then obtain as where as: "linv s' [] as L" by (auto simp: lrep_def)
  then have "as = []" using nexts_length by (fastforce simp: linv_def)
  then have "linv (list_init False s') [] [] L" using as by (auto simp: linv_def list_init_def upd_list_def)
  then show ?thesis using s'(1) by (auto simp: list_destroy_def lrep_def)
qed

subsection \<open>Removing inside a list\<close>

lemma nexts_remove:
  assumes "length as = length xs" and "nexts m p (as @ a # b # bs) (xs @ x # y # ys)" and "distinct (as @ a # b # bs)"
  shows "\<exists>ea eb. m a = Some ea \<and> ldata ea = x \<and> lnext ea = b \<and> m b = Some eb \<and> ldata eb = y \<and> lnext eb = hd_or bs 0 \<and>
    nexts (m(a \<mapsto> ea\<lparr>lnext := lnext eb\<rparr>, b := None)) p (as @ a # bs) (xs @ x # ys)"
  using assms
proof (induction as xs arbitrary: p rule: list_induct2)
  case Nil
  then obtain ea eb where e: "p = a" "m a = Some ea" "ldata ea = x" "lnext ea = b" "m b = Some eb" "ldata eb = y" "nexts m (lnext eb) bs ys"
    by (auto split: option.splits)
  let ?m = "m(a \<mapsto> ea\<lparr>lnext := lnext eb\<rparr>, b := None)"
  have "nexts ?m (lnext eb) bs ys" using Nil(2) by (intro nexts_cong [OF e(7)]) auto
  moreover have "?m a = Some (ea\<lparr>lnext := lnext eb\<rparr>)" using Nil(2) by auto
  ultimately have "nexts ?m p ([] @ a # bs) ([] @ x # ys)" using e(1,3) by (simp del: fun_upd_apply)
  then show ?case using e(2-6) nexts_head [OF e(7)] by blast
next
  case (Cons c as z xs)
  obtain e where e: "p = c" "m c = Some e" "ldata e = z" "nexts m (lnext e) (as @ a # b # bs) (xs @ x # y # ys)"
    using Cons(3) by (auto split: option.splits)
  have d: "distinct (as @ a # b # bs)" "c \<noteq> a" "c \<noteq> b" using Cons(4) by auto
  from Cons(2) [OF e(4) d(1)] obtain ea eb where r: "m a = Some ea" "ldata ea = x" "lnext ea = b" "m b = Some eb" "ldata eb = y" "lnext eb = hd_or bs 0"
    "nexts (m(a \<mapsto> ea\<lparr>lnext := lnext eb\<rparr>, b := None)) (lnext e) (as @ a # bs) (xs @ x # ys)" by blast
  have "(m(a \<mapsto> ea\<lparr>lnext := lnext eb\<rparr>, b := None)) c = Some e" using e(2) d by simp
  then have "nexts (m(a \<mapsto> ea\<lparr>lnext := lnext eb\<rparr>, b := None)) p ((c # as) @ a # bs) ((z # xs) @ x # ys)"
    using e(1,3) r(7) by (simp del: fun_upd_apply)
  then show ?case using r(1-6) by blast
qed

lemma nexts_last: "nexts m p (as @ [a]) (xs @ [x]) \<Longrightarrow> length as = length xs \<Longrightarrow> \<exists>e. m a = Some e \<and> ldata e = x \<and> lnext e = 0"
proof (induction as arbitrary: p xs)
  case Nil
  then show ?case by (auto split: option.splits)
next
  case (Cons c as)
  then show ?case by (cases xs) (auto split: option.splits)
qed

text \<open>Removing the element behind one that is not the first, with any list around.\<close>

lemma remove_next_inner:
  assumes I: "linv l (xs @ x # y # ys) as L"
  obtains as1 a as2 l' where "as = as1 @ a # as2" "length as1 = length xs" "list_remove_next a l = Ok (0, Some y, l')" "lrep l' (xs @ x # ys) L"
proof -
  have N: "nexts (elements l) (list_head (llist l)) as (xs @ x # y # ys)" "distinct as" "0 \<notin> set as" "set as \<inter> L = {}"
    "list_tail (llist l) = last_or as 0" "list_size (llist l) = of_nat (length (xs @ x # y # ys))" "length (xs @ x # y # ys) < 2 ^ 31"
    "elements l 0 = None" "heap_live (lheap l) (set as \<union> L)" using I by (simp_all add: linv_def)
  define as1 a b bs where "as1 = take (length xs) as" and "a = as ! length xs" and "b = as ! Suc (length xs)" and "bs = drop (Suc (Suc (length xs))) as"
  have len: "length as = Suc (Suc (length xs + length ys))" using nexts_length [OF N(1)] by simp
  then have as: "as = as1 @ a # b # bs" unfolding as1_def a_def b_def bs_def by (simp add: Cons_nth_drop_Suc id_take_nth_drop [symmetric])
  have l1: "length as1 = length xs" using len by (simp add: as1_def)
  from nexts_remove [OF l1 N(1) [unfolded as] N(2) [unfolded as]] obtain ea eb where e: "elements l a = Some ea" "ldata ea = x" "lnext ea = b"
    "elements l b = Some eb" "ldata eb = y" "lnext eb = hd_or bs 0"
    "nexts ((elements l)(a \<mapsto> ea\<lparr>lnext := lnext eb\<rparr>, b := None)) (list_head (llist l)) (as1 @ a # bs) (xs @ x # ys)" by blast
  have ab: "a \<noteq> b" "a \<noteq> 0" "b \<noteq> 0" using N(2,3) as by auto
  obtain k where k: "kfree b (lheap l) = Ok k" "heap_live k (set as \<union> L - {b})" using km.free_cases [OF N(9), of b] as by auto
  have live: "set as \<union> L - {b} = set (as1 @ a # bs) \<union> L" using N(2,4) as by auto
  have "(of_nat (length (xs @ x # y # ys)) :: u32) \<noteq> 0" using size_word(1) [OF N(7)] by simp
  then have sz: "list_size (llist l) \<noteq> 0" using N(6) by simp
  have bs0: "lnext eb = 0 \<longleftrightarrow> bs = []" using e(6) N(3) as by (cases bs) auto
  let ?l = "l\<lparr>lheap := k, elements := (elements l)(a \<mapsto> ea\<lparr>lnext := lnext eb\<rparr>, b := None),
    llist := \<lparr>list_size = of_nat (length (xs @ x # ys)), destroyer = destroyer (llist l), list_head = list_head (llist l),
      list_tail = (if bs = [] then a else list_tail (llist l))\<rparr>\<rparr>"
  have "list_remove_next a l = Ok (0, Some y, ?l)"
    using sz ab e(1-5) bs0 k(1) N(6) by (cases "llist l") (auto simp: list_remove_next_def get_element_def upd_element_def upd_list_def Let_def)
  moreover have "linv ?l (xs @ x # ys) (as1 @ a # bs) L"
  proof -
    have "list_tail (llist ?l) = last_or (as1 @ a # bs) 0" using N(5) as by (cases bs) simp_all
    moreover have "heap_live (lheap ?l) (set (as1 @ a # bs) \<union> L)" using k(2) live by simp
    moreover have "distinct (as1 @ a # bs)" "0 \<notin> set (as1 @ a # bs)" "set (as1 @ a # bs) \<inter> L = {}" using N(2-4) as by auto
    moreover have "elements ?l 0 = None" using N(8) ab by simp
    ultimately show ?thesis unfolding linv_def using e(7) N(7) by simp
  qed
  ultimately show ?thesis using that as l1 unfolding lrep_def by blast
qed

subsection \<open>Properties\<close>

text \<open>An empty list beside the heap after initialisation, and the list with one element.\<close>

definition empty_list :: "u8 list_state" where
  "empty_list = \<lparr>lheap = boot_heap, elements = (\<lambda>_. None), llist = \<lparr>list_size = 0, destroyer = True, list_head = 0, list_tail = 0\<rparr>\<rparr>"

lemma empty_list_rep: "lrep empty_list [] {}"
proof -
  have "heap_live boot_heap {}" unfolding heap_live_def using boot_heap_inv by auto
  then have "linv empty_list [] [] {}" by (simp add: linv_def empty_list_def last_or_def)
  then show ?thesis unfolding lrep_def ..
qed

lemma insert_example: "\<exists>s. list_insert_next 0 7 empty_list = Ok (0, s) \<and> lrep s [7] {}"
proof -
  obtain p k where k: "kmalloc 12 boot_heap = Ok (p, k)"
    using kmalloc_in_place [OF boot_heap_inv, of 12 "0xD0000000"] by (auto simp: boot_heap_def kmalloc_size_def)
  then have "list_insert_next 0 7 empty_list \<noteq> Panic m" for m
    by (simp add: list_insert_next_def empty_list_def upd_list_def upd_element_def get_element_def Let_def)
  moreover have "(\<exists>m. list_insert_next 0 7 empty_list = Panic m) \<or> (\<exists>s'. list_insert_next 0 7 empty_list = Ok (0, s') \<and> lrep s' [7] {})"
    by (rule list_push_sim [OF empty_list_rep]) simp
  ultimately show ?thesis by blast
qed

text \<open>
  C15: a list that is filled at its head is a stack: the data come out in the reverse order, its size is their
  number and removing from an empty list fails without a change.
\<close>

theorem list_is_stack:
  assumes "lrep s xs L" "length xs + length ds < 2 ^ 31"
    and "ofold (\<lambda>d s. obind (list_insert_next 0 d s) (\<lambda>(r, s'). Ok s')) ds s = Ok s1"
  shows "lrep s1 (rev ds @ xs) L \<and> list_size (llist s1) = of_nat (length ds + length xs) \<and>
    (case rev ds @ xs of
       [] \<Rightarrow> list_remove_next 0 s1 = Ok (-1, None, s1)
     | y # ys \<Rightarrow> \<exists>s2. list_remove_next 0 s1 = Ok (0, Some y, s2) \<and> lrep s2 ys L)"
proof -
  have R: "lrep s1 (rev ds @ xs) L" by (rule ll.push_all [OF assms])
  then have "list_size (llist s1) = of_nat (length ds + length xs)" by (auto simp: lrep_def linv_def)
  then show ?thesis using R ll.pop_empty [of s1 L] ll.pop_first [of s1 _ _ L]
    by (auto split: list.split)
qed

theorem list_is_stack_witness:
  "\<exists>s1. list_insert_next 0 7 empty_list = Ok (0, s1) \<and> list_size (llist s1) = 1 \<and>
    (\<exists>s2. list_remove_next 0 s1 = Ok (0, Some 7, s2) \<and> lrep s2 [] {})"
proof -
  obtain s where s: "list_insert_next 0 7 empty_list = Ok (0, s)" using insert_example by blast
  then have "ofold (\<lambda>d s. obind (list_insert_next 0 d s) (\<lambda>(r, s'). Ok s')) [7] empty_list = Ok s" by simp
  from list_is_stack [OF empty_list_rep _ this] s show ?thesis by auto
qed

lemma insert_after_tail:
  assumes R: "lrep s (xs @ [x]) L"
  shows "(\<exists>m. list_insert_next (list_tail (llist s)) d s = Panic m) \<or> list_insert_next (list_tail (llist s)) d s = Fault"
proof -
  obtain as where N: "nexts (elements s) (list_head (llist s)) as (xs @ [x])" "0 \<notin> set as" "list_tail (llist s) = last_or as 0"
    "heap_live (lheap s) (set as \<union> L)" and z: "elements s 0 = None" using R by (auto simp: lrep_def linv_def)
  have last: "nexts m p as (xs @ [x]) \<Longrightarrow> as \<noteq> [] \<and> (\<exists>e. m (last as) = Some e \<and> lnext e = 0)" for m :: "u32 \<Rightarrow> 'a list_element option" and p as
  proof (induction xs arbitrary: p as)
    case Nil
    then show ?case by (cases as; cases "tl as") (auto split: option.splits)
  next
    case (Cons y ys)
    then obtain bs e where b: "as = p # bs" "nexts m (lnext (e :: 'a list_element)) bs (ys @ [x])" by (cases as; cases "m p") auto
    from Cons.IH [OF b(2)] show ?case unfolding b(1) by auto
  qed
  from last [OF N(1)] obtain e where e: "as \<noteq> []" "elements s (last as) = Some e" "lnext e = 0" by blast
  have "last as \<in> set as" using last_in_set [OF e(1)] .
  then have t: "list_tail (llist s) = last as" "last as \<noteq> 0" "last as \<in> set as" using N(2,3) e(1) by (auto simp: last_or_def simp del: last_in_set)
  have "unat sizeof_list_element \<le> 2 ^ 28" by simp
  from km.alloc_cases [OF N(4) this] show ?thesis
  proof cases
    case (2 p k)
    have "p \<noteq> last as" using 2(3) t(3) by auto
    then show ?thesis using 2(1,4) t(1,2) e(2,3) z by (simp add: list_insert_next_def upd_list_def upd_element_def get_element_def Let_def)
  qed (simp add: list_insert_next_def)
qed

text \<open>
  Inserting behind the last element dereferences the next pointer of that element, which is NULL:
  with any other outcome than a panic of the allocator, the call faults.
\<close>

theorem insert_after_tail_faults:
  assumes R: "lrep s (xs @ [x]) L"
  shows "(\<exists>m. list_insert_next (list_tail (llist s)) d s = Panic m) \<or> list_insert_next (list_tail (llist s)) d s = Fault"
  by (rule insert_after_tail [OF R])

theorem insert_after_tail_faults_witness:
  "\<exists>s :: u8 list_state. list_insert_next 0 7 empty_list = Ok (0, s) \<and>
    ((\<exists>m. list_insert_next (list_tail (llist s)) 8 s = Panic m) \<or> list_insert_next (list_tail (llist s)) 8 s = Fault)"
  using insert_example insert_after_tail_faults [of _ "[]" "7 :: u8" "{}" 8] by auto

end
