(* ===== verification/Pci.thy ===== *)
theory Pci
  imports Linked_List "HOL-Library.State_Monad"
begin

text \<open>
  The enumeration of the PCI devices, \<^verbatim>\<open>src/kernel/pci/pci.c\<close> and \<^verbatim>\<open>pci.h\<close>. The configuration space behind the two ports is hardware: its
  state is a type variable, the effect of an access the parameter \<open>hw\<close>. Port accesses are actions of the state monad.
  The printing to the serial line is left out.
\<close>

subsection \<open>Types\<close>

record 'h config_hw =
  hw_read :: "u32 \<Rightarrow> 'h \<Rightarrow> u32"
  hw_write :: "nat \<Rightarrow> u32 \<Rightarrow> u32 \<Rightarrow> 'h \<Rightarrow> 'h"

text \<open>The argument of \<open>hw_write\<close> before the address is the number of bytes that are written.\<close>

record 'h pci_ports =
  config_address :: u32
  config_space :: 'h

record header_type_0 =
  t0_bar_address :: "u32 list"
  t0_bar_sizes :: "u32 list"
  t0_cardbus_cis_pointer :: u32
  t0_subsystem_vendor_id :: u16
  t0_subsystem_id :: u16
  t0_expansion_rom_address :: u32
  t0_capabilities_pointer :: u8
  t0_interrupt_line :: u8
  t0_interrupt_pin :: u8
  t0_min_grant :: u8
  t0_max_latency :: u8

record header_type_1 =
  t1_bar_address_0 :: u32
  t1_bar_address_1 :: u32
  t1_primary_bus_number :: u8
  t1_secondary_bus_number :: u8
  t1_subordinate_bus_number :: u8
  t1_secondary_latency_timer :: u8
  t1_io_base :: u8
  t1_io_limit :: u8
  t1_secondary_status :: u16
  t1_memory_base :: u16
  t1_memory_limit :: u16
  t1_prefetchable_memory_base :: u16
  t1_prefetchable_memory_limit :: u16
  t1_prefetchable_base_upper_32_bits :: u32
  t1_prefetchable_memory_limit_upper_32_bits :: u32
  t1_io_base_upper_16_bits :: u16
  t1_io_limit_upper_16_bits :: u16
  t1_capability_pointer :: u8
  t1_expansion_rom_base_address :: u32
  t1_interrupt_line :: u8
  t1_interrupt_pin :: u8
  t1_bridge_control :: u16

record header_type_2 =
  t2_cardbus_socket_base_address :: u32
  t2_offset_of_capabilities_list :: u8
  t2_secondary_status :: u16
  t2_pci_bus_number :: u8
  t2_card_bus_number :: u8
  t2_subordinate_bus_number :: u8
  t2_cardbus_latency_timer :: u8
  t2_memory_base_address_0 :: u32
  t2_memory_limit_0 :: u32
  t2_memory_base_address_1 :: u32
  t2_memory_limit_1 :: u32
  t2_io_base_address_0 :: u32
  t2_io_limit_0 :: u32
  t2_io_base_address_1 :: u32
  t2_io_limit_1 :: u32
  t2_interrupt_line :: u8
  t2_interrupt_pin :: u8
  t2_bridge_control :: u16
  t2_subsystem_device_id :: u16
  t2_subsystem_vendor_id :: u16
  t2_pci_legacy_mode_base_address :: u32

datatype pci_header = Type_0 header_type_0 | Type_1 header_type_1 | Type_2 header_type_2

record pci_config =
  pci_bus :: u8
  pci_slot :: u8
  pci_function :: u8
  vendor_id :: u16
  device_id :: u16
  base_class :: u8
  sub_class :: u8
  programming_if :: u8
  revision :: u8
  BIST :: u8
  header_type :: u8
  latency_timer :: u8
  cache_line_size :: u8
  pci_type :: pci_header

text \<open>The list of devices holds addresses of configurations, which are heap objects as the list elements are.\<close>

record 'h pci =
  pci_io :: "'h pci_ports"
  pci_configs :: "u32 \<Rightarrow> pci_config option"
  lst_pci_devices :: "u32 list_state"

abbreviation (input) sizeof_pci_config :: u32 where "sizeof_pci_config \<equiv> 88"

subsection \<open>Access to the configuration space\<close>

definition outl :: "'h config_hw \<Rightarrow> u16 \<Rightarrow> u32 \<Rightarrow> ('h pci_ports, unit) state" where
  "outl hw port v = State_Monad.update (\<lambda>s.
     if port = 0xCF8 then s\<lparr>config_address := v\<rparr>
     else if port = 0xCFC then s\<lparr>config_space := hw_write hw 4 (config_address s) v (config_space s)\<rparr>
     else s)"

definition outw :: "'h config_hw \<Rightarrow> u16 \<Rightarrow> u16 \<Rightarrow> ('h pci_ports, unit) state" where
  "outw hw port v = State_Monad.update (\<lambda>s.
     if port = 0xCFC then s\<lparr>config_space := hw_write hw 2 (config_address s) (ucast v) (config_space s)\<rparr> else s)"

definition outb_data :: "'h config_hw \<Rightarrow> u16 \<Rightarrow> u8 \<Rightarrow> ('h pci_ports, unit) state" where
  "outb_data hw port v = State_Monad.update (\<lambda>s.
     if port = 0xCFC then s\<lparr>config_space := hw_write hw 1 (config_address s) (ucast v) (config_space s)\<rparr> else s)"

definition inl_data :: "'h config_hw \<Rightarrow> ('h pci_ports, u32) state" where
  "inl_data hw = do { s \<leftarrow> State_Monad.get; State_Monad.return (hw_read hw (config_address s) (config_space s)) }"

definition config_addr :: "u8 \<Rightarrow> u8 \<Rightarrow> u8 \<Rightarrow> u8 \<Rightarrow> u32" where
  "config_addr bus device func offset =
     0x80000000 OR push_bit 16 (ucast bus) OR push_bit 11 (ucast device) OR push_bit 8 (ucast func) OR ucast (offset AND 0xFC)"

definition read_long :: "'h config_hw \<Rightarrow> u8 \<Rightarrow> u8 \<Rightarrow> u8 \<Rightarrow> u8 \<Rightarrow> ('h pci_ports, u32) state" where
  "read_long hw bus device func offset = do {
     outl hw 0xCF8 (config_addr bus device func offset);
     inl_data hw
   }"

definition read_short :: "'h config_hw \<Rightarrow> u8 \<Rightarrow> u8 \<Rightarrow> u8 \<Rightarrow> u8 \<Rightarrow> ('h pci_ports, u16) state" where
  "read_short hw bus device func offset = do {
     outl hw 0xCF8 (config_addr bus device func offset);
     v \<leftarrow> inl_data hw;
     State_Monad.return (ucast (drop_bit (unat ((offset AND 2) * 8)) v AND 0xFFFF))
   }"

definition read_byte :: "'h config_hw \<Rightarrow> u8 \<Rightarrow> u8 \<Rightarrow> u8 \<Rightarrow> u8 \<Rightarrow> ('h pci_ports, u8) state" where
  "read_byte hw bus device func offset = do {
     outl hw 0xCF8 (config_addr bus device func offset);
     v \<leftarrow> inl_data hw;
     State_Monad.return (ucast (drop_bit (unat ((offset AND 2) * 8)) v AND 0xFF))
   }"

definition write_long :: "'h config_hw \<Rightarrow> u8 \<Rightarrow> u8 \<Rightarrow> u8 \<Rightarrow> u8 \<Rightarrow> u32 \<Rightarrow> ('h pci_ports, unit) state" where
  "write_long hw bus device func offset v = do {
     outl hw 0xCF8 (config_addr bus device func offset);
     outl hw 0xCFC v
   }"

definition write_short :: "'h config_hw \<Rightarrow> u8 \<Rightarrow> u8 \<Rightarrow> u8 \<Rightarrow> u8 \<Rightarrow> u16 \<Rightarrow> ('h pci_ports, unit) state" where
  "write_short hw bus device func offset v = do {
     outl hw 0xCF8 (config_addr bus device func offset);
     outw hw 0xCFC v
   }"

definition write_byte :: "'h config_hw \<Rightarrow> u8 \<Rightarrow> u8 \<Rightarrow> u8 \<Rightarrow> u8 \<Rightarrow> u8 \<Rightarrow> ('h pci_ports, unit) state" where
  "write_byte hw bus device func offset v = do {
     outl hw 0xCF8 (config_addr bus device func offset);
     outb_data hw 0xCFC v
   }"

subsection \<open>Reading a configuration\<close>

definition decode_size :: "u32 \<Rightarrow> u32" where
  "decode_size sz = NOT (sz AND 0xFFFFFFF0) + 1"

definition bar_size :: "'h config_hw \<Rightarrow> u8 \<Rightarrow> u8 \<Rightarrow> u8 \<Rightarrow> u8 \<Rightarrow> ('h pci_ports, u32) state" where
  "bar_size hw bus slot func offset = do {
     orig \<leftarrow> read_long hw bus slot func offset;
     write_long hw bus slot func offset 0xFFFFFFFF;
     sz \<leftarrow> read_long hw bus slot func offset;
     write_long hw bus slot func offset orig;
     State_Monad.return (decode_size sz)
   }"

definition bar_offsets :: "u8 list" where
  "bar_offsets = [0x10, 0x14, 0x18, 0x1C, 0x20, 0x24]"

text \<open>\<^verbatim>\<open>__pci_get_memory_size\<close> fills in the sizes of a header of type 0 and does nothing for the others.\<close>

definition get_memory_size :: "'h config_hw \<Rightarrow> u8 \<Rightarrow> u8 \<Rightarrow> u8 \<Rightarrow> pci_header \<Rightarrow> ('h pci_ports, pci_header) state" where
  "get_memory_size hw bus slot func h =
     (case h of
        Type_0 t \<Rightarrow> do {
          sizes \<leftarrow> State_Monad.traverse_list (bar_size hw bus slot func) bar_offsets;
          State_Monad.return (Type_0 (t\<lparr>t0_bar_sizes := sizes\<rparr>))
        }
      | _ \<Rightarrow> State_Monad.return h)"

definition read_type_0 :: "'h config_hw \<Rightarrow> u8 \<Rightarrow> u8 \<Rightarrow> u8 \<Rightarrow> ('h pci_ports, header_type_0) state" where
  "read_type_0 hw bus slot func = do {
     bars \<leftarrow> State_Monad.traverse_list (read_long hw bus slot func) bar_offsets;
     cardbus_cis_pointer \<leftarrow> read_long hw bus slot func 0x28;
     subsystem_vendor_id \<leftarrow> read_short hw bus slot func 0x2C;
     subsystem_id \<leftarrow> read_short hw bus slot func 0x2E;
     expansion_rom_address \<leftarrow> read_long hw bus slot func 0x30;
     capabilities_pointer \<leftarrow> read_byte hw bus slot func 0x34;
     interrupt_line \<leftarrow> read_byte hw bus slot func 0x3C;
     interrupt_pin \<leftarrow> read_byte hw bus slot func 0x3D;
     min_grant \<leftarrow> read_byte hw bus slot func 0x3E;
     max_latency \<leftarrow> read_byte hw bus slot func 0x3F;
     State_Monad.return \<lparr>
       t0_bar_address = bars, t0_bar_sizes = [], t0_cardbus_cis_pointer = cardbus_cis_pointer, 
       t0_subsystem_vendor_id = subsystem_vendor_id, t0_subsystem_id = subsystem_id, 
       t0_expansion_rom_address = expansion_rom_address, t0_capabilities_pointer = capabilities_pointer, 
       t0_interrupt_line = interrupt_line, t0_interrupt_pin = interrupt_pin, t0_min_grant = min_grant, 
       t0_max_latency = max_latency\<rparr>
   }"

definition read_type_1 :: "'h config_hw \<Rightarrow> u8 \<Rightarrow> u8 \<Rightarrow> u8 \<Rightarrow> ('h pci_ports, header_type_1) state" where
  "read_type_1 hw bus slot func = do {
     bar_address_0 \<leftarrow> read_long hw bus slot func 0x10;
     bar_address_1 \<leftarrow> read_long hw bus slot func 0x14;
     primary_bus_number \<leftarrow> read_byte hw bus slot func 0x18;
     secondary_bus_number \<leftarrow> read_byte hw bus slot func 0x19;
     subordinate_bus_number \<leftarrow> read_byte hw bus slot func 0x1A;
     secondary_latency_timer \<leftarrow> read_byte hw bus slot func 0x1B;
     io_base \<leftarrow> read_byte hw bus slot func 0x1C;
     io_limit \<leftarrow> read_byte hw bus slot func 0x1D;
     secondary_status \<leftarrow> read_short hw bus slot func 0x1E;
     memory_base \<leftarrow> read_short hw bus slot func 0x20;
     memory_limit \<leftarrow> read_short hw bus slot func 0x22;
     prefetchable_memory_base \<leftarrow> read_short hw bus slot func 0x24;
     prefetchable_memory_limit \<leftarrow> read_short hw bus slot func 0x26;
     prefetchable_base_upper_32_bits \<leftarrow> read_long hw bus slot func 0x28;
     prefetchable_memory_limit_upper_32_bits \<leftarrow> read_long hw bus slot func 0x2C;
     io_base_upper_16_bits \<leftarrow> read_short hw bus slot func 0x30;
     io_limit_upper_16_bits \<leftarrow> read_short hw bus slot func 0x32;
     capability_pointer \<leftarrow> read_byte hw bus slot func 0x34;
     expansion_rom_base_address \<leftarrow> read_long hw bus slot func 0x38;
     interrupt_line \<leftarrow> read_byte hw bus slot func 0x3C;
     interrupt_pin \<leftarrow> read_byte hw bus slot func 0x3D;
     bridge_control \<leftarrow> read_short hw bus slot func 0x3E;
     State_Monad.return \<lparr>
       t1_bar_address_0 = bar_address_0, t1_bar_address_1 = bar_address_1, t1_primary_bus_number = primary_bus_number, 
       t1_secondary_bus_number = secondary_bus_number, t1_subordinate_bus_number = subordinate_bus_number, 
       t1_secondary_latency_timer = secondary_latency_timer, t1_io_base = io_base, t1_io_limit = io_limit, 
       t1_secondary_status = secondary_status, t1_memory_base = memory_base, t1_memory_limit = memory_limit, 
       t1_prefetchable_memory_base = prefetchable_memory_base, 
       t1_prefetchable_memory_limit = prefetchable_memory_limit, 
       t1_prefetchable_base_upper_32_bits = prefetchable_base_upper_32_bits, 
       t1_prefetchable_memory_limit_upper_32_bits = prefetchable_memory_limit_upper_32_bits, 
       t1_io_base_upper_16_bits = io_base_upper_16_bits, t1_io_limit_upper_16_bits = io_limit_upper_16_bits, 
       t1_capability_pointer = capability_pointer, t1_expansion_rom_base_address = expansion_rom_base_address, 
       t1_interrupt_line = interrupt_line, t1_interrupt_pin = interrupt_pin, t1_bridge_control = bridge_control\<rparr>
   }"

definition read_type_2 :: "'h config_hw \<Rightarrow> u8 \<Rightarrow> u8 \<Rightarrow> u8 \<Rightarrow> ('h pci_ports, header_type_2) state" where
  "read_type_2 hw bus slot func = do {
     cardbus_socket_base_address \<leftarrow> read_long hw bus slot func 0x10;
     offset_of_capabilities_list \<leftarrow> read_byte hw bus slot func 0x14;
     secondary_status \<leftarrow> read_short hw bus slot func 0x16;
     pci_bus_number \<leftarrow> read_byte hw bus slot func 0x18;
     card_bus_number \<leftarrow> read_byte hw bus slot func 0x19;
     subordinate_bus_number \<leftarrow> read_byte hw bus slot func 0x1A;
     cardbus_latency_timer \<leftarrow> read_byte hw bus slot func 0x1B;
     memory_base_address_0 \<leftarrow> read_long hw bus slot func 0x1C;
     memory_limit_0 \<leftarrow> read_long hw bus slot func 0x20;
     memory_base_address_1 \<leftarrow> read_long hw bus slot func 0x24;
     memory_limit_1 \<leftarrow> read_long hw bus slot func 0x28;
     io_base_address_0 \<leftarrow> read_long hw bus slot func 0x2C;
     io_limit_0 \<leftarrow> read_long hw bus slot func 0x30;
     io_base_address_1 \<leftarrow> read_long hw bus slot func 0x34;
     io_limit_1 \<leftarrow> read_long hw bus slot func 0x38;
     interrupt_line \<leftarrow> read_byte hw bus slot func 0x3C;
     interrupt_pin \<leftarrow> read_byte hw bus slot func 0x3D;
     bridge_control \<leftarrow> read_short hw bus slot func 0x3E;
     subsystem_device_id \<leftarrow> read_short hw bus slot func 0x40;
     subsystem_vendor_id \<leftarrow> read_short hw bus slot func 0x42;
     pci_legacy_mode_base_address \<leftarrow> read_long hw bus slot func 0x44;
     State_Monad.return \<lparr>
       t2_cardbus_socket_base_address = cardbus_socket_base_address, 
       t2_offset_of_capabilities_list = offset_of_capabilities_list, t2_secondary_status = secondary_status, 
       t2_pci_bus_number = pci_bus_number, t2_card_bus_number = card_bus_number, 
       t2_subordinate_bus_number = subordinate_bus_number, t2_cardbus_latency_timer = cardbus_latency_timer, 
       t2_memory_base_address_0 = memory_base_address_0, t2_memory_limit_0 = memory_limit_0, 
       t2_memory_base_address_1 = memory_base_address_1, t2_memory_limit_1 = memory_limit_1, 
       t2_io_base_address_0 = io_base_address_0, t2_io_limit_0 = io_limit_0, t2_io_base_address_1 = io_base_address_1, 
       t2_io_limit_1 = io_limit_1, t2_interrupt_line = interrupt_line, t2_interrupt_pin = interrupt_pin, 
       t2_bridge_control = bridge_control, t2_subsystem_device_id = subsystem_device_id, 
       t2_subsystem_vendor_id = subsystem_vendor_id, t2_pci_legacy_mode_base_address = pci_legacy_mode_base_address\<rparr>
   }"

text \<open>The switch on the header type; without a result the kernel panics.\<close>

definition read_header :: "'h config_hw \<Rightarrow> u8 \<Rightarrow> u8 \<Rightarrow> u8 \<Rightarrow> u8 \<Rightarrow> ('h pci_ports, pci_header option) state" where
  "read_header hw bus slot func header =
     (if header AND 7 = 0 then do {
        t \<leftarrow> read_type_0 hw bus slot func;
        h \<leftarrow> get_memory_size hw bus slot func (Type_0 t);
        State_Monad.return (Some h)
      }
      else if header AND 7 = 1 then do {
        t \<leftarrow> read_type_1 hw bus slot func;
        State_Monad.return (Some (Type_1 t))
      }
      else if header AND 7 = 2 then do {
        t \<leftarrow> read_type_2 hw bus slot func;
        State_Monad.return (Some (Type_2 t))
      }
      else State_Monad.return None)"

definition read_config :: "'h config_hw \<Rightarrow> u8 \<Rightarrow> u8 \<Rightarrow> u8 \<Rightarrow> u16 \<Rightarrow> u16 \<Rightarrow> ('h pci_ports, pci_config option) state" where
  "read_config hw bus slot func vendor device = do {
     class \<leftarrow> read_long hw bus slot func 8;
     cache \<leftarrow> read_byte hw bus slot func 0xC;
     latency \<leftarrow> read_byte hw bus slot func 0xD;
     header \<leftarrow> read_byte hw bus slot func 0xE;
     bist \<leftarrow> read_byte hw bus slot func 0xF;
     h \<leftarrow> read_header hw bus slot func header;
     State_Monad.return (map_option (\<lambda>h. \<lparr>
       pci_bus = bus, pci_slot = slot, pci_function = func, vendor_id = vendor, device_id = device,
       base_class = ucast (drop_bit 24 class AND 0xFF), sub_class = ucast (drop_bit 16 class AND 0xFF),
       programming_if = ucast (drop_bit 8 class AND 0xFF), revision = ucast (class AND 0xFF),
       BIST = bist, header_type = header, latency_timer = latency, cache_line_size = cache, pci_type = h\<rparr>) h)
   }"

subsection \<open>The scan\<close>

definition scan_function :: "'h config_hw \<Rightarrow> nat \<Rightarrow> nat \<Rightarrow> nat \<Rightarrow> 'h pci \<Rightarrow> 'h pci outcome" where
  "scan_function hw bus slot func p =
     (case run_state (read_short hw (of_nat bus) (of_nat slot) 0 0) (pci_io p) of (vendor, io) \<Rightarrow>
      if vendor = 0xFFFF then Ok (p\<lparr>pci_io := io\<rparr>)
      else
        case run_state (read_short hw (of_nat bus) (of_nat slot) (of_nat func) 2) io of (device, io) \<Rightarrow>
        if device = 0xFFFF then Ok (p\<lparr>pci_io := io\<rparr>)
        else
          obind (kmalloc sizeof_pci_config (lheap (lst_pci_devices p))) (\<lambda>(a, k).
          case run_state (read_config hw (of_nat bus) (of_nat slot) (of_nat func) vendor device) io of (config, io) \<Rightarrow>
          case config of
            None \<Rightarrow> Panic ''PCI: Device found with bad header type''
          | Some c \<Rightarrow>
              obind (list_insert_next 0 a ((lst_pci_devices p)\<lparr>lheap := k\<rparr>)) (\<lambda>(_, l).
              Ok (p\<lparr>pci_io := io, pci_configs := (pci_configs p)(a \<mapsto> c), lst_pci_devices := l\<rparr>))))"

definition scan_devices :: "'h config_hw \<Rightarrow> 'h pci \<Rightarrow> 'h pci outcome" where
  "scan_devices hw =
     ofor 0 256 (\<lambda>bus. ofor 0 32 (\<lambda>slot. ofor 0 8 (\<lambda>func. scan_function hw bus slot func)))"

definition pci_init :: "'h config_hw \<Rightarrow> 'h pci \<Rightarrow> 'h pci outcome" where
  "pci_init hw p = scan_devices hw (p\<lparr>lst_pci_devices := list_init True (lst_pci_devices p)\<rparr>)"

subsection \<open>Looking up a device\<close>

definition find_by_class :: "u8 \<Rightarrow> u8 \<Rightarrow> u8 \<Rightarrow> 'h pci \<Rightarrow> u32 outcome" where
  "find_by_class base sub prog p =
     of_loop (find_object (pci_configs p) (\<lambda>c. base_class c = base \<and> sub_class c = sub \<and> programming_if c = prog)
       (list_head (llist (lst_pci_devices p))) (lst_pci_devices p))"

definition find_by_device :: "u16 \<Rightarrow> u16 \<Rightarrow> 'h pci \<Rightarrow> u32 outcome" where
  "find_by_device vendor device p =
     of_loop (find_object (pci_configs p) (\<lambda>c. vendor_id c = vendor \<and> device_id c = device)
       (list_head (llist (lst_pci_devices p))) (lst_pci_devices p))"

subsection \<open>Reading leaves the configuration space alone\<close>

text \<open>
  An action is quiet when its result depends on the configuration space alone and it changes
  nothing but the address that is latched.
\<close>

definition quiet :: "('h pci_ports, 'a) state \<Rightarrow> bool" where
  "quiet m \<longleftrightarrow> (\<forall>s s'. config_space s = config_space s' \<longrightarrow>
     fst (run_state m s) = fst (run_state m s') \<and> config_space (snd (run_state m s)) = config_space s)"

definition outcome_at :: "('h pci_ports, 'a) state \<Rightarrow> 'h \<Rightarrow> 'a" where
  "outcome_at m c = fst (run_state m \<lparr>config_address = 0, config_space = c\<rparr>)"

named_theorems quiet_intros

lemma quiet_return [quiet_intros]: "quiet (State_Monad.return x)"
  by (simp add: quiet_def)

lemma quiet_bind [quiet_intros]: "quiet (m :: ('h pci_ports, 'a) state) \<Longrightarrow> (\<And>x. quiet (f x)) \<Longrightarrow> quiet (m \<bind> f)"
proof -
  assume m: "quiet m" and f: "\<And>x. quiet (f x)"
  show ?thesis unfolding quiet_def
  proof (intro allI impI)
    fix s s' :: "'h pci_ports" assume s: "config_space s = config_space s'"
    note q = m [unfolded quiet_def, rule_format]
    have a: "fst (run_state m s) = fst (run_state m s')" "config_space (snd (run_state m s)) = config_space s"
      using q [OF s] by simp_all
    have "config_space (snd (run_state m s')) = config_space s'" using q [OF refl] by (rule conjunct2)
    then have "config_space (snd (run_state m s)) = config_space (snd (run_state m s'))" unfolding a(2) s by (rule sym)
    from f [of "fst (run_state m s)", unfolded quiet_def, rule_format, OF this] a(1,2)
    show "fst (run_state (m \<bind> f) s) = fst (run_state (m \<bind> f) s') \<and> config_space (snd (run_state (m \<bind> f) s)) = config_space s"
      by (simp add: split_def)
  qed
qed

lemma quiet_traverse [quiet_intros]:
  assumes "\<And>x. x \<in> set xs \<Longrightarrow> quiet (f x)"
  shows "quiet (State_Monad.traverse_list f xs)"
  using assms by (induction xs) (auto intro!: quiet_intros)

lemma quietD:
  assumes "quiet m"
  shows "\<exists>s'. run_state m s = (outcome_at m (config_space s), s') \<and> config_space s' = config_space s"
proof -
  have "config_space s = config_space \<lparr>config_address = 0, config_space = config_space s\<rparr>" by simp
  with assms have "fst (run_state m s) = outcome_at m (config_space s) \<and> config_space (snd (run_state m s)) = config_space s"
    unfolding quiet_def outcome_at_def by blast
  then show ?thesis by (cases "run_state m s") simp
qed

lemma run_update [simp]: "run_state (State_Monad.update f) s = ((), f s)"
  by (simp add: State_Monad.update_def)

lemma run_read_long [simp]:
  "run_state (read_long hw b d f off) s =
     (hw_read hw (config_addr b d f off) (config_space s), s\<lparr>config_address := config_addr b d f off\<rparr>)"
  by (simp add: read_long_def outl_def inl_data_def)

lemma run_write_long [simp]:
  "run_state (write_long hw b d f off v) s =
     ((), s\<lparr>config_address := config_addr b d f off, config_space := hw_write hw 4 (config_addr b d f off) v (config_space s)\<rparr>)"
  by (simp add: write_long_def outl_def)

lemma quiet_read_long [quiet_intros]: "quiet (read_long hw b d f off)"
  by (simp add: quiet_def)

lemma quiet_read_short [quiet_intros]: "quiet (read_short hw b d f off)"
  by (simp add: quiet_def read_short_def outl_def inl_data_def)

lemma quiet_read_byte [quiet_intros]: "quiet (read_byte hw b d f off)"
  by (simp add: quiet_def read_byte_def outl_def inl_data_def)

text \<open>
  The law of a base address register: writing ones for the size and then the value that was
  there before restores the configuration space.
\<close>

definition bars_restore :: "'h config_hw \<Rightarrow> bool" where
  "bars_restore hw \<longleftrightarrow> (\<forall>b d f off c. off \<in> set bar_offsets \<longrightarrow>
     (let a = config_addr b d f off in hw_write hw 4 a (hw_read hw a c) (hw_write hw 4 a 0xFFFFFFFF c) = c))"

lemma quiet_bar_size [quiet_intros]: "bars_restore hw \<Longrightarrow> off \<in> set bar_offsets \<Longrightarrow> quiet (bar_size hw b d f off)"
  by (simp add: quiet_def bar_size_def bars_restore_def Let_def)

lemma quiet_memory_size [quiet_intros]: "bars_restore hw \<Longrightarrow> quiet (get_memory_size hw b d f h)"
  by (cases h) (auto simp: get_memory_size_def intro!: quiet_intros)

lemma quiet_header [quiet_intros]: "bars_restore hw \<Longrightarrow> quiet (read_header hw b d f h)"
  by (auto simp: read_header_def read_type_0_def read_type_1_def read_type_2_def intro!: quiet_intros)

lemma quiet_config [quiet_intros]: "bars_restore hw \<Longrightarrow> quiet (read_config hw b d f v i)"
  by (auto simp: read_config_def intro!: quiet_intros)

subsection \<open>The devices that are found\<close>

definition all_functions :: "(nat \<times> nat \<times> nat) list" where
  "all_functions = concat (map (\<lambda>bus. concat (map (\<lambda>slot. map (\<lambda>func. (bus, slot, func)) [0..<8]) [0..<32])) [0..<256])"

lemma ofold_map: "ofold f (map g xs) = ofold (\<lambda>x. f (g x)) xs"
proof (induction xs)
  case (Cons x xs)
  show ?case by (rule ext) (simp add: Cons.IH)
qed simp

lemma ofold_concat: "ofold f (concat xss) = ofold (\<lambda>xs. ofold f xs) xss"
proof (induction xss)
  case (Cons xs xss)
  show ?case by (rule ext) (simp add: ofold_append Cons.IH)
qed simp

lemma scan_devices_functions:
  "scan_devices hw p = ofold (\<lambda>(bus, slot, func). scan_function hw bus slot func) all_functions p"
  by (simp add: scan_devices_def all_functions_def ofold_concat ofold_map)

lemma length_all_functions: "length all_functions = 65536"
  by (simp add: all_functions_def length_concat comp_def sum_list_triv)

text \<open>The vendor is read from function 0 of the slot; 0xFFFF means that nothing answers.\<close>

definition vendor_at :: "'h config_hw \<Rightarrow> 'h \<Rightarrow> nat \<times> nat \<times> nat \<Rightarrow> u16" where
  "vendor_at hw c l = (case l of (bus, slot, func) \<Rightarrow> outcome_at (read_short hw (of_nat bus) (of_nat slot) 0 0) c)"

definition device_at :: "'h config_hw \<Rightarrow> 'h \<Rightarrow> nat \<times> nat \<times> nat \<Rightarrow> u16" where
  "device_at hw c l = (case l of (bus, slot, func) \<Rightarrow> outcome_at (read_short hw (of_nat bus) (of_nat slot) (of_nat func) 2) c)"

definition config_at :: "'h config_hw \<Rightarrow> 'h \<Rightarrow> nat \<times> nat \<times> nat \<Rightarrow> pci_config option" where
  "config_at hw c l = (case l of (bus, slot, func) \<Rightarrow>
     outcome_at (read_config hw (of_nat bus) (of_nat slot) (of_nat func) (vendor_at hw c l) (device_at hw c l)) c)"

definition present :: "'h config_hw \<Rightarrow> 'h \<Rightarrow> nat \<times> nat \<times> nat \<Rightarrow> bool" where
  "present hw c l \<longleftrightarrow> vendor_at hw c l \<noteq> 0xFFFF \<and> device_at hw c l \<noteq> 0xFFFF"

abbreviation devices :: "'h pci \<Rightarrow> u32 list \<Rightarrow> pci_config list \<Rightarrow> u32 set \<Rightarrow> bool" where
  "devices p \<equiv> objects (lst_pci_devices p) (pci_configs p)"

lemma scan_function_sim:
  assumes hw: "bars_restore hw" and D: "devices p ps cs L" and n: "length ps < 2 ^ 31 - 1"
    and c: "config_space (pci_io p) = c"
  shows "(\<exists>m. (case l of (bus, slot, func) \<Rightarrow> scan_function hw bus slot func) p = Panic m) \<or>
    (\<exists>p' qs. (case l of (bus, slot, func) \<Rightarrow> scan_function hw bus slot func) p = Ok p' \<and> config_space (pci_io p') = c \<and>
       (present hw c l \<longrightarrow> config_at hw c l \<noteq> None) \<and> devices p' (qs @ ps) ((if present hw c l then [the (config_at hw c l)] else []) @ cs) L \<and> length qs \<le> 1)"
proof (cases l)
  case (fields bus slot func)
  obtain io1 where r1: "run_state (read_short hw (of_nat bus) (of_nat slot) 0 0) (pci_io p) = (vendor_at hw c l, io1)" "config_space io1 = c"
    using quietD [OF quiet_read_short, of hw "of_nat bus" "of_nat slot" 0 0 "pci_io p"] c by (auto simp: vendor_at_def fields)
  obtain io2 where r2: "run_state (read_short hw (of_nat bus) (of_nat slot) (of_nat func) 2) io1 = (device_at hw c l, io2)" "config_space io2 = c"
    using quietD [OF quiet_read_short, of hw "of_nat bus" "of_nat slot" "of_nat func" 2 io1] r1(2) by (auto simp: device_at_def fields)
  show ?thesis
  proof (cases "present hw c l")
    case False
    then have "\<exists>io. (case l of (bus, slot, func) \<Rightarrow> scan_function hw bus slot func) p = Ok (p\<lparr>pci_io := io\<rparr>) \<and> config_space io = c"
      using r1 r2 by (auto simp: scan_function_def present_def fields)
    then show ?thesis using D False by (intro disjI2) (auto intro!: exI [of _ "[]"])
  next
    case True
    obtain io3 where r3: "run_state (read_config hw (of_nat bus) (of_nat slot) (of_nat func) (vendor_at hw c l) (device_at hw c l)) io2 =
        (config_at hw c l, io3)" "config_space io3 = c"
      using quietD [OF quiet_config [OF hw], of "of_nat bus" "of_nat slot" "of_nat func" "vendor_at hw c l" "device_at hw c l" io2] r2(2)
      by (auto simp: config_at_def fields)
    have "unat sizeof_pci_config \<le> 2 ^ 28" by simp
    from D this n show ?thesis
    proof (cases rule: objects_insert)
      case (1 m)
      then show ?thesis using True r1 r2 by (simp add: scan_function_def present_def fields)
    next
      case (2 a k1 m)
      then show ?thesis using True r1 r2 r3
        by (cases "config_at hw c l") (simp_all add: scan_function_def present_def fields)
    next
      case (3 a k1 l')
      show ?thesis
      proof (cases "config_at hw c l")
        case None
        then show ?thesis using 3(1) True r1 r2 r3 by (simp add: scan_function_def present_def fields)
      next
        case (Some k)
        let ?p = "p\<lparr>pci_io := io3, pci_configs := (pci_configs p)(a \<mapsto> k), lst_pci_devices := l'\<rparr>"
        have "(case l of (bus, slot, func) \<Rightarrow> scan_function hw bus slot func) p = Ok ?p"
          using 3(1,2) True r1 r2 r3 Some by (auto simp: scan_function_def present_def fields)
        moreover have "devices ?p ([a] @ ps) ([the (config_at hw c l)] @ cs) L" using 3(3) [of k] Some by simp
        ultimately show ?thesis using True r3(2) Some by (intro disjI2 exI [of _ ?p] exI [of _ "[a]"]) simp
      qed
    qed
  qed
qed

lemma scan_functions_sim:
  assumes hw: "bars_restore hw" and D: "devices p ps cs L" and n: "length ps + length ls < 2 ^ 31"
    and c: "config_space (pci_io p) = c"
  shows "(\<exists>m. ofold (\<lambda>(bus, slot, func). scan_function hw bus slot func) ls p = Panic m) \<or>
    (\<exists>p' qs. ofold (\<lambda>(bus, slot, func). scan_function hw bus slot func) ls p = Ok p' \<and> config_space (pci_io p') = c \<and>
       (\<forall>l\<in>set ls. present hw c l \<longrightarrow> config_at hw c l \<noteq> None) \<and>
       devices p' (qs @ ps) (map (\<lambda>l. the (config_at hw c l)) (rev (filter (present hw c) ls)) @ cs) L)"
  using D n c
proof (induction ls arbitrary: p ps cs)
  case (Cons l ls)
  have "length ps < 2 ^ 31 - 1" using Cons.prems(2) by simp
  from scan_function_sim [OF hw Cons.prems(1) this Cons.prems(3), of l] show ?case
  proof (elim disjE exE conjE)
    fix p1 qs assume s: "(case l of (bus, slot, func) \<Rightarrow> scan_function hw bus slot func) p = Ok p1" "config_space (pci_io p1) = c"
      "present hw c l \<longrightarrow> config_at hw c l \<noteq> None" "length qs \<le> 1"
      "devices p1 (qs @ ps) ((if present hw c l then [the (config_at hw c l)] else []) @ cs) L"
    have "length (qs @ ps) + length ls < 2 ^ 31" using Cons.prems(2) s(4) by simp
    from Cons.IH [OF s(5) this s(2)] show ?thesis
    proof (elim disjE exE conjE)
      fix p' qs' assume r: "ofold (\<lambda>(bus, slot, func). scan_function hw bus slot func) ls p1 = Ok p'" "config_space (pci_io p') = c"
        "\<forall>l\<in>set ls. present hw c l \<longrightarrow> config_at hw c l \<noteq> None"
        "devices p' (qs' @ qs @ ps) (map (\<lambda>l. the (config_at hw c l)) (rev (filter (present hw c) ls)) @
           (if present hw c l then [the (config_at hw c l)] else []) @ cs) L"
      from r(4) have "devices p' ((qs' @ qs) @ ps) (map (\<lambda>l. the (config_at hw c l)) (rev (filter (present hw c) (l # ls))) @ cs) L"
        by (cases "present hw c l") simp_all
      then show ?thesis using s(1,3) r(1-3) by (intro disjI2 exI [of _ p'] exI [of _ "qs' @ qs"]) simp
    qed (simp add: s(1))
  qed simp
qed (auto intro!: exI [of _ "[]"])

lemma config_at_ids: "config_at hw c l = Some k \<Longrightarrow> vendor_id k = vendor_at hw c l \<and> device_id k = device_at hw c l"
  by (cases l) (auto simp: config_at_def read_config_def outcome_at_def split_def)

lemma find_zip:
  assumes "map g ps = map Some (map f xs)"
  shows "case find (\<lambda>l. P (f l)) xs of
      None \<Rightarrow> find (\<lambda>(a, c). P c) (zip ps (map f xs)) = None
    | Some l \<Rightarrow> \<exists>a\<in>set ps. find (\<lambda>(a, c). P c) (zip ps (map f xs)) = Some (a, f l) \<and> g a = Some (f l)"
  using assms
proof (induction xs arbitrary: ps)
  case (Cons x xs)
  then obtain q qs where q: "ps = q # qs" "g q = Some (f x)" "map g qs = map Some (map f xs)" by (cases ps) auto
  show ?case using Cons.IH [OF q(3)] q(1,2) by (auto split: option.splits)
qed simp

lemma find_member: "find P xs = Some x \<Longrightarrow> x \<in> set xs"
  by (induction xs) (auto split: if_splits)

lemma find_filter: "find P (filter Q xs) = find (\<lambda>x. Q x \<and> P x) xs"
  by (induction xs) auto

subsection \<open>Properties\<close>

text \<open>What a look-up promises after the scan: the newest device among those that match.\<close>

definition finds :: "'h config_hw \<Rightarrow> 'h \<Rightarrow> (pci_config \<Rightarrow> bool) \<Rightarrow> 'h pci \<Rightarrow> u32 outcome \<Rightarrow> bool" where
  "finds hw c P p r \<longleftrightarrow>
     (case find (\<lambda>l. present hw c l \<and> P (the (config_at hw c l))) (rev all_functions) of
        None \<Rightarrow> r = Ok 0
      | Some l \<Rightarrow> \<exists>a. r = Ok a \<and> a \<noteq> 0 \<and> pci_configs p a = config_at hw c l)"

lemma find_devices:
  assumes D: "devices p ps (map (\<lambda>l. the (config_at hw c l)) (rev (filter (present hw c) all_functions))) L"
    and some: "\<forall>l\<in>set all_functions. present hw c l \<longrightarrow> config_at hw c l \<noteq> None"
  shows "finds hw c P p (of_loop (find_object (pci_configs p) P (list_head (llist (lst_pci_devices p))) (lst_pci_devices p)))"
proof -
  let ?f = "\<lambda>l. the (config_at hw c l)" and ?xs = "rev (filter (present hw c) all_functions)"
  have m: "map (pci_configs p) ps = map Some (map ?f ?xs)" and z: "0 \<notin> set ps" using D by (auto simp: objects_def)
  note r = find_objects [OF D, of P]
  have fx: "find (\<lambda>l. P (?f l)) ?xs = find (\<lambda>l. present hw c l \<and> P (?f l)) (rev all_functions)"
    by (simp add: rev_filter find_filter)
  show ?thesis
  proof (cases "find (\<lambda>l. P (?f l)) ?xs")
    case None
    then show ?thesis using find_zip [OF m, of P] r fx by (simp add: finds_def)
  next
    case (Some l)
    then have "present hw c l" "l \<in> set all_functions" using find_member [of _ ?xs l] by auto
    then have "config_at hw c l = Some (?f l)" using some by auto
    moreover obtain a where "a \<in> set ps" "find (\<lambda>(a, c). P c) (zip ps (map ?f ?xs)) = Some (a, ?f l)" "pci_configs p a = Some (?f l)"
      using find_zip [OF m, of P] Some by auto
    moreover have "find (\<lambda>l. present hw c l \<and> P (?f l)) (rev all_functions) = Some l" using fx Some by simp
    ultimately show ?thesis using r z by (auto simp: finds_def)
  qed
qed

lemma pci_init_devices:
  assumes hw: "bars_restore hw" and L: "heap_live (lheap (lst_pci_devices p)) L" "elements (lst_pci_devices p) 0 = None"
    and c: "config_space (pci_io p) = c"
  shows "(\<exists>m. pci_init hw p = Panic m) \<or>
    (\<exists>p' ps. pci_init hw p = Ok p' \<and> config_space (pci_io p') = c \<and>
       (\<forall>l\<in>set all_functions. present hw c l \<longrightarrow> config_at hw c l \<noteq> None) \<and>
       devices p' ps (map (\<lambda>l. the (config_at hw c l)) (rev (filter (present hw c) all_functions))) L)"
proof -
  let ?p = "p\<lparr>lst_pci_devices := list_init True (lst_pci_devices p)\<rparr>"
  have "linv (list_init True (lst_pci_devices p)) [] [] L"
    using L by (simp add: linv_def list_init_def upd_list_def last_or_def)
  then have D: "devices ?p [] [] L" by (auto simp: objects_def lrep_def)
  have "length ([] :: u32 list) + length all_functions < 2 ^ 31" by (simp add: length_all_functions)
  from scan_functions_sim [OF hw D this, of c] c show ?thesis
    by (auto simp: pci_init_def scan_devices_functions)
qed

text \<open>
  C16: after the kernel has enumerated the bus, or panicked since the heap was full or a header had a type
  that does not exist, the list holds exactly the functions that answer, the last one first, each with
  the configuration its registers give, the registers are as they were before, and a search by
  vendor and device or by class returns the newest function that matches, NULL if there is none.
\<close>

theorem pci_scan_correct:
  assumes "bars_restore hw" "heap_live (lheap (lst_pci_devices p)) L" "elements (lst_pci_devices p) 0 = None"
    and "config_space (pci_io p) = c"
  shows "(\<exists>m. pci_init hw p = Panic m) \<or>
    (\<exists>p' ps. pci_init hw p = Ok p' \<and> config_space (pci_io p') = c \<and>
       devices p' ps (map (\<lambda>l. the (config_at hw c l)) (rev (filter (present hw c) all_functions))) L \<and>
       (\<forall>v d. finds hw c (\<lambda>k. vendor_id k = v \<and> device_id k = d) p' (find_by_device v d p')) \<and>
       (\<forall>b s i. finds hw c (\<lambda>k. base_class k = b \<and> sub_class k = s \<and> programming_if k = i) p' (find_by_class b s i p')))"
  using pci_init_devices [OF assms] unfolding find_by_device_def find_by_class_def
  by (elim disjE) (blast intro: find_devices)+

text \<open>A configuration space with one network card at slot 3 of bus 0; its first base address register is the state.\<close>

definition card_hw :: "u32 config_hw" where
  "card_hw = \<lparr>
     hw_read = (\<lambda>a c.
       if a = config_addr 0 3 0 0 then 0x12098086
       else if a = config_addr 0 3 0 8 then 0x02000000
       else if a = config_addr 0 3 0 0x10 then c
       else if a AND 0xFFFFFF00 = config_addr 0 3 0 0 then 0
       else 0xFFFFFFFF),
     hw_write = (\<lambda>n a v c. if a = config_addr 0 3 0 0x10 then v AND 0xFFFFF000 OR c AND 0xFFF else c)\<rparr>"

lemma card_addresses: "config_addr 0 3 0 0 = 0x80001800" "config_addr 0 3 0 8 = 0x80001808" "config_addr 0 3 0 0x10 = 0x80001810"
  by (simp_all add: config_addr_def)

lemma card_restores: "bars_restore card_hw"
proof -
  have "(c AND 0xFFFFF000) OR ((0xFFFFFFFF AND 0xFFFFF000) OR c AND 0xFFF) AND 0xFFF = c" for c :: u32
  proof -
    have "(0xFFFFF000 :: u32) OR 0xFFF = -1" "(0xFFFFF000 :: u32) AND 0xFFF = 0" by simp_all
    moreover have m: "(0xFFFFFFFF :: u32) = -1" by simp
    have "c AND 0xFFFFFFFF = c" unfolding m by (rule and.right_neutral)
    ultimately show ?thesis by (simp add: bit.conj_disj_distrib2 and.assoc flip: bit.conj_disj_distrib)
  qed
  then show ?thesis by (auto simp: bars_restore_def card_hw_def card_addresses Let_def)
qed

definition card_pci :: "u32 pci" where
  "card_pci = \<lparr>pci_io = \<lparr>config_address = 0, config_space = 0xFEB00000\<rparr>, pci_configs = (\<lambda>_. None),
     lst_pci_devices = \<lparr>lheap = boot_heap, elements = (\<lambda>_. None), llist = \<lparr>list_size = 0, destroyer = False, list_head = 0, list_tail = 0\<rparr>\<rparr>\<rparr>"

theorem pci_scan_correct_witness:
  "(\<exists>m. pci_init card_hw card_pci = Panic m) \<or>
    (\<exists>p. pci_init card_hw card_pci = Ok p \<and> config_space (pci_io p) = 0xFEB00000 \<and>
      finds card_hw 0xFEB00000 (\<lambda>k. vendor_id k = 0x8086 \<and> device_id k = 0x1209) p (find_by_device 0x8086 0x1209 p))"
proof -
  have "heap_live boot_heap {}" unfolding heap_live_def using boot_heap_inv by auto
  then show ?thesis using pci_scan_correct [OF card_restores, of card_pci "{}"] by (auto simp: card_pci_def)
qed

primrec header_typed :: "u8 \<Rightarrow> pci_header \<Rightarrow> bool" where
  "header_typed h (Type_0 t) \<longleftrightarrow> h AND 7 = 0 \<and> length (t0_bar_address t) = 6 \<and> length (t0_bar_sizes t) = 6 \<and>
     t0_interrupt_pin t = t0_interrupt_line t \<and> t0_max_latency t = t0_min_grant t"
| "header_typed h (Type_1 t) \<longleftrightarrow> h AND 7 = 1 \<and> t1_interrupt_pin t = t1_interrupt_line t"
| "header_typed h (Type_2 t) \<longleftrightarrow> h AND 7 = 2 \<and> t2_interrupt_pin t = t2_interrupt_line t"

definition config_typed :: "pci_config \<Rightarrow> bool" where
  "config_typed k \<longleftrightarrow> header_typed (header_type k) (pci_type k) \<and> latency_timer k = cache_line_size k \<and> BIST k = header_type k"

lemma run_read_byte [simp]:
  "run_state (read_byte hw b d f off) s =
     (ucast (drop_bit (unat ((off AND 2) * 8)) (hw_read hw (config_addr b d f off) (config_space s)) AND 0xFF),
      s\<lparr>config_address := config_addr b d f off\<rparr>)"
  by (simp add: read_byte_def outl_def inl_data_def)

lemma run_read_short [simp]:
  "run_state (read_short hw b d f off) s =
     (ucast (drop_bit (unat ((off AND 2) * 8)) (hw_read hw (config_addr b d f off) (config_space s)) AND 0xFFFF),
      s\<lparr>config_address := config_addr b d f off\<rparr>)"
  by (simp add: read_short_def outl_def inl_data_def)

lemma odd_offsets:
  "config_addr b d f 0xD = config_addr b d f 0xC" "config_addr b d f 0xF = config_addr b d f 0xE"
  "config_addr b d f 0x3D = config_addr b d f 0x3C" "config_addr b d f 0x3F = config_addr b d f 0x3E"
  by (simp_all add: config_addr_def)

lemma read_type_0_typed:
  assumes "run_state (read_type_0 hw b d f) s = (t, s')"
  shows "length (t0_bar_address t) = 6 \<and> t0_interrupt_pin t = t0_interrupt_line t \<and> t0_max_latency t = t0_min_grant t"
  using assms by (auto simp: read_type_0_def odd_offsets bar_offsets_def)

lemma read_header_typed:
  assumes "fst (run_state (read_header hw b d f h) s) = Some t"
  shows "header_typed h t"
proof -
  consider "h AND 7 = 0" | "h AND 7 = 1" | "h AND 7 = 2" using assms by (auto simp: read_header_def split: if_splits)
  then show ?thesis
  proof cases
    case 1
    then show ?thesis using assms read_type_0_typed [of hw b d f s]
      by (cases "run_state (read_type_0 hw b d f) s") (auto simp: read_header_def get_memory_size_def bar_offsets_def split_def)
  next
    case 2
    then show ?thesis using assms by (auto simp: read_header_def read_type_1_def odd_offsets split_def)
  next
    case 3
    then show ?thesis using assms by (auto simp: read_header_def read_type_2_def odd_offsets split_def)
  qed
qed

text \<open>
  C27: every configuration that is read is well typed: its header has the constructor that the header type
  asks for, a header of type 0 has six base address registers and six sizes. And the bytes at
  odd offsets are not read: the latency timer is the cache line size, the self test the header type,
  the interrupt pin the interrupt line.
\<close>

theorem read_config_typed: "pred_state (pred_option config_typed) (read_config hw b d f v i)"
proof (rule pred_stateI)
  fix a s s' assume r: "run_state (read_config hw b d f v i) s = (a, s')"
  show "pred_option config_typed a"
  proof (cases a)
    case (Some k)
    then show ?thesis using r
      by (auto simp: read_config_def config_typed_def odd_offsets split_def dest: read_header_typed)
  qed simp
qed

lemma decode_size_mask:
  fixes flags :: u32
  assumes "flags < 16"
  shows "decode_size (NOT (mask k) OR flags) = 2 ^ max 4 k"
proof -
  have n: "(0xFFFFFFF0 :: u32) = NOT (mask 4)" by (simp add: mask_eq_exp_minus_1)
  have "flags = flags AND mask 4" using less_mask_eq [of flags 4] assms by simp
  then have "flags AND NOT (mask 4) = 0" by (metis and.assoc bit.conj_cancel_right bit.conj_zero_right)
  then have "(NOT (mask k) OR flags) AND NOT (mask 4) = NOT (mask k OR mask 4)"
    by (simp add: bit.conj_disj_distrib2 bit.de_Morgan_disj)
  also have "mask k OR mask 4 = (mask (max 4 k) :: u32)"
    by (rule bit_eqI) (auto simp: bit_or_iff bit_mask_iff)
  finally show ?thesis unfolding decode_size_def n by (simp add: mask_eq_exp_minus_1)
qed

text \<open>
  The size of a base address register is found by writing ones: of a memory register of size 2^k, k at
  least 4, it is 2^k, for a register of the I/O space, which may be as small as 4 bytes, it is at least 16,
  and what the register held is written back.
\<close>

theorem bar_size_correct:
  assumes "a = config_addr b d f off" "hw_read hw a (hw_write hw 4 a 0xFFFFFFFF (config_space s)) = NOT (mask k) OR flags" "flags < 16"
  shows "run_state (bar_size hw b d f off) s =
    (2 ^ max 4 k, s\<lparr>config_address := a, config_space :=
       hw_write hw 4 a (hw_read hw a (config_space s)) (hw_write hw 4 a 0xFFFFFFFF (config_space s))\<rparr>)"
  using assms by (simp add: bar_size_def decode_size_mask)

theorem bar_size_correct_witness:
  "fst (run_state (bar_size card_hw 0 3 0 0x10) (pci_io card_pci)) = 4096"
proof -
  have "hw_read card_hw 0x80001810 (hw_write card_hw 4 0x80001810 0xFFFFFFFF (config_space (pci_io card_pci))) = NOT (mask 12) OR 0"
    by (simp add: card_hw_def card_addresses card_pci_def mask_eq_exp_minus_1)
  from bar_size_correct [OF _ this] show ?thesis by (simp add: card_addresses)
qed

end
