(* ===== verification/Region.thy ===== *)
theory Region
  imports Linked_List
begin

text \<open>
  Rectangles and regions of the screen, \<^verbatim>\<open>src/kernel/video/rect.cpp\<close> and \<^verbatim>\<open>src/kernel/video/region.cpp\<close>.
  A region is a list of pointers to rectangles that are heap objects. Coordinates are signed words; a sum that
  leaves their range wraps. Constructors and destructors are functions, as is the assignment.
\<close>

subsection \<open>Rectangles\<close>

record rect =
  rect_x :: u32
  rect_y :: u32
  rect_x2 :: u32
  rect_y2 :: u32
  rect_width :: u32
  rect_height :: u32

definition Rect :: "u32 \<Rightarrow> u32 \<Rightarrow> u32 \<Rightarrow> u32 \<Rightarrow> rect" where
  "Rect x y w h = \<lparr>rect_x = x, rect_y = y, rect_x2 = x + w, rect_y2 = y + h, rect_width = w, rect_height = h\<rparr>"

definition SetPosition :: "u32 \<Rightarrow> u32 \<Rightarrow> rect \<Rightarrow> rect" where
  "SetPosition x y r = r\<lparr>rect_x := x, rect_y := y, rect_x2 := x + rect_width r, rect_y2 := y + rect_height r\<rparr>"

definition rect_intersects :: "rect \<Rightarrow> rect \<Rightarrow> bool" where
  "rect_intersects r other \<longleftrightarrow>
     \<not> (sint (rect_x r) > sint (rect_x2 other) \<or> sint (rect_x other) > sint (rect_x2 r) \<or>
        sint (rect_y r) > sint (rect_y2 other) \<or> sint (rect_y other) > sint (rect_y2 r))"

definition rect_contains :: "u32 \<Rightarrow> u32 \<Rightarrow> rect \<Rightarrow> bool" where
  "rect_contains x y r \<longleftrightarrow> sint x \<ge> sint (rect_x r) \<and> sint x \<le> sint (rect_x2 r) \<and> sint y \<ge> sint (rect_y r) \<and> sint y \<le> sint (rect_y2 r)"

definition rect_encloses :: "rect \<Rightarrow> rect \<Rightarrow> bool" where
  "rect_encloses r other \<longleftrightarrow> rect_contains (rect_x other) (rect_y other) r \<and> rect_contains (rect_x2 other) (rect_y2 other) r"

definition clamp :: "u32 \<Rightarrow> u32 \<Rightarrow> u32 \<Rightarrow> u32" where
  "clamp x lo hi = (if sint x < sint lo then lo else if sint x > sint hi then hi else x)"

definition Clip :: "rect \<Rightarrow> rect \<Rightarrow> rect" where
  "Clip r other =
     (let x = clamp (rect_x r) (rect_x other) (rect_x2 other); y = clamp (rect_y r) (rect_y other) (rect_y2 other);
          x2 = clamp (rect_x2 r) (rect_x other) (rect_x2 other); y2 = clamp (rect_y2 r) (rect_y other) (rect_y2 other)
      in Rect x y (x2 - x) (y2 - y))"

definition rect_equal :: "rect \<Rightarrow> rect \<Rightarrow> bool" where
  "rect_equal r other \<longleftrightarrow> rect_x r = rect_x other \<and> rect_y r = rect_y other \<and>
     rect_width r = rect_width other \<and> rect_height r = rect_height other"

subsection \<open>Regions\<close>

text \<open>
  The state are the heap with the elements of all lists, the list of the region in question, which is the object
  at \<open>rect_list\<close>, and the rectangles.
\<close>

record region =
  rect_list :: u32
  region_list :: "u32 list_state"
  rects :: "u32 \<Rightarrow> rect option"

abbreviation (input) sizeof_LinkedList :: u32 where "sizeof_LinkedList \<equiv> 16"
abbreviation (input) sizeof_Rect :: u32 where "sizeof_Rect \<equiv> 24"

definition Region :: "region \<Rightarrow> region outcome" where
  "Region g =
     obind (kmalloc sizeof_LinkedList (lheap (region_list g))) (\<lambda>(p, k).
     Ok (g\<lparr>rect_list := p, region_list := list_init True ((region_list g)\<lparr>lheap := k\<rparr>)\<rparr>))"

definition delete_Region :: "region \<Rightarrow> region outcome" where
  "delete_Region g =
     obind (list_destroy free_data (region_list g)) (\<lambda>l.
     obind (kfree (rect_list g) (lheap l)) (\<lambda>k.
     Ok (g\<lparr>region_list := l\<lparr>lheap := k\<rparr>\<rparr>)))"

definition AddRect :: "rect \<Rightarrow> region \<Rightarrow> region outcome" where
  "AddRect r g =
     obind (kmalloc sizeof_Rect (lheap (region_list g))) (\<lambda>(a, k).
     obind (list_insert_next 0 a ((region_list g)\<lparr>lheap := k\<rparr>)) (\<lambda>(_, l).
     Ok (g\<lparr>region_list := l, rects := (rects g)(a \<mapsto> r)\<rparr>)))"

definition region_search :: "(rect \<Rightarrow> bool) \<Rightarrow> region \<Rightarrow> bool outcome" where
  "region_search P g =
     obind (of_loop (find_object (rects g) P (list_head (llist (region_list g))) (region_list g))) (\<lambda>a. Ok (a \<noteq> 0))"

definition region_intersects :: "rect \<Rightarrow> region \<Rightarrow> bool outcome" where
  "region_intersects r = region_search (\<lambda>q. rect_intersects q r)"

definition region_contains :: "u32 \<Rightarrow> u32 \<Rightarrow> region \<Rightarrow> bool outcome" where
  "region_contains x y = region_search (rect_contains x y)"

text \<open>Assignment: the rectangles of the list that starts at \<open>node\<close> are copied one by one.\<close>

partial_function (option) copy_rects :: "u32 \<Rightarrow> region \<Rightarrow> region outcome option" where
  "copy_rects node g =
     (if node = 0 then Some (Ok g)
      else lift_bind (get_element node (region_list g)) (\<lambda>e.
           lift_bind (deref (rects g (ldata e))) (\<lambda>r.
           lift_bind (AddRect r g) (\<lambda>g'.
           lift_bind (get_element node (region_list g')) (\<lambda>e'. copy_rects (lnext e') g')))))"

definition assign_Region :: "u32 \<Rightarrow> linked_list \<Rightarrow> region \<Rightarrow> region outcome" where
  "assign_Region other_ptr other g =
     (if other_ptr = rect_list g then Ok g
      else
        obind (list_destroy free_data (region_list g)) (\<lambda>l.
        of_loop (copy_rects (list_head other) (g\<lparr>region_list := list_init True l\<rparr>))))"

subsection \<open>The points of a rectangle\<close>

text \<open>The border on the right and the one below belong to a rectangle.\<close>

definition points :: "rect \<Rightarrow> (int \<times> int) set" where
  "points r = {sint (rect_x r)..sint (rect_x2 r)} \<times> {sint (rect_y r)..sint (rect_y2 r)}"

definition proper :: "rect \<Rightarrow> bool" where
  "proper r \<longleftrightarrow> sint (rect_x r) \<le> sint (rect_x2 r) \<and> sint (rect_y r) \<le> sint (rect_y2 r)"

lemma contains_points: "rect_contains x y r \<longleftrightarrow> (sint x, sint y) \<in> points r"
  by (auto simp: rect_contains_def points_def)

lemma interval_meet: "(a :: int) \<le> b \<Longrightarrow> c \<le> d \<Longrightarrow> {a..b} \<inter> {c..d} \<noteq> {} \<longleftrightarrow> \<not> (a > d \<or> c > b)"
proof -
  assume ab: "a \<le> b" "c \<le> d"
  have "{a..b} \<inter> {c..d} = {max a c..min b d}" by (rule Int_atLeastAtMost)
  then show ?thesis using ab by auto
qed

lemma intersects_points: "proper r \<Longrightarrow> proper q \<Longrightarrow> rect_intersects r q \<longleftrightarrow> points r \<inter> points q \<noteq> {}"
  using interval_meet [of "sint (rect_x r)" "sint (rect_x2 r)" "sint (rect_x q)" "sint (rect_x2 q)"]
    interval_meet [of "sint (rect_y r)" "sint (rect_y2 r)" "sint (rect_y q)" "sint (rect_y2 q)"]
  by (simp add: rect_intersects_def points_def proper_def Times_Int_Times)

lemma encloses_points: "proper q \<Longrightarrow> rect_encloses r q \<longleftrightarrow> points q \<subseteq> points r"
  unfolding points_def times_subset_iff atLeastatMost_subset_iff
  by (auto simp: rect_encloses_def rect_contains_def proper_def)

lemma sint_clamp: "sint lo \<le> sint hi \<Longrightarrow> sint (clamp x lo hi) = max (sint lo) (min (sint hi) (sint x))"
  by (auto simp: clamp_def)

lemma points_Clip:
  assumes "proper r" "proper q"
  shows "points (Clip r q) = {max (sint (rect_x q)) (min (sint (rect_x2 q)) (sint (rect_x r)))..max (sint (rect_x q)) (min (sint (rect_x2 q)) (sint (rect_x2 r)))} \<times>
    {max (sint (rect_y q)) (min (sint (rect_y2 q)) (sint (rect_y r)))..max (sint (rect_y q)) (min (sint (rect_y2 q)) (sint (rect_y2 r)))}"
  using assms by (simp add: points_def Clip_def Rect_def Let_def proper_def sint_clamp)

lemma clip_interval: "(a :: int) \<le> b \<Longrightarrow> c \<le> d \<Longrightarrow> \<not> (a > d \<or> c > b) \<Longrightarrow>
    {max c (min d a)..max c (min d b)} = {a..b} \<inter> {c..d}"
  by auto

subsection \<open>Properties\<close>

text \<open>
  Two rectangles intersect when they have a point in common, one contains another when all its points do;
  clipping one to another it intersects gives the common points. Clipping to one it does not
  intersect gives points of that one, and never none. The border is counted twice: a rectangle of width
  w and height h has (w + 1) * (h + 1) points.
\<close>

theorem rect_correct:
  assumes r: "proper r" and q: "proper q"
  shows "(rect_intersects r q \<longleftrightarrow> points r \<inter> points q \<noteq> {}) \<and> (rect_encloses r q \<longleftrightarrow> points q \<subseteq> points r) \<and>
    (rect_intersects r q \<longrightarrow> points (Clip r q) = points r \<inter> points q) \<and>
    points (Clip r q) \<subseteq> points q \<and> points (Clip r q) \<noteq> {} \<and>
    (sint x + int (unat w) < 2 ^ 31 \<longrightarrow> sint y + int (unat h) < 2 ^ 31 \<longrightarrow>
       proper (Rect x y w h) \<and> card (points (Rect x y w h)) = (unat w + 1) * (unat h + 1))"
proof -
  have sum: "sint (a + b) = sint a + int (unat b)" if "sint a + int (unat b) < 2 ^ 31" for a b :: u32
  proof -
    have "a + b = word_of_int (sint a + int (unat b))" by simp
    moreover have "- (2 ^ 31) \<le> sint a" using sint_ge [of a] by simp
    then have "- (2 ^ 31) \<le> sint a + int (unat b)" by (simp only: of_nat_0_le_iff add_increasing2)
    ultimately show ?thesis using that by (simp only: sint_sbintrunc') (simp add: signed_take_bit_int_eq_self)
  qed
  have "rect_intersects r q \<Longrightarrow> points (Clip r q) = points r \<inter> points q"
    using r q unfolding points_Clip [OF r q] unfolding points_def Times_Int_Times
    by (simp add: rect_intersects_def proper_def clip_interval) (simp add: max.commute min.commute)
  moreover have "points (Clip r q) \<subseteq> points q" "points (Clip r q) \<noteq> {}"
    using r q unfolding points_Clip [OF r q] by (auto simp: points_def proper_def times_subset_iff)
  ultimately show ?thesis using intersects_points [OF r q] encloses_points [OF q]
    by (simp add: points_def Rect_def proper_def card_cartesian_product sum nat_add_distrib)
qed

definition region_rep :: "region \<Rightarrow> rect list \<Rightarrow> u32 set \<Rightarrow> bool" where
  "region_rep g rs L \<longleftrightarrow> rect_list g \<notin> L \<and> destroyer (llist (region_list g)) \<and>
     (\<exists>ps. objects (region_list g) (rects g) ps rs (insert (rect_list g) L))"

theorem rect_correct_witness:
  "rect_intersects (Rect 10 10 20 20) (Rect 20 20 30 30) \<and>
    points (Clip (Rect 10 10 20 20) (Rect 20 20 30 30)) = {20..30} \<times> {20..30} \<and> card (points (Rect 0 0 2 3)) = 12"
  using rect_correct [of "Rect 10 10 20 20" "Rect 20 20 30 30" 0 2 0 3]
  by (simp add: proper_def Rect_def rect_intersects_def points_def Times_Int_Times)

lemma insert_destroyer: "list_insert_next e d s = Ok (r, s') \<Longrightarrow> destroyer (llist s') = destroyer (llist s)"
  by (auto simp: list_insert_next_def upd_list_def upd_element_def get_element_def Let_def split: if_splits)

lemma find_zip_nonzero:
  "length ps = length os \<Longrightarrow> (0 :: u32) \<notin> set ps \<Longrightarrow>
    (case find (\<lambda>(a, c). P c) (zip ps os) of None \<Rightarrow> 0 | Some (a, c) \<Rightarrow> a) \<noteq> 0 \<longleftrightarrow> (\<exists>c\<in>set os. P c)"
  by (induction ps os rule: list_induct2) auto

lemma region_search_objects:
  assumes "objects (region_list g) (rects g) ps rs L"
  shows "region_search P g = Ok (\<exists>q\<in>set rs. P q)"
proof -
  have "length ps = length rs" "0 \<notin> set ps" using assms by (auto simp: objects_def dest: map_eq_imp_length_eq)
  then show ?thesis using find_objects [OF assms, of P] find_zip_nonzero [of ps rs P] by (simp add: region_search_def)
qed

lemma delete_Region_objects:
  assumes O: "objects (region_list g) (rects g) ps rs (insert (rect_list g) L)" and o: "rect_list g \<notin> L" "destroyer (llist (region_list g))"
  shows "\<exists>g'. delete_Region g = Ok g' \<and> heap_live (lheap (region_list g')) L"
proof -
  obtain l where l: "list_destroy free_data (region_list g) = Ok l" "lrep l [] (insert (rect_list g) L)"
    using destroy_objects [OF O o(2)] by blast
  then obtain as where as: "linv l [] as (insert (rect_list g) L)" by (auto simp: lrep_def)
  then have "as = []" using nexts_length by (fastforce simp: linv_def)
  then have "heap_live (lheap l) (insert (rect_list g) L)" using as by (simp add: linv_def)
  then obtain k where "kfree (rect_list g) (lheap l) = Ok k" "heap_live k (insert (rect_list g) L - {rect_list g})"
    using km.free_cases by blast
  then show ?thesis using l(1) o(1) by (simp add: delete_Region_def)
qed

subsection \<open>Copying a region\<close>

text \<open>The operations on a list leave the elements of the other lists alone.\<close>

lemma insert_frame:
  assumes "lrep s xs L" "list_insert_next 0 d s = Ok (r, s')" "x \<in> L"
  shows "elements s' x = elements s x"
proof -
  obtain as where I: "nexts (elements s) (list_head (llist s)) as xs" "set as \<inter> L = {}" "elements s 0 = None" "heap_live (lheap s) (set as \<union> L)"
    using assms(1) by (auto simp: lrep_def linv_def)
  have "unat sizeof_list_element \<le> 2 ^ 28" by simp
  from km.alloc_cases [OF I(4) this] show ?thesis
  proof cases
    case (1 m)
    then show ?thesis using assms(2) by (simp add: list_insert_next_def)
  next
    case (2 p k)
    have h: "list_head (llist s) = hd_or as 0" using nexts_head [OF I(1)] .
    have "x \<noteq> p" "x \<noteq> list_head (llist s) \<or> list_head (llist s) = 0"
      using 2(3) assms(3) I(2) h by (cases as; auto)+
    then show ?thesis using assms(2) 2(1,4)
      by (auto simp: list_insert_next_def upd_list_def upd_element_def get_element_def Let_def split: if_splits)
  qed
qed

lemma remove_frame:
  assumes "lrep s (y # xs) L" "list_remove_next 0 s = Ok (r, d, s')" "x \<in> L"
  shows "elements s' x = elements s x"
proof -
  obtain as where I: "nexts (elements s) (list_head (llist s)) as (y # xs)" "set as \<inter> L = {}"
    using assms(1) by (auto simp: lrep_def linv_def)
  then have "x \<noteq> list_head (llist s)" using assms(3) by (cases as) auto
  then show ?thesis using assms(2)
    by (auto simp: list_remove_next_def upd_list_def get_element_def Let_def split: if_splits)
qed

lemma destroy_loop_frame:
  assumes "lrep s ps (set ps \<union> L)" "distinct ps" "set ps \<inter> L = {}" "destroyer (llist s)" "x \<in> L"
  shows "\<exists>s'. destroy_loop free_data s = Some (Ok s') \<and> elements s' x = elements s x"
  using assms(1-4)
proof (induction ps arbitrary: s)
  case Nil
  then have "list_size (llist s) = 0" by (auto simp: lrep_def linv_def)
  then show ?case by (subst destroy_loop.simps) auto
next
  case (Cons y ys)
  obtain s1 where s1: "list_remove_next 0 s = Ok (0, Some y, s1)" "lrep s1 ys (insert y (set ys \<union> L))" "destroyer (llist s1)"
    using list_pop_sim [OF Cons.prems(1)] Cons.prems(4) by auto
  have "y \<notin> set ys \<union> L" using Cons.prems(2,3) by auto
  from free_data_sim [OF s1(2) this] obtain s2 where s2: "free_data y s1 = Ok s2" "lrep s2 ys (set ys \<union> L)" "destroyer (llist s2)"
    using s1(3) by auto
  have "list_size (llist s) = of_nat (length (y # ys))" "length (y # ys) < 2 ^ 31" using Cons.prems by (auto simp: lrep_def linv_def)
  then have "sint (list_size (llist s)) > 0" using size_word(3) [of "length (y # ys)"] by simp
  then have "destroy_loop free_data s = destroy_loop free_data s2"
    using s1 s2 by (subst destroy_loop.simps) simp
  moreover have "elements s2 x = elements s x"
    using remove_frame [OF Cons.prems(1) s1(1), of x] s2(1) assms(5) by (auto simp: free_data_def)
  moreover have "distinct ys" "set ys \<inter> L = {}" using Cons.prems(2,3) by auto
  ultimately show ?case using Cons.IH [OF s2(2) _ _ s2(3)] by simp
qed

lemma destroy_frame:
  assumes "objects s objs ps os L" "destroyer (llist s)" "list_destroy free_data s = Ok s'" "x \<in> L"
  shows "elements s' x = elements s x"
proof -
  have "lrep s ps (set ps \<union> L)" "distinct ps" "set ps \<inter> L = {}" using assms(1) by (simp_all add: objects_def)
  from destroy_loop_frame [OF this assms(2,4)] show ?thesis
    using assms(3) by (auto simp: list_destroy_def list_init_def upd_list_def)
qed

text \<open>Another region of the same heap: its list starts at \<open>node\<close>, and all it consists of is among \<open>L\<close>.\<close>

definition region_at :: "u32 \<Rightarrow> rect list \<Rightarrow> region \<Rightarrow> u32 set \<Rightarrow> bool" where
  "region_at node rs g L \<longleftrightarrow> (\<exists>as ps. nexts (elements (region_list g)) node as ps \<and> 0 \<notin> set as \<and>
     map (rects g) ps = map Some rs \<and> set as \<union> set ps \<subseteq> L)"

definition same_region :: "u32 set \<Rightarrow> region \<Rightarrow> region \<Rightarrow> bool" where
  "same_region L g g' \<longleftrightarrow> rect_list g' = rect_list g \<and>
     (\<forall>x\<in>L. elements (region_list g') x = elements (region_list g) x \<and> rects g' x = rects g x)"

lemma region_at_frame: "region_at node rs g L \<Longrightarrow> same_region L g g' \<Longrightarrow> region_at node rs g' L"
proof -
  assume a: "region_at node rs g L" "same_region L g g'"
  then obtain as ps where r: "nexts (elements (region_list g)) node as ps" "0 \<notin> set as"
     "map (rects g) ps = map Some rs" "set as \<union> set ps \<subseteq> L" by (auto simp: region_at_def)
  have "nexts (elements (region_list g')) node as ps"
    by (rule nexts_cong [OF r(1)]) (use a(2) r(4) in \<open>auto simp: same_region_def\<close>)
  moreover have "map (rects g') ps = map (rects g) ps" using a(2) r(4) by (auto simp: same_region_def)
  ultimately show ?thesis using r(2-4) unfolding region_at_def by (intro exI conjI) auto
qed

lemma AddRect_step:
  assumes g: "region_rep g rs L" and n: "length rs < 2 ^ 31 - 1"
  shows "(\<exists>m. AddRect r g = Panic m) \<or> (\<exists>g'. AddRect r g = Ok g' \<and> region_rep g' (r # rs) L \<and> same_region L g g')"
proof -
  obtain ps where O: "objects (region_list g) (rects g) ps rs (insert (rect_list g) L)" and o: "rect_list g \<notin> L" "destroyer (llist (region_list g))"
    using g by (auto simp: region_rep_def)
  have len: "length ps < 2 ^ 31 - 1" using n O by (auto simp: objects_def dest: map_eq_imp_length_eq)
  have R: "lrep (region_list g) ps (set ps \<union> insert (rect_list g) L)" using O by (simp add: objects_def)
  have sz: "unat sizeof_Rect \<le> 2 ^ 28" by simp
  from lrep_alloc [OF R sz] show ?thesis
  proof cases
    case (1 m)
    then show ?thesis by (simp add: AddRect_def)
  next
    case (2 a k)
    from ll.push_step [OF 2(4) len, of a] show ?thesis
    proof (elim disjE exE conjE)
      fix m assume "list_insert_next 0 a (region_list g\<lparr>lheap := k\<rparr>) = Panic m"
      then show ?thesis using 2(1) by (simp add: AddRect_def)
    next
      fix l assume l: "list_insert_next 0 a (region_list g\<lparr>lheap := k\<rparr>) = Ok (0, l)" "lrep l (a # ps) (insert a (set ps \<union> insert (rect_list g) L))"
      let ?g = "g\<lparr>region_list := l, rects := (rects g)(a \<mapsto> r)\<rparr>"
      have d: "destroyer (llist l)" using o(2) insert_destroyer [OF l(1)] by simp
      have "objects l ((rects g)(a \<mapsto> r)) (a # ps) (r # rs) (insert (rect_list g) L)"
        using O 2(2,3) l(2) by (auto simp: objects_def insert_commute)
      then have "region_rep ?g (r # rs) L" using o(1) d by (auto simp: region_rep_def)
      moreover have "same_region L g ?g"
        using insert_frame [OF 2(4) l(1)] 2(3) by (auto simp: same_region_def)
      ultimately show ?thesis using 2(1) l(1) by (simp add: AddRect_def)
    qed
  qed
qed

lemma copy_rects_sim:
  assumes "nexts (elements (region_list g)) node as ps" "0 \<notin> set as" "map (rects g) ps = map Some rs'" "set as \<union> set ps \<subseteq> L"
    and "region_rep g rs L" "length rs + length rs' < 2 ^ 31"
  shows "(\<exists>m. copy_rects node g = Some (Panic m)) \<or>
    (\<exists>g'. copy_rects node g = Some (Ok g') \<and> region_rep g' (rev rs' @ rs) L \<and> same_region L g g')"
  using assms
proof (induction as arbitrary: g node ps rs rs')
  case Nil
  then show ?case by (cases ps) (auto simp: copy_rects.simps same_region_def)
next
  case (Cons a as)
  then obtain e x xs where e: "ps = x # xs" "elements (region_list g) a = Some e" "ldata e = x"
    "nexts (elements (region_list g)) (lnext e) as xs" "node = a"
    by (cases ps) (auto split: option.splits)
  obtain r rs1 where r: "rs' = r # rs1" "rects g x = Some r" "map (rects g) xs = map Some rs1"
    using Cons.prems(3) e(1) by (cases rs') auto
  have n: "length rs < 2 ^ 31 - 1" using Cons.prems(6) r(1) by simp
  have a0: "a \<noteq> 0" "a \<in> L" using Cons.prems(2,4) by auto
  have L: "set as \<union> set xs \<subseteq> L" "0 \<notin> set as" using Cons.prems(2,4) e(1) by auto
  from AddRect_step [OF Cons.prems(5) n, of r] show ?case
  proof (elim disjE exE conjE)
    fix m assume "AddRect r g = Panic m"
    then have "copy_rects node g = Some (Panic m)"
      using e r(2) a0 by (subst copy_rects.simps) (simp add: get_element_def)
    then show ?thesis by blast
  next
    fix g1 assume g1: "AddRect r g = Ok g1" "region_rep g1 (r # rs) L" "same_region L g g1"
    have run: "copy_rects node g = copy_rects (lnext e) g1"
      using e r(2) a0 g1(1,3) by (subst copy_rects.simps) (simp add: get_element_def same_region_def)
    have nx: "nexts (elements (region_list g1)) (lnext e) as xs"
      by (rule nexts_cong [OF e(4)]) (use g1(3) L in \<open>auto simp: same_region_def\<close>)
    have "map (rects g1) xs = map (rects g) xs" using g1(3) L(1) by (intro map_cong) (auto simp: same_region_def)
    then have mp: "map (rects g1) xs = map Some rs1" using r(3) by simp
    have len: "length (r # rs) + length rs1 < 2 ^ 31" using Cons.prems(6) r(1) by simp
    from Cons.IH [OF nx L(2) mp L(1) g1(2) len] show ?thesis
      unfolding run r(1) using g1(3) by (auto simp: same_region_def)
  qed
qed

text \<open>Assignment destroys what the region had and copies the other one, whose list stays as it is.\<close>

lemma assign_Region_sim:
  assumes g: "region_rep g rs L" and o: "region_at (list_head other) rs' g L" and n: "length rs' < 2 ^ 31" "other_ptr \<noteq> rect_list g"
  shows "(\<exists>m. assign_Region other_ptr other g = Panic m) \<or>
    (\<exists>g'. assign_Region other_ptr other g = Ok g' \<and> region_rep g' (rev rs') L \<and> region_at (list_head other) rs' g' L)"
proof -
  obtain ps where O: "objects (region_list g) (rects g) ps rs (insert (rect_list g) L)" and d: "rect_list g \<notin> L" "destroyer (llist (region_list g))"
    using g by (auto simp: region_rep_def)
  obtain l where l: "list_destroy free_data (region_list g) = Ok l" "lrep l [] (insert (rect_list g) L)"
    using destroy_objects [OF O d(2)] by blast
  let ?g = "g\<lparr>region_list := list_init True l\<rparr>"
  obtain as where as: "linv l [] as (insert (rect_list g) L)" using l(2) by (auto simp: lrep_def)
  then have "as = []" using nexts_length by (fastforce simp: linv_def)
  then have "linv (list_init True l) [] [] (insert (rect_list g) L)" using as by (auto simp: linv_def list_init_def upd_list_def)
  then have "lrep (list_init True l) [] (insert (rect_list g) L)" by (auto simp: lrep_def)
  then have "objects (list_init True l) (rects g) [] [] (insert (rect_list g) L)" by (simp add: objects_def)
  then have R: "region_rep ?g [] L" using d(1) by (auto simp: region_rep_def list_init_def upd_list_def)
  have S: "same_region L g ?g"
    using destroy_frame [OF O d(2) l(1)] by (simp add: same_region_def list_init_def upd_list_def)
  obtain as qs where a: "nexts (elements (region_list ?g)) (list_head other) as qs" "0 \<notin> set as"
     "map (rects ?g) qs = map Some rs'" "set as \<union> set qs \<subseteq> L"
    using region_at_frame [OF o S] by (auto simp: region_at_def)
  have run: "assign_Region other_ptr other g = of_loop (copy_rects (list_head other) ?g)"
    using n(2) l(1) by (simp add: assign_Region_def)
  have "length ([] :: rect list) + length rs' < 2 ^ 31" using n(1) by simp
  from copy_rects_sim [OF a R this] show ?thesis
    unfolding run using region_at_frame [OF region_at_frame [OF o S]] by auto
qed

text \<open>A new region beside one that exists.\<close>

lemma Region_new:
  assumes g: "region_rep g rs L"
  shows "(\<exists>m. Region g = Panic m) \<or> (\<exists>g' L'. Region g = Ok g' \<and> region_rep g' [] L' \<and> L \<subseteq> L' \<and>
    region_at (list_head (llist (region_list g))) rs g' L' \<and> rect_list g' \<noteq> rect_list g)"
proof -
  obtain ps where O: "objects (region_list g) (rects g) ps rs (insert (rect_list g) L)" and d: "rect_list g \<notin> L"
    using g by (auto simp: region_rep_def)
  then obtain as where I: "linv (region_list g) ps as (set ps \<union> insert (rect_list g) L)" by (auto simp: objects_def lrep_def)
  let ?L = "set as \<union> (set ps \<union> insert (rect_list g) L)"
  have N: "nexts (elements (region_list g)) (list_head (llist (region_list g))) as ps" "0 \<notin> set as"
    "elements (region_list g) 0 = None" "heap_live (lheap (region_list g)) ?L" using I by (simp_all add: linv_def)
  have "unat sizeof_LinkedList \<le> 2 ^ 28" by simp
  from km.alloc_cases [OF N(4) this] show ?thesis
  proof cases
    case (1 m)
    then show ?thesis by (simp add: Region_def)
  next
    case (2 p k)
    let ?g = "g\<lparr>rect_list := p, region_list := list_init True ((region_list g)\<lparr>lheap := k\<rparr>)\<rparr>"
    have "linv (region_list ?g) [] [] (insert p ?L)" using 2(2) N(3) by (simp add: linv_def list_init_def upd_list_def)
    then have "objects (region_list ?g) (rects ?g) [] [] (insert p ?L)" by (auto simp: objects_def lrep_def)
    then have "region_rep ?g [] ?L" using 2(3) unfolding region_rep_def by (intro conjI exI) (simp_all add: list_init_def upd_list_def)
    moreover have "region_at (list_head (llist (region_list g))) rs ?g ?L"
      unfolding region_at_def using N(1,2) O
      by (intro exI [of _ as] exI [of _ ps]) (auto simp: list_init_def upd_list_def objects_def)
    moreover have "p \<noteq> rect_list g" using 2(3) by auto
    ultimately show ?thesis using 2(1) unfolding Region_def by (intro disjI2 exI [of _ ?g] exI [of _ ?L]) auto
  qed
qed

lemma region_contains_rep: "region_rep g rs L \<Longrightarrow> region_contains x y g = Ok ((sint x, sint y) \<in> \<Union> (points ` set rs))"
  unfolding region_rep_def region_contains_def
  using region_search_objects [of g _ rs _ "rect_contains x y"] by (auto simp: contains_points)

text \<open>
  C17: a region is the union of its rectangles: adding one adds its points, a point is contained in the
  region when it is in one of them, a rectangle intersects the region when it meets one of them. Assigning
  another region gives back what the region had and makes it a copy with the same rectangles, in the
  opposite order, which are objects of its own: the other region stays as it is; assigning a region to itself
  does nothing. Deleting the region gives back all memory that it has taken. (The kernel heap may panic.)
\<close>

theorem region_correct:
  assumes g: "region_rep g rs L" and n: "length rs < 2 ^ 31 - 1"
  shows "((\<exists>m. AddRect r g = Panic m) \<or> (\<exists>g'. AddRect r g = Ok g' \<and> region_rep g' (r # rs) L)) \<and>
    region_contains x y g = Ok ((sint x, sint y) \<in> \<Union> (points ` set rs)) \<and>
    (proper r \<longrightarrow> (\<forall>q\<in>set rs. proper q) \<longrightarrow> region_intersects r g = Ok (\<Union> (points ` set rs) \<inter> points r \<noteq> {})) \<and>
    (\<forall>ptr other rs'. region_at (list_head other) rs' g L \<longrightarrow> length rs' < 2 ^ 31 \<longrightarrow> ptr \<noteq> rect_list g \<longrightarrow>
       (\<exists>m. assign_Region ptr other g = Panic m) \<or>
       (\<exists>g'. assign_Region ptr other g = Ok g' \<and> region_rep g' (rev rs') L \<and> region_at (list_head other) rs' g' L \<and>
          region_contains x y g' = Ok ((sint x, sint y) \<in> \<Union> (points ` set rs')))) \<and>
    assign_Region (rect_list g) (llist (region_list g)) g = Ok g \<and>
    (\<exists>g'. delete_Region g = Ok g' \<and> heap_live (lheap (region_list g')) L)"
proof -
  obtain ps where O: "objects (region_list g) (rects g) ps rs (insert (rect_list g) L)" and o: "rect_list g \<notin> L" "destroyer (llist (region_list g))"
    using g by (auto simp: region_rep_def)
  have "(\<exists>q\<in>set rs. rect_intersects q r) \<longleftrightarrow> \<Union> (points ` set rs) \<inter> points r \<noteq> {}" if "proper r" "\<forall>q\<in>set rs. proper q"
    using that by (simp add: intersects_points) blast
  then have i: "proper r \<longrightarrow> (\<forall>q\<in>set rs. proper q) \<longrightarrow> region_intersects r g = Ok (\<Union> (points ` set rs) \<inter> points r \<noteq> {})"
    by (simp add: region_intersects_def region_search_objects [OF O])
  have "(\<exists>m. assign_Region ptr other g = Panic m) \<or>
       (\<exists>g'. assign_Region ptr other g = Ok g' \<and> region_rep g' (rev rs') L \<and> region_at (list_head other) rs' g' L \<and>
          region_contains x y g' = Ok ((sint x, sint y) \<in> \<Union> (points ` set rs')))"
    if "region_at (list_head other) rs' g L" "length rs' < 2 ^ 31" "ptr \<noteq> rect_list g" for ptr other rs'
    using assign_Region_sim [OF g that] region_contains_rep by fastforce
  moreover have "assign_Region (rect_list g) (llist (region_list g)) g = Ok g" by (simp add: assign_Region_def)
  ultimately show ?thesis
    using AddRect_step [OF g n] region_contains_rep [OF g] i delete_Region_objects [OF O o] by blast
qed

definition some_region :: region where
  "some_region = \<lparr>rect_list = 0xD0000004, region_list = \<lparr>lheap = used_heap, elements = (\<lambda>_. None),
     llist = \<lparr>list_size = 0, destroyer = True, list_head = 0, list_tail = 0\<rparr>\<rparr>, rects = (\<lambda>_. None)\<rparr>"

lemma some_region_rep: "region_rep some_region [] {}"
proof -
  have "heap_live used_heap {0xD0000004}" unfolding heap_live_def using used_heap_inv by (intro exI conjI) auto
  then have "linv (region_list some_region) [] [] {0xD0000004}" by (simp add: linv_def some_region_def last_or_def)
  then have "objects (region_list some_region) (rects some_region) [] [] {0xD0000004}" by (auto simp: objects_def lrep_def)
  then show ?thesis by (auto simp: region_rep_def some_region_def)
qed

theorem region_correct_witness:
  "region_contains 15 15 some_region = Ok False \<and>
   (case AddRect (Rect 10 10 20 20) some_region of
      Ok g \<Rightarrow> region_contains 15 15 g = Ok True \<and> (\<exists>g'. delete_Region g = Ok g') \<and>
        (case Region g of
           Ok g1 \<Rightarrow> (\<exists>m. assign_Region (rect_list g) (llist (region_list g)) g1 = Panic m) \<or>
             (\<exists>g2. assign_Region (rect_list g) (llist (region_list g)) g1 = Ok g2 \<and> region_contains 15 15 g2 = Ok True)
         | Panic m \<Rightarrow> True | _ \<Rightarrow> False)
    | Panic m \<Rightarrow> True | _ \<Rightarrow> False)"
proof -
  let ?r = "Rect 10 10 20 20"
  have p: "(15, 15) \<in> points ?r" by (simp add: points_def Rect_def)
  have "region_contains 15 15 g = Ok True \<and> (\<exists>g'. delete_Region g = Ok g') \<and>
        (case Region g of
           Ok g1 \<Rightarrow> (\<exists>m. assign_Region (rect_list g) (llist (region_list g)) g1 = Panic m) \<or>
             (\<exists>g2. assign_Region (rect_list g) (llist (region_list g)) g1 = Ok g2 \<and> region_contains 15 15 g2 = Ok True)
         | Panic m \<Rightarrow> True | _ \<Rightarrow> False)" (is "?a \<and> ?b \<and> ?c") if g: "region_rep g [?r] {}" for g
  proof (intro conjI)
    have n: "length [?r] < 2 ^ 31 - 1" by simp
    note c = region_correct [OF g n, of ?r 15 15]
    show ?a using c p by simp
    show ?b using c by blast
    from Region_new [OF g] show ?c
    proof (elim disjE exE conjE)
      fix g1 L1 assume g1: "Region g = Ok g1" "region_rep g1 [] L1" "region_at (list_head (llist (region_list g))) [?r] g1 L1"
        "rect_list g1 \<noteq> rect_list g"
      have n0: "length ([] :: rect list) < 2 ^ 31 - 1" by simp
      have len: "length [?r] < 2 ^ 31" by simp
      note w = region_correct [OF g1(2) n0, of ?r 15 15, THEN conjunct2, THEN conjunct2, THEN conjunct2, THEN conjunct1,
        rule_format, OF g1(3) len g1(4) [symmetric]]
      have in_r: "(sint (15 :: u32), sint (15 :: u32)) \<in> \<Union> (points ` set [?r])" using p by simp
      show ?c unfolding g1(1) using w in_r by (simp only: outcome.case) blast
    qed simp
  qed
  note step = this
  have no: "region_contains 15 15 some_region = Ok False"
    using region_correct [OF some_region_rep, of ?r 15 15] by simp
  have "(\<exists>m. AddRect ?r some_region = Panic m) \<or> (\<exists>g'. AddRect ?r some_region = Ok g' \<and> region_rep g' [?r] {})"
    using region_correct [OF some_region_rep, of ?r 15 15] by simp
  then show ?thesis
  proof (elim disjE exE conjE)
    fix g assume g: "AddRect ?r some_region = Ok g" "region_rep g [?r] {}"
    show ?thesis unfolding g(1) outcome.case using no step [OF g(2)] by blast
  qed (simp add: no)
qed

end
