(* ===== verification/Painter.thy ===== *)
theory Painter
  imports Region Klib
begin

text \<open>
  Drawing, \<^verbatim>\<open>src/kernel/video/painter.cpp\<close>, \<^verbatim>\<open>painter24.cpp\<close> and \<^verbatim>\<open>painter32.cpp\<close>, on the screen of \<^verbatim>\<open>video.h\<close>. Memory is a map from
  addresses to bytes. The two painters differ in the bytes of a pixel. The table of the font is the argument \<open>font\<close>, the functions
  that take and release the buffer do nothing.
\<close>

subsection \<open>Screens\<close>

record screen_info =
  frame_buffer :: u32
  back_buffer :: u32
  swidth :: u16
  sheight :: u16
  bpp :: u16
  pitch :: u16
  screen_size :: u32

record painter =
  pscreen :: screen_info
  pbounds :: rect

definition SetClipping :: "rect \<Rightarrow> painter \<Rightarrow> painter" where
  "SetClipping b p = p\<lparr>pbounds := b\<rparr>"

datatype depth = Depth24 | Depth32

primrec step :: "depth \<Rightarrow> u32" where
  "step Depth24 = 3"
| "step Depth32 = 4"

definition colors :: "u32 \<Rightarrow> u8 list" where
  "colors color = [ucast (color AND 0xFF), ucast (drop_bit 8 (color AND 0xFF00)), ucast (drop_bit 16 (color AND 0xFF0000))]"

primrec pixel :: "depth \<Rightarrow> u32 \<Rightarrow> u8 list" where
  "pixel Depth24 color = colors color"
| "pixel Depth32 color = colors color @ [0xFF]"

definition store_pixel :: "u32 \<Rightarrow> u8 list \<Rightarrow> bytes \<Rightarrow> bytes" where
  "store_pixel dest px m = fold (\<lambda>i m. m(dest + of_nat i := px ! i)) [0..<length px] m"

subsection \<open>Filling\<close>

text \<open>The counter is decremented before it is tested.\<close>

partial_function (option) fill_loop :: "u32 \<Rightarrow> u8 list \<Rightarrow> u32 \<Rightarrow> u32 \<Rightarrow> bytes \<Rightarrow> bytes option" where
  "fill_loop n px num dest m =
     (let num' = num - n in if num' = 0 then Some m else fill_loop n px num' (dest + n) (store_pixel dest px m))"

definition Fill :: "depth \<Rightarrow> painter \<Rightarrow> u32 \<Rightarrow> bytes \<Rightarrow> bytes option" where
  "Fill d p color m = fill_loop (step d) (pixel d color) (screen_size (pscreen p)) (back_buffer (pscreen p)) m"

definition fill_row :: "u32 \<Rightarrow> u8 list \<Rightarrow> u32 \<Rightarrow> u32 \<Rightarrow> bytes \<Rightarrow> bytes" where
  "fill_row n px start w m = fold (\<lambda>x. store_pixel (start + n * of_nat x) px) [0..<unat w] m"

definition FillRect :: "depth \<Rightarrow> painter \<Rightarrow> rect \<Rightarrow> u32 \<Rightarrow> bytes \<Rightarrow> bytes" where
  "FillRect d p rect color m =
     (let c = Clip rect (pbounds p); s = pscreen p;
          start = back_buffer s + rect_y c * ucast (pitch s) + rect_x c * step d in
      fold (\<lambda>y. fill_row (step d) (pixel d color) (start + of_nat y * ucast (pitch s)) (rect_width c)) [0..<unat (rect_height c)] m)"

subsection \<open>Pixels, letters and boxes\<close>

definition SetPixel :: "depth \<Rightarrow> painter \<Rightarrow> u32 \<Rightarrow> u32 \<Rightarrow> u32 \<Rightarrow> bytes \<Rightarrow> bytes" where
  "SetPixel d p x y color m =
     (let b = pbounds p; s = pscreen p in
      if \<not> rect_contains (rect_x b + x) (rect_y b + y) b then m
      else store_pixel (back_buffer s + (rect_y b + y) * ucast (pitch s) + (rect_x b + x) * step d) (pixel d color) m)"

primrec cursor_pixel :: "depth \<Rightarrow> u8 list" where
  "cursor_pixel Depth24 = [0xFF, 0, 0]"
| "cursor_pixel Depth32 = [0xFF, 0, 0, 0xFF]"

definition DrawCursor :: "depth \<Rightarrow> painter \<Rightarrow> u32 \<Rightarrow> u32 \<Rightarrow> bytes \<Rightarrow> bytes" where
  "DrawCursor d p mouse_x mouse_y m =
     (let b = pbounds p; s = pscreen p; x = clamp mouse_x (rect_x b) (rect_x2 b - 8); y = clamp mouse_y (rect_y b) (rect_y2 b - 8);
          start = frame_buffer s + y * ucast (pitch s) + x * step d in
      fold (\<lambda>i. fill_row (step d) (cursor_pixel d) (start + of_nat i * ucast (pitch s)) 8) [0..<8] m)"

abbreviation (input) FONT_WIDTH :: u32 where "FONT_WIDTH \<equiv> 5"
abbreviation (input) FONT_HEIGHT :: nat where "FONT_HEIGHT \<equiv> 7"

text \<open>The scale is a small positive number; a letter is a signed character.\<close>

definition DrawChar :: "(nat \<Rightarrow> u8) \<Rightarrow> depth \<Rightarrow> painter \<Rightarrow> u8 \<Rightarrow> u32 \<Rightarrow> u32 \<Rightarrow> nat \<Rightarrow> u32 \<Rightarrow> bytes \<Rightarrow> bytes" where
  "DrawChar font d p letter x y scale color m =
     (if sint letter < 32 \<or> sint letter > 126 then m
      else
        let index = (unat letter - 32) * FONT_HEIGHT in
        fold (\<lambda>row. fold (\<lambda>col. fold (\<lambda>i m.
            if push_bit col (ucast (font (index + row)) :: u32) AND 0x10 \<noteq> 0
            then fold (\<lambda>j. SetPixel d p (x + of_nat (col * scale + i)) (y + of_nat (row * scale + j)) color) [0..<scale] m
            else m) [0..<scale]) [0..<unat FONT_WIDTH]) [0..<FONT_HEIGHT] m)"

fun draw_letters :: "(nat \<Rightarrow> u8) \<Rightarrow> depth \<Rightarrow> painter \<Rightarrow> u8 list \<Rightarrow> u32 \<Rightarrow> u32 \<Rightarrow> nat \<Rightarrow> u32 \<Rightarrow> bytes \<Rightarrow> bytes" where
  "draw_letters font d p [] x y scale color m = m"
| "draw_letters font d p (c # cs) x y scale color m =
     (if sint x < sint (rect_x2 (pbounds p)) \<and> sint y < sint (rect_y2 (pbounds p)) then
        draw_letters font d p cs (x + (FONT_WIDTH + 1) * of_nat scale) y scale color
          (if sint (x + FONT_WIDTH * of_nat scale) > 0 \<and> sint (y + of_nat (FONT_HEIGHT * scale)) > 0
           then DrawChar font d p c x y scale color m else m)
      else m)"

text \<open>The string with a terminator, or the piece of one that was cut out.\<close>

definition DrawString :: "(nat \<Rightarrow> u8) \<Rightarrow> depth \<Rightarrow> painter \<Rightarrow> u8 list \<Rightarrow> u32 \<Rightarrow> u32 \<Rightarrow> nat \<Rightarrow> u32 \<Rightarrow> bytes \<Rightarrow> bytes" where
  "DrawString font d p str x y scale color m =
     (if sint (y + of_nat FONT_HEIGHT) > sint (rect_y2 (pbounds p)) then m
      else draw_letters font d p (takeWhile (\<lambda>c. c \<noteq> 0) str) x y scale color m)"

definition DrawPiece :: "(nat \<Rightarrow> u8) \<Rightarrow> depth \<Rightarrow> painter \<Rightarrow> u8 list \<Rightarrow> u32 \<Rightarrow> u32 \<Rightarrow> nat \<Rightarrow> u32 \<Rightarrow> bytes \<Rightarrow> bytes" where
  "DrawPiece font d p str x y scale color m =
     (if sint (y + of_nat FONT_HEIGHT) > sint (rect_y2 (pbounds p)) then m else draw_letters font d p str x y scale color m)"

definition DrawBox :: "depth \<Rightarrow> painter \<Rightarrow> rect \<Rightarrow> u32 \<Rightarrow> u32 \<Rightarrow> u32 \<Rightarrow> u32 \<Rightarrow> u32 \<Rightarrow> bytes \<Rightarrow> bytes" where
  "DrawBox d p b color1 color2 color3 color4 scale m =
     fold (\<lambda>(r, color). FillRect d p r color)
       [(Rect (rect_x b + scale) (rect_y b + scale) (rect_width b - scale * 2) (rect_height b - scale * 2), color1),
        (Rect (rect_x b + scale) (rect_y b) (rect_width b - scale * 2) scale, color2),
        (Rect (rect_x b + scale) (rect_y2 b - scale) (rect_width b - scale * 2) scale, color2),
        (Rect (rect_x b) (rect_y b + scale) scale (rect_height b - scale * 2), color3),
        (Rect (rect_x2 b - scale) (rect_y b + scale) scale (rect_height b - scale * 2), color3),
        (Rect (rect_x b) (rect_y b) scale scale, color4),
        (Rect (rect_x2 b - scale) (rect_y b) scale scale, color4),
        (Rect (rect_x b) (rect_y2 b - scale) scale scale, color4),
        (Rect (rect_x2 b - scale) (rect_y2 b - scale) scale scale, color4)] m"

subsection \<open>What a row of pixels and a rectangle of rows store\<close>

lemma length_pixel [simp]: "length (pixel d color) = unat (step d)"
  by (cases d) (simp_all add: colors_def)

lemma unat_of_nat_small: "k < 2 ^ 32 \<Longrightarrow> unat (of_nat k :: u32) = k"
  by (simp add: unat_of_nat take_bit_nat_eq_self)

lemma unat_diff_of_nat: "q \<le> unat a \<Longrightarrow> unat (a - of_nat q :: u32) = unat a - q"
proof -
  assume q: "q \<le> unat a"
  have w: "unat (of_nat q :: u32) = q" using q unsigned_less [where ?'a = nat and w = a] by (simp add: unat_of_nat take_bit_nat_eq_self)
  then have "(of_nat q :: u32) \<le> a" using q by (simp add: word_le_nat_alt)
  then show ?thesis using w by (simp add: unat_sub)
qed

lemma unat_diff_less:
  assumes "q + b \<le> 2 ^ 32" shows "unat (a - of_nat q :: u32) < b \<longleftrightarrow> q \<le> unat a \<and> unat a < q + b"
proof (cases "q \<le> unat a")
  case True then show ?thesis by (auto simp: unat_diff_of_nat)
next
  case False
  show ?thesis
  proof (cases "q = 2 ^ 32")
    case True then show ?thesis using assms by simp
  next
    case nq: False
    then have w: "unat (of_nat q :: u32) = q" using assms by (simp add: unat_of_nat take_bit_nat_eq_self)
    have "unat (a - of_nat q :: u32) = 2 ^ 32 + unat a - q"
      using unat_sub_if' [of a "of_nat q"] w False by simp
    then show ?thesis using False assms by simp
  qed
qed

lemma store_bytes_get:
  "k \<le> 2 ^ 32 \<Longrightarrow> fold (\<lambda>i m. m(dest + of_nat i := f i)) [0..<k] m a = (if unat (a - dest :: u32) < k then f (unat (a - dest)) else m a)"
proof (induction k)
  case (Suc k)
  have w: "unat (of_nat k :: u32) = k" using Suc.prems by (simp add: unat_of_nat take_bit_nat_eq_self)
  have "a = dest + of_nat k \<longleftrightarrow> unat (a - dest) = k"
  proof
    assume "unat (a - dest) = k" then have "of_nat (unat (a - dest)) = (of_nat k :: u32)" by simp
    then have "a - dest = of_nat k" by simp
    then show "a = dest + of_nat k" by (simp add: algebra_simps)
  qed (simp add: w)
  then show ?case using Suc by (auto simp: less_Suc_eq)
qed simp

lemma store_pixel_get: "length px < 2 ^ 32 \<Longrightarrow> store_pixel dest px m a = (if unat (a - dest) < length px then px ! unat (a - dest) else m a)"
  unfolding store_pixel_def by (rule store_bytes_get) simp

text \<open>Blocks of \<open>b\<close> bytes, each \<open>q\<close> bytes behind the one in front of it.\<close>

lemma blocks_get:
  assumes "\<And>i m a. g i m a = (if unat (a - (start + of_nat (q * i)) :: u32) < b then v (unat (a - (start + of_nat (q * i)))) else m a)"
    and "b \<le> q" and "0 < q" and "q * k \<le> 2 ^ 32"
  shows "fold g [0..<k] m a =
    (if unat (a - start) < q * k \<and> unat (a - start) mod q < b then v (unat (a - start) mod q) else m a)"
  using assms(4)
proof (induction k)
  case (Suc k)
  let ?u = "unat (a - start)"
  have fit: "q * k + b \<le> 2 ^ 32" and fit': "q * k \<le> 2 ^ 32" using Suc.prems assms(2) by simp_all
  have eq: "a - (start + of_nat (q * k)) = (a - start) - of_nat (q * k)" by (simp add: algebra_simps)
  have new: "unat (a - (start + of_nat (q * k))) < b \<longleftrightarrow> q * k \<le> ?u \<and> ?u < q * k + b"
    unfolding eq by (rule unat_diff_less [OF fit])
  have ih: "fold g [0..<k] m a = (if ?u < q * k \<and> ?u mod q < b then v (?u mod q) else m a)" by (rule Suc.IH [OF fit'])
  have step: "fold g [0..<Suc k] m a = (if q * k \<le> ?u \<and> ?u < q * k + b then v (unat (a - (start + of_nat (q * k)))) else fold g [0..<k] m a)"
    using assms(1) [of k "fold g [0..<k] m" a] unfolding new by simp
  show ?case
  proof (cases "q * k \<le> ?u \<and> ?u < q * Suc k")
    case True
    then have "?u div q = k" using assms(3) by (intro div_nat_eqI) (simp_all add: mult.commute)
    then have m: "?u mod q = ?u - q * k" by (metis minus_mult_div_eq_mod)
    have "unat (a - (start + of_nat (q * k))) = ?u - q * k" unfolding eq using True by (intro unat_diff_of_nat) simp
    then show ?thesis unfolding step ih using True m assms(2) by auto
  next
    case False
    then have "\<not> (q * k \<le> ?u \<and> ?u < q * k + b)" using assms(2) by auto
    then show ?thesis unfolding step ih using False by auto
  qed
qed simp

lemma fill_row_get:
  assumes "0 < n" "length px = unat n" "unat n * unat w \<le> 2 ^ 32"
  shows "fill_row n px start w m a = (if unat (a - start) < unat n * unat w then px ! (unat (a - start) mod unat n) else m a)"
proof -
  have n: "0 < unat n" using assms(1) by (simp add: word_gt_0 unat_gt_0)
  have "length px < 2 ^ 32" using assms(2) unsigned_less [of n] by simp
  then have "store_pixel (start + n * of_nat i) px m a = (if unat (a - (start + of_nat (unat n * i))) < unat n then px ! unat (a - (start + of_nat (unat n * i))) else m a)"
    for i m a by (simp add: store_pixel_get assms(2))
  then show ?thesis unfolding fill_row_def using blocks_get [where g = "\<lambda>i. store_pixel (start + n * of_nat i) px" and q = "unat n" and b = "unat n" and v = "(!) px"] n assms(3)
    by simp
qed

definition fill_rows :: "u32 \<Rightarrow> u8 list \<Rightarrow> u32 \<Rightarrow> nat \<Rightarrow> u32 \<Rightarrow> nat \<Rightarrow> bytes \<Rightarrow> bytes" where
  "fill_rows n px start q w h m = fold (\<lambda>y. fill_row n px (start + of_nat y * of_nat q) w) [0..<h] m"

lemma fill_rows_get:
  assumes "0 < n" "length px = unat n" "unat n * unat w \<le> q" "q * h \<le> 2 ^ 32" "q < 2 ^ 32" "0 < q"
  shows "fill_rows n px start q w h m a =
    (if unat (a - start) < q * h \<and> unat (a - start) mod q < unat n * unat w then px ! (unat (a - start) mod q mod unat n) else m a)"
  unfolding fill_rows_def
  using blocks_get [where g = "\<lambda>y. fill_row n px (start + of_nat y * of_nat q) w" and q = q and b = "unat n * unat w"
      and v = "\<lambda>u. px ! (u mod unat n)" and start = start and k = h and m = m and a = a] assms
  by (simp add: fill_row_get mult.commute)

subsection \<open>Filling a rectangle\<close>

lemma FillRect_rows:
  "FillRect d p r color m =
    (let c = Clip r (pbounds p); q = unat (pitch (pscreen p)) in
     fill_rows (step d) (pixel d color) (back_buffer (pscreen p) + of_nat (unat (rect_y c) * q + unat (rect_x c) * unat (step d))) q
       (rect_width c) (unat (rect_height c)) m)"
  by (simp add: FillRect_def fill_rows_def Let_def add.assoc flip: unsigned_ucast_eq)

lemma sint_of_nat: "k < 2 ^ 31 \<Longrightarrow> sint (of_nat k :: u32) = int k"
  by (simp add: sint_sbintrunc' signed_of_nat signed_take_bit_int_eq_self)

lemma column:
  fixes X W i n q cx w y :: nat
  assumes "X < W" "i < n" "W * n \<le> q" "cx + w \<le> W" "cx \<le> X"
  shows "(y * q + (X - cx) * n + i) div q = y" "(y * q + (X - cx) * n + i) mod q = (X - cx) * n + i"
    "(X - cx) * n + i < n * w \<longleftrightarrow> X < cx + w"
proof -
  have "(X - cx) * n + i < Suc (X - cx) * n" using assms(2) by simp
  also have "\<dots> \<le> W * n" using assms(1) by (intro mult_le_mono1) simp
  finally have "(X - cx) * n + i < q" using assms(3) by simp
  then show "(y * q + (X - cx) * n + i) div q = y" "(y * q + (X - cx) * n + i) mod q = (X - cx) * n + i" by (simp_all add: add.assoc)
  show "(X - cx) * n + i < n * w \<longleftrightarrow> X < cx + w"
  proof (cases "X - cx < w")
    case True
    have "(X - cx) * n + i < Suc (X - cx) * n" using assms(2) by simp
    also have "\<dots> \<le> w * n" using True by (intro mult_le_mono1) simp
    finally show ?thesis using True assms(5) by (simp add: mult.commute)
  next
    case False
    then have "n * w \<le> (X - cx) * n" by (subst mult.commute [of n w]) (intro mult_le_mono1, simp)
    then have "\<not> (X - cx) * n + i < n * w" by linarith
    then show ?thesis using False assms(5) by simp
  qed
qed

lemma left_of_column:
  fixes X W i n q cx w y :: nat
  assumes "X < W" "i < n" "W * n \<le> q" "cx + w \<le> W" "X < cx"
  shows "(Suc y * q + X * n + i - cx * n) mod q \<ge> n * w"
proof -
  have le: "cx * n + w * n \<le> q" using assms(3,4) by (metis add_mult_distrib le_trans mult_le_mono1)
  have "X * n + i < Suc X * n" using assms(2) by simp
  also have "\<dots> \<le> cx * n" using assms(5) by (intro mult_le_mono1) simp
  finally have small: "q + X * n + i - cx * n < q" using le by simp
  have "Suc y * q + X * n + i - cx * n = y * q + (q + X * n + i - cx * n)" using le by simp
  then have "(Suc y * q + X * n + i - cx * n) mod q = q + X * n + i - cx * n" using small by (simp only: mod_mult_self3 mod_less)
  then show ?thesis using le by (simp add: mult.commute)
qed

lemma rectangle_offset:
  fixes X Y W i n q cx cy w h :: nat
  assumes "X < W" "i < n" "W * n \<le> q" "cx + w \<le> W" and le: "cy * q + cx * n \<le> Y * q + X * n + i"
  defines "u \<equiv> Y * q + X * n + i - (cy * q + cx * n)"
  shows "u < q * h \<and> u mod q < n * w \<longleftrightarrow> cy \<le> Y \<and> Y < cy + h \<and> cx \<le> X \<and> X < cx + w"
    and "cx \<le> X \<Longrightarrow> u mod q mod n = i"
proof -
  have q: "0 < q" using assms(1-3) by (metis le_zero_eq mult_is_0 gr0I not_less_zero)
  have one: "X * n + i < q"
    using column(1) [of X W i n q 0 0 0] column(2) [of X W i n q 0 0 0] assms(1-3) q by (metis add_0 diff_zero le0 mod_less_divisor mult_0)
  have up: "cy \<le> Y"
  proof (rule ccontr)
    assume "\<not> cy \<le> Y"
    then have "Suc Y * q \<le> cy * q" by (intro mult_le_mono1) simp
    then show False using le one by simp
  qed
  have yq: "Y * q = cy * q + (Y - cy) * q" using up by (simp add: add_mult_distrib [symmetric])
  note col = column [OF assms(1-4)]
  have right: "u = (Y - cy) * q + (X - cx) * n + i" if "cx \<le> X"
  proof -
    have "X * n = cx * n + (X - cx) * n" using that by (simp add: add_mult_distrib [symmetric])
    then show ?thesis using yq unfolding u_def by linarith
  qed
  show "cx \<le> X \<Longrightarrow> u mod q mod n = i" using right col(2) assms(2) by simp
  show "u < q * h \<and> u mod q < n * w \<longleftrightarrow> cy \<le> Y \<and> Y < cy + h \<and> cx \<le> X \<and> X < cx + w"
  proof (cases "cx \<le> X")
    case True
    have "u < q * h \<longleftrightarrow> u div q < h" using q by (simp add: div_less_iff_less_mult mult.commute)
    moreover have "u div q = Y - cy" "u mod q < n * w \<longleftrightarrow> X < cx + w" unfolding right [OF True] col(2) [OF True] by (rule col(1,3) [OF True])+
    ultimately show ?thesis using up True by auto
  next
    case False
    have "0 < Y - cy"
    proof (rule ccontr)
      assume "\<not> 0 < Y - cy" then have "cx * n \<le> X * n + i" using le yq by simp
      moreover have "Suc X * n \<le> cx * n" using False by (intro mult_le_mono1) simp
      ultimately show False using assms(2) by simp
    qed
    then have "Y - cy = Suc (Y - cy - 1)" by simp
    then have "(Y - cy) * q = Suc (Y - cy - 1) * q" by (rule arg_cong)
    then have "u = Suc (Y - cy - 1) * q + X * n + i - cx * n" using yq unfolding u_def by linarith
    then show ?thesis using left_of_column [OF assms(1-4), of "Y - cy - 1"] False by simp
  qed
qed

text \<open>The bounds of the painter of the desktop are the screen. Clipping keeps what lies on it.\<close>

definition whole_screen :: "depth \<Rightarrow> nat \<Rightarrow> nat \<Rightarrow> painter \<Rightarrow> bool" where
  "whole_screen d W H p \<longleftrightarrow> pbounds p = Rect 0 0 (of_nat W) (of_nat H) \<and> 0 < W \<and> W < 2 ^ 16 \<and> H < 2 ^ 16 \<and>
     W * unat (step d) \<le> unat (pitch (pscreen p)) \<and> Suc H * unat (pitch (pscreen p)) + unat (step d) \<le> 2 ^ 32"

definition on_screen :: "nat \<Rightarrow> u32 \<Rightarrow> nat" where
  "on_screen W x = nat (max 0 (min (int W) (sint x)))"

lemma on_screen_le: "on_screen W x \<le> W"
  by (simp add: on_screen_def)

lemma clamp_on_screen: "W < 2 ^ 31 \<Longrightarrow> clamp x 0 (of_nat W) = of_nat (on_screen W x)"
proof -
  assume W: "W < 2 ^ 31"
  consider "sint x < 0" | "sint x > int W" | "0 \<le> sint x" "sint x \<le> int W" by linarith
  then show ?thesis
  proof cases
    case 3
    then have "of_nat (on_screen W x) = (of_int (sint x) :: u32)" by (simp add: on_screen_def)
    then show ?thesis using 3 by (simp add: clamp_def sint_of_nat [OF W])
  qed (simp_all add: clamp_def on_screen_def sint_of_nat [OF W])
qed

lemma on_screen_between:
  "X < W \<Longrightarrow> on_screen W x \<le> X \<and> X < on_screen W x' \<longleftrightarrow> sint x \<le> int X \<and> int X < sint x'"
  by (auto simp: on_screen_def max_def min_def)

lemma on_screen_mono: "sint x \<le> sint x' \<Longrightarrow> on_screen W x \<le> on_screen W x'"
  by (auto simp: on_screen_def)

lemma Clip_screen:
  assumes "W < 2 ^ 16" "H < 2 ^ 16" "proper r"
  defines "c \<equiv> Clip r (Rect 0 0 (of_nat W) (of_nat H))"
  shows "unat (rect_x c) = on_screen W (rect_x r)" "unat (rect_y c) = on_screen H (rect_y r)"
    "unat (rect_x c) + unat (rect_width c) = on_screen W (rect_x2 r)" "unat (rect_y c) + unat (rect_height c) = on_screen H (rect_y2 r)"
proof -
  have w: "unat (of_nat k :: u32) = k" if "k < 2 ^ 16" for k using that by (simp add: unat_of_nat take_bit_nat_eq_self)
  have b: "on_screen W x < 2 ^ 16" "on_screen H x < 2 ^ 16" for x using on_screen_le [of W x] on_screen_le [of H x] assms(1,2) by simp_all
  have sub: "i + unat (of_nat j - of_nat i :: u32) = j" if "i \<le> j" "j < 2 ^ 16" for i j
    using that by (metis add_diff_inverse_nat less_le_trans linorder_not_le of_nat_diff order_le_less_trans diff_le_self w)
  have c: "c = Rect (of_nat (on_screen W (rect_x r))) (of_nat (on_screen H (rect_y r)))
      (of_nat (on_screen W (rect_x2 r)) - of_nat (on_screen W (rect_x r))) (of_nat (on_screen H (rect_y2 r)) - of_nat (on_screen H (rect_y r)))"
    using assms(1,2) by (simp add: c_def Clip_def Rect_def clamp_on_screen Let_def)
  show "unat (rect_x c) = on_screen W (rect_x r)" "unat (rect_y c) = on_screen H (rect_y r)"
    by (simp_all only: c Rect_def rect.simps w [OF b(1)] w [OF b(2)])
  show "unat (rect_x c) + unat (rect_width c) = on_screen W (rect_x2 r)" "unat (rect_y c) + unat (rect_height c) = on_screen H (rect_y2 r)"
    using assms(3) by (simp_all only: c Rect_def rect.simps w [OF b(1)] w [OF b(2)] sub [OF _ b(1)] sub [OF _ b(2)] on_screen_mono proper_def)
qed

text \<open>Rows of pixels from column \<open>cx\<close> and row \<open>cy\<close> of a buffer at \<open>B\<close> on.\<close>

lemma fill_rows_offset:
  fixes a B :: u32 and cx cy W H q :: nat and d :: depth
  defines "n \<equiv> unat (step d)"
  assumes px: "length px = n" and wn: "W * n \<le> q" and W: "0 < W" and hq: "Suc H * q \<le> 2 ^ 32" and qs: "q < 2 ^ 32"
    and cx: "cx + unat w \<le> W" and cy: "cy + h \<le> H"
  defines "u \<equiv> unat (a - B)" and "Q \<equiv> cy * q + cx * n"
  shows "fill_rows (step d) px (B + of_nat Q) q w h m a =
    (if Q \<le> u \<and> u - Q < q * h \<and> (u - Q) mod q < n * unat w then px ! ((u - Q) mod q mod n) else m a)"
proof -
  have n: "0 < n" "0 < step d" unfolding n_def by (cases d; simp)+
  have q: "0 < q" using wn W n by (auto intro: gr0I)
  have width: "n * unat w \<le> q" using cx wn by (metis add_leD2 le_trans mult.commute mult_le_mono1)
  have "cx * n \<le> q" using cx wn by (metis add_leD1 le_trans mult_le_mono1)
  then have "Q + q * h \<le> (cy + h) * q + q" by (simp add: Q_def algebra_simps)
  also have "\<dots> \<le> Suc H * q" using mult_le_mono1 [OF cy, of q] by simp
  finally have fit: "Q + q * h \<le> 2 ^ 32" and fit': "q * h \<le> 2 ^ 32" using hq by linarith+
  have eq: "a - (B + of_nat Q) = (a - B) - of_nat Q" by simp
  have "fill_rows (step d) px (B + of_nat Q) q w h m a =
      (if (Q \<le> u \<and> u < Q + q * h) \<and> unat (a - B - of_nat Q) mod q < n * unat w then px ! (unat (a - B - of_nat Q) mod q mod n) else m a)"
    unfolding u_def using fill_rows_get [OF n(2) px [unfolded n_def] width [unfolded n_def] fit' qs q, folded n_def, unfolded eq unat_diff_less [OF fit]]
    by (simp only: eq unat_diff_less [OF fit])
  also have "\<dots> = (if Q \<le> u \<and> u - Q < q * h \<and> (u - Q) mod q < n * unat w then px ! ((u - Q) mod q mod n) else m a)"
  proof (cases "Q \<le> u")
    case True then show ?thesis using unat_diff_of_nat [of Q "a - B"] by (simp add: u_def less_diff_conv2 add.commute)
  qed simp
  finally show ?thesis .
qed

lemma fill_rows_pixels:
  fixes a B :: u32 and cx cy W H q :: nat and d :: depth
  defines "n \<equiv> unat (step d)" and "Q \<equiv> cy * q + cx * unat (step d)"
  assumes px: "length px = n" and wn: "W * n \<le> q" and W: "0 < W" and hq: "Suc H * q \<le> 2 ^ 32" and qs: "q < 2 ^ 32"
    and cx: "cx + unat w \<le> W" and cy: "cy + h \<le> H"
  shows "X < W \<Longrightarrow> Y < H \<Longrightarrow> i < n \<Longrightarrow> fill_rows (step d) px (B + of_nat Q) q w h m (B + of_nat (Y * q + X * n + i)) =
      (if cx \<le> X \<and> X < cx + unat w \<and> cy \<le> Y \<and> Y < cy + h then px ! i else m (B + of_nat (Y * q + X * n + i)))"
    and "H * q \<le> unat (a - B) \<Longrightarrow> fill_rows (step d) px (B + of_nat Q) q w h m a = m a"
proof -
  note get = fill_rows_offset [OF px [unfolded n_def] wn [unfolded n_def] W hq qs cx cy, folded n_def, folded Q_def [folded n_def]]
  show "fill_rows (step d) px (B + of_nat Q) q w h m a = m a" if "H * q \<le> unat (a - B)"
  proof -
    let ?u = "unat (a - B)"
    have "\<not> (Q \<le> ?u \<and> ?u - Q < q * h \<and> (?u - Q) mod q < n * unat w)"
    proof
      assume u: "Q \<le> ?u \<and> ?u - Q < q * h \<and> (?u - Q) mod q < n * unat w"
      then have "(?u - Q) div q < h" by (metis less_mult_imp_div_less mult.commute)
      then have "Suc (cy + (?u - Q) div q) * q \<le> H * q" using cy by (intro mult_le_mono1) simp
      moreover have "cx * n + n * unat w \<le> q" using le_trans [OF mult_le_mono1 [OF cx, of n] wn] by (simp add: algebra_simps)
      moreover have "?u = Q + (?u - Q) div q * q + (?u - Q) mod q" using u by simp
      ultimately show False using u that unfolding Q_def n_def [symmetric] by (simp add: add_mult_distrib)
    qed
    then show ?thesis unfolding get by (rule if_not_P)
  qed
  show "fill_rows (step d) px (B + of_nat Q) q w h m (B + of_nat (Y * q + X * n + i)) =
      (if cx \<le> X \<and> X < cx + unat w \<and> cy \<le> Y \<and> Y < cy + h then px ! i else m (B + of_nat (Y * q + X * n + i)))"
    if XY: "X < W" "Y < H" "i < n"
  proof -
    let ?A = "Y * q + X * n + i"
    have "X * n + i < Suc X * n" using XY(3) by simp
    also have "\<dots> \<le> W * n" using XY(1) by (intro mult_le_mono1) simp
    finally have "?A < Suc Y * q" using wn by simp
    also have "\<dots> \<le> H * q" using XY(2) by (intro mult_le_mono1) simp
    finally have "?A < 2 ^ 32" using hq by simp
    then have A: "unat (B + of_nat ?A - B) = ?A" by (simp only: add_diff_cancel_left' unat_of_nat_small)
    note off = rectangle_offset(1) [OF XY(1,3) wn cx, where cy = cy and Y = Y and h = h, folded Q_def [folded n_def]]
      rectangle_offset(2) [OF XY(1,3) wn cx, where cy = cy and Y = Y, folded Q_def [folded n_def]]
    have le: "Q \<le> ?A" if "cy \<le> Y" "cx \<le> X"
      unfolding Q_def n_def [symmetric] using mult_le_mono1 [OF that(1), of q] mult_le_mono1 [OF that(2), of n] by linarith
    have cond: "Q \<le> ?A \<and> ?A - Q < q * h \<and> (?A - Q) mod q < n * unat w \<longleftrightarrow> cx \<le> X \<and> X < cx + unat w \<and> cy \<le> Y \<and> Y < cy + h"
    proof (cases "Q \<le> ?A")
      case True then show ?thesis using off(1) [OF True] by blast
    qed (use le in blast)
    have same: "(?A - Q) mod q mod n = i" if "cx \<le> X" "cy \<le> Y" using off(2) [OF le [OF that(2,1)] that(1)] .
    show ?thesis unfolding get A cond by (rule if_cong) (use same in auto)
  qed
qed

text \<open>Where byte \<open>i\<close> of the pixel in column \<open>X\<close> and row \<open>Y\<close> of the buffer at \<open>B\<close> is.\<close>

definition byte_at :: "depth \<Rightarrow> painter \<Rightarrow> u32 \<Rightarrow> nat \<Rightarrow> nat \<Rightarrow> nat \<Rightarrow> u32" where
  "byte_at d p B X Y i = B + of_nat (Y * unat (pitch (pscreen p)) + X * unat (step d) + i)"

definition vga_screen :: screen_info where
  "vga_screen = \<lparr>frame_buffer = 0xC4000000, back_buffer = 0x01000000, swidth = 640, sheight = 480, bpp = 32, pitch = 2560, screen_size = 1228800\<rparr>"

definition vga :: painter where
  "vga = \<lparr>pscreen = vga_screen, pbounds = Rect 0 0 640 480\<rparr>"

lemma vga_whole: "whole_screen Depth32 640 480 vga"
  by (simp add: whole_screen_def vga_def vga_screen_def)

lemma fill_rect_pixels:
  assumes "whole_screen d W H p" and "proper r"
  shows "X < W \<Longrightarrow> Y < H \<Longrightarrow> i < unat (step d) \<Longrightarrow>
      FillRect d p r color m (back_buffer (pscreen p) + of_nat (Y * unat (pitch (pscreen p)) + X * unat (step d) + i)) =
      (if sint (rect_x r) \<le> int X \<and> int X < sint (rect_x2 r) \<and> sint (rect_y r) \<le> int Y \<and> int Y < sint (rect_y2 r) then pixel d color ! i
       else m (back_buffer (pscreen p) + of_nat (Y * unat (pitch (pscreen p)) + X * unat (step d) + i)))"
    and "H * unat (pitch (pscreen p)) \<le> unat (a - back_buffer (pscreen p)) \<Longrightarrow> FillRect d p r color m a = m a"
proof -
  let ?q = "unat (pitch (pscreen p))" and ?c = "Clip r (pbounds p)"
  have s: "W * unat (step d) \<le> ?q" "0 < W" "Suc H * ?q \<le> 2 ^ 32" "?q < 2 ^ 32" and b: "pbounds p = Rect 0 0 (of_nat W) (of_nat H)" "W < 2 ^ 16" "H < 2 ^ 16"
    using assms(1) unsigned_less [where ?'a = nat and w = "pitch (pscreen p)"] by (simp_all add: whole_screen_def)
  note clip = Clip_screen [OF b(2,3) assms(2), folded b(1)]
  have cc: "unat (rect_x ?c) + unat (rect_width ?c) \<le> W" "unat (rect_y ?c) + unat (rect_height ?c) \<le> H"
    using clip on_screen_le by simp_all
  note rows = fill_rows_pixels [OF length_pixel s cc]
  show "FillRect d p r color m a = m a" if "H * ?q \<le> unat (a - back_buffer (pscreen p))"
    unfolding FillRect_rows Let_def by (rule rows(2) [OF that])
  show "FillRect d p r color m (back_buffer (pscreen p) + of_nat (Y * ?q + X * unat (step d) + i)) =
      (if sint (rect_x r) \<le> int X \<and> int X < sint (rect_x2 r) \<and> sint (rect_y r) \<le> int Y \<and> int Y < sint (rect_y2 r) then pixel d color ! i
       else m (back_buffer (pscreen p) + of_nat (Y * ?q + X * unat (step d) + i)))"
    if XY: "X < W" "Y < H" "i < unat (step d)"
    unfolding FillRect_rows Let_def rows(1) [OF XY]
    unfolding clip(3,4)
    unfolding clip(1,2)
    using on_screen_between [OF XY(1), of "rect_x r" "rect_x2 r"] on_screen_between [OF XY(2), of "rect_y r" "rect_y2 r"]
    by (simp only: flip: conj_assoc)
qed

text \<open>
  C19: filling a rectangle changes exactly the pixels of the screen whose column and row lie between its borders, the right one and the
  lower one excluded; nothing behind the screen is changed
\<close>

theorem fill_rect_correct:
  assumes "whole_screen d W H p" and "proper r"
  shows "(\<forall>X Y i. X < W \<and> Y < H \<and> i < unat (step d) \<longrightarrow>
      FillRect d p r color m (byte_at d p (back_buffer (pscreen p)) X Y i) =
      (if sint (rect_x r) \<le> int X \<and> int X < sint (rect_x2 r) \<and> sint (rect_y r) \<le> int Y \<and> int Y < sint (rect_y2 r) then pixel d color ! i
       else m (byte_at d p (back_buffer (pscreen p)) X Y i))) \<and>
    (\<forall>a. H * unat (pitch (pscreen p)) \<le> unat (a - back_buffer (pscreen p)) \<longrightarrow> FillRect d p r color m a = m a)"
  using fill_rect_pixels [OF assms] unfolding byte_at_def by blast

theorem fill_rect_correct_witness:
  "FillRect Depth32 vga (Rect 600 10 100 20) 0x6490A7 (\<lambda>_. 7) (byte_at Depth32 vga 0x01000000 639 10 2) = 0x64 \<and>
   FillRect Depth32 vga (Rect 600 10 100 20) 0x6490A7 (\<lambda>_. 7) (byte_at Depth32 vga 0x01000000 639 30 2) = 7 \<and>
   FillRect Depth32 vga (Rect 600 10 100 20) 0x6490A7 (\<lambda>_. 7) 0x02000000 = 7"
proof -
  have r: "proper (Rect 600 10 100 20)" by code_simp
  note c = fill_rect_correct [OF vga_whole r, where color = "0x6490A7" and m = "\<lambda>_. 7"]
  have "FillRect Depth32 vga (Rect 600 10 100 20) 0x6490A7 (\<lambda>_. 7) (byte_at Depth32 vga 0x01000000 639 10 2) = 0x64"
    using conjunct1 [OF c, rule_format, of 639 10 2] by (simp add: vga_def vga_screen_def Rect_def colors_def)
  moreover have "FillRect Depth32 vga (Rect 600 10 100 20) 0x6490A7 (\<lambda>_. 7) (byte_at Depth32 vga 0x01000000 639 30 2) = 7"
    using conjunct1 [OF c, rule_format, of 639 30 2] by (simp add: vga_def vga_screen_def Rect_def)
  moreover have "FillRect Depth32 vga (Rect 600 10 100 20) 0x6490A7 (\<lambda>_. 7) 0x02000000 = 7"
    using conjunct2 [OF c, rule_format, of "0x02000000"] by (simp add: vga_def vga_screen_def)
  ultimately show ?thesis by simp
qed

text \<open>The pointer of the mouse is a square of 8 pixels, moved to where it fits on the screen.\<close>

lemma length_cursor_pixel [simp]: "length (cursor_pixel d) = unat (step d)"
  by (cases d) simp_all

lemma DrawCursor_rows:
  assumes "whole_screen d W H p" and "8 \<le> W" and "8 \<le> H"
  shows "DrawCursor d p mx my m = fill_rows (step d) (cursor_pixel d)
    (frame_buffer (pscreen p) + of_nat (on_screen (H - 8) my * unat (pitch (pscreen p)) + on_screen (W - 8) mx * unat (step d))) (unat (pitch (pscreen p))) 8 8 m"
proof -
  have b: "pbounds p = Rect 0 0 (of_nat W) (of_nat H)" "W < 2 ^ 16" "H < 2 ^ 16" using assms(1) by (simp_all add: whole_screen_def)
  have "clamp mx 0 (of_nat W - 8) = of_nat (on_screen (W - 8) mx)" "clamp my 0 (of_nat H - 8) = of_nat (on_screen (H - 8) my)"
    using b assms(2,3) clamp_on_screen [of "W - 8" mx] clamp_on_screen [of "H - 8" my] by (simp_all add: of_nat_diff)
  then show ?thesis by (simp add: DrawCursor_def b Rect_def Let_def fill_rows_def add.assoc flip: unsigned_ucast_eq)
qed

lemma cursor_pixels:
  assumes "whole_screen d W H p" and "8 \<le> W" and "8 \<le> H"
  shows "X < W \<Longrightarrow> Y < H \<Longrightarrow> i < unat (step d) \<Longrightarrow>
      DrawCursor d p mx my m (frame_buffer (pscreen p) + of_nat (Y * unat (pitch (pscreen p)) + X * unat (step d) + i)) =
      (if X - on_screen (W - 8) mx < 8 \<and> on_screen (W - 8) mx \<le> X \<and> Y - on_screen (H - 8) my < 8 \<and> on_screen (H - 8) my \<le> Y then cursor_pixel d ! i
       else m (frame_buffer (pscreen p) + of_nat (Y * unat (pitch (pscreen p)) + X * unat (step d) + i)))"
    and "H * unat (pitch (pscreen p)) \<le> unat (a - frame_buffer (pscreen p)) \<Longrightarrow> DrawCursor d p mx my m a = m a"
proof -
  let ?q = "unat (pitch (pscreen p))"
  have s: "W * unat (step d) \<le> ?q" "0 < W" "Suc H * ?q \<le> 2 ^ 32" "?q < 2 ^ 32"
    using assms(1) unsigned_less [where ?'a = nat and w = "pitch (pscreen p)"] by (simp_all add: whole_screen_def)
  have "on_screen (W - 8) mx + unat (8 :: u32) \<le> W" "on_screen (H - 8) my + 8 \<le> H"
    using on_screen_le [of "W - 8" mx] on_screen_le [of "H - 8" my] assms(2,3) by simp_all
  note rows = fill_rows_pixels [OF length_cursor_pixel s this]
  show "DrawCursor d p mx my m a = m a" if "H * ?q \<le> unat (a - frame_buffer (pscreen p))"
    unfolding DrawCursor_rows [OF assms] by (rule rows(2) [OF that])
  show "DrawCursor d p mx my m (frame_buffer (pscreen p) + of_nat (Y * ?q + X * unat (step d) + i)) =
      (if X - on_screen (W - 8) mx < 8 \<and> on_screen (W - 8) mx \<le> X \<and> Y - on_screen (H - 8) my < 8 \<and> on_screen (H - 8) my \<le> Y then cursor_pixel d ! i
       else m (frame_buffer (pscreen p) + of_nat (Y * ?q + X * unat (step d) + i)))"
    if XY: "X < W" "Y < H" "i < unat (step d)"
    unfolding DrawCursor_rows [OF assms] rows(1) [OF XY] by auto
qed

text \<open>
  The pointer of the mouse is drawn as a square of eight by eight pixels of the frame buffer that lies on the screen wherever the
  mouse is, and nothing else of the memory is changed by it
\<close>

theorem cursor_correct:
  assumes "whole_screen d W H p" and "8 \<le> W" and "8 \<le> H"
  shows "(\<forall>X Y i. X < W \<and> Y < H \<and> i < unat (step d) \<longrightarrow>
      DrawCursor d p mx my m (byte_at d p (frame_buffer (pscreen p)) X Y i) =
      (if X - on_screen (W - 8) mx < 8 \<and> on_screen (W - 8) mx \<le> X \<and> Y - on_screen (H - 8) my < 8 \<and> on_screen (H - 8) my \<le> Y then cursor_pixel d ! i
       else m (byte_at d p (frame_buffer (pscreen p)) X Y i))) \<and>
    (\<forall>a. H * unat (pitch (pscreen p)) \<le> unat (a - frame_buffer (pscreen p)) \<longrightarrow> DrawCursor d p mx my m a = m a)"
  using cursor_pixels [OF assms] unfolding byte_at_def by blast

theorem cursor_correct_witness:
  "DrawCursor Depth32 vga 700 3 (\<lambda>_. 7) (byte_at Depth32 vga 0xC4000000 633 5 0) = 0xFF \<and>
   DrawCursor Depth32 vga 700 3 (\<lambda>_. 7) 0x02000000 = 7"
proof -
  note c = cursor_correct [OF vga_whole, where mx = 700 and my = 3 and m = "\<lambda>_. 7", simplified]
  have "DrawCursor Depth32 vga 700 3 (\<lambda>_. 7) (byte_at Depth32 vga 0xC4000000 633 5 0) = 0xFF"
    using conjunct1 [OF c, rule_format, of 633 5 0] by (simp add: vga_def vga_screen_def on_screen_def)
  moreover have "DrawCursor Depth32 vga 700 3 (\<lambda>_. 7) 0x02000000 = 7"
    using conjunct2 [OF c, rule_format, of "0x02000000"] by (simp add: vga_def vga_screen_def)
  ultimately show ?thesis by simp
qed

subsection \<open>Filling the screen\<close>

lemma fill_loop_row:
  assumes "0 < n"
  shows "unat n * Suc k < 2 ^ 32 \<Longrightarrow> fill_loop n px (n * of_nat (Suc k)) dest m = Some (fold (\<lambda>i. store_pixel (dest + n * of_nat i) px) [0..<k] m)"
proof (induction k arbitrary: dest m)
  case (Suc k)
  have "unat (n * of_nat (Suc k)) = unat n * Suc k"
    using Suc.prems unat_of_nat_small [of "unat n * Suc k"] by (simp add: algebra_simps)
  then have ne: "n * of_nat (Suc k) \<noteq> 0" using assms by (metis mult_is_0 nat.distinct(1) unat_0 unat_eq_zero word_gt_0)
  have "fill_loop n px (n * of_nat (Suc (Suc k))) dest m = fill_loop n px (n * of_nat (Suc k)) (dest + n) (store_pixel dest px m)"
    using ne by (subst fill_loop.simps) (simp add: Let_def algebra_simps)
  also have "\<dots> = Some (fold (\<lambda>i. store_pixel (dest + n + n * of_nat i) px) [0..<k] (store_pixel dest px m))"
    using Suc.prems by (intro Suc.IH) simp
  also have "fold (\<lambda>i. store_pixel (dest + n + n * of_nat i) px) [0..<k] (store_pixel dest px m) =
      fold (\<lambda>i. store_pixel (dest + n * of_nat i) px) (0 # map Suc [0..<k]) m"
    by (simp add: fold_map comp_def algebra_simps)
  also have "0 # map Suc [0..<k] = [0..<Suc k]" by (simp add: map_Suc_upt upt_conv_Cons del: upt_Suc)
  finally show ?case .
qed (subst fill_loop.simps, simp)

lemma mod_4_sub: "unat (num - 4 :: u32) mod 4 = unat num mod 4"
proof (cases "4 \<le> num")
  case True
  then show ?thesis using unat_sub [OF True] le_mod_geq [of 4 "unat num"] by (simp add: word_le_nat_alt)
next
  case False
  then have "unat num = 0 \<or> unat num = 1 \<or> unat num = 2 \<or> unat num = 3" by (simp add: word_le_nat_alt) linarith
  then have "num = 0 \<or> num = 1 \<or> num = 2 \<or> num = 3" by (auto simp: word_unat_eq_iff)
  then show ?thesis by (auto simp: unsigned_minus_1_eq_mask mask_eq_exp_minus_1)
qed

lemma fill_loop_divides:
  assumes "fill_loop 4 px num dest m = Some r" shows "unat num mod 4 = 0"
proof -
  have "n = 4 \<longrightarrow> unat num mod 4 = 0" if "fill_loop n px num dest m = Some r" for n
    by (rule fill_loop.raw_induct [where P = "\<lambda>n _ num _ _ _. n = 4 \<longrightarrow> unat num mod 4 = 0", OF _ that])
      (auto simp: Let_def split: if_splits, metis mod_4_sub)
  then show ?thesis using assms by simp
qed

lemma fill_cases:
  shows "unat (screen_size (pscreen p)) = unat (step d) * Suc k \<Longrightarrow>
      \<exists>m'. Fill d p color m = Some m' \<and> (\<forall>a. m' a = (if unat (a - back_buffer (pscreen p)) < unat (step d) * k
        then pixel d color ! (unat (a - back_buffer (pscreen p)) mod unat (step d)) else m a))"
    and "unat (screen_size (pscreen p)) mod 4 \<noteq> 0 \<Longrightarrow> Fill Depth32 p color m = None"
proof -
  have n: "0 < step d" "unat (step d) \<le> 4" by (cases d; simp)+
  show "\<exists>m'. Fill d p color m = Some m' \<and> (\<forall>a. m' a = (if unat (a - back_buffer (pscreen p)) < unat (step d) * k
        then pixel d color ! (unat (a - back_buffer (pscreen p)) mod unat (step d)) else m a))"
    if s: "unat (screen_size (pscreen p)) = unat (step d) * Suc k"
  proof -
    have small: "unat (step d) * Suc k < 2 ^ 32" using s unsigned_less [where ?'a = nat and w = "screen_size (pscreen p)"] by simp
    have "screen_size (pscreen p) = of_nat (unat (step d) * Suc k)" unfolding s [symmetric] by simp
    then have size: "screen_size (pscreen p) = step d * of_nat (Suc k)" by (simp add: algebra_simps)
    have "0 < unat (step d)" by (cases d) simp_all
    then have "Suc k \<le> unat (step d) * Suc k" using mult_le_mono1 [of 1 "unat (step d)" "Suc k"] by simp
    then have k: "unat (of_nat k :: u32) = k" using small by (intro unat_of_nat_small) simp
    have "Fill d p color m = Some (fill_row (step d) (pixel d color) (back_buffer (pscreen p)) (of_nat k) m)"
      using fill_loop_row [OF n(1) small] by (simp add: Fill_def size fill_row_def k)
    then show ?thesis using fill_row_get [OF n(1) length_pixel [of d color], where w = "of_nat k" and start = "back_buffer (pscreen p)" and m = m] small by (simp add: k)
  qed
  show "Fill Depth32 p color m = None" if "unat (screen_size (pscreen p)) mod 4 \<noteq> 0"
    using that fill_loop_divides [of _ "screen_size (pscreen p)"] by (cases "Fill Depth32 p color m") (auto simp: Fill_def)
qed

text \<open>
  Filling a screen colours every pixel but the last one, which it leaves as it was; with four bytes to a pixel and a size that four
  does not divide it never ends
\<close>

theorem fill_correct:
  "(unat (screen_size (pscreen p)) = unat (step d) * Suc k \<longrightarrow>
      (\<exists>m'. Fill d p color m = Some m' \<and> (\<forall>a. m' a = (if unat (a - back_buffer (pscreen p)) < unat (step d) * k
        then pixel d color ! (unat (a - back_buffer (pscreen p)) mod unat (step d)) else m a)))) \<and>
   (unat (screen_size (pscreen p)) mod 4 \<noteq> 0 \<longrightarrow> Fill Depth32 p color m = None)"
  using fill_cases by blast

theorem fill_correct_witness:
  "(\<exists>m'. Fill Depth32 vga 0x6490A7 (\<lambda>_. 7) = Some m' \<and> m' 0x01000001 = 0x90 \<and> m' (0x01000000 + 1228796) = 7) \<and>
   Fill Depth32 (vga\<lparr>pscreen := vga_screen\<lparr>screen_size := 1228802\<rparr>\<rparr>) 0 (\<lambda>_. 7) = None"
proof
  have "unat (screen_size (pscreen vga)) = unat (step Depth32) * Suc 307199" by (simp add: vga_def vga_screen_def)
  from conjunct1 [OF fill_correct, rule_format, OF this, where color = "0x6490A7" and m = "\<lambda>_. 7"] obtain m' where "Fill Depth32 vga 0x6490A7 (\<lambda>_. 7) = Some m'"
    and m': "\<And>a. m' a = (if unat (a - 0x01000000) < 1228796 then pixel Depth32 0x6490A7 ! (unat (a - 0x01000000) mod 4) else 7)"
    by (auto simp: vga_def vga_screen_def)
  then show "\<exists>m'. Fill Depth32 vga 0x6490A7 (\<lambda>_. 7) = Some m' \<and> m' 0x01000001 = 0x90 \<and> m' (0x01000000 + 1228796) = 7"
    by (intro exI [of _ m']) (simp add: m' colors_def)
  show "Fill Depth32 (vga\<lparr>pscreen := vga_screen\<lparr>screen_size := 1228802\<rparr>\<rparr>) 0 (\<lambda>_. 7) = None"
    by (rule conjunct2 [OF fill_correct, rule_format]) (simp add: vga_def vga_screen_def)
qed

subsection \<open>Single pixels and letters\<close>

lemma SetPixel_screen:
  assumes "whole_screen d W H p"
  shows "SetPixel d p x y color m =
    (if 0 \<le> sint x \<and> sint x \<le> int W \<and> 0 \<le> sint y \<and> sint y \<le> int H
     then store_pixel (back_buffer (pscreen p) + of_nat (nat (sint y) * unat (pitch (pscreen p)) + nat (sint x) * unat (step d))) (pixel d color) m else m)"
proof -
  have b: "pbounds p = Rect 0 0 (of_nat W) (of_nat H)" "W < 2 ^ 31" "H < 2 ^ 31" using assms by (simp_all add: whole_screen_def)
  have pos: "of_nat (nat (sint z)) = z" if "0 \<le> sint z" for z :: u32
  proof -
    have "of_nat (nat (sint z)) = (of_int (sint z) :: u32)" using that by simp
    then show ?thesis by simp
  qed
  show ?thesis
  proof (cases "0 \<le> sint x \<and> sint x \<le> int W \<and> 0 \<le> sint y \<and> sint y \<le> int H")
    case True
    then have "of_nat (nat (sint y) * unat (pitch (pscreen p)) + nat (sint x) * unat (step d)) = y * ucast (pitch (pscreen p)) + x * step d"
      by (simp add: pos flip: unsigned_ucast_eq)
    then show ?thesis using True b by (simp add: SetPixel_def Rect_def rect_contains_def Let_def sint_of_nat add.assoc)
  qed (use b in \<open>auto simp: SetPixel_def Rect_def rect_contains_def Let_def sint_of_nat\<close>)
qed

lemma set_pixel_border_cases:
  assumes "whole_screen d W H p"
  shows "W * unat (step d) = unat (pitch (pscreen p)) \<Longrightarrow> Y < H \<Longrightarrow>
      SetPixel d p (of_nat W) (of_nat Y) color m = SetPixel d p 0 (of_nat (Suc Y)) color m"
    and "X < W \<Longrightarrow> i < unat (step d) \<Longrightarrow>
      SetPixel d p (of_nat X) (of_nat H) color m (back_buffer (pscreen p) + of_nat (H * unat (pitch (pscreen p)) + X * unat (step d) + i)) = pixel d color ! i"
proof -
  have b: "W < 2 ^ 31" "H < 2 ^ 31" using assms by (simp_all add: whole_screen_def)
  show "SetPixel d p (of_nat W) (of_nat Y) color m = SetPixel d p 0 (of_nat (Suc Y)) color m"
    if "W * unat (step d) = unat (pitch (pscreen p))" "Y < H"
  proof -
    have "sint (of_nat (Suc Y) :: u32) = int (Suc Y)" using that b by (intro sint_of_nat) simp
    then show ?thesis unfolding SetPixel_screen [OF assms] using that b by (simp add: sint_of_nat del: of_nat_Suc of_nat_add) (simp add: algebra_simps nat_add_distrib)
  qed
  show "SetPixel d p (of_nat X) (of_nat H) color m (back_buffer (pscreen p) + of_nat (H * unat (pitch (pscreen p)) + X * unat (step d) + i)) = pixel d color ! i"
    if "X < W" "i < unat (step d)"
  proof -
    have "unat (step d) \<le> 4" by (cases d) simp_all
    then show ?thesis unfolding SetPixel_screen [OF assms] using that b
      by (simp add: sint_of_nat store_pixel_get unat_of_nat_small)
  qed
qed

text \<open>
  The row below the screen and the column right of it pass the test of the painter: a pixel in the column goes to the start of the next
  row when the rows follow each other closely, and one in the row to memory behind the screen
\<close>

theorem set_pixel_borders:
  assumes "whole_screen d W H p"
  shows "(W * unat (step d) = unat (pitch (pscreen p)) \<longrightarrow> (\<forall>Y. Y < H \<longrightarrow>
      SetPixel d p (of_nat W) (of_nat Y) color m = SetPixel d p 0 (of_nat (Suc Y)) color m)) \<and>
    (\<forall>X i. X < W \<and> i < unat (step d) \<longrightarrow>
      SetPixel d p (of_nat X) (of_nat H) color m (byte_at d p (back_buffer (pscreen p)) X H i) = pixel d color ! i)"
  using set_pixel_border_cases [OF assms] unfolding byte_at_def by blast

theorem set_pixel_borders_witness:
  "SetPixel Depth32 vga (of_nat 640) (of_nat 7) 9 (\<lambda>_. 7) = SetPixel Depth32 vga 0 (of_nat (Suc 7)) 9 (\<lambda>_. 7) \<and>
   SetPixel Depth32 vga (of_nat 5) (of_nat 480) 0x1234 (\<lambda>_. 7) (byte_at Depth32 vga 0x01000000 5 480 1) = 0x12"
proof
  note s = set_pixel_borders [OF vga_whole, where m = "\<lambda>_. 7"]
  show "SetPixel Depth32 vga (of_nat 640) (of_nat 7) 9 (\<lambda>_. 7) = SetPixel Depth32 vga 0 (of_nat (Suc 7)) 9 (\<lambda>_. 7)"
    by (rule conjunct1 [OF s, rule_format]) (simp_all add: vga_def vga_screen_def)
  show "SetPixel Depth32 vga (of_nat 5) (of_nat 480) 0x1234 (\<lambda>_. 7) (byte_at Depth32 vga 0x01000000 5 480 1) = 0x12"
    using conjunct2 [OF s, rule_format, of 5 1 "0x1234"] by (simp add: vga_def vga_screen_def colors_def)
qed

text \<open>What a letter changes lies in the buffer or is a pixel of the row below it.\<close>

definition stays :: "depth \<Rightarrow> nat \<Rightarrow> nat \<Rightarrow> painter \<Rightarrow> (bytes \<Rightarrow> bytes) \<Rightarrow> bool" where
  "stays d W H p f \<longleftrightarrow> (\<forall>m a. H * unat (pitch (pscreen p)) + Suc W * unat (step d) \<le> unat (a - back_buffer (pscreen p)) \<longrightarrow> f m a = m a)"

lemma stays_fold: "(\<And>x. stays d W H p (f x)) \<Longrightarrow> stays d W H p (fold f xs)"
proof (induction xs)
  case (Cons x xs)
  then have "stays d W H p (f x)" "stays d W H p (fold f xs)" by simp_all
  then show ?case by (simp add: stays_def)
qed (simp add: stays_def)

lemma stays_if: "stays d W H p f \<Longrightarrow> stays d W H p (\<lambda>m. if b then f m else m)"
  by (simp add: stays_def)

lemma stays_unless: "stays d W H p f \<Longrightarrow> stays d W H p (\<lambda>m. if b then m else f m)"
  by (simp add: stays_def)

lemma stays_SetPixel:
  assumes "whole_screen d W H p" shows "stays d W H p (SetPixel d p x y color)"
proof -
  let ?q = "unat (pitch (pscreen p))" and ?n = "unat (step d)"
  have s: "W * ?n \<le> ?q" "Suc H * ?q + ?n \<le> 2 ^ 32" using assms by (simp_all add: whole_screen_def)
  have n: "?n \<le> 4" by (cases d) simp_all
  have "SetPixel d p x y color m a = m a" if a: "H * ?q + Suc W * ?n \<le> unat (a - back_buffer (pscreen p))" for m a
  proof (cases "0 \<le> sint x \<and> sint x \<le> int W \<and> 0 \<le> sint y \<and> sint y \<le> int H")
    case True
    let ?o = "nat (sint y) * ?q + nat (sint x) * ?n"
    have "nat (sint y) * ?q \<le> H * ?q" "nat (sint x) * ?n \<le> W * ?n" using True by (auto intro!: mult_le_mono1 simp: nat_le_iff)
    then have o: "?o + ?n \<le> H * ?q + Suc W * ?n" by (simp only: mult_Suc)
    then have "?o + ?n \<le> 2 ^ 32" using s by simp
    then have "\<not> unat ((a - back_buffer (pscreen p)) - of_nat ?o) < ?n" using o a by (subst unat_diff_less) simp_all
    then have "\<not> unat (a - (back_buffer (pscreen p) + of_nat ?o)) < ?n" by (simp only: diff_diff_add not_False_eq_True)
    moreover have "SetPixel d p x y color m = store_pixel (back_buffer (pscreen p) + of_nat ?o) (pixel d color) m"
      unfolding SetPixel_screen [OF assms] using True by (rule if_P)
    ultimately show ?thesis using n by (simp add: store_pixel_get del: of_nat_add of_nat_mult)
  next
    case False then show ?thesis unfolding SetPixel_screen [OF assms] by (simp only: if_False)
  qed
  then show ?thesis by (simp add: stays_def)
qed

lemma stays_DrawChar: "whole_screen d W H p \<Longrightarrow> stays d W H p (DrawChar font d p letter x y scale color)"
  unfolding DrawChar_def [abs_def] Let_def by (intro stays_unless stays_fold stays_if stays_SetPixel)

text \<open>
  Drawing a string changes no memory beyond the screen and one more row and pixel, wherever it is to be drawn
\<close>

theorem draw_string_stays:
  assumes "whole_screen d W H p" and "H * unat (pitch (pscreen p)) + Suc W * unat (step d) \<le> unat (a - back_buffer (pscreen p))"
  shows "DrawString font d p str x y scale color m a = m a \<and> DrawPiece font d p str x y scale color m a = m a"
proof -
  have "draw_letters font d p cs x y scale color m a = m a" for cs
    using stays_DrawChar [OF assms(1)] assms(2) by (induction font d p cs x y scale color m rule: draw_letters.induct) (auto simp: stays_def)
  then show ?thesis
    by (simp_all add: DrawString_def DrawPiece_def)
qed

theorem draw_string_stays_witness:
  "DrawString (\<lambda>_. 0xFF) Depth32 vga [66, 73, 0] 636 470 3 0 (\<lambda>_. 7) 0x02000000 = 7"
  by (rule conjunct1 [OF draw_string_stays [OF vga_whole]]) (simp add: vga_def vga_screen_def)

end
