(* ===== verification/Input.thy ===== *)
theory Input
  imports Kernel_State
begin

text \<open>
  The input events, \<^verbatim>\<open>src/kernel/input/events.c\<close> and \<^verbatim>\<open>mouse.c\<close>, with the part of the loop in
  \<^verbatim>\<open>src/kernel/video/desktop.cpp\<close> that takes them. The events are heap objects, the queue is one of \<^verbatim>\<open>queues.c\<close>.
  A byte that the mouse sends is the argument of the interrupt. The set-up of the controller in \<^verbatim>\<open>_mouse_init\<close> is in \<open>Mouse\<close>.
\<close>

subsection \<open>State\<close>

record mouse_event =
  start_x :: u32
  start_y :: u32
  ev_x :: u32
  ev_y :: u32
  delta_x :: u32
  delta_y :: u32
  button_states :: u8
  active_button :: u8
  ev_type :: u8
  consumed :: u8

record input =
  iq :: "u32 qheap"
  event_queue :: u32
  mouse_events :: "u32 \<Rightarrow> mouse_event option"
  last_button_states :: u8
  byte_cycle :: int
  packet :: "u8 list"
  interrupts :: bool
  input_ports :: "(u16 \<times> u8) list"

abbreviation (input) MOUSE_BUTTON_LEFT :: u8 where "MOUSE_BUTTON_LEFT \<equiv> 1"
abbreviation (input) MOUSE_BUTTON_RIGHT :: u8 where "MOUSE_BUTTON_RIGHT \<equiv> 2"
abbreviation (input) MOUSE_BUTTON_MIDDLE :: u8 where "MOUSE_BUTTON_MIDDLE \<equiv> 4"
abbreviation (input) MOUSE_EVENT_MOVED :: u8 where "MOUSE_EVENT_MOVED \<equiv> 1"
abbreviation (input) MOUSE_EVENT_PRESSED :: u8 where "MOUSE_EVENT_PRESSED \<equiv> 2"
abbreviation (input) MOUSE_EVENT_CLICKED :: u8 where "MOUSE_EVENT_CLICKED \<equiv> 4"
abbreviation (input) MOUSE_EVENT_DRAGGED :: u8 where "MOUSE_EVENT_DRAGGED \<equiv> 5"
abbreviation (input) EVENT_MOUSE :: u32 where "EVENT_MOUSE \<equiv> 1"
abbreviation (input) sizeof_MouseEvent :: u32 where "sizeof_MouseEvent \<equiv> 28"

subsection \<open>The queue of events\<close>

definition events_init :: "input \<Rightarrow> (status \<times> input) outcome" where
  "events_init s =
     obind (q_alloc True CmpNull (iq s)) (\<lambda>(st, q, h).
     Ok (st, s\<lparr>iq := h, event_queue := (case q of Some a \<Rightarrow> a | None \<Rightarrow> event_queue s)\<rparr>))"

definition events_dispatch :: "u32 \<Rightarrow> u32 \<Rightarrow> input \<Rightarrow> (status \<times> input) outcome" where
  "events_dispatch event typ s =
     obind (q_insert (event_queue s) event typ (iq s)) (\<lambda>(st, h). Ok (st, s\<lparr>iq := h\<rparr>))"

text \<open>Without an event the type that is stored is not defined; interrupts are switched off and stay off.\<close>

definition events_fetch :: "input \<Rightarrow> (status \<times> u32 option \<times> u32 option \<times> input) outcome" where
  "events_fetch s0 =
     (let s = s0\<lparr>interrupts := False\<rparr> in
      obind (q_peek (event_queue s) True (iq s)) (\<lambda>(st, key).
      if st = SUCCESS then
        obind (q_remove (event_queue s) (iq s)) (\<lambda>(st', d, h). Ok (st', d, key, s\<lparr>iq := h, interrupts := True\<rparr>))
      else Ok (st, None, key, s)))"

subsection \<open>The mouse interrupt\<close>

definition changed_button :: "u8 \<Rightarrow> u8 \<Rightarrow> u8" where
  "changed_button old b =
     (if b AND MOUSE_BUTTON_LEFT \<noteq> old AND MOUSE_BUTTON_LEFT then MOUSE_BUTTON_LEFT
      else if b AND MOUSE_BUTTON_RIGHT \<noteq> old AND MOUSE_BUTTON_RIGHT then MOUSE_BUTTON_RIGHT
      else if b AND MOUSE_BUTTON_MIDDLE \<noteq> old AND MOUSE_BUTTON_MIDDLE then MOUSE_BUTTON_MIDDLE
      else 0)"

definition make_event :: "u8 \<Rightarrow> u8 list \<Rightarrow> mouse_event" where
  "make_event old bytes =
     (let b = bytes ! 0; a = changed_button old b in
      \<lparr>start_x = 0, start_y = 0, ev_x = 0, ev_y = 0, delta_x = scast (bytes ! 1), delta_y = scast (bytes ! 2),
       button_states = b AND 7, active_button = a,
       ev_type = (if a \<noteq> 0 then if b AND a \<noteq> 0 then MOUSE_EVENT_PRESSED else MOUSE_EVENT_CLICKED
                  else if b AND 7 \<noteq> 0 then MOUSE_EVENT_DRAGGED else MOUSE_EVENT_MOVED),
       consumed = 0\<rparr>)"

text \<open>A store outside the array of three bytes is a \<open>Fault\<close>.\<close>

definition mouse_isr :: "u8 \<Rightarrow> input \<Rightarrow> input outcome" where
  "mouse_isr b s =
     (if byte_cycle s < 0 \<or> byte_cycle s \<ge> 3 then Fault
      else
        let s1 = s\<lparr>packet := (packet s)[nat (byte_cycle s) := b], byte_cycle := byte_cycle s + 1\<rparr> in
        obind
          (if byte_cycle s1 = 3 then
             obind (kmalloc sizeof_MouseEvent (kh (iq s1))) (\<lambda>(p, k).
             let s2 = s1\<lparr>byte_cycle := 0, iq := (iq s1)\<lparr>kh := k\<rparr>,
                        mouse_events := (mouse_events s1)(p \<mapsto> make_event (last_button_states s1) (packet s1))\<rparr> in
             obind (events_dispatch p EVENT_MOUSE s2) (\<lambda>(_, s3).
             Ok (s3\<lparr>last_button_states := packet s3 ! 0\<rparr>)))
           else Ok s1)
          (\<lambda>s4. Ok (s4\<lparr>input_ports := input_ports s4 @ [(0x20, 0x20), (0xA0, 0x20)]\<rparr>)))"

text \<open>
  One turn of the loop over the events; the handler is given the event, which is freed behind it. The desktop
  enables interrupts after it has fetched an event and before it frees the event's memory; here both are one step. An
  interrupt in between adds its event behind those in the queue, as it does after the step.
\<close>

definition take_event :: "input \<Rightarrow> (mouse_event option \<times> input) outcome" where
  "take_event s =
     obind (events_fetch s) (\<lambda>(st, d, _, s1).
     if st = EMPTY_QUEUE then Ok (None, s1)
     else case d of
       None \<Rightarrow> Fault
     | Some p \<Rightarrow>
         obind (deref (mouse_events s1 p)) (\<lambda>e.
         obind (kfree p (kh (iq s1))) (\<lambda>k.
         Ok (Some e, s1\<lparr>iq := (iq s1)\<lparr>kh := k\<rparr>, mouse_events := (mouse_events s1)(p := None), interrupts := True\<rparr>))))"

subsection \<open>Interrupts and the loop interleaved\<close>

text \<open>
  The bytes the mouse has sent since the start, the events that have been taken and the state: an
  interrupt comes only while interrupts are on, and the kernel switches them on again.
\<close>

inductive input_run :: "input \<Rightarrow> u8 list \<Rightarrow> mouse_event list \<Rightarrow> input \<Rightarrow> bool" for s0 :: input where
  start: "input_run s0 [] [] s0"
| byte: "input_run s0 bs es s \<Longrightarrow> interrupts s \<Longrightarrow> mouse_isr b s = Ok s' \<Longrightarrow> input_run s0 (bs @ [b]) es s'"
| event: "input_run s0 bs es s \<Longrightarrow> take_event s = Ok (e, s') \<Longrightarrow>
    input_run s0 bs (es @ (case e of None \<Rightarrow> [] | Some x \<Rightarrow> [x])) s'"
| sti: "input_run s0 bs es s \<Longrightarrow> input_run s0 bs es (s\<lparr>interrupts := True\<rparr>)"

text \<open>The events that a stream of bytes stands for.\<close>

fun decode_stream :: "u8 \<Rightarrow> u8 list \<Rightarrow> mouse_event list" where
  "decode_stream old (a # b # c # bs) = make_event old [a, b, c] # decode_stream a bs"
| "decode_stream old bs = []"

fun last_buttons :: "u8 \<Rightarrow> u8 list \<Rightarrow> u8" where
  "last_buttons old (a # b # c # bs) = last_buttons a bs"
| "last_buttons old bs = old"

lemma dvd_three [simp]: "3 dvd Suc (Suc (Suc n)) \<longleftrightarrow> 3 dvd n" "\<not> 3 dvd Suc 0" "\<not> 3 dvd Suc (Suc 0)"
  by presburger+

lemma decode_append: "3 dvd length bs \<Longrightarrow> decode_stream l (bs @ cs) = decode_stream l bs @ decode_stream (last_buttons l bs) cs"
  by (induction l bs rule: decode_stream.induct) simp_all

lemma last_append: "3 dvd length bs \<Longrightarrow> last_buttons l (bs @ cs) = last_buttons (last_buttons l bs) cs"
  by (induction l bs rule: decode_stream.induct) simp_all

definition input_inv :: "u8 list \<Rightarrow> mouse_event list \<Rightarrow> input \<Rightarrow> mouse_event list \<Rightarrow> bool" where
  "input_inv bs es s pend \<longleftrightarrow> (\<exists>full part ps. bs = full @ part \<and> 3 dvd length full \<and> length part < 3 \<and>
     byte_cycle s = int (length part) \<and> length (packet s) = 3 \<and> take (length part) (packet s) = part \<and>
     last_button_states s = last_buttons 0 full \<and> decode_stream 0 full = es @ pend \<and>
     map (mouse_events s) ps = map Some pend \<and> distinct ps \<and>
     qrep (iq s) [event_queue s \<mapsto> (CmpNull, map (\<lambda>p. (p, EVENT_MOUSE)) ps)] (set ps))"

definition input_start :: "input \<Rightarrow> bool" where
  "input_start s \<longleftrightarrow> byte_cycle s = 0 \<and> length (packet s) = 3 \<and> last_button_states s = 0 \<and>
     qrep (iq s) [event_queue s \<mapsto> (CmpNull, [])] {}"

lemma input_inv_start: "input_start s \<Longrightarrow> input_inv [] [] s []"
  by (auto simp: input_start_def input_inv_def intro!: exI [of _ "[]"])

lemma mouse_isr_inv:
  assumes "input_inv bs es s pend"
  shows "(\<exists>m. mouse_isr b s = Panic m) \<or> (\<exists>s' pend'. mouse_isr b s = Ok s' \<and> input_inv (bs @ [b]) es s' pend')"
proof -
  obtain full part ps where I: "bs = full @ part" "3 dvd length full" "length part < 3"
    "byte_cycle s = int (length part)" "length (packet s) = 3" "take (length part) (packet s) = part"
    "last_button_states s = last_buttons 0 full" "decode_stream 0 full = es @ pend"
    "map (mouse_events s) ps = map Some pend" "distinct ps"
    "qrep (iq s) [event_queue s \<mapsto> (CmpNull, map (\<lambda>p. (p, EVENT_MOUSE)) ps)] (set ps)"
    using assms unfolding input_inv_def by blast
  let ?bytes = "(packet s)[length part := b]"
  have pk: "take (Suc (length part)) ?bytes = part @ [b]"
    using I(3,5,6) by (simp add: take_Suc_conv_app_nth take_update_cancel)
  show ?thesis
  proof (cases "length part = 2")
    case False
    let ?s = "s\<lparr>packet := ?bytes, byte_cycle := byte_cycle s + 1, input_ports := input_ports s @ [(0x20, 0x20), (0xA0, 0x20)]\<rparr>"
    have "mouse_isr b s = Ok ?s" using I(3,4) False by (simp add: mouse_isr_def Let_def)
    moreover have "input_inv (bs @ [b]) es ?s pend" unfolding input_inv_def
      using I pk False by (intro exI [of _ full] exI [of _ "part @ [b]"] exI [of _ ps]) simp
    ultimately show ?thesis by blast
  next
    case True
    then have full: "?bytes = part @ [b]" using pk I(5) by simp
    have "unat sizeof_MouseEvent \<le> 2 ^ 28" by simp
    from I(11) this show ?thesis
    proof (cases rule: qheap_malloc)
      case (1 m)
      then show ?thesis using I(4) True by (simp add: mouse_isr_def Let_def)
    next
      case (2 p k)
      let ?e = "make_event (last_button_states s) ?bytes" and ?h = "(iq s)\<lparr>kh := k\<rparr>" and ?q = "event_queue s"
      show ?thesis
      proof (cases "q_insert ?q p EVENT_MOUSE ?h")
        case (Ok r)
        obtain st h where r: "r = (st, h)" by (cases r)
        let ?s = "s\<lparr>packet := ?bytes, byte_cycle := 0, iq := h, mouse_events := (mouse_events s)(p \<mapsto> ?e), last_button_states := ?bytes ! 0,
          input_ports := input_ports s @ [(0x20, 0x20), (0xA0, 0x20)]\<rparr>"
        have "mouse_isr b s = Ok ?s" using I(4) True 2(1) Ok r by (simp add: mouse_isr_def events_dispatch_def Let_def)
        moreover have "qrep h [?q \<mapsto> (CmpNull, map (\<lambda>p. (p, EVENT_MOUSE)) (ps @ [p]))] (insert p (set ps))"
          using pq.ins_Ok [OF 2(5) fun_upd_same Ok [unfolded r]] by (simp add: spec_insert_null del: fun_upd_apply)
        moreover obtain x y where part: "part = [x, y]" using True by (cases part; cases "tl part") auto
        have "decode_stream 0 (bs @ [b]) = es @ pend @ [?e]" "last_buttons 0 (bs @ [b]) = ?bytes ! 0"
          using I(1,2,7,8) full part by (simp_all add: decode_append last_append)
        moreover have "map (mouse_events ?s) (ps @ [p]) = map Some (pend @ [?e])" using I(9) 2(3) by auto
        ultimately have "input_inv (bs @ [b]) es ?s (pend @ [?e])" unfolding input_inv_def
          using I(1,2,5,10) 2(3) True by (intro exI [of _ "bs @ [b]"] exI [of _ "[]"] exI [of _ "ps @ [p]"]) simp
        then show ?thesis using \<open>mouse_isr b s = Ok ?s\<close> by blast
      next
        case (Panic m)
        then show ?thesis using I(4) True 2(1) by (simp add: mouse_isr_def events_dispatch_def Let_def)
      qed (use pq.ins_defined [OF 2(5) fun_upd_same, of p EVENT_MOUSE] in auto)
    qed
  qed
qed

lemma take_event_inv:
  assumes "input_inv bs es s pend"
  shows "case pend of [] \<Rightarrow> take_event s = Ok (None, s\<lparr>interrupts := False\<rparr>)
    | e # rest \<Rightarrow> \<exists>s'. take_event s = Ok (Some e, s') \<and> input_inv bs (es @ [e]) s' rest \<and> interrupts s'"
proof -
  obtain full part ps where I: "bs = full @ part" "3 dvd length full" "length part < 3"
    "byte_cycle s = int (length part)" "length (packet s) = 3" "take (length part) (packet s) = part"
    "last_button_states s = last_buttons 0 full" "decode_stream 0 full = es @ pend"
    "map (mouse_events s) ps = map Some pend" "distinct ps"
    "qrep (iq s) [event_queue s \<mapsto> (CmpNull, map (\<lambda>p. (p, EVENT_MOUSE)) ps)] (set ps)"
    using assms unfolding input_inv_def by blast
  note peek = q_status_sim(2) [OF I(11) fun_upd_same]
  show ?thesis
  proof (cases pend)
    case Nil
    then have "ps = []" using I(9) by simp
    then show ?thesis using Nil peek by (simp add: take_event_def events_fetch_def Let_def)
  next
    case (Cons e rest)
    then obtain p qs where ps: "ps = p # qs" "mouse_events s p = Some e" "map (mouse_events s) qs = map Some rest" using I(9) by (cases ps) auto
    then obtain h where h: "q_remove (event_queue s) (iq s) = Ok (SUCCESS, Some p, h)"
      "qrep h [event_queue s \<mapsto> (CmpNull, map (\<lambda>p. (p, EVENT_MOUSE)) qs)] (insert p (set qs))"
      using pq.rem_first [OF I(11), of "event_queue s" CmpNull "(p, EVENT_MOUSE)"] by auto
    obtain k where k: "kfree p (kh h) = Ok k" "qrep (h\<lparr>kh := k\<rparr>) [event_queue s \<mapsto> (CmpNull, map (\<lambda>p. (p, EVENT_MOUSE)) qs)] (insert p (set qs) - {p})"
      by (rule qheap_free [OF h(2)]) auto
    let ?s = "s\<lparr>iq := h\<lparr>kh := k\<rparr>, mouse_events := (mouse_events s)(p := None), interrupts := True\<rparr>"
    have "take_event s = Ok (Some e, ?s)" using peek h(1) k(1) ps by (simp add: take_event_def events_fetch_def Let_def)
    moreover have "insert p (set qs) - {p} = set qs" "p \<notin> set qs" using I(10) ps(1) by auto
    then have "input_inv bs (es @ [e]) ?s rest" unfolding input_inv_def
      using I Cons ps k(2) by (intro exI [of _ full] exI [of _ part] exI [of _ qs]) auto
    ultimately show ?thesis using Cons by auto
  qed
qed

lemma input_run_inv:
  assumes "input_run s0 bs es s" "input_start s0"
  shows "\<exists>pend. input_inv bs es s pend"
  using assms(1)
proof (induction rule: input_run.induct)
  case start
  then show ?case using input_inv_start [OF assms(2)] by blast
next
  case (byte bs es s b s')
  then show ?case using mouse_isr_inv [of bs es s _ b] by auto
next
  case (event bs es s e s')
  then obtain pend where p: "input_inv bs es s pend" by blast
  have "input_inv bs es (s\<lparr>interrupts := False\<rparr>) pend" using p by (simp add: input_inv_def)
  then show ?case using take_event_inv [OF p] p event.hyps(2) by (auto split: list.splits)
next
  case (sti bs es s)
  then show ?case by (auto simp: input_inv_def)
qed

subsection \<open>Properties\<close>

text \<open>
  C14: however interrupts and the loop interleave, the events that were taken are those that the bytes
  stand for, each once and in their order, and those that are missing are pending: the next one
  taken is the first of them. When none is pending, the loop goes on with interrupts switched off. No
  interrupt faults.
\<close>

theorem input_delivers:
  assumes "input_run s0 bs es s" "input_start s0"
  shows "\<exists>pend. decode_stream 0 bs = es @ pend \<and>
    (case pend of [] \<Rightarrow> take_event s = Ok (None, s\<lparr>interrupts := False\<rparr>)
     | e # _ \<Rightarrow> \<exists>s'. take_event s = Ok (Some e, s') \<and> interrupts s') \<and>
    (\<forall>b. (\<exists>m. mouse_isr b s = Panic m) \<or> (\<exists>s'. mouse_isr b s = Ok s'))"
proof -
  obtain pend where p: "input_inv bs es s pend" using input_run_inv [OF assms] by blast
  then obtain full part where f: "bs = full @ part" "3 dvd length full" "length part < 3" "decode_stream 0 full = es @ pend"
    unfolding input_inv_def by blast
  have "decode_stream l part = []" for l using f(3) by (cases "(l, part)" rule: decode_stream.cases) auto
  then have "decode_stream 0 bs = es @ pend" using f by (simp add: decode_append)
  then show ?thesis using take_event_inv [OF p] mouse_isr_inv [OF p] by (intro exI [of _ pend]) (auto split: list.splits)
qed

text \<open>The mouse after its initialisation, and a stream of three bytes that is interrupted by the loop.\<close>

definition input_demo :: input where
  "input_demo = \<lparr>iq = \<lparr>kh = used_heap, qnodes = Map.empty, queues = [0xD0000004 \<mapsto> \<lparr>head = 0, tail = 0, compare = CmpNull\<rparr>]\<rparr>,
     event_queue = 0xD0000004, mouse_events = Map.empty, last_button_states = 0, byte_cycle = 0, packet = [0, 0, 0],
     interrupts = True, input_ports = []\<rparr>"

lemma input_demo_start: "input_start input_demo"
proof -
  have "heap_live used_heap {0xD0000004}" unfolding heap_live_def using used_heap_inv by (intro exI conjI) auto
  then have "qinv (iq input_demo) [0xD0000004 \<mapsto> (CmpNull, [])] (\<lambda>_. []) {}"
    by (auto simp: qinv_def queue_ok_def pointers_def input_demo_def last_or_def)
  then show ?thesis by (auto simp: input_start_def input_demo_def qrep_def)
qed

lemma input_demo_run:
  "input_run input_demo [9, 5] [] (input_demo\<lparr>packet := [9, 5, 0], byte_cycle := 2, input_ports := [(0x20, 0x20), (0xA0, 0x20), (0x20, 0x20), (0xA0, 0x20)]\<rparr>)"
proof -
  have "mouse_isr 9 input_demo = Ok (input_demo\<lparr>packet := [9, 0, 0], byte_cycle := 1, input_ports := [(0x20, 0x20), (0xA0, 0x20)]\<rparr>)"
    "mouse_isr 5 (input_demo\<lparr>packet := [9, 0, 0], byte_cycle := 1, input_ports := [(0x20, 0x20), (0xA0, 0x20)]\<rparr>) =
      Ok (input_demo\<lparr>packet := [9, 5, 0], byte_cycle := 2, input_ports := [(0x20, 0x20), (0xA0, 0x20), (0x20, 0x20), (0xA0, 0x20)]\<rparr>)"
    by (simp_all add: mouse_isr_def input_demo_def Let_def)
  moreover have "interrupts input_demo" by (simp add: input_demo_def)
  ultimately show ?thesis
    using input_run.byte [OF input_run.byte [OF input_run.start [of input_demo]]] by (simp add: input_demo_def)
qed

theorem input_delivers_witness:
  "\<exists>s. input_run input_demo [9, 5] [] s \<and> take_event s = Ok (None, s\<lparr>interrupts := False\<rparr>)"
  using input_demo_run input_delivers [OF input_demo_run input_demo_start] by (intro exI) (auto split: list.splits)

text \<open>
  In the variant for the emulator the cycle starts at -1, so that the first interrupt of the mouse
  stores in front of the array.
\<close>

theorem qemu_first_byte_faults: "mouse_isr b (s\<lparr>byte_cycle := -1\<rparr>) = Fault"
  by (simp add: mouse_isr_def)

end
