(* ===== verification/Desktop.thy ===== *)
theory Desktop
  imports Painter Gconsole Input Example
begin

text \<open>
  The desktop: \<^verbatim>\<open>src/kernel/video/uicomponent.cpp\<close>, \<^verbatim>\<open>window.cpp\<close>, \<^verbatim>\<open>desktop.cpp\<close>, and the console window of
  \<^verbatim>\<open>gconsole.cpp\<close>. A component is an object at an address; its class selects the methods. The lists of windows and of
  children have their elements in one map, each list is a record of its own. The font and the characters of the console are
  arguments of the drawing functions. Destructors are never run and left out.
\<close>

subsection \<open>State\<close>

datatype component_class = WINDOW | CONSOLE_VIEW

record component =
  cclass :: component_class
  cbounds :: rect
  cdirty :: bool
  children_at :: u32
  children :: linked_list
  has_focus :: bool
  title :: "u8 list"
  close_bounds :: rect

record desktop =
  dpainter :: "(depth \<times> painter) option"
  dbounds :: rect
  cursor_x :: u32
  cursor_y :: u32
  ddirty :: bool
  window_list :: u32
  windows :: "u32 list_state"
  comps :: "u32 \<Rightarrow> component option"
  video :: bytes

abbreviation (input) sizeof_ConsoleView :: u32 where "sizeof_ConsoleView \<equiv> 40"
abbreviation (input) sizeof_Window :: u32 where "sizeof_Window \<equiv> 76"
abbreviation (input) sizeof_GConsole :: u32 where "sizeof_GConsole \<equiv> 80"
abbreviation (input) sizeof_Painter :: u32 where "sizeof_Painter \<equiv> 32"

definition alloc :: "u32 \<Rightarrow> desktop \<Rightarrow> (u32 \<times> desktop) outcome" where
  "alloc n d = obind (kmalloc n (lheap (windows d))) (\<lambda>(p, k). Ok (p, d\<lparr>windows := (windows d)\<lparr>lheap := k\<rparr>\<rparr>))"

definition get_component :: "u32 \<Rightarrow> desktop \<Rightarrow> component outcome" where
  "get_component a d = deref (comps d a)"

definition upd_component :: "u32 \<Rightarrow> (component \<Rightarrow> component) \<Rightarrow> desktop \<Rightarrow> desktop outcome" where
  "upd_component a f d = obind (get_component a d) (\<lambda>c. Ok (d\<lparr>comps := (comps d)(a \<mapsto> f c)\<rparr>))"

subsection \<open>Components\<close>

definition UIComponent :: "u32 \<Rightarrow> component_class \<Rightarrow> rect \<Rightarrow> desktop \<Rightarrow> desktop outcome" where
  "UIComponent this cl bounds d =
     obind (alloc sizeof_LinkedList d) (\<lambda>(p, d1).
     Ok (d1\<lparr>comps := (comps d1)(this \<mapsto> \<lparr>cclass = cl, cbounds = bounds, cdirty = True, children_at = p,
       children = llist (list_init True (windows d1)), has_focus = False, title = [], close_bounds = Rect 0 0 0 0\<rparr>)\<rparr>))"

definition AddComponent :: "u32 \<Rightarrow> u32 \<Rightarrow> desktop \<Rightarrow> desktop outcome" where
  "AddComponent this component d =
     obind (get_component this d) (\<lambda>c.
     obind (list_insert_next 0 component ((windows d)\<lparr>llist := children c\<rparr>)) (\<lambda>(_, l).
     upd_component this (\<lambda>c. c\<lparr>children := llist l\<rparr>) (d\<lparr>windows := l\<lparr>llist := llist (windows d)\<rparr>\<rparr>)))"

text \<open>
  The operations that visit a component and its children: \<open>Inl\<close> is a component, \<open>Inr\<close> the rest of a list of them. What is
  done in front of the children and behind them are arguments.
\<close>

partial_function (option) visit ::
  "(u32 \<Rightarrow> desktop \<Rightarrow> desktop outcome) \<Rightarrow> (u32 \<Rightarrow> desktop \<Rightarrow> desktop outcome) \<Rightarrow> u32 + u32 \<Rightarrow> desktop \<Rightarrow> desktop outcome option" where
  "visit before behind n d =
     (case n of
        Inl a \<Rightarrow>
          lift_bind (before a d) (\<lambda>d1.
          lift_bind (get_component a d1) (\<lambda>c.
          Option.bind (visit before behind (Inr (list_head (children c))) d1) (\<lambda>r. Some (obind r (behind a)))))
      | Inr node \<Rightarrow>
          if node = 0 then Some (Ok d)
          else
            lift_bind (get_element node (windows d)) (\<lambda>e.
            Option.bind (visit before behind (Inl (ldata e)) d) (\<lambda>r.
            lift_bind r (\<lambda>d1.
            lift_bind (get_element node (windows d1)) (\<lambda>e1. visit before behind (Inr (lnext e1)) d1)))))"

definition Move :: "u32 \<Rightarrow> u32 \<Rightarrow> u32 \<Rightarrow> desktop \<Rightarrow> desktop outcome" where
  "Move this x y d = of_loop (visit
     (\<lambda>a. upd_component a (\<lambda>c. c\<lparr>cbounds := SetPosition x y (cbounds c)\<rparr>))
     (\<lambda>a d. obind (get_component a d) (\<lambda>c. Ok (if cclass c = WINDOW then d\<lparr>ddirty := True\<rparr> else d)))
     (Inl this) d)"

definition Invalidate :: "u32 \<Rightarrow> desktop \<Rightarrow> desktop outcome" where
  "Invalidate this d = of_loop (visit (\<lambda>a. upd_component a (\<lambda>c. c\<lparr>cdirty := True\<rparr>)) (\<lambda>a. Ok) (Inl this) d)"

subsection \<open>Drawing\<close>

definition close_button :: "rect \<Rightarrow> rect" where
  "close_button b = Rect (rect_x2 b - 14 - 16) (rect_y b + 4 + 10) 16 4"

definition draw_window :: "(nat \<Rightarrow> u8) \<Rightarrow> depth \<Rightarrow> painter \<Rightarrow> component \<Rightarrow> bytes \<Rightarrow> bytes" where
  "draw_window font dp p c m =
     (let focus_color = (if has_focus c then 0x284117 else 0x4C732E); b = cbounds c;
          m1 = DrawBox dp p b 0x354351 0x2D3843 0x3D4D5D 0x3A4857 4 m;
          m2 = DrawBox dp p (Rect (rect_x b) (rect_y b) (rect_width b) 32) 0x5A8A37 0x4C732E 0x689F40 0x62963C 4 m1;
          m3 = DrawString font dp p (title c) (rect_x b + 12) (rect_y b + 2) 4 focus_color m2 in
      FillRect dp p (close_button b) focus_color m3)"

definition draw_console :: "(nat \<Rightarrow> u8) \<Rightarrow> (nat \<Rightarrow> u8) \<Rightarrow> depth \<Rightarrow> painter \<Rightarrow> component \<Rightarrow> bytes \<Rightarrow> bytes" where
  "draw_console font txt dp p c m =
     fold (\<lambda>(i, j, y). DrawPiece font dp p (map txt [i..<j]) (rect_x (cbounds c) + 12) (rect_y (cbounds c) + of_nat y) 2 0xD3D9C3)
       (console_view 0) m"

definition draw_component :: "(nat \<Rightarrow> u8) \<Rightarrow> (nat \<Rightarrow> u8) \<Rightarrow> u32 \<Rightarrow> desktop \<Rightarrow> desktop outcome" where
  "draw_component font txt a d =
     obind (get_component a d) (\<lambda>c.
     obind (deref (dpainter d)) (\<lambda>(dp, p).
     Ok (d\<lparr>video := (case cclass c of WINDOW \<Rightarrow> draw_window font dp p c (video d) | CONSOLE_VIEW \<Rightarrow> draw_console font txt dp p c (video d))\<rparr>)))"

definition repaint :: "(nat \<Rightarrow> u8) \<Rightarrow> (nat \<Rightarrow> u8) \<Rightarrow> u32 + u32 \<Rightarrow> desktop \<Rightarrow> desktop outcome" where
  "repaint font txt n d =
     of_loop (visit (draw_component font txt) (\<lambda>a. upd_component a (\<lambda>c. c\<lparr>cdirty := False\<rparr>)) n d)"

definition Repaint :: "(nat \<Rightarrow> u8) \<Rightarrow> (nat \<Rightarrow> u8) \<Rightarrow> u32 \<Rightarrow> desktop \<Rightarrow> desktop outcome" where
  "Repaint font txt this = repaint font txt (Inl this)"

definition Draw :: "(nat \<Rightarrow> u8) \<Rightarrow> (nat \<Rightarrow> u8) \<Rightarrow> desktop \<Rightarrow> desktop outcome" where
  "Draw font txt d =
     (let cur_node = list_head (llist (windows d)) in
      obind (if ddirty d then
               obind (deref (dpainter d)) (\<lambda>(dp, p).
               obind (of_loop (map_option Ok (Fill dp p 0x6490A7 (video d)))) (\<lambda>m. Ok (d\<lparr>video := m\<rparr>)))
             else Ok d) (\<lambda>d1.
      obind (repaint font txt (Inr cur_node) d1) (\<lambda>d2. Ok (d2\<lparr>ddirty := False\<rparr>))))"

definition Desktop_DrawCursor :: "desktop \<Rightarrow> desktop outcome" where
  "Desktop_DrawCursor d =
     obind (deref (dpainter d)) (\<lambda>(dp, p). Ok (d\<lparr>video := DrawCursor dp p (cursor_x d) (cursor_y d) (video d)\<rparr>))"

subsection \<open>Windows\<close>

definition Window :: "u32 \<Rightarrow> rect \<Rightarrow> u8 list \<Rightarrow> desktop \<Rightarrow> desktop outcome" where
  "Window this bounds str d =
     obind (UIComponent this WINDOW bounds d) (\<lambda>d1.
     let len = length (takeWhile (\<lambda>c. c \<noteq> 0) str) in
     obind (alloc (of_nat len + 1) d1) (\<lambda>(_, d2).
     upd_component this (\<lambda>c. c\<lparr>close_bounds := Rect (rect_width bounds - 16) 8 16 16, title := take (len + 1) str\<rparr>) d2))"

definition GConsole :: "u32 \<Rightarrow> u32 \<Rightarrow> u32 \<Rightarrow> desktop \<Rightarrow> desktop outcome" where
  "GConsole this x y d =
     obind (Window this (Rect x y (79 * 12 + 24) (24 * 17)) [67, 79, 78, 83, 79, 76, 69, 0] d) (\<lambda>d1.
     obind (get_component this d1) (\<lambda>c.
     obind (alloc sizeof_ConsoleView d1) (\<lambda>(v, d2).
     obind (UIComponent v CONSOLE_VIEW (cbounds c) d2) (AddComponent this v))))"

definition AddWindow :: "u32 \<Rightarrow> desktop \<Rightarrow> desktop outcome" where
  "AddWindow window d =
     (let focused_elem = list_tail (llist (windows d)) in
      obind (if focused_elem \<noteq> 0 then
               obind (get_element focused_elem (windows d)) (\<lambda>e. upd_component (ldata e) (\<lambda>c. c\<lparr>has_focus := False\<rparr>) d)
             else Ok d) (\<lambda>d1.
      obind (list_insert_next focused_elem window (windows d1)) (\<lambda>(_, l).
      obind (upd_component window (\<lambda>c. c\<lparr>has_focus := True\<rparr>) (d1\<lparr>windows := l\<rparr>)) (\<lambda>d2.
      Ok (d2\<lparr>ddirty := True\<rparr>)))))"

partial_function (option) close_loop :: "u32 \<Rightarrow> u32 \<Rightarrow> u32 list_state \<Rightarrow> u32 list_state outcome option" where
  "close_loop window element l =
     (if element = 0 then Some (Ok l)
      else lift_bind (get_element element l) (\<lambda>e.
        if ldata e = window then lift_bind (list_remove_next element l) (\<lambda>(_, _, l'). Some (Ok l'))
        else close_loop window (lnext e) l))"

definition CloseWindow :: "u32 \<Rightarrow> desktop \<Rightarrow> desktop outcome" where
  "CloseWindow window d =
     obind (of_loop (close_loop window (list_head (llist (windows d))) (windows d))) (\<lambda>l. Ok (d\<lparr>windows := l, ddirty := True\<rparr>))"

subsection \<open>Mouse events\<close>

definition HandleMouseEvent :: "u32 \<Rightarrow> mouse_event \<Rightarrow> desktop \<Rightarrow> (mouse_event \<times> desktop) outcome" where
  "HandleMouseEvent this ev d =
     obind (get_component this d) (\<lambda>c.
     case cclass c of
       CONSOLE_VIEW \<Rightarrow> Ok (ev, d)
     | WINDOW \<Rightarrow>
         obind (if ev_type ev = MOUSE_EVENT_CLICKED then
                  if rect_contains (ev_x ev) (ev_y ev) (close_bounds c) then CloseWindow this d else Ok d
                else if ev_type ev = MOUSE_EVENT_DRAGGED then
                  if sint (start_y ev) < 32 then Move this (rect_x (cbounds c) + delta_x ev) (rect_y (cbounds c) - delta_y ev) d else Ok d
                else Ok d) (\<lambda>d1. Ok (ev\<lparr>consumed := 1\<rparr>, d1)))"

definition offset_event :: "u32 \<Rightarrow> u32 \<Rightarrow> u32 \<Rightarrow> u32 \<Rightarrow> rect \<Rightarrow> mouse_event \<Rightarrow> mouse_event" where
  "offset_event sx sy x y b ev =
     ev\<lparr>start_x := sx - rect_x b, start_y := sy - rect_y b, ev_x := x - rect_x b, ev_y := y - rect_y b\<rparr>"

partial_function (option) event_loop :: "u32 \<Rightarrow> u32 \<Rightarrow> u32 \<Rightarrow> mouse_event \<Rightarrow> desktop \<Rightarrow> (mouse_event \<times> desktop) outcome option" where
  "event_loop node sx sy ev d =
     (if node = 0 then Some (Ok (ev, d))
      else
        lift_bind (get_element node (windows d)) (\<lambda>e.
        lift_bind (get_component (ldata e) d) (\<lambda>c.
        let ev1 = offset_event sx sy (cursor_x d) (cursor_y d) (cbounds c) ev in
        if rect_contains sx sy (cbounds c) then
          lift_bind (HandleMouseEvent (ldata e) ev1 d) (\<lambda>(ev2, d2).
          if consumed ev2 \<noteq> 0 then Some (Ok (ev2, d2))
          else lift_bind (get_element node (windows d2)) (\<lambda>e2. event_loop (lprev e2) sx sy ev2 d2))
        else event_loop (lprev e) sx sy ev1 d)))"

definition move_cursor :: "mouse_event \<Rightarrow> desktop \<Rightarrow> desktop" where
  "move_cursor ev d = d\<lparr>cursor_x := clamp (cursor_x d + delta_x ev) 0 (rect_width (dbounds d)),
     cursor_y := clamp (cursor_y d - delta_y ev) 0 (rect_height (dbounds d))\<rparr>"

definition Desktop_HandleMouseEvent :: "mouse_event \<Rightarrow> desktop \<Rightarrow> (mouse_event \<times> desktop) outcome" where
  "Desktop_HandleMouseEvent ev d =
     (let d1 = move_cursor ev d in
      of_loop (event_loop (list_tail (llist (windows d1))) (cursor_x d) (cursor_y d) ev d1))"

subsection \<open>The desktop process\<close>

definition Desktop :: "screen_info \<Rightarrow> u32 list_state \<Rightarrow> bytes \<Rightarrow> desktop outcome" where
  "Desktop s l m =
     (let b = Rect 0 0 (ucast (swidth s)) (ucast (sheight s));
          d0 = \<lparr>dpainter = None, dbounds = b, cursor_x = ucast (swidth s div 2), cursor_y = ucast (sheight s div 2), ddirty = True,
                window_list = 0, windows = l, comps = (\<lambda>_. None), video = m\<rparr> in
      obind (alloc sizeof_LinkedList d0) (\<lambda>(p, d1).
      let d2 = d1\<lparr>window_list := p, windows := list_init True (windows d1)\<rparr> in
      if bpp s = 24 then obind (alloc sizeof_Painter d2) (\<lambda>(_, d3). Ok (d3\<lparr>dpainter := Some (Depth24, \<lparr>pscreen = s, pbounds = b\<rparr>)\<rparr>))
      else if bpp s = 32 then obind (alloc sizeof_Painter d2) (\<lambda>(_, d3). Ok (d3\<lparr>dpainter := Some (Depth32, \<lparr>pscreen = s, pbounds = b\<rparr>)\<rparr>))
      else Ok d2))"

definition desktop_start :: "screen_info \<Rightarrow> u32 list_state \<Rightarrow> bytes \<Rightarrow> desktop outcome" where
  "desktop_start s l m =
     obind (Desktop s l m) (\<lambda>d1.
     obind (alloc sizeof_GConsole d1) (\<lambda>(g, d2).
     obind (GConsole g 16 16 d2) (\<lambda>d3.
     obind (alloc sizeof_Window d3) (\<lambda>(w, d4).
     obind (Window w (Rect 200 200 400 400) [66, 73, 75, 69, 83, 72, 69, 68, 0] d4) (\<lambda>d5.
     obind (AddWindow g d5) (AddWindow w))))))"

definition store_word :: "u32 \<Rightarrow> u32 \<Rightarrow> bytes \<Rightarrow> bytes" where
  "store_word dest src m = m(dest := m src, dest + 1 := m (src + 1), dest + 2 := m (src + 2), dest + 3 := m (src + 3))"

partial_function (option) kfaster :: "u32 \<Rightarrow> u32 \<Rightarrow> u32 \<Rightarrow> bytes \<Rightarrow> bytes option" where
  "kfaster dest src num m = (if num > 0 then kfaster (dest + 4) (src + 4) (num - 4) (store_word dest src m) else Some m)"

text \<open>One turn of the loop of the process, behind the events: what is on the screen is the buffer with the pointer on it.\<close>

definition refresh :: "(nat \<Rightarrow> u8) \<Rightarrow> (nat \<Rightarrow> u8) \<Rightarrow> screen_info \<Rightarrow> desktop \<Rightarrow> desktop outcome" where
  "refresh font txt s d =
     obind (Draw font txt d) (\<lambda>d1.
     obind (of_loop (map_option Ok (kfaster (frame_buffer s) (back_buffer s) (screen_size s) (video d1)))) (\<lambda>m.
     Desktop_DrawCursor (d1\<lparr>video := m\<rparr>)))"

subsection \<open>Copying to the screen\<close>

lemma store_word_get: "store_word dest src m a = (if unat (a - dest) < 4 then m (src + (a - dest)) else m a)"
proof -
  have "unat (a - dest) < 4 \<longleftrightarrow> a - dest = 0 \<or> a - dest = 1 \<or> a - dest = 2 \<or> a - dest = 3"
  proof
    assume "unat (a - dest) < 4"
    then have "unat (a - dest) = 0 \<or> unat (a - dest) = 1 \<or> unat (a - dest) = 2 \<or> unat (a - dest) = 3" by linarith
    then show "a - dest = 0 \<or> a - dest = 1 \<or> a - dest = 2 \<or> a - dest = 3" by (auto simp: word_unat_eq_iff)
  qed auto
  moreover have "a - dest = k \<longleftrightarrow> a = dest + k" for k by (auto simp: algebra_simps)
  ultimately show ?thesis by (auto simp: store_word_def)
qed

lemma kfaster_copies:
  assumes "4 * k < 2 ^ 32" "4 * k \<le> unat (dest - src)"
  shows "\<exists>m'. kfaster dest src (of_nat (4 * k)) m = Some m' \<and> (\<forall>a. m' a = (if unat (a - dest) < 4 * k then m (src + (a - dest)) else m a))"
  using assms
proof (induction k arbitrary: dest src m)
  case 0
  then show ?case by (subst kfaster.simps) simp
next
  case (Suc k)
  have num: "unat (of_nat (4 * Suc k) :: u32) = 4 * Suc k" using Suc.prems(1) by (rule unat_of_nat_small)
  then have pos: "(of_nat (4 * Suc k) :: u32) > 0" by (simp add: word_less_nat_alt)
  have "(of_nat (4 * Suc k) - 4 :: u32) = of_nat (4 * k)" by simp
  then have step: "kfaster dest src (of_nat (4 * Suc k)) m = kfaster (dest + 4) (src + 4) (of_nat (4 * k)) (store_word dest src m)"
    using pos by (subst kfaster.simps) (simp only: if_True)
  have "4 * k < 2 ^ 32" "4 * k \<le> unat ((dest + 4) - (src + 4))" using Suc.prems by simp_all
  from Suc.IH [OF this, of "store_word dest src m"] obtain m' where m': "kfaster (dest + 4) (src + 4) (of_nat (4 * k)) (store_word dest src m) = Some m'"
    "\<And>a. m' a = (if unat (a - (dest + 4)) < 4 * k then store_word dest src m (src + 4 + (a - (dest + 4))) else store_word dest src m a)" by blast
  have "m' a = (if unat (a - dest) < 4 * Suc k then m (src + (a - dest)) else m a)" for a
  proof (cases "unat (a - dest) < 4")
    case True
    then have "\<not> unat ((a - dest) - of_nat 4) < 4 * k" using Suc.prems(1) by (subst unat_diff_less) simp_all
    then show ?thesis using True m'(2) [of a] by (simp add: store_word_get diff_diff_add)
  next
    case False
    have far: "unat ((a - dest) - of_nat 4) < 4 * k \<longleftrightarrow> unat (a - dest) < 4 * Suc k" using False Suc.prems(1) by (subst unat_diff_less) simp_all
    show ?thesis
    proof (cases "unat (a - dest) < 4 * Suc k")
      case True
      let ?t = "a - dest" and ?g = "dest - src"
      have "unat (?t - ?g) = 2 ^ 32 + unat ?t - unat ?g" using unat_sub_if' [of ?t ?g] True Suc.prems(2) by simp
      moreover have "unat ?g < 2 ^ 32" by (rule order_less_le_trans [OF unsigned_less]) simp
      ultimately have "\<not> unat (?t - ?g) < 4" using False by simp
      moreover have "?t - ?g = src + ?t - dest" by simp
      ultimately have "\<not> unat (src + ?t - dest) < 4" by simp
      then show ?thesis using True False far m'(2) [of a] by (simp add: store_word_get diff_diff_add)
    next
      case f: False
      then show ?thesis using False far m'(2) [of a] by (simp add: store_word_get diff_diff_add)
    qed
  qed
  then show ?case unfolding step using m'(1) by blast
qed

lemma kfaster_divides:
  assumes "kfaster dest src num m = Some r" shows "unat num mod 4 = 0"
  by (rule kfaster.raw_induct [where P = "\<lambda>_ _ num _ _. unat num mod 4 = 0", OF _ assms])
    (auto simp: word_gt_0 split: if_splits, metis mod_4_sub)

text \<open>
  Copying the buffer to the screen copies every byte if the size is a multiple of four and the screen does not lie in the
  buffer behind its first byte; for any other size the copying never ends
\<close>

theorem kfaster_correct:
  assumes "unat num \<le> unat (dest - src)"
  shows "if unat num mod 4 = 0
    then \<exists>m'. kfaster dest src num m = Some m' \<and> (\<forall>a. m' a = (if unat (a - dest) < unat num then m (src + (a - dest)) else m a))
    else kfaster dest src num m = None"
proof (cases "unat num mod 4 = 0")
  case True
  then obtain k where k: "unat num = 4 * k" by (metis mult.commute mod_0_imp_dvd dvd_def)
  moreover have "4 * k < 2 ^ 32" unfolding k [symmetric] by (rule order_less_le_trans [OF unsigned_less]) simp
  moreover have "num = of_nat (4 * k)" unfolding k [symmetric] by simp
  ultimately show ?thesis using True kfaster_copies [of k dest src m] assms by simp
next
  case False
  then show ?thesis using kfaster_divides [of dest src num m] by (cases "kfaster dest src num m") auto
qed

theorem kfaster_correct_witness:
  "kfaster 100 0 6 (\<lambda>a. ucast a) = None \<and> (\<exists>m'. kfaster 100 0 8 (\<lambda>a. ucast a) = Some m' \<and> m' 107 = 7 \<and> m' 108 = 108)"
proof
  show "kfaster 100 0 6 (\<lambda>a. ucast a) = None" using kfaster_correct [of 6 100 0 "\<lambda>a. ucast a"] by simp
  obtain m' where "kfaster 100 0 8 (\<lambda>a. ucast a) = Some m'" "\<And>a :: u32. m' a = (if unat (a - 100) < 8 then ucast (0 + (a - 100)) else ucast a)"
    using kfaster_correct [of 8 100 0 "\<lambda>a. ucast a"] by auto
  then show "\<exists>m'. kfaster 100 0 8 (\<lambda>a. ucast a) = Some m' \<and> m' 107 = 7 \<and> m' 108 = 108" by simp
qed

subsection \<open>Moving a window\<close>

text \<open>A component without children.\<close>

lemma visit_leaf:
  assumes "before v d = Ok d1" "comps d1 v = Some c" "list_head (children c) = 0"
  shows "visit before behind (Inl v) d = Some (behind v d1)"
proof -
  have "visit before behind (Inr 0) d1 = Some (Ok d1)" by (subst visit.simps) simp
  then show ?thesis using assms by (subst visit.simps) (simp add: get_component_def)
qed

definition upd_set :: "(component \<Rightarrow> component) \<Rightarrow> u32 set \<Rightarrow> desktop \<Rightarrow> desktop" where
  "upd_set f A d = d\<lparr>comps := \<lambda>a. if a \<in> A then map_option f (comps d a) else comps d a\<rparr>"

lemma upd_set_simps [simp]:
  "windows (upd_set f A d) = windows d" "upd_set f {} d = d" "comps (upd_set f A d) = (\<lambda>a. if a \<in> A then map_option f (comps d a) else comps d a)"
  by (simp_all add: upd_set_def)

text \<open>What a window consists of: its children are views, which have no children themselves.\<close>

definition leaf :: "desktop \<Rightarrow> u32 \<Rightarrow> bool" where
  "leaf d v \<longleftrightarrow> (\<exists>c. comps d v = Some c \<and> cclass c = CONSOLE_VIEW \<and> list_head (children c) = 0)"

lemma visit_leaves:
  assumes f: "\<And>c. children (f c) = children c \<and> cclass (f c) = cclass c"
    and b: "\<And>v d. leaf d v \<Longrightarrow> behind v d = Ok d"
  shows "nexts (elements (windows d)) node as vs \<Longrightarrow> 0 \<notin> set as \<Longrightarrow> distinct vs \<Longrightarrow> (\<And>v. v \<in> set vs \<Longrightarrow> leaf d v) \<Longrightarrow>
    visit (\<lambda>a. upd_component a f) behind (Inr node) d = Some (Ok (upd_set f (set vs) d))"
proof (induction as vs arbitrary: node d rule: list_induct2')
  case 1
  then show ?case by (subst visit.simps) simp
next
  case (4 a as v vs)
  obtain e where e: "elements (windows d) a = Some e" "ldata e = v" "nexts (elements (windows d)) (lnext e) as vs" "node = a"
    using 4(2) by (auto split: option.splits)
  obtain c where c: "comps d v = Some c" "cclass c = CONSOLE_VIEW" "list_head (children c) = 0" using 4(5) [of v] by (auto simp: leaf_def)
  let ?d = "upd_set f {v} d"
  have u: "upd_component v f d = Ok ?d" using c(1) by (auto simp: upd_component_def get_component_def upd_set_def fun_eq_iff)
  have "leaf ?d v" using c f [of c] by (simp add: leaf_def)
  then have "visit (\<lambda>a. upd_component a f) behind (Inl v) d = Some (Ok ?d)" using visit_leaf [where before = "\<lambda>a. upd_component a f" and c = "f c", OF u] c f [of c] b by simp
  then have "visit (\<lambda>a. upd_component a f) behind (Inr node) d = visit (\<lambda>a. upd_component a f) behind (Inr (lnext e)) ?d"
    using e 4(3) by (subst visit.simps) (simp add: get_element_def)
  also have "\<dots> = Some (Ok (upd_set f (set vs) ?d))"
  proof (rule 4(1))
    show "leaf ?d w" if "w \<in> set vs" for w using that 4(4) 4(5) [of w] by (auto simp: leaf_def)
  qed (use e 4(3,4) in auto)
  also have "upd_set f (set vs) ?d = upd_set f (set (v # vs)) d" using 4(4) by (auto simp: upd_set_def fun_eq_iff)
  finally show ?case .
qed simp_all

definition window_ok :: "desktop \<Rightarrow> u32 \<Rightarrow> u32 list \<Rightarrow> bool" where
  "window_ok d w vs \<longleftrightarrow> (\<exists>c as. comps d w = Some c \<and> cclass c = WINDOW \<and> nexts (elements (windows d)) (list_head (children c)) as vs \<and>
     0 \<notin> set as \<and> distinct (w # vs) \<and> (\<forall>v\<in>set vs. leaf d v))"

lemma Move_window:
  assumes "window_ok d w vs"
  shows "Move w x y d = Ok ((upd_set (\<lambda>c. c\<lparr>cbounds := SetPosition x y (cbounds c)\<rparr>) (set (w # vs)) d)\<lparr>ddirty := True\<rparr>)"
proof -
  obtain c as where c: "comps d w = Some c" "cclass c = WINDOW" "nexts (elements (windows d)) (list_head (children c)) as vs"
    "0 \<notin> set as" "w \<notin> set vs" "distinct vs" "\<And>v. v \<in> set vs \<Longrightarrow> leaf d v" using assms by (auto simp: window_ok_def)
  let ?f = "\<lambda>c. c\<lparr>cbounds := SetPosition x y (cbounds c)\<rparr>" and ?d = "upd_set (\<lambda>c. c\<lparr>cbounds := SetPosition x y (cbounds c)\<rparr>) {w} d"
  let ?b = "\<lambda>a d. obind (get_component a d) (\<lambda>c. Ok (if cclass c = WINDOW then d\<lparr>ddirty := True\<rparr> else d))"
  have u: "upd_component w ?f d = Ok ?d" using c(1) by (auto simp: upd_component_def get_component_def upd_set_def fun_eq_iff)
  have "visit (\<lambda>a. upd_component a ?f) ?b (Inr (list_head (children c))) ?d = Some (Ok (upd_set ?f (set vs) ?d))"
  proof (rule visit_leaves)
    show "leaf ?d v" if "v \<in> set vs" for v using c(5,7) that by (auto simp: leaf_def)
  qed (use c in \<open>auto simp: leaf_def get_component_def\<close>)
  moreover have "upd_set ?f (set vs) ?d = upd_set ?f (set (w # vs)) d" using c(5) by (auto simp: upd_set_def fun_eq_iff)
  ultimately have "visit (\<lambda>a. upd_component a ?f) ?b (Inl w) d = Some (?b w (upd_set ?f (set (w # vs)) d))"
    using u c(1) by (subst visit.simps) (simp add: get_component_def)
  then show ?thesis using c(1,2) by (simp add: Move_def get_component_def)
qed

text \<open>A desktop with two windows, the second in front of the first and with the pointer on both.\<close>

definition some_window :: "rect \<Rightarrow> component" where
  "some_window b = \<lparr>cclass = WINDOW, cbounds = b, cdirty = True, children_at = 0,
     children = \<lparr>list_size = 0, destroyer = True, list_head = 0, list_tail = 0\<rparr>, has_focus = False, title = [0],
     close_bounds = Rect (rect_width b - 16) 8 16 16\<rparr>"

definition demo :: desktop where
  "demo = \<lparr>dpainter = None, dbounds = Rect 0 0 640 480, cursor_x = 50, cursor_y = 60, ddirty = False, window_list = 4,
     windows = \<lparr>lheap = slot_heap,
       elements = (\<lambda>_. None)(0xD0000004 \<mapsto> \<lparr>ldata = 100, lnext = 0xD0000018, lprev = 0\<rparr>, 0xD0000018 \<mapsto> \<lparr>ldata = 200, lnext = 0, lprev = 0xD0000004\<rparr>),
       llist = \<lparr>list_size = 2, destroyer = True, list_head = 0xD0000004, list_tail = 0xD0000018\<rparr>\<rparr>,
     comps = (\<lambda>_. None)(100 \<mapsto> some_window (Rect 0 0 300 300), 200 \<mapsto> some_window (Rect 40 40 100 100)), video = (\<lambda>_. 0)\<rparr>"

definition demo_event :: "u8 \<Rightarrow> mouse_event" where
  "demo_event typ = \<lparr>start_x = 3, start_y = 4, ev_x = 0, ev_y = 0, delta_x = 5, delta_y = 2, button_states = 0, active_button = 0,
     ev_type = typ, consumed = 0\<rparr>"

lemma demo_list: "linv (windows demo) [100, 200] [0xD0000004, 0xD0000018] (slots - {0xD0000004, 0xD0000018})"
proof -
  have "slot 0 = 0xD0000004" "slot 1 = 0xD0000018" by (simp_all add: slot_def)
  then have "0xD0000004 \<in> slots" "0xD0000018 \<in> slots" unfolding slots_def by (metis imageI lessThan_iff zero_less_numeral one_less_numeral_iff semiring_norm(76))+
  then have "set [0xD0000004, 0xD0000018] \<union> (slots - {0xD0000004, 0xD0000018}) = slots" by auto
  then show ?thesis using slot_heap_live by (simp add: linv_def demo_def)
qed

text \<open>
  Dragging the title bar of a window moves the window and everything on it by the distance the mouse has moved, marks the
  desktop for drawing, consumes the event and changes nothing else
\<close>

theorem drag_moves_window:
  assumes "window_ok d w vs" and "comps d w = Some c" and "ev_type ev = MOUSE_EVENT_DRAGGED" and "sint (start_y ev) < 32"
  shows "HandleMouseEvent w ev d = Ok (ev\<lparr>consumed := 1\<rparr>,
    (upd_set (\<lambda>c'. c'\<lparr>cbounds := SetPosition (rect_x (cbounds c) + delta_x ev) (rect_y (cbounds c) - delta_y ev) (cbounds c')\<rparr>)
       (set (w # vs)) d)\<lparr>ddirty := True\<rparr>)"
proof -
  have "cclass c = WINDOW" using assms(1,2) by (auto simp: window_ok_def)
  then show ?thesis using assms(2-4) Move_window [OF assms(1)] by (simp add: HandleMouseEvent_def get_component_def)
qed

theorem drag_moves_window_witness:
  "\<exists>ev d. HandleMouseEvent 200 (demo_event MOUSE_EVENT_DRAGGED) demo = Ok (ev, d) \<and> consumed ev = 1 \<and>
    map_option cbounds (comps d 200) = Some (Rect 45 38 100 100) \<and> map_option cbounds (comps d 100) = Some (Rect 0 0 300 300)"
proof -
  have ok: "window_ok demo 200 []" by (auto simp: window_ok_def demo_def some_window_def intro!: exI [of _ "[]"])
  have c: "comps demo 200 = Some (some_window (Rect 40 40 100 100))" by (simp add: demo_def)
  show ?thesis using drag_moves_window [OF ok c, of "demo_event MOUSE_EVENT_DRAGGED"]
    by (simp add: demo_event_def demo_def some_window_def SetPosition_def Rect_def)
qed

subsection \<open>Which window gets an event\<close>

text \<open>The windows from the last one on, along the previous pointers.\<close>

fun prevs :: "(u32 \<Rightarrow> 'd list_element option) \<Rightarrow> u32 \<Rightarrow> u32 list \<Rightarrow> 'd list \<Rightarrow> bool" where
  "prevs m p [] [] = (p = 0)"
| "prevs m p (a # as) (x # xs) = (p = a \<and> (case m a of Some e \<Rightarrow> ldata e = x \<and> prevs m (lprev e) as xs | None \<Rightarrow> False))"
| "prevs m p as xs = False"

definition bounds_of :: "desktop \<Rightarrow> u32 \<Rightarrow> rect" where
  "bounds_of d w = cbounds (the (comps d w))"

definition is_window :: "desktop \<Rightarrow> u32 \<Rightarrow> bool" where
  "is_window d w \<longleftrightarrow> (\<exists>c. comps d w = Some c \<and> cclass c = WINDOW)"

lemma offset_event_again [simp]: "offset_event sx sy x y b (offset_event sx sy x y b' ev) = offset_event sx sy x y b ev"
  by (simp add: offset_event_def)

lemma HandleMouseEvent_consumes: "is_window d w \<Longrightarrow> HandleMouseEvent w ev d = Ok (ev', d') \<Longrightarrow> consumed ev' = 1"
  by (auto simp: is_window_def HandleMouseEvent_def get_component_def)

lemma event_loop_find:
  assumes "prevs (elements (windows d)) node as ws" "0 \<notin> set as" "\<And>w. w \<in> set ws \<Longrightarrow> is_window d w"
  shows "case find (\<lambda>w. rect_contains sx sy (bounds_of d w)) ws of
      None \<Rightarrow> \<exists>ev'. event_loop node sx sy ev d = Some (Ok (ev', d))
    | Some w \<Rightarrow> event_loop node sx sy ev d = Some (HandleMouseEvent w (offset_event sx sy (cursor_x d) (cursor_y d) (bounds_of d w) ev) d)"
  using assms
proof (induction as ws arbitrary: node ev rule: list_induct2')
  case 1
  then show ?case by (subst event_loop.simps) simp
next
  case (4 a as w ws)
  obtain e where e: "elements (windows d) a = Some e" "ldata e = w" "prevs (elements (windows d)) (lprev e) as ws" "node = a"
    using 4(2) by (auto split: option.splits)
  obtain c where c: "comps d w = Some c" "cclass c = WINDOW" using 4(4) [of w] by (auto simp: is_window_def)
  have bo: "bounds_of d w = cbounds c" using c by (simp add: bounds_of_def)
  let ?ev = "\<lambda>w. offset_event sx sy (cursor_x d) (cursor_y d) (bounds_of d w) ev"
  show ?case
  proof (cases "rect_contains sx sy (bounds_of d w)")
    case True
    have "lift_bind (HandleMouseEvent w (?ev w) d) (\<lambda>(ev2, d2). if consumed ev2 \<noteq> 0 then Some (Ok (ev2, d2)) else g ev2 d2) = Some (HandleMouseEvent w (?ev w) d)" for g
      using HandleMouseEvent_consumes [of d w "?ev w"] c by (cases "HandleMouseEvent w (?ev w) d") (auto simp: is_window_def)
    then have "event_loop node sx sy ev d = Some (HandleMouseEvent w (?ev w) d)"
      using True e c 4(3) bo by (subst event_loop.simps) (simp add: get_element_def get_component_def Let_def)
    then show ?thesis using True by simp
  next
    case False
    have "event_loop node sx sy ev d = event_loop (lprev e) sx sy (?ev w) d"
      using False e c 4(3) bo by (subst event_loop.simps) (simp add: get_element_def get_component_def Let_def)
    moreover note 4(1) [OF e(3), of "?ev w"]
    ultimately show ?thesis using False 4(3,4) by (simp split: option.splits)
  qed
qed simp_all

lemma move_cursor_fields [simp]:
  "windows (move_cursor ev d) = windows d" "comps (move_cursor ev d) = comps d" "bounds_of (move_cursor ev d) = bounds_of d" "is_window (move_cursor ev d) = is_window d"
  by (simp_all add: move_cursor_def bounds_of_def is_window_def fun_eq_iff)

text \<open>
  C21: the mouse moves the pointer within the screen; its event goes to the last window in the list that the pointer was on, with the
  coordinates relative to that window, and to no other; without such a window nothing else changes
\<close>

theorem mouse_event_dispatch:
  assumes "prevs (elements (windows d)) (list_tail (llist (windows d))) as ws" and "0 \<notin> set as" and "\<forall>w\<in>set ws. is_window d w"
    and "0 \<le> sint (rect_width (dbounds d))" and "0 \<le> sint (rect_height (dbounds d))"
  shows "(case find (\<lambda>w. rect_contains (cursor_x d) (cursor_y d) (bounds_of d w)) ws of
      None \<Rightarrow> \<exists>ev'. Desktop_HandleMouseEvent ev d = Ok (ev', move_cursor ev d)
    | Some w \<Rightarrow> Desktop_HandleMouseEvent ev d = HandleMouseEvent w
        (offset_event (cursor_x d) (cursor_y d) (cursor_x (move_cursor ev d)) (cursor_y (move_cursor ev d)) (bounds_of d w) ev) (move_cursor ev d)) \<and>
    sint (cursor_x (move_cursor ev d)) \<in> {0..sint (rect_width (dbounds d))} \<and>
    sint (cursor_y (move_cursor ev d)) \<in> {0..sint (rect_height (dbounds d))}"
proof -
  have c: "sint (clamp x 0 hi) \<in> {0..sint hi}" if "0 \<le> sint hi" for x hi using sint_clamp [of 0 hi x] that by simp
  have "case find (\<lambda>w. rect_contains (cursor_x d) (cursor_y d) (bounds_of (move_cursor ev d) w)) ws of
      None \<Rightarrow> \<exists>ev'. event_loop (list_tail (llist (windows d))) (cursor_x d) (cursor_y d) ev (move_cursor ev d) = Some (Ok (ev', move_cursor ev d))
    | Some w \<Rightarrow> event_loop (list_tail (llist (windows d))) (cursor_x d) (cursor_y d) ev (move_cursor ev d) = Some (HandleMouseEvent w
        (offset_event (cursor_x d) (cursor_y d) (cursor_x (move_cursor ev d)) (cursor_y (move_cursor ev d)) (bounds_of (move_cursor ev d) w) ev) (move_cursor ev d))"
    by (rule event_loop_find [where as = as]) (use assms in auto)
  moreover have "sint (cursor_x (move_cursor ev d)) \<in> {0..sint (rect_width (dbounds d))}" "sint (cursor_y (move_cursor ev d)) \<in> {0..sint (rect_height (dbounds d))}"
    using c [OF assms(4), of "cursor_x d + delta_x ev"] c [OF assms(5), of "cursor_y d - delta_y ev"] by (simp_all add: move_cursor_def)
  ultimately show ?thesis by (auto simp: Desktop_HandleMouseEvent_def Let_def split: option.splits)
qed

theorem mouse_event_dispatch_witness:
  "\<exists>ev. Desktop_HandleMouseEvent (demo_event MOUSE_EVENT_MOVED) demo = Ok (ev, move_cursor (demo_event MOUSE_EVENT_MOVED) demo) \<and>
    consumed ev = 1 \<and> ev_x ev = 15 \<and> ev_y ev = 18"
proof -
  have p: "prevs (elements (windows demo)) (list_tail (llist (windows demo))) [0xD0000018, 0xD0000004] [200, 100]" by (simp add: demo_def)
  have w: "\<forall>w\<in>set [200, 100]. is_window demo w" by (simp add: is_window_def demo_def some_window_def)
  have s: "0 \<le> sint (rect_width (dbounds demo))" "0 \<le> sint (rect_height (dbounds demo))" by (simp_all add: demo_def Rect_def)
  have hit: "rect_contains (cursor_x demo) (cursor_y demo) (bounds_of demo 200)" by (simp add: demo_def bounds_of_def some_window_def Rect_def rect_contains_def)
  have "Desktop_HandleMouseEvent (demo_event MOUSE_EVENT_MOVED) demo = HandleMouseEvent 200
      (offset_event 50 60 55 58 (Rect 40 40 100 100) (demo_event MOUSE_EVENT_MOVED)) (move_cursor (demo_event MOUSE_EVENT_MOVED) demo)"
    using mouse_event_dispatch [OF p _ w s, of "demo_event MOUSE_EVENT_MOVED"] hit
    by (simp add: bounds_of_def) (simp add: demo_def some_window_def move_cursor_def demo_event_def clamp_def Rect_def)
  then show ?thesis
    by (simp add: HandleMouseEvent_def get_component_def offset_event_def Rect_def) (simp add: demo_def some_window_def demo_event_def)
qed

subsection \<open>The button that closes a window\<close>

text \<open>
  Of the 16 columns of the button that is drawn on a window only the last two react: the region that closes the window begins 14 columns
  further to the right
\<close>

theorem close_button_mismatch:
  assumes "cbounds c = Rect x y w h" and "close_bounds c = Rect (rect_width (cbounds c) - 16) 8 16 16" and "30 \<le> unat w" and "unat w < 2 ^ 31"
    and "i < 16" and "j < 4"
  shows "rect_contains (rect_x (close_button (cbounds c)) + of_nat i - rect_x (cbounds c)) (rect_y (close_button (cbounds c)) + of_nat j - rect_y (cbounds c)) (close_bounds c)
    \<longleftrightarrow> 14 \<le> i"
proof -
  let ?n = "unat w"
  have s: "sint (of_nat k :: u32) = int k" if "k < 2 ^ 31" for k by (rule sint_of_nat [OF that])
  have w: "w - of_nat k = of_nat (?n - k)" if "k \<le> ?n" for k using that by (simp add: of_nat_diff)
  have px: "rect_x (close_button (cbounds c)) + of_nat i - rect_x (cbounds c) = of_nat (?n - 30 + i)"
    using w [of 30] assms(1,3) by (simp add: close_button_def Rect_def algebra_simps)
  have py: "rect_y (close_button (cbounds c)) + of_nat j - rect_y (cbounds c) = of_nat (14 + j)"
    using assms(1) by (simp add: close_button_def Rect_def algebra_simps)
  have cb: "close_bounds c = \<lparr>rect_x = of_nat (?n - 16), rect_y = of_nat 8, rect_x2 = of_nat ?n, rect_y2 = of_nat 24, rect_width = 16, rect_height = 16\<rparr>"
    using w [of 16] assms(1,2,3) by (simp add: Rect_def)
  have sx: "sint (of_nat (?n - 30 + i) :: u32) = int (?n - 30 + i)" "sint (of_nat (?n - 16) :: u32) = int (?n - 16)" "sint (of_nat ?n :: u32) = int ?n"
    "sint (of_nat (14 + j) :: u32) = int (14 + j)" "sint (of_nat 8 :: u32) = int 8" "sint (of_nat 24 :: u32) = int 24"
    by (rule s, use assms in linarith)+
  show ?thesis unfolding px py cb rect_contains_def by (simp only: rect.simps sx) (use assms in linarith)
qed

theorem close_button_mismatch_witness:
  "rect_contains (rect_x (close_button (Rect 40 40 100 100)) + 13 - 40) (rect_y (close_button (Rect 40 40 100 100)) + 2 - 40) (close_bounds (some_window (Rect 40 40 100 100))) = False \<and>
   rect_contains (rect_x (close_button (Rect 40 40 100 100)) + 14 - 40) (rect_y (close_button (Rect 40 40 100 100)) + 2 - 40) (close_bounds (some_window (Rect 40 40 100 100))) = True"
  using close_button_mismatch [of "some_window (Rect 40 40 100 100)" 40 40 100 100 13 2] close_button_mismatch [of "some_window (Rect 40 40 100 100)" 40 40 100 100 14 2]
  by (simp add: some_window_def Rect_def)

subsection \<open>Closing a window\<close>

lemma close_loop_finds:
  "nexts (elements l) p (as @ a # as') (xs @ w # xs') \<Longrightarrow> length as = length xs \<Longrightarrow> w \<notin> set xs \<Longrightarrow> 0 \<notin> set (as @ [a]) \<Longrightarrow>
    close_loop w p l = lift_bind (list_remove_next a l) (\<lambda>(_, _, l'). Some (Ok l'))"
proof (induction as arbitrary: p xs)
  case Nil
  then obtain e where "p = a" "elements l a = Some e" "ldata e = w" by (auto split: option.splits)
  then show ?case using Nil(4) by (subst close_loop.simps) (simp add: get_element_def)
next
  case (Cons c as)
  then obtain x ys where xs: "xs = x # ys" by (cases xs) auto
  obtain e where e: "p = c" "elements l c = Some e" "ldata e = x" "nexts (elements l) (lnext e) (as @ a # as') (ys @ w # xs')"
    using Cons(2) xs by (auto split: option.splits)
  have "close_loop w p l = close_loop w (lnext e) l"
    using e Cons(4,5) xs by (subst close_loop.simps) (auto simp: get_element_def)
  then show ?case using Cons(1) [OF e(4)] Cons(3-5) xs by simp
qed

text \<open>
  C22: closing a window removes not that window from the list but the one behind it; closing the last window of the list changes
  nothing
\<close>

theorem close_window_removes_next:
  assumes "linv (windows d) (xs @ w # ys) as L" and "w \<notin> set xs"
  shows "case ys of [] \<Rightarrow> CloseWindow w d = Ok (d\<lparr>ddirty := True\<rparr>)
    | y # zs \<Rightarrow> \<exists>l. CloseWindow w d = Ok (d\<lparr>windows := l, ddirty := True\<rparr>) \<and> lrep l (xs @ w # zs) L"
proof (cases ys)
  case Nil
  have N: "nexts (elements (windows d)) (list_head (llist (windows d))) as (xs @ [w])" "0 \<notin> set as" using assms(1) Nil by (simp_all add: linv_def)
  have "length as = Suc (length xs)" using nexts_length [OF N(1)] by simp
  then obtain as1 a where as: "as = as1 @ [a]" "length as1 = length xs" by (cases as rule: rev_cases) auto
  obtain e where e: "elements (windows d) a = Some e" "lnext e = 0" using nexts_last [OF N(1) [unfolded as(1)] as(2)] by blast
  have "a \<noteq> 0" using N(2) as(1) by auto
  then have "list_remove_next a (windows d) = Ok (-1, None, windows d)" using e by (simp add: list_remove_next_def get_element_def)
  moreover have "close_loop w (list_head (llist (windows d))) (windows d) = lift_bind (list_remove_next a (windows d)) (\<lambda>(_, _, l'). Some (Ok l'))"
    by (rule close_loop_finds [OF _ as(2) assms(2), where as' = "[]" and xs' = "[]"]) (use N as in auto)
  ultimately show ?thesis using Nil by (simp add: CloseWindow_def)
next
  case (Cons y zs)
  then have I: "linv (windows d) (xs @ w # y # zs) as L" using assms(1) by simp
  then have N: "nexts (elements (windows d)) (list_head (llist (windows d))) as (xs @ w # y # zs)" "0 \<notin> set as" by (simp_all add: linv_def)
  from remove_next_inner [OF I] obtain as1 a as2 l' where r: "as = as1 @ a # as2" "length as1 = length xs"
    "list_remove_next a (windows d) = Ok (0, Some y, l')" "lrep l' (xs @ w # zs) L" by blast
  have "close_loop w (list_head (llist (windows d))) (windows d) = lift_bind (list_remove_next a (windows d)) (\<lambda>(_, _, l'). Some (Ok l'))"
    by (rule close_loop_finds [OF _ r(2) assms(2), where as' = as2 and xs' = "y # zs"]) (use N r(1) in auto)
  then show ?thesis using r(3,4) Cons by (auto simp: CloseWindow_def intro!: exI [of _ l'])
qed

theorem close_window_removes_next_witness:
  "CloseWindow 200 demo = Ok (demo\<lparr>ddirty := True\<rparr>) \<and>
   (\<exists>l. CloseWindow 100 demo = Ok (demo\<lparr>windows := l, ddirty := True\<rparr>) \<and> lrep l [100] (slots - {0xD0000004, 0xD0000018}))"
  using close_window_removes_next [of demo "[100]" 200 "[]"] close_window_removes_next [of demo "[]" 100 "[200]"] demo_list by auto

subsection \<open>Opening windows\<close>

text \<open>A computation that ends in a panic or in a state with \<open>P\<close>.\<close>

definition ends :: "('a \<Rightarrow> bool) \<Rightarrow> 'a outcome \<Rightarrow> bool" where
  "ends P m \<longleftrightarrow> (\<exists>e. m = Panic e) \<or> (\<exists>x. m = Ok x \<and> P x)"

lemma ends_bind: "ends P m \<Longrightarrow> (\<And>x. P x \<Longrightarrow> ends Q (f x)) \<Longrightarrow> ends Q (obind m f)"
  by (cases m) (simp_all add: ends_def)

lemma ends_Ok [simp]: "ends P (Ok x) = P x"
  by (simp add: ends_def)

lemma ends_not_returns: "ends P m \<Longrightarrow> (\<And>x. P x \<Longrightarrow> \<not> returns (f x)) \<Longrightarrow> \<not> returns (obind m f)"
  by (auto simp: ends_def returns_iff)

text \<open>The list of windows is empty, and the heap consistent.\<close>

definition idle :: "desktop \<Rightarrow> bool" where
  "idle d \<longleftrightarrow> (\<exists>L. linv (windows d) [] [] L)"

lemma idle_alloc: "idle d \<Longrightarrow> unat n \<le> 2 ^ 28 \<Longrightarrow> ends (\<lambda>(p, d'). idle d' \<and> comps d' = comps d \<and> (dpainter d' = dpainter d)) (alloc n d)"
proof -
  assume i: "idle d" and n: "unat n \<le> 2 ^ 28"
  then obtain L where L: "linv (windows d) [] [] L" by (auto simp: idle_def)
  then have "heap_live (lheap (windows d)) L" by (simp add: linv_def)
  from km.alloc_cases [OF this n] show ?thesis
  proof cases
    case (2 p k)
    then have "linv ((windows d)\<lparr>lheap := k\<rparr>) [] [] (insert p L)" using L by (simp add: linv_def)
    then show ?thesis using 2(1) by (auto simp: alloc_def idle_def)
  qed (simp add: alloc_def ends_def)
qed

lemma idle_comps [simp]: "idle (d\<lparr>comps := c\<rparr>) = idle d" "idle (d\<lparr>dpainter := p\<rparr>) = idle d"
  by (simp_all add: idle_def)

definition no_children :: "linked_list" where
  "no_children = \<lparr>list_size = 0, destroyer = True, list_head = 0, list_tail = 0\<rparr>"

lemma idle_component:
  assumes "idle d" shows "ends (\<lambda>d'. idle d' \<and> comps d' this \<noteq> None \<and> children (the (comps d' this)) = no_children \<and>
    (\<forall>a. a \<noteq> this \<longrightarrow> comps d' a = comps d a)) (UIComponent this cl b d)"
proof -
  have "unat sizeof_LinkedList \<le> 2 ^ 28" by simp
  from idle_alloc [OF assms this] show ?thesis
    unfolding UIComponent_def by (rule ends_bind) (auto simp: list_init_def upd_list_def no_children_def)
qed

lemma idle_upd: "idle d \<Longrightarrow> comps d a \<noteq> None \<Longrightarrow> ends (\<lambda>d'. idle d' \<and> comps d' = (comps d)(a \<mapsto> f (the (comps d a)))) (upd_component a f d)"
  by (auto simp: upd_component_def get_component_def)

lemma idle_window:
  assumes "idle d" "length (takeWhile (\<lambda>c. c \<noteq> 0) str) < 2 ^ 20"
  shows "ends (\<lambda>d'. idle d' \<and> (\<exists>c. comps d' this = Some c \<and> children c = no_children) \<and> (\<forall>a. a \<noteq> this \<longrightarrow> comps d' a = comps d a)) (Window this b str d)"
proof -
  let ?len = "length (takeWhile (\<lambda>c. c \<noteq> 0) str)"
  have "unat (of_nat ?len + 1 :: u32) \<le> 2 ^ 28" using assms(2) unat_of_nat_small [of "Suc ?len"] by (simp add: add.commute)
  note al = idle_alloc [OF _ this]
  show ?thesis
    unfolding Window_def Let_def
  proof (rule ends_bind [OF idle_component [OF assms(1)]], elim conjE)
    fix d1 assume d1: "idle d1" "comps d1 this \<noteq> None" "children (the (comps d1 this)) = no_children"
      "\<forall>a. a \<noteq> this \<longrightarrow> comps d1 a = comps d a"
    show "ends (\<lambda>d'. idle d' \<and> (\<exists>c. comps d' this = Some c \<and> children c = no_children) \<and> (\<forall>a. a \<noteq> this \<longrightarrow> comps d' a = comps d a))
      (obind (alloc (of_nat ?len + 1) d1) (\<lambda>(_, d2). upd_component this (\<lambda>c. c\<lparr>close_bounds := Rect (rect_width b - 16) 8 16 16, title := take (?len + 1) str\<rparr>) d2))"
    proof (rule ends_bind [OF al [OF d1(1)]], clarify)
      fix p d2 assume "idle d2" "comps d2 = comps d1"
      then show "ends (\<lambda>d'. idle d' \<and> (\<exists>c. comps d' this = Some c \<and> children c = no_children) \<and> (\<forall>a. a \<noteq> this \<longrightarrow> comps d' a = comps d a))
        (upd_component this (\<lambda>c. c\<lparr>close_bounds := Rect (rect_width b - 16) 8 16 16, title := take (?len + 1) str\<rparr>) d2)"
        using d1(2-4) by (auto simp: upd_component_def get_component_def)
    qed
  qed
qed

lemma idle_add:
  assumes "idle d" "comps d w = Some c" "children c = no_children" "comps d v \<noteq> None"
  shows "ends (\<lambda>d'. idle d' \<and> (\<forall>a. comps d a \<noteq> None \<longrightarrow> comps d' a \<noteq> None)) (AddComponent w v d)"
proof -
  obtain L where L: "linv (windows d) [] [] L" using assms(1) by (auto simp: idle_def)
  let ?l = "(windows d)\<lparr>llist := children c\<rparr>"
  have "linv ?l [] [] L" using L assms(3) by (simp add: linv_def no_children_def)
  then have "lrep ?l [] L" by (auto simp: lrep_def)
  moreover have "length ([] :: u32 list) < 2 ^ 31 - 1" by simp
  ultimately show ?thesis using ll.push_step [of ?l "[]" L v]
  proof (elim meta_impE disjE exE conjE)
    fix l' assume l': "list_insert_next 0 v ?l = Ok (0, l')" "lrep l' [v] L"
    then obtain as where I: "linv l' [v] as L" by (auto simp: lrep_def)
    have "linv (l'\<lparr>llist := llist (windows d)\<rparr>) [] [] (set as \<union> L)" using I L by (simp add: linv_def)
    then show ?thesis using l'(1) assms(2) by (auto simp: AddComponent_def get_component_def upd_component_def idle_def)
  qed (use assms(2) in \<open>auto simp: AddComponent_def get_component_def ends_def\<close>)
qed

lemma idle_console:
  assumes "idle d" shows "ends (\<lambda>d'. idle d' \<and> comps d' g \<noteq> None) (GConsole g x y d)"
proof -
  have "length (takeWhile (\<lambda>c. c \<noteq> 0) [67, 79, 78, 83, 79, 76, 69, 0 :: u8]) < 2 ^ 20" by simp
  note win = idle_window [OF assms this, where this = g and b = "Rect x y (79 * 12 + 24) (24 * 17)"]
  have sz: "unat sizeof_ConsoleView \<le> 2 ^ 28" by simp
  show ?thesis
    unfolding GConsole_def
  proof (rule ends_bind [OF win], elim conjE exE)
    fix d1 c assume d1: "idle d1" "comps d1 g = Some c" "children c = no_children"
    have "ends (\<lambda>d'. idle d' \<and> comps d' g \<noteq> None) (obind (alloc sizeof_ConsoleView d1) (\<lambda>(v, d2). obind (UIComponent v CONSOLE_VIEW (cbounds c) d2) (AddComponent g v)))"
    proof (rule ends_bind [OF idle_alloc [OF d1(1) sz]], clarify)
      fix v d2 assume d2: "idle d2" "comps d2 = comps d1"
      show "ends (\<lambda>d'. idle d' \<and> comps d' g \<noteq> None) (obind (UIComponent v CONSOLE_VIEW (cbounds c) d2) (AddComponent g v))"
      proof (rule ends_bind [OF idle_component [OF d2(1)]], elim conjE)
        fix d3 assume d3: "idle d3" "comps d3 v \<noteq> None" "children (the (comps d3 v)) = no_children" "\<forall>a. a \<noteq> v \<longrightarrow> comps d3 a = comps d2 a"
        obtain c' where "comps d3 g = Some c'" "children c' = no_children" using d1(2,3) d2(2) d3(2-4) by (cases "g = v") auto
        from idle_add [OF d3(1) this d3(2)] this show "ends (\<lambda>d'. idle d' \<and> comps d' g \<noteq> None) (AddComponent g v d3)"
          by (auto simp: ends_def)
      qed
    qed
    then show "ends (\<lambda>d'. idle d' \<and> comps d' g \<noteq> None) (obind (get_component g d1) (\<lambda>c.
        obind (alloc sizeof_ConsoleView d1) (\<lambda>(v, d2). obind (UIComponent v CONSOLE_VIEW (cbounds c) d2) (AddComponent g v))))"
      using d1(2) by (simp add: get_component_def)
  qed
qed

lemma add_window_cases:
  assumes I: "linv (windows d) ws as L" and w: "comps d w \<noteq> None" and ws: "\<forall>v\<in>set ws. comps d v \<noteq> None"
  shows "(\<exists>e. AddWindow w d = Panic e) \<or>
    (if ws = [] then \<exists>d' as'. AddWindow w d = Ok d' \<and> linv (windows d') [w] as' L \<and> comps d' = (comps d)(w \<mapsto> (the (comps d w))\<lparr>has_focus := True\<rparr>) \<and> ddirty d'
     else AddWindow w d = Fault)"
proof (cases ws rule: rev_cases)
  case Nil
  then have tail: "list_tail (llist (windows d)) = 0" using I nexts_length by (fastforce simp: linv_def)
  have "lrep (windows d) [] L" using I Nil by (auto simp: lrep_def)
  moreover have "length ([] :: u32 list) < 2 ^ 31 - 1" by simp
  ultimately consider e where "list_insert_next 0 w (windows d) = Panic e" | l' where "list_insert_next 0 w (windows d) = Ok (0, l')" "lrep l' [w] L"
    using ll.push_step [of "windows d" "[]" L w] by auto
  then show ?thesis
  proof cases
    case (2 l')
    then show ?thesis using tail Nil w by (auto simp: AddWindow_def upd_component_def get_component_def lrep_def)
  qed (use tail in \<open>simp add: AddWindow_def\<close>)
next
  case (snoc xs x)
  have N: "nexts (elements (windows d)) (list_head (llist (windows d))) as (xs @ [x])" "0 \<notin> set as" "list_tail (llist (windows d)) = last_or as 0"
    using I snoc by (simp_all add: linv_def)
  have "length as = Suc (length xs)" using nexts_length [OF N(1)] by simp
  then obtain as1 a where as: "as = as1 @ [a]" "length as1 = length xs" by (cases as rule: rev_cases) auto
  obtain e where e: "elements (windows d) a = Some e" "ldata e = x" using nexts_last [OF N(1) [unfolded as(1)] as(2)] by blast
  have t: "list_tail (llist (windows d)) = a" "a \<noteq> 0" using N(2,3) as by auto
  have "lrep (windows d) (xs @ [x]) L" using I snoc by (auto simp: lrep_def)
  from insert_after_tail [OF this, of w] have "(\<exists>m. list_insert_next a w (windows d) = Panic m) \<or> list_insert_next a w (windows d) = Fault"
    by (simp add: t)
  moreover obtain c where "comps d x = Some c" using ws snoc by auto
  ultimately show ?thesis using t e snoc by (auto simp: AddWindow_def get_element_def upd_component_def get_component_def)
qed

text \<open>
  The first window that is added becomes the list of windows and has the focus; adding another one behind it dereferences NULL
\<close>

theorem second_window_faults:
  assumes "linv (windows d) ws as L" and "comps d w \<noteq> None" and "\<forall>v\<in>set ws. comps d v \<noteq> None"
  shows "(\<exists>e. AddWindow w d = Panic e) \<or>
    (if ws = [] then \<exists>d' as'. AddWindow w d = Ok d' \<and> linv (windows d') [w] as' L \<and> has_focus (the (comps d' w)) \<and> ddirty d'
     else AddWindow w d = Fault)"
  using add_window_cases [OF assms] by (cases "ws = []") auto

theorem second_window_faults_witness:
  "\<not> returns (AddWindow 200 demo)"
  using second_window_faults [OF demo_list, of 200] by (auto simp: demo_def)

lemma two_windows:
  assumes "idle d" "comps d w \<noteq> None" "comps d g \<noteq> None"
  shows "\<not> returns (obind (AddWindow g d) (AddWindow w))"
proof -
  obtain L where L: "linv (windows d) [] [] L" using assms(1) by (auto simp: idle_def)
  show ?thesis
  proof (cases "AddWindow g d")
    case (Ok d')
    then obtain as' where d': "linv (windows d') [g] as' L" "comps d' = (comps d)(g \<mapsto> (the (comps d g))\<lparr>has_focus := True\<rparr>)"
      using add_window_cases [OF L assms(3)] by auto
    have "comps d' w \<noteq> None" "\<forall>v\<in>set [g]. comps d' v \<noteq> None" using d'(2) assms(2) by auto
    from add_window_cases [OF d'(1) this] show ?thesis using Ok by auto
  qed simp_all
qed

lemma open_second:
  assumes "idle d" "comps d g \<noteq> None" "length (takeWhile (\<lambda>c. c \<noteq> 0) str) < 2 ^ 20"
  shows "\<not> returns (obind (alloc sizeof_Window d) (\<lambda>(w, d4). obind (Window w b str d4) (\<lambda>d5. obind (AddWindow g d5) (AddWindow w))))"
proof -
  have s: "\<not> returns (obind (Window w b str d4) (\<lambda>d5. obind (AddWindow g d5) (AddWindow w)))" if "idle d4" "comps d4 = comps d" for w d4
  proof (rule ends_not_returns [OF idle_window [OF that(1) assms(3)]], elim conjE exE)
    fix d5 c assume d5: "idle d5" "comps d5 w = Some c" "\<forall>a. a \<noteq> w \<longrightarrow> comps d5 a = comps d4 a"
    then have "comps d5 g \<noteq> None" using assms(2) that(2) by (cases "g = w") auto
    then show "\<not> returns (obind (AddWindow g d5) (AddWindow w))" using two_windows [OF d5(1)] d5(2) by simp
  qed
  have "unat sizeof_Window \<le> 2 ^ 28" by simp
  from idle_alloc [OF assms(1) this] show ?thesis by (rule ends_not_returns) (use s in auto)
qed

lemma Desktop_idle:
  assumes "heap_live (lheap l) L" and "elements l 0 = None"
  shows "ends idle (Desktop s l m)"
proof -
  have small: "unat sizeof_LinkedList \<le> 2 ^ 28" "unat sizeof_Painter \<le> 2 ^ 28" by simp_all
  have paint: "ends idle (obind (alloc sizeof_Painter d) (\<lambda>(_, d3). Ok (d3\<lparr>dpainter := p\<rparr>)))" if "idle d" for d p
    using idle_alloc [OF that small(2)] by (rule ends_bind) auto
  show ?thesis
  proof (cases rule: km.alloc_cases [OF assms(1) small(1)])
    case (1 e)
    then show ?thesis by (simp add: Desktop_def alloc_def ends_def Let_def)
  next
    case (2 p k)
    have "linv (list_init True (l\<lparr>lheap := k\<rparr>)) [] [] (insert p L)" using 2(2) assms(2) by (simp add: linv_def list_init_def upd_list_def)
    then have i: "idle d" if "windows d = list_init True (l\<lparr>lheap := k\<rparr>)" for d using that by (auto simp: idle_def)
    have "alloc sizeof_LinkedList d = Ok (p, d\<lparr>windows := l\<lparr>lheap := k\<rparr>\<rparr>)" if "windows d = l" for d using 2(1) that by (simp add: alloc_def)
    then show ?thesis by (simp add: Desktop_def Let_def i paint)
  qed
qed

text \<open>
  The process of the desktop, which opens two windows, never comes to its loop: unless the kernel panics, adding the second one
  dereferences NULL
\<close>

theorem desktop_start_fails:
  assumes "heap_live (lheap l) L" and "elements l 0 = None"
  shows "\<not> returns (desktop_start s l m)"
proof -
  have title: "length (takeWhile (\<lambda>c. c \<noteq> 0) [66, 73, 75, 69, 83, 72, 69, 68, 0 :: u8]) < 2 ^ 20" by simp
  have small: "unat sizeof_GConsole \<le> 2 ^ 28" by simp
  have s: "\<not> returns (obind (GConsole g 16 16 d2) (\<lambda>d3. obind (alloc sizeof_Window d3) (\<lambda>(w, d4).
      obind (Window w (Rect 200 200 400 400) [66, 73, 75, 69, 83, 72, 69, 68, 0] d4) (\<lambda>d5. obind (AddWindow g d5) (AddWindow w)))))" if "idle d2" for g d2
    using idle_console [OF that] by (rule ends_not_returns) (use open_second [OF _ _ title] in auto)
  have "\<not> returns (obind (alloc sizeof_GConsole d1) (\<lambda>(g, d2). obind (GConsole g 16 16 d2) (\<lambda>d3. obind (alloc sizeof_Window d3) (\<lambda>(w, d4).
      obind (Window w (Rect 200 200 400 400) [66, 73, 75, 69, 83, 72, 69, 68, 0] d4) (\<lambda>d5. obind (AddWindow g d5) (AddWindow w))))))" if "idle d1" for d1
    using idle_alloc [OF that small] by (rule ends_not_returns) (use s in auto)
  then show ?thesis unfolding desktop_start_def by (rule ends_not_returns [OF Desktop_idle [OF assms]])
qed

theorem desktop_start_fails_witness:
  "\<not> returns (desktop_start vga_screen (windows demo) (\<lambda>_. 0))"
proof -
  have "heap_live (lheap (windows demo)) slots" "elements (windows demo) 0 = None" using slot_heap_live by (simp_all add: demo_def)
  then show ?thesis by (rule desktop_start_fails)
qed

end
