(* ===== verification/Interrupts.thy ===== *)
theory Interrupts
  imports Prelude
begin

text \<open>
  The interrupt tables and the controllers, \<^verbatim>\<open>src/kernel/support.c\<close>. The stubs are assembler, their addresses the
  argument \<open>stub\<close>; the two tables and the bytes written to ports are the state. The messages
  of a panic are printed to the console and are left out.
\<close>

subsection \<open>State\<close>

record idt_gate =
  offset_15_0 :: u16
  segment_selector :: u16
  gate_flags :: u16
  offset_31_16 :: u16

datatype isr = Unexpected_handler | Expected_handler | Mystery_handler | Installed u32

record int_state =
  isr_table :: "u8 \<Rightarrow> isr"
  idt :: "u8 \<Rightarrow> idt_gate"
  port_writes :: "(u16 \<times> u8) list"

abbreviation (input) PIC_MASTER_CMD_PORT :: u16 where "PIC_MASTER_CMD_PORT \<equiv> 0x20"
abbreviation (input) PIC_MASTER_IMR_PORT :: u16 where "PIC_MASTER_IMR_PORT \<equiv> 0x21"
abbreviation (input) PIC_SLAVE_CMD_PORT :: u16 where "PIC_SLAVE_CMD_PORT \<equiv> 0xA0"
abbreviation (input) PIC_SLAVE_IMR_PORT :: u16 where "PIC_SLAVE_IMR_PORT \<equiv> 0xA1"
abbreviation (input) PIC_EOI :: u8 where "PIC_EOI \<equiv> 0x20"

definition port_out :: "u16 \<Rightarrow> u8 \<Rightarrow> int_state \<Rightarrow> int_state" where
  "port_out port v s = s\<lparr>port_writes := port_writes s @ [(port, v)]\<rparr>"

subsection \<open>Handlers\<close>

definition default_unexpected_handler :: "u8 \<Rightarrow> int_state \<Rightarrow> int_state outcome" where
  "default_unexpected_handler vector s = Panic ''Unexpected interrupt''"

definition default_expected_handler :: "u8 \<Rightarrow> int_state \<Rightarrow> int_state outcome" where
  "default_expected_handler vector s =
     (if vector \<ge> 0x20 \<and> vector < 0x30 then
        let s1 = port_out PIC_MASTER_CMD_PORT PIC_EOI s in
        Ok (if vector > 0x28 then port_out PIC_SLAVE_CMD_PORT PIC_EOI s1 else s1)
      else Panic ''Unexpected expected interrupt!'')"

definition default_mystery_handler :: "u8 \<Rightarrow> int_state \<Rightarrow> int_state outcome" where
  "default_mystery_handler vector s = Ok (port_out PIC_MASTER_CMD_PORT PIC_EOI s)"

text \<open>What the stub of a vector calls; a handler that another part has installed is the argument \<open>f\<close>.\<close>

definition call_isr :: "(u32 \<Rightarrow> u8 \<Rightarrow> int_state \<Rightarrow> int_state outcome) \<Rightarrow> u8 \<Rightarrow> int_state \<Rightarrow> int_state outcome" where
  "call_isr f vector s = (case isr_table s vector of
     Unexpected_handler \<Rightarrow> default_unexpected_handler vector s
   | Expected_handler \<Rightarrow> default_expected_handler vector s
   | Mystery_handler \<Rightarrow> default_mystery_handler vector s
   | Installed a \<Rightarrow> f a vector s)"

subsection \<open>Initialisation\<close>

definition install_isr :: "u8 \<Rightarrow> isr \<Rightarrow> int_state \<Rightarrow> isr \<times> int_state" where
  "install_isr vector handler s = (isr_table s vector, s\<lparr>isr_table := (isr_table s)(vector := handler)\<rparr>)"

definition set_idt_entry :: "u8 \<Rightarrow> u32 \<Rightarrow> int_state \<Rightarrow> int_state" where
  "set_idt_entry entry handler s = s\<lparr>idt := (idt s)(entry := \<lparr>
     offset_15_0 = ucast (handler AND 0xffff), segment_selector = 0x0010,
     gate_flags = 0x8000 OR 0x0000 OR 0x0e00, offset_31_16 = ucast (drop_bit 16 handler AND 0xffff)\<rparr>)\<rparr>"

definition init_idt :: "(u8 \<Rightarrow> u32) \<Rightarrow> int_state \<Rightarrow> int_state" where
  "init_idt stub s =
     (let s1 = fold (\<lambda>i s. snd (install_isr (of_nat i) Unexpected_handler (set_idt_entry (of_nat i) (stub (of_nat i)) s))) [0..<256] s in
      snd (install_isr 0x27 Mystery_handler (snd (install_isr 0x20 Expected_handler (snd (install_isr 0x21 Expected_handler s1))))))"

definition init_pic :: "int_state \<Rightarrow> int_state" where
  "init_pic s = fold (\<lambda>(p, v). port_out p v) [
     (PIC_MASTER_CMD_PORT, 0x10 OR 0x01), (PIC_SLAVE_CMD_PORT, 0x10 OR 0x01),
     (PIC_MASTER_IMR_PORT, 0x20), (PIC_SLAVE_IMR_PORT, 0x28),
     (PIC_MASTER_IMR_PORT, 0x04), (PIC_SLAVE_IMR_PORT, 0x02),
     (PIC_MASTER_IMR_PORT, 0x01), (PIC_SLAVE_IMR_PORT, 0x01),
     (PIC_MASTER_IMR_PORT, 0x00), (PIC_SLAVE_IMR_PORT, 0x00)] s"

definition init_interrupts :: "(u8 \<Rightarrow> u32) \<Rightarrow> int_state \<Rightarrow> int_state" where
  "init_interrupts stub s = init_pic (init_idt stub s)"

subsection \<open>Reading the tables\<close>

text \<open>The address the processor takes from a gate.\<close>

definition gate_offset :: "idt_gate \<Rightarrow> u32" where
  "gate_offset g = push_bit 16 (ucast (offset_31_16 g)) OR ucast (offset_15_0 g)"

lemma gate_offset_entry: "push_bit 16 (ucast (ucast (drop_bit 16 h AND 0xffff) :: u16)) OR ucast (ucast (h AND 0xffff) :: u16) = (h :: u32)"
proof -
  have m: "(0xffff :: u32) = mask 16" by code_simp
  show ?thesis unfolding m by (rule bit_eqI) (auto simp: bit_simps)
qed

lemma idt_loop:
  fixes stub :: "u8 \<Rightarrow> u32"
  shows "n \<le> 256 \<Longrightarrow>
    (let t = fold (\<lambda>i s. snd (install_isr (of_nat i) Unexpected_handler (set_idt_entry (of_nat i) (stub (of_nat i)) s))) [0..<n] s in
     port_writes t = port_writes s \<and> (\<forall>i<n. isr_table t (of_nat i) = Unexpected_handler \<and> gate_offset (idt t (of_nat i)) = stub (of_nat i) \<and>
       segment_selector (idt t (of_nat i)) = 0x10 \<and> gate_flags (idt t (of_nat i)) = 0x8e00))"
proof (induction n)
  case (Suc n)
  then show ?case
    by (auto simp: Let_def install_isr_def set_idt_entry_def gate_offset_def gate_offset_entry less_Suc_eq)
qed simp

subsection \<open>Properties\<close>

text \<open>
  After the initialisation, whatever the tables held, the gate of every vector is a present 32-bit interrupt gate that leads to the
  stub of that vector, every interrupt but the timer, the keyboard and the mystery one panics, and the controllers
  are given the vectors from 0x20 and from 0x28.
\<close>

theorem init_interrupts_correct:
  "gate_offset (idt (init_interrupts stub s) v) = stub v \<and> segment_selector (idt (init_interrupts stub s) v) = 0x10 \<and>
   gate_flags (idt (init_interrupts stub s) v) = 0x8e00 \<and>
   isr_table (init_interrupts stub s) v =
     (if v = 0x20 \<or> v = 0x21 then Expected_handler else if v = 0x27 then Mystery_handler else Unexpected_handler) \<and>
   port_writes (init_interrupts stub s) = port_writes s @
     [(0x20, 0x11), (0xA0, 0x11), (0x21, 0x20), (0xA1, 0x28), (0x21, 4), (0xA1, 2), (0x21, 1), (0xA1, 1), (0x21, 0), (0xA1, 0)]"
proof -
  obtain i where i: "i < 256" "v = of_nat i" by (rule that [of "unat v"]) (use unsigned_less [of v] in simp_all)
  let ?t = "fold (\<lambda>i s. snd (install_isr (of_nat i) Unexpected_handler (set_idt_entry (of_nat i) (stub (of_nat i)) s))) [0..<256] s"
  have "port_writes ?t = port_writes s" "isr_table ?t v = Unexpected_handler" "gate_offset (idt ?t v) = stub v"
    "segment_selector (idt ?t v) = 0x10" "gate_flags (idt ?t v) = 0x8e00"
    using idt_loop [of 256 stub s] i unfolding Let_def by auto
  moreover have "init_interrupts stub s = init_pic (snd (install_isr 0x27 Mystery_handler (snd (install_isr 0x20 Expected_handler (snd (install_isr 0x21 Expected_handler ?t))))))"
    by (simp only: init_interrupts_def init_idt_def Let_def)
  ultimately show ?thesis by (simp only:) (simp add: init_pic_def port_out_def install_isr_def)
qed

text \<open>
  The default handler acknowledges an interrupt of the slave controller at both controllers, except for
  the first line of the slave, vector 0x28: that one is acknowledged at the master only and stays in service.
\<close>

theorem expected_handler_acknowledges:
  assumes "0x20 \<le> v" "v < 0x30"
  shows "\<exists>s'. default_expected_handler v s = Ok s' \<and>
    port_writes s' = port_writes s @ (if v \<le> 0x28 then [(0x20, 0x20)] else [(0x20, 0x20), (0xA0, 0x20)])"
  using assms by (auto simp: default_expected_handler_def port_out_def Let_def)

theorem expected_handler_acknowledges_witness:
  "\<exists>s. default_expected_handler 0x28 \<lparr>isr_table = (\<lambda>_. Expected_handler), idt = stub, port_writes = []\<rparr> = Ok s \<and> port_writes s = [(0x20, 0x20)]"
  using expected_handler_acknowledges [of "0x28" "\<lparr>isr_table = (\<lambda>_. Expected_handler), idt = stub, port_writes = []\<rparr>"] by simp

end
