(* ===== verification/Address_Space.thy ===== *)
theory Address_Space
  imports Paging
begin

text \<open>
  What the loops that fill an address space rely on: an invariant of the page tables together with the
  bitmap of free pages, which mapping keeps. The program loader and the mapping of the ramdisk
  are built on it.
\<close>

subsection \<open>The entry of a page\<close>

definition page_entry :: "vmem \<Rightarrow> u32 \<Rightarrow> u32" where
  "page_entry v b = (if dir_entry v (pd_idx b) AND 1 = 0 then 0 else entry_at v b)"

lemma translate_page_entry:
  "wf_vm v \<Longrightarrow> translate v b = (if page_entry v b AND 1 = 0 then None else Some (page_base (page_entry v b) + (b AND 0xFFF)))"
  by (simp add: translate_entry page_entry_def entry_at_def Let_def)

lemma write_page_entry:
  fixes x :: u32
  assumes wf: "wf_vm v" and td: "tables_distinct v" and p: "dir_entry v (pd_idx a) AND 1 \<noteq> 0" and low: "pd_idx a \<noteq> 1023"
  defines "v' \<equiv> v\<lparr>pmem := (pmem v)(page_base (dir_entry v (pd_idx a)) + 4 * pt_idx a := x)\<rparr>"
  shows "page_entry v' b = (if same_page b a then x else page_entry v b)"
proof -
  let ?t = "\<lambda>b. page_base (dir_entry v (pd_idx b)) + 4 * pt_idx b"
  have de: "dir_entry v' (pd_idx c) = dir_entry v (pd_idx c)" for c
    unfolding v'_def by (rule write_entry(2) [OF wf td p low idx_bounds(1)])
  have "?t b \<noteq> ?t a" if "\<not> same_page b a" "dir_entry v (pd_idx b) AND 1 \<noteq> 0"
    using that tables_distinctD [OF td idx_bounds(1) idx_bounds(1) _ that(2) p]
    by (intro frame_addr_neq [OF page_base_masked page_base_masked idx_bounds(2) idx_bounds(2)]) (auto simp: same_page_def)
  moreover have "?t b = ?t a" if "same_page b a" using that by (simp add: same_page_def)
  ultimately show ?thesis using p
    by (auto simp: page_entry_def entry_at_def de) (auto simp: v'_def same_page_def)
qed

lemma new_table_entries:
  assumes wf: "wf_vm v" and td: "tables_distinct v" and np: "dir_entry v i AND 1 = 0"
    and i: "unat i < 1024" and fr: "fresh_frame v pg"
  defines "v' \<equiv> v\<lparr>pmem := clear_frame pg 1024 ((pmem v)(cr3 v + 4 * i := pg OR 2 OR 1))\<rparr>"
  shows "unat j < 1024 \<Longrightarrow> dir_entry v' j = (if j = i then pg OR 2 OR 1 else dir_entry v j)"
    "pd_idx b \<noteq> 1023 \<Longrightarrow> page_entry v' b = page_entry v b"
proof -
  note t = new_table [OF wf td np i fr, folded v'_def]
  have al: "pg AND 0xFFF = 0" by (rule fresh_frameD(2) [OF fr])
  have pc: "pg \<noteq> cr3 v" by (rule fresh_not_cr3 [OF wf fr])
  let ?u = "v\<lparr>pmem := (pmem v)(cr3 v + 4 * i := pg OR 2 OR 1)\<rparr>"
  note u = set_dir_entry [OF wf i t(6), where x = "pg OR 2 OR 1"]
  have v': "v' = ?u\<lparr>pmem := clear_frame pg 1024 (pmem ?u)\<rparr>" by (simp add: v'_def)
  show de: "dir_entry v' j = (if j = i then pg OR 2 OR 1 else dir_entry v j)" if "unat j < 1024" for j
    unfolding v' using dir_entry_clear_frame [OF u(1) al _ that, of 1024] pc u(2) [OF that] by simp
  show "page_entry v' b = page_entry v b" if b1023: "pd_idx b \<noteq> 1023"
  proof (cases "pd_idx b = i")
    case True
    then show ?thesis using np t(4) t(7) [of b] de [OF i] by (simp add: page_entry_def entry_at_def)
  next
    case False
    let ?t = "page_base (dir_entry v (pd_idx b))"
    have d: "dir_entry v' (pd_idx b) = dir_entry v (pd_idx b)" using de [OF idx_bounds(1)] False by simp
    show ?thesis
    proof (cases "dir_entry v (pd_idx b) AND 1 = 0")
      case True
      then show ?thesis by (simp add: page_entry_def d)
    next
      case p: False
      then have tp: "?t \<noteq> pg" using fresh_frameD(1) [OF fr idx_bounds(1)] by blast
      have "pmem v' (?t + 4 * pt_idx b) = ((pmem v)(cr3 v + 4 * i := pg OR 2 OR 1)) (?t + 4 * pt_idx b)"
        unfolding v'_def using clear_frame_other [OF al page_base_masked tp idx_bounds(2), of 1024] by simp
      also have "\<dots> = pmem v (?t + 4 * pt_idx b)"
        using frame_addr_neq [OF page_base_masked _ idx_bounds(2) i, where q = "cr3 v"]
          table_not_cr3 [OF wf td idx_bounds(1) b1023 p] wf by (auto simp: wf_vm_def)
      finally show ?thesis by (simp add: page_entry_def entry_at_def d)
    qed
  qed
qed

subsection \<open>The invariant\<close>

text \<open>
  The page tables are distinct frames that are not free, an entry that is not zero is present.
\<close>

definition vm_ok :: "vmem \<Rightarrow> bool" where
  "vm_ok v \<longleftrightarrow> wf_vm v \<and> tables_distinct v \<and> phys_ok (frames v) \<and>
     (\<forall>i. unat i < 1024 \<longrightarrow> dir_entry v i \<noteq> 0 \<longrightarrow> dir_entry v i AND 1 \<noteq> 0 \<and> page_of (page_base (dir_entry v i)) \<notin> free_pages (frames v)) \<and>
     (\<forall>b. pd_idx b \<noteq> 1023 \<longrightarrow> page_entry v b \<noteq> 0 \<longrightarrow> page_entry v b AND 1 \<noteq> 0)"

lemma free_page_addr: "n \<in> free_pages p \<Longrightarrow> phys_ok p \<Longrightarrow> n < 1048576"
  by (auto simp: free_pages_def page_free_def phys_ok_def)

lemma page_addr_aligned: "n < 1048576 \<Longrightarrow> page_addr n AND 0xFFF = 0"
  by (simp add: aligned_unat unat_page_addr)

lemma take_frame_ok:
  assumes "vm_ok v"
  obtains m where "take_frame v = Panic m"
  | n ph where "take_frame v = Ok (page_addr n, v\<lparr>frames := ph\<rparr>)" "n \<in> free_pages (frames v)" "n < 1048576"
      "free_pages ph = free_pages (frames v) - {n}" "vm_ok (v\<lparr>frames := ph\<rparr>)"
proof -
  have ok: "phys_ok (frames v)" using assms by (simp add: vm_ok_def)
  then show thesis
  proof (cases rule: phys_alloc_cases)
    case 1
    then show thesis using that(1) by (simp add: take_frame_def)
  next
    case (2 n ph)
    have "page_entry (v\<lparr>frames := ph\<rparr>) = page_entry v"
      by (rule ext) (simp add: page_entry_def entry_at_def frames_irrelevant)
    then have "vm_ok (v\<lparr>frames := ph\<rparr>)" using assms 2 by (simp add: vm_ok_def frames_irrelevant)
    then show thesis using 2 that(2) free_page_addr [OF 2(2) ok] by (simp add: take_frame_def)
  qed
qed

lemma vm_ok_fresh:
  assumes "vm_ok v" "n \<in> free_pages (frames v)"
  shows "fresh_frame v (page_addr n)"
proof -
  have n: "n < 1048576" using assms free_page_addr by (auto simp: vm_ok_def)
  have "page_base (dir_entry v i) \<noteq> page_addr n" if "unat i < 1024" "dir_entry v i AND 1 \<noteq> 0" for i
  proof
    assume e: "page_base (dir_entry v i) = page_addr n"
    have "dir_entry v i \<noteq> 0" using that(2) by auto
    then have "page_of (page_base (dir_entry v i)) \<notin> free_pages (frames v)" using assms(1) that(1) by (simp add: vm_ok_def)
    then show False using assms(2) n by (simp add: e)
  qed
  then show ?thesis using page_addr_aligned [OF n] by (simp add: fresh_frame_def)
qed

subsection \<open>Mapping keeps the invariant\<close>

lemma vm_okI:
  assumes "wf_vm v'" "tables_distinct v'" "phys_ok (frames v')" "free_pages (frames v') \<subseteq> free_pages (frames v)" "vm_ok v"
    and "\<And>i. unat i < 1024 \<Longrightarrow> dir_entry v' i = dir_entry v i"
    and "\<And>b. pd_idx b \<noteq> 1023 \<Longrightarrow> page_entry v' b = (if same_page b a then x OR 1 else page_entry v b)"
  shows "vm_ok v'"
proof -
  have "(x OR 1 :: u32) AND 1 \<noteq> 0"
  proof -
    have "bit ((x OR 1) AND 1 :: u32) 0" by (simp add: bit_simps)
    then show ?thesis by (metis bit_0_eq bot_apply bot_bool_def)
  qed
  then show ?thesis using assms unfolding vm_ok_def by auto
qed

lemma page_offset:
  fixes p b :: u32
  assumes "p AND 0xFFF = 0"
  shows "unat (p + (b AND 0xFFF)) = unat p + unat b mod 4096" "page_of (p + (b AND 0xFFF)) = page_of p"
proof -
  have p: "unat p mod 4096 = 0" using assms aligned_unat by blast
  have u: "unat (b AND 0xFFF) = unat b mod 4096" by (simp only: mask_consts(1) unat_div_mod) simp
  have "unat b mod 4096 < 4096" by simp
  then have "unat p + unat b mod 4096 < 2 ^ 32" using p unat_u32_bound [of p]
    by (auto elim!: dvdE simp flip: dvd_eq_mod_eq_0)
  then show s: "unat (p + (b AND 0xFFF)) = unat p + unat b mod 4096" using u by (simp add: unat_add_no_wrap)
  have "unat p = 4096 * (unat p div 4096)" using p by auto
  then show "page_of (p + (b AND 0xFFF)) = page_of p"
    unfolding page_of_def s by (metis div_mult_self4 mod_div_trivial add.commute add_0 zero_neq_numeral)
qed

lemma page_of_table: "p AND 0xFFF = 0 \<Longrightarrow> unat i < 1024 \<Longrightarrow> page_of (p + 4 * i) = page_of p"
proof -
  assume a: "p AND 0xFFF = 0" "unat i < 1024"
  have "4 * unat i < 4096" using a(2) by simp
  moreover have "unat p mod 4096 = 0" using a(1) aligned_unat by blast
  then have "unat p = 4096 * (unat p div 4096)" by auto
  ultimately show ?thesis unfolding page_of_def frame_unat [OF a] by (metis add.commute add_0 div_less div_mult_self4 zero_neq_numeral)
qed

text \<open>A frame of its own is not free and holds neither the directory nor a page table.\<close>

definition own_frame :: "vmem \<Rightarrow> u32 \<Rightarrow> bool" where
  "own_frame v pa \<longleftrightarrow> page_of pa \<notin> free_pages (frames v) \<and>
     (\<forall>i. unat i < 1024 \<longrightarrow> dir_entry v i AND 1 \<noteq> 0 \<longrightarrow> page_of (page_base (dir_entry v i)) \<noteq> page_of pa)"

lemma own_frame_not_table:
  assumes "own_frame v pa" "unat i < 1024" "unat j < 1024" "dir_entry v i AND 1 \<noteq> 0"
  shows "page_base (dir_entry v i) + 4 * j \<noteq> pa"
  using page_of_table [OF page_base_masked assms(3), of "dir_entry v i"] assms(1,2,4) by (auto simp: own_frame_def)

lemma directory_entry:
  assumes "wf_vm v"
  shows "page_base (dir_entry v 1023) = cr3 v" "dir_entry v 1023 AND 1 \<noteq> 0"
proof -
  have "cr3 v AND 0xFFF = 0" "dir_entry v 1023 = cr3 v OR 3" using assms by (auto simp: wf_vm_def dir_entry_def)
  then show "page_base (dir_entry v 1023) = cr3 v" "dir_entry v 1023 AND 1 \<noteq> 0" using page_base_or3 or3_present by auto
qed

lemma own_frame_not_dir: "wf_vm v \<Longrightarrow> own_frame v pa \<Longrightarrow> unat i < 1024 \<Longrightarrow> cr3 v + 4 * i \<noteq> pa"
  using own_frame_not_table [of v pa 1023 i] directory_entry [of v] by simp

text \<open>
  A directory entry stays as it is or names a table on a frame that was free, and the frames of their own keep
  their contents.
\<close>

definition tables_kept :: "vmem \<Rightarrow> vmem \<Rightarrow> bool" where
  "tables_kept v v' \<longleftrightarrow> (\<forall>i. unat i < 1024 \<longrightarrow>
     dir_entry v' i = dir_entry v i \<or> page_of (page_base (dir_entry v' i)) \<in> free_pages (frames v)) \<and>
     (\<forall>pa. own_frame v pa \<longrightarrow> pmem v' pa = pmem v pa)"

lemma map_present_ok:
  assumes ok: "vm_ok v" and p: "dir_entry v (pd_idx va) AND 1 \<noteq> 0" and low: "pd_idx va \<noteq> 1023"
    and z: "page_entry v va = 0"
  shows "\<exists>v'. virt_map_page pa va flags v = Ok v' \<and> vm_ok v' \<and> frames v' = frames v \<and>
    (\<forall>i. unat i < 1024 \<longrightarrow> dir_entry v' i = dir_entry v i) \<and> (\<forall>a. own_frame v a \<longrightarrow> pmem v' a = pmem v a) \<and>
    (\<forall>b. pd_idx b \<noteq> 1023 \<longrightarrow> page_entry v' b = (if same_page b va then pa OR (flags AND 0xFFF) OR 1 else page_entry v b))"
proof -
  have wf: "wf_vm v" and td: "tables_distinct v" using ok by (simp_all add: vm_ok_def)
  let ?x = "pa OR (flags AND 0xFFF) OR 1"
  let ?v = "v\<lparr>pmem := (pmem v)(page_base (dir_entry v (pd_idx va)) + 4 * pt_idx va := ?x)\<rparr>"
  have run: "virt_map_page pa va flags v = Ok ?v"
    using virt_map_page_present [OF wf p] z p by (simp add: page_entry_def entry_at_def)
  have e: "page_entry ?v b = (if same_page b va then ?x else page_entry v b)" for b
    by (rule write_page_entry [OF wf td p low])
  have "vm_ok ?v"
  proof (rule vm_okI [where v = v and a = va and x = "pa OR (flags AND 0xFFF)"])
    show "wf_vm ?v" "tables_distinct ?v" by (rule write_entry_wf(1,2) [OF wf td p low])+
    show "dir_entry ?v i = dir_entry v i" if "unat i < 1024" for i by (rule write_entry(2) [OF wf td p low that])
    show "page_entry ?v b = (if same_page b va then (pa OR (flags AND 0xFFF)) OR 1 else page_entry v b)" for b
      unfolding e by (simp add: or.assoc)
  qed (use ok in \<open>simp_all add: vm_ok_def\<close>)
  moreover have "pmem ?v a = pmem v a" if "own_frame v a" for a
    using own_frame_not_table [OF that idx_bounds p] by auto
  ultimately show ?thesis using run e write_entry(2) [OF wf td p low] by (intro exI [of _ ?v]) simp
qed

lemma add_table_ok:
  assumes ok: "vm_ok v" and np: "dir_entry v (pd_idx va) AND 1 = 0"
  obtains m where "virt_map_page pa va flags v = Panic m"
  | v2 where "virt_map_page pa va flags v = virt_map_page pa va flags v2" "vm_ok v2" "dir_entry v2 (pd_idx va) AND 1 \<noteq> 0"
      "free_pages (frames v2) \<subseteq> free_pages (frames v)" "pd_idx va \<noteq> 1023"
      "\<And>b. pd_idx b \<noteq> 1023 \<Longrightarrow> page_entry v2 b = page_entry v b" "tables_kept v v2"
      "\<And>a. own_frame v a \<Longrightarrow> own_frame v2 a"
  using ok
proof (cases rule: take_frame_ok)
  case (1 m)
  have "wf_vm v" using ok by (simp add: vm_ok_def)
  then show thesis using 1 that(1) np
    by (simp add: virt_map_page_def Let_def vread_dir [OF _ idx_bounds(1)] dir_entry_eq)
next
  case (2 n ph)
  let ?i = "pd_idx va" and ?pg = "page_addr n"
  define v1 where "v1 = v\<lparr>frames := ph\<rparr>"
  have wf: "wf_vm v" using ok by (simp add: vm_ok_def)
  have wf1: "wf_vm v1" and td1: "tables_distinct v1" using 2(5) by (simp_all add: vm_ok_def v1_def)
  have np1: "dir_entry v1 ?i AND 1 = 0" using np by (simp add: v1_def frames_irrelevant)
  have fr1: "fresh_frame v1 ?pg" using vm_ok_fresh [OF ok 2(2)] by (simp add: fresh_frame_def v1_def frames_irrelevant)
  define v2 where "v2 = v1\<lparr>pmem := clear_frame ?pg 1024 ((pmem v1)(cr3 v1 + 4 * ?i := ?pg OR 2 OR 1))\<rparr>"
  note t = new_table [OF wf1 td1 np1 idx_bounds(1) fr1, folded v2_def]
  note e = new_table_entries [OF wf1 td1 np1 idx_bounds(1) fr1, folded v2_def]
  have t2: "dir_entry v2 ?i AND 1 \<noteq> 0" "page_base (dir_entry v2 ?i) = ?pg" using t(3-5) by simp_all
  have "virt_map_page pa va flags v = obind (vread (page_tbl_from_index ?i + 4 * pt_idx va) v2)
        (\<lambda>pte. if pte \<noteq> 0 then Panic ''Paging: A page has already been mapped here!''
           else vwrite (page_tbl_from_index ?i + 4 * pt_idx va) (pa OR (flags AND 0xFFF) OR PG_PRESENT) v2)"
    unfolding virt_map_page_def Let_def vread_dir [OF wf idx_bounds(1)] dir_entry_eq 2(1)
    using np t(9) by (simp only: obind.simps if_True simp_thms prod.case obind_assoc v1_def [symmetric])
  also have "\<dots> = virt_map_page pa va flags v2"
    unfolding virt_map_page_def Let_def vread_dir [OF t(1) idx_bounds(1)] dir_entry_eq
    using t2(1) by (simp only: obind.simps if_False)
  finally have run: "virt_map_page pa va flags v = virt_map_page pa va flags v2" .
  have fr2: "frames v2 = ph" by (simp add: v2_def v1_def)
  have en: "page_entry v2 b = page_entry v b" if "pd_idx b \<noteq> 1023" for b
    using e(2) [OF that] by (simp add: v1_def page_entry_def entry_at_def frames_irrelevant)
  have "dir_entry v2 i AND 1 \<noteq> 0 \<and> page_of (page_base (dir_entry v2 i)) \<notin> free_pages (frames v2)"
    if i: "unat i < 1024" "dir_entry v2 i \<noteq> 0" for i
  proof (cases "i = ?i")
    case True
    then show ?thesis using t2 2(3,4) fr2 by simp
  next
    case False
    then show ?thesis using i e(1) [OF i(1)] ok 2(4) fr2 by (auto simp: vm_ok_def v1_def frames_irrelevant)
  qed
  then have "vm_ok v2" using t(1,2) 2(5) fr2 ok en by (simp add: vm_ok_def)
  moreover have "tables_kept v v2"
    unfolding tables_kept_def
  proof (intro conjI allI impI)
    fix i :: u32 assume i: "unat i < 1024"
    show "dir_entry v2 i = dir_entry v i \<or> page_of (page_base (dir_entry v2 i)) \<in> free_pages (frames v)"
      using e(1) [OF i] t2(2) 2(2,3) by (cases "i = ?i") (simp_all add: v1_def frames_irrelevant)
  next
    fix a assume a: "own_frame v a"
    have "a \<noteq> ?pg + 4 * of_nat j" if "j < 1024" for j
    proof -
      have "unat (of_nat j :: u32) < 1024" using that by (simp add: unat_of_nat take_bit_nat_eq_self)
      then have "page_of (?pg + 4 * of_nat j) = n" using page_of_table [OF page_addr_aligned [OF 2(3)]] 2(3) by simp
      then show ?thesis using a 2(2) by (auto simp: own_frame_def)
    qed
    then show "pmem v2 a = pmem v a"
      using own_frame_not_dir [OF wf a idx_bounds(1)] by (auto simp: v2_def v1_def clear_frame_def)
  qed
  moreover have "own_frame v2 a" if "own_frame v a" for a
  proof -
    have "page_of (page_base (dir_entry v2 i)) \<noteq> page_of a" if i: "unat i < 1024" "dir_entry v2 i AND 1 \<noteq> 0" for i
      using e(1) [OF i(1)] t2(2) 2(2,3) i \<open>own_frame v a\<close>
      by (cases "i = ?i") (auto simp: own_frame_def v1_def frames_irrelevant)
    then show ?thesis using that 2(4) fr2 by (auto simp: own_frame_def)
  qed
  ultimately show thesis using that(2) [OF run] t2(1) 2(4) fr2 t(6) en by auto
qed

lemma translate_mapped:
  assumes "vm_ok v" "vm_ok v'" "pa AND 0xFFF = 0" "page_entry v' b = (if same_page b va then pa OR (flags AND 0xFFF) OR 1 else page_entry v b)"
  shows "translate v' b = (if same_page b va then Some (pa + (b AND 0xFFF)) else translate v b)"
  using assms aligned_or_flags [OF assms(3), of flags] by (simp add: translate_page_entry vm_ok_def)

lemma virt_map_page_sim:
  assumes ok: "vm_ok v" and low: "pd_idx va \<noteq> 1023" and al: "pa AND 0xFFF = 0"
  shows "(\<exists>m. virt_map_page pa va flags v = Panic m) \<or>
    (page_entry v va = 0 \<and> (\<exists>v'. virt_map_page pa va flags v = Ok v' \<and> vm_ok v' \<and> free_pages (frames v') \<subseteq> free_pages (frames v) \<and> tables_kept v v' \<and>
      (\<forall>b. pd_idx b \<noteq> 1023 \<longrightarrow> page_entry v' b = (if same_page b va then pa OR (flags AND 0xFFF) OR 1 else page_entry v b) \<and>
         translate v' b = (if same_page b va then Some (pa + (b AND 0xFFF)) else translate v b))))"
proof (cases "dir_entry v (pd_idx va) AND 1 = 0")
  case True
  from ok this show ?thesis
  proof (cases rule: add_table_ok [where pa = pa and flags = flags])
    case (2 v2)
    have z: "page_entry v va = 0" "page_entry v2 va = 0" using True 2(6) [OF low] by (simp_all add: page_entry_def)
    obtain v' where v': "virt_map_page pa va flags v2 = Ok v'" "vm_ok v'" "frames v' = frames v2"
      "\<forall>i. unat i < 1024 \<longrightarrow> dir_entry v' i = dir_entry v2 i" "\<forall>a. own_frame v2 a \<longrightarrow> pmem v' a = pmem v2 a"
      "\<forall>b. pd_idx b \<noteq> 1023 \<longrightarrow> page_entry v' b = (if same_page b va then pa OR (flags AND 0xFFF) OR 1 else page_entry v2 b)"
      using map_present_ok [OF 2(2,3) low z(2)] by blast
    then have e: "page_entry v' b = (if same_page b va then pa OR (flags AND 0xFFF) OR 1 else page_entry v b)" if "pd_idx b \<noteq> 1023" for b
      using 2(6) [OF that] that by simp
    then have "translate v' b = (if same_page b va then Some (pa + (b AND 0xFFF)) else translate v b)" if "pd_idx b \<noteq> 1023" for b
      using translate_mapped [OF ok v'(2) al e [OF that]] that by simp
    moreover have "tables_kept v v'" using v'(4,5) 2(7,8) by (simp add: tables_kept_def)
    ultimately show ?thesis using 2(1,4) z(1) v'(1-3) e by auto
  qed blast
next
  case p: False
  show ?thesis
  proof (cases "page_entry v va = 0")
    case True
    obtain v' where v': "virt_map_page pa va flags v = Ok v'" "vm_ok v'" "frames v' = frames v"
      "\<forall>i. unat i < 1024 \<longrightarrow> dir_entry v' i = dir_entry v i" "\<forall>a. own_frame v a \<longrightarrow> pmem v' a = pmem v a"
      "\<forall>b. pd_idx b \<noteq> 1023 \<longrightarrow> page_entry v' b = (if same_page b va then pa OR (flags AND 0xFFF) OR 1 else page_entry v b)"
      using map_present_ok [OF ok p low True] by blast
    then have "translate v' b = (if same_page b va then Some (pa + (b AND 0xFFF)) else translate v b)" if "pd_idx b \<noteq> 1023" for b
      using translate_mapped [OF ok v'(2) al, of b va flags] that by simp
    moreover have "tables_kept v v'" using v'(4,5) by (simp add: tables_kept_def)
    ultimately show ?thesis using True v'(1-3,6) by auto
  next
    case False
    then show ?thesis using virt_map_page_present [of v va pa flags] ok p by (simp add: vm_ok_def page_entry_def entry_at_def)
  qed
qed

subsection \<open>Pages and look-up\<close>

lemma pd_idx_below: "unat a < 0xFFC00000 \<Longrightarrow> pd_idx a \<noteq> 1023"
proof
  assume a: "unat a < 0xFFC00000" "pd_idx a = 1023"
  have "unat a div 4194304 = 1023" using arg_cong [OF a(2), of unat] by (simp add: pd_idx_def unat_div_mod)
  moreover have "unat a = 4194304 * (unat a div 4194304) + unat a mod 4194304" by simp
  ultimately show False using a(1) by linarith
qed

lemma same_page_unat: "same_page a b \<longleftrightarrow> unat a div 4096 = unat b div 4096"
proof -
  have d: "unat (pd_idx c) = unat c div 4194304" "unat (pt_idx c) = unat c div 4096 mod 1024" for c
    by (simp_all only: pd_idx_def pt_idx_def mask_consts(2) unat_div_mod) simp_all
  have e: "x = y \<longleftrightarrow> x div 1024 = y div 1024 \<and> x mod 1024 = y mod 1024" for x y :: nat by (metis div_mult_mod_eq)
  have "unat c div 4194304 = unat c div 4096 div 1024" for c :: u32 by (simp add: div_mult2_eq [symmetric])
  then show ?thesis unfolding same_page_def word_unat_eq_iff d using e [of "unat a div 4096" "unat b div 4096"] by simp
qed

lemma div_page: "(x :: nat) div 4096 = k \<longleftrightarrow> 4096 * k \<le> x \<and> x < 4096 * k + 4096"
proof
  assume "x div 4096 = k"
  moreover have "4096 * (x div 4096) + x mod 4096 = x" by simp
  moreover have "x mod 4096 < 4096" by simp
  ultimately show "4096 * k \<le> x \<and> x < 4096 * k + 4096" by linarith
qed (auto intro: div_nat_eqI)

lemma page_range:
  assumes "va AND 0xFFF = 0"
  shows "same_page b va \<longleftrightarrow> unat va \<le> unat b \<and> unat b < unat va + 4096"
    "same_page b va \<Longrightarrow> b AND 0xFFF = b - va"
proof -
  have va: "unat va mod 4096 = 0" using assms by (simp add: aligned_unat)
  then have d: "4096 * (unat va div 4096) = unat va" by (metis add.right_neutral mult_div_mod_eq)
  show r: "same_page b va \<longleftrightarrow> unat va \<le> unat b \<and> unat b < unat va + 4096"
    unfolding same_page_unat div_page d ..
  assume s: "same_page b va"
  have "unat (b AND 0xFFF) = unat b mod 4096" by (simp only: mask_consts(1) unat_div_mod) simp
  also have "\<dots> = unat b - unat va"
    using s d mult_div_mod_eq [of 4096 "unat b"] unfolding same_page_unat by (metis add_diff_cancel_left')
  also have "\<dots> = unat (b - va)" using s unfolding r by (simp add: unat_sub_if')
  finally show "b AND 0xFFF = b - va" by (simp only: word_unat_eq_iff)
qed

lemma aligned_step: "(a :: u32) AND 0xFFF = 0 \<Longrightarrow> (a + 4096) AND 0xFFF = 0"
  unfolding aligned_unat by (simp add: unat_word_ariths mod_mod_cancel)

lemma virt_get_phys_addr_sim:
  assumes wf: "wf_vm v" and used: "dir_entry v (pd_idx a) \<noteq> 0 \<Longrightarrow> dir_entry v (pd_idx a) AND 1 \<noteq> 0"
      "dir_entry v (pd_idx a) AND 1 \<noteq> 0 \<Longrightarrow> pmem v (page_base (dir_entry v (pd_idx a)) + 4 * pt_idx a) \<noteq> 0 \<Longrightarrow>
        pmem v (page_base (dir_entry v (pd_idx a)) + 4 * pt_idx a) AND 1 \<noteq> 0"
  shows "virt_get_phys_addr a v = Ok (case translate v a of None \<Rightarrow> 0xFFFFFFFF | Some p \<Rightarrow> p)"
proof (cases "dir_entry v (pd_idx a) = 0")
  case True
  then show ?thesis
    by (simp add: virt_get_phys_addr_def Let_def vread_dir [OF wf idx_bounds(1), unfolded dir_entry_eq]
        translate_entry [OF wf] del: obind_eq_Ok)
next
  case False
  then have p: "dir_entry v (pd_idx a) AND 1 \<noteq> 0" using used(1) by simp
  have "(- 4096 :: u32) = 0xFFFFF000" by code_simp
  then have m: "x AND - 4096 = page_base x" for x :: u32
    by (simp only: page_base_def)
  show ?thesis using False p used(2) [OF p]
    by (auto simp: virt_get_phys_addr_def Let_def m vread_dir [OF wf idx_bounds(1), unfolded dir_entry_eq]
        vread_tbl [OF wf idx_bounds, unfolded dir_entry_eq] translate_entry [OF wf] simp del: obind_eq_Ok)
qed

lemma lookup_ok:
  assumes "vm_ok v" "pd_idx a \<noteq> 1023"
  shows "virt_get_phys_addr a v = Ok (case translate v a of None \<Rightarrow> 0xFFFFFFFF | Some p \<Rightarrow> p)"
proof (rule virt_get_phys_addr_sim)
  have "page_entry v a \<noteq> 0 \<Longrightarrow> page_entry v a AND 1 \<noteq> 0" using assms by (auto simp: vm_ok_def)
  then show "pmem v (page_base (dir_entry v (pd_idx a)) + 4 * pt_idx a) AND 1 \<noteq> 0"
    if "dir_entry v (pd_idx a) AND 1 \<noteq> 0" "pmem v (page_base (dir_entry v (pd_idx a)) + 4 * pt_idx a) \<noteq> 0"
    using that by (simp add: page_entry_def entry_at_def)
qed (use assms(1) idx_bounds(1) in \<open>auto simp: vm_ok_def\<close>)

subsection \<open>Properties\<close>

lemma demo_page_entry: "pd_idx b \<noteq> 1023 \<Longrightarrow> page_entry demo_vm b = (if pd_idx b = 1 \<and> pt_idx b = 0 then 0x5003 else 0)"
proof -
  assume b: "pd_idx b \<noteq> 1023"
  have d: "dir_entry demo_vm (pd_idx b) = (if pd_idx b = 1 then 0x2003 else 0)"
    using demo_entries [OF idx_bounds(1) [of b]] b by simp
  have e: "pmem demo_vm (0x2000 + 4 * pt_idx b) = (if pt_idx b = 0 then 0x5003 else 0)"
  proof (cases "pt_idx b = 0")
    case False
    have "0x2000 + 4 * pt_idx b \<noteq> 0x1000 + 4 * 1023" "0x2000 + 4 * pt_idx b \<noteq> 0x1000 + 4 * 1" "0x2000 + 4 * pt_idx b \<noteq> 0x2000 + 4 * 0"
      using False by (intro frame_addr_neq idx_bounds(2); simp)+
    then show ?thesis using False by (simp add: demo_vm_def)
  qed (simp add: demo_vm_def)
  show ?thesis
  proof (cases "pd_idx b = 1")
    case True
    then have "dir_entry demo_vm (pd_idx b) = 0x2003" using d by simp
    then show ?thesis using True e unfolding page_entry_def entry_at_def by (simp add: demo_bases)
  qed (simp add: page_entry_def d)
qed

lemma demo_vm_ok: "vm_ok demo_vm"
proof -
  have used: "bit (bm (frames demo_vm) 0) (Suc 0)" "bit (bm (frames demo_vm) 0) 2" by (simp_all add: demo_vm_def demo_frames_def)
  have "dir_entry demo_vm i AND 1 \<noteq> 0 \<and> page_of (page_base (dir_entry demo_vm i)) \<notin> free_pages (frames demo_vm)"
    if "unat i < 1024" "dir_entry demo_vm i \<noteq> 0" for i
    using that demo_entries [OF that(1)] demo_bases
    by (auto simp: page_of_def free_pages_def page_free_def used split: if_splits)
  moreover have "phys_ok (frames demo_vm)" by (simp add: phys_ok_def demo_vm_def demo_frames_def)
  ultimately show ?thesis using demo_wf demo_distinct by (simp add: vm_ok_def demo_page_entry)
qed

lemma demo_pages:
  "pd_idx 0x401010 = 1" "pt_idx 0x401010 = 1" "(0x401010 :: u32) AND 0xFFF = 0x10"
  "pd_idx 0xC8001234 = 800" "(0x8000 :: u32) AND 0xFFF = 0" "(0xC8000000 :: u32) AND 0xFFF = 0"
  by code_simp+

lemma demo_translate: "translate demo_vm 0x400010 = Some 0x5010"
  by (simp add: translate_page_entry demo_wf demo_page_entry demo_idx demo_bases)

text \<open>
  C13: in every state that satisfies the invariant, mapping a page outside the window on the page tables
  either panics, since the page is in use or no frame is left for a page table, or gives exactly
  this page the entry that is asked for, so that it translates to the frame, leaves every other page as it is and keeps
  the invariant.
\<close>

theorem virt_map_page_ok:
  assumes "vm_ok v" "pd_idx va \<noteq> 1023" "pa AND 0xFFF = 0"
  shows "(\<exists>m. virt_map_page pa va flags v = Panic m) \<or>
    (page_entry v va = 0 \<and> (\<exists>v'. virt_map_page pa va flags v = Ok v' \<and> vm_ok v' \<and> free_pages (frames v') \<subseteq> free_pages (frames v) \<and>
      (\<forall>b. pd_idx b \<noteq> 1023 \<longrightarrow> page_entry v' b = (if same_page b va then pa OR (flags AND 0xFFF) OR 1 else page_entry v b) \<and>
         translate v' b = (if same_page b va then Some (pa + (b AND 0xFFF)) else translate v b))))"
  using virt_map_page_sim [OF assms] by blast

theorem virt_map_page_ok_witness:
  "\<exists>v'. virt_map_page 0x9000 0x401000 7 demo_vm = Ok v' \<and> vm_ok v' \<and> translate v' 0x401010 = Some 0x9010 \<and>
     translate v' 0x400010 = Some 0x5010"
proof -
  have d: "dir_entry demo_vm (pd_idx 0x401000) AND 1 \<noteq> 0" "pd_idx 0x401000 \<noteq> 1023"
    by (simp_all add: demo_idx demo_entries)
  have "virt_map_page 0x9000 0x401000 7 demo_vm \<noteq> Panic m" for m
    unfolding virt_map_page_present [OF demo_wf d(1)] demo_entry_at by simp
  then obtain v' where v': "virt_map_page 0x9000 0x401000 7 demo_vm = Ok v'" "vm_ok v'"
      "\<forall>b. pd_idx b \<noteq> 1023 \<longrightarrow> translate v' b = (if same_page b 0x401000 then Some (0x9000 + (b AND 0xFFF)) else translate demo_vm b)"
    using virt_map_page_ok [OF demo_vm_ok d(2) demo_idx(7), of 7] by auto
  then show ?thesis by (simp add: same_page_def demo_idx demo_pages demo_translate)
qed

end
