(* ===== verification/Vfs.thy ===== *)
theory Vfs
  imports Address_Space Ext2
begin

text \<open>
  The file system interface, \<^verbatim>\<open>src/fs/vfs.c\<close>, which reports on reading and writing files of the one ramdisk, and
  \<^verbatim>\<open>src/fs/vfs_init.c\<close>, which maps that ramdisk.
\<close>

subsection \<open>Reading and writing\<close>

datatype vfs_status = FS_E_OK | FS_E_NOFILE | FS_E_BADFD | FS_E_IO | FS_E_NOT_FQN | FS_E_BAD_OFFSET

primrec vfs_read_status :: "read_status \<Rightarrow> vfs_status" where
  "vfs_read_status READ_SUCCESS = FS_E_OK"
| "vfs_read_status READ_FILE_NOT_FOUND = FS_E_NOFILE"
| "vfs_read_status READ_NO_LEADING_SLASH = FS_E_NOT_FQN"

primrec vfs_write_status :: "write_status \<Rightarrow> vfs_status" where
  "vfs_write_status WRITE_SUCCESS = FS_E_OK"
| "vfs_write_status WRITE_FILE_NOT_FOUND = FS_E_NOFILE"
| "vfs_write_status WRITE_NO_LEADING_SLASH = FS_E_NOT_FQN"
| "vfs_write_status WRITE_NON_CONTIGUOUS = FS_E_BAD_OFFSET"

definition fs_raw_read :: "fs_context \<Rightarrow> u8 list \<Rightarrow> u32 \<Rightarrow> u32 \<Rightarrow> u32 \<Rightarrow> bytes \<Rightarrow> (vfs_status \<times> u32 \<times> bytes) outcome" where
  "fs_raw_read cx path buf offset nbytes m =
     obind (ext2_raw_read cx path buf offset nbytes m) (\<lambda>(st, n, m'). Ok (vfs_read_status st, n, m'))"

definition fs_raw_write :: "fs_context \<Rightarrow> u8 list \<Rightarrow> u32 \<Rightarrow> u32 \<Rightarrow> u32 \<Rightarrow> bytes \<Rightarrow> (vfs_status \<times> u32 \<times> bytes) outcome" where
  "fs_raw_write cx path buf offset nbytes m =
     obind (ext2_raw_write cx path buf offset nbytes m) (\<lambda>(st, n, m'). Ok (vfs_write_status st, n, m'))"

subsection \<open>Mapping the ramdisk\<close>

definition set_frame :: "u32 \<Rightarrow> vmem \<Rightarrow> vmem" where
  "set_frame p v = v\<lparr>frames := phys_set_bit p (frames v)\<rparr>"

partial_function (option) ramdisk_loop :: "u32 \<Rightarrow> u32 \<Rightarrow> u32 \<Rightarrow> u32 \<Rightarrow> vmem \<Rightarrow> vmem outcome option" where
  "ramdisk_loop p p_max va v_max v =
     (if p < p_max \<and> va < v_max then
        lift_bind (virt_map_page p va PG_READ_WRITE (set_frame p v)) (ramdisk_loop (p + 4096) p_max (va + 4096) v_max)
      else Some (Ok v))"

definition init_himem_ramdisk :: "u32 \<Rightarrow> u32 \<Rightarrow> u32 \<Rightarrow> vmem \<Rightarrow> vmem outcome" where
  "init_himem_ramdisk physical virtual sz v =
     (if virtual < 0x100000 then Ok v
      else of_loop (ramdisk_loop physical (physical + 1024 * sz) virtual (virtual + 1024 * sz) v))"

text \<open>The locations and the size are set when the kernel is built.\<close>

definition init_all_ramdisks :: "u32 \<Rightarrow> u32 \<Rightarrow> u32 \<Rightarrow> vmem \<Rightarrow> vmem outcome" where
  "init_all_ramdisks phys_location virt_location size_kib = init_himem_ramdisk phys_location virt_location size_kib"

subsection \<open>The pages of the ramdisk\<close>

lemma set_frame_ok:
  assumes "vm_ok v"
  shows "vm_ok (set_frame p v)" "translate (set_frame p v) = translate v" "page_entry (set_frame p v) = page_entry v"
proof -
  show "translate (set_frame p v) = translate v" by (simp add: set_frame_def frames_irrelevant)
  show e: "page_entry (set_frame p v) = page_entry v"
    by (rule ext) (simp add: set_frame_def page_entry_def entry_at_def frames_irrelevant)
  have "phys_ok (phys_set_bit p (frames v))" using assms by (simp add: vm_ok_def phys_ok_def phys_set_bit_def Let_def)
  then show "vm_ok (set_frame p v)" using assms e
    by (simp add: vm_ok_def set_frame_def frames_irrelevant phys_set_bit_free_pages)
qed

lemma ramdisk_loop_ok:
  assumes "vm_ok v" "p AND 0xFFF = 0" "va AND 0xFFF = 0" "unat p + 4096 * n < 2 ^ 32" "unat va + 4096 * n \<le> 0xFFC00000"
    and "unat p_max = unat p + 4096 * n" "unat v_max = unat va + 4096 * n"
  shows "(\<exists>m. ramdisk_loop p p_max va v_max v = Some (Panic m)) \<or>
    (\<exists>v'. ramdisk_loop p p_max va v_max v = Some (Ok v') \<and> vm_ok v' \<and> free_pages (frames v') \<subseteq> free_pages (frames v) \<and>
      (\<forall>i<n. page_of p + i \<notin> free_pages (frames v')) \<and>
      (\<forall>b. pd_idx b \<noteq> 1023 \<longrightarrow> translate v' b =
         (if unat va \<le> unat b \<and> unat b < unat va + 4096 * n then Some (p + (b - va)) else translate v b)))"
  using assms
proof (induction n arbitrary: v p va)
  case 0
  then show ?case by (subst ramdisk_loop.simps) (auto simp: word_less_nat_alt)
next
  case (Suc n)
  have lt: "p < p_max" "va < v_max" using Suc.prems(6,7) by (simp_all add: word_less_nat_alt)
  have low: "pd_idx va \<noteq> 1023" using Suc.prems(5) by (intro pd_idx_below) simp
  let ?v = "set_frame p v"
  note s = set_frame_ok [OF Suc.prems(1), of p]
  have fp: "free_pages (frames ?v) = free_pages (frames v) - {page_of p}" by (simp add: set_frame_def phys_set_bit_free_pages)
  have u: "unat (p + 4096) = unat p + 4096" "unat (va + 4096) = unat va + 4096" using Suc.prems(4,5) by (simp_all add: unat_add_no_wrap)
  from virt_map_page_sim [OF s(1) low Suc.prems(2), of PG_READ_WRITE] show ?case
  proof (elim disjE exE conjE)
    fix m assume "virt_map_page p va PG_READ_WRITE ?v = Panic m"
    then show ?thesis using lt by (subst (1 2) ramdisk_loop.simps) simp
  next
    fix v1 assume v1: "virt_map_page p va PG_READ_WRITE ?v = Ok v1" "vm_ok v1" "free_pages (frames v1) \<subseteq> free_pages (frames ?v)"
      "\<forall>b. pd_idx b \<noteq> 1023 \<longrightarrow> page_entry v1 b = (if same_page b va then p OR (PG_READ_WRITE AND 0xFFF) OR 1 else page_entry ?v b) \<and>
         translate v1 b = (if same_page b va then Some (p + (b AND 0xFFF)) else translate ?v b)"
    have step: "ramdisk_loop p p_max va v_max v = ramdisk_loop (p + 4096) p_max (va + 4096) v_max v1"
      using lt v1(1) by (subst ramdisk_loop.simps) simp
    have t1: "translate v1 b = (if unat va \<le> unat b \<and> unat b < unat va + 4096 then Some (p + (b - va)) else translate v b)" if "pd_idx b \<noteq> 1023" for b
      using v1(4) that page_range [OF Suc.prems(3), of b] by (simp add: s(2))
    have "(\<exists>m. ramdisk_loop (p + 4096) p_max (va + 4096) v_max v1 = Some (Panic m)) \<or>
      (\<exists>v'. ramdisk_loop (p + 4096) p_max (va + 4096) v_max v1 = Some (Ok v') \<and> vm_ok v' \<and> free_pages (frames v') \<subseteq> free_pages (frames v1) \<and>
        (\<forall>i<n. page_of (p + 4096) + i \<notin> free_pages (frames v')) \<and>
        (\<forall>b. pd_idx b \<noteq> 1023 \<longrightarrow> translate v' b =
           (if unat (va + 4096) \<le> unat b \<and> unat b < unat (va + 4096) + 4096 * n then Some (p + 4096 + (b - (va + 4096))) else translate v1 b)))"
      using v1(2) Suc.prems aligned_step u by (intro Suc.IH) simp_all
    then show ?thesis
    proof (elim disjE exE conjE)
      fix v' assume v': "ramdisk_loop (p + 4096) p_max (va + 4096) v_max v1 = Some (Ok v')" "vm_ok v'" "free_pages (frames v') \<subseteq> free_pages (frames v1)"
        "\<forall>i<n. page_of (p + 4096) + i \<notin> free_pages (frames v')"
        "\<forall>b. pd_idx b \<noteq> 1023 \<longrightarrow> translate v' b =
           (if unat (va + 4096) \<le> unat b \<and> unat b < unat (va + 4096) + 4096 * n then Some (p + 4096 + (b - (va + 4096))) else translate v1 b)"
      have "page_of (p + 4096) = Suc (page_of p)" by (simp add: page_of_def u)
      then have "\<forall>i<Suc n. page_of p + i \<notin> free_pages (frames v')"
        using v'(3,4) v1(3) fp by (auto simp: less_Suc_eq_0_disj)
      moreover have "\<forall>b. pd_idx b \<noteq> 1023 \<longrightarrow> translate v' b =
         (if unat va \<le> unat b \<and> unat b < unat va + 4096 * Suc n then Some (p + (b - va)) else translate v b)"
      proof (intro allI impI)
        fix b assume b: "pd_idx b \<noteq> 1023"
        have "p + 4096 + (b - (va + 4096)) = p + (b - va)" by simp
        then show "translate v' b = (if unat va \<le> unat b \<and> unat b < unat va + 4096 * Suc n then Some (p + (b - va)) else translate v b)"
          using v'(5) [rule_format, OF b] t1 [OF b] unfolding u(2) by (auto split: if_splits)
      qed
      moreover have "free_pages (frames v') \<subseteq> free_pages (frames v)" using v'(3) v1(3) fp by auto
      ultimately show ?thesis using v'(1,2) by (intro disjI2 exI [of _ v']) (simp only: step simp_thms)
    qed (simp add: step)
  qed
qed

subsection \<open>Properties\<close>

text \<open>
  C26: mapping a ramdisk of whole pages ends; unless it panics since a page is in use or no frame is left for a page
  table, exactly its addresses translate to the addresses of the disk, in order, and none of its pages is
  free any more.
\<close>

theorem ramdisk_mapped:
  assumes "vm_ok v" "p AND 0xFFF = 0" "va AND 0xFFF = 0" "0x100000 \<le> va"
    and "unat p + 4096 * n < 2 ^ 32" "unat va + 4096 * n \<le> 0xFFC00000"
  shows "(\<exists>m. init_himem_ramdisk p va (of_nat (4 * n)) v = Panic m) \<or>
    (\<exists>v'. init_himem_ramdisk p va (of_nat (4 * n)) v = Ok v' \<and> vm_ok v' \<and> free_pages (frames v') \<subseteq> free_pages (frames v) \<and>
      (\<forall>i<n. page_of p + i \<notin> free_pages (frames v')) \<and>
      (\<forall>b. pd_idx b \<noteq> 1023 \<longrightarrow> translate v' b =
         (if unat va \<le> unat b \<and> unat b < unat va + 4096 * n then Some (p + (b - va)) else translate v b)))"
proof -
  have m: "(1024 :: u32) * of_nat (4 * n) = of_nat (4096 * n)" by simp
  have "unat (p + of_nat (4096 * n)) = unat p + 4096 * n" "unat (va + of_nat (4096 * n)) = unat va + 4096 * n"
    using assms(5,6) by (simp_all add: unat_word_ariths unat_of_nat del: of_nat_mult)
  from ramdisk_loop_ok [OF assms(1-3,5,6) this] show ?thesis
    using assms(4) unfolding init_himem_ramdisk_def m by auto
qed

theorem ramdisk_mapped_witness:
  "(\<exists>m. init_himem_ramdisk 0x8000 0xC8000000 8 demo_vm = Panic m) \<or>
    (\<exists>v'. init_himem_ramdisk 0x8000 0xC8000000 8 demo_vm = Ok v' \<and> translate v' 0xC8001234 = Some 0x9234)"
  using ramdisk_mapped [OF demo_vm_ok demo_pages(5,6), of 2] demo_pages(4) by auto

end
