(* ===== verification/Elf.thy ===== *)
theory Elf
  imports Vfs Syscalls
begin

text \<open>
  The program loader, \<^verbatim>\<open>src/kernel/elf/elf.c\<close> with the structures of \<^verbatim>\<open>elf.h\<close>. It reads from the ramdisk through
  \<^verbatim>\<open>vfs.c\<close>, replaces the user part of the address space that is loaded and prepares the first context of the program.
  The image of the ramdisk, with the memory it is mapped into, is the argument \<open>disk\<close>: the loader only reads it. Bytes
  of the user part are in words of physical memory. The trace on the serial line is left out.
\<close>

subsection \<open>Structures\<close>

record elf_header =
  e_magic :: u32
  e_type :: u16
  e_machine :: u16
  e_version :: u32
  e_entry :: u32
  e_phoff :: u32
  e_phentsize :: u16
  e_phnum :: u16

record program_header =
  p_type :: u32
  p_offset :: u32
  p_vaddr :: u32
  p_filesz :: u32
  p_memsz :: u32
  p_flags :: u32

abbreviation (input) ELF_MAGIC_NUM :: u32 where "ELF_MAGIC_NUM \<equiv> 0x464C457F"
abbreviation (input) ET_EXEC :: u16 where "ET_EXEC \<equiv> 2"
abbreviation (input) EM_386 :: u16 where "EM_386 \<equiv> 3"
abbreviation (input) EV_CURRENT :: u32 where "EV_CURRENT \<equiv> 1"
abbreviation (input) PT_LOAD :: u32 where "PT_LOAD \<equiv> 1"
abbreviation (input) PF_WRITE :: u32 where "PF_WRITE \<equiv> 2"
abbreviation (input) sizeof_Ehdr :: u32 where "sizeof_Ehdr \<equiv> 52"
abbreviation (input) sizeof_Phdr :: u32 where "sizeof_Phdr \<equiv> 32"
abbreviation (input) USER_STACK_LOCATION :: u32 where "USER_STACK_LOCATION \<equiv> 0x2000000"
abbreviation (input) USER_STACK_SIZE :: u32 where "USER_STACK_SIZE \<equiv> 0x4000"

text \<open>The fields of the structures in a block of bytes that was read to address 0 of a memory of their own.\<close>

definition block :: "u8 list \<Rightarrow> bytes" where
  "block bs a = (if unat a < length bs then bs ! unat a else 0)"

definition read_ehdr :: "u8 list \<Rightarrow> elf_header" where
  "read_ehdr bs = (let m = block bs in
     \<lparr>e_magic = read32 m 0, e_type = read16 m 16, e_machine = read16 m 18, e_version = read32 m 20, e_entry = read32 m 24,
      e_phoff = read32 m 28, e_phentsize = read16 m 42, e_phnum = read16 m 44\<rparr>)"

definition read_phdr :: "u8 list \<Rightarrow> nat \<Rightarrow> program_header" where
  "read_phdr bs i = (let m = block bs; a = 32 * of_nat i in
     \<lparr>p_type = read32 m a, p_offset = read32 m (a + 4), p_vaddr = read32 m (a + 8), p_filesz = read32 m (a + 16),
      p_memsz = read32 m (a + 20), p_flags = read32 m (a + 24)\<rparr>)"

subsection \<open>Bytes of the address space\<close>

definition load_byte :: "u32 \<Rightarrow> vmem \<Rightarrow> u8 outcome" where
  "load_byte a v = obind (vread (a AND 0xFFFFFFFC) v) (\<lambda>w. Ok (ucast (drop_bit (8 * unat (a AND 3)) w)))"

definition store_byte :: "u32 \<Rightarrow> u8 \<Rightarrow> vmem \<Rightarrow> vmem outcome" where
  "store_byte a b v =
     obind (vread (a AND 0xFFFFFFFC) v) (\<lambda>w.
     let i = 8 * unat (a AND 3) in
     vwrite (a AND 0xFFFFFFFC) ((w AND NOT (push_bit i 0xFF)) OR push_bit i (ucast b)) v)"

definition store_bytes :: "u32 \<Rightarrow> u8 list \<Rightarrow> vmem \<Rightarrow> vmem outcome" where
  "store_bytes a bs = ofor 0 (length bs) (\<lambda>i. store_byte (a + of_nat i) (bs ! i))"

definition clear_bytes :: "u32 \<Rightarrow> u32 \<Rightarrow> vmem \<Rightarrow> vmem outcome" where
  "clear_bytes a n = ofor 0 (unat n) (\<lambda>i. store_byte (a + of_nat i) 0)"

text \<open>A string with its terminator.\<close>

partial_function (option) user_string :: "u32 \<Rightarrow> u8 list \<Rightarrow> vmem \<Rightarrow> u8 list outcome option" where
  "user_string a s v =
     lift_bind (load_byte a v) (\<lambda>c. if c = 0 then Some (Ok (s @ [c])) else user_string (a + 1) (s @ [c]) v)"

definition file_read :: "fs_context \<Rightarrow> bytes \<Rightarrow> u8 list \<Rightarrow> u32 \<Rightarrow> u32 \<Rightarrow> u32 \<Rightarrow> (vfs_status \<times> u8 list) outcome" where
  "file_read cx disk path buf offset nbytes =
     obind (fs_raw_read cx path buf offset nbytes disk) (\<lambda>(st, n, m).
     Ok (st, map (\<lambda>i. m (buf + of_nat i)) [0..<unat n]))"

subsection \<open>Loading\<close>

text \<open>Every way in which the checks of the header fail ends in a panic; the return behind it is never reached.\<close>

definition check_header :: "vfs_status \<Rightarrow> u8 list \<Rightarrow> unit outcome" where
  "check_header st bs =
     (let h = read_ehdr bs in
      if st \<noteq> FS_E_OK then Panic ''ELF: Failed to open file successfully''
      else if length bs < unat sizeof_Ehdr then Panic ''ELF: Read too small of a file!''
      else if e_magic h \<noteq> ELF_MAGIC_NUM then Panic ''ELF: Bad magic number!''
      else if e_type h \<noteq> ET_EXEC then Panic ''ELF: Not an executable ELF!''
      else if e_machine h \<noteq> EM_386 then Panic ''ELF: Not a i386 ELF!''
      else if e_entry h = 0 then Panic ''ELF: Bad entry point!''
      else if e_version h \<noteq> EV_CURRENT then Panic ''ELF: Dont support non-current versions!''
      else if e_phoff h = 0 then Panic ''ELF: No program headers found!''
      else if e_phnum h = 0 then Panic ''ELF: Zero program headers!''
      else Ok ())"

definition map_new_page :: "u32 \<Rightarrow> u32 \<Rightarrow> vmem \<Rightarrow> vmem outcome" where
  "map_new_page va flags v = obind (take_frame v) (\<lambda>(pg, v1). virt_map_page pg va flags v1)"

partial_function (option) map_section :: "u32 \<Rightarrow> u32 \<Rightarrow> u32 \<Rightarrow> vmem \<Rightarrow> vmem outcome option" where
  "map_section start stop flags v =
     (if start < stop then
        lift_bind (virt_get_phys_addr start v) (\<lambda>p.
        lift_bind (if p = 0xFFFFFFFF then map_new_page start flags v else Ok v) (map_section (start + 4096) stop flags))
      else Some (Ok v))"

text \<open>Where \<^verbatim>\<open>_kmemclr\<close> starts to clear the section, and how much it clears.\<close>

definition clear_start :: "program_header \<Rightarrow> u32" where
  "clear_start ph = p_vaddr ph + (p_memsz ph - p_filesz ph)"

definition clear_length :: "program_header \<Rightarrow> u32" where
  "clear_length ph = p_memsz ph - p_filesz ph"

definition load_section :: "fs_context \<Rightarrow> bytes \<Rightarrow> u8 list \<Rightarrow> program_header \<Rightarrow> vmem \<Rightarrow> vmem outcome" where
  "load_section cx disk name ph v =
     (if p_type ph = PT_LOAD then
        if p_vaddr ph \<ge> KERNEL_LINK_ADDR \<or> p_vaddr ph < 0x100000 then Panic ''ELF: An ELF with bad addresses loaded''
        else if p_memsz ph = 0 then Ok v
        else
          obind (of_loop (map_section (p_vaddr ph) (p_vaddr ph + p_memsz ph)
              (if p_flags ph AND PF_WRITE > 0 then PG_USER OR PG_READ_WRITE else PG_USER) v)) (\<lambda>v1.
          obind (clear_bytes (clear_start ph) (clear_length ph) v1) (\<lambda>v2.
          if p_filesz ph > 0 then
            obind (file_read cx disk name (p_vaddr ph) (p_offset ph) (p_filesz ph)) (\<lambda>(st, bs).
            obind (store_bytes (p_vaddr ph) bs v2) (\<lambda>v3.
            if length bs \<noteq> unat (p_filesz ph) then Panic ''ELF: Failed to read data from the filesystem''
            else if st \<noteq> FS_E_OK then Panic ''ELF: failed to read program section''
            else Ok v3))
          else Ok v2))
      else Ok v)"

definition map_user_stack :: "vmem \<Rightarrow> vmem outcome" where
  "map_user_stack v =
     obind (ofor 0 4 (\<lambda>i. map_new_page (USER_STACK_LOCATION + 4096 * of_nat i) (PG_READ_WRITE OR PG_USER)) v)
       (clear_bytes USER_STACK_LOCATION USER_STACK_SIZE)"

definition elf_load :: "fs_context \<Rightarrow> bytes \<Rightarrow> nat option \<Rightarrow> u32 \<Rightarrow> kernel \<Rightarrow> (status \<times> kernel) outcome" where
  "elf_load cx disk pcb path k =
     obind (of_loop (user_string path [] (vm k))) (\<lambda>name.
     obind (k_malloc (of_nat (length name)) k) (\<lambda>(name_p, k1).
     case pcb of None \<Rightarrow> Ok (BAD_PARAM, k1)
     | Some p \<Rightarrow>
     if name_p = 0 then Ok (BAD_PARAM, k1)
     else
     obind (k_malloc sizeof_Ehdr k1) (\<lambda>(hdr_p, k2).
     obind (file_read cx disk name hdr_p 0 sizeof_Ehdr) (\<lambda>(st, bs).
     obind (check_header st bs) (\<lambda>_.
     let h = read_ehdr bs; tbl = sizeof_Phdr * ucast (e_phnum h) in
     if ucast (e_phentsize h) \<noteq> sizeof_Phdr then Panic ''ELF: program header size is different!''
     else
     obind (k_malloc tbl k2) (\<lambda>(tbl_p, k3).
     obind (file_read cx disk name tbl_p (e_phoff h) tbl) (\<lambda>(st, ps).
     if st \<noteq> FS_E_OK \<or> length ps < unat tbl then Panic ''ELF: error reading file!''
     else
     obind (virt_reset_page_directory (vm k3)) (\<lambda>v.
     obind (ofor 0 (unat (e_phnum h)) (\<lambda>i. load_section cx disk name (read_phdr ps i)) v) (\<lambda>v1.
     obind (map_user_stack v1) (\<lambda>v2.
     let cx_p = USER_STACK_LOCATION + USER_STACK_SIZE - 4 - 72; k4 = upd_pcb p (\<lambda>b. b\<lparr>ctx := cx_p\<rparr>) (k3\<lparr>vm := v2\<rparr>) in
     obind (store_all [(cx_p + 32, cx_p - 4), (cx_p + 28, USER_STACK_LOCATION + USER_STACK_SIZE - 4), (cx_p + 64, GDT_CODE),
       (cx_p, GDT_STACK), (cx_p + 16, GDT_DATA), (cx_p + 12, GDT_DATA), (cx_p + 8, GDT_DATA), (cx_p + 4, GDT_DATA),
       (cx_p + 60, e_entry h), (cx_p + 68, DEFAULT_EFLAGS)] k4) (\<lambda>k5.
     obind (k_free tbl_p k5) (\<lambda>k6.
     obind (k_free hdr_p k6) (\<lambda>k7.
     obind (k_free name_p k7) (\<lambda>k8.
     Ok (SUCCESS, k8)))))))))))))))"

text \<open>The system call that runs a program, with this loader.\<close>

definition exec_env :: "fs_context \<Rightarrow> bytes \<Rightarrow> outside \<Rightarrow> outside" where
  "exec_env cx disk env = env\<lparr>elf_load_from_file := (\<lambda>p. elf_load cx disk (Some p))\<rparr>"

subsection \<open>The pages of a section\<close>

lemma same_page_of: "same_page a b \<longleftrightarrow> page_of a = page_of b"
  by (simp add: same_page_unat page_of_def)

lemma page_entry_same: "page_of a = page_of b \<Longrightarrow> page_entry v a = page_entry v b"
  unfolding same_page_of [symmetric] by (simp add: same_page_def page_entry_def entry_at_def)

lemma map_new_page_ok:
  assumes ok: "vm_ok v" and low: "pd_idx va \<noteq> 1023"
  obtains m where "map_new_page va flags v = Panic m"
  | v' pa where "map_new_page va flags v = Ok v'" "vm_ok v'" "translate v va = None"
      "\<And>b. pd_idx b \<noteq> 1023 \<Longrightarrow> translate v' b = (if page_of b = page_of va then Some (pa + (b AND 0xFFF)) else translate v b)"
  using ok
proof (cases rule: take_frame_ok)
  case (1 m)
  then show thesis using that(1) by (simp add: map_new_page_def)
next
  case (2 n ph)
  let ?v = "v\<lparr>frames := ph\<rparr>"
  have wf: "wf_vm v" using ok by (simp add: vm_ok_def)
  have e: "page_entry ?v = page_entry v" by (rule ext) (simp add: page_entry_def entry_at_def frames_irrelevant)
  from virt_map_page_sim [OF 2(5) low page_addr_aligned [OF 2(3)], of flags] show thesis
  proof (elim disjE exE conjE)
    fix m assume "virt_map_page (page_addr n) va flags ?v = Panic m"
    then show thesis using 2(1) that(1) by (simp add: map_new_page_def)
  next
    fix v' assume v': "page_entry ?v va = 0" "virt_map_page (page_addr n) va flags ?v = Ok v'" "vm_ok v'"
      "\<forall>b. pd_idx b \<noteq> 1023 \<longrightarrow> page_entry v' b = (if same_page b va then page_addr n OR (flags AND 0xFFF) OR 1 else page_entry ?v b) \<and>
         translate v' b = (if same_page b va then Some (page_addr n + (b AND 0xFFF)) else translate ?v b)"
    have "translate v va = None" using v'(1) by (simp add: e translate_page_entry [OF wf])
    moreover have "translate v' b = (if page_of b = page_of va then Some (page_addr n + (b AND 0xFFF)) else translate v b)"
      if "pd_idx b \<noteq> 1023" for b
      using v'(4) [rule_format, OF that] by (simp add: same_page_of frames_irrelevant)
    moreover have "map_new_page va flags v = Ok v'" using 2(1) v'(2) by (simp add: map_new_page_def)
    ultimately show thesis using v'(3) that(2) [of v' "page_addr n"] by blast
  qed
qed

lemma map_section_mapped:
  assumes "start < stop" "virt_get_phys_addr start v = Ok p" "p \<noteq> 0xFFFFFFFF"
  shows "map_section start stop flags v = map_section (start + 4096) stop flags v"
  by (subst (1) map_section.simps) (simp add: assms)

lemma map_section_new:
  assumes "start < stop" "virt_get_phys_addr start v = Ok 0xFFFFFFFF"
  shows "map_section start stop flags v = lift_bind (map_new_page start flags v) (map_section (start + 4096) stop flags)"
  by (subst (1) map_section.simps) (simp add: assms)

lemma map_section_ok:
  assumes "vm_ok v" "unat stop \<le> unat start + 4096 * n" "0 < n \<Longrightarrow> unat start + 4096 * (n - 1) < unat stop" "unat stop \<le> 0xFFC00000"
  shows "(\<exists>m. map_section start stop flags v = Some (Panic m)) \<or>
    (\<exists>v'. map_section start stop flags v = Some (Ok v') \<and> vm_ok v' \<and>
      (\<forall>b. pd_idx b \<noteq> 1023 \<longrightarrow>
         (if page_of start \<le> page_of b \<and> page_of b < page_of start + n
          then translate v' b \<noteq> None \<and> (translate v b \<noteq> None \<longrightarrow> translate v' b = translate v b)
          else translate v' b = translate v b)))"
  using assms
proof (induction n arbitrary: v start)
  case 0
  then show ?case by (subst map_section.simps) (auto simp: word_less_nat_alt)
next
  case (Suc n)
  have lt: "unat start < unat stop" using Suc.prems(3) by simp
  then have low: "pd_idx start \<noteq> 1023" using Suc.prems(4) by (intro pd_idx_below) simp
  have u: "unat (start + 4096) = unat start + 4096" using lt Suc.prems(4) by (simp add: unat_add_no_wrap)
  then have pg: "page_of (start + 4096) = Suc (page_of start)" by (simp add: page_of_def)
  have IH: "(\<exists>m. map_section (start + 4096) stop flags v1 = Some (Panic m)) \<or>
    (\<exists>v'. map_section (start + 4096) stop flags v1 = Some (Ok v') \<and> vm_ok v' \<and>
      (\<forall>b. pd_idx b \<noteq> 1023 \<longrightarrow>
         (if page_of (start + 4096) \<le> page_of b \<and> page_of b < page_of (start + 4096) + n
          then translate v' b \<noteq> None \<and> (translate v1 b \<noteq> None \<longrightarrow> translate v' b = translate v1 b)
          else translate v' b = translate v1 b)))" if "vm_ok v1" for v1
  proof (rule Suc.IH [OF that])
    show "unat stop \<le> unat (start + 4096) + 4096 * n" using Suc.prems(2) u by simp
    show "unat (start + 4096) + 4096 * (n - 1) < unat stop" if "0 < n" using Suc.prems(3) u that by (cases n) simp_all
  qed (rule Suc.prems(4))
  have step: ?case if v1: "map_section start stop flags v = map_section (start + 4096) stop flags v1" "vm_ok v1"
    "\<And>b. pd_idx b \<noteq> 1023 \<Longrightarrow> if page_of b = page_of start then translate v1 b \<noteq> None \<and> (translate v b \<noteq> None \<longrightarrow> translate v1 b = translate v b)
       else translate v1 b = translate v b" for v1
    using IH [OF v1(2)]
  proof (elim disjE exE conjE)
    fix v' assume v': "map_section (start + 4096) stop flags v1 = Some (Ok v')" "vm_ok v'"
      "\<forall>b. pd_idx b \<noteq> 1023 \<longrightarrow>
         (if page_of (start + 4096) \<le> page_of b \<and> page_of b < page_of (start + 4096) + n
          then translate v' b \<noteq> None \<and> (translate v1 b \<noteq> None \<longrightarrow> translate v' b = translate v1 b)
          else translate v' b = translate v1 b)"
    have range: "if page_of start \<le> page_of b \<and> page_of b < page_of start + Suc n
          then translate v' b \<noteq> None \<and> (translate v b \<noteq> None \<longrightarrow> translate v' b = translate v b)
          else translate v' b = translate v b" if "pd_idx b \<noteq> 1023" for b
    proof (cases "page_of b = page_of start")
      case True
      then show ?thesis using v'(3) [rule_format, OF that] v1(3) [OF that] unfolding pg by simp
    next
      case False
      then have "page_of start \<le> page_of b \<and> page_of b < page_of start + Suc n \<longleftrightarrow>
          page_of (start + 4096) \<le> page_of b \<and> page_of b < page_of (start + 4096) + n" unfolding pg by linarith
      then show ?thesis using False v'(3) [rule_format, OF that] v1(3) [OF that] by simp
    qed
    show ?thesis unfolding v1(1) v'(1) using v'(2) range by blast
  qed (use v1(1) in simp)
  have lt': "start < stop" using lt by (simp add: word_less_nat_alt)
  have same: "translate v b = None \<longleftrightarrow> translate v start = None" if "page_of b = page_of start" for b
    using page_entry_same [OF that, of v] Suc.prems(1) by (simp add: translate_page_entry vm_ok_def)
  have look: "virt_get_phys_addr start v = Ok (case translate v start of None \<Rightarrow> 0xFFFFFFFF | Some p \<Rightarrow> p)"
    by (rule lookup_ok [OF Suc.prems(1) low])
  show ?case
  proof (cases "virt_get_phys_addr start v = Ok 0xFFFFFFFF")
    case True
    note new = map_section_new [OF lt' True, of flags]
    from Suc.prems(1) low show ?thesis
    proof (cases rule: map_new_page_ok [where flags = flags])
      case (1 m)
      then show ?thesis using new by simp
    next
      case (2 v1 pa)
      have run: "map_section start stop flags v = map_section (start + 4096) stop flags v1" using new 2(1) by simp
      have "if page_of b = page_of start then translate v1 b \<noteq> None \<and> (translate v b \<noteq> None \<longrightarrow> translate v1 b = translate v b)
       else translate v1 b = translate v b" if "pd_idx b \<noteq> 1023" for b
        using 2(4) [OF that] same [of b] 2(3) by simp
      then show ?thesis by (rule step [OF run 2(2)])
    qed
  next
    case False
    then obtain p where p: "translate v start = Some p" "p \<noteq> 0xFFFFFFFF" using look by (cases "translate v start") simp_all
    have run: "map_section start stop flags v = map_section (start + 4096) stop flags v"
      using map_section_mapped [OF lt' _ p(2)] look p(1) by simp
    have "if page_of b = page_of start then translate v b \<noteq> None \<and> (translate v b \<noteq> None \<longrightarrow> translate v b = translate v b)
       else translate v b = translate v b" for b
      using same [of b] p(1) by simp
    then show ?thesis by (rule step [OF run Suc.prems(1)])
  qed
qed

subsection \<open>What is cleared\<close>

lemma store_unmapped: "translate v (a AND 0xFFFFFFFC) = None \<Longrightarrow> store_byte a b v = Fault"
  by (simp add: store_byte_def vread_def)

lemma ofor_first: "0 < n \<Longrightarrow> f 0 s = Fault \<Longrightarrow> ofor 0 n f s = Fault"
  by (simp add: upt_rec)

lemma clear_unmapped:
  assumes "translate v (a AND 0xFFFFFFFC) = None" "n \<noteq> 0"
  shows "clear_bytes a n v = Fault"
  unfolding clear_bytes_def using assms by (intro ofor_first) (simp_all add: store_unmapped unat_gt_0)

lemma shifted_interval:
  fixes v f m :: nat
  assumes "f \<le> m"
  shows "{v + (m - f)..<v + (m - f) + (m - f)} = {v + f..<v + m} \<longleftrightarrow> m = f \<or> m = 2 * f"
proof (cases "m = f")
  case False
  then have "f < m" using assms by simp
  then have "{v + (m - f)..<v + (m - f) + (m - f)} = {v + f..<v + m} \<longleftrightarrow> v + (m - f) = v + f \<and> v + (m - f) + (m - f) = v + m"
    by (intro atLeastLessThan_eq_iff) simp_all
  then show ?thesis using \<open>f < m\<close> by linarith
qed simp

lemma clear_range_iff:
  assumes "p_filesz ph \<le> p_memsz ph" "unat (p_vaddr ph) + 2 * unat (p_memsz ph) < 2 ^ 32"
  shows "{unat (clear_start ph)..<unat (clear_start ph) + unat (clear_length ph)} =
      {unat (p_vaddr ph) + unat (p_filesz ph)..<unat (p_vaddr ph) + unat (p_memsz ph)} \<longleftrightarrow>
    p_memsz ph = p_filesz ph \<or> unat (p_memsz ph) = 2 * unat (p_filesz ph)"
proof -
  let ?v = "unat (p_vaddr ph)" and ?m = "unat (p_memsz ph)" and ?f = "unat (p_filesz ph)"
  have le: "?f \<le> ?m" using assms(1) by (simp add: word_le_nat_alt)
  have l: "unat (clear_length ph) = ?m - ?f" using assms(1) by (simp add: clear_length_def unat_sub)
  have s: "unat (clear_start ph) = ?v + (?m - ?f)"
    using assms(2) le l unfolding clear_start_def clear_length_def by (subst unat_add_no_wrap) simp_all
  have "p_memsz ph = p_filesz ph \<longleftrightarrow> ?m = ?f" by (simp add: word_unat_eq_iff)
  then show ?thesis unfolding s l using shifted_interval [OF le] by simp
qed

lemma aligned_word: "(a :: u32) AND 0xFFF = 0 \<Longrightarrow> a AND 0xFFFFFFFC = a"
proof -
  assume "a AND 0xFFF = 0"
  then have b: "\<not> bit (a AND 0xFFF) i" for i by simp
  have c: "(0xFFF :: u32) = mask 12" "(0xFFFFFFFC :: u32) = NOT (mask 2)" by code_simp+
  show "a AND 0xFFFFFFFC = a"
  proof (rule bit_word_eqI)
    fix i assume "i < LENGTH(32)"
    then show "bit (a AND 0xFFFFFFFC) i = bit a i" using b [of i] unfolding c by (auto simp: bit_simps)
  qed
qed

lemma page_of_add:
  assumes "unat a + unat n < 2 ^ 32" "n AND 0xFFF = 0"
  shows "page_of (a + n) = page_of a + unat n div 4096"
proof -
  have "unat n mod 4096 = 0" using assms(2) by (simp add: aligned_unat)
  then obtain q where "unat n = 4096 * q" by auto
  then show ?thesis using assms(1) by (simp add: page_of_def unat_add_no_wrap)
qed

lemma section_pages:
  assumes "vm_ok v" "unat start + unat sz \<le> 0xFFC00000"
  shows "(\<exists>m. map_section start (start + sz) flags v = Some (Panic m)) \<or>
    (\<exists>v'. map_section start (start + sz) flags v = Some (Ok v') \<and> vm_ok v' \<and>
      (\<forall>b. pd_idx b \<noteq> 1023 \<longrightarrow>
         (if page_of start \<le> page_of b \<and> page_of b < page_of start + (unat sz + 4095) div 4096
          then translate v' b \<noteq> None \<and> (translate v b \<noteq> None \<longrightarrow> translate v' b = translate v b)
          else translate v' b = translate v b)))"
proof (rule map_section_ok [OF assms(1)])
  have u: "unat (start + sz) = unat start + unat sz" using assms(2) by (intro unat_add_no_wrap) simp
  have m: "(unat sz + 4095) div 4096 * 4096 + (unat sz + 4095) mod 4096 = unat sz + 4095" by simp
  have m': "(unat sz + 4095) mod 4096 < 4096" by simp
  show "unat (start + sz) \<le> unat start + 4096 * ((unat sz + 4095) div 4096)" using u m m' by linarith
  show "unat start + 4096 * ((unat sz + 4095) div 4096 - 1) < unat (start + sz)"
    if "0 < (unat sz + 4095) div 4096" using u m that by (simp add: diff_mult_distrib2)
  show "unat (start + sz) \<le> 0xFFC00000" using assms(2) u by simp
qed

subsection \<open>Properties\<close>

lemma demo_section_idx:
  "pd_idx 0x400FF0 = 1" "pt_idx 0x400FF0 = 0" "(0x400FF0 :: u32) AND 0xFFF = 0xFF0"
  by code_simp+

text \<open>
  C25: the loop that maps a section always ends. It visits one page for each started page of the size, from the page of the
  first byte on. Either it panics since no frame is left, or afterwards every visited page is mapped, pages that were mapped
  before keep their frames and no other page changes. The invariant of the address space is kept.
\<close>

theorem map_section_correct:
  assumes "vm_ok v" "unat start + unat sz \<le> 0xFFC00000"
  shows "(\<exists>m. map_section start (start + sz) flags v = Some (Panic m)) \<or>
    (\<exists>v'. map_section start (start + sz) flags v = Some (Ok v') \<and> vm_ok v' \<and>
      (\<forall>b. pd_idx b \<noteq> 1023 \<longrightarrow>
         (if page_of start \<le> page_of b \<and> page_of b < page_of start + (unat sz + 4095) div 4096
          then translate v' b \<noteq> None \<and> (translate v b \<noteq> None \<longrightarrow> translate v' b = translate v b)
          else translate v' b = translate v b)))"
  by (rule section_pages [OF assms])

theorem map_section_correct_witness:
  "\<exists>v'. map_section 0x400FF0 0x401010 7 demo_vm = Some (Ok v') \<and> translate v' 0x400010 = Some 0x5010 \<and> translate v' 0x401000 = None"
proof -
  have f: "(0x400FF0 :: u32) + 4096 = 0x401FF0" "(0x400FF0 :: u32) + 0x20 = 0x401010" by simp_all
  have t: "translate demo_vm 0x400FF0 = Some 0x5FF0" "translate demo_vm 0x401000 = None"
    and i: "pd_idx 0x400FF0 \<noteq> 1023" "pd_idx 0x400010 \<noteq> 1023" "pd_idx 0x401000 \<noteq> 1023"
    by (simp_all add: translate_page_entry [OF demo_wf] demo_page_entry demo_section_idx demo_bases demo_idx)
  have "map_section 0x400FF0 0x401010 7 demo_vm = map_section 0x401FF0 0x401010 7 demo_vm"
    using map_section_mapped [of "0x400FF0" "0x401010" demo_vm "0x5FF0" 7] lookup_ok [OF demo_vm_ok i(1)] t(1) f by simp
  also have "\<dots> = Some (Ok demo_vm)" by (subst map_section.simps) simp
  finally have "map_section 0x400FF0 0x401010 7 demo_vm = Some (Ok demo_vm)" .
  then obtain v' where v': "map_section 0x400FF0 0x401010 7 demo_vm = Some (Ok v')"
     "\<forall>b. pd_idx b \<noteq> 1023 \<longrightarrow> (if page_of 0x400FF0 \<le> page_of b \<and> page_of b < page_of 0x400FF0 + 1
          then translate v' b \<noteq> None \<and> (translate demo_vm b \<noteq> None \<longrightarrow> translate v' b = translate demo_vm b)
          else translate v' b = translate demo_vm b)"
    using map_section_correct [OF demo_vm_ok, of "0x400FF0" "0x20" 7] f by auto
  then show ?thesis using i t demo_translate by (simp add: page_of_def)
qed

text \<open>
  The loader clears the part of a section that the file does not give, the bytes behind the ones it gives,
  only if there are none or as many as the file gives. It takes the length of the part for the offset of the part.
\<close>

theorem section_clears_wrong_range:
  assumes "p_filesz ph \<le> p_memsz ph" "unat (p_vaddr ph) + 2 * unat (p_memsz ph) < 2 ^ 32"
  shows "{unat (clear_start ph)..<unat (clear_start ph) + unat (clear_length ph)} =
      {unat (p_vaddr ph) + unat (p_filesz ph)..<unat (p_vaddr ph) + unat (p_memsz ph)} \<longleftrightarrow>
    p_memsz ph = p_filesz ph \<or> unat (p_memsz ph) = 2 * unat (p_filesz ph)"
  by (rule clear_range_iff [OF assms])

theorem section_clears_wrong_range_witness:
  "{0x4002F0..<0x4005E0} \<noteq> {0x400010..<0x400300 :: nat}"
  using section_clears_wrong_range [of "\<lparr>p_type = 1, p_offset = 0, p_vaddr = 0x400000, p_filesz = 0x10, p_memsz = 0x300, p_flags = 2\<rparr>"]
  by (simp add: clear_start_def clear_length_def)

text \<open>
  A program with a section of whole pages that has no bytes in the file, behind which no page is mapped,
  cannot be loaded: the loader runs out of frames or faults, as it clears the bytes behind the section.
\<close>

theorem bss_section_faults:
  assumes "vm_ok v" "p_type ph = PT_LOAD" "p_filesz ph = 0" "p_memsz ph \<noteq> 0"
    and "p_vaddr ph AND 0xFFF = 0" "p_memsz ph AND 0xFFF = 0" "0x100000 \<le> p_vaddr ph"
    and "unat (p_vaddr ph) + unat (p_memsz ph) < 0xC0000000" "translate v (p_vaddr ph + p_memsz ph) = None"
  shows "(\<exists>m. load_section cx disk name ph v = Panic m) \<or> load_section cx disk name ph v = Fault"
proof -
  let ?e = "p_vaddr ph + p_memsz ph"
  let ?flags = "if p_flags ph AND PF_WRITE > 0 then PG_USER OR PG_READ_WRITE else PG_USER"
  have u: "unat ?e = unat (p_vaddr ph) + unat (p_memsz ph)" using assms(8) by (intro unat_add_no_wrap) simp
  have low: "pd_idx ?e \<noteq> 1023" using assms(8) u by (intro pd_idx_below) simp
  obtain a n where q: "unat (p_vaddr ph) = 4096 * a" "unat (p_memsz ph) = 4096 * n"
    using assms(5,6) by (auto simp: aligned_unat elim!: dvdE)
  have "?e AND 0xFFF = 0" unfolding aligned_unat u q by simp
  then have al: "?e AND 0xFFFFFFFC = ?e" by (rule aligned_word)
  have "(unat (p_memsz ph) + 4095) div 4096 = unat (p_memsz ph) div 4096"
    unfolding q by simp
  moreover have "page_of ?e = page_of (p_vaddr ph) + unat (p_memsz ph) div 4096"
    using assms(6,8) by (intro page_of_add) simp_all
  ultimately have out: "\<not> page_of ?e < page_of (p_vaddr ph) + (unat (p_memsz ph) + 4095) div 4096" by simp
  have ok: "\<not> (KERNEL_LINK_ADDR \<le> p_vaddr ph \<or> p_vaddr ph < 0x100000)"
    using assms(7,8) by (simp add: word_le_nat_alt word_less_nat_alt)
  have len: "unat (p_vaddr ph) + unat (p_memsz ph) \<le> 0xFFC00000" using assms(8) by simp
  from section_pages [OF assms(1) len, of ?flags] show ?thesis
  proof (elim disjE exE conjE)
    fix m assume "map_section (p_vaddr ph) ?e ?flags v = Some (Panic m)"
    then show ?thesis using ok assms(2-4) by (simp add: load_section_def)
  next
    fix v' assume v': "map_section (p_vaddr ph) ?e ?flags v = Some (Ok v')"
      "\<forall>b. pd_idx b \<noteq> 1023 \<longrightarrow>
         (if page_of (p_vaddr ph) \<le> page_of b \<and> page_of b < page_of (p_vaddr ph) + (unat (p_memsz ph) + 4095) div 4096
          then translate v' b \<noteq> None \<and> (translate v b \<noteq> None \<longrightarrow> translate v' b = translate v b)
          else translate v' b = translate v b)"
    have "translate v' ?e = None" using v'(2) low out assms(9) by auto
    then have "clear_bytes (clear_start ph) (clear_length ph) v' = Fault"
      using assms(3,4) al by (intro clear_unmapped) (simp_all add: clear_start_def clear_length_def)
    then show ?thesis using ok assms(2-4) v'(1) by (simp add: load_section_def)
  qed
qed

theorem bss_section_faults_witness:
  "\<exists>cx disk name ph. p_vaddr ph = 0x400000 \<and> p_memsz ph = 0x1000 \<and>
     ((\<exists>m. load_section cx disk name ph demo_vm = Panic m) \<or> load_section cx disk name ph demo_vm = Fault)"
proof -
  let ?ph = "\<lparr>p_type = 1, p_offset = 0, p_vaddr = 0x400000, p_filesz = 0, p_memsz = 0x1000, p_flags = 2\<rparr>"
  have "(0x400000 :: u32) AND 0xFFF = 0" "(0x1000 :: u32) AND 0xFFF = 0" by code_simp+
  moreover have "translate demo_vm 0x401000 = None"
    by (simp add: translate_page_entry [OF demo_wf] demo_page_entry demo_idx)
  ultimately have "(\<exists>m. load_section undefined undefined [] ?ph demo_vm = Panic m) \<or> load_section undefined undefined [] ?ph demo_vm = Fault"
    by (intro bss_section_faults [OF demo_vm_ok]) simp_all
  then show ?thesis by (intro exI [of _ undefined] exI [of _ "[]"] exI [of _ ?ph]) simp
qed

text \<open>What the checks of the header accept.\<close>

definition executable :: "elf_header \<Rightarrow> bool" where
  "executable h \<longleftrightarrow> e_magic h = ELF_MAGIC_NUM \<and> e_type h = ET_EXEC \<and> e_machine h = EM_386 \<and> e_version h = EV_CURRENT \<and>
     e_entry h \<noteq> 0 \<and> e_phoff h \<noteq> 0 \<and> e_phnum h \<noteq> 0"

lemma check_header_cases:
  "check_header st bs = Ok () \<and> st = FS_E_OK \<and> 52 \<le> length bs \<and> executable (read_ehdr bs) \<or> (\<exists>m. check_header st bs = Panic m)"
  by (simp add: check_header_def executable_def Let_def not_less)

lemma file_read_ok: "file_read cx disk name buf off n = Ok (st, bs) \<Longrightarrow> st = FS_E_OK \<or> st = FS_E_NOFILE \<or> st = FS_E_NOT_FQN"
  by (auto simp: file_read_def fs_raw_read_def) (metis read_status.exhaust vfs_read_status.simps)

lemma elf_load_header:
  assumes R: "krep k A L" and name: "of_loop (user_string path [] (vm k)) = Ok name" "length name \<le> 2 ^ 28"
  obtains m where "elf_load cx disk (Some p) path k = Panic m"
  | "elf_load cx disk (Some p) path k = Fault" | "elf_load cx disk (Some p) path k = Diverge"
  | k' buf bs where "elf_load cx disk (Some p) path k = Ok (SUCCESS, k')" "file_read cx disk name buf 0 sizeof_Ehdr = Ok (FS_E_OK, bs)"
      "52 \<le> length bs" "executable (read_ehdr bs)"
proof (cases "elf_load cx disk (Some p) path k")
  case (Ok r)
  obtain st k' where r: "r = (st, k')" by (cases r)
  have n: "unat (of_nat (length name) :: u32) \<le> 2 ^ 28" using name(2) by (simp add: unat_of_nat take_bit_nat_eq_self)
  note run = Ok [unfolded elf_load_def name(1) obind.simps r]
  from R n show thesis
  proof (cases rule: k_malloc_sim)
    case (1 m)
    then show thesis using run by simp
  next
    case (2 a h)
    note run2 = run [unfolded 2(1) obind.simps prod.case option.case]
    from run2 2(2) obtain buf fs bs where h: "file_read cx disk name buf 0 sizeof_Ehdr = Ok (fs, bs)" "check_header fs bs = Ok ()"
      "st = SUCCESS"
      by (auto simp: Let_def split: if_splits)
    then show thesis using check_header_cases [of fs bs] Ok r that(4) by auto
  qed
qed (use that in auto)

text \<open>
  Loading a program for a given process, with a name that can be read, never reports an error, although callers test for
  one: it panics, faults, does not return, or returns with success. It returns only if a header of 52 bytes could be read
  from the file and is the header of a program for this machine with sections. Without a process, the loader reports a
  bad parameter (\<open>elf_load_no_process\<close>).
\<close>

theorem elf_load_never_fails:
  assumes "krep k A L" "of_loop (user_string path [] (vm k)) = Ok name" "length name \<le> 2 ^ 28"
  shows "(\<exists>m. elf_load cx disk (Some p) path k = Panic m) \<or> elf_load cx disk (Some p) path k = Fault \<or>
    elf_load cx disk (Some p) path k = Diverge \<or>
    (\<exists>k' buf bs. elf_load cx disk (Some p) path k = Ok (SUCCESS, k') \<and> file_read cx disk name buf 0 sizeof_Ehdr = Ok (FS_E_OK, bs) \<and>
       52 \<le> length bs \<and> executable (read_ehdr bs))"
  using assms by (cases rule: elf_load_header [where cx = cx and disk = disk and p = p]) blast+

lemma elf_load_no_process:
  assumes "krep k A L" "of_loop (user_string path [] (vm k)) = Ok name" "length name \<le> 2 ^ 28"
  shows "(\<exists>m. elf_load cx disk None path k = Panic m) \<or> (\<exists>k'. elf_load cx disk None path k = Ok (BAD_PARAM, k'))"
proof -
  have "unat (of_nat (length name) :: u32) \<le> 2 ^ 28" using assms(3) by (simp add: unat_of_nat take_bit_nat_eq_self)
  with assms(1) show ?thesis by (cases rule: k_malloc_sim) (simp_all add: elf_load_def assms(2))
qed

lemma demo_string: "user_string 0x400000 [] demo_vm = Some (Ok [0])"
proof -
  have "(0x400000 :: u32) AND 0xFFFFFFFC = 0x400000" "(0x400000 :: u32) AND 0xFFF = 0" by code_simp+
  then have "load_byte 0x400000 demo_vm = Ok 0"
    by (simp add: load_byte_def vread_def translate_page_entry [OF demo_wf] demo_page_entry demo_idx demo_bases)
      (simp add: demo_vm_def)
  then show ?thesis by (subst user_string.simps) simp
qed

lemma unqualified_name: "c \<noteq> SEPARATOR \<Longrightarrow> file_read cx disk (c # cs) buf off n = Ok (FS_E_NOT_FQN, [])"
  by (simp add: file_read_def fs_raw_read_def ext2_raw_read_def)

theorem elf_load_never_fails_witness:
  "\<forall>cx disk f P. (\<exists>m. elf_load cx disk (Some 0) 0x400000 (table_kernel f P) = Panic m) \<or> elf_load cx disk (Some 0) 0x400000 (table_kernel f P) = Fault \<or>
    elf_load cx disk (Some 0) 0x400000 (table_kernel f P) = Diverge"
proof (intro allI)
  fix cx disk f P
  show "(\<exists>m. elf_load cx disk (Some 0) 0x400000 (table_kernel f P) = Panic m) \<or> elf_load cx disk (Some 0) 0x400000 (table_kernel f P) = Fault \<or>
    elf_load cx disk (Some 0) 0x400000 (table_kernel f P) = Diverge"
    using elf_load_never_fails [OF table_krep, of "0x400000" f P "[0]" cx disk 0] by (simp add: demo_string unqualified_name)
qed

text \<open>
  A process stops the kernel by the system call that runs a program, if it asks for one that cannot be found: if the
  name can be read and reading the file gives an error, the call panics.
\<close>

theorem exec_missing_panics:
  assumes "krep k A L" "ARG p 1 k = Ok path" "of_loop (user_string path [] (vm k)) = Ok name" "length name \<le> 2 ^ 28"
    and "\<And>buf. \<exists>st bs. file_read cx disk name buf 0 sizeof_Ehdr = Ok (st, bs) \<and> st \<noteq> FS_E_OK"
  shows "\<exists>m. sys_exec (exec_env cx disk env) p k = Panic m"
proof -
  have n: "unat (of_nat (length name) :: u32) \<le> 2 ^ 28" using assms(4) by (simp add: unat_of_nat take_bit_nat_eq_self)
  from assms(1) n show ?thesis
  proof (cases rule: k_malloc_sim)
    case (1 m)
    then show ?thesis using assms(2,3) by (simp add: sys_exec_def exec_env_def elf_load_def)
  next
    case (2 a h)
    have "krep (put_q h k) A (insert a L)" using 2(5) by simp
    moreover have "unat sizeof_Ehdr \<le> 2 ^ 28" by simp
    ultimately show ?thesis
    proof (cases rule: k_malloc_sim)
      case (1 m)
      then show ?thesis using assms(2,3) 2(1,2) by (simp add: sys_exec_def exec_env_def elf_load_def)
    next
      case (2 b h2)
      obtain st bs where "file_read cx disk name b 0 sizeof_Ehdr = Ok (st, bs)" "st \<noteq> FS_E_OK" using assms(5) by blast
      then show ?thesis using assms(2,3) \<open>k_malloc _ k = _\<close> \<open>a \<noteq> 0\<close> 2(1)
        by (simp add: sys_exec_def exec_env_def elf_load_def check_header_def)
    qed
  qed
qed

theorem exec_missing_panics_witness:
  "\<forall>cx disk env. \<exists>m. sys_exec (exec_env cx disk env) 0 (sys_demo 0x400080) = Panic m"
proof (intro allI)
  fix cx disk env
  let ?v = "vm (sys_demo 0x400080)"
  have "(0x400080 :: u32) AND 0xFFFFFFFC = 0x400080" "(0x400080 :: u32) AND 3 = 0" by code_simp+
  moreover have "pmem ?v 0x5080 = 0" using demo_plain(5) by (simp add: sys_demo_def poke_def) (simp add: demo_vm_def)
  ultimately have "load_byte 0x400080 ?v = Ok 0"
    using demo_plain(6) by (simp add: load_byte_def vread_def sys_demo_fields(13))
  then have "of_loop (user_string 0x400080 [] ?v) = Ok [0]" by (subst user_string.simps) simp
  then show "\<exists>m. sys_exec (exec_env cx disk env) 0 (sys_demo 0x400080) = Panic m"
    using sys_demo_fields(7,12) by (intro exec_missing_panics) (auto simp: unqualified_name)
qed

end
