(* ===== verification/Elf_Facts.thy ===== *)
theory Elf_Facts
  imports Elf Ext2_Facts
begin

text \<open>
  What the program loader of \<^verbatim>\<open>Elf\<close> puts in memory. The pages of the program that are loaded have frames of their
  own, which no page table uses: mapping another page and storing bytes keep this, so a byte that is stored in one of the
  pages is read back from there, and nothing else changes. The number of bytes that a file gives is bounded by the
  number that is asked for.
\<close>

subsection \<open>Pages of their own\<close>













subsection \<open>Storing bytes\<close>







subsection \<open>How many bytes a file gives\<close>






subsection \<open>What loading a section puts in memory\<close>








end
