(* ===== verification/Video.thy ===== *)
theory Video
  imports Elf Desktop
begin

text \<open>
  The video module, \<^verbatim>\<open>src/kernel/video/vesa.c\<close> and \<^verbatim>\<open>video.c\<close>, which chooses a video mode and maps its frame
  buffer. The BIOS is the argument \<open>bios\<close>: for each call the value it leaves in AX and the structure it
  fills; \<open>junk\<close> is what the variable \<^verbatim>\<open>best_diff\<close> holds, which is never initialised. Printing is left out.
\<close>

subsection \<open>Calls of the BIOS\<close>

text \<open>The fields of the mode that the module uses.\<close>

record vesa_mode_info =
  attributes :: u16
  mode_pitch :: u16
  x_resolution :: u16
  y_resolution :: u16
  bits_per_pixel :: u8
  memory_model :: u8
  frame_buffer_address :: u32

record bios =
  get_controller_info :: "u16 \<times> u32"
  get_mode_info :: "u16 \<Rightarrow> u16 \<times> vesa_mode_info"
  set_mode :: "u16 \<Rightarrow> u16"
  mode_list :: "u32 \<Rightarrow> u16 list"

abbreviation (input) REQUIRED_ATTRIBUTES :: u16 where "REQUIRED_ATTRIBUTES \<equiv> 0x99"
abbreviation (input) PACKED_PIXELS :: u8 where "PACKED_PIXELS \<equiv> 4"
abbreviation (input) DIRECT_COLOR :: u8 where "DIRECT_COLOR \<equiv> 6"
abbreviation (input) sizeof_Screen :: u32 where "sizeof_Screen \<equiv> 24"
abbreviation (input) FRAMEBUFFER_ADDRESS :: u32 where "FRAMEBUFFER_ADDRESS \<equiv> 0xC4000000"

definition segmented_to_linear :: "u32 \<Rightarrow> u32" where
  "segmented_to_linear a = push_bit 4 (drop_bit 16 a) + (a AND 0xFFFF)"

text \<open>The address of the list of modes.\<close>

definition vesa_load_info :: "bios \<Rightarrow> u32 outcome" where
  "vesa_load_info b =
     (let (ax, modes) = get_controller_info b in
      if ax \<noteq> 0x4F then Panic ''_vesa_load_info: Unable to load VESA controller info.'' else Ok (segmented_to_linear modes))"

definition vesa_load_mode_info :: "bios \<Rightarrow> u16 \<Rightarrow> vesa_mode_info outcome" where
  "vesa_load_mode_info b n =
     (let (ax, info) = get_mode_info b n in
      if ax \<noteq> 0x4F then Panic ''_vesa_load_mode_info: Unable to load VESA mode info.'' else Ok info)"

definition vesa_select_mode :: "bios \<Rightarrow> u16 \<Rightarrow> unit outcome" where
  "vesa_select_mode b n =
     (if set_mode b n \<noteq> 0x4F then Panic ''_vesa_select_mode: Unable to set VESA mode.'' else Ok ())"

subsection \<open>Choosing a mode\<close>

definition abs32 :: "u32 \<Rightarrow> u32" where
  "abs32 x = (if sint x < 0 then - x else x)"

definition usable :: "u32 \<Rightarrow> vesa_mode_info \<Rightarrow> bool" where
  "usable width i \<longleftrightarrow>
     attributes i AND REQUIRED_ATTRIBUTES = REQUIRED_ATTRIBUTES \<and>
     (memory_model i = PACKED_PIXELS \<or> memory_model i = DIRECT_COLOR) \<and>
     (bits_per_pixel i = 24 \<or> bits_per_pixel i = 32) \<and>
     \<not> sint (ucast (x_resolution i) :: u32) > sint width"

definition mode_diff :: "u32 \<Rightarrow> u32 \<Rightarrow> vesa_mode_info \<Rightarrow> u32" where
  "mode_diff width height i = abs32 (ucast (x_resolution i) * ucast (y_resolution i) - width * height)"

text \<open>The list of modes ends with \<^verbatim>\<open>0xFFFF\<close>. The depth of the best mode stays 0.\<close>

fun choose_loop :: "bios \<Rightarrow> u32 \<Rightarrow> u32 \<Rightarrow> u16 list \<Rightarrow> u16 \<Rightarrow> u32 \<Rightarrow> u16 outcome" where
  "choose_loop b width height [] best_mode best_diff = Fault"
| "choose_loop b width height (n # ns) best_mode best_diff =
     (let best_bpp = 0 in
      if n = 0xFFFF then Ok best_mode
      else
        obind (vesa_load_mode_info b n) (\<lambda>i.
        if \<not> usable width i then choose_loop b width height ns best_mode best_diff
        else
          let diff = mode_diff width height i in
          if best_diff > diff \<or> best_diff = diff \<and> bits_per_pixel i > best_bpp
          then choose_loop b width height ns n diff
          else choose_loop b width height ns best_mode best_diff))"

definition vesa_choose_mode :: "bios \<Rightarrow> u32 \<Rightarrow> u16 list \<Rightarrow> u32 \<Rightarrow> u32 \<Rightarrow> u16 outcome" where
  "vesa_choose_mode b junk modes width height = choose_loop b width height modes 0 junk"

subsection \<open>Setting up the screen\<close>

partial_function (option) screen_loop :: "u32 \<Rightarrow> u32 \<Rightarrow> u32 \<Rightarrow> vmem \<Rightarrow> vmem outcome option" where
  "screen_loop fb n addr v =
     (if addr < n then
        lift_bind (virt_map_page (fb + addr) (FRAMEBUFFER_ADDRESS + addr) PG_READ_WRITE v) (screen_loop fb n (addr + 4096))
      else Some (Ok v))"

text \<open>Bytes of the kernel heap are in its words.\<close>

definition clear_heap :: "u32 \<Rightarrow> u32 \<Rightarrow> mem \<Rightarrow> mem" where
  "clear_heap p n = fold (\<lambda>i m. let a = p + of_nat i; w = a AND 0xFFFFFFFC in
     m(w := m w AND NOT (push_bit (8 * unat (a AND 3)) 0xFF))) [0..<unat n]"

definition screen_of :: "vesa_mode_info \<Rightarrow> u32 \<Rightarrow> u32 \<Rightarrow> screen_info" where
  "screen_of i fb bb =
     \<lparr>frame_buffer = fb, back_buffer = bb, swidth = x_resolution i, sheight = y_resolution i, bpp = ucast (bits_per_pixel i),
      pitch = mode_pitch i, screen_size = ucast (y_resolution i) * ucast (mode_pitch i)\<rparr>"

definition video_init :: "bios \<Rightarrow> u32 \<Rightarrow> kernel \<Rightarrow> (screen_info \<times> kernel) outcome" where
  "video_init b junk k =
     obind (vesa_load_info b) (\<lambda>modes.
     obind (vesa_choose_mode b junk (mode_list b modes) 1024 768) (\<lambda>n.
     obind (vesa_load_mode_info b n) (\<lambda>i.
     obind (k_malloc sizeof_Screen k) (\<lambda>(_, k1).
     let size = screen_size (screen_of i (frame_buffer_address i) 0) in
     obind (k_malloc (size + 4096) k1) (\<lambda>(bb, k2).
     obind (of_loop (screen_loop (frame_buffer_address i) (size + 4096) 0 (vm k2))) (\<lambda>v.
     obind (vesa_select_mode b n) (\<lambda>_.
     obind (clear_bytes FRAMEBUFFER_ADDRESS size v) (\<lambda>v1.
     let h = kh (qh_of k2); k3 = put_q ((qh_of k2)\<lparr>kh := h\<lparr>kmem := clear_heap bb size (kmem h)\<rparr>\<rparr>) k2 in
     Ok (screen_of i FRAMEBUFFER_ADDRESS bb, k3\<lparr>vm := v1\<rparr>)))))))))"

definition video_aquire_buffer :: "screen_info \<Rightarrow> u32" where
  "video_aquire_buffer s = back_buffer s"

subsection \<open>The closest mode\<close>

text \<open>How far the number of pixels of a mode is from the desired one.\<close>

definition distance :: "nat \<Rightarrow> nat \<Rightarrow> vesa_mode_info \<Rightarrow> nat" where
  "distance W H i = nat \<bar>int (unat (x_resolution i) * unat (y_resolution i)) - int (W * H)\<bar>"

text \<open>The last of the closest modes, if it is not farther than the limit.\<close>

definition last_closest :: "('a \<Rightarrow> nat) \<Rightarrow> nat \<Rightarrow> 'a list \<Rightarrow> 'a \<Rightarrow> bool" where
  "last_closest dist limit xs x \<longleftrightarrow> dist x \<le> limit \<and>
     (\<exists>before after. xs = before @ x # after \<and> (\<forall>y\<in>set before. dist x \<le> dist y) \<and> (\<forall>y\<in>set after. dist x < dist y))"

lemma last_closest_Cons:
  "last_closest dist limit (y # ys) x \<longleftrightarrow>
     (if dist y \<le> limit then last_closest dist (dist y) ys x \<or> x = y \<and> (\<forall>z\<in>set ys. dist y < dist z)
      else last_closest dist limit ys x)"
proof (intro iffI)
  assume "last_closest dist limit (y # ys) x"
  then obtain before after where s: "dist x \<le> limit" "y # ys = before @ x # after"
      "\<forall>y\<in>set before. dist x \<le> dist y" "\<forall>y\<in>set after. dist x < dist y"
    unfolding last_closest_def by blast
  show "if dist y \<le> limit then last_closest dist (dist y) ys x \<or> x = y \<and> (\<forall>z\<in>set ys. dist y < dist z) else last_closest dist limit ys x"
    using s unfolding last_closest_def by (cases before) auto
next
  assume a: "if dist y \<le> limit then last_closest dist (dist y) ys x \<or> x = y \<and> (\<forall>z\<in>set ys. dist y < dist z) else last_closest dist limit ys x"
  show "last_closest dist limit (y # ys) x"
  proof (cases "dist y \<le> limit \<and> x = y \<and> (\<forall>z\<in>set ys. dist y < dist z)")
    case True
    then show ?thesis unfolding last_closest_def by (intro conjI exI [of _ "[]"] exI [of _ ys]) auto
  next
    case False
    then obtain before after where s: "dist x \<le> limit" "dist x \<le> dist y" "ys = before @ x # after"
        "\<forall>y\<in>set before. dist x \<le> dist y" "\<forall>y\<in>set after. dist x < dist y"
      using a unfolding last_closest_def by (cases "dist y \<le> limit") auto
    then show ?thesis unfolding last_closest_def by (intro conjI exI [of _ "y # before"] exI [of _ after]) auto
  qed
qed

lemma mode_diff_distance:
  assumes "usable (of_nat W) i" and "W < 2 ^ 15" and "H < 2 ^ 15"
  shows "unat (mode_diff (of_nat W) (of_nat H) i) = distance W H i"
proof -
  have "sint (of_nat W :: u32) = int W" using assms(2) by (simp add: sint_of_nat)
  moreover have "sint (ucast (x_resolution i) :: u32) = int (unat (x_resolution i))"
    using unsigned_less [where ?'a = nat and w = "x_resolution i"] sint_of_nat [of "unat (x_resolution i)"] by simp
  ultimately have "int (unat (x_resolution i)) \<le> int W" using assms(1) by (simp add: usable_def)
  then have x: "unat (x_resolution i) \<le> W" by (simp only: of_nat_le_iff)
  define A where "A = unat (x_resolution i) * unat (y_resolution i)"
  define p where "p = int A - int (W * H)"
  have y: "unat (y_resolution i) \<le> 65535" using unsigned_less [where ?'a = nat and w = "y_resolution i"] by simp
  have "A \<le> 32768 * 65535" using x y assms(2) unfolding A_def by (intro mult_mono) simp_all
  moreover have "W * H \<le> 32768 * 32768" using assms(2,3) by (intro mult_mono) simp_all
  ultimately have b: "- 2147483648 < p" "p < 2147483648" unfolding p_def by linarith+
  have w: "ucast (x_resolution i) * ucast (y_resolution i) - of_nat W * of_nat H = (of_int p :: u32)"
    by (simp add: p_def A_def)
  have "sint (of_int p :: u32) = p" using b by (simp add: int_word_sint)
  then have "abs32 (of_int p) = of_int \<bar>p\<bar>" by (simp only: abs32_def abs_if of_int_minus if_distrib [of of_int])
  then have "abs32 (of_int p) = of_nat (nat \<bar>p\<bar>)" by (simp only: of_nat_nat abs_ge_zero)
  moreover have "nat \<bar>p\<bar> < 2 ^ 32" using b by (simp add: nat_less_iff)
  ultimately have "unat (abs32 (of_int p)) = nat \<bar>p\<bar>" by (simp only: unat_of_nat_small)
  moreover have "distance W H i = nat \<bar>p\<bar>" by (simp only: distance_def p_def A_def)
  ultimately show ?thesis by (simp only: mode_diff_def w)
qed

lemma last_closest_Nil [simp]: "\<not> last_closest dist limit [] x"
  by (simp add: last_closest_def)

definition info_of :: "bios \<Rightarrow> u16 \<Rightarrow> vesa_mode_info" where
  "info_of b n = snd (get_mode_info b n)"

definition listed :: "u16 list \<Rightarrow> u16 list" where
  "listed ms = takeWhile (\<lambda>n. n \<noteq> 0xFFFF) ms"

definition usable_modes :: "bios \<Rightarrow> nat \<Rightarrow> u16 list \<Rightarrow> u16 list" where
  "usable_modes b W ms = filter (\<lambda>n. usable (of_nat W) (info_of b n)) (listed ms)"

lemma usable_depth: "usable w i \<Longrightarrow> 0 < bits_per_pixel i"
  by (auto simp: usable_def)

lemma choose_loop_closest:
  assumes "W < 2 ^ 15" "H < 2 ^ 15" "0xFFFF \<in> set ms" "\<forall>n\<in>set (listed ms). fst (get_mode_info b n) = 0x4F"
  shows "\<exists>n. choose_loop b (of_nat W) (of_nat H) ms best d = Ok n \<and>
    (last_closest (\<lambda>n. distance W H (info_of b n)) (unat d) (usable_modes b W ms) n \<or>
     n = best \<and> (\<forall>m\<in>set (usable_modes b W ms). unat d < distance W H (info_of b m)))"
  using assms(3,4)
proof (induction ms arbitrary: best d)
  case (Cons m ms)
  show ?case
  proof (cases "m = 0xFFFF")
    case False
    let ?i = "info_of b m"
    have load: "vesa_load_mode_info b m = Ok ?i" and rest: "0xFFFF \<in> set ms" "\<forall>n\<in>set (listed ms). fst (get_mode_info b n) = 0x4F"
      using Cons.prems False by (auto simp: vesa_load_mode_info_def info_of_def listed_def split: prod.splits)
    note IH = Cons.IH [OF rest]
    show ?thesis
    proof (cases "usable (of_nat W) ?i")
      case True
      note diff = mode_diff_distance [OF True assms(1,2)]
      have U: "usable_modes b W (m # ms) = m # usable_modes b W ms" using True False by (simp add: usable_modes_def listed_def)
      show ?thesis
      proof (cases "distance W H ?i \<le> unat d")
        case near: True
        then have "mode_diff (of_nat W) (of_nat H) ?i < d \<or> d = mode_diff (of_nat W) (of_nat H) ?i"
          unfolding word_less_nat_alt diff [symmetric] by (auto simp: word_unat_eq_iff)
        then have "choose_loop b (of_nat W) (of_nat H) (m # ms) best d =
            choose_loop b (of_nat W) (of_nat H) ms m (mode_diff (of_nat W) (of_nat H) ?i)"
          using False load True usable_depth [OF True] by (auto simp: Let_def)
        then show ?thesis using IH [of m "mode_diff (of_nat W) (of_nat H) ?i"] near by (auto simp: U last_closest_Cons diff)
      next
        case far: False
        then have "\<not> mode_diff (of_nat W) (of_nat H) ?i < d" "d \<noteq> mode_diff (of_nat W) (of_nat H) ?i"
          unfolding word_less_nat_alt diff [symmetric] by auto
        then have "choose_loop b (of_nat W) (of_nat H) (m # ms) best d = choose_loop b (of_nat W) (of_nat H) ms best d"
          using False load True by (simp add: Let_def)
        then show ?thesis using IH [of best d] far by (auto simp: U last_closest_Cons)
      qed
    next
      case unusable: False
      then have "usable_modes b W (m # ms) = usable_modes b W ms" using False by (simp add: usable_modes_def listed_def)
      then show ?thesis using IH [of best d] False load unusable by (simp add: Let_def)
    qed
  qed (simp add: usable_modes_def listed_def)
qed simp

lemma choose_loop_usable:
  "choose_loop b w h ms best d = Ok n \<Longrightarrow> n = best \<or> usable w (info_of b n)"
proof (induction ms arbitrary: best d)
  case (Cons m ms)
  from Cons.prems show ?case
    by (auto simp: Let_def vesa_load_mode_info_def info_of_def split: if_splits prod.splits dest!: Cons.IH)
qed simp

subsection \<open>The pages of the screen\<close>

lemma screen_loop_ok:
  assumes "vm_ok v" "fb AND 0xFFF = 0" "addr AND 0xFFF = 0" "unat fb + (unat addr + 4096 * k) < 2 ^ 32" "unat addr + 4096 * k \<le> 0x3BC00000"
    and "unat n \<le> unat addr + 4096 * k" "unat addr + 4096 * k < unat n + 4096"
  shows "(\<exists>m. screen_loop fb n addr v = Some (Panic m)) \<or>
    (\<exists>v'. screen_loop fb n addr v = Some (Ok v') \<and> vm_ok v' \<and> free_pages (frames v') \<subseteq> free_pages (frames v) \<and>
      (\<forall>b. pd_idx b \<noteq> 1023 \<longrightarrow> translate v' b =
         (if 0xC4000000 + unat addr \<le> unat b \<and> unat b < 0xC4000000 + unat addr + 4096 * k then Some (fb + (b - 0xC4000000)) else translate v b)))"
  using assms
proof (induction k arbitrary: v addr)
  case 0
  then show ?case by (subst screen_loop.simps) (auto simp: word_less_nat_alt)
next
  case (Suc k)
  let ?va = "0xC4000000 + addr"
  have lt: "addr < n" using Suc.prems(7) by (simp add: word_less_nat_alt)
  have u: "unat ?va = 0xC4000000 + unat addr" "unat (fb + addr) = unat fb + unat addr" "unat (addr + 4096) = unat addr + 4096"
    using Suc.prems(4,5) by (simp_all add: unat_add_no_wrap)
  have al: "(fb + addr) AND 0xFFF = 0" "?va AND 0xFFF = 0" "(addr + 4096) AND 0xFFF = 0"
    using Suc.prems(2,3) unfolding aligned_unat u dvd_eq_mod_eq_0 [symmetric] by (simp_all add: dvd_add)
  have low: "pd_idx ?va \<noteq> 1023" using Suc.prems(5) u by (intro pd_idx_below) simp
  from virt_map_page_sim [OF Suc.prems(1) low al(1), of PG_READ_WRITE] show ?case
  proof (elim disjE exE conjE)
    fix m assume "virt_map_page (fb + addr) ?va PG_READ_WRITE v = Panic m"
    then show ?thesis using lt by (subst (1 2) screen_loop.simps) simp
  next
    fix v1 assume v1: "virt_map_page (fb + addr) ?va PG_READ_WRITE v = Ok v1" "vm_ok v1" "free_pages (frames v1) \<subseteq> free_pages (frames v)"
      "\<forall>b. pd_idx b \<noteq> 1023 \<longrightarrow> page_entry v1 b = (if same_page b ?va then fb + addr OR (PG_READ_WRITE AND 0xFFF) OR 1 else page_entry v b) \<and>
         translate v1 b = (if same_page b ?va then Some (fb + addr + (b AND 0xFFF)) else translate v b)"
    have step: "screen_loop fb n addr v = screen_loop fb n (addr + 4096) v1" using lt v1(1) by (subst screen_loop.simps) simp
    have t1: "translate v1 b = (if unat ?va \<le> unat b \<and> unat b < unat ?va + 4096 then Some (fb + (b - 0xC4000000)) else translate v b)" if "pd_idx b \<noteq> 1023" for b
      using v1(4) that page_range [OF al(2), of b] by (simp add: algebra_simps)
    have "(\<exists>m. screen_loop fb n (addr + 4096) v1 = Some (Panic m)) \<or>
      (\<exists>v'. screen_loop fb n (addr + 4096) v1 = Some (Ok v') \<and> vm_ok v' \<and> free_pages (frames v') \<subseteq> free_pages (frames v1) \<and>
        (\<forall>b. pd_idx b \<noteq> 1023 \<longrightarrow> translate v' b =
           (if 0xC4000000 + unat (addr + 4096) \<le> unat b \<and> unat b < 0xC4000000 + unat (addr + 4096) + 4096 * k then Some (fb + (b - 0xC4000000)) else translate v1 b)))"
      using Suc.prems u al v1(2) by (intro Suc.IH) simp_all
    then show ?thesis
    proof (elim disjE exE conjE)
      fix v' assume v': "screen_loop fb n (addr + 4096) v1 = Some (Ok v')" "vm_ok v'" "free_pages (frames v') \<subseteq> free_pages (frames v1)"
        "\<forall>b. pd_idx b \<noteq> 1023 \<longrightarrow> translate v' b =
           (if 0xC4000000 + unat (addr + 4096) \<le> unat b \<and> unat b < 0xC4000000 + unat (addr + 4096) + 4096 * k then Some (fb + (b - 0xC4000000)) else translate v1 b)"
      have "translate v' b = (if 0xC4000000 + unat addr \<le> unat b \<and> unat b < 0xC4000000 + unat addr + 4096 * Suc k
          then Some (fb + (b - 0xC4000000)) else translate v b)" if "pd_idx b \<noteq> 1023" for b
        using v'(4) [rule_format, OF that] t1 [OF that] unfolding u by (auto split: if_splits)
      then show ?thesis using v'(1-3) v1(3) by (intro disjI2 exI [of _ v']) (auto simp only: step simp_thms)
    qed (simp add: step)
  qed
qed

subsection \<open>Properties\<close>

text \<open>
  C23: the search for a mode chooses the last of the usable modes whose number of pixels is closest to the desired one, provided
  that this one is not farther than what the variable for the best distance holds, which is never initialised; otherwise the
  result is 0. The depth of the mode plays no part.
\<close>

theorem choose_mode_closest:
  assumes "W < 2 ^ 15" "H < 2 ^ 15" "0xFFFF \<in> set ms" "\<forall>n\<in>set (listed ms). fst (get_mode_info b n) = 0x4F"
  shows "\<exists>n. vesa_choose_mode b junk ms (of_nat W) (of_nat H) = Ok n \<and>
    (last_closest (\<lambda>n. distance W H (info_of b n)) (unat junk) (usable_modes b W ms) n \<or>
     n = 0 \<and> (\<forall>m\<in>set (usable_modes b W ms). unat junk < distance W H (info_of b m)))"
  unfolding vesa_choose_mode_def by (rule choose_loop_closest [OF assms])

text \<open>A card with a small mode, the desired one at two depths and one that is too wide.\<close>

definition demo_mode :: "u16 \<Rightarrow> u16 \<Rightarrow> u16 \<Rightarrow> u8 \<Rightarrow> vesa_mode_info" where
  "demo_mode x y line depth = \<lparr>attributes = 0x9B, mode_pitch = line, x_resolution = x, y_resolution = y, bits_per_pixel = depth, memory_model = 6,
     frame_buffer_address = 0xE0000000\<rparr>"

definition demo_card :: bios where
  "demo_card = \<lparr>get_controller_info = (0x4F, 0x00004022),
     get_mode_info = (\<lambda>n. if n = 0x112 then (0x4F, demo_mode 640 480 2560 32) else if n = 0x118 then (0x4F, demo_mode 1024 768 4096 32)
       else if n = 0x119 then (0x4F, demo_mode 1024 768 3072 24) else if n = 0x11B then (0x4F, demo_mode 1280 1024 5120 32) else (0x14F, demo_mode 0 0 0 0)),
     set_mode = (\<lambda>_. 0x4F), mode_list = (\<lambda>_. [0x112, 0x118, 0x119, 0x11B, 0xFFFF])\<rparr>"

lemma card_modes:
  "listed [0x112, 0x118, 0x119, 0x11B, 0xFFFF] = [0x112, 0x118, 0x119, 0x11B]"
  "usable_modes demo_card 1024 [0x112, 0x118, 0x119, 0x11B, 0xFFFF] = [0x112, 0x118, 0x119]"
  "usable_modes demo_card 800 [0x112, 0x118, 0x119, 0x11B, 0xFFFF] = [0x112]"
  by (simp_all add: usable_modes_def listed_def usable_def info_of_def demo_card_def demo_mode_def)

lemma card_distance:
  "distance 1024 768 (info_of demo_card 0x112) = 479232" "distance 1024 768 (info_of demo_card 0x118) = 0" "distance 1024 768 (info_of demo_card 0x119) = 0"
  "distance 800 600 (info_of demo_card 0x112) = 172800"
  by (simp_all add: distance_def info_of_def demo_card_def demo_mode_def)

theorem choose_mode_closest_witness:
  "vesa_choose_mode demo_card 0xFFFFFFFF [0x112, 0x118, 0x119, 0x11B, 0xFFFF] (of_nat 1024) (of_nat 768) = Ok 0x119 \<and>
   vesa_choose_mode demo_card 100 [0x112, 0x118, 0x119, 0x11B, 0xFFFF] (of_nat 800) (of_nat 600) = Ok 0"
proof
  have b: "\<forall>n\<in>set (listed [0x112, 0x118, 0x119, 0x11B, 0xFFFF]). fst (get_mode_info demo_card n) = 0x4F"
    by (simp add: card_modes demo_card_def)
  note c = choose_mode_closest [OF _ _ _ b]
  show "vesa_choose_mode demo_card 0xFFFFFFFF [0x112, 0x118, 0x119, 0x11B, 0xFFFF] (of_nat 1024) (of_nat 768) = Ok 0x119"
    using c [of 1024 768 "0xFFFFFFFF"] by (simp add: card_modes last_closest_Cons card_distance)
  show "vesa_choose_mode demo_card 100 [0x112, 0x118, 0x119, 0x11B, 0xFFFF] (of_nat 800) (of_nat 600) = Ok 0"
    using c [of 800 600 100] by (simp add: card_modes last_closest_Cons card_distance)
qed

text \<open>
  Mapping the screen ends; unless it panics, exactly the pages from the address of the frame buffer on that meet the screen and
  the page behind it translate to the memory of the card, in order, and no other address changes.
\<close>

theorem screen_mapped:
  assumes "vm_ok v" "fb AND 0xFFF = 0" "unat fb + 4096 * k < 2 ^ 32" "4096 * k \<le> 0x3BC00000" "unat n \<le> 4096 * k" "4096 * k < unat n + 4096"
  shows "(\<exists>m. of_loop (screen_loop fb n 0 v) = Panic m) \<or>
    (\<exists>v'. of_loop (screen_loop fb n 0 v) = Ok v' \<and> vm_ok v' \<and> free_pages (frames v') \<subseteq> free_pages (frames v) \<and>
      (\<forall>b. pd_idx b \<noteq> 1023 \<longrightarrow> translate v' b =
         (if 0xC4000000 \<le> unat b \<and> unat b < 0xC4000000 + 4096 * k then Some (fb + (b - 0xC4000000)) else translate v b)))"
proof -
  have "(0 :: u32) AND 0xFFF = 0" "unat fb + (unat (0 :: u32) + 4096 * k) < 2 ^ 32" "unat (0 :: u32) + 4096 * k \<le> 0x3BC00000"
    "unat n \<le> unat (0 :: u32) + 4096 * k" "unat (0 :: u32) + 4096 * k < unat n + 4096" using assms by simp_all
  from screen_loop_ok [OF assms(1,2) this] show ?thesis by auto
qed

theorem screen_mapped_witness:
  "(\<exists>m. of_loop (screen_loop 0xE0000000 6000 0 demo_vm) = Panic m) \<or>
    (\<exists>v'. of_loop (screen_loop 0xE0000000 6000 0 demo_vm) = Ok v' \<and> translate v' 0xC4001234 = Some 0xE0001234)"
proof -
  have "(0xE0000000 :: u32) AND 0xFFF = 0" "pd_idx 0xC4001234 \<noteq> 1023" by code_simp+
  then show ?thesis using screen_mapped [OF demo_vm_ok, of "0xE0000000" 2 6000] by auto
qed

lemma chosen_mode:
  assumes "vesa_choose_mode b junk ms w h = Ok n" "n \<noteq> 0"
  shows "usable w (info_of b n)"
  using assms choose_loop_usable unfolding vesa_choose_mode_def by blast

lemma screen_painter:
  assumes "usable w i" "heap_live (lheap l) L" "elements l 0 = None"
  shows "ends (\<lambda>d. \<exists>dp. dpainter d = Some (dp, \<lparr>pscreen = screen_of i fb bb, pbounds = Rect 0 0 (ucast (x_resolution i)) (ucast (y_resolution i))\<rparr>) \<and>
    8 * unat (step dp) = unat (bits_per_pixel i)) (Desktop (screen_of i fb bb) l mem)"
  using Desktop_idle [OF assms(2,3), of "screen_of i fb bb" mem] assms(1)
  by (auto simp: ends_def Desktop_def alloc_def Let_def screen_of_def usable_def split: if_splits)

text \<open>
  C24: if a mode was found, and the card reports a line of pixels to fit in the pitch, the desktop gets a painter of the depth of
  that mode whose bounds are the screen; filling a rectangle, wherever it lies, changes nothing outside the back buffer, whose size is the
  one the video module computes.
\<close>

theorem chosen_mode_painter:
  assumes "vesa_choose_mode b junk ms w h = Ok n" "n \<noteq> 0" "i = info_of b n" "s = screen_of i FRAMEBUFFER_ADDRESS bb"
    and "0 < unat (x_resolution i)" "unat (x_resolution i) * unat (bits_per_pixel i) \<le> 8 * unat (mode_pitch i)"
    and "heap_live (lheap l) L" "elements l 0 = None"
  shows "ends (\<lambda>d. \<exists>dp p. dpainter d = Some (dp, p) \<and> whole_screen dp (unat (x_resolution i)) (unat (y_resolution i)) p \<and>
    (\<forall>r color m a. proper r \<and> unat (screen_size s) \<le> unat (a - video_aquire_buffer s) \<longrightarrow> FillRect dp p r color m a = m a)) (Desktop s l mem)"
proof -
  have u: "usable w i" using chosen_mode [OF assms(1,2)] assms(3) by simp
  let ?p = "\<lparr>pscreen = s, pbounds = Rect 0 0 (ucast (x_resolution i)) (ucast (y_resolution i))\<rparr>"
  have b: "unat (x_resolution i) < 2 ^ 16" "unat (y_resolution i) \<le> 65535" "unat (mode_pitch i) \<le> 65535"
    using unsigned_less [where ?'a = nat and w = "x_resolution i"] unsigned_less [where ?'a = nat and w = "y_resolution i"]
      unsigned_less [where ?'a = nat and w = "mode_pitch i"] by simp_all
  have m: "Suc (unat (y_resolution i)) * unat (mode_pitch i) \<le> 65536 * 65535" using b by (intro mult_mono) simp_all
  then have "unat (y_resolution i) * unat (mode_pitch i) < 2 ^ 32" by simp
  then have "unat (of_nat (unat (y_resolution i) * unat (mode_pitch i)) :: u32) = unat (y_resolution i) * unat (mode_pitch i)"
    by (intro unat_of_nat_small)
  then have sz: "unat (screen_size s) = unat (y_resolution i) * unat (mode_pitch i)" using assms(4) by (simp add: screen_of_def)
  have w: "whole_screen dp (unat (x_resolution i)) (unat (y_resolution i)) ?p" if "8 * unat (step dp) = unat (bits_per_pixel i)" for dp
  proof -
    have "8 * (unat (x_resolution i) * unat (step dp)) \<le> 8 * unat (mode_pitch i)" using assms(6) that [symmetric] by (simp add: mult.commute mult.left_commute)
    moreover have "unat (step dp) \<le> 4" by (cases dp) simp_all
    ultimately show ?thesis using assms(4,5) b m by (simp add: whole_screen_def screen_of_def)
  qed
  have "FillRect dp ?p r color m a = m a"
    if "8 * unat (step dp) = unat (bits_per_pixel i)" "proper r" "unat (screen_size s) \<le> unat (a - video_aquire_buffer s)" for dp r color m a
    using fill_rect_pixels(2) [OF w [OF that(1)] that(2), where color = color and m = m] that(3) assms(4) unfolding sz by (simp add: screen_of_def video_aquire_buffer_def)
  with w screen_painter [OF u assms(7,8), of FRAMEBUFFER_ADDRESS bb mem] show ?thesis
    unfolding ends_def assms(4) [symmetric] by blast
qed

theorem chosen_mode_painter_witness:
  "ends (\<lambda>d. \<exists>dp p. dpainter d = Some (dp, p) \<and> whole_screen dp 1024 768 p)
    (Desktop (screen_of (info_of demo_card 0x119) 0xC4000000 0xD0001000) (windows demo) (\<lambda>_. 0))"
proof -
  have c: "vesa_choose_mode demo_card 0xFFFFFFFF [0x112, 0x118, 0x119, 0x11B, 0xFFFF] 1024 768 = Ok 0x119" by code_simp
  have "heap_live (lheap (windows demo)) slots" "elements (windows demo) 0 = None" using slot_heap_live by (simp_all add: demo_def)
  from chosen_mode_painter [OF c _ refl refl _ _ this, where bb = "0xD0001000" and mem = "\<lambda>_. 0"] show ?thesis
    by (simp add: info_of_def demo_card_def demo_mode_def) (auto simp: ends_def)
qed

text \<open>
  If no usable mode is close enough, the module sets up mode 0, the result of the search: it panics when the BIOS does not know
  that mode.
\<close>

theorem no_mode_panics:
  assumes "vesa_load_info b = Ok a" "0xFFFF \<in> set (mode_list b a)" "\<forall>n\<in>set (listed (mode_list b a)). fst (get_mode_info b n) = 0x4F"
    and "\<forall>m\<in>set (usable_modes b 1024 (mode_list b a)). unat junk < distance 1024 768 (info_of b m)" "fst (get_mode_info b 0) \<noteq> 0x4F"
  shows "\<exists>m. video_init b junk k = Panic m"
proof -
  have "\<not> last_closest (\<lambda>n. distance 1024 768 (info_of b n)) (unat junk) (usable_modes b 1024 (mode_list b a)) n" for n
    using assms(4) unfolding last_closest_def by (metis in_set_conv_decomp not_le)
  moreover have "(1024 :: nat) < 2 ^ 15" "(768 :: nat) < 2 ^ 15" by simp_all
  ultimately have "vesa_choose_mode b junk (mode_list b a) 1024 768 = Ok 0"
    using choose_loop_closest [of 1024 768 "mode_list b a" b 0 junk] assms(2,3) by (simp add: vesa_choose_mode_def)
  then show ?thesis using assms(1,5) by (cases "get_mode_info b 0") (simp add: video_init_def vesa_load_mode_info_def)
qed

theorem no_mode_panics_witness:
  "\<forall>k. \<exists>m. video_init (demo_card\<lparr>mode_list := \<lambda>_. [0x11B, 0xFFFF]\<rparr>) 5 k = Panic m"
proof
  fix k
  have "vesa_load_info (demo_card\<lparr>mode_list := \<lambda>_. [0x11B, 0xFFFF]\<rparr>) = Ok 0x4022" by (simp add: vesa_load_info_def demo_card_def segmented_to_linear_def)
  then show "\<exists>m. video_init (demo_card\<lparr>mode_list := \<lambda>_. [0x11B, 0xFFFF]\<rparr>) 5 k = Panic m"
    by (rule no_mode_panics) (simp_all add: demo_card_def listed_def usable_modes_def usable_def info_of_def demo_mode_def)
qed

end
