(* ===== verification/Network.thy ===== *)
theory Network
  imports Pci Interrupts
begin

text \<open>
  The start of the driver of the network card, \<^verbatim>\<open>src/kernel/network/e100.c\<close>, all of it that exists: it looks the card up in the
  list of \<^verbatim>\<open>pci.c\<close> and installs its interrupt handler in the table of \<^verbatim>\<open>support.c\<close>. The registers of the card
  are not accessed. What is printed is left out.
\<close>

subsection \<open>Operations\<close>

abbreviation (input) E100_VENDOR :: u16 where "E100_VENDOR \<equiv> 0x8086"
abbreviation (input) E100_DEVICE :: u16 where "E100_DEVICE \<equiv> 0x1209"

record net =
  pci_e100 :: u32
  csr_register :: u32
  net_ints :: int_state

text \<open>The configuration is read as one of type 0, whatever its header says; reading another one is not modelled.\<close>

definition reset_e100 :: "u32 \<Rightarrow> header_type_0 \<Rightarrow> net \<Rightarrow> net" where
  "reset_e100 isr_nic_card t n =
     n\<lparr>csr_register := t0_bar_address t ! 0, net_ints := snd (install_isr (t0_interrupt_pin t) (Installed isr_nic_card) (net_ints n))\<rparr>"

definition net_init :: "u32 \<Rightarrow> 'h pci \<Rightarrow> net \<Rightarrow> net outcome" where
  "net_init isr_nic_card p n =
     obind (find_by_device E100_VENDOR E100_DEVICE p) (\<lambda>a.
     if a = 0 then Panic ''Network: Couldn't find network device!''
     else case pci_configs p a of
       None \<Rightarrow> Fault
     | Some c \<Rightarrow> (case pci_type c of Type_0 t \<Rightarrow> Ok (reset_e100 isr_nic_card t (n\<lparr>pci_e100 := a\<rparr>)) | _ \<Rightarrow> Fault))"

subsection \<open>What the registers say\<close>

lemma type_0_registers:
  assumes "outcome_at (read_config hw b d f v i) c = Some k" "pci_type k = Type_0 t"
  shows "t0_bar_address t ! 0 = hw_read hw (config_addr b d f 0x10) c"
    "t0_interrupt_pin t = ucast (hw_read hw (config_addr b d f 0x3C) c AND 0xFF)"
  using assms
  by (auto simp: outcome_at_def read_config_def read_header_def read_type_0_def read_type_1_def read_type_2_def get_memory_size_def
      bar_offsets_def odd_offsets split_def split: if_splits)

subsection \<open>Properties\<close>

definition is_e100 :: "pci_config \<Rightarrow> bool" where
  "is_e100 k \<longleftrightarrow> vendor_id k = E100_VENDOR \<and> device_id k = E100_DEVICE"

text \<open>
  After the enumeration of the bus the driver panics if there is no card. Otherwise it takes the newest one and, if
  this has a header of type 0, installs its handler at the vector whose number is the byte of the interrupt line: neither the pin,
  which the code names, nor the line behind the remapped controllers, so for the lines 0 to 15 the handler replaces that of an
  exception of the processor.
\<close>

theorem net_init_correct:
  assumes "bars_restore hw" "heap_live (lheap (lst_pci_devices p)) L" "elements (lst_pci_devices p) 0 = None"
    and "config_space (pci_io p) = c"
  shows "(\<exists>m. pci_init hw p = Panic m) \<or>
    (\<exists>p'. pci_init hw p = Ok p' \<and>
      (case find (\<lambda>l. present hw c l \<and> is_e100 (the (config_at hw c l))) (rev all_functions) of
         None \<Rightarrow> \<exists>m. net_init h p' n = Panic m
       | Some (b, s, f) \<Rightarrow> (\<forall>t. pci_type (the (config_at hw c (b, s, f))) = Type_0 t \<longrightarrow>
           (\<exists>n'. net_init h p' n = Ok n' \<and> csr_register n' = hw_read hw (config_addr (of_nat b) (of_nat s) (of_nat f) 0x10) c \<and>
             net_ints n' = (net_ints n)\<lparr>isr_table := (isr_table (net_ints n))
               (ucast (hw_read hw (config_addr (of_nat b) (of_nat s) (of_nat f) 0x3C) c AND 0xFF) := Installed h)\<rparr>))))"
proof -
  let ?P = "\<lambda>k. vendor_id k = E100_VENDOR \<and> device_id k = E100_DEVICE"
  from pci_init_devices [OF assms] show ?thesis
  proof (elim disjE exE conjE)
    fix p' ps assume p': "pci_init hw p = Ok p'" "\<forall>l\<in>set all_functions. present hw c l \<longrightarrow> config_at hw c l \<noteq> None"
      "devices p' ps (map (\<lambda>l. the (config_at hw c l)) (rev (filter (present hw c) all_functions))) L"
    have F: "finds hw c ?P p' (find_by_device E100_VENDOR E100_DEVICE p')"
      unfolding find_by_device_def by (rule find_devices [OF p'(3,2)])
    show ?thesis
    proof (cases "find (\<lambda>l. present hw c l \<and> is_e100 (the (config_at hw c l))) (rev all_functions)")
      case None
      then show ?thesis using F p'(1) by (simp add: finds_def is_e100_def net_init_def)
    next
      case (Some l)
      obtain b s f where l: "l = (b, s, f)" by (cases l)
      obtain a where a: "find_by_device E100_VENDOR E100_DEVICE p' = Ok a" "a \<noteq> 0" "pci_configs p' a = config_at hw c l"
        using F Some by (auto simp: finds_def is_e100_def)
      have "l \<in> set all_functions" "present hw c l" using find_member [OF Some] find_Some_iff [THEN iffD1, OF Some] by auto
      then obtain k where k: "config_at hw c l = Some k" using p'(2) by auto
      then have r: "outcome_at (read_config hw (of_nat b) (of_nat s) (of_nat f) (vendor_at hw c l) (device_at hw c l)) c = Some k"
        by (simp add: config_at_def l)
      show ?thesis using p'(1) a k Some by (auto simp: l net_init_def reset_e100_def install_isr_def type_0_registers [OF r])
    qed
  qed blast
qed

text \<open>A bus on which every function is such a card, of line 11 and pin 1.\<close>

definition many_hw :: "unit config_hw" where
  "many_hw = \<lparr>
     hw_read = (\<lambda>a c. if a AND 0xFC = 0 then 0x12098086 else if a AND 0xFC = 0x10 then 0xFEB00000 else if a AND 0xFC = 0x3C then 0x010B else 0),
     hw_write = (\<lambda>n a v c. c)\<rparr>"

definition many_pci :: "unit pci" where
  "many_pci = \<lparr>pci_io = \<lparr>config_address = 0, config_space = ()\<rparr>, pci_configs = (\<lambda>_. None), lst_pci_devices = lst_pci_devices card_pci\<rparr>"

lemma last_function: "\<exists>xs. all_functions = xs @ [(255, 31, 7)]"
proof -
  have u: "[0..<256] = [0..<255] @ [255]" "[0..<32] = [0..<31] @ [31]" "[0..<8] = [0..<7] @ [7 :: nat]"
    using upt_Suc_append [of 0 255] upt_Suc_append [of 0 31] upt_Suc_append [of 0 7] by simp_all
  show ?thesis unfolding all_functions_def u by simp
qed

lemma many_config:
  "present many_hw () (255, 31, 7)" "is_e100 (the (config_at many_hw () (255, 31, 7)))"
  "\<exists>t. pci_type (the (config_at many_hw () (255, 31, 7))) = Type_0 t"
  by (simp_all add: present_def vendor_at_def device_at_def config_at_def is_e100_def outcome_at_def read_config_def read_header_def
      read_type_0_def get_memory_size_def many_hw_def config_addr_def bar_offsets_def split_def)

theorem net_init_correct_witness:
  "(\<exists>m. pci_init many_hw many_pci = Panic m) \<or>
    (\<exists>p. pci_init many_hw many_pci = Ok p \<and> (\<forall>ints. \<exists>n. net_init 0xC0101000 p \<lparr>pci_e100 = 0, csr_register = 0, net_ints = ints\<rparr> = Ok n \<and>
      csr_register n = 0xFEB00000 \<and> isr_table (net_ints n) 11 = Installed 0xC0101000 \<and> isr_table (net_ints n) 0x2B = isr_table ints 0x2B))"
proof -
  have "heap_live boot_heap {}" unfolding heap_live_def using boot_heap_inv by auto
  then have h: "heap_live (lheap (lst_pci_devices many_pci)) {}" "elements (lst_pci_devices many_pci) 0 = None"
    by (simp_all add: many_pci_def card_pci_def)
  have b: "bars_restore many_hw" by (simp add: bars_restore_def Let_def)
  obtain xs where "all_functions = xs @ [(255, 31, 7)]" using last_function by blast
  from this have f: "find (\<lambda>l. present many_hw () l \<and> is_e100 (the (config_at many_hw () l))) (rev all_functions) = Some (255, 31, 7)"
    unfolding \<open>all_functions = _\<close> using many_config(1,2) by simp
  have r: "hw_read many_hw (config_addr 255 31 7 0x10) () = 0xFEB00000" "hw_read many_hw (config_addr 255 31 7 0x3C) () = 0x010B"
    by (simp_all add: many_hw_def config_addr_def)
  have n: "(\<exists>m. pci_init many_hw many_pci = Panic m) \<or> (\<exists>p. pci_init many_hw many_pci = Ok p \<and>
      (\<exists>n. net_init 0xC0101000 p \<lparr>pci_e100 = 0, csr_register = 0, net_ints = ints\<rparr> = Ok n \<and> csr_register n = 0xFEB00000 \<and>
        isr_table (net_ints n) 11 = Installed 0xC0101000 \<and> isr_table (net_ints n) 0x2B = isr_table ints 0x2B))" for ints
    using net_init_correct [OF b h, of "()" "0xC0101000" "\<lparr>pci_e100 = 0, csr_register = 0, net_ints = ints\<rparr>"] many_config(3)
    by (auto simp: f r)
  show ?thesis
  proof (cases "pci_init many_hw many_pci")
    case (Ok p)
    then show ?thesis using n by auto
  qed (use n in auto)
qed

end
