(* ===== verification/Atexit.thy ===== *)
theory Atexit
  imports Linked_List
begin

text \<open>
  The run-time support for objects of C++, \<^verbatim>\<open>src/kernel/cpp/cppatexit.cpp\<close> and \<^verbatim>\<open>cppnew.cpp\<close>: the table of the destructors of static
  objects. The entries are objects of the kernel heap at their addresses. A destructor is only recorded with its argument
  in \<open>calls\<close>: what it does, which must leave the table alone, is not modelled.
\<close>

subsection \<open>State\<close>

record atexit_entry =
  destructor :: u32
  argument :: u32
  dso_handle :: u32
  entry_next :: u32

record atexit =
  at_heap :: kheap
  entries :: "u32 \<Rightarrow> atexit_entry option"
  head_at_exit_entry :: u32
  tail_at_exit_entry :: u32
  calls :: "(u32 \<times> u32) list"

abbreviation (input) sizeof_atexit_entry :: u32 where "sizeof_atexit_entry \<equiv> 16"

definition operator_new :: "u32 \<Rightarrow> kheap \<Rightarrow> (u32 \<times> kheap) outcome" where
  "operator_new n = kmalloc n"

definition operator_delete :: "u32 \<Rightarrow> kheap \<Rightarrow> kheap outcome" where
  "operator_delete p = kfree p"

definition get_entry :: "u32 \<Rightarrow> atexit \<Rightarrow> atexit_entry outcome" where
  "get_entry a s = deref (entries s a)"

definition set_entry_next :: "u32 \<Rightarrow> u32 \<Rightarrow> atexit \<Rightarrow> atexit outcome" where
  "set_entry_next a n s = obind (get_entry a s) (\<lambda>e. Ok (s\<lparr>entries := (entries s)(a \<mapsto> e\<lparr>entry_next := n\<rparr>)\<rparr>))"

definition free_entry :: "u32 \<Rightarrow> atexit \<Rightarrow> atexit outcome" where
  "free_entry a s = obind (kfree a (at_heap s)) (\<lambda>k. Ok (s\<lparr>at_heap := k, entries := (entries s)(a := None)\<rparr>))"

definition call :: "atexit_entry \<Rightarrow> atexit \<Rightarrow> atexit" where
  "call e s = s\<lparr>calls := calls s @ [(destructor e, argument e)]\<rparr>"

subsection \<open>Operations\<close>

definition cxa_atexit :: "u32 \<Rightarrow> u32 \<Rightarrow> u32 \<Rightarrow> atexit \<Rightarrow> (u32 \<times> atexit) outcome" where
  "cxa_atexit d arg dso s =
     obind (kmalloc sizeof_atexit_entry (at_heap s)) (\<lambda>(p, k).
     if p = 0 then Fault
     else
       let s1 = s\<lparr>at_heap := k, entries := (entries s)(p \<mapsto> \<lparr>destructor = d, argument = arg, dso_handle = dso, entry_next = 0\<rparr>)\<rparr> in
       if head_at_exit_entry s1 = 0 then Ok (0, s1\<lparr>head_at_exit_entry := p, tail_at_exit_entry := p\<rparr>)
       else obind (set_entry_next (tail_at_exit_entry s1) p s1) (\<lambda>s2. Ok (0, s2\<lparr>tail_at_exit_entry := p\<rparr>)))"

partial_function (option) finalize_all :: "u32 \<Rightarrow> atexit \<Rightarrow> atexit outcome option" where
  "finalize_all current s =
     (if current = 0 then Some (Ok (s\<lparr>head_at_exit_entry := 0, tail_at_exit_entry := 0\<rparr>))
      else
        lift_bind (get_entry current s) (\<lambda>e.
        lift_bind (free_entry current (if destructor e \<noteq> 0 then call e s else s)) (finalize_all (entry_next e))))"

definition remove_entry :: "u32 \<Rightarrow> u32 \<Rightarrow> atexit_entry \<Rightarrow> atexit \<Rightarrow> atexit outcome" where
  "remove_entry previous current e s =
     (if current = head_at_exit_entry s then free_entry current (s\<lparr>head_at_exit_entry := entry_next e\<rparr>)
      else if current = tail_at_exit_entry s then
        obind (set_entry_next previous 0 (s\<lparr>tail_at_exit_entry := previous\<rparr>)) (free_entry current)
      else obind (free_entry current s) (set_entry_next previous (entry_next e)))"

partial_function (option) finalize_one :: "u32 \<Rightarrow> u32 \<Rightarrow> u32 \<Rightarrow> atexit \<Rightarrow> atexit outcome option" where
  "finalize_one func current previous s =
     (if current = 0 then Some (Ok s)
      else
        lift_bind (get_entry current s) (\<lambda>e.
        if destructor e = func then Some (remove_entry previous current e (call e s))
        else finalize_one func (entry_next e) current s))"

definition cxa_finalize :: "u32 \<Rightarrow> atexit \<Rightarrow> atexit outcome" where
  "cxa_finalize func s =
     (if func = 0 then of_loop (finalize_all (head_at_exit_entry s) s)
      else of_loop (finalize_one func (head_at_exit_entry s) (tail_at_exit_entry s) s))"

subsection \<open>The table that is represented\<close>

text \<open>The entries seen as elements of a linked list whose data are destructors and their arguments.\<close>

definition as_element :: "atexit_entry \<Rightarrow> (u32 \<times> u32) list_element" where
  "as_element e = \<lparr>ldata = (destructor e, argument e), lnext = entry_next e, lprev = 0\<rparr>"

definition as_elements :: "(u32 \<Rightarrow> atexit_entry option) \<Rightarrow> u32 \<Rightarrow> (u32 \<times> u32) list_element option" where
  "as_elements m a = map_option as_element (m a)"

definition tinv :: "atexit \<Rightarrow> (u32 \<times> u32) list \<Rightarrow> u32 list \<Rightarrow> u32 set \<Rightarrow> bool" where
  "tinv s xs as L \<longleftrightarrow> nexts (as_elements (entries s)) (head_at_exit_entry s) as xs \<and> distinct as \<and> 0 \<notin> set as \<and> set as \<inter> L = {} \<and>
     (as \<noteq> [] \<longrightarrow> tail_at_exit_entry s = last as) \<and> heap_live (at_heap s) (set as \<union> L)"

definition table :: "atexit \<Rightarrow> (u32 \<times> u32) list \<Rightarrow> u32 set \<Rightarrow> bool" where
  "table s xs L \<longleftrightarrow> (\<exists>as. tinv s xs as L)"

lemma as_elements_Some: "as_elements m a = Some x \<longleftrightarrow> (\<exists>e. m a = Some e \<and> x = as_element e)"
  by (auto simp: as_elements_def)

lemma as_elements_upd [simp]: "as_elements (m(a \<mapsto> e)) = (as_elements m)(a \<mapsto> as_element e)" "as_elements (m(a := None)) = (as_elements m)(a := None)"
  by (auto simp: as_elements_def)

lemma as_element_sel [simp]: "ldata (as_element e) = (destructor e, argument e)" "lnext (as_element e) = entry_next e"
  "as_element (e\<lparr>entry_next := n\<rparr>) = (as_element e)\<lparr>lnext := n\<rparr>"
  by (simp_all add: as_element_def)

lemma nexts_append:
  assumes "nexts m p as xs" "as \<noteq> []" "distinct as" "q \<notin> set as" "q \<noteq> 0"
  shows "\<exists>e. m (last as) = Some e \<and> nexts (m(q \<mapsto> \<lparr>ldata = x, lnext = 0, lprev = 0\<rparr>, last as \<mapsto> e\<lparr>lnext := q\<rparr>)) p (as @ [q]) (xs @ [x])"
  using assms
proof (induction m p as xs rule: nexts.induct)
  case (2 m p a as y ys)
  obtain e where e: "m a = Some e" "ldata e = y" "nexts m (lnext e) as ys" "p = a" using 2(2) by (auto split: option.splits)
  show ?case
  proof (cases "as = []")
    case True
    then have "ys = []" using nexts_length [OF e(3)] by simp
    then show ?thesis using True e 2(5) by auto
  next
    case False
    have d: "distinct as" "q \<notin> set as" "a \<notin> set as" "a \<noteq> q" using 2(4,5) by auto
    from 2(1) [OF e(1,3) False d(1,2) 2(6)] obtain f where f: "m (last as) = Some f"
        "nexts (m(q \<mapsto> \<lparr>ldata = x, lnext = 0, lprev = 0\<rparr>, last as \<mapsto> f\<lparr>lnext := q\<rparr>)) (lnext e) (as @ [q]) (ys @ [x])" by blast
    have "(m(q \<mapsto> \<lparr>ldata = x, lnext = 0, lprev = 0\<rparr>, last as \<mapsto> f\<lparr>lnext := q\<rparr>)) a = Some e" using e(1) d False by auto
    then show ?thesis using e(2,4) f False by (auto simp del: fun_upd_apply)
  qed
qed simp_all

lemma nexts_tl: "nexts m p (a # as) (x # xs) \<Longrightarrow> distinct (a # as) \<Longrightarrow> \<exists>e. m a = Some e \<and> ldata e = x \<and> p = a \<and> nexts (m(a := None)) (lnext e) as xs"
  by (auto split: option.splits intro!: nexts_cong [where m = m])

lemma free_entry_live:
  assumes "heap_live (at_heap s) (set as \<union> L)" "a \<in> set as" "distinct as" "set as \<inter> L = {}"
  shows "\<exists>k. free_entry a s = Ok (s\<lparr>at_heap := k, entries := (entries s)(a := None)\<rparr>) \<and> heap_live k (set (remove1 a as) \<union> L)"
proof -
  obtain k where k: "kfree a (at_heap s) = Ok k" "heap_live k (set as \<union> L - {a})" using km.free_cases [OF assms(1), of a] assms(2) by auto
  have "set as \<union> L - {a} = set (remove1 a as) \<union> L" using assms(2-4) by (auto simp: set_remove1_eq)
  then show ?thesis using k by (auto simp: free_entry_def)
qed

subsection \<open>Registering a destructor\<close>

lemma cxa_atexit_sim:
  assumes R: "table s xs L"
  shows "(\<exists>m. cxa_atexit d arg dso s = Panic m) \<or>
    (\<exists>s'. cxa_atexit d arg dso s = Ok (0, s') \<and> table s' (xs @ [(d, arg)]) L \<and> calls s' = calls s)"
proof -
  obtain as where I: "tinv s xs as L" using R by (auto simp: table_def)
  then have N: "nexts (as_elements (entries s)) (head_at_exit_entry s) as xs" "distinct as" "0 \<notin> set as" "set as \<inter> L = {}"
    "as \<noteq> [] \<longrightarrow> tail_at_exit_entry s = last as" "heap_live (at_heap s) (set as \<union> L)" by (simp_all add: tinv_def)
  have "unat sizeof_atexit_entry \<le> 2 ^ 28" by simp
  from km.alloc_cases [OF N(6) this] show ?thesis
  proof cases
    case (1 m)
    then show ?thesis by (simp add: cxa_atexit_def)
  next
    case (2 p k)
    let ?e = "\<lparr>destructor = d, argument = arg, dso_handle = dso, entry_next = 0\<rparr>"
    have p: "p \<notin> set as" "p \<notin> L" using 2(3) by auto
    show ?thesis
    proof (cases as)
      case Nil
      then have "xs = []" "head_at_exit_entry s = 0" using nexts_length [OF N(1)] nexts_head [OF N(1)] by auto
      moreover have "tinv (s\<lparr>at_heap := k, entries := (entries s)(p \<mapsto> ?e), head_at_exit_entry := p, tail_at_exit_entry := p\<rparr>) [(d, arg)] [p] L"
        using 2(2,4) p Nil by (simp add: tinv_def)
      ultimately show ?thesis using 2(1,4) by (auto simp: cxa_atexit_def table_def)
    next
      case (Cons a bs)
      then have ne: "as \<noteq> []" by simp
      have h: "head_at_exit_entry s \<noteq> 0" using nexts_head [OF N(1)] N(3) Cons by auto
      from nexts_append [OF N(1) ne N(2) p(1) 2(4), of "(d, arg)"] obtain e where e: "entries s (last as) = Some e"
          "nexts ((as_elements (entries s))(p \<mapsto> as_element ?e, last as \<mapsto> (as_element e)\<lparr>lnext := p\<rparr>)) (head_at_exit_entry s) (as @ [p]) (xs @ [(d, arg)])"
        by (auto simp: as_elements_Some as_element_def)
      have q: "last as \<noteq> p" using p(1) ne by auto
      have "tinv (s\<lparr>at_heap := k, entries := (entries s)(p \<mapsto> ?e, last as \<mapsto> e\<lparr>entry_next := p\<rparr>), tail_at_exit_entry := p\<rparr>) (xs @ [(d, arg)]) (as @ [p]) L"
        using e(2) N(2-4) 2(2,4) p by (simp add: tinv_def)
      then show ?thesis using 2(1,4) h N(5) ne e(1) q by (auto simp: cxa_atexit_def set_entry_next_def get_entry_def table_def)
    qed
  qed
qed

subsection \<open>Calling the destructors\<close>

lemma finalize_all_sim:
  assumes "nexts (as_elements (entries s)) p as xs" "distinct as" "0 \<notin> set as" "set as \<inter> L = {}" "heap_live (at_heap s) (set as \<union> L)"
  shows "\<exists>s'. finalize_all p s = Some (Ok s') \<and> table s' [] L \<and> calls s' = calls s @ filter (\<lambda>(d, a). d \<noteq> 0) xs"
  using assms
proof (induction as arbitrary: s p xs)
  case Nil
  then have "p = 0" "xs = []" by (cases xs; simp)+
  moreover have "tinv (s\<lparr>head_at_exit_entry := 0, tail_at_exit_entry := 0\<rparr>) [] [] L" using Nil by (simp add: tinv_def)
  ultimately show ?case by (subst finalize_all.simps) (auto simp: table_def)
next
  case (Cons a as)
  obtain x ys where xs: "xs = x # ys" using nexts_length [OF Cons.prems(1)] by (cases xs) auto
  from nexts_tl [OF Cons.prems(1) [unfolded xs] Cons.prems(2)] obtain e where e: "entries s a = Some e" "x = (destructor e, argument e)" "p = a"
      "nexts (as_elements ((entries s)(a := None))) (entry_next e) as ys" by (auto simp: as_elements_Some)
  let ?s = "if destructor e \<noteq> 0 then call e s else s"
  have s: "entries ?s = entries s" "at_heap ?s = at_heap s" "calls ?s = calls s @ filter (\<lambda>(d, a). d \<noteq> 0) [x]" using e(2) by (simp_all add: call_def)
  have "heap_live (at_heap ?s) (set (a # as) \<union> L)" using Cons.prems(5) s by simp
  from free_entry_live [OF this _ Cons.prems(2,4), of a] obtain k where k: "free_entry a ?s = Ok (?s\<lparr>at_heap := k, entries := (entries ?s)(a := None)\<rparr>)"
      "heap_live k (set as \<union> L)" by auto
  let ?s' = "?s\<lparr>at_heap := k, entries := (entries ?s)(a := None)\<rparr>"
  have "\<exists>s'. finalize_all (entry_next e) ?s' = Some (Ok s') \<and> table s' [] L \<and> calls s' = calls ?s' @ filter (\<lambda>(d, a). d \<noteq> 0) ys"
    using e(4) s(1) Cons.prems k(2) by (intro Cons.IH) (simp_all del: fun_upd_apply)
  moreover have "finalize_all p s = finalize_all (entry_next e) ?s'"
    using e Cons.prems(3) k(1) by (subst finalize_all.simps) (simp add: get_entry_def)
  moreover have "calls ?s' = calls s @ filter (\<lambda>(d, a). d \<noteq> 0) [x]" using s(3) by simp
  ultimately show ?case by (auto simp: xs)
qed

lemma remove_entry_sim:
  assumes I: "tinv s (xs1 @ x # xs2) (as1 @ b # bs) L" and len: "length as1 = length xs1" and e: "entries s b = Some e"
    and prev: "as1 \<noteq> [] \<longrightarrow> prev = last as1"
  shows "\<exists>s'. remove_entry prev b e s = Ok s' \<and> table s' (xs1 @ xs2) L \<and> calls s' = calls s"
proof -
  note N = I [unfolded tinv_def, THEN conjunct1] and d = I [unfolded tinv_def, THEN conjunct2, THEN conjunct1]
  have r: "0 \<notin> set (as1 @ b # bs)" "set (as1 @ b # bs) \<inter> L = {}" "tail_at_exit_entry s = last (as1 @ b # bs)" "heap_live (at_heap s) (set (as1 @ b # bs) \<union> L)"
    using I by (simp_all add: tinv_def)
  show ?thesis
  proof (cases as1 rule: rev_cases)
    case Nil
    then have xs1: "xs1 = []" using len by simp
    have h: "head_at_exit_entry s = b" and n: "nexts (as_elements ((entries s)(b := None))) (entry_next e) bs xs2"
      using nexts_tl [of "as_elements (entries s)" "head_at_exit_entry s" b bs x xs2] N d Nil xs1 e by (auto simp: as_elements_Some)
    let ?s = "s\<lparr>head_at_exit_entry := entry_next e\<rparr>"
    have "heap_live (at_heap ?s) (set (b # bs) \<union> L)" using r(4) Nil by simp
    from free_entry_live [OF this, of b] obtain k where k: "free_entry b ?s = Ok (?s\<lparr>at_heap := k, entries := (entries ?s)(b := None)\<rparr>)" "heap_live k (set bs \<union> L)"
      using d r(2) Nil by auto
    have "tinv (?s\<lparr>at_heap := k, entries := (entries ?s)(b := None)\<rparr>) xs2 bs L" using n d r k(2) Nil by (simp add: tinv_def del: fun_upd_apply)
    then show ?thesis using h k(1) xs1 by (auto simp: remove_entry_def table_def)
  next
    case (snoc as0 a)
    obtain xs0 y where xs1: "xs1 = xs0 @ [y]" using len snoc by (cases xs1 rule: rev_cases) auto
    have l0: "length as0 = length xs0" using len snoc xs1 by simp
    have "nexts (as_elements (entries s)) (head_at_exit_entry s) (as0 @ a # b # bs) (xs0 @ y # x # xs2)" "distinct (as0 @ a # b # bs)"
      using N d snoc xs1 by simp_all
    from nexts_remove [OF l0 this] obtain ea eb where m: "as_elements (entries s) a = Some ea" "as_elements (entries s) b = Some eb" "lnext eb = hd_or bs 0"
        "nexts ((as_elements (entries s))(a \<mapsto> ea\<lparr>lnext := lnext eb\<rparr>, b := None)) (head_at_exit_entry s) (as0 @ a # bs) (xs0 @ y # xs2)" by blast
    obtain f where f: "entries s a = Some f" "ea = as_element f" using m(1) by (auto simp: as_elements_Some)
    have eb: "eb = as_element e" using m(2) e by (simp add: as_elements_def)
    have n: "entry_next e = hd_or bs 0" using m(3) by (simp only: eb as_element_sel)
    have c: "nexts (as_elements ((entries s)(a \<mapsto> f\<lparr>entry_next := entry_next e\<rparr>, b := None))) (head_at_exit_entry s) (as0 @ a # bs) (xs0 @ y # xs2)"
      using m(4) by (simp only: f(2) eb as_element_sel as_elements_upd)
    have "hd_or (as1 @ b # bs) 0 \<in> set (as0 @ [a])" unfolding snoc by (cases as0) simp_all
    then have "head_at_exit_entry s \<in> set (as0 @ [a])" unfolding nexts_head [OF N] .
    moreover have "b \<notin> set (as0 @ [a])" using d snoc by auto
    ultimately have ne: "b \<noteq> head_at_exit_entry s" "a \<noteq> b" by auto
    have p: "prev = a" using prev snoc by simp
    have live: "heap_live (at_heap s) (set (as0 @ a # b # bs) \<union> L)" using r(4) snoc by simp
    have fr: "\<exists>k. free_entry b s' = Ok (s'\<lparr>at_heap := k, entries := (entries s')(b := None)\<rparr>) \<and> heap_live k (set (as0 @ a # bs) \<union> L)" if "at_heap s' = at_heap s" for s'
    proof -
      have "remove1 b (as0 @ a # b # bs) = as0 @ a # bs" using d snoc by (simp add: remove1_append)
      then show ?thesis using free_entry_live [of s' "as0 @ a # b # bs" L b] live that d r(2) snoc by auto
    qed
    show ?thesis
    proof (cases "bs = []")
      case True
      let ?s = "s\<lparr>tail_at_exit_entry := a, entries := (entries s)(a \<mapsto> f\<lparr>entry_next := 0\<rparr>)\<rparr>"
      obtain k where k: "free_entry b ?s = Ok (?s\<lparr>at_heap := k, entries := (entries ?s)(b := None)\<rparr>)" "heap_live k (set (as0 @ a # bs) \<union> L)"
        using fr [of ?s] by auto
      have "tinv (?s\<lparr>at_heap := k, entries := (entries ?s)(b := None)\<rparr>) (xs0 @ y # xs2) (as0 @ a # bs) L"
        using c n d r k(2) snoc True by (simp add: tinv_def del: fun_upd_apply)
      then show ?thesis using ne r(3) k(1) f(1) p True xs1 by (auto simp: remove_entry_def set_entry_next_def get_entry_def table_def)
    next
      case False
      then have t: "b \<noteq> tail_at_exit_entry s" using r(3) d by auto
      obtain k where k: "free_entry b s = Ok (s\<lparr>at_heap := k, entries := (entries s)(b := None)\<rparr>)" "heap_live k (set (as0 @ a # bs) \<union> L)"
        using fr [of s] by auto
      let ?s = "s\<lparr>at_heap := k, entries := (entries s)(b := None, a \<mapsto> f\<lparr>entry_next := entry_next e\<rparr>)\<rparr>"
      have "tinv ?s (xs0 @ y # xs2) (as0 @ a # bs) L"
        using c d r k(2) snoc False fun_upd_twist [OF ne(2), of "entries s"] by (simp add: tinv_def del: fun_upd_apply)
      then show ?thesis using ne t k(1) f(1) p xs1 by (auto simp: remove_entry_def set_entry_next_def get_entry_def table_def)
    qed
  qed
qed

lemma finalize_one_sim:
  assumes "tinv s (xs1 @ xs2) (as1 @ bs) L" "length as1 = length xs1" "nexts (as_elements (entries s)) p bs xs2" "as1 \<noteq> [] \<longrightarrow> prev = last as1"
  shows "(func \<notin> fst ` set xs2 \<and> finalize_one func p prev s = Some (Ok s)) \<or>
    (\<exists>ys a zs s'. xs2 = ys @ (func, a) # zs \<and> func \<notin> fst ` set ys \<and> finalize_one func p prev s = Some (Ok s') \<and>
       table s' (xs1 @ ys @ zs) L \<and> calls s' = calls s @ [(func, a)])"
  using assms
proof (induction xs2 arbitrary: xs1 as1 bs p prev)
  case Nil
  then have "p = 0" by (cases bs) simp_all
  then show ?case by (subst finalize_one.simps) simp
next
  case (Cons x xs)
  obtain b cs where bs: "bs = b # cs" using nexts_length [OF Cons.prems(3)] by (cases bs) auto
  obtain e where e: "entries s b = Some e" "x = (destructor e, argument e)" "p = b" "nexts (as_elements (entries s)) (entry_next e) cs xs"
    using Cons.prems(3) by (auto simp: bs as_elements_Some split: option.splits)
  have z: "b \<noteq> 0" using Cons.prems(1) bs by (auto simp: tinv_def)
  show ?case
  proof (cases "destructor e = func")
    case True
    have "tinv (call e s) (xs1 @ x # xs) (as1 @ b # cs) L" "entries (call e s) b = Some e" using Cons.prems(1) e(1) bs by (simp_all add: tinv_def call_def)
    from remove_entry_sim [OF this(1) Cons.prems(2) this(2) Cons.prems(4)] obtain s' where
      "remove_entry prev b e (call e s) = Ok s'" "table s' (xs1 @ xs) L" "calls s' = calls s @ [(func, argument e)]"
      using True by (auto simp: call_def)
    moreover from this have "finalize_one func p prev s = Some (Ok s')" using e True z by (subst finalize_one.simps) (simp add: get_entry_def)
    ultimately show ?thesis using e(2) True by (intro disjI2 exI [of _ "[]"] exI [of _ "argument e"] exI [of _ xs] exI [of _ s']) simp
  next
    case False
    have step: "finalize_one func p prev s = finalize_one func (entry_next e) b s" using e False z by (subst finalize_one.simps) (simp add: get_entry_def)
    have I: "tinv s ((xs1 @ [x]) @ xs) ((as1 @ [b]) @ cs) L" "length (as1 @ [b]) = length (xs1 @ [x])" "as1 @ [b] \<noteq> [] \<longrightarrow> b = last (as1 @ [b])"
      using Cons.prems(1,2) bs by simp_all
    from Cons.IH [OF I(1,2) e(4) I(3)] show ?thesis
    proof (elim disjE exE conjE)
      fix ys a zs s' assume r: "xs = ys @ (func, a) # zs" "func \<notin> fst ` set ys" "finalize_one func (entry_next e) b s = Some (Ok s')"
        "table s' ((xs1 @ [x]) @ ys @ zs) L" "calls s' = calls s @ [(func, a)]"
      then show ?thesis using step e(2) False
        by (intro disjI2 exI [of _ "x # ys"] exI [of _ a] exI [of _ zs] exI [of _ s']) simp
    qed (use step e(2) False in simp)
  qed
qed

subsection \<open>Properties\<close>

text \<open>What the compiler has the kernel do for its static objects: one registration behind each constructor.\<close>

definition register_all :: "(u32 \<times> u32) list \<Rightarrow> atexit \<Rightarrow> atexit outcome" where
  "register_all = ofold (\<lambda>(d, a) s. obind (cxa_atexit d a 0 s) (\<lambda>(_, s'). Ok s'))"

lemma register_all_sim:
  "table s xs L \<Longrightarrow> (\<exists>m. register_all ds s = Panic m) \<or> (\<exists>s'. register_all ds s = Ok s' \<and> table s' (xs @ ds) L \<and> calls s' = calls s)"
proof (induction ds arbitrary: s xs)
  case (Cons x ds)
  obtain d a where x: "x = (d, a)" by (cases x)
  from cxa_atexit_sim [OF Cons.prems, of d a 0] show ?case
  proof (elim disjE exE conjE)
    fix s1 assume s1: "cxa_atexit d a 0 s = Ok (0, s1)" "table s1 (xs @ [(d, a)]) L" "calls s1 = calls s"
    from Cons.IH [OF s1(2)] show ?thesis using s1 by (auto simp: register_all_def x)
  qed (simp add: register_all_def x)
qed (simp add: register_all_def)

text \<open>
  Unless the heap is full, the destructors that were registered are called at the end once each, with their arguments, and nothing is
  left of the table; they are called in the order of their construction, which the language asks to be reversed.
\<close>

theorem finalize_in_order:
  assumes "table s [] L"
  shows "(\<exists>m. register_all ds s = Panic m) \<or> (\<exists>s1 s2. register_all ds s = Ok s1 \<and> cxa_finalize 0 s1 = Ok s2 \<and>
    table s2 [] L \<and> calls s2 = calls s @ filter (\<lambda>(d, a). d \<noteq> 0) ds)"
  using register_all_sim [OF assms, of ds]
proof (elim disjE exE conjE)
  fix s1 assume s1: "register_all ds s = Ok s1" "table s1 ([] @ ds) L" "calls s1 = calls s"
  then obtain as where "tinv s1 ds as L" by (auto simp: table_def)
  then have "nexts (as_elements (entries s1)) (head_at_exit_entry s1) as ds" "distinct as" "0 \<notin> set as" "set as \<inter> L = {}" "heap_live (at_heap s1) (set as \<union> L)"
    by (simp_all add: tinv_def)
  from finalize_all_sim [OF this] show ?thesis using s1(1,3) by (auto simp: cxa_finalize_def)
qed simp

definition empty_table :: atexit where
  "empty_table = \<lparr>at_heap = boot_heap, entries = (\<lambda>_. None), head_at_exit_entry = 0, tail_at_exit_entry = 0, calls = []\<rparr>"

lemma empty_table: "table empty_table [] {}"
proof -
  have "heap_live boot_heap {}" unfolding heap_live_def using boot_heap_inv by auto
  then have "tinv empty_table [] [] {}" by (simp add: tinv_def empty_table_def)
  then show ?thesis by (auto simp: table_def)
qed

theorem finalize_in_order_witness:
  "(\<exists>m. register_all [(0xC0101000, 1), (0xC0102000, 2)] empty_table = Panic m) \<or>
    (\<exists>s1 s2. register_all [(0xC0101000, 1), (0xC0102000, 2)] empty_table = Ok s1 \<and> cxa_finalize 0 s1 = Ok s2 \<and>
      calls s2 = [(0xC0101000, 1), (0xC0102000, 2)])"
  using finalize_in_order [OF empty_table, of "[(0xC0101000, 1), (0xC0102000, 2)]"] by (auto simp: empty_table_def)

text \<open>
  Asked for one destructor, the table calls the first entry that has it and forgets this entry alone, wherever it is; if there is none
  nothing happens.
\<close>

theorem finalize_one_correct:
  assumes "table s xs L" "func \<noteq> 0"
  shows "(func \<notin> fst ` set xs \<and> cxa_finalize func s = Ok s) \<or>
    (\<exists>ys a zs s'. xs = ys @ (func, a) # zs \<and> func \<notin> fst ` set ys \<and> cxa_finalize func s = Ok s' \<and>
       table s' (ys @ zs) L \<and> calls s' = calls s @ [(func, a)])"
proof -
  obtain as where I: "tinv s ([] @ xs) ([] @ as) L" using assms(1) by (auto simp: table_def)
  then have "nexts (as_elements (entries s)) (head_at_exit_entry s) as xs" by (simp add: tinv_def)
  note r = finalize_one_sim [OF I _ this, of "tail_at_exit_entry s" func, simplified]
  have "cxa_finalize func s = r" if "finalize_one func (head_at_exit_entry s) (tail_at_exit_entry s) s = Some r" for r
    using assms(2) that by (simp add: cxa_finalize_def)
  then show ?thesis using r by blast
qed

theorem finalize_one_correct_witness:
  "(\<exists>m. register_all [(7, 1), (9, 2), (9, 3)] empty_table = Panic m) \<or>
    (\<exists>s1 s2. register_all [(7, 1), (9, 2), (9, 3)] empty_table = Ok s1 \<and> cxa_finalize 9 s1 = Ok s2 \<and> table s2 [(7, 1), (9, 3)] {} \<and> calls s2 = [(9, 2)])"
  using register_all_sim [OF empty_table, of "[(7, 1), (9, 2), (9, 3)]"]
proof (elim disjE exE conjE)
  fix s1 assume s1: "register_all [(7, 1), (9, 2), (9, 3)] empty_table = Ok s1" "table s1 ([] @ [(7, 1), (9, 2), (9, 3)]) {}" "calls s1 = calls empty_table"
  have "\<exists>s2. cxa_finalize 9 s1 = Ok s2 \<and> table s2 [(7, 1), (9, 3)] {} \<and> calls s2 = [(9, 2)]"
    using finalize_one_correct [OF s1(2), of 9] s1(3) by (auto simp: Cons_eq_append_conv empty_table_def)
  then show ?thesis using s1(1) by blast
qed simp

end
