(* ===== verification/Mouse.thy ===== *)
theory Mouse
  imports Input Interrupts
begin

text \<open>
  Switching on the mouse, \<^verbatim>\<open>_mouse_init\<close> of \<^verbatim>\<open>src/kernel/input/mouse.c\<close>. The controller is hardware: what the reads of its two ports
  return, one after the other, are two sequences of bytes.
\<close>

subsection \<open>The ports of the controller\<close>

record controller =
  status_in :: "nat \<Rightarrow> u8"
  status_reads :: nat
  data_in :: "nat \<Rightarrow> u8"
  data_reads :: nat
  ctrl_out :: "(u16 \<times> u8) list"

definition read_ctrl_status :: "controller \<Rightarrow> u8 \<times> controller" where
  "read_ctrl_status c = (status_in c (status_reads c), c\<lparr>status_reads := status_reads c + 1\<rparr>)"

definition read_data :: "controller \<Rightarrow> u8 \<times> controller" where
  "read_data c = (data_in c (data_reads c), c\<lparr>data_reads := data_reads c + 1\<rparr>)"

definition write_ctrl :: "u16 \<Rightarrow> u8 \<Rightarrow> controller \<Rightarrow> controller" where
  "write_ctrl port b c = c\<lparr>ctrl_out := ctrl_out c @ [(port, b)]\<rparr>"

subsection \<open>Operations\<close>

fun wait_loop :: "(u8 \<Rightarrow> bool) \<Rightarrow> nat \<Rightarrow> controller \<Rightarrow> controller" where
  "wait_loop is_ready 0 c = c"
| "wait_loop is_ready (Suc timeout) c = (let (b, c') = read_ctrl_status c in if is_ready b then c' else wait_loop is_ready timeout c')"

abbreviation (input) wait_timeout :: nat where "wait_timeout \<equiv> 100000"

definition mouse_wait :: "u32 \<Rightarrow> controller \<Rightarrow> controller" where
  "mouse_wait typ =
     (if typ = 0 then wait_loop (\<lambda>b. b AND 1 = 1) wait_timeout else wait_loop (\<lambda>b. b AND 2 = 0) wait_timeout)"

definition mouse_write :: "u8 \<Rightarrow> controller \<Rightarrow> controller" where
  "mouse_write b c = write_ctrl 0x60 b (mouse_wait 1 (write_ctrl 0x64 0xd4 (mouse_wait 1 c)))"

definition mouse_read :: "controller \<Rightarrow> u8 \<times> controller" where
  "mouse_read c = read_data (mouse_wait 0 c)"

definition mouse_init :: "u32 \<Rightarrow> input \<times> controller \<times> int_state \<Rightarrow> status \<times> input \<times> controller \<times> int_state" where
  "mouse_init isr = (\<lambda>(s, c, t).
     let s1 = s\<lparr>last_button_states := 0, interrupts := False\<rparr>;
         c1 = write_ctrl 0x64 0xa8 (mouse_wait 1 c);
         c2 = write_ctrl 0x64 0x20 (mouse_wait 1 c1);
         (st, c3) = read_data (mouse_wait 0 c2);
         st' = (st OR 2) AND 0xdf;
         c4 = write_ctrl 0x64 0x60 (mouse_wait 1 c3);
         c5 = write_ctrl 0x60 st' (mouse_wait 1 c4);
         (_, c6) = mouse_read (mouse_write 0xf6 c5);
         (_, c7) = mouse_read (mouse_write 0xf4 c6);
         t1 = snd (install_isr 0x2c (Installed isr) t) in
     (SUCCESS, s1\<lparr>interrupts := True\<rparr>, c7, t1))"

subsection \<open>What is said to the controller\<close>

text \<open>A wait reads the status until the controller is ready or the time is over, and changes nothing else.\<close>

lemma wait_loop_reads: "\<exists>n\<le>t. wait_loop P t c = c\<lparr>status_reads := status_reads c + n\<rparr>"
proof (induction t arbitrary: c)
  case (Suc t)
  show ?case
  proof (cases "P (status_in c (status_reads c))")
    case True
    then show ?thesis by (intro exI [of _ 1]) (simp add: read_ctrl_status_def)
  next
    case False
    obtain n where "n \<le> t" "wait_loop P t (snd (read_ctrl_status c)) = (snd (read_ctrl_status c))\<lparr>status_reads := status_reads (snd (read_ctrl_status c)) + n\<rparr>"
      using Suc.IH by blast
    then show ?thesis using False by (intro exI [of _ "Suc n"]) (simp add: read_ctrl_status_def)
  qed
qed simp

text \<open>A part of the conversation: at most \<open>k\<close> waits, \<open>d\<close> bytes of data that are read, and the bytes \<open>ws\<close> that are written.\<close>

definition talks :: "nat \<Rightarrow> nat \<Rightarrow> (u16 \<times> u8) list \<Rightarrow> controller \<Rightarrow> controller \<Rightarrow> bool" where
  "talks k d ws c c' \<longleftrightarrow> (\<exists>j\<le>k * wait_timeout.
     c' = c\<lparr>status_reads := status_reads c + j, data_reads := data_reads c + d, ctrl_out := ctrl_out c @ ws\<rparr>)"

lemma talks_refl: "talks 0 0 [] c c"
  by (simp add: talks_def)

lemma talks_wait: "talks k d ws c c' \<Longrightarrow> talks (Suc k) d ws c (mouse_wait typ c')"
proof -
  assume "talks k d ws c c'"
  then obtain j where j: "j \<le> k * wait_timeout"
      "c' = c\<lparr>status_reads := status_reads c + j, data_reads := data_reads c + d, ctrl_out := ctrl_out c @ ws\<rparr>" by (auto simp: talks_def)
  obtain n where n: "n \<le> wait_timeout" "mouse_wait typ c' = c'\<lparr>status_reads := status_reads c' + n\<rparr>"
    using wait_loop_reads [of wait_timeout "\<lambda>b. b AND 1 = 1" c'] wait_loop_reads [of wait_timeout "\<lambda>b. b AND 2 = 0" c']
    unfolding mouse_wait_def by (cases "typ = 0") auto
  show ?thesis unfolding talks_def by (rule exI [of _ "j + n"]) (use j n in simp)
qed

lemma talks_send: "talks k d ws c c' \<Longrightarrow> talks k d (ws @ [(p, b)]) c (write_ctrl p b c')"
  by (auto simp: talks_def write_ctrl_def)

lemma talks_receive: "talks k d ws c c' \<Longrightarrow> talks k (Suc d) ws c (snd (read_data c')) \<and> fst (read_data c') = data_in c (data_reads c + d)"
  by (auto simp: talks_def read_data_def)

lemma talks_command: "talks k d ws c c' \<Longrightarrow> talks (Suc (Suc (Suc k))) (Suc d) (ws @ [(0x64, 0xd4), (0x60, b)]) c (snd (mouse_read (mouse_write b c')))"
  using talks_receive [OF talks_wait [OF talks_send [OF talks_wait [OF talks_send [OF talks_wait]]]]]
  by (simp add: mouse_read_def mouse_write_def)

subsection \<open>Properties\<close>

text \<open>
  Switching on the mouse always ends, after at most eleven waits of a hundred thousand reads each. Whatever the controller
  answers, it is sent the same commands, also when it was never ready, with its own status byte in which the interrupt is
  enabled and the mouse no longer disabled, and the handler of the mouse is the one of its vector; what the mouse replies is not looked at.
\<close>

theorem mouse_init_sends:
  "\<exists>n s' c'. mouse_init isr (s, c, t) = (SUCCESS, s', c', t\<lparr>isr_table := (isr_table t)(0x2c := Installed isr)\<rparr>) \<and>
    last_button_states s' = 0 \<and> interrupts s' \<and> n \<le> 11 * wait_timeout \<and> status_reads c' = status_reads c + n \<and> data_reads c' = data_reads c + 3 \<and>
    ctrl_out c' = ctrl_out c @ [(0x64, 0xa8), (0x64, 0x20), (0x64, 0x60), (0x60, (data_in c (data_reads c) OR 2) AND 0xdf),
      (0x64, 0xd4), (0x60, 0xf6), (0x64, 0xd4), (0x60, 0xf4)]"
proof -
  define c2 where "c2 = write_ctrl 0x64 0x20 (mouse_wait 1 (write_ctrl 0x64 0xa8 (mouse_wait 1 c)))"
  define st where "st = (data_in c (data_reads c) OR 2) AND 0xdf"
  define c3 where "c3 = snd (read_data (mouse_wait 0 c2))"
  define c5 where "c5 = write_ctrl 0x60 st (mouse_wait 1 (write_ctrl 0x64 0x60 (mouse_wait 1 c3)))"
  define c7 where "c7 = snd (mouse_read (mouse_write 0xf4 (snd (mouse_read (mouse_write 0xf6 c5)))))"
  have "talks 2 0 [(0x64, 0xa8), (0x64, 0x20)] c c2"
    using talks_send [OF talks_wait [OF talks_send [OF talks_wait [OF talks_refl [of c]]]]] by (simp add: c2_def numeral_2_eq_2)
  from talks_receive [OF talks_wait [OF this]] have r: "talks 3 1 [(0x64, 0xa8), (0x64, 0x20)] c c3" "fst (read_data (mouse_wait 0 c2)) = data_in c (data_reads c)"
    by (simp_all add: c3_def)
  have "talks 5 1 [(0x64, 0xa8), (0x64, 0x20), (0x64, 0x60), (0x60, st)] c c5"
    using talks_send [OF talks_wait [OF talks_send [OF talks_wait [OF r(1)]]]] by (simp add: c5_def)
  from talks_command [OF talks_command [OF this]] have e: "talks 11 3 [(0x64, 0xa8), (0x64, 0x20), (0x64, 0x60), (0x60, st), (0x64, 0xd4), (0x60, 0xf6), (0x64, 0xd4), (0x60, 0xf4)] c c7"
    by (simp add: c7_def numeral_3_eq_3)
  have "mouse_init isr (s, c, t) = (SUCCESS, s\<lparr>last_button_states := 0, interrupts := True\<rparr>, c7, t\<lparr>isr_table := (isr_table t)(0x2c := Installed isr)\<rparr>)"
    unfolding mouse_init_def by (simp add: split_def Let_def r(2) [unfolded c2_def] install_isr_def c7_def c5_def c3_def c2_def st_def)
  then show ?thesis using e unfolding talks_def st_def by auto
qed

end
