(* ===== verification/Spec2Isabelle.thy ===== *)
theory Spec2Isabelle
  imports Syscalls Console Ulib Gconsole Klib Ext2_Facts Linked_List Pci Region Painter Input Desktop Interrupts Vfs Elf_Facts Video Network Atexit Mouse
begin

text \<open>
  The Bikeshed kernel, an operating system for one 32-bit processor, as definitions of higher-order logic that are
  translated from its C and C++ sources, with theorems about them. Paths below are relative to \<^verbatim>\<open>src/\<close>.

  The parts and how they interact.
    The physical page allocator hands out 4 KiB pages from a bitmap. The kernel heap gets its pages from it and keeps a
    free list. Queues are objects of the heap that keep their entries ordered by a key. The virtual memory keeps a directory
    of page tables, which are pages of the allocator, seen through a window at the end of the address space. Processes
    have a control block from a pool, a directory and a stack; the ready queues, one for each priority, hold those that can run,
    and the queues of sleepers, readers, semaphores, locks and messages hold the others. The clock interrupt
    wakes sleepers and preempts the running process. A process enters the kernel by a trap; the handler of a system call
    works on the same state. Files are on a ramdisk with an ext2 file system that is mapped into memory; the
    program loader reads a program from there and replaces the user part of the address space. The mouse puts events
    into a queue from which the desktop takes them; the screen is divided into rectangles and regions, kept in linked lists.

  The theories.
    \<^item> \<open>Prelude\<close>: the machine integers of \<^verbatim>\<open>include/types.h\<close>, the status codes of \<^verbatim>\<open>include/defs.h\<close>, the outcome of
      a piece of kernel code and its sequencing, and arithmetic of addresses.
    \<^item> \<open>Physical\<close>: \<^verbatim>\<open>kernel/memory/physical.c\<close>. The bitmap is a function from indices to words.
    \<^item> \<open>Kmalloc\<close>: \<^verbatim>\<open>kernel/memory/kmalloc.c\<close>. The heap is a memory of words with the globals of the file.
    \<^item> \<open>Queues\<close>: \<^verbatim>\<open>kernel/queues.c\<close>. Queue and node structures are maps from their addresses in the heap.
    \<^item> \<open>Paging\<close>: \<^verbatim>\<open>kernel/memory/paging.c\<close>. Physical memory, the loaded directory and the bitmap; every access of the code goes
      through the translation that the page tables in memory define. \<open>Address_Space\<close> adds an invariant of the tables and the bitmap.
    \<^item> \<open>Kernel_State\<close>: the globals of the kernel in one record, and the lifting of heap and queue operations to it. \<open>Example\<close> holds a
      concrete state for the instances of the properties.
    \<^item> \<open>Process\<close>: \<^verbatim>\<open>kernel/pcbs.c\<close>, \<^verbatim>\<open>stacks.c\<close>, \<^verbatim>\<open>scheduler.c\<close>, \<^verbatim>\<open>clock.c\<close>, \<^verbatim>\<open>system.c\<close>.
    \<^item> \<open>Semaphores\<close>, \<open>Locks\<close>, \<open>Messages\<close>: \<^verbatim>\<open>kernel/semaphores.c\<close>, \<^verbatim>\<open>locks.c\<close>, \<^verbatim>\<open>messages.c\<close>.
    \<^item> \<open>Sio\<close>: \<^verbatim>\<open>serial/sio.c\<close>. \<open>Console\<close>: \<^verbatim>\<open>kernel/c_io.c\<close>. \<open>Gconsole\<close>: \<^verbatim>\<open>kernel/video/gconsole.cpp\<close>, which replaces it.
      \<open>Ulib\<close>: \<^verbatim>\<open>writef\<close> of \<^verbatim>\<open>ulib/ulibc.c\<close> and \<^verbatim>\<open>kernel/serial.c\<close>. \<open>Klib\<close>: \<^verbatim>\<open>kernel/lib/klibc.c\<close> and \<^verbatim>\<open>string.c\<close>.
    \<^item> \<open>Syscalls\<close>: \<^verbatim>\<open>kernel/syscalls.c\<close>, on top of all of the above.
    \<^item> \<open>Ext2\<close>, \<open>Ext2_Facts\<close>: \<^verbatim>\<open>fs/ext2/\<close>, the image of the disk being a memory of bytes. \<open>Vfs\<close>: \<^verbatim>\<open>fs/vfs.c\<close> and \<^verbatim>\<open>fs/vfs_init.c\<close>.
    \<^item> \<open>Elf\<close>: \<^verbatim>\<open>kernel/elf/\<close>, the loader, on the address space, the heap and the file system. \<open>Elf_Facts\<close>: what it puts in memory.
    \<^item> \<open>Linked_List\<close>: \<^verbatim>\<open>kernel/data_structures/\<close>. \<open>Pci\<close>: \<^verbatim>\<open>kernel/pci/\<close>. \<open>Region\<close>: \<^verbatim>\<open>kernel/video/rect.cpp\<close> and \<^verbatim>\<open>region.cpp\<close>.
    \<^item> \<open>Painter\<close>: \<^verbatim>\<open>kernel/video/painter.cpp\<close>, \<^verbatim>\<open>painter24.cpp\<close>, \<^verbatim>\<open>painter32.cpp\<close>. The buffer of the screen is part of a memory of bytes.
    \<^item> \<open>Desktop\<close>: \<^verbatim>\<open>kernel/video/uicomponent.cpp\<close>, \<^verbatim>\<open>window.cpp\<close>, \<^verbatim>\<open>desktop.cpp\<close>. Components are objects at addresses, their class selects
      the methods; visiting a component and its children is one recursive function.
    \<^item> \<open>Video\<close>: \<^verbatim>\<open>kernel/video/vesa.c\<close> and \<^verbatim>\<open>video.c\<close>, with the calls of the BIOS as an argument; it gives the desktop its screen.
    \<^item> \<open>Network\<close>: \<^verbatim>\<open>kernel/network/e100.c\<close>, the start of a driver, on the list of devices and the table of handlers.
    \<^item> \<open>Atexit\<close>: \<^verbatim>\<open>kernel/cpp/\<close>, the table of destructors.
    \<^item> \<open>Input\<close>, \<open>Mouse\<close>: \<^verbatim>\<open>kernel/input/\<close>, the second one switching the mouse on. \<open>Interrupts\<close>: \<^verbatim>\<open>kernel/support.c\<close>.

  How code becomes a definition.
    A function of the code is a function with the code's name that takes the state it works on and returns an outcome: \<open>Ok\<close>
    with the result and the new state, \<open>Panic\<close> with the message, \<open>Fault\<close> for an access that the hardware refuses or that has no
    defined meaning, \<open>Diverge\<close> for a loop that does not end. Integers are words of the width of the code, so that they
    wrap around as they do there. A loop whose end is not evident is a partial function whose value is \<open>None\<close> if it does
    not end; that it ends is then part of the theorems. No definition uses fuel. Local loops have definitions of their own.

  What the groups of lemmas show.
    \<^item> Invariants: \<open>heap_inv\<close> (the blocks partition the heap, no two free ones touch), \<open>qrep\<close> and \<open>krep\<close> (which entries each queue
      holds, and that the rest of the heap is not shared), \<open>vm_ok\<close> (tables are distinct pages in use),
      \<open>exclusive\<close> (the pages of a program have frames that nothing else uses),
      \<open>lrep\<close> (the elements of a list), \<open>input_inv\<close> (events delivered and queued are those of the bytes), each kept by every operation.
    \<^item> Simulation lemmas, named with \<open>sim\<close>, say what an operation does to the abstract contents; the properties of processes,
      semaphores, locks, messages and system calls are proved from these alone.
    \<^item> Interfaces: the locale \<open>allocator\<close> (a live block stays as it is until it is freed), interpreted by the heap as \<open>km\<close>;
      \<open>ordered_queue\<close> (draining gives the entries in order), interpreted by the queues as \<open>pq\<close>; \<open>stack\<close>, interpreted by the linked lists as \<open>ll\<close>.
    \<^item> Properties with a claim number state what the code does in the states that their hypotheses describe: those of the
      invariant, with arguments that callers can give. Where a property leaves out a case, its text says which. Where the code
      differs from what a comment or the documentation promises, or from what callers rely on, the theorem states what happens.
    \<^item> Dispatching covers killed processes in the ready queues: the process is cleaned up with the address space that happens to be
      loaded, and the dispatcher starts again. The properties of regions cover the copy, those of reading files the
      indirect block and the reads that cross the end of a block, those of the loader the bytes that are in memory behind it.

  Bounds.
    Requests to the heap are at most \<open>2 ^ 28\<close> bytes, the size of its address range being less. Directories and tables have 1024
    entries. Ramdisks and sections of programs end below the window on the page tables.

  Not modelled.
    Boot code and interrupt stubs (assembly, \<^verbatim>\<open>boot/\<close>, \<^verbatim>\<open>kernel/isr_stubs.S\<close>), the destructors of the desktop,
    which never run, the BIOS and the code that calls it in real mode, the user programs and the rest of their library (the stubs
    of the system calls, \<^verbatim>\<open>spawn\<close>), tests, and the tool that builds the image. Interrupts happen between the
    operations of the model, which run with interrupts disabled in the code. Caches of the processor are not
    modelled: a change of a page table takes effect at once, which the code assures by reloading the directory or does
    not rely on.
\<close>

end
